(* ===== verification/Prelude.thy ===== *)
theory Prelude
  imports Main "HOL-Library.Word"
begin

text \<open>
  Vocabulary shared by every component of the development: the C integer widths and
  limits the sources rely on, the character classes of the C library (in the ``C''
  locale Redis runs in), bounds-checked reads of a buffer, and the generic lemmas on
  lists, options and words that several components use.  Facts that are safe as rewrite
  rules are declared \<open>[simp]\<close>; the others are gathered in the collections declared here.
\<close>

section \<open>Collections\<close>

named_theorems wf_intros \<open>introduction rules for the well-formedness invariants\<close>
named_theorems abs_simps \<open>how an operation acts on the abstraction of its state\<close>
named_theorems list_facts \<open>list lemmas that are not safe as default rewrite rules\<close>

section \<open>Machine integers\<close>

type_synonym byte = "8 word"
type_synonym u16 = "16 word"
type_synonym u32 = "32 word"
type_synonym u64 = "64 word"

abbreviation (input) INT16_MIN :: int where "INT16_MIN \<equiv> - 32768"
abbreviation (input) INT16_MAX :: int where "INT16_MAX \<equiv> 32767"
abbreviation (input) INT32_MIN :: int where "INT32_MIN \<equiv> - 2147483648"
abbreviation (input) INT32_MAX :: int where "INT32_MAX \<equiv> 2147483647"
abbreviation (input) LLONG_MIN :: int where "LLONG_MIN \<equiv> - 9223372036854775808"
abbreviation (input) LLONG_MAX :: int where "LLONG_MAX \<equiv> 9223372036854775807"
abbreviation (input) ULLONG_MAX :: nat where "ULLONG_MAX \<equiv> 18446744073709551615"

text \<open>The value of an \<open>int\<close> (32 bits, two's complement) after a conversion that wraps.\<close>

definition to_int32 :: "int \<Rightarrow> int" where
  "to_int32 n = sint (word_of_int n :: 32 word)"

text \<open>The value of a \<open>long long\<close> or \<open>long\<close> (64 bits) after a conversion that wraps.\<close>

definition to_int64 :: "int \<Rightarrow> int" where
  "to_int64 n = sint (word_of_int n :: 64 word)"

lemma to_int32_id [simp]: "INT32_MIN \<le> n \<Longrightarrow> n \<le> INT32_MAX \<Longrightarrow> to_int32 n = n"
  by (simp add: to_int32_def int_word_sint)

lemma to_int64_id [simp]: "LLONG_MIN \<le> n \<Longrightarrow> n \<le> LLONG_MAX \<Longrightarrow> to_int64 n = n"
  by (simp add: to_int64_def int_word_sint)

lemma to_int32_range: "INT32_MIN \<le> to_int32 n" "to_int32 n \<le> INT32_MAX"
  using sint_greater_eq [of "word_of_int n :: 32 word"] sint_less [of "word_of_int n :: 32 word"]
  by (simp_all add: to_int32_def)

lemma to_int64_range: "LLONG_MIN \<le> to_int64 n" "to_int64 n \<le> LLONG_MAX"
  using sint_greater_eq [of "word_of_int n :: 64 word"] sint_less [of "word_of_int n :: 64 word"]
  by (simp_all add: to_int64_def)

section \<open>Characters\<close>

text \<open>
  A \<open>char\<close> is a byte.  As an operand it is promoted to a signed \<open>int\<close> (\<open>char\<close> is signed
  on the platforms Redis targets); \<open>code\<close> is its value as \<open>unsigned char\<close>.
\<close>

definition code :: "char \<Rightarrow> nat" where
  "code c = of_char c"

definition schar :: "char \<Rightarrow> int" where
  "schar c = (if code c < 128 then int (code c) else int (code c) - 256)"

abbreviation NUL :: char where "NUL \<equiv> CHR 0x00"

definition isdigit :: "char \<Rightarrow> bool" where
  "isdigit c \<longleftrightarrow> 48 \<le> code c \<and> code c \<le> 57"

definition isspace :: "char \<Rightarrow> bool" where
  "isspace c \<longleftrightarrow> code c = 32 \<or> (9 \<le> code c \<and> code c \<le> 13)"

definition isprint :: "char \<Rightarrow> bool" where
  "isprint c \<longleftrightarrow> 32 \<le> code c \<and> code c \<le> 126"

definition tolower :: "char \<Rightarrow> char" where
  "tolower c = (if 65 \<le> code c \<and> code c \<le> 90 then char_of (code c + 32) else c)"

definition toupper :: "char \<Rightarrow> char" where
  "toupper c = (if 97 \<le> code c \<and> code c \<le> 122 then char_of (code c - 32) else c)"

lemma code_bound: "code c < 256"
  by (simp add: code_def)

lemma code_inject [simp]: "code a = code b \<longleftrightarrow> a = b"
  by (simp add: code_def)

lemma code_char_of [simp]: "n < 256 \<Longrightarrow> code (char_of n) = n"
  by (simp add: code_def)

lemma char_of_code [simp]: "char_of (code c) = c"
  by (simp add: code_def)

lemma code_eq_0 [simp]: "code c = 0 \<longleftrightarrow> c = NUL"
proof -
  have "code NUL = 0" by (simp add: code_def)
  then show ?thesis using code_inject [of c NUL] by simp
qed

lemma tolower_NUL: "tolower c = NUL \<longleftrightarrow> c = NUL" "tolower NUL = NUL"
proof -
  have "code (tolower c) = 0 \<longleftrightarrow> code c = 0"
    using code_bound [of c] by (auto simp: tolower_def simp del: code_eq_0)
  then show "tolower c = NUL \<longleftrightarrow> c = NUL" by simp
  show "tolower NUL = NUL" by (simp add: tolower_def code_def)
qed

section \<open>Buffers\<close>

text \<open>
  Memory that a routine reads through a pointer is a list with an index.  A read past the
  end of the buffer is undefined behaviour in C; here it is \<open>None\<close>.
\<close>

definition rd :: "'a list \<Rightarrow> nat \<Rightarrow> 'a option" where
  "rd buf i = (if i < length buf then Some (buf ! i) else None)"

lemma rd_None [simp]: "rd buf i = None \<longleftrightarrow> length buf \<le> i"
  by (auto simp: rd_def)

lemma rd_Some: "rd buf i = Some x \<longleftrightarrow> i < length buf \<and> buf ! i = x"
  by (auto simp: rd_def)

lemma rd_append_plus [simp]: "rd (xs @ ys) (length xs + i) = rd ys i"
  by (simp add: rd_def nth_append)

lemma rd_append_length [simp]: "rd (xs @ ys) (length xs) = rd ys 0"
  using rd_append_plus [of xs ys 0] by simp

lemma rd_Cons_0 [simp]: "rd (x # xs) 0 = Some x"
  by (simp add: rd_def)

lemma rd_Cons_Suc [simp]: "rd (x # xs) (Suc i) = rd xs i"
  by (simp add: rd_def)

lemma rd_at: "drop p buf = xs \<Longrightarrow> rd buf (p + i) = rd xs i"
  by (auto simp: rd_def)

lemma rd_at_0: "drop p buf = xs \<Longrightarrow> rd buf p = rd xs 0"
  using rd_at [of p buf xs 0] by simp

lemma rd_at_Suc: "drop p buf = xs \<Longrightarrow> rd buf (Suc p) = rd xs (Suc 0)"
  using rd_at [of p buf xs 1] by simp

lemma rd_first: "xs \<noteq> [] \<Longrightarrow> rd (xs @ ys) 0 = Some (hd xs)"
  by (cases xs) simp_all

lemma drop_at: "drop p buf = xs @ ys \<Longrightarrow> drop (p + length xs) buf = ys"
  by (metis add.commute append_eq_conv_conj drop_drop)

lemma drop_at_Cons: "drop p buf = x # ys \<Longrightarrow> drop (Suc p) buf = ys"
  by (metis drop_Suc list.sel(3) tl_drop)

text \<open>\<open>memmove\<close>: copy \<open>n\<close> cells from index \<open>src\<close> to index \<open>dst\<close>; the regions may overlap.\<close>

definition memmove :: "'a list \<Rightarrow> nat \<Rightarrow> nat \<Rightarrow> nat \<Rightarrow> 'a list" where
  "memmove buf dst src n = take dst buf @ take n (drop src buf) @ drop (dst + n) buf"

text \<open>\<open>memcpy\<close> of a separate region \<open>xs\<close> to index \<open>dst\<close>.\<close>

definition memcpy :: "'a list \<Rightarrow> nat \<Rightarrow> 'a list \<Rightarrow> 'a list" where
  "memcpy buf dst xs = take dst buf @ xs @ drop (dst + length xs) buf"

lemma length_memmove [simp]:
  "src + n \<le> length buf \<Longrightarrow> dst + n \<le> length buf \<Longrightarrow> length (memmove buf dst src n) = length buf"
  by (simp add: memmove_def)

lemma length_memcpy [simp]:
  "dst + length xs \<le> length buf \<Longrightarrow> length (memcpy buf dst xs) = length buf"
  by (simp add: memcpy_def)

section \<open>Little-endian integers\<close>

text \<open>\<open>le_bytes n v\<close> is the memory image of the low \<open>n\<close> bytes of \<open>v\<close> on a little-endian host.\<close>

primrec le_bytes :: "nat \<Rightarrow> int \<Rightarrow> byte list" where
  "le_bytes 0 v = []"
| "le_bytes (Suc n) v = word_of_int v # le_bytes n (v div 256)"

primrec le_uint :: "byte list \<Rightarrow> int" where
  "le_uint [] = 0"
| "le_uint (b # bs) = uint b + 256 * le_uint bs"

text \<open>The value of an \<open>n\<close>-byte signed integer.\<close>

definition le_sint :: "nat \<Rightarrow> byte list \<Rightarrow> int" where
  "le_sint n bs = signed_take_bit (8 * n - 1) (le_uint bs)"

lemma length_le_bytes [simp]: "length (le_bytes n v) = n"
  by (induction n arbitrary: v) simp_all

lemma le_uint_le_bytes: "le_uint (le_bytes n v) = v mod 256 ^ n"
proof (induction n arbitrary: v)
  case (Suc n)
  have "uint (word_of_int v :: byte) = v mod 256" by (simp add: uint_word_of_int)
  then show ?case using Suc mod_mult2_eq' [of v 256 "256 ^ n"] by (simp add: zmod_zmult2_eq)
qed simp

lemma le_uint_range: "0 \<le> le_uint bs" "le_uint bs < 256 ^ length bs"
proof (induction bs)
  case (Cons b bs)
  have b: "0 \<le> uint b" "uint b < 256" using uint_lt2p [of b] by simp_all
  { case 1 show ?case using Cons b by simp }
  { case 2 show ?case using Cons b by simp }
qed simp_all

lemma le_bytes_le_uint: "length bs = n \<Longrightarrow> le_bytes n (le_uint bs) = bs"
proof (induction bs arbitrary: n)
  case (Cons b bs)
  have b: "0 \<le> uint b" "uint b < 256" using uint_lt2p [of b] by simp_all
  have "(uint b + 256 * le_uint bs) div 256 = le_uint bs" using b by simp
  moreover have "word_of_int (uint b + 256 * le_uint bs) = b"
    by (rule word_uint_eqI, simp only: uint_word_of_int) (use b in simp)
  ultimately show ?case using Cons by auto
qed simp

lemma signed_take_bit_id:
  assumes "- (2 ^ n) \<le> (v::int)" "v < 2 ^ n"
  shows "signed_take_bit n v = v"
  using assms by (simp add: signed_take_bit_int_eq_self)

lemma le_sint_le_bytes:
  assumes "0 < n" "- (2 ^ (8 * n - 1)) \<le> v" "v < 2 ^ (8 * n - 1)"
  shows "le_sint n (le_bytes n v) = v"
proof -
  have p: "(256::int) ^ n = 2 ^ (8 * n)" by (simp add: power_mult)
  have "le_uint (le_bytes n v) = take_bit (8 * n) v"
    by (simp only: le_uint_le_bytes p take_bit_eq_mod)
  then have "le_sint n (le_bytes n v) = signed_take_bit (8 * n - 1) (take_bit (8 * n) v)"
    by (simp add: le_sint_def)
  also have "\<dots> = signed_take_bit (8 * n - 1) v"
    using assms(1) by (auto simp: signed_take_bit_take_bit)
  also have "\<dots> = v" using assms by (simp add: signed_take_bit_id)
  finally show ?thesis .
qed

section \<open>Options\<close>

lemma option_eqI: "(\<And>v. x = Some v \<longleftrightarrow> y = Some v) \<Longrightarrow> x = y"
  by (cases x; cases y) auto

end
