(* ===== verification/Util.thy ===== *)
theory Util
  imports Prelude
begin

text \<open>
  \<open>util.c\<close>: glob-style matching, memory sizes, and the conversions between \<open>long long\<close>
  and decimal strings.  The matcher works on the buffers behind its two pointers, so that a
  read outside them shows up as \<open>None\<close>; the conversions are proved to be inverse to each
  other on exactly the canonical decimals of the 64-bit integers.
\<close>

section \<open>Glob-style pattern matching\<close>

text \<open>\<open>while (pattern[1] == '*')\<close> in the \<open>'*'\<close> case.\<close>

function skip_stars :: "string \<Rightarrow> nat \<Rightarrow> int \<Rightarrow> (nat \<times> int) option" where
  "skip_stars pat pi plen =
     (case rd pat (Suc pi) of
        None \<Rightarrow> None
      | Some c \<Rightarrow> if c = CHR ''*'' then skip_stars pat (Suc pi) (plen - 1) else Some (pi, plen))"
  by pat_completeness auto
termination
  by (relation "measure (\<lambda>(pat, pi, plen). length pat - pi)") (auto simp: rd_Some)

text \<open>\<open>while (*pattern == '*')\<close> once the string is exhausted.\<close>

function skip_tail_stars :: "string \<Rightarrow> nat \<Rightarrow> int \<Rightarrow> int option" where
  "skip_tail_stars pat pi plen =
     (case rd pat pi of
        None \<Rightarrow> None
      | Some c \<Rightarrow> if c = CHR ''*'' then skip_tail_stars pat (Suc pi) (plen - 1) else Some plen)"
  by pat_completeness auto
termination
  by (relation "measure (\<lambda>(pat, pi, plen). length pat - pi)") (auto simp: rd_Some)

text \<open>Range test of a character class: the bounds are swapped first, then folded.\<close>

definition in_class_range :: "bool \<Rightarrow> char \<Rightarrow> char \<Rightarrow> char \<Rightarrow> bool" where
  "in_class_range nocase st en c =
     (let (s0, e0) = (if schar en < schar st then (en, st) else (st, en));
          (s1, e1, c1) = (if nocase then (tolower s0, tolower e0, tolower c) else (s0, e0, c))
      in schar s1 \<le> schar c1 \<and> schar c1 \<le> schar e1)"

definition char_eq :: "bool \<Rightarrow> char \<Rightarrow> char \<Rightarrow> bool" where
  "char_eq nocase a b = (if nocase then tolower a = tolower b else a = b)"

text \<open>
  The \<open>while(1)\<close> loop over the members of a character class.  It returns the pattern index
  and remaining length it stops at, and whether a member matched.
\<close>

function class_loop ::
    "string \<Rightarrow> nat \<Rightarrow> int \<Rightarrow> string \<Rightarrow> nat \<Rightarrow> bool \<Rightarrow> bool \<Rightarrow> (nat \<times> int \<times> bool) option" where
  "class_loop pat pi plen str si nocase m =
     (case rd pat pi of
        None \<Rightarrow> None
      | Some c \<Rightarrow>
        if c = CHR 0x5C then
          (case rd pat (Suc pi) of
             None \<Rightarrow> None
           | Some c1 \<Rightarrow>
             (case rd str si of
                None \<Rightarrow> None
              | Some sc \<Rightarrow>
                class_loop pat (pi + 2) (plen - 2) str si nocase (m \<or> c1 = sc)))
        else if c = CHR '']'' then Some (pi, plen, m)
        else if plen = 0 then Some (pi - 1, plen + 1, m)
        else
          (case rd pat (Suc pi) of
             None \<Rightarrow> None
           | Some c1 \<Rightarrow>
             if c1 = CHR ''-'' \<and> 3 \<le> plen then
               (case rd pat (pi + 2) of
                  None \<Rightarrow> None
                | Some c2 \<Rightarrow>
                  (case rd str si of
                     None \<Rightarrow> None
                   | Some sc \<Rightarrow>
                     class_loop pat (pi + 3) (plen - 3) str si nocase
                       (m \<or> in_class_range nocase c c2 sc)))
             else
               (case rd str si of
                  None \<Rightarrow> None
                | Some sc \<Rightarrow>
                  class_loop pat (Suc pi) (plen - 1) str si nocase (m \<or> char_eq nocase c sc))))"
  by pat_completeness auto
termination
  by (relation "measure (\<lambda>(pat, pi, plen, str, si, nocase, m). length pat - pi)")
     (auto simp: rd_Some)

declare skip_stars.simps [simp del] skip_tail_stars.simps [simp del] class_loop.simps [simp del]

text \<open>
  The matcher.  \<open>pi\<close> and \<open>si\<close> are the offsets of the two pointers in their buffers,
  \<open>plen\<close> and \<open>slen\<close> the two length counters, which are signed and can pass below zero.
  \<open>star_loop\<close> is the inner \<open>while(stringLen)\<close> of the \<open>'*'\<close> case.
  \<open>None\<close> is a read outside a buffer (or a pointer moved past its end).
\<close>

lemma skip_stars_bounds:
  "skip_stars pat pi plen = Some (pi', plen') \<Longrightarrow> pi < length pat \<and> pi \<le> pi'"
proof (induction pat pi plen rule: skip_stars.induct)
  case (1 pat pi plen)
  from "1.prems" obtain c where c: "rd pat (Suc pi) = Some c"
    by (subst (asm) skip_stars.simps) (auto split: option.splits)
  then have "pi < length pat" by (simp add: rd_Some)
  moreover have "pi \<le> pi'"
  proof (cases "c = CHR ''*''")
    case True
    with "1.prems" c have "skip_stars pat (Suc pi) (plen - 1) = Some (pi', plen')"
      by (subst (asm) skip_stars.simps) simp
    with "1.IH" [OF c True] show ?thesis by simp
  next
    case False
    with "1.prems" c show ?thesis by (subst (asm) skip_stars.simps) simp
  qed
  ultimately show ?case by simp
qed

lemma class_loop_bounds:
  "class_loop pat pi plen str si nocase m = Some (pi', plen', m') \<Longrightarrow>
     pi - 1 \<le> pi' \<and> pi' < length pat"
proof (induction pat pi plen str si nocase m rule: class_loop.induct)
  case (1 pat pi plen str si nocase m)
  from "1.IH" "1.prems" [unfolded class_loop.simps [of pat pi plen str si nocase m]]
  show ?case by (fastforce simp: rd_Some split: option.splits if_splits)
qed

text \<open>
  The cases \<open>'?'\<close>, \<open>'['\<close>, \<open>'\\'\<close> and \<open>default\<close> of the switch, which consume one character of
  the string.  \<open>Some None\<close> is \<open>return 0\<close>; \<open>Some (Some (q, n))\<close> is \<open>break\<close> with the pattern
  pointer at \<open>q\<close> and \<open>n\<close> pattern characters left.
\<close>

definition match_token ::
    "string \<Rightarrow> nat \<Rightarrow> int \<Rightarrow> char \<Rightarrow> string \<Rightarrow> nat \<Rightarrow> int \<Rightarrow> bool \<Rightarrow> (nat \<times> int) option option" where
  "match_token pat pi plen c str si slen nocase =
     (if c = CHR ''?'' then (if slen = 0 then Some None else Some (Some (pi, plen)))
      else if c = CHR ''['' then
        (case rd pat (Suc pi) of
           None \<Rightarrow> None
         | Some c1 \<Rightarrow>
           let neg = (c1 = CHR ''^'');
               q = (if neg then pi + 2 else pi + 1);
               qlen = (if neg then plen - 2 else plen - 1)
           in (case class_loop pat q qlen str si nocase False of
                 None \<Rightarrow> None
               | Some (q', qlen', m) \<Rightarrow>
                   if m \<noteq> neg then Some (Some (q', qlen')) else Some None))
      else
        let esc = (c = CHR 0x5C \<and> 2 \<le> plen);
            q = (if esc then pi + 1 else pi);
            qlen = (if esc then plen - 1 else plen)
        in (case rd pat q of
              None \<Rightarrow> None
            | Some pc \<Rightarrow>
              (case rd str si of
                 None \<Rightarrow> None
               | Some sc \<Rightarrow>
                 if char_eq nocase pc sc then Some (Some (q, qlen)) else Some None)))"

lemma match_token_progress:
  "match_token pat pi plen c str si slen nocase = Some (Some (q, qlen)) \<Longrightarrow> pi \<le> q"
  by (auto simp: match_token_def Let_def dest!: class_loop_bounds
      split: option.splits if_splits prod.splits)

function (sequential) stringmatchlen ::
    "string \<Rightarrow> nat \<Rightarrow> int \<Rightarrow> string \<Rightarrow> nat \<Rightarrow> int \<Rightarrow> bool \<Rightarrow> bool option"
  and star_loop ::
    "string \<Rightarrow> nat \<Rightarrow> int \<Rightarrow> string \<Rightarrow> nat \<Rightarrow> int \<Rightarrow> bool \<Rightarrow> bool option"
where
  "stringmatchlen pat pi plen str si slen nocase =
     (if plen = 0 then Some (slen = 0)
      else (case rd pat pi of
        None \<Rightarrow> None
      | Some c \<Rightarrow>
        if c = CHR ''*'' then
          (case skip_stars pat pi plen of
             None \<Rightarrow> None
           | Some (pi', plen') \<Rightarrow>
               if plen' = 1 then Some True
               else star_loop pat pi' plen' str si slen nocase)
        else
          (case match_token pat pi plen c str si slen nocase of
             None \<Rightarrow> None
           | Some None \<Rightarrow> Some False
           | Some (Some (q, qlen)) \<Rightarrow>
               if slen - 1 = 0 then
                 map_option (\<lambda>rest. rest = 0) (skip_tail_stars pat (Suc q) (qlen - 1))
               else stringmatchlen pat (Suc q) (qlen - 1) str (Suc si) (slen - 1) nocase)))"
| "star_loop pat pi plen str si slen nocase =
     (if slen = 0 then Some False
      else if length str < si \<or> length pat \<le> pi then None
      else (case stringmatchlen pat (Suc pi) (plen - 1) str si slen nocase of
              None \<Rightarrow> None
            | Some True \<Rightarrow> Some True
            | Some False \<Rightarrow> star_loop pat pi plen str (Suc si) (slen - 1) nocase))"
  by pat_completeness auto
termination
  by (relation "measures
        [\<lambda>s. case s of Inl (pat, pi, plen, str, si, slen, nocase) \<Rightarrow> 2 * (length pat - pi) + 1
                      | Inr (pat, pi, plen, str, si, slen, nocase) \<Rightarrow> 2 * (length pat - pi),
         \<lambda>s. case s of Inl (pat, pi, plen, str, si, slen, nocase) \<Rightarrow> 0
                      | Inr (pat, pi, plen, str, si, slen, nocase) \<Rightarrow> Suc (length str) - si]")
     (auto simp: rd_Some dest!: skip_stars_bounds match_token_progress)

declare stringmatchlen.simps [simp del] star_loop.simps [simp del]

text \<open>\<open>stringmatch\<close>: both arguments are NUL-terminated strings.\<close>

definition stringmatch :: "string \<Rightarrow> string \<Rightarrow> bool \<Rightarrow> bool option" where
  "stringmatch pattern str nocase =
     stringmatchlen (pattern @ [NUL]) 0 (int (length pattern))
                    (str @ [NUL]) 0 (int (length str)) nocase"

section \<open>What a pattern means\<close>

datatype cls_item =
    Single char
  | Range char char
  | Escaped char

datatype glob_token =
    Star
  | AnyChar
  | Lit char
  | Quoted char
  | Class bool "cls_item list"

fun render_item :: "cls_item \<Rightarrow> string" where
  "render_item (Single c) = [c]"
| "render_item (Range a b) = [a, CHR ''-'', b]"
| "render_item (Escaped c) = [CHR 0x5C, c]"

fun render_token :: "glob_token \<Rightarrow> string" where
  "render_token Star = ''*''"
| "render_token AnyChar = ''?''"
| "render_token (Lit c) = [c]"
| "render_token (Quoted c) = [CHR 0x5C, c]"
| "render_token (Class neg items) =
     ''['' @ (if neg then ''^'' else '''') @ concat (map render_item items) @ '']''"

definition render :: "glob_token list \<Rightarrow> string" where
  "render ts = concat (map render_token ts)"

fun item_wf :: "cls_item \<Rightarrow> bool" where
  "item_wf (Single c) = (c \<noteq> CHR 0x5C \<and> c \<noteq> CHR '']'' \<and> c \<noteq> CHR ''-'')"
| "item_wf (Range a b) = (a \<noteq> CHR 0x5C \<and> a \<noteq> CHR '']'' \<and> a \<noteq> CHR ''-'')"
| "item_wf (Escaped c) = True"

fun token_wf :: "glob_token \<Rightarrow> bool" where
  "token_wf (Lit c) = (c \<notin> {CHR ''*'', CHR ''?'', CHR ''['', CHR 0x5C, NUL})"
| "token_wf (Class neg items) =
     ((\<forall>i\<in>set items. item_wf i) \<and>
      (neg \<or> items = [] \<or> hd (render_item (hd items)) \<noteq> CHR ''^''))"
| "token_wf (Quoted c) = (c \<noteq> NUL)"
| "token_wf _ = True"

text \<open>
  The characters are compared as they are, or in lower case.  A range holds the characters between
  its ends, which may come in either order; the order is that of the signed \<open>char\<close>s.
\<close>

definition folded :: "bool \<Rightarrow> char \<Rightarrow> char" where
  "folded nocase c = (if nocase then tolower c else c)"

definition between :: "bool \<Rightarrow> char \<Rightarrow> char \<Rightarrow> char \<Rightarrow> bool" where
  "between nocase lo hi c \<longleftrightarrow> schar (folded nocase lo) \<le> schar (folded nocase c) \<and>
     schar (folded nocase c) \<le> schar (folded nocase hi)"

fun item_matches :: "bool \<Rightarrow> char \<Rightarrow> cls_item \<Rightarrow> bool" where
  "item_matches nocase c (Single d) \<longleftrightarrow> folded nocase d = folded nocase c"
| "item_matches nocase c (Range a b) \<longleftrightarrow>
     schar a \<le> schar b \<and> between nocase a b c \<or> schar b \<le> schar a \<and> between nocase b a c"
| "item_matches nocase c (Escaped d) = (d = c)"

fun token_matches :: "bool \<Rightarrow> glob_token \<Rightarrow> char \<Rightarrow> bool" where
  "token_matches nocase Star c = True"
| "token_matches nocase AnyChar c = True"
| "token_matches nocase (Lit d) c \<longleftrightarrow> folded nocase d = folded nocase c"
| "token_matches nocase (Quoted d) c \<longleftrightarrow> folded nocase d = folded nocase c"
| "token_matches nocase (Class neg items) c = ((\<exists>i\<in>set items. item_matches nocase c i) \<noteq> neg)"

fun glob_matches :: "bool \<Rightarrow> glob_token list \<Rightarrow> string \<Rightarrow> bool" where
  "glob_matches nocase [] s = (s = [])"
| "glob_matches nocase (Star # ts) [] = glob_matches nocase ts []"
| "glob_matches nocase (Star # ts) (c # s) =
     (glob_matches nocase ts (c # s) \<or> glob_matches nocase (Star # ts) s)"
| "glob_matches nocase (t # ts) [] = False"
| "glob_matches nocase (t # ts) (c # s) = (token_matches nocase t c \<and> glob_matches nocase ts s)"

lemma char_eq_folded: "char_eq nocase a b \<longleftrightarrow> folded nocase a = folded nocase b"
  by (simp add: char_eq_def folded_def)

lemma schar_inj: "schar a = schar b \<Longrightarrow> a = b"
proof -
  assume "schar a = schar b"
  then have "code a = code b"
    using code_bound [of a] code_bound [of b] by (auto simp: schar_def split: if_splits)
  then show ?thesis by (simp add: code_def)
qed

lemma in_class_range_between:
  "in_class_range nocase a b c \<longleftrightarrow>
     schar a \<le> schar b \<and> between nocase a b c \<or> schar b \<le> schar a \<and> between nocase b a c"
proof (cases "schar b < schar a")
  case True
  then show ?thesis by (simp add: in_class_range_def between_def folded_def)
next
  case False
  then consider "schar a < schar b" | "a = b" using schar_inj [of a b] by fastforce
  then show ?thesis by cases (auto simp: in_class_range_def between_def folded_def)
qed

lemma matches_code [simp]:
  "item_matches nocase c (Single d) = char_eq nocase d c"
  "item_matches nocase c (Range a b) = in_class_range nocase a b c"
  "token_matches nocase (Lit d) c = char_eq nocase d c"
  "token_matches nocase (Quoted d) c = char_eq nocase d c"
  unfolding in_class_range_between char_eq_folded by (rule item_matches.simps token_matches.simps)+

declare item_matches.simps(1,2) [simp del] token_matches.simps(3,4) [simp del]

lemma render_simps [simp]:
  "render [] = []" "render (t # ts) = render_token t @ render ts"
  by (simp_all add: render_def)

lemma render_token_not_Nil [simp]: "render_token t \<noteq> []"
  by (cases t) auto


lemma char_eq_NUL: "char_eq nocase c NUL \<longleftrightarrow> c = NUL"
  by (simp add: char_eq_def tolower_NUL)

lemma render_Nil_iff [simp]: "render ts = [] \<longleftrightarrow> ts = []"
  by (cases ts) simp_all

lemma class_loop_render:
  assumes "\<forall>i\<in>set items. item_wf i" and "si < length str"
    and "drop p pat = concat (map render_item items) @ CHR '']'' # post"
    and "n = int (length (concat (map render_item items))) + 1 + int k"
  shows "class_loop pat p n str si nocase m
         = Some (p + length (concat (map render_item items)), 1 + int k,
                 m \<or> (\<exists>i\<in>set items. item_matches nocase (str ! si) i))"
  using assms
proof (induction items arbitrary: p n m)
  case Nil
  then have "rd pat p = Some (CHR '']'')" by (simp add: rd_at_0 [of p pat "CHR '']'' # post"])
  with Nil show ?case by (subst class_loop.simps) simp
next
  case (Cons it items)
  let ?r = "concat (map render_item items)"
  have sc: "rd str si = Some (str ! si)" using Cons.prems by (simp add: rd_Some)
  have d: "drop (p + length (render_item it)) pat = ?r @ CHR '']'' # post"
    by (rule drop_at) (use Cons.prems in simp)
  have IH: "class_loop pat (p + length (render_item it)) (n - int (length (render_item it))) str si nocase m'
       = Some (p + length (render_item it) + length ?r, 1 + int k,
               m' \<or> (\<exists>i\<in>set items. item_matches nocase (str ! si) i))" for m'
    using Cons.prems by (intro Cons.IH) (auto simp: d)
  have rds: "rd pat p = rd (render_item it @ ?r @ CHR '']'' # post) 0"
    "rd pat (Suc p) = rd (render_item it @ ?r @ CHR '']'' # post) (Suc 0)"
    "rd pat (p + 2) = rd (render_item it @ ?r @ CHR '']'' # post) 2"
    using rd_at_0 [OF Cons.prems(3)] rd_at_Suc [OF Cons.prems(3)] rd_at [OF Cons.prems(3), of 2]
    by simp_all
  have wf: "item_wf it" using Cons.prems(1) by simp
  have n: "n = int (length (render_item it)) + int (length ?r) + 1 + int k"
    using Cons.prems(4) by simp
  show ?case
  proof (cases it)
    case (Single c)
    obtain c1 rest where c1: "?r @ CHR '']'' # post = c1 # rest" "c1 \<noteq> CHR ''-''"
    proof (cases items)
      case Nil
      then show ?thesis using that by simp
    next
      case (Cons j js)
      then show ?thesis using that Cons.prems by (cases j) auto
    qed
    have r: "rd pat p = Some c" "rd pat (Suc p) = Some c1"
      unfolding rds Single c1(1) by simp_all
    have "c \<noteq> CHR 0x5C" "c \<noteq> CHR '']''" "n \<noteq> 0"
      using wf n by (simp_all add: Single)
    with IH r c1(2) sc show ?thesis
      by (subst class_loop.simps) (simp add: Single)
  next
    case (Range a b)
    have r: "rd pat p = Some a" "rd pat (Suc p) = Some (CHR ''-'')" "rd pat (p + 2) = Some b"
      unfolding rds Range by (simp_all add: numeral_2_eq_2)
    have "a \<noteq> CHR 0x5C" "a \<noteq> CHR '']''" "n \<noteq> 0" "3 \<le> n"
      using wf n by (simp_all add: Range)
    with IH r sc show ?thesis
      by (subst class_loop.simps) (simp add: Range numeral_3_eq_3)
  next
    case (Escaped c)
    have r: "rd pat p = Some (CHR 0x5C)" "rd pat (Suc p) = Some c"
      unfolding rds Escaped by simp_all
    with IH r sc show ?thesis
      by (subst class_loop.simps) (simp add: Escaped)
  qed
qed


lemma match_token_render:
  assumes "t \<noteq> Star" "token_wf t" "si < length str" "0 < slen"
    and d: "drop p pat = render_token t @ post"
    and n: "n = int (length (render_token t)) + int k"
  shows "match_token pat p n (hd (render_token t)) str si slen nocase =
     Some (if token_matches nocase t (str ! si)
           then Some (p + length (render_token t) - 1, int k + 1) else None)"
proof -
  have sc: "rd str si = Some (str ! si)" using assms by (simp add: rd_Some)
  have r0: "rd pat p = Some (hd (render_token t))"
    using rd_at_0 [OF d] by (cases t) simp_all
  show ?thesis
  proof (cases t)
    case Star
    with assms show ?thesis by simp
  next
    case AnyChar
    with assms show ?thesis by (simp add: match_token_def)
  next
    case (Lit c)
    with assms r0 sc show ?thesis by (simp add: match_token_def Let_def)
  next
    case (Quoted c)
    have "rd pat (Suc p) = Some c" using rd_at_Suc [OF d] Quoted by simp
    with Quoted n sc show ?thesis by (simp add: match_token_def Let_def)
  next
    case (Class neg items)
    let ?r = "concat (map render_item items)"
    have wf: "\<forall>i\<in>set items. item_wf i" using assms Class by simp
    have r1: "rd pat (Suc p) = Some (if neg then CHR ''^'' else hd (?r @ '']''))"
      using rd_at_Suc [OF d] rd_first [of "?r @ '']''" post] Class by (cases neg) simp_all
    have nohat: "\<not> neg \<Longrightarrow> hd (?r @ '']'') \<noteq> CHR ''^''"
    proof (cases items)
      case (Cons i js)
      then show "\<not> neg \<Longrightarrow> hd (?r @ '']'') \<noteq> CHR ''^''"
        using assms(2) Class by (cases i) auto
    qed simp
    let ?h = "if neg then 2 else 1 :: nat"
    have d': "drop (p + ?h) pat = ?r @ CHR '']'' # post"
      using drop_at [of p pat "take ?h (render_token t)" "drop ?h (render_token t) @ post"] d Class
      by simp
    have "n - int ?h = int (length ?r) + 1 + int k"
      using n Class by simp
    from class_loop_render [OF wf assms(3) d' this, of nocase False]
    show ?thesis
      using Class r1 nohat n
      by (cases neg) (simp_all add: match_token_def Let_def)
  qed
qed

lemma skip_tail_stars_render:
  assumes "\<forall>t\<in>set ts. token_wf t" "drop p pat = render ts @ [NUL]"
    and "n = int (length (render ts))"
  shows "\<exists>r. skip_tail_stars pat p n = Some r \<and> (r = 0) = glob_matches nocase ts []"
  using assms
proof (induction ts arbitrary: p n)
  case Nil
  then have "rd pat p = Some NUL" using rd_at_0 [of p pat] by simp
  with Nil show ?case by (subst skip_tail_stars.simps) simp
next
  case (Cons t ts)
  have d: "drop p pat = render_token t @ render ts @ [NUL]" using Cons.prems by simp
  have r0: "rd pat p = Some (hd (render_token t))"
    using rd_at_0 [OF d] by (cases t) simp_all
  show ?case
  proof (cases "t = Star")
    case True
    then have "drop (Suc p) pat = render ts @ [NUL]" using d by (simp add: drop_at_Cons)
    with Cons.IH [of "Suc p" "n - 1"] Cons.prems True r0
    show ?thesis by (subst skip_tail_stars.simps) simp
  next
    case False
    then have "hd (render_token t) \<noteq> CHR ''*''" "\<not> glob_matches nocase (t # ts) []"
      using Cons.prems(1) by (cases t; auto)+
    moreover have "0 < length (render_token t)" by simp
    then have "n \<noteq> 0" using Cons.prems(3) by (simp del: length_greater_0_conv)
    ultimately show ?thesis using r0 by (subst skip_tail_stars.simps) simp
  qed
qed

lemma skip_stars_render:
  assumes "\<forall>t\<in>set ts. token_wf t" "drop p pat = CHR ''*'' # render ts @ [NUL]"
    and "n = 1 + int (length (render ts))"
  shows "\<exists>p' ts'. skip_stars pat p n = Some (p', 1 + int (length (render ts'))) \<and>
           drop (Suc p') pat = render ts' @ [NUL] \<and> p' < length pat \<and>
           ts' = dropWhile (\<lambda>t. t = Star) ts"
  using assms
proof (induction ts arbitrary: p n)
  case Nil
  have r: "rd pat (Suc p) = Some NUL" using rd_at_Suc [OF Nil.prems(2)] by simp
  moreover have "drop (Suc p) pat = [NUL]" "p < length pat"
    using Nil.prems(2) drop_at_Cons [OF Nil.prems(2)] by (auto simp: not_le [symmetric])
  ultimately show ?case using Nil by (subst skip_stars.simps) simp
next
  case (Cons t ts)
  have d: "drop (Suc p) pat = render_token t @ render ts @ [NUL]" "p < length pat"
    using Cons.prems(2) drop_at_Cons [OF Cons.prems(2)] by (auto simp: not_le [symmetric])
  have r: "rd pat (Suc p) = Some (hd (render_token t))"
    using rd_at_0 [OF d(1)] by (cases t) simp_all
  show ?case
  proof (cases "t = Star")
    case True
    then have "drop (Suc p) pat = CHR ''*'' # render ts @ [NUL]" using d by simp
    with Cons.IH [of "Suc p" "n - 1"] Cons.prems True r
    show ?thesis by (subst skip_stars.simps) simp
  next
    case False
    then have "hd (render_token t) \<noteq> CHR ''*''"
      using Cons.prems(1) by (cases t) auto
    then show ?thesis using r d False Cons.prems by (subst skip_stars.simps) simp
  qed
qed

lemma glob_matches_Star_iff:
  "glob_matches nocase (Star # ts) s \<longleftrightarrow> (\<exists>k\<le>length s. glob_matches nocase ts (drop k s))"
proof (induction s)
  case Nil
  then show ?case by simp
next
  case (Cons c s)
  have "(\<exists>k\<le>Suc (length s). glob_matches nocase ts (drop k (c # s))) \<longleftrightarrow>
        glob_matches nocase ts (c # s) \<or> (\<exists>k\<le>length s. glob_matches nocase ts (drop k s))"
    by (metis Suc_le_mono drop_0 drop_Suc_Cons not0_implies_Suc zero_le)
  with Cons show ?case by simp
qed

lemma glob_matches_stars:
  "glob_matches nocase (Star # ts) s = glob_matches nocase (Star # dropWhile (\<lambda>t. t = Star) ts) s"
proof (induction ts)
  case (Cons t ts)
  have "glob_matches nocase (Star # Star # us) s = glob_matches nocase (Star # us) s" for us
    by (induction s) auto
  with Cons show ?case by auto
qed simp


lemma stringmatchlen_render:
  assumes "\<forall>t\<in>set ts. token_wf t" "drop p pat = render ts @ [NUL]"
    and "n = int (length (render ts))"
    and "drop si str = s @ [NUL]" and "s \<noteq> [] \<or> (\<forall>neg items. ts = [] \<or> hd ts \<noteq> Class neg items)"
  shows "stringmatchlen pat p n str si (int (length s)) nocase = Some (glob_matches nocase ts s)"
  using assms
proof (induction "length ts" arbitrary: ts p n si s rule: less_induct)
  case less
  show ?case
  proof (cases ts)
    case Nil
    with less.prems show ?thesis by (subst stringmatchlen.simps) simp
  next
    case (Cons t us)
    have d: "drop p pat = render_token t @ render us @ [NUL]" using less.prems Cons by simp
    have r0: "rd pat p = Some (hd (render_token t))"
      using rd_at_0 [OF d] by (cases t) simp_all
    have "0 < length (render_token t)" by simp
    then have n: "n \<noteq> 0" "n = int (length (render_token t)) + int (length (render us))"
      using less.prems(3) Cons by (simp_all del: length_greater_0_conv)
    show ?thesis
    proof (cases "t = Star")
      case True
      have "drop p pat = CHR ''*'' # render us @ [NUL]" "n = 1 + int (length (render us))"
        using d n True by simp_all
      from skip_stars_render [OF _ this] less.prems(1) Cons obtain p' ts' where
        ss: "skip_stars pat p n = Some (p', 1 + int (length (render ts')))"
        and dp': "drop (Suc p') pat = render ts' @ [NUL]" and p': "p' < length pat"
        and ts': "ts' = dropWhile (\<lambda>t. t = Star) us" by auto
      show ?thesis
      proof (cases "ts' = []")
        case True
        have "glob_matches nocase (Star # us) s"
          unfolding glob_matches_stars [of nocase us s] ts' [symmetric] True
          by (rule glob_matches_Star_iff [THEN iffD2]) (rule exI [of _ "length s"], simp)
        then show ?thesis
          using ss r0 n \<open>t = Star\<close> Cons True by (subst stringmatchlen.simps) simp
      next
        case False
        then have hd: "hd ts' \<noteq> Star"
          using hd_dropWhile [of "\<lambda>t. t = Star" us] unfolding ts' by blast
        have len: "length ts' < length ts"
          using ts' Cons length_dropWhile_le [of "\<lambda>t. t = Star" us] by simp
        have wf: "\<forall>t\<in>set ts'. token_wf t"
          using less.prems(1) Cons ts' by (auto dest: set_dropWhileD)
        have nil: "\<not> glob_matches nocase ts' []"
          using hd False by (cases ts'; cases "hd ts'") simp_all
        have star: "star_loop pat p' (1 + int (length (render ts'))) str i (int (length u)) nocase =
             Some (\<exists>k\<le>length u. glob_matches nocase ts' (drop k u))"
          if "drop i str = u @ [NUL]" for i u
          using that
        proof (induction u arbitrary: i)
          case Nil
          then show ?case using nil by (subst star_loop.simps) simp
        next
          case (Cons c u)
          have m: "stringmatchlen pat (Suc p') (int (length (render ts'))) str i
                  (int (length (c # u))) nocase = Some (glob_matches nocase ts' (c # u))"
            by (rule less.hyps) (use len wf dp' Cons.prems in simp_all)
          have i: "i < length str"
            using Cons.prems by (metis append_Cons drop_eq_Nil list.distinct(1) not_le)
          have "drop (Suc i) str = u @ [NUL]" using Cons.prems by (simp add: drop_at_Cons)
          then have IH: "star_loop pat p' (1 + int (length (render ts'))) str (Suc i) (int (length u)) nocase =
             Some (\<exists>k\<le>length u. glob_matches nocase ts' (drop k u))" by (rule Cons.IH)
          have ex: "(\<exists>k\<le>length (c # u). glob_matches nocase ts' (drop k (c # u))) =
              (glob_matches nocase ts' (c # u) \<or> (\<exists>k\<le>length u. glob_matches nocase ts' (drop k u)))"
            using glob_matches_Star_iff [of nocase ts' "c # u"] glob_matches_Star_iff [of nocase ts' u] by simp
          show ?case
            unfolding ex using m i p' IH
            by (cases "glob_matches nocase ts' (c # u)"; subst star_loop.simps) simp_all
        qed
        have "1 + int (length (render ts')) \<noteq> 1"
          using False by simp
        moreover have "glob_matches nocase ts s = (\<exists>k\<le>length s. glob_matches nocase ts' (drop k s))"
          unfolding Cons \<open>t = Star\<close> glob_matches_stars [of nocase us s] ts' [symmetric]
          by (rule glob_matches_Star_iff)
        ultimately show ?thesis
          using ss star [OF less.prems(4)] r0 n(1) \<open>t = Star\<close>
          by (subst stringmatchlen.simps) simp
      qed
    next
      case False
      have nostar: "hd (render_token t) \<noteq> CHR ''*''"
        using False less.prems(1) Cons by (cases t) auto
      show ?thesis
      proof (cases s)
        case Nil
        have rs: "rd str si = Some NUL" using rd_at_0 [OF less.prems(4)] Nil by simp
        have "match_token pat p n (hd (render_token t)) str si 0 nocase = Some None"
        proof (cases t)
          case (Lit c)
          then show ?thesis using rs r0 less.prems(1) \<open>ts = t # us\<close>
            by (auto simp: match_token_def Let_def char_eq_NUL)
        next
          case (Quoted c)
          then show ?thesis using rs r0 rd_at_Suc [OF d] n less.prems(1) \<open>ts = t # us\<close>
            by (auto simp: match_token_def Let_def char_eq_NUL)
        qed (use False less.prems(5) Nil Cons in \<open>auto simp: match_token_def\<close>)
        then show ?thesis
          using r0 n nostar Nil Cons False
          by (subst stringmatchlen.simps) (cases t; simp)
      next
        case (Cons c s')
        have si: "si < length str" "str ! si = c"
          using less.prems(4) Cons rd_at_0 [OF less.prems(4)] by (auto simp: rd_Some)
        have tok: "match_token pat p n (hd (render_token t)) str si (int (length s)) nocase =
            Some (if token_matches nocase t c
                  then Some (p + length (render_token t) - 1, int (length (render us)) + 1) else None)"
          using match_token_render [OF False _ si(1) _ d n(2), of "int (length s)" nocase]
            less.prems(1) \<open>ts = t # us\<close> Cons si(2) by simp
        have p1: "Suc (p + length (render_token t) - 1) = p + length (render_token t)"
          by (cases t) simp_all
        have dp: "drop (p + length (render_token t)) pat = render us @ [NUL]"
          using drop_at [OF d] by simp
        have ds: "drop (Suc si) str = s' @ [NUL]" using less.prems(4) Cons by (simp add: drop_at_Cons)
        have gm: "glob_matches nocase ts s = (token_matches nocase t c \<and> glob_matches nocase us s')"
          using False Cons \<open>ts = t # us\<close> by (cases t) simp_all
        have wf: "\<forall>t\<in>set us. token_wf t" using less.prems(1) \<open>ts = t # us\<close> by simp
        show ?thesis
        proof (cases "s' = []")
          case True
          obtain r where "skip_tail_stars pat (p + length (render_token t)) (int (length (render us))) = Some r"
            "(r = 0) = glob_matches nocase us []"
            using skip_tail_stars_render [OF wf dp refl] by blast
          then show ?thesis
            using r0 n(1) nostar tok p1 gm True Cons by (subst stringmatchlen.simps) simp
        next
          case False
          have "stringmatchlen pat (p + length (render_token t)) (int (length (render us))) str (Suc si)
                  (int (length s')) nocase = Some (glob_matches nocase us s')"
            by (rule less.hyps) (use \<open>ts = t # us\<close> wf dp ds False in simp_all)
          then show ?thesis
            using r0 n(1) nostar tok p1 gm False Cons by (subst stringmatchlen.simps) simp
        qed
      qed
    qed
  qed
qed

section \<open>Memory sizes\<close>

text \<open>
  \<open>strtoll(buf, NULL, 10)\<close>: leading blanks, an optional sign, then as many digits as there
  are; the result saturates at the limits of \<open>long long\<close>.
\<close>

definition digits_value :: "string \<Rightarrow> nat" where
  "digits_value ds = foldl (\<lambda>v c. v * 10 + (code c - 48)) 0 ds"

definition strtoll10 :: "string \<Rightarrow> int" where
  "strtoll10 s =
     (let s1 = dropWhile isspace s;
          neg = (s1 \<noteq> [] \<and> hd s1 = CHR ''-'');
          s2 = (if s1 \<noteq> [] \<and> (hd s1 = CHR ''-'' \<or> hd s1 = CHR ''+'') then tl s1 else s1);
          v = int (digits_value (takeWhile isdigit s2))
      in if neg then max LLONG_MIN (- v) else min LLONG_MAX v)"

definition strcasecmp_eq :: "string \<Rightarrow> string \<Rightarrow> bool" where
  "strcasecmp_eq a b \<longleftrightarrow> map tolower a = map tolower b"

text \<open>\<open>memtoll\<close> on the NUL-terminated string \<open>p\<close>: the value and the error flag.\<close>

definition memtoll :: "string \<Rightarrow> int \<times> bool" where
  "memtoll p =
     (let u0 = (if p \<noteq> [] \<and> hd p = CHR ''-'' then tl p else p);
          u = dropWhile isdigit u0;
          (mul, err) =
            (if u = [] \<or> strcasecmp_eq u ''b'' then (1, False)
             else if strcasecmp_eq u ''k'' then (1000, False)
             else if strcasecmp_eq u ''kb'' then (1024, False)
             else if strcasecmp_eq u ''m'' then (1000 * 1000, False)
             else if strcasecmp_eq u ''mb'' then (1024 * 1024, False)
             else if strcasecmp_eq u ''g'' then (1000 * 1000 * 1000, False)
             else if strcasecmp_eq u ''gb'' then (1024 * 1024 * 1024, False)
             else (1, True));
          digits = length p - length u
      in if 128 \<le> digits then (LLONG_MAX, True)
         else (to_int64 (strtoll10 (take digits p) * mul), err))"

section \<open>Integers and decimal strings\<close>

text \<open>The \<open>do \<dots> while(v)\<close> loop of \<open>ll2string\<close>, which fills the buffer from its end.\<close>

fun digits_loop :: "nat \<Rightarrow> string \<Rightarrow> string" where
  "digits_loop v acc =
     (let acc' = char_of (48 + v mod 10) # acc
      in if v div 10 = 0 then acc' else digits_loop (v div 10) acc')"

declare digits_loop.simps [simp del]

text \<open>
  \<open>ll2string\<close>: the number of characters stored and those characters (the terminating NUL
  excluded).  \<open>-value\<close> is taken on the unsigned magnitude, as the compiled code does for
  \<open>LLONG_MIN\<close> too.  A buffer that is too short receives a truncated number.
\<close>

definition ll2string :: "nat \<Rightarrow> int \<Rightarrow> nat \<times> string" where
  "ll2string len value =
     (if len = 0 then (0, [])
      else let v = nat (if value < 0 then - value else value);
               p = (if value < 0 then CHR ''-'' # digits_loop v [] else digits_loop v []);
               l = length p;
               l' = (if len < l + 1 then len - 1 else l)
           in (l', take l' p))"

text \<open>The digit loop of \<open>string2ll\<close>, with both overflow tests; \<open>None\<close> is \<open>return 0\<close>.\<close>

fun s2ll_loop :: "string \<Rightarrow> nat \<Rightarrow> (string \<times> nat) option" where
  "s2ll_loop [] v = Some ([], v)"
| "s2ll_loop (c # p) v =
     (if isdigit c then
        (if ULLONG_MAX div 10 < v then None
         else let v1 = v * 10; d = code c - 48
              in if ULLONG_MAX - d < v1 then None else s2ll_loop p (v1 + d))
      else Some (c # p, v))"

definition string2ll :: "string \<Rightarrow> int option" where
  "string2ll s =
     (if s = [] then None
      else if length s = 1 \<and> hd s = CHR ''0'' then Some 0
      else let negative = (hd s = CHR ''-'');
               p = (if negative then tl s else s)
           in if p = [] then None
              else if 49 \<le> code (hd p) \<and> code (hd p) \<le> 57 then
                (case s2ll_loop (tl p) (code (hd p) - 48) of
                   None \<Rightarrow> None
                 | Some (rest, v) \<Rightarrow>
                     if rest \<noteq> [] then None
                     else if negative then
                       (if nat (- (LLONG_MIN + 1)) + 1 < v then None else Some (- int v))
                     else (if nat LLONG_MAX < v then None else Some (int v)))
              else if hd p = CHR ''0'' \<and> length s = 1 then Some 0
              else None)"

text \<open>\<open>string2l\<close>: \<open>long\<close> has 64 bits, so its range test never fails.\<close>

definition string2l :: "string \<Rightarrow> int option" where
  "string2l s =
     (case string2ll s of
        None \<Rightarrow> None
      | Some llval \<Rightarrow> if llval < LLONG_MIN \<or> LLONG_MAX < llval then None else Some llval)"

subsection \<open>Decimal notation\<close>

fun dec_nat :: "nat \<Rightarrow> string" where
  "dec_nat v = (if v < 10 then [char_of (48 + v)] else dec_nat (v div 10) @ [char_of (48 + v mod 10)])"

declare dec_nat.simps [simp del]

definition dec_int :: "int \<Rightarrow> string" where
  "dec_int n = (if n < 0 then CHR ''-'' # dec_nat (nat (- n)) else dec_nat (nat n))"

lemma digits_loop_eq: "digits_loop v acc = dec_nat v @ acc"
proof (induction v acc rule: digits_loop.induct)
  case (1 v acc)
  show ?case
  proof (cases "v < 10")
    case True
    then show ?thesis by (simp add: digits_loop.simps [of v acc] dec_nat.simps [of v])
  next
    case False
    then have "v div 10 \<noteq> 0" by (simp add: div_eq_0_iff)
    with 1 False show ?thesis
      by (simp add: digits_loop.simps [of v acc] dec_nat.simps [of v] Let_def)
  qed
qed

lemma dec_nat_not_Nil [simp]: "dec_nat v \<noteq> []"
  by (subst dec_nat.simps) simp

lemma digits_value_snoc: "digits_value (ds @ [c]) = digits_value ds * 10 + (code c - 48)"
  by (simp add: digits_value_def)

lemma digits_value_single [simp]: "digits_value [c] = code c - 48"
  by (simp add: digits_value_def)

lemma digits_value_dec_nat [simp]: "digits_value (dec_nat v) = v"
proof (induction v rule: dec_nat.induct)
  case (1 v)
  then show ?case
    by (subst dec_nat.simps) (simp add: digits_value_snoc)
qed

lemma dec_nat_digits: "c \<in> set (dec_nat v) \<Longrightarrow> isdigit c"
proof (induction v rule: dec_nat.induct)
  case (1 v)
  have "v mod 10 < 10" by simp
  with 1 show ?case
    by (subst (asm) (2) dec_nat.simps) (auto simp: isdigit_def split: if_splits)
qed

lemma dec_nat_hd: "0 < v \<Longrightarrow> 49 \<le> code (hd (dec_nat v)) \<and> code (hd (dec_nat v)) \<le> 57"
proof (induction v rule: dec_nat.induct)
  case (1 v)
  show ?case
  proof (cases "v < 10")
    case True
    with "1.prems" show ?thesis by (simp add: dec_nat.simps [of v])
  next
    case False
    then have "0 < v div 10" by (simp add: div_greater_zero_iff)
    with "1.IH" False show ?thesis by (simp add: dec_nat.simps [of v])
  qed
qed

lemma dec_nat_digits_value:
  "\<lbrakk>\<forall>c\<in>set ds. isdigit c; 49 \<le> code (hd ds); ds \<noteq> []\<rbrakk> \<Longrightarrow> dec_nat (digits_value ds) = ds"
proof (induction ds rule: rev_induct)
  case Nil
  then show ?case by simp
next
  case (snoc c ds)
  have c: "48 \<le> code c" "code c \<le> 57" using snoc.prems by (simp_all add: isdigit_def)
  show ?case
  proof (cases "ds = []")
    case True
    with c show ?thesis by (simp add: dec_nat.simps [of "code c - 48"])
  next
    case False
    with snoc have ih: "dec_nat (digits_value ds) = ds" by simp
    have "digits_value ds \<noteq> 0"
    proof
      assume "digits_value ds = 0"
      with ih have "ds = [char_of (48::nat)]" by (simp add: dec_nat.simps [of 0])
      with snoc.prems False show False by simp
    qed
    moreover obtain d where "code c = 48 + d" "d < 10"
      by (rule that [of "code c - 48"]) (use c in auto)
    moreover have "char_of (48 + d) = c" using \<open>code c = 48 + d\<close> by (metis char_of_code)
    ultimately show ?thesis
      using ih by (simp add: digits_value_snoc dec_nat.simps [of "digits_value ds * 10 + d"])
  qed
qed

lemma digits_value_append_ge: "digits_value ds \<le> digits_value (ds @ es)"
proof (induction es rule: rev_induct)
  case (snoc c es)
  have "digits_value (ds @ es @ [c]) = digits_value (ds @ es) * 10 + (code c - 48)"
    using digits_value_snoc [of "ds @ es" c] by simp
  with snoc show ?case by simp
qed simp

lemma s2ll_loop_digits:
  assumes "\<forall>c\<in>set es. isdigit c" and "digits_value ds \<le> ULLONG_MAX"
  shows "s2ll_loop es (digits_value ds) =
     (if digits_value (ds @ es) \<le> ULLONG_MAX then Some ([], digits_value (ds @ es)) else None)"
  using assms
proof (induction es arbitrary: ds)
  case Nil
  then show ?case by simp
next
  case (Cons c es)
  have c: "48 \<le> code c" "code c \<le> 57" using Cons.prems by (simp_all add: isdigit_def)
  let ?w = "digits_value ds * 10 + (code c - 48)"
  have w: "digits_value (ds @ [c]) = ?w" by (rule digits_value_snoc)
  have ge: "?w \<le> digits_value (ds @ c # es)"
    using digits_value_append_ge [of "ds @ [c]" es] w by simp
  have IH: "?w \<le> ULLONG_MAX \<Longrightarrow> s2ll_loop es ?w =
     (if digits_value (ds @ c # es) \<le> ULLONG_MAX then Some ([], digits_value (ds @ c # es)) else None)"
    using Cons.IH [of "ds @ [c]"] Cons.prems w by simp
  show ?case
    using Cons.prems c ge IH by (auto simp: Let_def)
qed

lemma s2ll_loop_Nil_digits: "s2ll_loop es v = Some ([], w) \<Longrightarrow> \<forall>c\<in>set es. isdigit c"
  by (induction es arbitrary: v) (auto simp: Let_def split: if_splits)

lemma char_of_48 [simp]: "char_of (48 :: nat) = CHR ''0''"
  by code_simp

lemma ll2string_dec:
  assumes "LLONG_MIN \<le> n" "n \<le> LLONG_MAX" "length (dec_int n) < len"
  shows "ll2string len n = (length (dec_int n), dec_int n)"
  using assms by (auto simp: ll2string_def dec_int_def Let_def digits_loop_eq)

lemma string2ll_dec:
  assumes "LLONG_MIN \<le> n" "n \<le> LLONG_MAX"
  shows "string2ll (dec_int n) = Some n"
proof -
  have loop: "s2ll_loop (tl (dec_nat v)) (code (hd (dec_nat v)) - 48) = Some ([], v)"
    if "0 < v" "v \<le> ULLONG_MAX" for v
  proof -
    have eq: "dec_nat v = [hd (dec_nat v)] @ tl (dec_nat v)" by simp
    have "\<forall>c\<in>set (tl (dec_nat v)). isdigit c"
      using dec_nat_digits by (meson dec_nat_not_Nil list.set_sel(2))
    moreover have "digits_value [hd (dec_nat v)] \<le> ULLONG_MAX"
      using dec_nat_hd [OF that(1)] by (simp add: le_diff_conv)
    ultimately show ?thesis
      using s2ll_loop_digits [of "tl (dec_nat v)" "[hd (dec_nat v)]"] that(2) by simp
  qed
  have notminus: "0 < v \<Longrightarrow> hd (dec_nat v) \<noteq> CHR ''-'' \<and> hd (dec_nat v) \<noteq> CHR ''0''" for v
    using dec_nat_hd [of v] by (auto simp: code_def)
  consider "n = 0" | "0 < n" | "n < 0" by linarith
  then show ?thesis
  proof cases
    case 1
    then show ?thesis by (simp add: dec_int_def dec_nat.simps [of 0] string2ll_def)
  next
    case 2
    then show ?thesis
      using loop [of "nat n"] notminus [of "nat n"] dec_nat_hd [of "nat n"] assms
      by (simp add: dec_int_def string2ll_def Let_def)
  next
    case 3
    then show ?thesis
      using loop [of "nat (- n)"] dec_nat_hd [of "nat (- n)"] assms
      by (simp add: dec_int_def string2ll_def Let_def)
  qed
qed

lemma string2ll_Some:
  assumes "string2ll s = Some n"
  shows "s = dec_int n \<and> LLONG_MIN \<le> n \<and> n \<le> LLONG_MAX"
proof (cases "length s = 1 \<and> hd s = CHR ''0''")
  case True
  then have "s = ''0''" by (cases s) auto
  with assms show ?thesis
    by (simp add: string2ll_def dec_int_def dec_nat.simps [of 0])
next
  case False
  define neg where "neg = (hd s = CHR ''-'')"
  define p where "p = (if neg then tl s else s)"
  obtain v where p: "p \<noteq> []" "49 \<le> code (hd p)" "code (hd p) \<le> 57"
      "s2ll_loop (tl p) (code (hd p) - 48) = Some ([], v)"
    and n: "n = (if neg then - int v else int v)"
    and r: "if neg then v \<le> 2 ^ 63 else v < 2 ^ 63"
    and s: "s \<noteq> []"
    using assms False unfolding string2ll_def p_def neg_def Let_def
    by (auto simp: length_Suc_conv split: if_splits option.splits prod.splits)
  have d: "\<forall>c\<in>set (tl p). isdigit c" using p(4) by (rule s2ll_loop_Nil_digits)
  have hp: "isdigit (hd p)" using p by (simp add: isdigit_def)
  have "digits_value [hd p] \<le> ULLONG_MAX" using p(3) by simp
  from s2ll_loop_digits [OF d this] p(1,4) have v: "v = digits_value p"
    by (simp split: if_splits)
  have "\<forall>c\<in>set p. isdigit c" using d hp p(1) by (metis list.collapse set_ConsD)
  then have dv: "dec_nat v = p" using p v by (simp add: dec_nat_digits_value)
  have "0 < v"
  proof (rule ccontr)
    assume "\<not> 0 < v"
    then have "hd p = CHR ''0''" using dv by (auto simp: dec_nat.simps [of 0])
    with p(2) show False by (simp add: code_def)
  qed
  then show ?thesis
    using n r dv s unfolding p_def neg_def dec_int_def
    by (cases "hd s = CHR ''-''"; cases s) auto
qed

lemma length_dec_nat: "v < 10 ^ k \<Longrightarrow> 0 < k \<Longrightarrow> length (dec_nat v) \<le> k"
proof (induction k arbitrary: v)
  case (Suc k)
  show ?case
  proof (cases "v < 10")
    case True
    then show ?thesis by (simp add: dec_nat.simps [of v])
  next
    case False
    have "v div 10 < 10 ^ k" using Suc.prems by (simp add: less_mult_imp_div_less mult.commute)
    moreover have "0 < k" using False Suc.prems by (cases k) auto
    ultimately show ?thesis using Suc.IH False by (simp add: dec_nat.simps [of v])
  qed
qed simp

lemma length_dec_int: "LLONG_MIN \<le> n \<Longrightarrow> n \<le> LLONG_MAX \<Longrightarrow> length (dec_int n) \<le> 20"
proof -
  assume n: "LLONG_MIN \<le> n" "n \<le> LLONG_MAX"
  then have "nat n < 10 ^ 19" "nat (- n) < 10 ^ 19" by (simp_all add: nat_less_iff)
  from this [THEN length_dec_nat] show ?thesis by (simp add: dec_int_def)
qed

lemma string2ll_iff_dec:
  "string2ll s = Some n \<longleftrightarrow> LLONG_MIN \<le> n \<and> n \<le> LLONG_MAX \<and> s = dec_int n"
  using string2ll_Some string2ll_dec by blast

section \<open>Properties\<close>

text \<open>C33.
  \<open>string2ll\<close> accepts exactly the strings that \<open>ll2string\<close> produces for a \<open>long long\<close>, and
  returns the number they were produced from: the two conversions are inverse to each other,
  and every other string (blanks, a plus sign, leading zeros, \<open>-0\<close>, a number out of range)
  is rejected.
\<close>

theorem string2ll_iff_ll2string:
  "string2ll s = Some n \<longleftrightarrow>
     LLONG_MIN \<le> n \<and> n \<le> LLONG_MAX \<and> ll2string 32 n = (length s, s)"
  using ll2string_dec [of n 32] length_dec_int [of n] by (auto simp: string2ll_iff_dec)

text \<open>C29.
  \<open>stringmatch\<close> decides the glob language: on the text of a pattern (stars, question marks,
  literals, escapes, character classes with ranges and negation) it returns, without a read
  outside its buffers, whether the string is matched by the tokens of the pattern, with or
  without case; the meaning of the tokens is stated without the functions of the code.  The
  empty string against a pattern that starts with a class is excluded
  (the code is wrong there).
\<close>

theorem stringmatch_glob:
  assumes "\<forall>t\<in>set ts. token_wf t"
    and "s \<noteq> [] \<or> (\<forall>neg items. ts = [] \<or> hd ts \<noteq> Class neg items)"
  shows "stringmatch (render ts) s nocase = Some (glob_matches nocase ts s)"
  unfolding stringmatch_def by (rule stringmatchlen_render) (use assms in simp_all)

theorem stringmatch_glob_witness:
  "stringmatch ''h[^a-c]*'' ''hello'' False = Some True \<and> stringmatch ''h[^a-e]*'' ''hello'' False = Some False"
  using stringmatch_glob [of "[Lit CHR ''h'', Class True [Range CHR ''a'' CHR ''c''], Star]" "''hello''" False]
    stringmatch_glob [of "[Lit CHR ''h'', Class True [Range CHR ''a'' CHR ''e''], Star]" "''hello''" False]
  by (simp add: in_class_range_between between_def folded_def char_eq_folded schar_def code_def)

text \<open>
  The excluded case of the matcher: a negated class consumes a character of an empty string
  and leaves the length counter at \<open>-1\<close>.  So \<open>[^a]*\<close> is reported to match the empty string,
  although a class needs a character, and \<open>[^a]*b\<close> makes the matcher run past the end of the
  string.
\<close>

theorem negated_class_matches_empty:
  "stringmatch ''[^a]*'' [] nocase = Some True \<and>
   \<not> glob_matches nocase [Class True [Single CHR ''a''], Star] [] \<and>
   stringmatch ''[^a]*b'' [] nocase = None"
proof -
  have c: "char_eq nocase CHR ''a'' NUL = False" by (simp add: char_eq_NUL)
  show ?thesis
    by (simp add: stringmatch_def stringmatchlen.simps star_loop.simps skip_stars.simps
        class_loop.simps match_token_def rd_def nth_Cons' c char_eq_NUL)
qed

end
