(* ===== verification/Sds.thy ===== *)
theory Sds
  imports Util
begin

text \<open>
  \<open>sds.c\<close>: length-prefixed strings with spare room at the end.  A string is its header and
  its buffer; the invariant \<open>sds_wf\<close> ties the two together, the abstraction \<open>sdsval\<close> is the
  content a caller sees.  The second half of the file (splitting, quoting, argument parsing)
  is modelled on the contents.
\<close>

section \<open>Strings with a header\<close>

record sdshdr =
  sd_len :: int
  sd_free :: int
  sd_buf :: string

definition SDS_MAX_PREALLOC :: nat where "SDS_MAX_PREALLOC = 1024 * 1024"

text \<open>\<open>sdslen\<close> and \<open>sdsavail\<close> return a \<open>size_t\<close>.\<close>

definition sdslen :: "sdshdr \<Rightarrow> nat" where "sdslen s = nat (sd_len s)"

definition sdsavail :: "sdshdr \<Rightarrow> nat" where "sdsavail s = nat (sd_free s)"

text \<open>\<open>strlen\<close>: the bytes before the first \<open>NUL\<close>.\<close>

definition cstr :: "string \<Rightarrow> string" where
  "cstr p = takeWhile (\<lambda>c. c \<noteq> NUL) p"

text \<open>
  \<open>init\<close> is a block of at least \<open>initlen\<close> bytes, or \<open>NULL\<close>.  The allocator of the program
  aborts when memory is exhausted, so the tests of its result against \<open>NULL\<close> never succeed.
\<close>

definition sdsnewlen :: "string option \<Rightarrow> nat \<Rightarrow> sdshdr" where
  "sdsnewlen init initlen =
     \<lparr>sd_len = to_int32 (int initlen), sd_free = 0,
      sd_buf = (case init of None \<Rightarrow> replicate initlen NUL | Some p \<Rightarrow> take initlen p) @ [NUL]\<rparr>"

definition sdsempty :: sdshdr where "sdsempty = sdsnewlen (Some []) 0"

definition sdsnew :: "string option \<Rightarrow> sdshdr" where
  "sdsnew init = sdsnewlen init (case init of None \<Rightarrow> 0 | Some p \<Rightarrow> length (cstr p))"

definition sdsdup :: "sdshdr \<Rightarrow> sdshdr" where
  "sdsdup s = sdsnewlen (Some (sd_buf s)) (sdslen s)"

definition sdsupdatelen :: "sdshdr \<Rightarrow> sdshdr" where
  "sdsupdatelen s =
     (let reallen = to_int32 (int (length (cstr (sd_buf s))))
      in s\<lparr>sd_free := sd_free s + (sd_len s - reallen), sd_len := reallen\<rparr>)"

definition sdsclear :: "sdshdr \<Rightarrow> sdshdr" where
  "sdsclear s = s\<lparr>sd_free := sd_free s + sd_len s, sd_len := 0, sd_buf := (sd_buf s)[0 := NUL]\<rparr>"

text \<open>
  \<open>zrealloc\<close>.  The bytes a block gains are not initialised in C; they are \<open>NUL\<close> here, and no
  operation below reads one before writing it.
\<close>

definition realloc :: "string \<Rightarrow> nat \<Rightarrow> string" where
  "realloc buf n = take n buf @ replicate (n - length buf) NUL"

definition sdsMakeRoomFor :: "sdshdr \<Rightarrow> nat \<Rightarrow> sdshdr" where
  "sdsMakeRoomFor s addlen =
     (if addlen \<le> sdsavail s then s
      else let len = sdslen s;
               newlen0 = len + addlen;
               newlen = (if newlen0 < SDS_MAX_PREALLOC then newlen0 * 2 else newlen0 + SDS_MAX_PREALLOC)
           in s\<lparr>sd_buf := realloc (sd_buf s) (newlen + 1), sd_free := to_int32 (int newlen - int len)\<rparr>)"

definition sdsRemoveFreeSpace :: "sdshdr \<Rightarrow> sdshdr" where
  "sdsRemoveFreeSpace s = s\<lparr>sd_buf := realloc (sd_buf s) (nat (sd_len s + 1)), sd_free := 0\<rparr>"

definition sdsAllocSize :: "sdshdr \<Rightarrow> int" where
  "sdsAllocSize s = 8 + sd_len s + sd_free s + 1"

text \<open>\<open>None\<close> is a failed assertion.\<close>

definition sdsIncrLen :: "sdshdr \<Rightarrow> int \<Rightarrow> sdshdr option" where
  "sdsIncrLen s incr =
     (if \<not> incr \<le> sd_free s then None
      else let l = sd_len s + incr; f = sd_free s - incr
           in if \<not> 0 \<le> f then None
              else Some (s\<lparr>sd_len := l, sd_free := f, sd_buf := (sd_buf s)[nat l := NUL]\<rparr>))"

definition sdsgrowzero :: "sdshdr \<Rightarrow> nat \<Rightarrow> sdshdr" where
  "sdsgrowzero s len =
     (let curlen = sdslen s
      in if len \<le> curlen then s
         else let s1 = sdsMakeRoomFor s (len - curlen);
                  totlen = sd_len s1 + sd_free s1
              in s1\<lparr>sd_buf := memcpy (sd_buf s1) curlen (replicate (len - curlen + 1) NUL),
                    sd_len := to_int32 (int len), sd_free := totlen - int len\<rparr>)"

definition sdscatlen :: "sdshdr \<Rightarrow> string \<Rightarrow> nat \<Rightarrow> sdshdr" where
  "sdscatlen s t len =
     (let curlen = sdslen s;
          s1 = sdsMakeRoomFor s len
      in s1\<lparr>sd_buf := (memcpy (sd_buf s1) curlen (take len t))[curlen + len := NUL],
            sd_len := to_int32 (int (curlen + len)), sd_free := sd_free s1 - int len\<rparr>)"

definition sdscat :: "sdshdr \<Rightarrow> string \<Rightarrow> sdshdr" where
  "sdscat s t = sdscatlen s t (length (cstr t))"

definition sdscatsds :: "sdshdr \<Rightarrow> sdshdr \<Rightarrow> sdshdr" where
  "sdscatsds s t = sdscatlen s (sd_buf t) (sdslen t)"

definition sdscpylen :: "sdshdr \<Rightarrow> string \<Rightarrow> nat \<Rightarrow> sdshdr" where
  "sdscpylen s t len =
     (let totlen0 = nat (sd_free s + sd_len s);
          s1 = (if totlen0 < len then sdsMakeRoomFor s (len - sdslen s) else s);
          totlen = sd_free s1 + sd_len s1
      in s1\<lparr>sd_buf := (memcpy (sd_buf s1) 0 (take len t))[len := NUL],
            sd_len := to_int32 (int len), sd_free := totlen - int len\<rparr>)"

definition sdscpy :: "sdshdr \<Rightarrow> string \<Rightarrow> sdshdr" where
  "sdscpy s t = sdscpylen s t (length (cstr t))"

text \<open>
  \<open>sdscatvprintf\<close>: \<open>out\<close> is the complete output of the format, which \<open>vsnprintf\<close> truncates to
  the size of the buffer.  The loop doubles the buffer until its last byte but one is still
  \<open>NUL\<close>.  (The second disjunct only makes the recursion total: the loop starts with 16.)
\<close>

function printf_buf :: "string \<Rightarrow> nat \<Rightarrow> string" where
  "printf_buf out buflen =
     (if length out \<le> buflen - 2 \<or> buflen < 2 \<or> out ! (buflen - 2) = NUL
      then cstr (take (buflen - 1) out) else printf_buf out (buflen * 2))"
  by pat_completeness auto
termination
  by (relation "measure (\<lambda>(out, buflen). length out + 2 - buflen)") auto

declare printf_buf.simps [simp del]

definition sdscatprintf :: "sdshdr \<Rightarrow> string \<Rightarrow> sdshdr" where
  "sdscatprintf s out = sdscat s (printf_buf out 16)"

text \<open>
  \<open>strchr(cset, c)\<close> also finds the terminating \<open>NUL\<close>, so \<open>NUL\<close> bytes at both ends are
  trimmed as well.  \<open>sp\<close> and \<open>ep\<close> are the indices of the pointers.
\<close>

definition in_cset :: "string \<Rightarrow> char \<Rightarrow> bool" where
  "in_cset cset c \<longleftrightarrow> c = NUL \<or> c \<in> set cset"

definition trim_left :: "string \<Rightarrow> string \<Rightarrow> int" where
  "trim_left cset v = int (length (takeWhile (in_cset cset) v))"

fun trim_right :: "string \<Rightarrow> string \<Rightarrow> nat \<Rightarrow> nat" where
  "trim_right cset v 0 = 0"
| "trim_right cset v (Suc ep) =
     (if in_cset cset (v ! Suc ep) then trim_right cset v ep else Suc ep)"

definition sdstrim :: "sdshdr \<Rightarrow> string \<Rightarrow> sdshdr" where
  "sdstrim s cset =
     (let v = take (sdslen s) (sd_buf s);
          sp = trim_left cset v;
          ep = (if v = [] then -1 else int (trim_right cset v (length v - 1)));
          len = (if ep < sp then 0 else nat (ep - sp + 1))
      in s\<lparr>sd_buf := (memmove (sd_buf s) 0 (nat sp) len)[len := NUL],
           sd_free := sd_free s + (sd_len s - int len), sd_len := int len\<rparr>)"

definition sdsrange :: "sdshdr \<Rightarrow> int \<Rightarrow> int \<Rightarrow> sdshdr" where
  "sdsrange s start0 end0 =
     (let len = int (sdslen s)
      in if len = 0 then s
         else
           let start1 = (if start0 < 0 then (if len + start0 < 0 then 0 else len + start0) else start0);
               end1 = (if end0 < 0 then (if len + end0 < 0 then 0 else len + end0) else end0);
               newlen1 = (if end1 < start1 then 0 else end1 - start1 + 1);
               (start, newlen) =
                 (if newlen1 \<noteq> 0 then
                    if len \<le> start1 then (start1, 0)
                    else if len \<le> end1 then (start1, if len - 1 < start1 then 0 else len - 1 - start1 + 1)
                    else (start1, newlen1)
                  else (0, newlen1));
               buf = (if start \<noteq> 0 \<and> newlen \<noteq> 0 then memmove (sd_buf s) 0 (nat start) (nat newlen)
                      else sd_buf s)
           in s\<lparr>sd_buf := buf[nat newlen := NUL], sd_free := sd_free s + (sd_len s - newlen),
                sd_len := newlen\<rparr>)"

definition map_prefix :: "(char \<Rightarrow> char) \<Rightarrow> sdshdr \<Rightarrow> sdshdr" where
  "map_prefix f s = s\<lparr>sd_buf := map f (take (sdslen s) (sd_buf s)) @ drop (sdslen s) (sd_buf s)\<rparr>"

definition sdstolower :: "sdshdr \<Rightarrow> sdshdr" where "sdstolower s = map_prefix tolower s"

definition sdstoupper :: "sdshdr \<Rightarrow> sdshdr" where "sdstoupper s = map_prefix toupper s"

text \<open>The inner loop of \<open>sdsmapchars\<close>: the first match in \<open>from\<close> decides.\<close>

fun mapchar :: "string \<Rightarrow> string \<Rightarrow> char \<Rightarrow> char" where
  "mapchar (f # from) (t # to) c = (if c = f then t else mapchar from to c)"
| "mapchar _ _ c = c"

definition sdsmapchars :: "sdshdr \<Rightarrow> string \<Rightarrow> string \<Rightarrow> nat \<Rightarrow> sdshdr" where
  "sdsmapchars s from to setlen = map_prefix (mapchar (take setlen from) (take setlen to)) s"

text \<open>\<open>memcmp\<close> on equally many bytes; C promises the sign of the result, not its size.\<close>

fun memcmp :: "string \<Rightarrow> string \<Rightarrow> int" where
  "memcmp (a # as) (b # bs) = (if a = b then memcmp as bs else int (code a) - int (code b))"
| "memcmp _ _ = 0"

definition sdscmp :: "sdshdr \<Rightarrow> sdshdr \<Rightarrow> int" where
  "sdscmp s1 s2 =
     (let l1 = sdslen s1; l2 = sdslen s2;
          minlen = (if l1 < l2 then l1 else l2);
          cmp = memcmp (take minlen (sd_buf s1)) (take minlen (sd_buf s2))
      in if cmp = 0 then to_int32 (int l1 - int l2) else cmp)"

section \<open>Invariant and content\<close>

definition sds_wf :: "sdshdr \<Rightarrow> bool" where
  "sds_wf s \<longleftrightarrow>
     0 \<le> sd_len s \<and> 0 \<le> sd_free s \<and> sd_len s + sd_free s \<le> INT32_MAX \<and>
     length (sd_buf s) = nat (sd_len s + sd_free s) + 1 \<and> sd_buf s ! nat (sd_len s) = NUL"

definition sdsval :: "sdshdr \<Rightarrow> string" where
  "sdsval s = take (sdslen s) (sd_buf s)"

definition sds_room :: "nat \<Rightarrow> sdshdr \<Rightarrow> bool" where
  "sds_room n s \<longleftrightarrow> sdslen s + n < 2 ^ 30"

lemma sds_wfD:
  assumes "sds_wf s"
  shows "int (sdslen s) = sd_len s" "int (sdsavail s) = sd_free s"
    "length (sd_buf s) = sdslen s + sdsavail s + 1" "sd_buf s ! sdslen s = NUL"
    "sdslen s + sdsavail s \<le> 2147483647"
  using assms by (auto simp: sds_wf_def sdslen_def sdsavail_def nat_add_distrib)

lemma sds_wfI:
  assumes "sd_len s = int l" "sd_free s = int f" "length (sd_buf s) = l + f + 1"
    "sd_buf s ! l = NUL" "l + f \<le> 2147483647"
  shows "sds_wf s"
  using assms by (auto simp: sds_wf_def)

lemma length_sdsval: "sds_wf s \<Longrightarrow> length (sdsval s) = sdslen s"
  using sds_wfD(3) [of s] by (simp add: sdsval_def)

text \<open>A string made of a content, a terminator and a spare part is well formed.\<close>

lemma sds_build:
  assumes "sd_len s = int (length v)" "sd_free s = int f" "sd_buf s = v @ NUL # rest"
    "length rest = f" "length v + f \<le> 2147483647"
  shows "sds_wf s \<and> sdsval s = v"
  using sds_wfI [of s "length v" f] assms by (simp add: sdsval_def sdslen_def)

lemma sds_split:
  assumes "sds_wf s"
  obtains v rest where "sd_buf s = v @ NUL # rest" "sdsval s = v" "length v = sdslen s" "length rest = sdsavail s"
proof -
  note d = sds_wfD [OF assms]
  have "sd_buf s = take (sdslen s) (sd_buf s) @ NUL # drop (Suc (sdslen s)) (sd_buf s)"
    using id_take_nth_drop [of "sdslen s" "sd_buf s"] d by simp
  moreover have "length (take (sdslen s) (sd_buf s)) = sdslen s"
    and "length (drop (Suc (sdslen s)) (sd_buf s)) = sdsavail s" using d by simp_all
  ultimately show ?thesis using that [of "take (sdslen s) (sd_buf s)"] by (simp add: sdsval_def)
qed

lemma sdsnewlen_props:
  assumes "n \<le> length p" "n \<le> 2147483647"
  shows "sds_wf (sdsnewlen (Some p) n) \<and> sdsval (sdsnewlen (Some p) n) = take n p"
    "sds_wf (sdsnewlen None n) \<and> sdsval (sdsnewlen None n) = replicate n NUL"
proof -
  show "sds_wf (sdsnewlen (Some p) n) \<and> sdsval (sdsnewlen (Some p) n) = take n p"
    by (rule sds_build [where f = 0 and rest = "[]"]) (use assms in \<open>simp_all add: sdsnewlen_def\<close>)
  show "sds_wf (sdsnewlen None n) \<and> sdsval (sdsnewlen None n) = replicate n NUL"
    by (rule sds_build [where f = 0 and rest = "[]"]) (use assms in \<open>simp_all add: sdsnewlen_def\<close>)
qed

lemma length_realloc [simp]: "length (realloc buf n) = n"
  by (simp add: realloc_def)

lemma realloc_grow: "length buf \<le> n \<Longrightarrow> realloc buf n = buf @ replicate (n - length buf) NUL"
  by (simp add: realloc_def)

lemma sdsMakeRoomFor_props:
  assumes "sds_wf s" "sds_room n s"
  shows "sds_wf (sdsMakeRoomFor s n)" "sdsval (sdsMakeRoomFor s n) = sdsval s"
    "sdslen (sdsMakeRoomFor s n) = sdslen s" "n \<le> sdsavail (sdsMakeRoomFor s n)"
    "sd_len (sdsMakeRoomFor s n) = sd_len s"
proof -
  note d = sds_wfD [OF assms(1)]
  have "sds_wf (sdsMakeRoomFor s n) \<and> sdsval (sdsMakeRoomFor s n) = sdsval s \<and>
        sdslen (sdsMakeRoomFor s n) = sdslen s \<and> n \<le> sdsavail (sdsMakeRoomFor s n) \<and>
        sd_len (sdsMakeRoomFor s n) = sd_len s"
  proof (cases "n \<le> sdsavail s")
    case True
    then show ?thesis using assms by (simp add: sdsMakeRoomFor_def)
  next
    case False
    define len where "len = sdslen s"
    define newlen where "newlen = (if len + n < SDS_MAX_PREALLOC then (len + n) * 2 else len + n + SDS_MAX_PREALLOC)"
    have r: "len + n < 2 ^ 30" using assms(2) by (simp add: sds_room_def len_def)
    have nl: "len + n \<le> newlen" "newlen < 2147483647"
      using r by (auto simp: newlen_def SDS_MAX_PREALLOC_def)
    have le: "length (sd_buf s) \<le> newlen + 1" using d(3) False nl by (simp add: len_def)
    have eq: "sdsMakeRoomFor s n = s\<lparr>sd_buf := realloc (sd_buf s) (newlen + 1), sd_free := int (newlen - len)\<rparr>"
      using False nl by (simp add: sdsMakeRoomFor_def Let_def len_def [symmetric] newlen_def [symmetric] of_nat_diff)
    obtain v rest where v: "sd_buf s = v @ NUL # rest" "sdsval s = v" "length v = len" "length rest = sdsavail s"
      using sds_split [OF assms(1)] by (metis len_def)
    have "sds_wf (sdsMakeRoomFor s n) \<and> sdsval (sdsMakeRoomFor s n) = v"
    proof (rule sds_build [where f = "newlen - len" and rest = "rest @ replicate (newlen + 1 - length (sd_buf s)) NUL"])
      show "sd_buf (sdsMakeRoomFor s n) = v @ NUL # rest @ replicate (newlen + 1 - length (sd_buf s)) NUL"
        using realloc_grow [OF le] v by (simp add: eq)
      show "length (rest @ replicate (newlen + 1 - length (sd_buf s)) NUL) = newlen - len"
        using v le by simp
    qed (use v nl d in \<open>simp_all add: eq len_def\<close>)
    then show ?thesis using v nl by (simp add: eq sdslen_def sdsavail_def)
  qed
  then show "sds_wf (sdsMakeRoomFor s n)" "sdsval (sdsMakeRoomFor s n) = sdsval s"
    "sdslen (sdsMakeRoomFor s n) = sdslen s" "n \<le> sdsavail (sdsMakeRoomFor s n)"
    "sd_len (sdsMakeRoomFor s n) = sd_len s" by simp_all
qed

lemma sdscatlen_props:
  assumes "sds_wf s" "sds_room n s" "n \<le> length t"
  shows "sds_wf (sdscatlen s t n)" "sdsval (sdscatlen s t n) = sdsval s @ take n t"
proof -
  define s1 where "s1 = sdsMakeRoomFor s n"
  note m = sdsMakeRoomFor_props [OF assms(1,2), folded s1_def]
  obtain v rest where v: "sd_buf s1 = v @ NUL # rest" "sdsval s1 = v" "length v = sdslen s1" "length rest = sdsavail s1"
    using sds_split [OF m(1)] by metis
  have r: "sdslen s + n \<le> 2147483647" using assms(2) by (simp add: sds_room_def)
  have eq: "sdscatlen s t n = s1\<lparr>sd_buf := (memcpy (sd_buf s1) (sdslen s) (take n t))[sdslen s + n := NUL],
      sd_len := int (sdslen s + n), sd_free := int (sdsavail s1 - n)\<rparr>"
    using r m(4) sds_wfD(2) [OF m(1)] by (simp add: sdscatlen_def Let_def s1_def [symmetric] of_nat_diff)
  have e1: "memcpy (sd_buf s1) (sdslen s) (take n t) = v @ take n t @ drop n (NUL # rest)"
  proof -
    have "length v = sdslen s" "length (take n t) = n" using v(3) m(3) assms(3) by simp_all
    then have "take (sdslen s) (v @ NUL # rest) = v"
      and "drop (sdslen s + length (take n t)) (v @ NUL # rest) = drop n (NUL # rest)" by simp_all
    then show ?thesis unfolding memcpy_def v(1) by (simp only:)
  qed
  have e2: "v @ take n t @ drop n (NUL # rest) = (v @ take n t) @ (NUL # rest) ! n # drop n rest"
  proof -
    have "n < length (NUL # rest)" using v(4) m(4) by (simp only: list.size)
    from Cons_nth_drop_Suc [OF this] show ?thesis by (simp only: drop_Suc_Cons append_assoc)
  qed
  have e3: "((v @ take n t) @ (NUL # rest) ! n # drop n rest)[sdslen s + n := NUL] = (v @ take n t) @ NUL # drop n rest"
  proof -
    have "length (v @ take n t) = sdslen s + n" using v(3) m(3) assms(3) by simp
    from list_update_length [of "v @ take n t", unfolded this] show ?thesis by this
  qed
  have buf: "sd_buf (sdscatlen s t n) = (v @ take n t) @ NUL # drop n rest"
    unfolding eq e1 e2 e3 by simp
  have "sd_len (sdscatlen s t n) = int (length (v @ take n t))"
    using v(3) m(3) assms(3) unfolding eq by simp
  moreover have "sd_free (sdscatlen s t n) = int (sdsavail s1 - n)" unfolding eq by simp
  moreover have "length (drop n rest) = sdsavail s1 - n" using v(4) by simp
  moreover have "length (v @ take n t) + (sdsavail s1 - n) \<le> 2147483647"
    using v(3) m(3,4) sds_wfD(5) [OF m(1)] assms(3) by simp
  ultimately have "sds_wf (sdscatlen s t n) \<and> sdsval (sdscatlen s t n) = v @ take n t"
    using sds_build [OF _ _ buf] by blast
  then show "sds_wf (sdscatlen s t n)" "sdsval (sdscatlen s t n) = sdsval s @ take n t"
    using v(2) m(2) by simp_all
qed


lemma sdscat_props:
  assumes "sds_wf s" "sds_room (length (cstr t)) s"
  shows "sds_wf (sdscat s t)" "sdsval (sdscat s t) = sdsval s @ cstr t"
proof -
  have "length (cstr t) \<le> length t" by (simp add: cstr_def length_takeWhile_le)
  moreover have "take (length (cstr t)) t = cstr t"
    by (simp add: cstr_def takeWhile_eq_take [symmetric])
  ultimately show "sds_wf (sdscat s t)" "sdsval (sdscat s t) = sdsval s @ cstr t"
    using sdscatlen_props [OF assms] by (simp_all add: sdscat_def)
qed

lemma sdsclear_props: "sds_wf s \<Longrightarrow> sds_wf (sdsclear s) \<and> sdsval (sdsclear s) = []"
  by (auto simp: sds_wf_def sdsval_def sdsclear_def sdslen_def nth_list_update algebra_simps)

lemma sdsRemoveFreeSpace_props:
  assumes "sds_wf s"
  shows "sds_wf (sdsRemoveFreeSpace s) \<and> sdsval (sdsRemoveFreeSpace s) = sdsval s \<and>
         sdsavail (sdsRemoveFreeSpace s) = 0"
proof -
  obtain v rest where v: "sd_buf s = v @ NUL # rest" "sdsval s = v" "length v = sdslen s" "length rest = sdsavail s"
    using sds_split [OF assms] by metis
  have n: "nat (sd_len s + 1) = Suc (length v)" using sds_wfD(1) [OF assms] v(3) by simp
  have b: "sd_buf (sdsRemoveFreeSpace s) = v @ NUL # []"
    by (simp add: sdsRemoveFreeSpace_def realloc_def n v)
  have "sds_wf (sdsRemoveFreeSpace s) \<and> sdsval (sdsRemoveFreeSpace s) = v"
    by (rule sds_build [where f = 0 and rest = "[]", OF _ _ b])
      (use sds_wfD [OF assms] v(3) in \<open>simp_all add: sdsRemoveFreeSpace_def\<close>)
  then show ?thesis using v(2) by (simp add: sdsavail_def sdsRemoveFreeSpace_def)
qed

lemma sdscpylen_props:
  assumes "sds_wf s" "n < 2 ^ 30" "n \<le> length t"
  shows "sds_wf (sdscpylen s t n)" "sdsval (sdscpylen s t n) = take n t"
proof -
  note d = sds_wfD [OF assms(1)]
  define s1 where "s1 = (if nat (sd_free s + sd_len s) < n then sdsMakeRoomFor s (n - sdslen s) else s)"
  have tot: "nat (sd_free s + sd_len s) = sdslen s + sdsavail s" using d(1,2) by simp
  have m: "sds_wf s1 \<and> n \<le> sdslen s1 + sdsavail s1"
  proof (cases "sdslen s + sdsavail s < n")
    case True
    then have "sds_room (n - sdslen s) s" using assms(2) by (simp add: sds_room_def)
    from sdsMakeRoomFor_props [OF assms(1) this] True show ?thesis by (simp add: s1_def tot)
  next
    case False
    then show ?thesis using assms(1) by (simp add: s1_def tot)
  qed
  note d1 = sds_wfD [OF conjunct1 [OF m]]
  define rest where "rest = drop (Suc n) (sd_buf s1)"
  have eq: "sdscpylen s t n = s1\<lparr>sd_buf := (memcpy (sd_buf s1) 0 (take n t))[n := NUL],
      sd_len := int n, sd_free := int (sdsavail s1 + sdslen s1 - n)\<rparr>"
    using assms(2) m d1(1,2) by (simp add: sdscpylen_def Let_def s1_def [symmetric] of_nat_diff)
  have "drop n (sd_buf s1) = sd_buf s1 ! n # rest"
    unfolding rest_def using m d1(3) by (simp add: Cons_nth_drop_Suc)
  then have b: "sd_buf (sdscpylen s t n) = take n t @ NUL # rest"
    using assms(3) by (simp add: eq memcpy_def list_update_append)
  have "sds_wf (sdscpylen s t n) \<and> sdsval (sdscpylen s t n) = take n t"
    by (rule sds_build [where f = "sdsavail s1 + sdslen s1 - n", OF _ _ b])
      (use assms m d1(3,5) in \<open>simp_all add: eq rest_def\<close>)
  then show "sds_wf (sdscpylen s t n)" "sdsval (sdscpylen s t n) = take n t" by simp_all
qed

lemma sdsgrowzero_props:
  assumes "sds_wf s" "n < 2 ^ 30"
  shows "sds_wf (sdsgrowzero s n)"
    "sdsval (sdsgrowzero s n) = sdsval s @ replicate (n - sdslen s) NUL"
proof -
  have "sds_wf (sdsgrowzero s n) \<and> sdsval (sdsgrowzero s n) = sdsval s @ replicate (n - sdslen s) NUL"
  proof (cases "n \<le> sdslen s")
    case True
    then show ?thesis using assms by (simp add: sdsgrowzero_def)
  next
    case False
    define s1 where "s1 = sdsMakeRoomFor s (n - sdslen s)"
    have "sds_room (n - sdslen s) s" using assms(2) False by (simp add: sds_room_def)
    note m = sdsMakeRoomFor_props [OF assms(1) this, folded s1_def]
    obtain v rest where v: "sd_buf s1 = v @ NUL # rest" "sdsval s1 = v" "length v = sdslen s1" "length rest = sdsavail s1"
      using sds_split [OF m(1)] by metis
    note d1 = sds_wfD [OF m(1)]
    define k where "k = n - sdslen s"
    have k: "k \<le> sdsavail s1" "n = sdslen s + k" using m(4) False by (simp_all add: k_def)
    have eq: "sdsgrowzero s n = s1\<lparr>sd_buf := memcpy (sd_buf s1) (sdslen s) (replicate (k + 1) NUL),
        sd_len := int n, sd_free := int (sdsavail s1 - k)\<rparr>"
    proof -
      have "sdsMakeRoomFor s k = s1" "n - sdslen s = k" by (simp_all add: s1_def k_def)
      then show ?thesis
        using False assms(2) d1(1,2) m(3) k(1) by (simp add: sdsgrowzero_def Let_def of_nat_diff)
    qed
    have b: "sd_buf (sdsgrowzero s n) = (v @ replicate k NUL) @ NUL # drop k rest"
      using v m(3) by (simp add: eq memcpy_def replicate_append_same)
    have "sds_wf (sdsgrowzero s n) \<and> sdsval (sdsgrowzero s n) = v @ replicate k NUL"
      by (rule sds_build [where f = "sdsavail s1 - k", OF _ _ b])
        (use k(1) k(2) [symmetric] v(3,4) m(3) d1(5) in \<open>simp_all add: eq\<close>)
    then show ?thesis using v(2) m(2) by (simp add: k_def)
  qed
  then show "sds_wf (sdsgrowzero s n)"
    "sdsval (sdsgrowzero s n) = sdsval s @ replicate (n - sdslen s) NUL" by simp_all
qed

lemma sdsIncrLen_props:
  assumes "sds_wf s" "0 \<le> sd_len s + incr" "incr \<le> sd_free s"
  shows "\<exists>s'. sdsIncrLen s incr = Some s' \<and> sds_wf s' \<and>
     sdsval s' = take (nat (sd_len s + incr)) (sd_buf s)"
proof -
  define n where "n = nat (sd_len s + incr)"
  have n: "int n = sd_len s + incr" using assms(2) by (simp add: n_def)
  let ?s' = "s\<lparr>sd_len := sd_len s + incr, sd_free := sd_free s - incr, sd_buf := (sd_buf s)[n := NUL]\<rparr>"
  note d = sds_wfD [OF assms(1)]
  have l: "n < length (sd_buf s)" using n d(1,2,3) assms(3) by linarith
  have b: "sd_buf ?s' = take n (sd_buf s) @ NUL # drop (Suc n) (sd_buf s)"
    using l by (simp add: upd_conv_take_nth_drop)
  have "sds_wf ?s' \<and> sdsval ?s' = take n (sd_buf s)"
    by (rule sds_build [where f = "nat (sd_free s - incr)", OF _ _ b])
      (use n l d assms(3) in auto)
  then show ?thesis using assms by (simp add: sdsIncrLen_def Let_def n_def)
qed

lemma map_prefix_props:
  assumes "sds_wf s"
  shows "sds_wf (map_prefix f s) \<and> sdsval (map_prefix f s) = map f (sdsval s)"
proof -
  obtain v rest where v: "sd_buf s = v @ NUL # rest" "sdsval s = v" "length v = sdslen s" "length rest = sdsavail s"
    using sds_split [OF assms] by metis
  have b: "sd_buf (map_prefix f s) = map f v @ NUL # rest" using v by (simp add: map_prefix_def)
  show ?thesis unfolding v(2)
    by (rule sds_build [where f = "sdsavail s", OF _ _ b])
      (use v sds_wfD [OF assms] in \<open>simp_all add: map_prefix_def\<close>)
qed

section \<open>Trimming, ranges, comparison\<close>

lemma shrink_props:
  assumes "sds_wf s" "n \<le> sdslen s" "length buf = length (sd_buf s)"
  defines "s' \<equiv> s\<lparr>sd_buf := buf[n := NUL], sd_free := sd_free s + (sd_len s - int n), sd_len := int n\<rparr>"
  shows "sds_wf s'" "sdsval s' = take n buf"
proof -
  note d = sds_wfD [OF assms(1)]
  have l: "n < length buf" using assms(2,3) d(3) by simp
  have b: "sd_buf s' = take n buf @ NUL # drop (Suc n) buf"
    unfolding s'_def using l by (simp add: upd_conv_take_nth_drop)
  have "sd_free s' = int (sdsavail s + (sdslen s - n))"
    unfolding s'_def using d(1,2) assms(2) by (simp add: of_nat_diff)
  moreover have "sd_len s' = int (length (take n buf))" unfolding s'_def using l by simp
  moreover have "length (drop (Suc n) buf) = sdsavail s + (sdslen s - n)"
    using assms(2,3) d(3) by simp
  moreover have "length (take n buf) + (sdsavail s + (sdslen s - n)) \<le> 2147483647"
    using l assms(2) d(5) by simp
  ultimately have "sds_wf s' \<and> sdsval s' = take n buf" using sds_build [OF _ _ b] by blast
  then show "sds_wf s'" "sdsval s' = take n buf" by simp_all
qed

lemma take_memmove:
  assumes "src + n \<le> length buf"
  shows "take n (memmove buf 0 src n) = take n (drop src buf)"
  using assms by (simp add: memmove_def)

text \<open>The last index, from \<open>ep\<close> down to 1, whose character is not trimmed.\<close>

lemma trim_right_props:
  "trim_right cset v ep \<le> ep \<and> (\<forall>i. trim_right cset v ep < i \<and> i \<le> ep \<longrightarrow> in_cset cset (v ! i)) \<and>
   (trim_right cset v ep \<noteq> 0 \<longrightarrow> \<not> in_cset cset (v ! trim_right cset v ep))"
proof (induction ep)
  case (Suc ep)
  then show ?case by (auto simp: le_Suc_eq)
qed simp

definition trim_spec :: "string \<Rightarrow> string \<Rightarrow> string" where
  "trim_spec cset v = rev (dropWhile (in_cset cset) (rev (dropWhile (in_cset cset) v)))"

lemma trim_spec_unique:
  assumes "v = a @ b @ c" "\<forall>x\<in>set a. in_cset cset x" "\<forall>x\<in>set c. in_cset cset x"
    and "b \<noteq> [] \<Longrightarrow> \<not> in_cset cset (hd b) \<and> \<not> in_cset cset (last b)"
  shows "trim_spec cset v = b"
proof (cases "b = []")
  case True
  then have "\<forall>x\<in>set v. in_cset cset x" using assms(1-3) by auto
  then have "dropWhile (in_cset cset) v = []" by (simp only: dropWhile_eq_Nil_conv)
  then show ?thesis using True by (simp only: trim_spec_def) simp
next
  case False
  then have n: "\<not> in_cset cset (hd b)" "\<not> in_cset cset (last b)" using assms(4) by auto
  have "dropWhile (in_cset cset) v = b @ c"
    using assms(1,2) False n(1) by (simp add: dropWhile_append2) (cases b; simp)
  moreover have "dropWhile (in_cset cset) (rev c @ rev b) = rev b"
  proof -
    obtain b' x where b: "b = b' @ [x]" using False by (cases b rule: rev_cases) auto
    have "dropWhile (in_cset cset) (rev c @ rev b) = dropWhile (in_cset cset) (rev b)"
      by (rule dropWhile_append2) (use assms(3) in auto)
    then show ?thesis using n(2) b by simp
  qed
  ultimately show ?thesis by (simp add: trim_spec_def)
qed

lemma sdstrim_props:
  assumes "sds_wf s"
  shows "sds_wf (sdstrim s cset)" "sdsval (sdstrim s cset) = trim_spec cset (sdsval s)"
proof -
  define v where "v = sdsval s"
  note d = sds_wfD [OF assms]
  have lv: "length v = sdslen s" using length_sdsval [OF assms] by (simp add: v_def)
  define sp where "sp = length (takeWhile (in_cset cset) v)"
  define ep where "ep = trim_right cset v (length v - 1)"
  define len where "len = (if v = [] \<or> ep < sp then 0 else ep - sp + 1)"
  note tr = trim_right_props [of cset v "length v - 1", folded ep_def]
  have sp: "sp \<le> length v" by (simp add: sp_def length_takeWhile_le)
  have le: "v \<noteq> [] \<Longrightarrow> ep < length v" using tr by (cases v) auto
  have fit: "sp + len \<le> length v" using sp le by (auto simp: len_def)
  have eq: "sdstrim s cset = s\<lparr>sd_buf := (memmove (sd_buf s) 0 sp len)[len := NUL],
      sd_free := sd_free s + (sd_len s - int len), sd_len := int len\<rparr>"
  proof -
    have "(if (if v = [] then -1 else int ep) < int sp then 0
           else nat ((if v = [] then -1 else int ep) - int sp + 1)) = len"
      by (auto simp: len_def nat_diff_distrib')
    then show ?thesis
      unfolding sdstrim_def Let_def trim_left_def sdsval_def [symmetric] v_def [symmetric]
        sp_def [symmetric] ep_def [symmetric] by simp
  qed
  have lb: "sp + len \<le> length (sd_buf s)" using fit lv d(3) by simp
  have 1: "sds_wf (sdstrim s cset)" "sdsval (sdstrim s cset) = take len (drop sp (sd_buf s))"
    unfolding eq using shrink_props [OF assms, of len "memmove (sd_buf s) 0 sp len"] fit lv lb
    by (simp_all add: take_memmove)
  have "take len (drop sp (sd_buf s)) = take len (drop sp v)"
  proof -
    have "min len (sdslen s - sp) = len" using fit lv by linarith
    then show ?thesis by (simp add: v_def sdsval_def drop_take)
  qed
  moreover have "trim_spec cset v = take len (drop sp v)"
  proof (rule trim_spec_unique)
    show "v = take sp v @ take len (drop sp v) @ drop (sp + len) v"
      by (metis append_assoc append_take_drop_id take_add)
    have "take sp v = takeWhile (in_cset cset) v" by (simp add: sp_def takeWhile_eq_take [symmetric])
    then show "\<forall>x\<in>set (take sp v). in_cset cset x" by (auto dest: set_takeWhileD)
    have hd: "sp < length v \<Longrightarrow> \<not> in_cset cset (v ! sp)"
      using nth_length_takeWhile [of "in_cset cset" v] by (simp add: sp_def)
    have emp: "sp < length v \<Longrightarrow> sp \<le> ep"
    proof (rule ccontr)
      assume a: "sp < length v" "\<not> sp \<le> ep"
      then have "in_cset cset (v ! sp)" using tr by auto
      with hd a show False by simp
    qed
    show "\<forall>x\<in>set (drop (sp + len) v). in_cset cset x"
    proof
      fix x assume "x \<in> set (drop (sp + len) v)"
      then obtain i where i: "x = v ! (sp + len + i)" "sp + len + i < length v"
        by (auto simp: in_set_conv_nth)
      then have "sp \<le> ep" "v \<noteq> []" using emp by auto
      then have "ep < sp + len + i" by (simp add: len_def)
      with tr i show "in_cset cset x" by auto
    qed
    assume ne: "take len (drop sp v) \<noteq> []"
    then have l: "0 < len" "sp < length v" by auto
    then have vn: "v \<noteq> []" and se: "sp \<le> ep" and len: "len = ep - sp + 1" by (auto simp: len_def split: if_splits)
    have "hd (take len (drop sp v)) = v ! sp" using l by (simp add: hd_drop_conv_nth)
    moreover have "last (take len (drop sp v)) = v ! ep"
      using l le [OF vn] se len by (simp add: last_conv_nth)
    moreover have "\<not> in_cset cset (v ! ep)"
    proof (cases "ep = 0")
      case True
      then show ?thesis using se hd l by simp
    next
      case False
      then show ?thesis using tr by simp
    qed
    ultimately show "\<not> in_cset cset (hd (take len (drop sp v))) \<and> \<not> in_cset cset (last (take len (drop sp v)))"
      using hd l by simp
  qed
  ultimately show "sds_wf (sdstrim s cset)" "sdsval (sdstrim s cset) = trim_spec cset (sdsval s)"
    using 1 by (simp_all add: v_def)
qed

text \<open>The range in terms of the content: negative indices count from the end.\<close>

definition clamp_index :: "nat \<Rightarrow> int \<Rightarrow> nat" where
  "clamp_index len i = nat (if i < 0 then int len + i else i)"

definition range_spec :: "string \<Rightarrow> int \<Rightarrow> int \<Rightarrow> string" where
  "range_spec v start end =
     (let a = clamp_index (length v) start; b = clamp_index (length v) end
      in take (Suc b - a) (drop a v))"

lemma sdsrange_props:
  assumes "sds_wf s"
  shows "sds_wf (sdsrange s start end)" "sdsval (sdsrange s start end) = range_spec (sdsval s) start end"
proof -
  define L where "L = sdslen s"
  define a b where "a = clamp_index L start" and "b = clamp_index L end"
  note d = sds_wfD [OF assms]
  have lv: "length (sdsval s) = L" using length_sdsval [OF assms] by (simp add: L_def)
  have "sds_wf (sdsrange s start end) \<and>
    sdsval (sdsrange s start end) = take (Suc b - a) (drop a (sdsval s))"
  proof (cases "L = 0")
    case True
    then have "sdsrange s start end = s" by (simp add: sdsrange_def L_def)
    then show ?thesis using True lv assms by simp
  next
    case False
    have ab: "(if start < 0 then if int L + start < 0 then 0 else int L + start else start) = int a"
      "(if end < 0 then if int L + end < 0 then 0 else int L + end else end) = int b"
      by (auto simp: a_def b_def clamp_index_def)
    define n where "n = (if L \<le> a then 0 else min L (Suc b) - a)"
    define src where "src = (if b < a then 0 else a)"
    define n1 :: int where "n1 = (if int b < int a then 0 else int b - int a + 1)"
    have rng: "(if n1 \<noteq> 0 then if int L \<le> int a then (int a, 0)
        else if int L \<le> int b then (int a, if int L - 1 < int a then 0 else int L - 1 - int a + 1)
        else (int a, n1) else (0, n1)) = (int src, int n)"
      using False by (auto simp: n1_def n_def src_def min_def of_nat_diff)
    have eq: "sdsrange s start end = s\<lparr>
        sd_buf := (if src \<noteq> 0 \<and> n \<noteq> 0 then memmove (sd_buf s) 0 src n else sd_buf s)[n := NUL],
        sd_free := sd_free s + (sd_len s - int n), sd_len := int n\<rparr>"
      unfolding sdsrange_def Let_def L_def [symmetric] ab n1_def [symmetric] rng prod.case
      using False by simp
    have nl: "n \<le> L" "a + n \<le> L \<or> n = 0" by (auto simp: n_def)
    have val: "take n (if src \<noteq> 0 \<and> n \<noteq> 0 then memmove (sd_buf s) 0 src n else sd_buf s) =
      take (Suc b - a) (drop a (sdsval s))"
    proof (cases "n = 0")
      case True
      then have "L \<le> a \<or> b < a" by (auto simp: n_def split: if_splits)
      then show ?thesis using True lv by auto
    next
      case False
      then have s: "src = a" "a < L" and n: "n = min L (Suc b) - a"
        by (auto simp: src_def n_def split: if_splits)
      have "a + n \<le> length (sd_buf s)" using nl False d(3) by (simp add: L_def)
      then have "take n (memmove (sd_buf s) 0 a n) = take n (drop a (sd_buf s))" by (rule take_memmove)
      moreover have "take n (drop a (sd_buf s)) = take (Suc b - a) (drop a (sdsval s))"
        by (simp add: sdsval_def L_def [symmetric] drop_take n min_diff min.commute)
      ultimately show ?thesis using s False by (cases "a = 0") simp_all
    qed
    have "length (if src \<noteq> 0 \<and> n \<noteq> 0 then memmove (sd_buf s) 0 src n else sd_buf s) = length (sd_buf s)"
      using nl d(3) by (auto simp: src_def L_def)
    from shrink_props [OF assms _ this, of n] nl(1) show ?thesis unfolding eq val by (simp add: L_def)
  qed
  then show "sds_wf (sdsrange s start end)" "sdsval (sdsrange s start end) = range_spec (sdsval s) start end"
    by (simp_all add: range_spec_def Let_def lv a_def b_def)
qed

section \<open>Comparison\<close>

lemma memcmp_eq_0: "length a = length b \<Longrightarrow> memcmp a b = 0 \<longleftrightarrow> a = b"
  by (induction a b rule: memcmp.induct) auto

text \<open>The order \<open>sdscmp\<close> decides: lexicographic on the bytes as unsigned numbers.\<close>

fun lex_less :: "string \<Rightarrow> string \<Rightarrow> bool" where
  "lex_less _ [] = False"
| "lex_less [] (b # bs) = True"
| "lex_less (a # as) (b # bs) = (code a < code b \<or> a = b \<and> lex_less as bs)"

lemma memcmp_prefix:
  "n = min (length a) (length b) \<Longrightarrow>
   lex_less a b \<longleftrightarrow> (if memcmp (take n a) (take n b) = 0 then length a < length b else memcmp (take n a) (take n b) < 0)"
proof (induction a b arbitrary: n rule: lex_less.induct)
  case (3 a as b bs)
  then show ?case by auto
qed auto

lemma sdscmp_props:
  assumes "sds_wf s" "sds_wf t"
  shows "sdscmp s t < 0 \<longleftrightarrow> lex_less (sdsval s) (sdsval t)"
    and "sdscmp s t = 0 \<longleftrightarrow> sdsval s = sdsval t"
proof -
  note ds = sds_wfD [OF assms(1)] and dt = sds_wfD [OF assms(2)]
  have l: "length (sdsval s) = sdslen s" "length (sdsval t) = sdslen t"
    using assms by (simp_all add: length_sdsval)
  define n where "n = min (sdslen s) (sdslen t)"
  define c where "c = memcmp (take n (sdsval s)) (take n (sdsval t))"
  have eq: "sdscmp s t = (if c = 0 then int (sdslen s) - int (sdslen t) else c)"
    using ds(5) dt(5) by (auto simp: sdscmp_def Let_def c_def n_def sdsval_def min_def)
  show "sdscmp s t < 0 \<longleftrightarrow> lex_less (sdsval s) (sdsval t)"
    using memcmp_prefix [of n "sdsval s" "sdsval t"] l by (simp add: eq n_def c_def)
  have "c = 0 \<longleftrightarrow> take n (sdsval s) = take n (sdsval t)"
    unfolding c_def by (rule memcmp_eq_0) (simp add: l n_def)
  then show "sdscmp s t = 0 \<longleftrightarrow> sdsval s = sdsval t"
    using l by (auto simp: eq n_def min_def)
qed

lemma lex_less_irrefl [simp]: "\<not> lex_less a a"
  by (induction a) auto

lemma lex_less_trans: "lex_less a b \<Longrightarrow> lex_less b c \<Longrightarrow> lex_less a c"
proof (induction a b arbitrary: c rule: lex_less.induct)
  case (2 b bs)
  then show ?case by (cases c) auto
next
  case (3 a as b bs)
  then show ?case by (cases c) auto
qed simp

lemma lex_less_linear: "lex_less a b \<or> a = b \<or> lex_less b a"
proof (induction a b rule: lex_less.induct)
  case (1 a)
  then show ?case by (cases a) auto
next
  case (3 a as b bs)
  then show ?case by (metis code_inject lex_less.simps(3) linorder_neqE_nat)
qed simp

section \<open>Splitting\<close>

lemma in_range_less: "sep \<noteq> [] \<Longrightarrow> int j < int (length s) - (int (length sep) - 1) \<Longrightarrow> j < length s"
  by (cases sep) simp_all

text \<open>
  The loop of \<open>sdssplitlen\<close>: the tokens that are still to be appended.  (The first disjunct
  only makes the recursion total: an empty separator is refused before the loop.)
\<close>

function split_loop :: "string \<Rightarrow> string \<Rightarrow> nat \<Rightarrow> nat \<Rightarrow> string list" where
  "split_loop s sep start j =
     (if sep = [] \<or> \<not> int j < int (length s) - (int (length sep) - 1) then [drop start s]
      else if length sep = 1 \<and> s ! j = sep ! 0 \<or> memcmp (take (length sep) (drop j s)) sep = 0
      then take (j - start) (drop start s) # split_loop s sep (j + length sep) (j + length sep)
      else split_loop s sep start (j + 1))"
  by pat_completeness auto
termination
  by (relation "measure (\<lambda>(s, sep, start, j). length s - j)")
    (auto dest: in_range_less simp: length_greater_0_conv [symmetric] simp del: length_greater_0_conv)

declare split_loop.simps [simp del]

definition sdssplitlen :: "string \<Rightarrow> string \<Rightarrow> string list option" where
  "sdssplitlen s sep =
     (if length sep < 1 then None else if s = [] then Some [] else Some (split_loop s sep 0 0))"

section \<open>Numbers\<close>

definition sdsfromlonglong :: "int \<Rightarrow> sdshdr" where
  "sdsfromlonglong v =
     (let u = (if v < 0 then unat (word_of_int (- v) :: u64) else nat v);
          p = digits_loop u [];
          q = (if v < 0 then CHR ''-'' # p else p)
      in sdsnewlen (Some q) (length q))"

section \<open>Quoting\<close>

abbreviation BSL :: char where "BSL \<equiv> CHR 0x5C"
abbreviation DQ :: char where "DQ \<equiv> CHR 0x22"
abbreviation SQ :: char where "SQ \<equiv> CHR 0x27"

text \<open>The digits \<open>%x\<close> prints.\<close>

definition hex_digit :: "nat \<Rightarrow> char" where
  "hex_digit n = (if n < 10 then char_of (48 + n) else char_of (87 + n))"

fun catrepr_char :: "sdshdr \<Rightarrow> char \<Rightarrow> sdshdr" where
  "catrepr_char s c =
     (if c = BSL \<or> c = DQ then sdscatprintf s [BSL, c]
      else if c = CHR 0x0A then sdscatlen s [BSL, CHR ''n''] 2
      else if c = CHR 0x0D then sdscatlen s [BSL, CHR ''r''] 2
      else if c = CHR 0x09 then sdscatlen s [BSL, CHR ''t''] 2
      else if c = CHR 0x07 then sdscatlen s [BSL, CHR ''a''] 2
      else if c = CHR 0x08 then sdscatlen s [BSL, CHR ''b''] 2
      else if isprint c then sdscatprintf s [c]
      else sdscatprintf s [BSL, CHR ''x'', hex_digit (code c div 16), hex_digit (code c mod 16)])"

definition sdscatrepr :: "sdshdr \<Rightarrow> string \<Rightarrow> nat \<Rightarrow> sdshdr" where
  "sdscatrepr s p len =
     sdscatlen (foldl catrepr_char (sdscatlen s [DQ] 1) (take len p)) [DQ] 1"

section \<open>Parsing a command line\<close>

definition is_hex_digit :: "char \<Rightarrow> bool" where
  "is_hex_digit c \<longleftrightarrow>
     48 \<le> code c \<and> code c \<le> 57 \<or> 97 \<le> code c \<and> code c \<le> 102 \<or> 65 \<le> code c \<and> code c \<le> 70"

definition hex_digit_to_int :: "char \<Rightarrow> nat" where
  "hex_digit_to_int c =
     (if 48 \<le> code c \<and> code c \<le> 57 then code c - 48
      else if 97 \<le> code c \<and> code c \<le> 102 then code c - 87
      else if 65 \<le> code c \<and> code c \<le> 70 then code c - 55
      else 0)"

definition unescape :: "char \<Rightarrow> char" where
  "unescape c =
     (if c = CHR ''n'' then CHR 0x0A else if c = CHR ''r'' then CHR 0x0D
      else if c = CHR ''t'' then CHR 0x09 else if c = CHR ''b'' then CHR 0x08
      else if c = CHR ''a'' then CHR 0x07 else c)"

text \<open>
  The pointer \<open>p\<close> is what is left of the line before its \<open>NUL\<close>.  A look-ahead \<open>*(p+k)\<close> is
  only made when the characters before it are not \<open>NUL\<close>, so it is a match on the list.  The
  flags \<open>inq\<close> and \<open>insq\<close> are the mode; \<open>current\<close> is the content of the string under
  construction.  The result is the token and the rest of the line; \<open>None\<close> is \<open>goto err\<close>.
\<close>

datatype quote_mode = Unquoted | InQ | InSQ

fun closes :: "string \<Rightarrow> bool" where
  "closes [] = True"
| "closes (c # rest) = isspace c"

fun hex_escape :: "string \<Rightarrow> (char \<times> string) option" where
  "hex_escape (c0 # c1 # c2 # c3 # rest) =
     (if c0 = BSL \<and> c1 = CHR ''x'' \<and> is_hex_digit c2 \<and> is_hex_digit c3
      then Some (char_of (hex_digit_to_int c2 * 16 + hex_digit_to_int c3), rest) else None)"
| "hex_escape _ = None"

lemma hex_escape_length: "hex_escape p = Some (b, rest) \<Longrightarrow> length rest < length p"
  by (cases p rule: hex_escape.cases) (auto split: if_splits)

function get_token :: "quote_mode \<Rightarrow> string \<Rightarrow> string \<Rightarrow> (string \<times> string) option" where
  "get_token InQ p current =
     (case hex_escape p of
        Some (byte, rest) \<Rightarrow> get_token InQ rest (current @ [byte])
      | None \<Rightarrow>
          (case p of
             [] \<Rightarrow> None
           | c # rest \<Rightarrow>
               if c = BSL \<and> rest \<noteq> [] then get_token InQ (tl rest) (current @ [unescape (hd rest)])
               else if c = DQ then (if closes rest then Some (current, rest) else None)
               else get_token InQ rest (current @ [c])))"
| "get_token InSQ p current =
     (case p of
        [] \<Rightarrow> None
      | c # rest \<Rightarrow>
          if c = BSL \<and> rest \<noteq> [] \<and> hd rest = SQ then get_token InSQ (tl rest) (current @ [SQ])
          else if c = SQ then (if closes rest then Some (current, rest) else None)
          else get_token InSQ rest (current @ [c]))"
| "get_token Unquoted p current =
     (case p of
        [] \<Rightarrow> Some (current, [])
      | c # rest \<Rightarrow>
          if c = CHR '' '' \<or> c = CHR 0x0A \<or> c = CHR 0x0D \<or> c = CHR 0x09 then Some (current, rest)
          else if c = DQ then get_token InQ rest current
          else if c = SQ then get_token InSQ rest current
          else get_token Unquoted rest (current @ [c]))"
  by pat_completeness auto
termination
  by (relation "measure (\<lambda>(m, p, cur). length p)") (auto dest: hex_escape_length)

declare get_token.simps [simp del]

lemma inq_hex:
  "hex_escape p = Some (b, rest) \<Longrightarrow> get_token InQ p cur = get_token InQ rest (cur @ [b])"
  by (simp add: get_token.simps(1))

lemma inq_plain:
  "hex_escape p = None \<Longrightarrow> get_token InQ p cur =
     (case p of [] \<Rightarrow> None
      | c # rest \<Rightarrow>
          if c = BSL \<and> rest \<noteq> [] then get_token InQ (tl rest) (cur @ [unescape (hd rest)])
          else if c = DQ then (if closes rest then Some (cur, rest) else None)
          else get_token InQ rest (cur @ [c]))"
  by (simp add: get_token.simps(1))

lemma get_token_shorter:
  "get_token m p cur = Some (t, rest) \<Longrightarrow> length rest \<le> length p \<and> (p \<noteq> [] \<longrightarrow> length rest < length p)"
proof (induction m p cur rule: get_token.induct)
  case (1 p cur)
  show ?case
  proof (cases "hex_escape p")
    case (Some br)
    then obtain b r where br: "hex_escape p = Some (b, r)" by (cases br) auto
    have "length rest \<le> length r" using "1.IH"(3) [OF br refl] "1.prems" inq_hex [OF br] by simp
    then show ?thesis using hex_escape_length [OF br] by simp
  next
    case None
    note eq = "1.prems" [unfolded inq_plain [OF None]]
    show ?thesis
    proof (cases p)
      case Nil
      then show ?thesis using eq by simp
    next
      case (Cons c r)
      consider "c = BSL" "r \<noteq> []" | "\<not> (c = BSL \<and> r \<noteq> [])" "c = DQ" | "\<not> (c = BSL \<and> r \<noteq> [])" "c \<noteq> DQ"
        by blast
      then show ?thesis
      proof cases
        case 1
        then have "length rest \<le> length (tl r)" using "1.IH"(1) [OF None Cons] eq Cons by simp
        then have "length rest \<le> length r" by simp
        then show ?thesis using Cons by simp
      next
        case 2
        then show ?thesis using eq Cons by (simp split: if_splits)
      next
        case 3
        have "get_token InQ r (cur @ [c]) = Some (t, rest)"
          using eq 3 unfolding Cons by (simp only: list.case if_False)
        then have "length rest \<le> length r" using "1.IH"(2) [OF None Cons 3] by simp
        then show ?thesis using Cons by simp
      qed
    qed
  qed
next
  case (2 p cur)
  note eq = "2.prems" [unfolded get_token.simps(2) [of p]]
  show ?case
  proof (cases p)
    case Nil
    then show ?thesis using eq by simp
  next
    case (Cons c r)
    consider "c = BSL" "r \<noteq> []" "hd r = SQ" | "\<not> (c = BSL \<and> r \<noteq> [] \<and> hd r = SQ)" "c = SQ"
      | "\<not> (c = BSL \<and> r \<noteq> [] \<and> hd r = SQ)" "c \<noteq> SQ" by blast
    then show ?thesis
    proof cases
      case 1
      then have "length rest \<le> length (tl r)" using "2.IH"(1) [OF Cons] eq Cons by simp
      then have "length rest \<le> length r" by simp
      then show ?thesis using Cons by simp
    next
      case 2
      then show ?thesis using eq Cons by (simp split: if_splits)
    next
      case 3
      have "get_token InSQ r (cur @ [c]) = Some (t, rest)"
        using eq 3 unfolding Cons by (simp only: list.case if_False)
      then have "length rest \<le> length r" using "2.IH"(2) [OF Cons 3] by simp
      then show ?thesis using Cons by simp
    qed
  qed
next
  case (3 p cur)
  note eq = "3.prems" [unfolded get_token.simps(3) [of p]]
  show ?case
  proof (cases p)
    case Nil
    then show ?thesis using eq by simp
  next
    case (Cons c r)
    consider "c = CHR '' '' \<or> c = CHR 0x0A \<or> c = CHR 0x0D \<or> c = CHR 0x09"
      | "\<not> (c = CHR '' '' \<or> c = CHR 0x0A \<or> c = CHR 0x0D \<or> c = CHR 0x09)" by blast
    then show ?thesis
    proof cases
      case 1
      then show ?thesis using eq Cons by auto
    next
      case 2
      consider "c = DQ" | "c \<noteq> DQ" "c = SQ" | "c \<noteq> DQ" "c \<noteq> SQ" by blast
      then have "length rest \<le> length r"
      proof cases
        case 1
        then show ?thesis using "3.IH"(1) [OF Cons 2] eq 2 Cons by simp
      next
        case q: 2
        then show ?thesis using "3.IH"(2) [OF Cons 2] eq 2 Cons by simp
      next
        case q: 3
        then show ?thesis using "3.IH"(3) [OF Cons 2] eq 2 Cons by simp
      qed
      then show ?thesis using Cons by simp
    qed
  qed
qed

function split_args :: "string \<Rightarrow> string list \<Rightarrow> string list option" where
  "split_args line vector =
     (let p = dropWhile isspace line
      in if p \<noteq> [] then
           (case get_token Unquoted p [] of
              None \<Rightarrow> None
            | Some (current, rest) \<Rightarrow> split_args rest (vector @ [current]))
         else Some vector)"
  by pat_completeness auto
termination
proof (relation "measure (\<lambda>(line, v). length line)", simp, goal_cases)
  case (1 line v p tok cur rest)
  then have "length rest < length p" using get_token_shorter [of Unquoted p "[]" cur rest] by simp
  also have "length p \<le> length line" using 1(1) by (simp add: length_dropWhile_le)
  finally show ?case by simp
qed

declare split_args.simps [simp del]

definition sdssplitargs :: "string \<Rightarrow> string list option" where
  "sdssplitargs line = split_args (cstr line) []"

section \<open>Splitting on a separator\<close>

fun join :: "'a list \<Rightarrow> 'a list list \<Rightarrow> 'a list" where
  "join sep [] = []"
| "join sep [t] = t"
| "join sep (t # u # ts) = t @ sep @ join sep (u # ts)"

lemma join_Cons: "ts \<noteq> [] \<Longrightarrow> join sep (t # ts) = t @ sep @ join sep ts"
  by (cases ts) simp_all

definition occurs :: "string \<Rightarrow> string \<Rightarrow> bool" where
  "occurs sep t \<longleftrightarrow> (\<exists>i. i + length sep \<le> length t \<and> take (length sep) (drop i t) = sep)"

lemma split_loop_ne [simp]: "split_loop s sep start j \<noteq> []"
  by (induction s sep start j rule: split_loop.induct) (subst split_loop.simps, simp)

lemma match_iff:
  assumes "sep \<noteq> []" "j + length sep \<le> length s"
  shows "(length sep = 1 \<and> s ! j = sep ! 0 \<or> memcmp (take (length sep) (drop j s)) sep = 0) \<longleftrightarrow>
         take (length sep) (drop j s) = sep"
proof -
  have "length (take (length sep) (drop j s)) = length sep" using assms(2) by simp
  from memcmp_eq_0 [OF this]
  have 1: "memcmp (take (length sep) (drop j s)) sep = 0 \<longleftrightarrow> take (length sep) (drop j s) = sep" .
  have "take (length sep) (drop j s) = sep" if l: "length sep = 1" "s ! j = sep ! 0"
  proof -
    obtain x where x: "sep = [x]" using l(1) by (metis One_nat_def length_0_conv length_Suc_conv)
    have "j < length s" using assms l by simp
    then have "take 1 (drop j s) = [s ! j]" by (simp add: take_Suc_conv_app_nth hd_drop_conv_nth take_Suc)
    then show ?thesis using l x by simp
  qed
  with 1 show ?thesis by blast
qed

lemma split_loop_props:
  assumes "sep \<noteq> []" "start \<le> j" "j \<le> length s"
    and "\<forall>i. start \<le> i \<and> i < j \<and> i + length sep \<le> length s \<longrightarrow> take (length sep) (drop i s) \<noteq> sep"
  shows "join sep (split_loop s sep start j) = drop start s \<and>
         (\<forall>t\<in>set (split_loop s sep start j). \<not> occurs sep t)"
  using assms
proof (induction s sep start j rule: split_loop.induct)
  case (1 s sep start j)
  have l1: "1 \<le> length sep" using "1.prems"(1) by (cases sep) simp_all
  have guard: "(sep = [] \<or> \<not> int j < int (length s) - (int (length sep) - 1)) \<longleftrightarrow> \<not> j + length sep \<le> length s"
    using "1.prems"(1) l1 by linarith
  show ?case
  proof (cases "j + length sep \<le> length s")
    case False
    then have eq: "split_loop s sep start j = [drop start s]"
      using guard by (subst split_loop.simps) simp
    have "\<not> occurs sep (drop start s)"
    proof
      assume "occurs sep (drop start s)"
      then obtain i where i: "i + length sep \<le> length (drop start s)" "take (length sep) (drop i (drop start s)) = sep"
        by (auto simp: occurs_def)
      have "start + i < j" using i(1) False l1 by simp
      moreover have "start + i + length sep \<le> length s" using i(1) l1 by simp
      ultimately show False using "1.prems"(4) i(2) by (auto simp: add.commute)
    qed
    then show ?thesis by (simp add: eq)
  next
    case True
    then have g: "\<not> (sep = [] \<or> \<not> int j < int (length s) - (int (length sep) - 1))" using guard by simp
    show ?thesis
    proof (cases "take (length sep) (drop j s) = sep")
      case m: True
      then have c: "length sep = 1 \<and> s ! j = sep ! 0 \<or> memcmp (take (length sep) (drop j s)) sep = 0"
        using match_iff [OF "1.prems"(1) True] by simp
      have eq: "split_loop s sep start j = take (j - start) (drop start s) # split_loop s sep (j + length sep) (j + length sep)"
        using g c by (subst split_loop.simps) (simp only: if_False if_True)
      have IH: "join sep (split_loop s sep (j + length sep) (j + length sep)) = drop (j + length sep) s"
        "\<forall>t\<in>set (split_loop s sep (j + length sep) (j + length sep)). \<not> occurs sep t"
      proof -
        have "\<forall>i. j + length sep \<le> i \<and> i < j + length sep \<and> i + length sep \<le> length s \<longrightarrow>
            take (length sep) (drop i s) \<noteq> sep" by auto
        from "1.IH"(1) [OF g c "1.prems"(1) order_refl True this]
        show "join sep (split_loop s sep (j + length sep) (j + length sep)) = drop (j + length sep) s"
          "\<forall>t\<in>set (split_loop s sep (j + length sep) (j + length sep)). \<not> occurs sep t" by blast+
      qed
      have "take (j - start) (drop start s) @ sep @ drop (j + length sep) s = drop start s"
      proof -
        have "drop j s = sep @ drop (j + length sep) s"
          using m append_take_drop_id [of "length sep" "drop j s"] by (simp add: add.commute)
        moreover have "drop start s = take (j - start) (drop start s) @ drop j s"
          using "1.prems"(2) append_take_drop_id [of "j - start" "drop start s"] by simp
        ultimately show ?thesis by simp
      qed
      moreover have "\<not> occurs sep (take (j - start) (drop start s))"
      proof
        assume "occurs sep (take (j - start) (drop start s))"
        then obtain i where i: "i + length sep \<le> j - start"
          "take (length sep) (drop i (take (j - start) (drop start s))) = sep"
          using "1.prems"(2,3) by (auto simp: occurs_def)
        have "take (length sep) (drop i (take (j - start) (drop start s))) = take (length sep) (drop (start + i) s)"
          using i(1) by (simp add: drop_take min_absorb1 add.commute)
        moreover have "start + i < j" using i(1) l1 by linarith
        moreover have "start + i + length sep \<le> length s" using i(1) True "1.prems"(2) by linarith
        moreover have "start \<le> start + i" by simp
        ultimately show False using "1.prems"(4) i(2) by metis
      qed
      ultimately show ?thesis using IH by (simp add: eq join_Cons)
    next
      case m: False
      then have c: "\<not> (length sep = 1 \<and> s ! j = sep ! 0 \<or> memcmp (take (length sep) (drop j s)) sep = 0)"
        using match_iff [OF "1.prems"(1) True] by simp
      have eq: "split_loop s sep start j = split_loop s sep start (j + 1)"
        using g c by (subst split_loop.simps) (simp only: if_False)
      have "\<forall>i. start \<le> i \<and> i < j + 1 \<and> i + length sep \<le> length s \<longrightarrow> take (length sep) (drop i s) \<noteq> sep"
        using "1.prems"(4) m by (metis Suc_eq_plus1 less_Suc_eq)
      then show ?thesis
        using "1.IH"(2) [OF g c "1.prems"(1)] "1.prems"(2) True l1 unfolding eq by simp
    qed
  qed
qed

section \<open>Quoting and parsing are inverse\<close>

definition repr_char :: "char \<Rightarrow> string" where
  "repr_char c =
     (if c = BSL \<or> c = DQ then [BSL, c]
      else if c = CHR 0x0A then [BSL, CHR ''n'']
      else if c = CHR 0x0D then [BSL, CHR ''r'']
      else if c = CHR 0x09 then [BSL, CHR ''t'']
      else if c = CHR 0x07 then [BSL, CHR ''a'']
      else if c = CHR 0x08 then [BSL, CHR ''b'']
      else if isprint c then [c]
      else [BSL, CHR ''x'', hex_digit (code c div 16), hex_digit (code c mod 16)])"

definition repr :: "string \<Rightarrow> string" where
  "repr v = DQ # concat (map repr_char v) @ [DQ]"

lemma hex_digit_props:
  assumes "n < 16"
  shows "is_hex_digit (hex_digit n)" "hex_digit_to_int (hex_digit n) = n" "hex_digit n \<noteq> NUL"
proof -
  have c: "code (hex_digit n) = (if n < 10 then 48 + n else 87 + n)"
    using assms by (auto simp: hex_digit_def)
  then show "is_hex_digit (hex_digit n)" "hex_digit_to_int (hex_digit n) = n"
    using assms by (auto simp: is_hex_digit_def hex_digit_to_int_def)
  have "code (hex_digit n) \<noteq> 0" using c by simp
  then show "hex_digit n \<noteq> NUL" by (metis code_eq_0)
qed

lemma hex_escape_no: "c \<noteq> BSL \<Longrightarrow> hex_escape (c # p) = None"
  by (cases "c # p" rule: hex_escape.cases) auto

lemma hex_escape_no2: "d \<noteq> CHR ''x'' \<Longrightarrow> hex_escape (c # d # p) = None"
  by (cases "c # d # p" rule: hex_escape.cases) auto

lemma inq_escaped:
  "d \<noteq> CHR ''x'' \<Longrightarrow> get_token InQ (BSL # d # rest) cur = get_token InQ rest (cur @ [unescape d])"
  by (simp add: inq_plain [OF hex_escape_no2])

lemma inq_char:
  "c \<noteq> BSL \<Longrightarrow> c \<noteq> DQ \<Longrightarrow> get_token InQ (c # rest) cur = get_token InQ rest (cur @ [c])"
  by (simp add: inq_plain [OF hex_escape_no])

lemma inq_repr_char: "get_token InQ (repr_char c @ rest) cur = get_token InQ rest (cur @ [c])"
proof -
  let ?special = "{BSL, DQ, CHR 0x0A, CHR 0x0D, CHR 0x09, CHR 0x07, CHR 0x08}"
  consider "c \<in> ?special" | "c \<notin> ?special" "isprint c" | "c \<notin> ?special" "\<not> isprint c" by blast
  then show ?thesis
  proof cases
    case 1
    then show ?thesis by (auto simp: repr_char_def inq_escaped unescape_def)
  next
    case 2
    then show ?thesis by (simp add: repr_char_def inq_char)
  next
    case 3
    have n: "code c div 16 < 16" "code c mod 16 < 16" using code_bound [of c] by auto
    have "char_of (code c div 16 * 16 + code c mod 16) = c" by simp
    then have "hex_escape (repr_char c @ rest) = Some (c, rest)"
      using 3 n by (simp add: repr_char_def hex_digit_props)
    then show ?thesis by (rule inq_hex)
  qed
qed

lemma inq_repr:
  "get_token InQ (concat (map repr_char v) @ DQ # rest) cur =
     (if closes rest then Some (cur @ v, rest) else None)"
proof (induction v arbitrary: cur)
  case Nil
  then show ?case by (simp add: inq_plain [OF hex_escape_no])
next
  case (Cons c v)
  then show ?case by (simp add: inq_repr_char)
qed

lemma unquoted_repr:
  "closes rest \<Longrightarrow> get_token Unquoted (repr v @ rest) [] = Some (v, rest)"
  by (simp add: repr_def get_token.simps(3) inq_repr)

lemma not_space_DQ: "\<not> isspace DQ"
  by (simp add: isspace_def code_def)

lemma split_args_space: "isspace c \<Longrightarrow> split_args (c # line) vec = split_args line vec"
  by (subst (1 2) split_args.simps) simp

lemma split_args_repr:
  "closes rest \<Longrightarrow> split_args (repr v @ rest) vec = split_args rest (vec @ [v])"
proof -
  assume "closes rest"
  from unquoted_repr [OF this] have t: "get_token Unquoted (repr v @ rest) [] = Some (v, rest)" .
  have "dropWhile isspace (repr v @ rest) = repr v @ rest" "repr v @ rest \<noteq> []"
    by (simp_all add: repr_def not_space_DQ)
  with t show ?thesis by (subst split_args.simps) simp
qed

lemma split_args_join: "split_args (join '' '' (map repr vs)) vec = Some (vec @ vs)"
proof (induction vs arbitrary: vec)
  case Nil
  then show ?case by (simp add: split_args.simps)
next
  case (Cons v vs)
  show ?case
  proof (cases "vs = []")
    case True
    then show ?thesis using split_args_repr [of "[]" v vec] by (simp add: split_args.simps [of "[]"])
  next
    case False
    have sp: "isspace (CHR '' '')" by (simp add: isspace_def code_def)
    have "split_args (join '' '' (map repr (v # vs))) vec = split_args (CHR '' '' # join '' '' (map repr vs)) (vec @ [v])"
      using False split_args_repr [of "CHR '' '' # join '' '' (map repr vs)" v vec] sp by (simp add: join_Cons)
    then show ?thesis using Cons by (simp add: split_args_space [OF sp])
  qed
qed

lemma repr_no_NUL: "NUL \<notin> set (repr v)"
proof -
  have "NUL \<notin> set (repr_char c)" for c
  proof (cases "c = NUL")
    case True
    then show ?thesis by (simp add: repr_char_def isprint_def code_def hex_digit_def)
  next
    case False
    have "code c div 16 < 16" "code c mod 16 < 16" using code_bound [of c] by auto
    then show ?thesis using False hex_digit_props(3) [THEN not_sym] by (auto simp: repr_char_def)
  qed
  then show ?thesis by (auto simp: repr_def)
qed

lemma cstr_id: "NUL \<notin> set s \<Longrightarrow> cstr s = s"
  unfolding cstr_def by (rule takeWhile_eq_all_conv [THEN iffD2]) auto

lemma sdssplitargs_repr: "sdssplitargs (join '' '' (map repr vs)) = Some vs"
proof -
  have "NUL \<notin> set (join '' '' (map repr vs))"
  proof (induction vs)
    case (Cons v vs)
    then show ?case using repr_no_NUL [of v] by (cases vs) auto
  qed simp
  then show ?thesis using split_args_join [of vs "[]"] by (simp add: sdssplitargs_def cstr_id)
qed

lemma printf_buf_short: "length out \<le> 14 \<Longrightarrow> NUL \<notin> set out \<Longrightarrow> printf_buf out 16 = out"
  by (subst printf_buf.simps) (simp add: cstr_id)

lemma sdscatprintf_props:
  assumes "sds_wf s" "sds_room (length out) s" "length out \<le> 14" "NUL \<notin> set out"
  shows "sds_wf (sdscatprintf s out)" "sdsval (sdscatprintf s out) = sdsval s @ out"
  using sdscat_props [of s out] assms by (simp_all add: sdscatprintf_def printf_buf_short cstr_id)

lemma length_repr_char: "length (repr_char c) \<le> 4"
  by (simp add: repr_char_def)

lemma catrepr_char_props:
  assumes "sds_wf s" "sds_room 4 s"
  shows "sds_wf (catrepr_char s c)" "sdsval (catrepr_char s c) = sdsval s @ repr_char c"
proof -
  have r: "k \<le> 4 \<Longrightarrow> sds_room k s" for k using assms(2) by (simp add: sds_room_def)
  have n: "NUL \<notin> set (repr_char c)" using repr_no_NUL [of "[c]"] by (simp add: repr_def)
  let ?ok = "\<lambda>s'. sds_wf s' \<and> sdsval s' = sdsval s @ repr_char c"
  have p: "?ok (sdscatprintf s (repr_char c))"
    using sdscatprintf_props [OF assms(1) r _ n] length_repr_char [of c] by simp
  have l: "?ok (sdscatlen s (repr_char c) 2)" if "length (repr_char c) = 2"
    using sdscatlen_props [OF assms(1) r, of 2 "repr_char c"] that by simp
  have "?ok (catrepr_char s c)"
    using p l by (auto simp: repr_char_def split: if_splits)
  then show "sds_wf (catrepr_char s c)" "sdsval (catrepr_char s c) = sdsval s @ repr_char c" by simp_all
qed

lemma sdscatrepr_props:
  assumes "sds_wf s" "sds_room (4 * n + 2) s" "n \<le> length p"
  shows "sds_wf (sdscatrepr s p n) \<and> sdsval (sdscatrepr s p n) = sdsval s @ repr (take n p)"
proof -
  have loop: "sds_wf (foldl catrepr_char s v) \<and>
      sdsval (foldl catrepr_char s v) = sdsval s @ concat (map repr_char v)"
    if "sds_wf s" "sds_room (4 * length v) s" for s v
    using that
  proof (induction v arbitrary: s)
    case (Cons c v)
    have "sds_room 4 s" using Cons.prems(2) by (simp add: sds_room_def)
    note c = catrepr_char_props [OF Cons.prems(1) this, of c]
    have "sdslen (catrepr_char s c) \<le> sdslen s + 4"
      using c length_sdsval [OF c(1)] length_sdsval [OF Cons.prems(1)] length_repr_char [of c] by simp
    then have "sds_room (4 * length v) (catrepr_char s c)" using Cons.prems(2) by (simp add: sds_room_def)
    from Cons.IH [OF c(1) this] c(2) show ?case by simp
  qed simp
  have q: "sds_room 1 s" using assms(2) by (simp add: sds_room_def)
  note s1 = sdscatlen_props [OF assms(1) q, of "[DQ]"]
  define s1 where "s1 = sdscatlen s [DQ] 1"
  have s1: "sds_wf s1" "sdsval s1 = sdsval s @ [DQ]" using s1 by (simp_all add: s1_def)
  have l1: "sdslen s1 = sdslen s + 1"
    using s1 length_sdsval [OF s1(1)] length_sdsval [OF assms(1)] by simp
  have "sds_room (4 * length (take n p)) s1" using assms(2,3) l1 by (simp add: sds_room_def)
  note s2 = loop [OF s1(1) this]
  define s2 where "s2 = foldl catrepr_char s1 (take n p)"
  have s2: "sds_wf s2" "sdsval s2 = sdsval s @ DQ # concat (map repr_char (take n p))"
    using s2 s1 by (simp_all add: s2_def)
  have "length (concat (map repr_char v)) \<le> 4 * length v" for v
    using length_repr_char by (induction v) (auto intro: add_mono)
  from this [of "take n p"] have "sds_room 1 s2"
    using length_sdsval [OF s2(1)] length_sdsval [OF assms(1)] s2(2) assms(2,3) by (simp add: sds_room_def)
  from sdscatlen_props [OF s2(1) this, of "[DQ]"] s2(2) show ?thesis
    unfolding sdscatrepr_def s1_def [symmetric] s2_def [symmetric] repr_def by simp
qed

section \<open>Properties\<close>

text \<open>
  Appending.  Whatever its spare room, a string keeps its header, terminator and buffer
  consistent when bytes are appended; the content is the concatenation, embedded \<open>NUL\<close> bytes
  included, and the room that is made doubles the string up to the preallocation limit.
\<close>

theorem sdscatlen_functional:
  assumes "sds_wf s" and "sdslen s + n < 2 ^ 30" and "n \<le> length t"
  shows "sds_wf (sdscatlen s t n) \<and> sdsval (sdscatlen s t n) = sdsval s @ take n t \<and>
         n \<le> sdsavail (sdsMakeRoomFor s n) \<and> sdsval (sdsMakeRoomFor s n) = sdsval s \<and>
         sdsavail (sdscatlen s t n) =
           (if n \<le> sdsavail s then sdsavail s - n
            else min (sdslen s + n) SDS_MAX_PREALLOC)"
proof -
  have r: "sds_room n s" using assms(2) by (simp add: sds_room_def)
  note m = sdsMakeRoomFor_props [OF assms(1) r] and c = sdscatlen_props [OF assms(1) r assms(3)]
  have "sdsavail (sdscatlen s t n) = sdsavail (sdsMakeRoomFor s n) - n"
    using m(4) sds_wfD(2) [OF m(1)] by (simp add: sdscatlen_def Let_def sdsavail_def [of "sdshdr.sd_free_update _ _"]
        sdsavail_def nat_diff_distrib')
  moreover have "sdsavail (sdsMakeRoomFor s n) - n =
      (if n \<le> sdsavail s then sdsavail s - n else min (sdslen s + n) SDS_MAX_PREALLOC)"
  proof (cases "n \<le> sdsavail s")
    case True
    then show ?thesis by (simp add: sdsMakeRoomFor_def)
  next
    case False
    then show ?thesis
      using assms(2) by (auto simp: sdsMakeRoomFor_def Let_def sdsavail_def SDS_MAX_PREALLOC_def)
  qed
  ultimately show ?thesis using m c by simp
qed

theorem sdscatlen_functional_witness:
  "sdsval (sdscatlen (sdsnewlen (Some ''foo'') 3) ''bar!'' 3) = ''foobar'' \<and>
   sdsavail (sdscatlen (sdsnewlen (Some ''foo'') 3) ''bar!'' 3) = 6"
  using sdscatlen_functional [of "sdsnewlen (Some ''foo'') 3" 3 "''bar!''"]
    sdsnewlen_props(1) [of 3 "''foo''"]
  by (simp add: sdslen_def sdsavail_def sdsnewlen_def SDS_MAX_PREALLOC_def)

text \<open>C39.
  Every operation that changes a string in place keeps the invariant: clearing, shrinking the
  buffer, copying over, growing with zeros, moving the end after a direct write, trimming,
  taking a range, folding case and mapping characters.
\<close>

theorem sds_ops_wf:
  assumes "sds_wf s"
  shows "sds_wf (sdsclear s) \<and> sds_wf (sdsRemoveFreeSpace s) \<and>
         (n < 2 ^ 30 \<longrightarrow> sds_wf (sdsgrowzero s n) \<and> (n \<le> length t \<longrightarrow> sds_wf (sdscpylen s t n))) \<and>
         (0 \<le> sd_len s + incr \<and> incr \<le> sd_free s \<longrightarrow> (\<exists>s'. sdsIncrLen s incr = Some s' \<and> sds_wf s')) \<and>
         sds_wf (sdstrim s cset) \<and> sds_wf (sdsrange s a b) \<and>
         sds_wf (sdstolower s) \<and> sds_wf (sdstoupper s) \<and> sds_wf (sdsmapchars s from to k)"
  using sdsclear_props [OF assms] sdsRemoveFreeSpace_props [OF assms] sdsgrowzero_props [OF assms]
    sdscpylen_props [OF assms] sdsIncrLen_props [OF assms, of incr] sdstrim_props [OF assms]
    sdsrange_props [OF assms] map_prefix_props [OF assms]
  by (auto simp: sdstolower_def sdstoupper_def sdsmapchars_def)

theorem sds_ops_wf_witness:
  "sds_wf (sdstrim (sdsnewlen (Some ''xxciaoyyy'') 9) ''xy'')"
  using sds_ops_wf [of "sdsnewlen (Some ''xxciaoyyy'') 9" 0 "[]" 0 "''xy''" 0 0 "[]" "[]" 0]
    sdsnewlen_props(1) [of 9 "''xxciaoyyy''"] by simp

text \<open>
  \<open>sdsrange\<close>: the content between two inclusive indices, of which the negative ones count from
  the end and are cut off at the first character; indices past the end are cut off as well.
\<close>

theorem sdsrange_functional:
  assumes "sds_wf s"
  shows "sdsval (sdsrange s start end) =
           (let a = clamp_index (sdslen s) start; b = clamp_index (sdslen s) end
            in take (Suc b - a) (drop a (sdsval s)))"
  using sdsrange_props(2) [OF assms, of start "end"] length_sdsval [OF assms]
  by (simp add: range_spec_def)

theorem sdsrange_functional_witness:
  "sdsval (sdsrange (sdsnewlen (Some ''ciao'') 4) 1 (-1)) = ''iao''"
  using sdsrange_functional [of "sdsnewlen (Some ''ciao'') 4" 1 "-1"] sdsnewlen_props(1) [of 4 "''ciao''"]
  by (simp add: sdslen_def sdsnewlen_def clamp_index_def Let_def)

text \<open>
  \<open>sdstrim\<close> removes exactly the longest prefix and the longest suffix of characters of the set;
  because \<open>strchr\<close> finds the terminator of the set too, \<open>NUL\<close> bytes at both ends are removed
  as well, although the set does not contain them.
\<close>

theorem sdstrim_functional:
  assumes "sds_wf s"
  shows "\<exists>a c. sdsval s = a @ sdsval (sdstrim s cset) @ c \<and>
           set a \<subseteq> insert NUL (set cset) \<and> set c \<subseteq> insert NUL (set cset) \<and>
           (sdsval (sdstrim s cset) \<noteq> [] \<longrightarrow>
              hd (sdsval (sdstrim s cset)) \<notin> insert NUL (set cset) \<and>
              last (sdsval (sdstrim s cset)) \<notin> insert NUL (set cset))"
proof -
  let ?v = "sdsval s" and ?P = "in_cset cset"
  have P: "?P c \<longleftrightarrow> c \<in> insert NUL (set cset)" for c by (simp add: in_cset_def)
  define u where "u = dropWhile ?P ?v"
  have "?v = takeWhile ?P ?v @ u" by (simp add: u_def)
  moreover have "u = rev (dropWhile ?P (rev u)) @ rev (takeWhile ?P (rev u))"
    by (metis rev_append rev_rev_ident takeWhile_dropWhile_id)
  ultimately have "?v = takeWhile ?P ?v @ trim_spec cset ?v @ rev (takeWhile ?P (rev u))"
    by (simp add: trim_spec_def u_def)
  moreover have "set (takeWhile ?P ?v) \<subseteq> insert NUL (set cset)"
    "set (rev (takeWhile ?P (rev u))) \<subseteq> insert NUL (set cset)"
    using P by (auto dest: set_takeWhileD)
  moreover have "hd (trim_spec cset ?v) \<notin> insert NUL (set cset) \<and> last (trim_spec cset ?v) \<notin> insert NUL (set cset)"
    if ne: "trim_spec cset ?v \<noteq> []"
  proof -
    let ?d = "dropWhile ?P (rev u)"
    have d: "?d \<noteq> []" using ne by (simp add: trim_spec_def u_def)
    then have "\<not> ?P (hd ?d)" by (rule hd_dropWhile)
    moreover have "hd ?d = last (trim_spec cset ?v)" using d by (simp add: trim_spec_def u_def last_rev)
    moreover have "\<not> ?P (hd (trim_spec cset ?v))"
    proof -
      have "u = trim_spec cset ?v @ rev (takeWhile ?P (rev u))"
        using \<open>u = rev (dropWhile ?P (rev u)) @ rev (takeWhile ?P (rev u))\<close> by (simp add: trim_spec_def u_def)
      then have "hd u = hd (trim_spec cset ?v)" "u \<noteq> []" using ne by (metis hd_append2, metis append_is_Nil_conv)
      moreover have "\<not> ?P (hd u)" using \<open>u \<noteq> []\<close> unfolding u_def by (rule hd_dropWhile)
      ultimately show ?thesis by simp
    qed
    ultimately show ?thesis using P by simp
  qed
  ultimately show ?thesis unfolding sdstrim_props(2) [OF assms] by blast
qed

theorem sdstrim_functional_witness:
  "\<exists>a c. ''xyk'' = a @ sdsval (sdstrim (sdsnewlen (Some ''xyk'') 3) ''x'') @ c"
  using sdstrim_functional [of "sdsnewlen (Some ''xyk'') 3" "''x''"] sdsnewlen_props(1) [of 3 "''xyk''"] by auto

text \<open>
  \<open>sdscmp\<close> decides a total order on contents, the lexicographic order of the bytes as unsigned
  numbers; 0 is returned for equal contents only.
\<close>

theorem sdscmp_order:
  assumes "sds_wf s" and "sds_wf t" and "sds_wf u"
  shows "(sdscmp s t = 0 \<longleftrightarrow> sdsval s = sdsval t) \<and> (sdscmp s t < 0 \<longleftrightarrow> lex_less (sdsval s) (sdsval t)) \<and>
         (sdscmp s t < 0 \<longleftrightarrow> 0 < sdscmp t s) \<and>
         (sdscmp s t < 0 \<and> sdscmp t u < 0 \<longrightarrow> sdscmp s u < 0)"
proof -
  note st = sdscmp_props [OF assms(1,2)] and ts = sdscmp_props [OF assms(2,1)]
    and tu = sdscmp_props [OF assms(2,3)] and su = sdscmp_props [OF assms(1,3)]
  have "sdscmp s t < 0 \<longleftrightarrow> 0 < sdscmp t s"
  proof
    assume "sdscmp s t < 0"
    then have l: "lex_less (sdsval s) (sdsval t)" using st by simp
    then have "sdsval s \<noteq> sdsval t" "\<not> lex_less (sdsval t) (sdsval s)" using lex_less_trans by fastforce+
    then show "0 < sdscmp t s" using ts by (metis linorder_neqE_linordered_idom)
  next
    assume "0 < sdscmp t s"
    then have "\<not> lex_less (sdsval t) (sdsval s)" "sdsval t \<noteq> sdsval s" using ts by auto
    then show "sdscmp s t < 0" using st lex_less_linear by metis
  qed
  then show ?thesis using st tu su lex_less_trans by blast
qed

theorem sdscmp_order_witness:
  "sdscmp (sdsnewlen (Some ''foo'') 3) (sdsnewlen (Some ''foo'') 3) = 0 \<and>
   0 < sdscmp (sdsnewlen (Some ''fop'') 3) (sdsnewlen (Some ''foo'') 3)"
  using sdscmp_order [of "sdsnewlen (Some ''foo'') 3" "sdsnewlen (Some ''foo'') 3" "sdsnewlen (Some ''foo'') 3"]
    sdscmp_order [of "sdsnewlen (Some ''foo'') 3" "sdsnewlen (Some ''fop'') 3" "sdsnewlen (Some ''fop'') 3"]
    sdsnewlen_props(1) [of 3 "''foo''"] sdsnewlen_props(1) [of 3 "''fop''"]
  by (simp add: code_def) argo

text \<open>
  \<open>sdssplitlen\<close> loses nothing: joining the tokens with the separator gives the string back, and
  no token contains the separator.
\<close>

theorem sdssplitlen_join:
  assumes "sep \<noteq> []" and "s \<noteq> []"
  shows "\<exists>ts. sdssplitlen s sep = Some ts \<and> join sep ts = s \<and> (\<forall>t\<in>set ts. \<not> occurs sep t)"
  using split_loop_props [of sep 0 0 s] assms by (cases sep) (simp_all add: sdssplitlen_def)

theorem sdssplitlen_join_witness:
  "\<exists>ts. sdssplitlen ''foo_-_bar'' ''_-_'' = Some ts \<and> join ''_-_'' ts = ''foo_-_bar''"
  using sdssplitlen_join [of "''_-_''" "''foo_-_bar''"] by auto

text \<open>C32.
  \<open>sdscatrepr\<close> and \<open>sdssplitargs\<close> are inverse: whatever bytes the arguments hold, parsing the
  line that quotes them, separated by blanks, gives the arguments back.
\<close>

theorem splitargs_catrepr:
  assumes "\<forall>v\<in>set vs. length v < 2 ^ 27"
  shows "sdssplitargs (join '' '' (map (\<lambda>v. sdsval (sdscatrepr sdsempty v (length v))) vs)) = Some vs"
proof -
  have e: "sds_wf sdsempty" "sdsval sdsempty = []" "sdslen sdsempty = 0"
    using sdsnewlen_props(1) [of 0 "[]"] by (simp_all add: sdsempty_def) (simp add: sdslen_def sdsnewlen_def)
  have "sdsval (sdscatrepr sdsempty v (length v)) = repr v" if "v \<in> set vs" for v
  proof -
    have "length v < 2 ^ 27" using assms that by blast
    then have "sds_room (4 * length v + 2) sdsempty" using e(3) by (simp add: sds_room_def)
    from sdscatrepr_props [OF e(1) this] e(2) show ?thesis by simp
  qed
  then have eq: "map (\<lambda>v. sdsval (sdscatrepr sdsempty v (length v))) vs = map repr vs" by simp
  show ?thesis unfolding eq by (rule sdssplitargs_repr)
qed

theorem splitargs_catrepr_witness:
  "sdssplitargs (join '' '' (map (\<lambda>v. sdsval (sdscatrepr sdsempty v (length v)))
     [''SET'', [NUL, DQ, BSL], []])) = Some [''SET'', [NUL, DQ, BSL], []]"
  using splitargs_catrepr [of "[''SET'', [NUL, DQ, BSL], []]"] by simp

text \<open>
  \<open>sdsfromlonglong\<close> prints every \<open>long long\<close>, the smallest one included, so that
  \<open>string2ll\<close> reads it back.
\<close>

theorem sdsfromlonglong_roundtrip:
  assumes "LLONG_MIN \<le> v" and "v \<le> LLONG_MAX"
  shows "string2ll (sdsval (sdsfromlonglong v)) = Some v"
proof -
  have u: "v < 0 \<Longrightarrow> unat (word_of_int (- v) :: u64) = nat (- v)"
  proof -
    assume "v < 0"
    then have "(- v) mod 2 ^ 64 = - v" using assms by (intro mod_pos_pos_trivial) simp_all
    then have "uint (word_of_int (- v) :: u64) = - v" by (simp only: uint_word_of_int len_of_numeral_defs) simp
    then show ?thesis by (simp only: unat_eq_nat_uint)
  qed
  have q: "(if v < 0 then CHR ''-'' # digits_loop (if v < 0 then unat (word_of_int (- v) :: u64) else nat v) []
            else digits_loop (if v < 0 then unat (word_of_int (- v) :: u64) else nat v) []) = dec_int v"
    using u by (simp add: dec_int_def digits_loop_eq)
  have "sdsval (sdsfromlonglong v) = dec_int v"
    unfolding sdsfromlonglong_def Let_def q
    using sdsnewlen_props(1) [of "length (dec_int v)" "dec_int v"] length_dec_int [OF assms] by simp
  then show ?thesis using string2ll_dec [OF assms] by simp
qed

theorem sdsfromlonglong_roundtrip_witness:
  "string2ll (sdsval (sdsfromlonglong LLONG_MIN)) = Some LLONG_MIN"
  by (rule sdsfromlonglong_roundtrip) simp_all

end
