(* ===== verification/Adlist.thy ===== *)
theory Adlist
  imports Prelude "HOL-Library.Monad_Syntax"
begin

text \<open>
  \<open>adlist.c\<close>: doubly linked lists.  Nodes live in an explicit heap, every dereference of a
  pointer that is \<open>NULL\<close> or does not point to a node gives \<open>None\<close>, and \<open>dll\<close> says that a list
  header and a heap represent a sequence of nodes.  The operations are proved to stay in the
  heap and to act on the sequence of values as list functions do.
\<close>

section \<open>Data\<close>

type_synonym addr = nat

record 'v listNode =
  ln_prev :: "addr option"
  ln_next :: "addr option"
  ln_value :: 'v

type_synonym 'v heap = "addr \<Rightarrow> 'v listNode option"

text \<open>The methods \<open>dup\<close> (which may fail), \<open>free\<close> (only whether it is set) and \<open>match\<close>.\<close>

record 'v alist =
  l_head :: "addr option"
  l_tail :: "addr option"
  l_len :: nat
  l_dup :: "('v \<Rightarrow> 'v option) option"
  l_free :: bool
  l_match :: "('v \<Rightarrow> 'v \<Rightarrow> bool) option"

record listIter =
  li_next :: "addr option"
  li_head :: bool

definition listCreate :: "'v alist" where
  "listCreate = \<lparr>l_head = None, l_tail = None, l_len = 0, l_dup = None, l_free = False, l_match = None\<rparr>"

text \<open>Reading and updating through a pointer.\<close>

definition node_at :: "'v heap \<Rightarrow> addr option \<Rightarrow> 'v listNode option" where
  "node_at h p = Option.bind p h"

definition upd_node ::
    "'v heap \<Rightarrow> addr option \<Rightarrow> ('v listNode \<Rightarrow> 'v listNode) \<Rightarrow> 'v heap option" where
  "upd_node h p f = do { a \<leftarrow> p; n \<leftarrow> h a; Some (h(a \<mapsto> f n)) }"

section \<open>Operations\<close>

text \<open>\<open>new\<close> is the address \<open>zmalloc\<close> returns: one that is not in use.\<close>

definition listAddNodeHead ::
    "'v heap \<Rightarrow> 'v alist \<Rightarrow> addr \<Rightarrow> 'v \<Rightarrow> ('v heap \<times> 'v alist) option" where
  "listAddNodeHead h l new v =
     (if l_len l = 0 then
        Some (h(new \<mapsto> \<lparr>ln_prev = None, ln_next = None, ln_value = v\<rparr>),
              l\<lparr>l_head := Some new, l_tail := Some new, l_len := l_len l + 1\<rparr>)
      else do {
        let h1 = h(new \<mapsto> \<lparr>ln_prev = None, ln_next = l_head l, ln_value = v\<rparr>);
        h2 \<leftarrow> upd_node h1 (l_head l) (ln_prev_update (\<lambda>_. Some new));
        Some (h2, l\<lparr>l_head := Some new, l_len := l_len l + 1\<rparr>)
      })"

definition listAddNodeTail ::
    "'v heap \<Rightarrow> 'v alist \<Rightarrow> addr \<Rightarrow> 'v \<Rightarrow> ('v heap \<times> 'v alist) option" where
  "listAddNodeTail h l new v =
     (if l_len l = 0 then
        Some (h(new \<mapsto> \<lparr>ln_prev = None, ln_next = None, ln_value = v\<rparr>),
              l\<lparr>l_head := Some new, l_tail := Some new, l_len := l_len l + 1\<rparr>)
      else do {
        let h1 = h(new \<mapsto> \<lparr>ln_prev = l_tail l, ln_next = None, ln_value = v\<rparr>);
        h2 \<leftarrow> upd_node h1 (l_tail l) (ln_next_update (\<lambda>_. Some new));
        Some (h2, l\<lparr>l_tail := Some new, l_len := l_len l + 1\<rparr>)
      })"

definition listInsertNode ::
    "'v heap \<Rightarrow> 'v alist \<Rightarrow> addr option \<Rightarrow> addr \<Rightarrow> 'v \<Rightarrow> bool \<Rightarrow> ('v heap \<times> 'v alist) option" where
  "listInsertNode h l old new v after = do {
     o_node \<leftarrow> node_at h old;
     let node = (if after then \<lparr>ln_prev = old, ln_next = ln_next o_node, ln_value = v\<rparr>
                 else \<lparr>ln_prev = ln_prev o_node, ln_next = old, ln_value = v\<rparr>);
     let l1 = (if after then (if l_tail l = old then l\<lparr>l_tail := Some new\<rparr> else l)
               else (if l_head l = old then l\<lparr>l_head := Some new\<rparr> else l));
     let h1 = h(new \<mapsto> node);
     h2 \<leftarrow> (if ln_prev node \<noteq> None then upd_node h1 (ln_prev node) (ln_next_update (\<lambda>_. Some new))
            else Some h1);
     h3 \<leftarrow> (if ln_next node \<noteq> None then upd_node h2 (ln_next node) (ln_prev_update (\<lambda>_. Some new))
            else Some h2);
     Some (h3, l1\<lparr>l_len := l_len l1 + 1\<rparr>)
   }"

text \<open>The third component of the result lists the values given to \<open>free\<close>.\<close>

definition listDelNode ::
    "'v heap \<Rightarrow> 'v alist \<Rightarrow> addr option \<Rightarrow> ('v heap \<times> 'v alist \<times> 'v list) option" where
  "listDelNode h l p = do {
     a \<leftarrow> p;
     node \<leftarrow> h a;
     (h1, l1) \<leftarrow> (if ln_prev node \<noteq> None
                  then do { h1 \<leftarrow> upd_node h (ln_prev node) (ln_next_update (\<lambda>_. ln_next node)); Some (h1, l) }
                  else Some (h, l\<lparr>l_head := ln_next node\<rparr>));
     (h2, l2) \<leftarrow> (if ln_next node \<noteq> None
                  then do { h2 \<leftarrow> upd_node h1 (ln_next node) (ln_prev_update (\<lambda>_. ln_prev node)); Some (h2, l1) }
                  else Some (h1, l1\<lparr>l_tail := ln_prev node\<rparr>));
     Some (h2(a := None), l2\<lparr>l_len := l_len l2 - 1\<rparr>, if l_free l then [ln_value node] else [])
   }"

text \<open>\<open>while(len--)\<close> of \<open>listRelease\<close>.\<close>

fun release_loop :: "bool \<Rightarrow> nat \<Rightarrow> 'v heap \<Rightarrow> addr option \<Rightarrow> ('v heap \<times> 'v list) option" where
  "release_loop free 0 h current = Some (h, [])"
| "release_loop free (Suc len) h current = do {
     a \<leftarrow> current;
     node \<leftarrow> h a;
     (h', freed) \<leftarrow> release_loop free len (h(a := None)) (ln_next node);
     Some (h', (if free then [ln_value node] else []) @ freed)
   }"

definition listRelease :: "'v heap \<Rightarrow> 'v alist \<Rightarrow> ('v heap \<times> 'v list) option" where
  "listRelease h l = release_loop (l_free l) (l_len l) h (l_head l)"

definition listGetIterator :: "'v alist \<Rightarrow> bool \<Rightarrow> listIter" where
  "listGetIterator l from_head =
     \<lparr>li_next = (if from_head then l_head l else l_tail l), li_head = from_head\<rparr>"

definition listRewind :: "'v alist \<Rightarrow> listIter" where
  "listRewind l = \<lparr>li_next = l_head l, li_head = True\<rparr>"

definition listRewindTail :: "'v alist \<Rightarrow> listIter" where
  "listRewindTail l = \<lparr>li_next = l_tail l, li_head = False\<rparr>"

definition listNext :: "'v heap \<Rightarrow> listIter \<Rightarrow> (addr option \<times> listIter) option" where
  "listNext h it =
     (case li_next it of
        None \<Rightarrow> Some (None, it)
      | Some a \<Rightarrow> do {
          node \<leftarrow> h a;
          Some (Some a, it\<lparr>li_next := if li_head it then ln_next node else ln_prev node\<rparr>)
        })"

text \<open>
  The loops over an iterator.  On a cyclic heap they would not end, so they are partial
  functions; that they return on every represented list is part of the theorems.  \<open>addrs\<close>
  supplies the addresses of the copied nodes; \<open>Some None\<close> is \<open>return NULL\<close>.
\<close>

partial_function (option) dup_loop ::
    "'v heap \<Rightarrow> 'v alist \<Rightarrow> listIter \<Rightarrow> addr list \<Rightarrow> ('v heap \<times> 'v alist) option option" where
  "dup_loop h copy it addrs = do {
     (p, it') \<leftarrow> listNext h it;
     (case p of
        None \<Rightarrow> Some (Some (h, copy))
      | Some a \<Rightarrow> do {
          node \<leftarrow> h a;
          (case (case l_dup copy of None \<Rightarrow> Some (ln_value node) | Some dup \<Rightarrow> dup (ln_value node)) of
             None \<Rightarrow> do { (h', _) \<leftarrow> listRelease h copy; Some None }
           | Some v \<Rightarrow> do {
               (h', copy') \<leftarrow> listAddNodeTail h copy (hd addrs) v;
               dup_loop h' copy' it' (tl addrs)
             })
        })
   }"

definition listDup ::
    "'v heap \<Rightarrow> 'v alist \<Rightarrow> addr list \<Rightarrow> ('v heap \<times> 'v alist) option option" where
  "listDup h orig addrs =
     dup_loop h (listCreate\<lparr>l_dup := l_dup orig, l_free := l_free orig, l_match := l_match orig\<rparr>)
       (listGetIterator orig True) addrs"

partial_function (option) listSearchKey_loop ::
    "'v heap \<Rightarrow> ('v \<Rightarrow> 'v \<Rightarrow> bool) option \<Rightarrow> 'v \<Rightarrow> listIter \<Rightarrow> addr option option" where
  "listSearchKey_loop h match key it = do {
     (p, it') \<leftarrow> listNext h it;
     (case p of
        None \<Rightarrow> Some None
      | Some a \<Rightarrow> do {
          node \<leftarrow> h a;
          if (case match of None \<Rightarrow> key = ln_value node | Some m \<Rightarrow> m (ln_value node) key)
          then Some (Some a) else listSearchKey_loop h match key it'
        })
   }"

definition listSearchKey :: "'v heap \<Rightarrow> 'v alist \<Rightarrow> 'v \<Rightarrow> addr option option" where
  "listSearchKey h l key = listSearchKey_loop h (l_match l) key (listGetIterator l True)"

text \<open>\<open>while(index-- && n)\<close>\<close>

fun index_loop :: "'v heap \<Rightarrow> bool \<Rightarrow> nat \<Rightarrow> addr option \<Rightarrow> addr option option" where
  "index_loop h forward 0 n = Some n"
| "index_loop h forward (Suc i) None = Some None"
| "index_loop h forward (Suc i) (Some a) = do {
     node \<leftarrow> h a;
     index_loop h forward i (if forward then ln_next node else ln_prev node)
   }"

definition listIndex :: "'v heap \<Rightarrow> 'v alist \<Rightarrow> int \<Rightarrow> addr option option" where
  "listIndex h l index =
     (if index < 0 then index_loop h False (nat (- index - 1)) (l_tail l)
      else index_loop h True (nat index) (l_head l))"

definition listRotate :: "'v heap \<Rightarrow> 'v alist \<Rightarrow> ('v heap \<times> 'v alist) option" where
  "listRotate h l =
     (if l_len l \<le> 1 then Some (h, l)
      else do {
        let tail = l_tail l;
        tnode \<leftarrow> node_at h tail;
        let newtail = ln_prev tnode;
        h1 \<leftarrow> upd_node h newtail (ln_next_update (\<lambda>_. None));
        h2 \<leftarrow> upd_node h1 (l_head l) (ln_prev_update (\<lambda>_. tail));
        h3 \<leftarrow> upd_node h2 tail (\<lambda>n. n\<lparr>ln_prev := None, ln_next := l_head l\<rparr>);
        Some (h3, l\<lparr>l_tail := newtail, l_head := tail\<rparr>)
      })"

section \<open>Segments of linked nodes\<close>

definition first :: "'a list \<Rightarrow> 'a option \<Rightarrow> 'a option" where
  "first ps nx = (case ps of [] \<Rightarrow> nx | p # _ \<Rightarrow> Some p)"

definition final :: "'a list \<Rightarrow> 'a option \<Rightarrow> 'a option" where
  "final ps pr = (if ps = [] then pr else Some (last ps))"

lemma first_simps [simp]: "first [] nx = nx" "first (p # ps) nx = Some p"
  by (simp_all add: first_def)

lemma first_append [simp]: "first (ps @ qs) nx = first ps (first qs nx)"
  by (cases ps) simp_all

lemma final_simps [simp]: "final [] pr = pr" "final (p # ps) pr = final ps (Some p)" "final (ps @ [p]) pr = Some p"
  by (simp_all add: final_def)

lemma first_ne: "ps \<noteq> [] \<Longrightarrow> first ps nx = Some (hd ps)"
  by (cases ps) simp_all

lemma final_ne: "ps \<noteq> [] \<Longrightarrow> final ps pr = Some (last ps)"
  by (simp add: final_def)

lemma final_append [simp]: "final (ps @ qs) pr = final qs (final ps pr)"
  by (cases qs rule: rev_cases) (simp_all add: final_def)

text \<open>\<open>seg h pr ps nx vs\<close>: the nodes \<open>ps\<close> hold \<open>vs\<close> and link \<open>pr\<close> to \<open>nx\<close> in both directions.\<close>

fun seg :: "'v heap \<Rightarrow> addr option \<Rightarrow> addr list \<Rightarrow> addr option \<Rightarrow> 'v list \<Rightarrow> bool" where
  "seg h pr [] nx [] = True"
| "seg h pr (p # ps) nx (v # vs) =
     (h p = Some \<lparr>ln_prev = pr, ln_next = first ps nx, ln_value = v\<rparr> \<and> seg h (Some p) ps nx vs)"
| "seg h pr _ nx _ = False"

definition dll :: "'v heap \<Rightarrow> 'v alist \<Rightarrow> addr list \<Rightarrow> 'v list \<Rightarrow> bool" where
  "dll h l ps vs \<longleftrightarrow>
     distinct ps \<and> seg h None ps None vs \<and> l_head l = first ps None \<and> l_tail l = final ps None \<and>
     l_len l = length ps"

lemma seg_length: "seg h pr ps nx vs \<Longrightarrow> length ps = length vs"
  by (induction h pr ps nx vs rule: seg.induct) auto

lemma seg_cong: "(\<And>a. a \<in> set ps \<Longrightarrow> h' a = h a) \<Longrightarrow> seg h' pr ps nx vs = seg h pr ps nx vs"
  by (induction h pr ps nx vs rule: seg.induct) auto

lemma seg_append:
  "length ps = length vs \<Longrightarrow>
   seg h pr (ps @ qs) nx (vs @ ws) \<longleftrightarrow> seg h pr ps (first qs nx) vs \<and> seg h (final ps pr) qs nx ws"
  by (induction ps vs arbitrary: pr rule: list_induct2) auto

lemma seg_split:
  assumes "seg h pr (ps @ p # qs) nx vs"
  obtains v1 v v2 where "vs = v1 @ v # v2" "length v1 = length ps" "length v2 = length qs"
    "seg h pr ps (Some p) v1" "h p = Some \<lparr>ln_prev = final ps pr, ln_next = first qs nx, ln_value = v\<rparr>"
    "seg h (Some p) qs nx v2"
proof -
  have l: "length vs = length ps + Suc (length qs)" using seg_length [OF assms] by simp
  define v1 v v2 where "v1 = take (length ps) vs" and "v = vs ! length ps" and "v2 = drop (Suc (length ps)) vs"
  have vs: "vs = v1 @ v # v2" using l by (simp add: v1_def v_def v2_def id_take_nth_drop)
  have l1: "length v1 = length ps" "length v2 = length qs" using l by (simp_all add: v1_def v2_def)
  then show ?thesis using assms that vs by (simp add: seg_append)
qed

lemma set_next:
  assumes "seg h pr xs nx vs" "distinct xs" "xs \<noteq> []"
  shows "\<exists>h'. upd_node h (final xs pr') (ln_next_update (\<lambda>_. nx')) = Some h' \<and> seg h' pr xs nx' vs \<and>
     (\<forall>a. a \<noteq> last xs \<longrightarrow> h' a = h a)"
proof -
  obtain ys y where xs: "xs = ys @ [y]" using assms(3) by (cases xs rule: rev_cases) auto
  obtain v1 v where v: "vs = v1 @ [v]" "length v1 = length ys" "seg h pr ys (Some y) v1"
    "h y = Some \<lparr>ln_prev = final ys pr, ln_next = nx, ln_value = v\<rparr>"
    using assms(1) unfolding xs by (rule seg_split) auto
  let ?h = "h(y \<mapsto> \<lparr>ln_prev = final ys pr, ln_next = nx', ln_value = v\<rparr>)"
  have "seg ?h pr ys (Some y) v1" using v(3) assms(2) by (subst seg_cong [of _ _ h]) (auto simp: xs)
  then have "seg ?h pr xs nx' vs" using v(1,2) by (simp add: xs seg_append)
  moreover have "upd_node h (final xs pr') (ln_next_update (\<lambda>_. nx')) = Some ?h"
    using v(4) by (simp add: xs upd_node_def)
  ultimately show ?thesis by (intro exI [of _ ?h]) (simp add: xs)
qed

lemma set_prev:
  assumes "seg h pr xs nx vs" "distinct xs" "xs \<noteq> []"
  shows "\<exists>h'. upd_node h (first xs nx') (ln_prev_update (\<lambda>_. pr')) = Some h' \<and> seg h' pr' xs nx vs \<and>
     (\<forall>a. a \<noteq> hd xs \<longrightarrow> h' a = h a)"
proof -
  obtain y ys where xs: "xs = y # ys" using assms(3) by (cases xs) auto
  obtain v v1 where v: "vs = v # v1" "seg h (Some y) ys nx v1"
    "h y = Some \<lparr>ln_prev = pr, ln_next = first ys nx, ln_value = v\<rparr>"
    using assms(1) unfolding xs by (cases vs) auto
  let ?h = "h(y \<mapsto> \<lparr>ln_prev = pr', ln_next = first ys nx, ln_value = v\<rparr>)"
  have "seg ?h (Some y) ys nx v1" using v(2) assms(2) by (subst seg_cong [of _ _ h]) (auto simp: xs)
  moreover have "upd_node h (first xs nx') (ln_prev_update (\<lambda>_. pr')) = Some ?h"
    using v(3) by (simp add: xs upd_node_def)
  ultimately show ?thesis by (intro exI [of _ ?h]) (simp add: xs v(1))
qed

text \<open>Linking a new node between two segments, as every insertion does.\<close>

lemma link_node:
  assumes "seg h pr xs nx1 v1" "seg h pr2 ys nx v2" "distinct (xs @ ys)" "new \<notin> set (xs @ ys)"
    and "h new = Some \<lparr>ln_prev = final xs pr, ln_next = first ys nx, ln_value = v\<rparr>"
    and "xs = [] \<longrightarrow> pr = None" "ys = [] \<longrightarrow> nx = None"
  shows "\<exists>h2 h3.
     (if final xs pr \<noteq> None then upd_node h (final xs pr) (ln_next_update (\<lambda>_. Some new)) else Some h) = Some h2 \<and>
     (if first ys nx \<noteq> None then upd_node h2 (first ys nx) (ln_prev_update (\<lambda>_. Some new)) else Some h2) = Some h3 \<and>
     seg h3 pr (xs @ new # ys) nx (v1 @ v # v2) \<and> (\<forall>a. a \<notin> set (new # xs @ ys) \<longrightarrow> h3 a = h a)"
proof -
  have "\<exists>h2. (if final xs pr \<noteq> None then upd_node h (final xs pr) (ln_next_update (\<lambda>_. Some new)) else Some h) = Some h2 \<and>
      seg h2 pr xs (Some new) v1 \<and> (\<forall>a. a \<notin> set xs \<longrightarrow> h2 a = h a)"
  proof (cases "xs = []")
    case True
    then show ?thesis using assms(1,6) by (cases v1) auto
  next
    case False
    have "final xs pr \<noteq> None" using False by (simp add: final_def)
    moreover obtain h2 where "upd_node h (final xs pr) (ln_next_update (\<lambda>_. Some new)) = Some h2"
      "seg h2 pr xs (Some new) v1" "\<forall>a. a \<noteq> last xs \<longrightarrow> h2 a = h a"
      using set_next [OF assms(1) _ False, of pr "Some new"] assms(3) by auto
    ultimately show ?thesis using False by (metis last_in_set)
  qed
  then obtain h2 where h2: "(if final xs pr \<noteq> None then upd_node h (final xs pr) (ln_next_update (\<lambda>_. Some new)) else Some h) = Some h2"
    "seg h2 pr xs (Some new) v1" "\<forall>a. a \<notin> set xs \<longrightarrow> h2 a = h a" by blast
  have ys: "seg h2 pr2 ys nx v2"
    using assms(2,3) h2(3) by (subst seg_cong [of _ _ h]) auto
  have "\<exists>h3. (if first ys nx \<noteq> None then upd_node h2 (first ys nx) (ln_prev_update (\<lambda>_. Some new)) else Some h2) = Some h3 \<and>
      seg h3 (Some new) ys nx v2 \<and> (\<forall>a. a \<notin> set ys \<longrightarrow> h3 a = h2 a)"
  proof (cases "ys = []")
    case True
    then show ?thesis using ys assms(7) by (cases v2) auto
  next
    case False
    have "first ys nx \<noteq> None" using False by (cases ys) simp_all
    moreover obtain h3 where "upd_node h2 (first ys nx) (ln_prev_update (\<lambda>_. Some new)) = Some h3"
      "seg h3 (Some new) ys nx v2" "\<forall>a. a \<noteq> hd ys \<longrightarrow> h3 a = h2 a"
      using set_prev [OF ys _ False, of nx "Some new"] assms(3) by auto
    ultimately show ?thesis using False by (metis list.set_sel(1))
  qed
  then obtain h3 where h3: "(if first ys nx \<noteq> None then upd_node h2 (first ys nx) (ln_prev_update (\<lambda>_. Some new)) else Some h2) = Some h3"
    "seg h3 (Some new) ys nx v2" "\<forall>a. a \<notin> set ys \<longrightarrow> h3 a = h2 a" by blast
  have "seg h3 pr xs (Some new) v1" using h2(2) h3(3) assms(3) by (subst seg_cong [of _ _ h2]) auto
  moreover have "h3 new = h new" using h2(3) h3(3) assms(4) by simp
  ultimately have "seg h3 pr (xs @ new # ys) nx (v1 @ v # v2)"
    using h3(2) assms(5) seg_length [OF assms(1)] by (simp add: seg_append)
  then show ?thesis using h2(1,3) h3(1,3) by auto
qed

section \<open>The operations on a represented list\<close>

lemma dll_len_0: "dll h l ps vs \<Longrightarrow> l_len l = 0 \<longleftrightarrow> ps = []"
  by (simp add: dll_def)

lemma dll_length: "dll h l ps vs \<Longrightarrow> length ps = length vs"
  using seg_length by (auto simp: dll_def)

lemma dll_create: "dll h listCreate [] []"
  by (simp add: dll_def listCreate_def)

lemma seg_new: "new \<notin> set ps \<Longrightarrow> seg (h(new \<mapsto> n)) pr ps nx vs = seg h pr ps nx vs"
  by (rule seg_cong) auto

lemma listAddNodeHead_props:
  assumes "dll h l ps vs" "new \<notin> set ps"
  shows "\<exists>h' l'. listAddNodeHead h l new v = Some (h', l') \<and> dll h' l' (new # ps) (v # vs) \<and>
     (\<forall>a. a \<notin> set (new # ps) \<longrightarrow> h' a = h a) \<and> l_dup l' = l_dup l \<and> l_free l' = l_free l \<and> l_match l' = l_match l"
proof (cases "ps = []")
  case True
  then show ?thesis using assms by (cases vs) (auto simp: listAddNodeHead_def dll_def)
next
  case False
  note d = assms(1) [unfolded dll_def]
  let ?h = "h(new \<mapsto> \<lparr>ln_prev = None, ln_next = first ps None, ln_value = v\<rparr>)"
  have "seg ?h None ps None vs" using d assms(2) by (simp add: seg_new)
  from link_node [of ?h None "[]" None "[]" None ps None vs new v] d this assms(2) False
  obtain h3 where "upd_node ?h (first ps None) (ln_prev_update (\<lambda>_. Some new)) = Some h3"
    "seg h3 None (new # ps) None (v # vs)" "\<forall>a. a \<notin> set (new # ps) \<longrightarrow> h3 a = ?h a"
    by (fastforce simp: first_ne)
  then show ?thesis using d False assms(2)
    by (cases ps) (auto simp: listAddNodeHead_def dll_def)
qed

lemma listAddNodeTail_props:
  assumes "dll h l ps vs" "new \<notin> set ps"
  shows "\<exists>h' l'. listAddNodeTail h l new v = Some (h', l') \<and> dll h' l' (ps @ [new]) (vs @ [v]) \<and>
     (\<forall>a. a \<notin> set (new # ps) \<longrightarrow> h' a = h a) \<and> l_dup l' = l_dup l \<and> l_free l' = l_free l \<and> l_match l' = l_match l"
proof (cases "ps = []")
  case True
  then show ?thesis using assms by (cases vs) (auto simp: listAddNodeTail_def dll_def)
next
  case False
  note d = assms(1) [unfolded dll_def]
  let ?h = "h(new \<mapsto> \<lparr>ln_prev = final ps None, ln_next = None, ln_value = v\<rparr>)"
  have "seg ?h None ps None vs" using d assms(2) by (simp add: seg_new)
  from link_node [of ?h None ps None vs None "[]" None "[]" new v] d this assms(2) False
  obtain h3 where h3: "(if final ps None \<noteq> None then upd_node ?h (final ps None) (ln_next_update (\<lambda>_. Some new)) else Some ?h) = Some h3"
    "seg h3 None (ps @ [new]) None (vs @ [v])" "\<forall>a. a \<notin> set (new # ps) \<longrightarrow> h3 a = ?h a" by auto
  have "final ps None \<noteq> None" using False by (simp add: final_def)
  then show ?thesis using d False assms(2) h3
    by (auto simp: listAddNodeTail_def dll_def first_ne)
qed


lemma dll_at:
  assumes "dll h l (xs @ p # ys) vs"
  obtains v1 w v2 where "vs = v1 @ w # v2" "length v1 = length xs" "length v2 = length ys"
    "seg h None xs (Some p) v1" "h p = Some \<lparr>ln_prev = final xs None, ln_next = first ys None, ln_value = w\<rparr>"
    "seg h (Some p) ys None v2"
proof -
  have "seg h None (xs @ p # ys) None vs" using assms by (simp add: dll_def)
  then show ?thesis using that by (rule seg_split)
qed

lemma listInsertNode_props:
  assumes d: "dll h l (xs @ p # ys) (v1 @ w # v2)" and len: "length v1 = length xs"
    and new: "new \<notin> set (xs @ p # ys)"
  shows "\<exists>h' l'. listInsertNode h l (Some p) new v after = Some (h', l') \<and>
     (if after then dll h' l' (xs @ p # new # ys) (v1 @ w # v # v2)
      else dll h' l' (xs @ new # p # ys) (v1 @ v # w # v2)) \<and>
     (\<forall>a. a \<notin> set (new # xs @ p # ys) \<longrightarrow> h' a = h a)"
proof -
  have dist: "distinct (xs @ p # ys)" and seg: "seg h None (xs @ p # ys) None (v1 @ w # v2)"
    and hd: "l_head l = first (xs @ p # ys) None" and tl: "l_tail l = final (xs @ p # ys) None"
    and ln: "l_len l = length (xs @ p # ys)" using d by (simp_all add: dll_def)
  have s: "seg h None xs (Some p) v1" "h p = Some \<lparr>ln_prev = final xs None, ln_next = first ys None, ln_value = w\<rparr>"
    "seg h (Some p) ys None v2" using seg len by (simp_all add: seg_append)
  have tail: "l_tail l = Some p \<longleftrightarrow> ys = []" using tl dist by (auto simp: final_def)
  have head: "l_head l = Some p \<longleftrightarrow> xs = []" using hd dist by (cases xs) auto
  show ?thesis
  proof (cases after)
    case True
    let ?n = "\<lparr>ln_prev = Some p, ln_next = first ys None, ln_value = v\<rparr>"
    let ?h = "h(new \<mapsto> ?n)"
    have a: "seg ?h None (xs @ [p]) (first ys None) (v1 @ [w])" "seg ?h (Some p) ys None v2"
      using s len new by (simp_all add: seg_append seg_new)
    obtain h2 h3 where u: "upd_node ?h (Some p) (ln_next_update (\<lambda>_. Some new)) = Some h2"
      "(if first ys None \<noteq> None then upd_node h2 (first ys None) (ln_prev_update (\<lambda>_. Some new)) else Some h2) = Some h3"
      "seg h3 None ((xs @ [p]) @ new # ys) None ((v1 @ [w]) @ v # v2)"
      "\<forall>a. a \<notin> set (new # (xs @ [p]) @ ys) \<longrightarrow> h3 a = ?h a"
      using link_node [OF a, of new v] dist new by auto
    show ?thesis
      using True u s(2) dist new hd tl ln tail
      by (auto simp: listInsertNode_def node_at_def dll_def final_def)
  next
    case False
    let ?n = "\<lparr>ln_prev = final xs None, ln_next = Some p, ln_value = v\<rparr>"
    let ?h = "h(new \<mapsto> ?n)"
    have a: "seg ?h None xs (Some p) v1" "seg ?h (final xs None) (p # ys) None (w # v2)"
      using s new by (simp_all add: seg_new)
    obtain h2 h3 where u: "(if final xs None \<noteq> None then upd_node ?h (final xs None) (ln_next_update (\<lambda>_. Some new)) else Some ?h) = Some h2"
      "upd_node h2 (Some p) (ln_prev_update (\<lambda>_. Some new)) = Some h3"
      "seg h3 None (xs @ new # p # ys) None (v1 @ v # w # v2)"
      "\<forall>a. a \<notin> set (new # xs @ p # ys) \<longrightarrow> h3 a = ?h a"
      using link_node [OF a, of new v] dist new by auto
    show ?thesis
      using False u s(2) dist new hd tl ln head
      by (cases xs) (auto simp: listInsertNode_def node_at_def dll_def final_def)
  qed
qed

lemma listDelNode_props:
  assumes d: "dll h l (xs @ p # ys) (v1 @ w # v2)" and len: "length v1 = length xs"
  shows "\<exists>h' l'. listDelNode h l (Some p) = Some (h', l', if l_free l then [w] else []) \<and>
     dll h' l' (xs @ ys) (v1 @ v2) \<and> (\<forall>a. a \<notin> set (xs @ p # ys) \<longrightarrow> h' a = h a) \<and> h' p = None \<and>
     l_dup l' = l_dup l \<and> l_free l' = l_free l \<and> l_match l' = l_match l"
proof -
  have dist: "distinct (xs @ p # ys)" and seg: "seg h None (xs @ p # ys) None (v1 @ w # v2)"
    and hd: "l_head l = first (xs @ p # ys) None" and tl: "l_tail l = final (xs @ p # ys) None"
    and ln: "l_len l = length (xs @ p # ys)" using d by (simp_all add: dll_def)
  have s: "seg h None xs (Some p) v1" "h p = Some \<lparr>ln_prev = final xs None, ln_next = first ys None, ln_value = w\<rparr>"
    "seg h (Some p) ys None v2" using seg len by (simp_all add: seg_append)
  let ?l1 = "if xs = [] then l\<lparr>l_head := first ys None\<rparr> else l"
  have "\<exists>h1. (if final xs None \<noteq> None
          then do { h1 \<leftarrow> upd_node h (final xs None) (ln_next_update (\<lambda>_. first ys None)); Some (h1, l) }
          else Some (h, l\<lparr>l_head := first ys None\<rparr>)) = Some (h1, ?l1) \<and>
      seg h1 None xs (first ys None) v1 \<and> (\<forall>a. a \<notin> set xs \<longrightarrow> h1 a = h a)"
  proof (cases "xs = []")
    case True
    then show ?thesis using s(1) by (cases v1) auto
  next
    case False
    obtain h1 where "upd_node h (final xs None) (ln_next_update (\<lambda>_. first ys None)) = Some h1"
      "seg h1 None xs (first ys None) v1" "\<forall>a. a \<noteq> last xs \<longrightarrow> h1 a = h a"
      using set_next [OF s(1) _ False, of None "first ys None"] dist by auto
    moreover from this(3) have "\<forall>a. a \<notin> set xs \<longrightarrow> h1 a = h a" using last_in_set [OF False] by metis
    ultimately show ?thesis using False by (simp add: final_ne)
  qed
  then obtain h1 where h1: "(if final xs None \<noteq> None
          then do { h1 \<leftarrow> upd_node h (final xs None) (ln_next_update (\<lambda>_. first ys None)); Some (h1, l) }
          else Some (h, l\<lparr>l_head := first ys None\<rparr>)) = Some (h1, ?l1)"
    "seg h1 None xs (first ys None) v1" "\<forall>a. a \<notin> set xs \<longrightarrow> h1 a = h a" by blast
  have ys: "seg h1 (Some p) ys None v2" using s(3) h1(3) dist by (subst seg_cong [of _ _ h]) auto
  let ?l2 = "if ys = [] then ?l1\<lparr>l_tail := final xs None\<rparr> else ?l1"
  have "\<exists>h2. (if first ys None \<noteq> None
          then do { h2 \<leftarrow> upd_node h1 (first ys None) (ln_prev_update (\<lambda>_. final xs None)); Some (h2, ?l1) }
          else Some (h1, ?l1\<lparr>l_tail := final xs None\<rparr>)) = Some (h2, ?l2) \<and>
      seg h2 (final xs None) ys None v2 \<and> (\<forall>a. a \<notin> set ys \<longrightarrow> h2 a = h1 a)"
  proof (cases "ys = []")
    case True
    then show ?thesis using ys by (cases v2) auto
  next
    case False
    obtain h2 where "upd_node h1 (first ys None) (ln_prev_update (\<lambda>_. final xs None)) = Some h2"
      "seg h2 (final xs None) ys None v2" "\<forall>a. a \<noteq> hd ys \<longrightarrow> h2 a = h1 a"
      using set_prev [OF ys _ False, of None "final xs None"] dist by auto
    moreover from this(3) have "\<forall>a. a \<notin> set ys \<longrightarrow> h2 a = h1 a" using list.set_sel(1) [OF False] by metis
    ultimately show ?thesis using False by (simp add: first_ne)
  qed
  then obtain h2 where h2: "(if first ys None \<noteq> None
          then do { h2 \<leftarrow> upd_node h1 (first ys None) (ln_prev_update (\<lambda>_. final xs None)); Some (h2, ?l1) }
          else Some (h1, ?l1\<lparr>l_tail := final xs None\<rparr>)) = Some (h2, ?l2)"
    "seg h2 (final xs None) ys None v2" "\<forall>a. a \<notin> set ys \<longrightarrow> h2 a = h1 a" by blast
  have "seg h2 None xs (first ys None) v1" using h1(2) h2(3) dist by (subst seg_cong [of _ _ h1]) auto
  then have "seg h2 None (xs @ ys) None (v1 @ v2)" using h2(2) len by (simp add: seg_append)
  then have fin: "seg (h2(p := None)) None (xs @ ys) None (v1 @ v2)"
    using dist by (subst seg_cong [of _ _ h2]) auto
  have eq: "listDelNode h l (Some p) =
      Some (h2(p := None), ?l2\<lparr>l_len := l_len ?l2 - 1\<rparr>, if l_free l then [w] else [])"
    unfolding listDelNode_def Option.bind.bind_lunit s(2) listNode.simps h1(1) prod.case h2(1) ..
  have "dll (h2(p := None)) (?l2\<lparr>l_len := l_len ?l2 - 1\<rparr>) (xs @ ys) (v1 @ v2)"
    using fin dist hd tl ln by (cases xs; cases ys rule: rev_cases) (auto simp: dll_def final_def)
  then show ?thesis using eq h1(3) h2(3) by auto
qed

lemma listRotate_props:
  assumes d: "dll h l ps vs"
  shows "\<exists>h' l'. listRotate h l = Some (h', l') \<and>
     dll h' l' (if length ps \<le> 1 then ps else last ps # butlast ps)
              (if length ps \<le> 1 then vs else last vs # butlast vs) \<and>
     (\<forall>a. a \<notin> set ps \<longrightarrow> h' a = h a)"
proof (cases "length ps \<le> 1")
  case True
  then show ?thesis using d by (simp add: listRotate_def dll_def)
next
  case False
  then obtain x xs t where ps: "ps = (x # xs) @ [t]"
    by (metis append_Nil length_append_singleton le_numeral_extra(4) list.exhaust list.size(3) One_nat_def rev_exhaust zero_le)
  have dist: "distinct ps" and seg: "seg h None ps None vs" using d by (simp_all add: dll_def)
  obtain v1 w where v: "vs = v1 @ [w]" "length v1 = Suc (length xs)" "seg h None (x # xs) (Some t) v1"
    "h t = Some \<lparr>ln_prev = final xs (Some x), ln_next = None, ln_value = w\<rparr>"
    using seg unfolding ps by (rule seg_split) auto
  have d1: "distinct (x # xs)" "t \<notin> set (x # xs)" using dist ps by auto
  obtain h1 where h1: "upd_node h (final (x # xs) None) (ln_next_update (\<lambda>_. None)) = Some h1"
    "seg h1 None (x # xs) None v1" "\<forall>a. a \<noteq> last (x # xs) \<longrightarrow> h1 a = h a"
    using set_next [OF v(3) d1(1)] by (metis list.distinct(1))
  obtain h2 where h2: "upd_node h1 (first (x # xs) None) (ln_prev_update (\<lambda>_. Some t)) = Some h2"
    "seg h2 (Some t) (x # xs) None v1" "\<forall>a. a \<noteq> hd (x # xs) \<longrightarrow> h2 a = h1 a"
    using set_prev [OF h1(2) d1(1)] by (metis list.distinct(1))
  have t2: "h2 t = h t" using h1(3) h2(3) d1(2) by (metis last_in_set list.distinct(1) list.sel(1) list.set_intros(1))
  let ?h3 = "h2(t \<mapsto> \<lparr>ln_prev = None, ln_next = Some x, ln_value = w\<rparr>)"
  have h3: "upd_node h2 (Some t) (\<lambda>n. n\<lparr>ln_prev := None, ln_next := Some x\<rparr>) = Some ?h3"
    using t2 v(4) by (simp add: upd_node_def)
  have s3: "seg ?h3 (Some t) (x # xs) None v1" using h2(2) d1(2) by (subst seg_cong [of _ _ h2]) auto
  have eq: "listRotate h l = Some (?h3, l\<lparr>l_tail := final xs (Some x), l_head := Some t\<rparr>)"
    using d h1(1) h2(1) h3 v(4) False
    by (simp add: listRotate_def dll_def ps node_at_def Let_def)
  have "dll ?h3 (l\<lparr>l_tail := final xs (Some x), l_head := Some t\<rparr>) (t # x # xs) (w # v1)"
    using s3 d d1 by (simp add: dll_def ps)
  moreover have "\<forall>a. a \<notin> set ps \<longrightarrow> ?h3 a = h a"
    using h1(3) h2(3) by (auto simp: ps) (metis last_ConsR last_in_set list.sel(1))
  ultimately show ?thesis using eq ps v by (auto simp: butlast_append)
qed

section \<open>Traversals\<close>

lemma release_loop_props:
  assumes "seg h pr ps nx vs" "distinct ps"
  shows "\<exists>h'. release_loop free (length ps) h (first ps nx) = Some (h', if free then vs else []) \<and>
     (\<forall>a. h' a = (if a \<in> set ps then None else h a))"
  using assms
proof (induction ps arbitrary: h pr vs)
  case Nil
  then show ?case by (cases vs) auto
next
  case (Cons p ps)
  obtain v vs' where v: "vs = v # vs'" "h p = Some \<lparr>ln_prev = pr, ln_next = first ps nx, ln_value = v\<rparr>"
    "seg h (Some p) ps nx vs'" using Cons.prems(1) by (cases vs) auto
  have "seg (h(p := None)) (Some p) ps nx vs'"
    using v(3) Cons.prems(2) by (subst seg_cong [of _ _ h]) auto
  moreover have "distinct ps" using Cons.prems(2) by simp
  ultimately obtain h' where
    "release_loop free (length ps) (h(p := None)) (first ps nx) = Some (h', if free then vs' else [])"
    "\<forall>a. h' a = (if a \<in> set ps then None else (h(p := None)) a)" using Cons.IH by blast
  then show ?case using v by (auto split: if_splits)
qed

lemma listRelease_props:
  assumes "dll h l ps vs"
  shows "\<exists>h'. listRelease h l = Some (h', if l_free l then vs else []) \<and>
     (\<forall>a. h' a = (if a \<in> set ps then None else h a))"
  using release_loop_props [of h None ps None vs "l_free l"] assms by (simp add: listRelease_def dll_def)

lemma index_loop_forward:
  "seg h pr ps None vs \<Longrightarrow>
   index_loop h True i (first ps None) = Some (if i < length ps then Some (ps ! i) else None)"
proof (induction i arbitrary: ps pr vs)
  case 0
  then show ?case by (cases ps) auto
next
  case (Suc i)
  show ?case
  proof (cases ps)
    case Nil
    then show ?thesis by simp
  next
    case (Cons p qs)
    then obtain w ws where "vs = w # ws" "seg h (Some p) qs None ws" "h p = Some \<lparr>ln_prev = pr, ln_next = first qs None, ln_value = w\<rparr>"
      using Suc.prems by (cases vs) auto
    with Suc.IH [of "Some p" qs ws] Cons show ?thesis by simp
  qed
qed

lemma index_loop_backward:
  "seg h None ps nx vs \<Longrightarrow>
   index_loop h False i (final ps None) = Some (if i < length ps then Some (rev ps ! i) else None)"
proof (induction i arbitrary: ps nx vs)
  case 0
  then show ?case by (cases ps rule: rev_cases) auto
next
  case (Suc i)
  show ?case
  proof (cases ps rule: rev_cases)
    case Nil
    then show ?thesis by simp
  next
    case (snoc qs p)
    obtain v1 v v2 where s: "seg h None qs (Some p) v1" "h p = Some \<lparr>ln_prev = final qs None, ln_next = nx, ln_value = v\<rparr>"
      using Suc.prems unfolding snoc by (rule seg_split) auto
    with Suc.IH [OF s(1)] snoc show ?thesis by simp
  qed
qed

lemma listIndex_props:
  assumes "dll h l ps vs"
  shows "listIndex h l i =
    Some (if 0 \<le> i \<and> i < int (length ps) then Some (ps ! nat i)
          else if i < 0 \<and> - i \<le> int (length ps) then Some (ps ! (length ps - nat (- i))) else None)"
proof -
  note d = assms [unfolded dll_def]
  show ?thesis
  proof (cases "0 \<le> i")
    case True
    then show ?thesis using index_loop_forward [of h None ps vs "nat i"] d by (auto simp: listIndex_def)
  next
    case False
    have "nat (- i - 1) < length ps \<longleftrightarrow> - i \<le> int (length ps)" using False by auto
    moreover have "rev ps ! nat (- i - 1) = ps ! (length ps - nat (- i))" if "- i \<le> int (length ps)"
    proof -
      have "Suc (nat (- i - 1)) = nat (- i)" using False by simp
      then show ?thesis using that False by (simp add: rev_nth)
    qed
    ultimately show ?thesis
      using index_loop_backward [of h ps None vs "nat (- i - 1)"] d False by (simp add: listIndex_def)
  qed
qed

definition matches :: "('v \<Rightarrow> 'v \<Rightarrow> bool) option \<Rightarrow> 'v \<Rightarrow> 'v \<Rightarrow> bool" where
  "matches m key v = (case m of None \<Rightarrow> key = v | Some f \<Rightarrow> f v key)"

lemma listSearchKey_loop_props:
  "seg h pr ps None vs \<Longrightarrow>
   listSearchKey_loop h m key \<lparr>li_next = first ps None, li_head = True\<rparr> =
     Some (map_option (\<lambda>i. ps ! i) (List.find (\<lambda>i. matches m key (vs ! i)) [0..<length ps]))"
proof (induction ps arbitrary: pr vs)
  case Nil
  then show ?case by (subst listSearchKey_loop.simps) (simp add: listNext_def)
next
  case (Cons p ps)
  obtain v ws where v: "vs = v # ws" "h p = Some \<lparr>ln_prev = pr, ln_next = first ps None, ln_value = v\<rparr>"
    "seg h (Some p) ps None ws" using Cons.prems by (cases vs) auto
  have up: "[0..<length (p # ps)] = 0 # map Suc [0..<length ps]"
    unfolding map_Suc_upt by (subst upt_conv_Cons) simp_all
  have f: "List.find P (map Suc xs) = map_option Suc (List.find (P \<circ> Suc) xs)" for P xs
    by (induction xs) auto
  note IH = Cons.IH [OF v(3)]
  show ?case
    unfolding up
    by (subst listSearchKey_loop.simps)
      (use v IH in \<open>auto simp: listNext_def matches_def f comp_def option.map_comp split: option.splits\<close>)
qed

lemma listSearchKey_props:
  assumes "dll h l ps vs"
  shows "listSearchKey h l key =
    Some (map_option (\<lambda>i. ps ! i) (List.find (\<lambda>i. matches (l_match l) key (vs ! i)) [0..<length vs]))"
  using listSearchKey_loop_props [of h None ps vs "l_match l" key] assms dll_length [OF assms]
  by (simp add: listSearchKey_def listGetIterator_def dll_def)

text \<open>The copy a list receives: the \<open>dup\<close> method on every value, or \<open>NULL\<close> if it fails on one.\<close>

fun dup_values :: "('v \<Rightarrow> 'v option) option \<Rightarrow> 'v list \<Rightarrow> 'v list option" where
  "dup_values d [] = Some []"
| "dup_values d (v # vs) =
     (case (case d of None \<Rightarrow> Some v | Some f \<Rightarrow> f v) of
        None \<Rightarrow> None
      | Some w \<Rightarrow> map_option ((#) w) (dup_values d vs))"

lemma dup_loop_props:
  assumes "seg h pr ps None vs" "dll h copy qs ws" "set ps \<inter> set qs = {}"
    and "distinct addrs" "set addrs \<inter> (set ps \<union> set qs) = {}" "length ps \<le> length addrs"
  shows "\<exists>r. dup_loop h copy \<lparr>li_next = first ps None, li_head = True\<rparr> addrs = Some r \<and>
     (case dup_values (l_dup copy) vs of
        None \<Rightarrow> r = None
      | Some us \<Rightarrow> \<exists>h' copy'. r = Some (h', copy') \<and> dll h' copy' (qs @ take (length ps) addrs) (ws @ us) \<and>
          (\<forall>a. a \<notin> set qs \<union> set addrs \<longrightarrow> h' a = h a))"
  using assms
proof (induction ps arbitrary: h pr vs copy qs ws addrs)
  case Nil
  then have "vs = []" by (cases vs) auto
  then show ?case using Nil.prems by (subst dup_loop.simps) (simp add: listNext_def)
next
  case (Cons p ps)
  obtain v us where v: "vs = v # us" "h p = Some \<lparr>ln_prev = pr, ln_next = first ps None, ln_value = v\<rparr>"
    "seg h (Some p) ps None us" using Cons.prems(1) by (cases vs) auto
  obtain a as where a: "addrs = a # as" using Cons.prems(6) by (cases addrs) auto
  let ?w = "case l_dup copy of None \<Rightarrow> Some v | Some f \<Rightarrow> f v"
  show ?case
  proof (cases ?w)
    case None
    obtain h' where "listRelease h copy = Some (h', if l_free copy then ws else [])"
      using listRelease_props [OF Cons.prems(2)] by blast
    then have "dup_loop h copy \<lparr>li_next = first (p # ps) None, li_head = True\<rparr> addrs = Some None"
      using v(2) None by (subst dup_loop.simps) (simp add: listNext_def split: option.splits)
    then show ?thesis using None v(1) by simp
  next
    case (Some w)
    have an: "a \<notin> set qs" using Cons.prems(5) a by auto
    obtain h1 copy1 where n: "listAddNodeTail h copy a w = Some (h1, copy1)"
      "dll h1 copy1 (qs @ [a]) (ws @ [w])" "\<forall>b. b \<notin> set (a # qs) \<longrightarrow> h1 b = h b" "l_dup copy1 = l_dup copy"
      using listAddNodeTail_props [OF Cons.prems(2) an, of w] by blast
    have s1: "seg h1 (Some p) ps None us"
      using v(3) n(3) Cons.prems(3,5) a by (subst seg_cong [of _ _ h]) auto
    have step: "dup_loop h copy \<lparr>li_next = first (p # ps) None, li_head = True\<rparr> addrs =
        dup_loop h1 copy1 \<lparr>li_next = first ps None, li_head = True\<rparr> as"
      using v(2) Some n(1) a by (subst dup_loop.simps) (simp add: listNext_def split: option.splits)
    have "\<exists>r. dup_loop h1 copy1 \<lparr>li_next = first ps None, li_head = True\<rparr> as = Some r \<and>
     (case dup_values (l_dup copy1) us of
        None \<Rightarrow> r = None
      | Some us' \<Rightarrow> \<exists>h' copy'. r = Some (h', copy') \<and> dll h' copy' ((qs @ [a]) @ take (length ps) as) ((ws @ [w]) @ us') \<and>
          (\<forall>b. b \<notin> set (qs @ [a]) \<union> set as \<longrightarrow> h' b = h1 b))"
      by (rule Cons.IH [OF s1 n(2)]) (use Cons.prems(3-6) a in auto)
    then obtain r where r: "dup_loop h1 copy1 \<lparr>li_next = first ps None, li_head = True\<rparr> as = Some r"
      "case dup_values (l_dup copy) us of
        None \<Rightarrow> r = None
      | Some us' \<Rightarrow> \<exists>h' copy'. r = Some (h', copy') \<and> dll h' copy' (qs @ a # take (length ps) as) (ws @ w # us') \<and>
          (\<forall>b. b \<notin> set (qs @ [a]) \<union> set as \<longrightarrow> h' b = h1 b)"
      unfolding n(4) append_assoc append_Cons append_Nil by blast
    have vs: "dup_values (l_dup copy) vs = map_option ((#) w) (dup_values (l_dup copy) us)"
      using Some v(1) by simp
    show ?thesis
    proof (cases "dup_values (l_dup copy) us")
      case None
      then show ?thesis using r vs step by simp
    next
      case (Some us')
      then obtain h' copy' where "r = Some (h', copy')" "dll h' copy' (qs @ a # take (length ps) as) (ws @ w # us')"
        "\<forall>b. b \<notin> set (qs @ [a]) \<union> set as \<longrightarrow> h' b = h1 b" using r(2) by auto
      then show ?thesis using r(1) Some vs a n(3) step by simp
    qed
  qed
qed

section \<open>Sequences of operations\<close>

datatype 'v list_op = PushHead 'v | PushTail 'v | InsertAt int 'v bool | DeleteAt int | Rotate

definition norm_index :: "'a list \<Rightarrow> int \<Rightarrow> nat option" where
  "norm_index vs i =
     (if 0 \<le> i \<and> i < int (length vs) then Some (nat i)
      else if i < 0 \<and> - i \<le> int (length vs) then Some (length vs - nat (- i)) else None)"

text \<open>The specification, on the sequence of values; an index out of range does nothing.\<close>

fun list_spec :: "'v list \<Rightarrow> 'v list_op \<Rightarrow> 'v list" where
  "list_spec vs (PushHead v) = v # vs"
| "list_spec vs (PushTail v) = vs @ [v]"
| "list_spec vs (InsertAt i v after) =
     (case norm_index vs i of None \<Rightarrow> vs
      | Some k \<Rightarrow> let j = (if after then Suc k else k) in take j vs @ v # drop j vs)"
| "list_spec vs (DeleteAt i) =
     (case norm_index vs i of None \<Rightarrow> vs | Some k \<Rightarrow> take k vs @ drop (Suc k) vs)"
| "list_spec vs Rotate = (if length vs \<le> 1 then vs else last vs # butlast vs)"

fun list_impl ::
    "'v heap \<times> 'v alist \<Rightarrow> addr \<Rightarrow> 'v list_op \<Rightarrow> ('v heap \<times> 'v alist) option" where
  "list_impl (h, l) new (PushHead v) = listAddNodeHead h l new v"
| "list_impl (h, l) new (PushTail v) = listAddNodeTail h l new v"
| "list_impl (h, l) new (InsertAt i v after) = do {
     p \<leftarrow> listIndex h l i;
     if p = None then Some (h, l) else listInsertNode h l p new v after
   }"
| "list_impl (h, l) new (DeleteAt i) = do {
     p \<leftarrow> listIndex h l i;
     if p = None then Some (h, l) else do { (h', l', _) \<leftarrow> listDelNode h l p; Some (h', l') }
   }"
| "list_impl (h, l) new Rotate = listRotate h l"

fun list_run ::
    "'v heap \<times> 'v alist \<Rightarrow> addr list \<Rightarrow> 'v list_op list \<Rightarrow> ('v heap \<times> 'v alist) option" where
  "list_run s addrs [] = Some s"
| "list_run s [] (x # xs) = None"
| "list_run s (new # addrs) (x # xs) = do { s' \<leftarrow> list_impl s new x; list_run s' addrs xs }"

lemma listIndex_norm:
  "dll h l ps vs \<Longrightarrow> listIndex h l i = Some (map_option ((!) ps) (norm_index vs i))"
  using dll_length [of h l ps vs] by (simp add: listIndex_props norm_index_def)

lemma norm_index_less: "norm_index vs i = Some k \<Longrightarrow> k < length vs"
  by (auto simp: norm_index_def split: if_splits)

lemma list_impl_props:
  assumes d: "dll h l ps vs" and new: "new \<notin> set ps"
  shows "\<exists>h' l' ps'. list_impl (h, l) new x = Some (h', l') \<and> dll h' l' ps' (list_spec vs x) \<and>
     set ps' \<subseteq> insert new (set ps) \<and> (\<forall>a. a \<notin> insert new (set ps) \<longrightarrow> h' a = h a)"
proof -
  have len: "length ps = length vs" by (rule dll_length [OF d])
  have split: "ps = take k ps @ ps ! k # drop (Suc k) ps" "vs = take k vs @ vs ! k # drop (Suc k) vs"
    if "k < length vs" for k using that len by (simp_all add: id_take_nth_drop)
  show ?thesis
  proof (cases x)
    case (PushHead v)
    obtain h' l' where "listAddNodeHead h l new v = Some (h', l')" "dll h' l' (new # ps) (v # vs)"
      "\<forall>a. a \<notin> set (new # ps) \<longrightarrow> h' a = h a" using listAddNodeHead_props [OF d new, of v] by blast
    then show ?thesis
      using PushHead by (intro exI [of _ h'] exI [of _ l'] exI [of _ "new # ps"]) auto
  next
    case (PushTail v)
    obtain h' l' where "listAddNodeTail h l new v = Some (h', l')" "dll h' l' (ps @ [new]) (vs @ [v])"
      "\<forall>a. a \<notin> set (new # ps) \<longrightarrow> h' a = h a" using listAddNodeTail_props [OF d new, of v] by blast
    then show ?thesis
      using PushTail by (intro exI [of _ h'] exI [of _ l'] exI [of _ "ps @ [new]"]) auto
  next
    case (InsertAt i v after)
    show ?thesis
    proof (cases "norm_index vs i")
      case None
      then show ?thesis
        using InsertAt d by (intro exI [of _ h] exI [of _ l] exI [of _ ps]) (auto simp: listIndex_norm)
    next
      case (Some k)
      then have k: "k < length vs" by (rule norm_index_less)
      have "dll h l (take k ps @ ps ! k # drop (Suc k) ps) (take k vs @ vs ! k # drop (Suc k) vs)"
        using d split [OF k] by simp
      from listInsertNode_props [OF this, of new v after] k len new split(1) [OF k]
      obtain h' l' where r: "listInsertNode h l (Some (ps ! k)) new v after = Some (h', l')"
        "if after then dll h' l' (take k ps @ ps ! k # new # drop (Suc k) ps) (take k vs @ vs ! k # v # drop (Suc k) vs)
         else dll h' l' (take k ps @ new # ps ! k # drop (Suc k) ps) (take k vs @ v # vs ! k # drop (Suc k) vs)"
        "\<forall>a. a \<notin> set (new # ps) \<longrightarrow> h' a = h a" by auto
      have sp: "list_spec vs x = (if after then take k vs @ vs ! k # v # drop (Suc k) vs
          else take k vs @ v # vs ! k # drop (Suc k) vs)"
        using InsertAt Some k by (simp add: Let_def take_Suc_conv_app_nth Cons_nth_drop_Suc)
      have im: "list_impl (h, l) new x = Some (h', l')"
        using InsertAt Some r(1) d by (simp add: listIndex_norm)
      have sub: "set (take k ps @ ps ! k # new # drop (Suc k) ps) \<subseteq> insert new (set ps)"
        "set (take k ps @ new # ps ! k # drop (Suc k) ps) \<subseteq> insert new (set ps)"
        using k len by (auto dest: in_set_takeD in_set_dropD)
      show ?thesis
      proof (cases after)
        case True
        then show ?thesis
          using im r(2,3) sub(1) sp
          by (intro exI [of _ h'] exI [of _ l'] exI [of _ "take k ps @ ps ! k # new # drop (Suc k) ps"]) auto
      next
        case False
        then show ?thesis
          using im r(2,3) sub(2) sp
          by (intro exI [of _ h'] exI [of _ l'] exI [of _ "take k ps @ new # ps ! k # drop (Suc k) ps"]) auto
      qed
    qed
  next
    case (DeleteAt i)
    show ?thesis
    proof (cases "norm_index vs i")
      case None
      then show ?thesis
        using DeleteAt d by (intro exI [of _ h] exI [of _ l] exI [of _ ps]) (auto simp: listIndex_norm)
    next
      case (Some k)
      then have k: "k < length vs" by (rule norm_index_less)
      have "dll h l (take k ps @ ps ! k # drop (Suc k) ps) (take k vs @ vs ! k # drop (Suc k) vs)"
        using d split [OF k] by simp
      from listDelNode_props [OF this] k len
      obtain h' l' fr where r: "listDelNode h l (Some (ps ! k)) = Some (h', l', fr)"
        "dll h' l' (take k ps @ drop (Suc k) ps) (take k vs @ drop (Suc k) vs)"
        "\<forall>a. a \<notin> set (take k ps @ ps ! k # drop (Suc k) ps) \<longrightarrow> h' a = h a" by auto
      have "list_impl (h, l) new x = Some (h', l')"
        using DeleteAt Some r(1) d by (simp add: listIndex_norm)
      moreover have "list_spec vs x = take k vs @ drop (Suc k) vs" using DeleteAt Some by simp
      moreover have "set (take k ps @ drop (Suc k) ps) \<subseteq> insert new (set ps)"
        by (auto dest: in_set_takeD in_set_dropD)
      moreover have "\<forall>a. a \<notin> insert new (set ps) \<longrightarrow> h' a = h a"
        using r(3) split(1) [OF k] by (metis insertCI)
      ultimately show ?thesis using r(2) by metis
    qed
  next
    case Rotate
    obtain h' l' where r: "listRotate h l = Some (h', l')"
      "dll h' l' (if length ps \<le> 1 then ps else last ps # butlast ps)
                 (if length vs \<le> 1 then vs else last vs # butlast vs)"
      "\<forall>a. a \<notin> set ps \<longrightarrow> h' a = h a" using listRotate_props [OF d] len by auto
    have "set (if length ps \<le> 1 then ps else last ps # butlast ps) \<subseteq> set ps"
      by (auto dest: in_set_butlastD) (metis last_in_set list.size(3) not_less_eq_eq zero_le)
    then show ?thesis
      using r Rotate
      by (intro exI [of _ h'] exI [of _ l'] exI [of _ "if length ps \<le> 1 then ps else last ps # butlast ps"]) auto
  qed
qed

lemma list_run_props:
  assumes "dll h l ps vs" "distinct addrs" "set addrs \<inter> set ps = {}" "length xs \<le> length addrs"
  shows "\<exists>h' l' ps'. list_run (h, l) addrs xs = Some (h', l') \<and> dll h' l' ps' (foldl list_spec vs xs) \<and>
     (\<forall>a. a \<notin> set addrs \<union> set ps \<longrightarrow> h' a = h a)"
  using assms
proof (induction xs arbitrary: h l ps vs addrs)
  case Nil
  then show ?case by auto
next
  case (Cons x xs)
  obtain a as where a: "addrs = a # as" using Cons.prems(4) by (cases addrs) auto
  obtain h1 l1 ps1 where s: "list_impl (h, l) a x = Some (h1, l1)" "dll h1 l1 ps1 (list_spec vs x)"
    "set ps1 \<subseteq> insert a (set ps)" "\<forall>b. b \<notin> insert a (set ps) \<longrightarrow> h1 b = h b"
    using list_impl_props [OF Cons.prems(1), of a x] Cons.prems(3) a by fastforce
  obtain h' l' ps' where t: "list_run (h1, l1) as xs = Some (h', l')"
    "dll h' l' ps' (foldl list_spec (list_spec vs x) xs)" "\<forall>b. b \<notin> set as \<union> set ps1 \<longrightarrow> h' b = h1 b"
  proof -
    have "distinct as" "length xs \<le> length as" "set as \<inter> set ps1 = {}"
      using Cons.prems(2-4) a s(3) by auto
    then show ?thesis using Cons.IH [OF s(2), of as] that by blast
  qed
  then show ?case using s a by (intro exI [of _ h'] exI [of _ l'] exI [of _ ps']) auto
qed


section \<open>Properties\<close>

text \<open>C40.
  Refinement.  Starting from an empty list and any heap, every sequence of insertions at the
  ends or next to an indexed node, deletions and rotations runs without touching a \<open>NULL\<close> or
  dangling pointer, leaves a well-linked list of exactly the values the specification on
  sequences gives, readable in both directions, and changes no other cell of the heap.
\<close>

theorem adlist_refines_lists:
  assumes "distinct addrs" and "length xs \<le> length addrs"
  shows "\<exists>h' l' ps. list_run (h, listCreate) addrs xs = Some (h', l') \<and>
           dll h' l' ps (foldl list_spec [] xs) \<and> (\<forall>a. a \<notin> set addrs \<longrightarrow> h' a = h a) \<and>
           (\<forall>i<length ps. listIndex h' l' (int i) = Some (Some (ps ! i)) \<and>
              listIndex h' l' (- int (Suc i)) = Some (Some (rev ps ! i)))"
proof -
  obtain h' l' ps where r: "list_run (h, listCreate) addrs xs = Some (h', l')"
    "dll h' l' ps (foldl list_spec [] xs)" "\<forall>a. a \<notin> set addrs \<longrightarrow> h' a = h a"
    using list_run_props [OF dll_create assms(1) _ assms(2), of h] by auto
  have "listIndex h' l' (int i) = Some (Some (ps ! i)) \<and>
      listIndex h' l' (- int (Suc i)) = Some (Some (rev ps ! i))" if "i < length ps" for i
  proof -
    have "nat (int i + 1) = Suc i" by simp
    then show ?thesis using that by (simp add: listIndex_props [OF r(2)] rev_nth)
  qed
  then show ?thesis using r by blast
qed

theorem adlist_refines_lists_witness:
  "\<exists>h' l' ps. list_run (Map.empty, listCreate) [10, 11, 12, 13, 14, 15]
       [PushTail (1::nat), PushTail 2, PushHead 0, InsertAt 1 7 True, Rotate, DeleteAt (-1)] = Some (h', l') \<and>
     dll h' l' ps [2, 0, 1]"
  using adlist_refines_lists [of "[10, 11, 12, 13, 14, 15]"
      "[PushTail (1::nat), PushTail 2, PushHead 0, InsertAt 1 7 True, Rotate, DeleteAt (-1)]" Map.empty]
  by (simp add: norm_index_def Let_def) blast

text \<open>
  \<open>listDup\<close> and \<open>listSearchKey\<close>, loops over an iterator, return on every well-linked list.  The
  copy holds the duplicated values in order, in nodes of its own, and the original and the
  rest of the heap are untouched; when the \<open>dup\<close> method fails on a value the result is \<open>NULL\<close>.
  The search returns the first node whose value matches.
\<close>

theorem listDup_listSearchKey_correct:
  assumes "dll h l ps vs" and "distinct addrs" and "set addrs \<inter> set ps = {}" and "length ps \<le> length addrs"
  shows "(\<exists>r. listDup h l addrs = Some r \<and>
           (case dup_values (l_dup l) vs of
              None \<Rightarrow> r = None
            | Some us \<Rightarrow> \<exists>h' c. r = Some (h', c) \<and> dll h' c (take (length ps) addrs) us \<and> dll h' l ps vs \<and>
                (\<forall>a. a \<notin> set addrs \<longrightarrow> h' a = h a))) \<and>
           listSearchKey h l key =
             Some (map_option (\<lambda>i. ps ! i) (List.find (\<lambda>i. matches (l_match l) key (vs ! i)) [0..<length vs]))"
proof -
  let ?c = "listCreate\<lparr>l_dup := l_dup l, l_free := l_free l, l_match := l_match l\<rparr>"
  have s: "seg h None ps None vs" "l_head l = first ps None" using assms(1) by (simp_all add: dll_def)
  have c: "dll h ?c [] []" by (simp add: dll_def listCreate_def)
  obtain r where r: "listDup h l addrs = Some r"
    "case dup_values (l_dup l) vs of None \<Rightarrow> r = None
     | Some us \<Rightarrow> \<exists>h' c. r = Some (h', c) \<and> dll h' c (take (length ps) addrs) us \<and>
         (\<forall>a. a \<notin> set addrs \<longrightarrow> h' a = h a)"
  proof -
    from dup_loop_props [OF s(1) c _ assms(2) _ assms(4)] assms(3) obtain r where
      r: "dup_loop h ?c \<lparr>li_next = first ps None, li_head = True\<rparr> addrs = Some r"
      "case dup_values (l_dup ?c) vs of None \<Rightarrow> r = None
       | Some us \<Rightarrow> \<exists>h' c. r = Some (h', c) \<and> dll h' c ([] @ take (length ps) addrs) ([] @ us) \<and>
           (\<forall>a. a \<notin> set [] \<union> set addrs \<longrightarrow> h' a = h a)" by auto
    have "listDup h l addrs = Some r" using r(1) by (simp add: listDup_def listGetIterator_def s(2))
    then show ?thesis using that r(2) by (cases "dup_values (l_dup l) vs") simp_all
  qed
  have "dll h' l ps vs" if "\<forall>a. a \<notin> set addrs \<longrightarrow> h' a = h a" for h'
  proof -
    have "seg h' None ps None vs" using s(1) that assms(3) by (subst seg_cong [of _ _ h]) auto
    then show ?thesis using assms(1) by (simp add: dll_def)
  qed
  then have "case dup_values (l_dup l) vs of
        None \<Rightarrow> r = None
      | Some us \<Rightarrow> \<exists>h' c. r = Some (h', c) \<and> dll h' c (take (length ps) addrs) us \<and> dll h' l ps vs \<and>
          (\<forall>a. a \<notin> set addrs \<longrightarrow> h' a = h a)"
    using r(2) by (auto split: option.splits)
  then show ?thesis using r(1) listSearchKey_props [OF assms(1)] by blast
qed

definition two_nodes :: "nat heap" where
  "two_nodes = [1 \<mapsto> \<lparr>ln_prev = None, ln_next = Some 2, ln_value = 10\<rparr>,
                2 \<mapsto> \<lparr>ln_prev = Some 1, ln_next = None, ln_value = 20\<rparr>]"

definition two_list :: "nat alist" where
  "two_list = \<lparr>l_head = Some 1, l_tail = Some 2, l_len = 2, l_dup = Some (\<lambda>v. Some (v + 1)), l_free = False,
     l_match = None\<rparr>"

theorem listDup_listSearchKey_correct_witness:
  "(\<exists>h' c. listDup two_nodes two_list [7, 8] = Some (Some (h', c)) \<and> dll h' c [7, 8] [11, 21]) \<and>
   listSearchKey two_nodes two_list 20 = Some (Some 2)"
proof -
  have d: "dll two_nodes two_list [1, 2] [10, 20]" by (simp add: dll_def two_nodes_def two_list_def final_def)
  have m: "dup_values (l_dup two_list) [10, 20] = Some [11, 21]" "l_match two_list = None"
    by (simp_all add: two_list_def)
  have a: "distinct [7, 8::nat]" "set [7, 8::nat] \<inter> set [1, 2] = {}" "length [1, 2::nat] \<le> length [7, 8::nat]"
    by simp_all
  have "listSearchKey two_nodes two_list 20 = Some (Some 2)"
    using conjunct2 [OF listDup_listSearchKey_correct [OF d a, of 20]] m
    by (simp add: matches_def upt_rec)
  then show ?thesis
    using conjunct1 [OF listDup_listSearchKey_correct [OF d a, of 20]] m(1) by auto
qed

end
