(* ===== verification/Store.thy ===== *)
theory Store
  imports Prelude
begin

text \<open>
  The interface between the hash table and its clients.  A client stores values under keys
  and calls four operations; what it relies on is that they act as the updates of a finite
  map do, whatever the table does internally (every one of them, lookups included, may move
  entries around).  The locale states this contract and proves once what it gives for whole
  sequences of operations.
\<close>

datatype ('k, 'v) store_op = Fetch 'k | Add 'k 'v | Replace 'k 'v | Remove 'k

datatype 'v store_res = Value "'v option" | Done bool

text \<open>The operations on a finite map: the specification.\<close>

fun map_step :: "('k \<Rightarrow> 'v option) \<Rightarrow> ('k, 'v) store_op \<Rightarrow> 'v store_res \<times> ('k \<Rightarrow> 'v option)" where
  "map_step m (Fetch k) = (Value (m k), m)"
| "map_step m (Add k v) = (if m k = None then (Done True, m(k \<mapsto> v)) else (Done False, m))"
| "map_step m (Replace k v) = (Done (m k = None), m(k \<mapsto> v))"
| "map_step m (Remove k) = (Done (m k \<noteq> None), m(k := None))"

fun map_run ::
    "('k \<Rightarrow> 'v option) \<Rightarrow> ('k, 'v) store_op list \<Rightarrow> 'v store_res list \<times> ('k \<Rightarrow> 'v option)" where
  "map_run m [] = ([], m)"
| "map_run m (x # xs) =
     (let (r, m1) = map_step m x; (rs, m2) = map_run m1 xs in (r # rs, m2))"

text \<open>The same operations on an implementation, given by its four functions.\<close>

fun store_step ::
    "('d \<Rightarrow> 'k \<Rightarrow> 'v option \<times> 'd) \<Rightarrow> ('d \<Rightarrow> 'k \<Rightarrow> 'v \<Rightarrow> bool \<times> 'd) \<Rightarrow>
     ('d \<Rightarrow> 'k \<Rightarrow> 'v \<Rightarrow> bool \<times> 'd) \<Rightarrow> ('d \<Rightarrow> 'k \<Rightarrow> bool \<times> 'd) \<Rightarrow>
     'd \<Rightarrow> ('k, 'v) store_op \<Rightarrow> 'v store_res \<times> 'd" where
  "store_step fetch add replace del d (Fetch k) = apfst Value (fetch d k)"
| "store_step fetch add replace del d (Add k v) = apfst Done (add d k v)"
| "store_step fetch add replace del d (Replace k v) = apfst Done (replace d k v)"
| "store_step fetch add replace del d (Remove k) = apfst Done (del d k)"

fun store_run ::
    "('d \<Rightarrow> 'x \<Rightarrow> 'r \<times> 'd) \<Rightarrow> 'd \<Rightarrow> 'x list \<Rightarrow> 'r list \<times> 'd" where
  "store_run step d [] = ([], d)"
| "store_run step d (x # xs) =
     (let (r, d1) = step d x; (rs, d2) = store_run step d1 xs in (r # rs, d2))"

text \<open>
  The contract.  \<open>room n d\<close> says that \<open>n\<close> more entries fit; an operation uses up at most one.
\<close>

locale map_store =
  fixes inv :: "'d \<Rightarrow> bool"
    and room :: "nat \<Rightarrow> 'd \<Rightarrow> bool"
    and absm :: "'d \<Rightarrow> 'k \<Rightarrow> 'v option"
    and fetch :: "'d \<Rightarrow> 'k \<Rightarrow> 'v option \<times> 'd"
    and add :: "'d \<Rightarrow> 'k \<Rightarrow> 'v \<Rightarrow> bool \<times> 'd"
    and replace :: "'d \<Rightarrow> 'k \<Rightarrow> 'v \<Rightarrow> bool \<times> 'd"
    and del :: "'d \<Rightarrow> 'k \<Rightarrow> bool \<times> 'd"
  assumes fetch: "inv d \<Longrightarrow> fetch d k = (r, d') \<Longrightarrow> inv d' \<and> absm d' = absm d \<and> r = absm d k"
    and add: "inv d \<Longrightarrow> room (Suc n) d \<Longrightarrow> add d k v = (ok, d') \<Longrightarrow>
      inv d' \<and> ok = (absm d k = None) \<and> absm d' = (if absm d k = None then (absm d)(k \<mapsto> v) else absm d)"
    and replace: "inv d \<Longrightarrow> room (Suc n) d \<Longrightarrow> replace d k v = (new, d') \<Longrightarrow>
      inv d' \<and> new = (absm d k = None) \<and> absm d' = (absm d)(k \<mapsto> v)"
    and del: "inv d \<Longrightarrow> del d k = (ok, d') \<Longrightarrow>
      inv d' \<and> ok = (absm d k \<noteq> None) \<and> absm d' = (absm d)(k := None)"
    and room: "inv d \<Longrightarrow> room (Suc n) d \<Longrightarrow>
      room n (snd (fetch d k)) \<and> room n (snd (add d k v)) \<and> room n (snd (replace d k v)) \<and>
      room n (snd (del d k))"

begin

lemma step_refines:
  assumes "inv d" "room (Suc n) d" "store_step fetch add replace del d x = (r, d')"
  shows "inv d'" "room n d'" "map_step (absm d) x = (r, absm d')"
proof -
  have "inv d' \<and> room n d' \<and> map_step (absm d) x = (r, absm d')"
  proof (cases x)
    case (Fetch k)
    obtain r1 d1 where f: "fetch d k = (r1, d1)" by fastforce
    with assms(3) Fetch have "r = Value r1" "d' = d1" by simp_all
    with fetch [OF assms(1) f] room [OF assms(1,2), of k undefined] f Fetch show ?thesis by simp
  next
    case (Add k v)
    obtain r1 d1 where f: "add d k v = (r1, d1)" by fastforce
    with assms(3) Add have "r = Done r1" "d' = d1" by simp_all
    with add [OF assms(1,2) f] room [OF assms(1,2), of k v] f Add show ?thesis by auto
  next
    case (Replace k v)
    obtain r1 d1 where f: "replace d k v = (r1, d1)" by fastforce
    with assms(3) Replace have "r = Done r1" "d' = d1" by simp_all
    with replace [OF assms(1,2) f] room [OF assms(1,2), of k v] f Replace show ?thesis by simp
  next
    case (Remove k)
    obtain r1 d1 where f: "del d k = (r1, d1)" by fastforce
    with assms(3) Remove have "r = Done r1" "d' = d1" by simp_all
    with del [OF assms(1) f] room [OF assms(1,2), of k undefined] f Remove show ?thesis by auto
  qed
  then show "inv d'" "room n d'" "map_step (absm d) x = (r, absm d')" by simp_all
qed

lemma run_refines:
  assumes "inv d" "room (length xs) d"
    "store_run (store_step fetch add replace del) d xs = (rs, d')"
  shows "inv d' \<and> map_run (absm d) xs = (rs, absm d')"
  using assms
proof (induction xs arbitrary: d rs)
  case Nil
  then show ?case by simp
next
  case (Cons x xs)
  obtain r d1 where s: "store_step fetch add replace del d x = (r, d1)" by fastforce
  obtain rs1 d2 where t: "store_run (store_step fetch add replace del) d1 xs = (rs1, d2)" by fastforce
  have e: "rs = r # rs1" "d' = d2" using Cons.prems(3) s t by simp_all
  have rm: "room (Suc (length xs)) d" using Cons.prems(2) by simp
  note sr = step_refines [OF Cons.prems(1) rm s]
  from Cons.IH [OF sr(1,2), of rs1] t e sr(3) show ?case by simp
qed

lemma fetch_after_replace:
  assumes "inv d" "room (Suc n) d"
  shows "fst (fetch (snd (replace d k v)) k') = (if k' = k then Some v else absm d k')"
proof -
  obtain r1 d1 where f: "replace d k v = (r1, d1)" by fastforce
  obtain r2 d2 where g: "fetch d1 k' = (r2, d2)" by fastforce
  have "inv d1" "absm d1 = (absm d)(k \<mapsto> v)" using replace [OF assms f] by simp_all
  with fetch [OF \<open>inv d1\<close> g] f g show ?thesis by simp
qed

end

section \<open>Sets\<close>

text \<open>
  The interface of a set of elements: the integer set, the keys of a dictionary and the set
  objects of the keyspace provide it.  \<open>okv\<close> says which elements a provider can hold.
\<close>

datatype 'e set_op = Insert 'e | Delete 'e | Member 'e

fun set_step :: "'e set \<Rightarrow> 'e set_op \<Rightarrow> bool \<times> 'e set" where
  "set_step S (Insert e) = (e \<notin> S, insert e S)"
| "set_step S (Delete e) = (e \<in> S, S - {e})"
| "set_step S (Member e) = (e \<in> S, S)"

fun set_elem :: "'e set_op \<Rightarrow> 'e" where
  "set_elem (Insert e) = e"
| "set_elem (Delete e) = e"
| "set_elem (Member e) = e"

fun set_impl_step ::
    "('d \<Rightarrow> 'e \<Rightarrow> bool \<times> 'd) \<Rightarrow> ('d \<Rightarrow> 'e \<Rightarrow> bool \<times> 'd) \<Rightarrow> ('d \<Rightarrow> 'e \<Rightarrow> bool \<times> 'd) \<Rightarrow>
     'd \<Rightarrow> 'e set_op \<Rightarrow> bool \<times> 'd" where
  "set_impl_step add rem mem d (Insert e) = add d e"
| "set_impl_step add rem mem d (Delete e) = rem d e"
| "set_impl_step add rem mem d (Member e) = mem d e"

locale set_store =
  fixes inv :: "'d \<Rightarrow> bool"
    and room :: "nat \<Rightarrow> 'd \<Rightarrow> bool"
    and okv :: "'e \<Rightarrow> bool"
    and abss :: "'d \<Rightarrow> 'e set"
    and add :: "'d \<Rightarrow> 'e \<Rightarrow> bool \<times> 'd"
    and rem :: "'d \<Rightarrow> 'e \<Rightarrow> bool \<times> 'd"
    and mem :: "'d \<Rightarrow> 'e \<Rightarrow> bool \<times> 'd"
  assumes add: "inv d \<Longrightarrow> room (Suc n) d \<Longrightarrow> okv e \<Longrightarrow> add d e = (ok, d') \<Longrightarrow>
      inv d' \<and> room n d' \<and> ok = (e \<notin> abss d) \<and> abss d' = insert e (abss d)"
    and rem: "inv d \<Longrightarrow> room (Suc n) d \<Longrightarrow> okv e \<Longrightarrow> rem d e = (ok, d') \<Longrightarrow>
      inv d' \<and> room n d' \<and> ok = (e \<in> abss d) \<and> abss d' = abss d - {e}"
    and mem: "inv d \<Longrightarrow> room (Suc n) d \<Longrightarrow> okv e \<Longrightarrow> mem d e = (ok, d') \<Longrightarrow>
      inv d' \<and> room n d' \<and> ok = (e \<in> abss d) \<and> abss d' = abss d"

begin

lemma set_step_refines:
  assumes "inv d" "room (Suc n) d" "okv (set_elem x)" "set_impl_step add rem mem d x = (r, d')"
  shows "inv d' \<and> room n d' \<and> set_step (abss d) x = (r, abss d')"
  using assms by (cases x) (auto dest: add rem mem)

lemma set_run_refines:
  assumes "inv d" "room (length xs) d" "\<forall>x\<in>set xs. okv (set_elem x)"
    "store_run (set_impl_step add rem mem) d xs = (rs, d')"
  shows "inv d' \<and> store_run set_step (abss d) xs = (rs, abss d')"
  using assms
proof (induction xs arbitrary: d rs)
  case Nil
  then show ?case by simp
next
  case (Cons x xs)
  obtain r d1 where s: "set_impl_step add rem mem d x = (r, d1)" by fastforce
  obtain rs1 d2 where t: "store_run (set_impl_step add rem mem) d1 xs = (rs1, d2)" by fastforce
  have e: "rs = r # rs1" "d' = d2" using Cons.prems(4) s t by simp_all
  have "inv d1 \<and> room (length xs) d1 \<and> set_step (abss d) x = (r, abss d1)"
    using set_step_refines [OF Cons.prems(1) _ _ s, of "length xs"] Cons.prems(2,3) by simp
  with Cons.IH [of d1 rs1] Cons.prems(3) t e show ?case by simp
qed

end

end
