(* ===== verification/Dict.thy ===== *)
theory Dict
  imports Store "HOL-Library.Multiset"
begin

unbundle bit_operations_syntax

text \<open>
  \<open>dict.c\<close>: hash tables with chaining and incremental rehashing.  A dictionary has two
  tables; while it is being rehashed, every lookup or update moves one bucket from the first
  to the second.  The invariant \<open>dict_wf\<close> says what the two tables and the rehash index owe
  each other, the abstraction \<open>dict_map\<close> is the finite map the caller sees, and every
  operation is proved to act on that map as its name says whatever the state of the rehash.
\<close>

section \<open>Data\<close>

text \<open>
  A chain of \<open>dictEntry\<close> structs linked by \<open>next\<close> is the list of its entries; a table is
  the list of its chains, a \<open>NULL\<close> table the empty list.
\<close>

record ('k, 'v) dictEntry =
  de_key :: 'k
  de_val :: 'v

text \<open>
  \<open>dictType\<close>.  A \<open>NULL\<close> function pointer is \<open>None\<close>.  The destructors only release memory;
  which entries they are called on is a result of the operations.  \<open>privdata\<close> is not read by
  any dictionary type of the program and is left out.
\<close>

record ('k, 'v) dictType =
  hashFunction :: "'k \<Rightarrow> u32"
  keyDup :: "('k \<Rightarrow> 'k) option"
  valDup :: "('v \<Rightarrow> 'v) option"
  keyCompare :: "('k \<Rightarrow> 'k \<Rightarrow> bool) option"

record ('k, 'v) dictht =
  ht_table :: "('k, 'v) dictEntry list list"
  ht_size :: nat
  ht_sizemask :: nat
  ht_used :: nat

record ('k, 'v) dict =
  d_type :: "('k, 'v) dictType"
  d_ht0 :: "('k, 'v) dictht"
  d_ht1 :: "('k, 'v) dictht"
  d_rehashidx :: int
  d_iterators :: int

abbreviation (input) DICT_OK :: int where "DICT_OK \<equiv> 0"
abbreviation (input) DICT_ERR :: int where "DICT_ERR \<equiv> 1"

definition DICT_HT_INITIAL_SIZE :: nat where "DICT_HT_INITIAL_SIZE = 4"
definition dict_force_resize_ratio :: nat where "dict_force_resize_ratio = 5"
definition LONG_MAX :: nat where "LONG_MAX = 9223372036854775807"

section \<open>Hash functions\<close>

text \<open>Thomas Wang's 32 bit mix function, on \<open>unsigned int\<close>.\<close>

definition dictIntHashFunction :: "u32 \<Rightarrow> u32" where
  "dictIntHashFunction key0 =
     (let key1 = key0 + NOT (push_bit 15 key0);
          key2 = key1 XOR drop_bit 10 key1;
          key3 = key2 + push_bit 3 key2;
          key4 = key3 XOR drop_bit 6 key3;
          key5 = key4 + NOT (push_bit 11 key4)
      in key5 XOR drop_bit 16 key5)"

definition dictIdentityHashFunction :: "u32 \<Rightarrow> u32" where
  "dictIdentityHashFunction key = key"

text \<open>MurmurHash2 over the bytes of the key; four bytes are read as a little-endian word.\<close>

definition le32 :: "char \<Rightarrow> char \<Rightarrow> char \<Rightarrow> char \<Rightarrow> u32" where
  "le32 b0 b1 b2 b3 =
     of_nat (code b0) + push_bit 8 (of_nat (code b1)) + push_bit 16 (of_nat (code b2)) +
     push_bit 24 (of_nat (code b3))"

abbreviation (input) murmur_m :: u32 where "murmur_m \<equiv> 0x5bd1e995"

fun murmur_loop :: "string \<Rightarrow> u32 \<Rightarrow> u32" where
  "murmur_loop (b0 # b1 # b2 # b3 # data) h =
     (let k0 = le32 b0 b1 b2 b3 * murmur_m;
          k1 = (k0 XOR drop_bit 24 k0) * murmur_m
      in murmur_loop data ((h * murmur_m) XOR k1))"
| "murmur_loop [b0, b1, b2] h =
     (let h2 = h XOR push_bit 16 (of_nat (code b2)); h1 = h2 XOR push_bit 8 (of_nat (code b1))
      in (h1 XOR of_nat (code b0)) * murmur_m)"
| "murmur_loop [b0, b1] h =
     (let h1 = h XOR push_bit 8 (of_nat (code b1)) in (h1 XOR of_nat (code b0)) * murmur_m)"
| "murmur_loop [b0] h = (h XOR of_nat (code b0)) * murmur_m"
| "murmur_loop [] h = h"

definition dictGenHashFunction :: "u32 \<Rightarrow> string \<Rightarrow> u32" where
  "dictGenHashFunction seed key =
     (let h0 = murmur_loop key (seed XOR of_nat (length key));
          h1 = (h0 XOR drop_bit 13 h0) * murmur_m
      in h1 XOR drop_bit 15 h1)"

text \<open>The case insensitive hash, a djb hash over the folded bytes.\<close>

definition dictGenCaseHashFunction :: "u32 \<Rightarrow> string \<Rightarrow> u32" where
  "dictGenCaseHashFunction seed buf =
     foldl (\<lambda>hash c. (push_bit 5 hash + hash) + of_nat (code (tolower c))) seed buf"

section \<open>Creation and expansion\<close>

definition dictReset :: "('k, 'v) dictht" where
  "dictReset = \<lparr>ht_table = [], ht_size = 0, ht_sizemask = 0, ht_used = 0\<rparr>"

definition dictCreate :: "('k, 'v) dictType \<Rightarrow> ('k, 'v) dict" where
  "dictCreate type =
     \<lparr>d_type = type, d_ht0 = dictReset, d_ht1 = dictReset, d_rehashidx = -1, d_iterators = 0\<rparr>"

definition dictIsRehashing :: "('k, 'v) dict \<Rightarrow> bool" where
  "dictIsRehashing d \<longleftrightarrow> d_rehashidx d \<noteq> -1"

definition dictSize :: "('k, 'v) dict \<Rightarrow> nat" where
  "dictSize d = ht_used (d_ht0 d) + ht_used (d_ht1 d)"

text \<open>
  \<open>_dictNextPower\<close>.  The loop starts at 4 and doubles, so \<open>i\<close> is never 0 (the second disjunct
  only makes the recursion total); below \<open>LONG_MAX\<close> it stops before \<open>i\<close> can wrap.
\<close>

function next_power_loop :: "nat \<Rightarrow> nat \<Rightarrow> nat" where
  "next_power_loop i sz = (if sz \<le> i \<or> i = 0 then i else next_power_loop (i * 2) sz)"
  by pat_completeness auto
termination
  by (relation "measure (\<lambda>(i, sz). sz - i)") auto

declare next_power_loop.simps [simp del]

definition dictNextPower :: "nat \<Rightarrow> nat" where
  "dictNextPower sz =
     (if LONG_MAX \<le> sz then LONG_MAX else next_power_loop DICT_HT_INITIAL_SIZE sz)"

definition dictExpand :: "('k, 'v) dict \<Rightarrow> nat \<Rightarrow> int \<times> ('k, 'v) dict" where
  "dictExpand d sz =
     (let realsize = dictNextPower sz
      in if dictIsRehashing d \<or> sz < ht_used (d_ht0 d) then (DICT_ERR, d)
         else let n = \<lparr>ht_table = replicate realsize [], ht_size = realsize,
                       ht_sizemask = realsize - 1, ht_used = 0\<rparr>
              in if ht_table (d_ht0 d) = [] then (DICT_OK, d\<lparr>d_ht0 := n\<rparr>)
                 else (DICT_OK, d\<lparr>d_ht1 := n, d_rehashidx := 0\<rparr>))"

text \<open>
  \<open>dictResize\<close>: \<open>minimal\<close> is an \<open>int\<close> that receives an \<open>unsigned long\<close>.
  \<open>can_resize\<close> is the global \<open>dict_can_resize\<close>.
\<close>

definition dictResize :: "bool \<Rightarrow> ('k, 'v) dict \<Rightarrow> int \<times> ('k, 'v) dict" where
  "dictResize can_resize d =
     (if \<not> can_resize \<or> dictIsRehashing d then (DICT_ERR, d)
      else let minimal = to_int32 (int (ht_used (d_ht0 d)))
           in dictExpand d (nat (if minimal < int DICT_HT_INITIAL_SIZE
                                 then int DICT_HT_INITIAL_SIZE else minimal)))"

definition dictExpandIfNeeded :: "bool \<Rightarrow> ('k, 'v) dict \<Rightarrow> int \<times> ('k, 'v) dict" where
  "dictExpandIfNeeded can_resize d =
     (let sz = ht_size (d_ht0 d); used = ht_used (d_ht0 d)
      in if dictIsRehashing d then (DICT_OK, d)
         else if sz = 0 then dictExpand d DICT_HT_INITIAL_SIZE
         else if sz \<le> used \<and> (can_resize \<or> dict_force_resize_ratio < used div sz) then
           dictExpand d ((if used < sz then sz else used) * 2)
         else (DICT_OK, d))"

section \<open>Incremental rehashing\<close>

text \<open>\<open>dictHashKey(d,key) & sizemask\<close>: the hash has 32 bits, so the index has too.\<close>

definition hash_idx :: "('k, 'v) dictType \<Rightarrow> nat \<Rightarrow> 'k \<Rightarrow> nat" where
  "hash_idx type sizemask k = unat (hashFunction type k) AND sizemask"

text \<open>\<open>while(d->ht[0].table[d->rehashidx] == NULL) d->rehashidx++\<close>\<close>

function next_bucket :: "'a list list \<Rightarrow> nat \<Rightarrow> nat" where
  "next_bucket tbl i = (if i < length tbl \<and> tbl ! i = [] then next_bucket tbl (Suc i) else i)"
  by pat_completeness auto
termination
  by (relation "measure (\<lambda>(tbl, i). length tbl - i)") auto

declare next_bucket.simps [simp del]

text \<open>The inner loop of \<open>dictRehash\<close>: move a chain to the second table, entry by entry.\<close>

definition move_entry ::
    "('k, 'v) dictType \<Rightarrow> ('k, 'v) dictEntry \<Rightarrow> ('k, 'v) dictht \<Rightarrow> ('k, 'v) dictht" where
  "move_entry type de ht =
     (let h = hash_idx type (ht_sizemask ht) (de_key de)
      in ht\<lparr>ht_table := (ht_table ht)[h := de # ht_table ht ! h], ht_used := Suc (ht_used ht)\<rparr>)"

definition rehash_bucket :: "('k, 'v) dict \<Rightarrow> ('k, 'v) dict" where
  "rehash_bucket d =
     (let i = next_bucket (ht_table (d_ht0 d)) (nat (d_rehashidx d));
          chain = ht_table (d_ht0 d) ! i
      in d\<lparr>d_ht0 := (d_ht0 d)\<lparr>ht_table := (ht_table (d_ht0 d))[i := []],
                              ht_used := ht_used (d_ht0 d) - length chain\<rparr>,
           d_ht1 := fold (move_entry (d_type d)) chain (d_ht1 d),
           d_rehashidx := int (Suc i)\<rparr>)"

fun rehash_loop :: "nat \<Rightarrow> ('k, 'v) dict \<Rightarrow> int \<times> ('k, 'v) dict" where
  "rehash_loop 0 d = (1, d)"
| "rehash_loop (Suc n) d =
     (if ht_used (d_ht0 d) = 0
      then (0, d\<lparr>d_ht0 := d_ht1 d, d_ht1 := dictReset, d_rehashidx := -1\<rparr>)
      else rehash_loop n (rehash_bucket d))"

definition dictRehash :: "('k, 'v) dict \<Rightarrow> nat \<Rightarrow> int \<times> ('k, 'v) dict" where
  "dictRehash d n = (if \<not> dictIsRehashing d then (0, d) else rehash_loop n d)"

definition dictRehashStep :: "('k, 'v) dict \<Rightarrow> ('k, 'v) dict" where
  "dictRehashStep d = (if d_iterators d = 0 then snd (dictRehash d 1) else d)"

text \<open>
  \<open>dictRehashMilliseconds\<close>: \<open>elapsed\<close> lists the values of \<open>timeInMilliseconds()-start\<close> that
  the successive readings of the clock give; the loop stops when one exceeds \<open>ms\<close>.  \<open>None\<close>
  means that the list was too short for the run.
\<close>

fun dictRehashMilliseconds ::
    "('k, 'v) dict \<Rightarrow> int \<Rightarrow> int list \<Rightarrow> int \<Rightarrow> (int \<times> ('k, 'v) dict) option" where
  "dictRehashMilliseconds d ms [] rehashes =
     (let (r, d') = dictRehash d 100 in if r = 0 then Some (rehashes, d') else None)"
| "dictRehashMilliseconds d ms (t # elapsed) rehashes =
     (let (r, d') = dictRehash d 100
      in if r = 0 then Some (rehashes, d')
         else if ms < t then Some (rehashes + 100, d')
         else dictRehashMilliseconds d' ms elapsed (rehashes + 100))"

section \<open>Search\<close>

definition dictCompareKeys :: "('k, 'v) dictType \<Rightarrow> 'k \<Rightarrow> 'k \<Rightarrow> bool" where
  "dictCompareKeys type k1 k2 = (case keyCompare type of None \<Rightarrow> k1 = k2 | Some f \<Rightarrow> f k1 k2)"

text \<open>The walk along one chain: the position of the first entry with the key.\<close>

fun chain_index :: "('k, 'v) dictType \<Rightarrow> 'k \<Rightarrow> ('k, 'v) dictEntry list \<Rightarrow> nat option" where
  "chain_index type k [] = None"
| "chain_index type k (he # chain) =
     (if dictCompareKeys type k (de_key he) then Some 0
      else map_option Suc (chain_index type k chain))"

text \<open>
  A pointer to an entry is its table (0 or 1), bucket and position in the chain.
  \<open>dict_search\<close> is the loop \<open>for (table = 0; table <= 1; table++)\<close> that \<open>dictFind\<close>,
  \<open>dictGenericDelete\<close> and \<open>_dictKeyIndex\<close> share.
\<close>

type_synonym entry_ref = "nat \<times> nat \<times> nat"

definition dict_search :: "('k, 'v) dict \<Rightarrow> 'k \<Rightarrow> entry_ref option" where
  "dict_search d k =
     (let idx0 = hash_idx (d_type d) (ht_sizemask (d_ht0 d)) k;
          idx1 = hash_idx (d_type d) (ht_sizemask (d_ht1 d)) k
      in case chain_index (d_type d) k (ht_table (d_ht0 d) ! idx0) of
           Some pos \<Rightarrow> Some (0, idx0, pos)
         | None \<Rightarrow>
             if \<not> dictIsRehashing d then None
             else map_option (\<lambda>pos. (1, idx1, pos))
                    (chain_index (d_type d) k (ht_table (d_ht1 d) ! idx1)))"

fun deref :: "('k, 'v) dict \<Rightarrow> entry_ref \<Rightarrow> ('k, 'v) dictEntry" where
  "deref d (t, idx, pos) = ht_table (if t = 0 then d_ht0 d else d_ht1 d) ! idx ! pos"

definition dictFind :: "('k, 'v) dict \<Rightarrow> 'k \<Rightarrow> entry_ref option \<times> ('k, 'v) dict" where
  "dictFind d k =
     (if ht_size (d_ht0 d) = 0 then (None, d)
      else let d' = (if dictIsRehashing d then dictRehashStep d else d)
           in (dict_search d' k, d'))"

definition dictFetchValue :: "('k, 'v) dict \<Rightarrow> 'k \<Rightarrow> 'v option \<times> ('k, 'v) dict" where
  "dictFetchValue d k =
     (let (he, d') = dictFind d k in (map_option (\<lambda>r. de_val (deref d' r)) he, d'))"

section \<open>Insertion\<close>

text \<open>\<open>_dictKeyIndex\<close> returns an \<open>int\<close>: the bucket index, or \<open>-1\<close> if the key exists.\<close>

definition dictKeyIndex :: "bool \<Rightarrow> ('k, 'v) dict \<Rightarrow> 'k \<Rightarrow> int \<times> ('k, 'v) dict" where
  "dictKeyIndex can_resize d k =
     (let (r, d') = dictExpandIfNeeded can_resize d
      in if r = DICT_ERR then (-1, d')
         else if dict_search d' k \<noteq> None then (-1, d')
         else let mask = (if dictIsRehashing d' then ht_sizemask (d_ht1 d')
                          else ht_sizemask (d_ht0 d'))
              in (to_int32 (int (hash_idx (d_type d') mask k)), d'))"

definition ht_push :: "nat \<Rightarrow> ('k, 'v) dictEntry \<Rightarrow> ('k, 'v) dictht \<Rightarrow> ('k, 'v) dictht" where
  "ht_push index entry ht =
     ht\<lparr>ht_table := (ht_table ht)[index := entry # ht_table ht ! index], ht_used := Suc (ht_used ht)\<rparr>"

text \<open>
  \<open>dictAddRaw\<close>: a pointer to the new entry, or \<open>None\<close>.  The value field of the fresh entry is
  not initialised; \<open>junk\<close> is whatever the allocator left there.
\<close>

definition dictAddRaw ::
    "bool \<Rightarrow> ('k, 'v) dict \<Rightarrow> 'k \<Rightarrow> 'v \<Rightarrow> entry_ref option \<times> ('k, 'v) dict" where
  "dictAddRaw can_resize d k junk =
     (let d1 = (if dictIsRehashing d then dictRehashStep d else d);
          (index, d2) = dictKeyIndex can_resize d1 k
      in if index = -1 then (None, d2)
         else let key = (case keyDup (d_type d2) of None \<Rightarrow> k | Some dup \<Rightarrow> dup k);
                  entry = \<lparr>de_key = key, de_val = junk\<rparr>
              in if dictIsRehashing d2
                 then (Some (1, nat index, 0), d2\<lparr>d_ht1 := ht_push (nat index) entry (d_ht1 d2)\<rparr>)
                 else (Some (0, nat index, 0), d2\<lparr>d_ht0 := ht_push (nat index) entry (d_ht0 d2)\<rparr>))"

definition set_val_at :: "nat \<Rightarrow> nat \<Rightarrow> 'v \<Rightarrow> ('k, 'v) dictht \<Rightarrow> ('k, 'v) dictht" where
  "set_val_at idx pos v ht =
     ht\<lparr>ht_table := (ht_table ht)[idx := (ht_table ht ! idx)
          [pos := (ht_table ht ! idx ! pos)\<lparr>de_val := v\<rparr>]]\<rparr>"

fun dictSetVal :: "('k, 'v) dict \<Rightarrow> entry_ref \<Rightarrow> 'v \<Rightarrow> ('k, 'v) dict" where
  "dictSetVal d (t, idx, pos) v =
     (let v' = (case valDup (d_type d) of None \<Rightarrow> v | Some dup \<Rightarrow> dup v)
      in if t = 0 then d\<lparr>d_ht0 := set_val_at idx pos v' (d_ht0 d)\<rparr>
         else d\<lparr>d_ht1 := set_val_at idx pos v' (d_ht1 d)\<rparr>)"

definition dictAdd :: "bool \<Rightarrow> ('k, 'v) dict \<Rightarrow> 'k \<Rightarrow> 'v \<Rightarrow> int \<times> ('k, 'v) dict" where
  "dictAdd can_resize d k v =
     (case dictAddRaw can_resize d k v of
        (None, d') \<Rightarrow> (DICT_ERR, d')
      | (Some entry, d') \<Rightarrow> (DICT_OK, dictSetVal d' entry v))"

text \<open>
  \<open>dictReplace\<close> returns 1 for a new key and 0 for an update, and, as third component, the
  value that \<open>dictFreeVal\<close> releases.  \<open>None\<close> is the use of a \<open>NULL\<close> entry.
\<close>

definition dictReplace ::
    "bool \<Rightarrow> ('k, 'v) dict \<Rightarrow> 'k \<Rightarrow> 'v \<Rightarrow> (int \<times> ('k, 'v) dict \<times> 'v list) option" where
  "dictReplace can_resize d k v =
     (let (r, d1) = dictAdd can_resize d k v
      in if r = DICT_OK then Some (1, d1, [])
         else case dictFind d1 k of
                (None, d2) \<Rightarrow> None
              | (Some entry, d2) \<Rightarrow> Some (0, dictSetVal d2 entry v, [de_val (deref d2 entry)]))"

definition dictReplaceRaw ::
    "bool \<Rightarrow> ('k, 'v) dict \<Rightarrow> 'k \<Rightarrow> 'v \<Rightarrow> entry_ref option \<times> ('k, 'v) dict" where
  "dictReplaceRaw can_resize d k junk =
     (case dictFind d k of
        (Some entry, d') \<Rightarrow> (Some entry, d')
      | (None, d') \<Rightarrow> dictAddRaw can_resize d' k junk)"

section \<open>Deletion\<close>

definition ht_unlink :: "nat \<Rightarrow> nat \<Rightarrow> ('k, 'v) dictht \<Rightarrow> ('k, 'v) dictht" where
  "ht_unlink idx pos ht =
     ht\<lparr>ht_table := (ht_table ht)[idx := take pos (ht_table ht ! idx) @ drop (Suc pos) (ht_table ht ! idx)],
        ht_used := ht_used ht - 1\<rparr>"

text \<open>The last component lists the entries whose key and value are released.\<close>

definition dictGenericDelete ::
    "('k, 'v) dict \<Rightarrow> 'k \<Rightarrow> bool \<Rightarrow> int \<times> ('k, 'v) dict \<times> ('k, 'v) dictEntry list" where
  "dictGenericDelete d k nofree =
     (if ht_size (d_ht0 d) = 0 then (DICT_ERR, d, [])
      else let d' = (if dictIsRehashing d then dictRehashStep d else d)
           in case dict_search d' k of
                None \<Rightarrow> (DICT_ERR, d', [])
              | Some (t, idx, pos) \<Rightarrow>
                  (DICT_OK,
                   if t = 0 then d'\<lparr>d_ht0 := ht_unlink idx pos (d_ht0 d')\<rparr>
                   else d'\<lparr>d_ht1 := ht_unlink idx pos (d_ht1 d')\<rparr>,
                   if nofree then [] else [deref d' (t, idx, pos)]))"

definition dictDelete ::
    "('k, 'v) dict \<Rightarrow> 'k \<Rightarrow> int \<times> ('k, 'v) dict \<times> ('k, 'v) dictEntry list" where
  "dictDelete d k = dictGenericDelete d k False"

definition dictDeleteNoFree ::
    "('k, 'v) dict \<Rightarrow> 'k \<Rightarrow> int \<times> ('k, 'v) dict \<times> ('k, 'v) dictEntry list" where
  "dictDeleteNoFree d k = dictGenericDelete d k True"

text \<open>\<open>_dictClear\<close>: the entries released, in order; the walk stops when \<open>used\<close> reaches 0.\<close>

fun clear_loop :: "('k, 'v) dictEntry list list \<Rightarrow> nat \<Rightarrow> ('k, 'v) dictEntry list" where
  "clear_loop [] used = []"
| "clear_loop (chain # tbl) used =
     (if used = 0 then [] else chain @ clear_loop tbl (used - length chain))"

definition dictClear :: "('k, 'v) dictht \<Rightarrow> ('k, 'v) dictht \<times> ('k, 'v) dictEntry list" where
  "dictClear ht = (dictReset, clear_loop (ht_table ht) (ht_used ht))"

text \<open>\<open>dictRelease\<close> also frees the dictionary itself: what is left is the list of releases.\<close>

definition dictRelease :: "('k, 'v) dict \<Rightarrow> ('k, 'v) dictEntry list" where
  "dictRelease d = snd (dictClear (d_ht0 d)) @ snd (dictClear (d_ht1 d))"

definition dictEmpty :: "('k, 'v) dict \<Rightarrow> ('k, 'v) dict \<times> ('k, 'v) dictEntry list" where
  "dictEmpty d =
     (let (h0, f0) = dictClear (d_ht0 d); (h1, f1) = dictClear (d_ht1 d)
      in (d\<lparr>d_ht0 := h0, d_ht1 := h1, d_rehashidx := -1, d_iterators := 0\<rparr>, f0 @ f1))"

section \<open>Iteration\<close>

text \<open>The 64 bit integer hash step of \<open>dictFingerprint\<close>; \<open>>>\<close> on \<open>long long\<close> keeps the sign.\<close>

definition fingerprint_mix :: "u64 \<Rightarrow> u64" where
  "fingerprint_mix hash0 =
     (let hash1 = NOT hash0 + push_bit 21 hash0;
          hash2 = hash1 XOR signed_drop_bit 24 hash1;
          hash3 = (hash2 + push_bit 3 hash2) + push_bit 8 hash2;
          hash4 = hash3 XOR signed_drop_bit 14 hash3;
          hash5 = (hash4 + push_bit 2 hash4) + push_bit 4 hash4;
          hash6 = hash5 XOR signed_drop_bit 28 hash5
      in hash6 + push_bit 31 hash6)"

text \<open>\<open>addr0\<close> and \<open>addr1\<close> are the addresses of the two table arrays.\<close>

definition dictFingerprint :: "u64 \<Rightarrow> u64 \<Rightarrow> ('k, 'v) dict \<Rightarrow> u64" where
  "dictFingerprint addr0 addr1 d =
     foldl (\<lambda>hash i. fingerprint_mix (hash + i)) 0
       [addr0, of_nat (ht_size (d_ht0 d)), of_nat (ht_used (d_ht0 d)),
        addr1, of_nat (ht_size (d_ht1 d)), of_nat (ht_used (d_ht1 d))]"

text \<open>
  An iterator holds pointers to the entry it returned and to the next one in the chain.  The
  entries of a dictionary have distinct keys, so the model names an entry by its key; this
  keeps the pointer valid when the user deletes or inserts other entries of the chain.
\<close>

record 'k dictIterator =
  it_table :: nat
  it_index :: int
  it_safe :: bool
  it_entry :: "'k option"
  it_nextEntry :: "'k option"
  it_fingerprint :: u64

definition dictGetIterator :: "'k dictIterator" where
  "dictGetIterator = \<lparr>it_table = 0, it_index = -1, it_safe = False, it_entry = None,
                      it_nextEntry = None, it_fingerprint = 0\<rparr>"

definition dictGetSafeIterator :: "'k dictIterator" where
  "dictGetSafeIterator = dictGetIterator\<lparr>it_safe := True\<rparr>"

definition iter_table :: "('k, 'v) dict \<Rightarrow> 'k dictIterator \<Rightarrow> ('k, 'v) dictEntry list list" where
  "iter_table d it = ht_table (if it_table it = 0 then d_ht0 d else d_ht1 d)"

definition bucket_head :: "('k, 'v) dictEntry list \<Rightarrow> 'k option" where
  "bucket_head chain = (case chain of [] \<Rightarrow> None | e # _ \<Rightarrow> Some (de_key e))"

definition chain_next :: "'k \<Rightarrow> ('k, 'v) dictEntry list \<Rightarrow> 'k option" where
  "chain_next k chain = bucket_head (tl (dropWhile (\<lambda>e. de_key e \<noteq> k) chain))"

text \<open>
  One turn of the \<open>while (1)\<close> loop: \<open>Inl\<close> is \<open>break\<close>, \<open>Inr\<close> has the new \<open>entry\<close> set.  The size of the
  table is read as an \<open>int\<close> (the cast \<open>(signed)\<close>), so a table of \<open>2 ^ 31\<close> chains looks negative and ends the
  loop at once; an index that passed the test is less than that \<open>int\<close> and does not overflow.
\<close>

definition iter_advance ::
    "('k, 'v) dict \<Rightarrow> 'k dictIterator \<Rightarrow> 'k dictIterator + 'k dictIterator" where
  "iter_advance d it =
     (case it_entry it of
        None \<Rightarrow>
          let i = it_index it + 1; it1 = it\<lparr>it_index := i\<rparr>
          in if to_int32 (int (ht_size (if it_table it = 0 then d_ht0 d else d_ht1 d))) \<le> i then
               if dictIsRehashing d \<and> it_table it = 0
               then Inr (it\<lparr>it_table := 1, it_index := 0,
                            it_entry := bucket_head (ht_table (d_ht1 d) ! 0)\<rparr>)
               else Inl it1
             else Inr (it1\<lparr>it_entry := bucket_head (iter_table d it ! nat i)\<rparr>)
      | Some _ \<Rightarrow> Inr (it\<lparr>it_entry := it_nextEntry it\<rparr>))"

function iter_loop :: "('k, 'v) dict \<Rightarrow> 'k dictIterator \<Rightarrow> 'k option \<times> 'k dictIterator" where
  "iter_loop d it =
     (case iter_advance d it of
        Inl it' \<Rightarrow> (None, it')
      | Inr it' \<Rightarrow>
          (case it_entry it' of
             Some k \<Rightarrow>
               (Some k, it'\<lparr>it_nextEntry := chain_next k (iter_table d it' ! nat (it_index it'))\<rparr>)
           | None \<Rightarrow> iter_loop d it'))"
  by pat_completeness auto
termination
  by (relation "measures
        [\<lambda>(d, it). if it_table it = 0 then 1 else 0,
         \<lambda>(d, it). nat (to_int32 (int (ht_size (if it_table it = 0 then d_ht0 d else d_ht1 d))) - it_index it),
         \<lambda>(d, it). if it_entry it = None then 0 else 1]")
     (auto simp: iter_advance_def Let_def split: option.splits if_splits)

declare iter_loop.simps [simp del]

text \<open>\<open>dictNext\<close>: the first call registers a safe iterator or takes the fingerprint.\<close>

definition dictNext ::
    "u64 \<Rightarrow> u64 \<Rightarrow> ('k, 'v) dict \<Rightarrow> 'k dictIterator \<Rightarrow> 'k option \<times> 'k dictIterator \<times> ('k, 'v) dict" where
  "dictNext addr0 addr1 d it =
     (let first = (it_entry it = None \<and> it_index it = -1 \<and> it_table it = 0);
          d1 = (if first \<and> it_safe it then d\<lparr>d_iterators := d_iterators d + 1\<rparr> else d);
          it1 = (if first \<and> \<not> it_safe it
                 then it\<lparr>it_fingerprint := dictFingerprint addr0 addr1 d\<rparr> else it);
          (r, it2) = iter_loop d1 it1
      in (r, it2, d1))"

text \<open>\<open>dictReleaseIterator\<close>; the second component is false if its assertion fails.\<close>

definition dictReleaseIterator ::
    "u64 \<Rightarrow> u64 \<Rightarrow> ('k, 'v) dict \<Rightarrow> 'k dictIterator \<Rightarrow> ('k, 'v) dict \<times> bool" where
  "dictReleaseIterator addr0 addr1 d it =
     (if \<not> (it_index it = -1 \<and> it_table it = 0) then
        if it_safe it then (d\<lparr>d_iterators := d_iterators d - 1\<rparr>, True)
        else (d, it_fingerprint it = dictFingerprint addr0 addr1 d)
      else (d, True))"

text \<open>The usual loop \<open>while((de = dictNext(di)) != NULL)\<close>, cut off after \<open>fuel\<close> turns.\<close>

fun iterate :: "nat \<Rightarrow> ('k, 'v) dict \<Rightarrow> 'k dictIterator \<Rightarrow> 'k list" where
  "iterate 0 d it = []"
| "iterate (Suc fuel) d it =
     (case dictNext 0 0 d it of
        (None, _, _) \<Rightarrow> []
      | (Some k, it', d') \<Rightarrow> k # iterate fuel d' it')"

section \<open>Random entries\<close>

text \<open>
  \<open>random()\<close> is a stream of numbers.  \<open>pick_bucket\<close> is the \<open>do \<dots> while(he == NULL)\<close> loop:
  the chain found and what is left of the stream; \<open>None\<close> means the stream ended first.
\<close>

fun pick_bucket :: "(nat \<Rightarrow> 'a list) \<Rightarrow> nat list \<Rightarrow> ('a list \<times> nat list) option" where
  "pick_bucket bucket [] = None"
| "pick_bucket bucket (r # rs) =
     (if bucket r = [] then pick_bucket bucket rs else Some (bucket r, rs))"

definition random_bucket :: "('k, 'v) dict \<Rightarrow> nat \<Rightarrow> ('k, 'v) dictEntry list" where
  "random_bucket d r =
     (if dictIsRehashing d then
        let h = r mod (ht_size (d_ht0 d) + ht_size (d_ht1 d))
        in if ht_size (d_ht0 d) \<le> h then ht_table (d_ht1 d) ! (h - ht_size (d_ht0 d))
           else ht_table (d_ht0 d) ! h
      else ht_table (d_ht0 d) ! (r AND ht_sizemask (d_ht0 d)))"

text \<open>\<open>Some None\<close> is \<open>return NULL\<close>.\<close>

definition dictGetRandomKey ::
    "('k, 'v) dict \<Rightarrow> nat list \<Rightarrow> ('k, 'v) dictEntry option option \<times> ('k, 'v) dict" where
  "dictGetRandomKey d rs =
     (if dictSize d = 0 then (Some None, d)
      else let d' = (if dictIsRehashing d then dictRehashStep d else d)
           in (case pick_bucket (random_bucket d') rs of
                 Some (chain, r # _) \<Rightarrow> Some (Some (chain ! (r mod length chain)))
               | _ \<Rightarrow> None, d'))"

section \<open>Invariant and abstraction\<close>

definition ht_entries :: "('k, 'v) dictht \<Rightarrow> ('k, 'v) dictEntry list" where
  "ht_entries ht = concat (ht_table ht)"

definition dict_entries :: "('k, 'v) dict \<Rightarrow> ('k, 'v) dictEntry list" where
  "dict_entries d = ht_entries (d_ht0 d) @ ht_entries (d_ht1 d)"

definition dict_map :: "('k, 'v) dict \<Rightarrow> 'k \<Rightarrow> 'v option" where
  "dict_map d = map_of (map (\<lambda>e. (de_key e, de_val e)) (dict_entries d))"

text \<open>Keys are compared by equality and duplicated faithfully.\<close>

definition type_ok :: "('k, 'v) dictType \<Rightarrow> bool" where
  "type_ok type \<longleftrightarrow>
     (\<forall>k1 k2. dictCompareKeys type k1 k2 \<longleftrightarrow> k1 = k2) \<and>
     (\<forall>dup k. keyDup type = Some dup \<longrightarrow> dup k = k) \<and>
     (\<forall>dup v. valDup type = Some dup \<longrightarrow> dup v = v)"

text \<open>A table has a power-of-two size, counts its entries and holds each in its bucket.\<close>

definition size_ok :: "nat \<Rightarrow> nat \<Rightarrow> bool" where
  "size_ok sz msk \<longleftrightarrow> sz = 0 \<and> msk = 0 \<or> (\<exists>n\<le>31. sz = 2 ^ n \<and> msk = 2 ^ n - 1)"

definition ht_wf :: "('k, 'v) dictType \<Rightarrow> ('k, 'v) dictht \<Rightarrow> bool" where
  "ht_wf type ht \<longleftrightarrow>
     ht_size ht = length (ht_table ht) \<and>
     size_ok (ht_size ht) (ht_sizemask ht) \<and>
     ht_used ht = length (ht_entries ht) \<and>
     (\<forall>i<length (ht_table ht). \<forall>e\<in>set (ht_table ht ! i). hash_idx type (ht_sizemask ht) (de_key e) = i)"

definition dict_wf :: "('k, 'v) dict \<Rightarrow> bool" where
  "dict_wf d \<longleftrightarrow>
     type_ok (d_type d) \<and> ht_wf (d_type d) (d_ht0 d) \<and> ht_wf (d_type d) (d_ht1 d) \<and>
     distinct (map de_key (dict_entries d)) \<and>
     (if dictIsRehashing d
      then 0 \<le> d_rehashidx d \<and> 0 < ht_size (d_ht0 d) \<and> 0 < ht_size (d_ht1 d) \<and>
           (\<forall>i<nat (d_rehashidx d). i < ht_size (d_ht0 d) \<longrightarrow> ht_table (d_ht0 d) ! i = [])
      else d_ht1 d = dictReset)"

section \<open>Tables\<close>

lemma ht_wf_size: "ht_wf type ht \<Longrightarrow> ht_size ht = length (ht_table ht)"
  by (simp add: ht_wf_def)

lemma ht_wf_used: "ht_wf type ht \<Longrightarrow> ht_used ht = length (ht_entries ht)"
  by (simp add: ht_wf_def)

lemma ht_wf_power:
  assumes "ht_wf type ht" "0 < ht_size ht"
  obtains n where "n \<le> 31" "ht_size ht = 2 ^ n" "ht_sizemask ht = 2 ^ n - 1"
  using assms unfolding ht_wf_def size_ok_def by (elim conjE disjE exE) auto

lemma ht_wf_hash:
  "ht_wf type ht \<Longrightarrow> i < length (ht_table ht) \<Longrightarrow> e \<in> set (ht_table ht ! i) \<Longrightarrow>
     hash_idx type (ht_sizemask ht) (de_key e) = i"
  by (simp add: ht_wf_def)

lemma ht_wf_cong:
  "ht_wf type ht \<Longrightarrow> length (ht_table ht') = length (ht_table ht) \<Longrightarrow> ht_size ht' = ht_size ht \<Longrightarrow>
   ht_sizemask ht' = ht_sizemask ht \<Longrightarrow> ht_used ht' = length (ht_entries ht') \<Longrightarrow>
   (\<forall>j<length (ht_table ht'). \<forall>e\<in>set (ht_table ht' ! j). hash_idx type (ht_sizemask ht) (de_key e) = j) \<Longrightarrow>
   ht_wf type ht'"
  unfolding ht_wf_def by (elim conjE) (intro conjI, simp_all)

lemma hash_idx_less:
  assumes "ht_wf type ht" "0 < ht_size ht"
  shows "hash_idx type (ht_sizemask ht) k < length (ht_table ht)"
proof -
  obtain n where n: "ht_size ht = 2 ^ n" "ht_sizemask ht = 2 ^ n - 1"
    using assms by (rule ht_wf_power)
  have "unat (hashFunction type k) AND (2 ^ n - 1) = take_bit n (unat (hashFunction type k))"
    by (simp add: take_bit_eq_mask mask_eq_exp_minus_1)
  then have "hash_idx type (ht_sizemask ht) k < ht_size ht"
    using n by (simp add: hash_idx_def take_bit_nat_less_exp)
  then show ?thesis using assms by (simp add: ht_wf_size)
qed

lemma ht_wf_bucket_bound: "ht_wf type ht \<Longrightarrow> i < length (ht_table ht) \<Longrightarrow> int i \<le> INT32_MAX"
proof -
  assume ht: "ht_wf type ht" and i: "i < length (ht_table ht)"
  then have "0 < ht_size ht" by (cases "ht_table ht") (simp_all add: ht_wf_size)
  with ht obtain n where "length (ht_table ht) = 2 ^ n" "n \<le> 31"
    by (metis ht_wf_power ht_wf_size)
  then have "length (ht_table ht) \<le> 2 ^ 31"
    using power_increasing [of n 31 "2::nat"] by simp
  with i have "i < 2147483648" by simp
  then show ?thesis by simp
qed

lemma ht_wf_reset [simp, wf_intros]: "ht_wf type dictReset"
  by (simp add: ht_wf_def dictReset_def ht_entries_def size_ok_def)

lemma ht_entries_reset [simp]: "ht_entries dictReset = []"
  by (simp add: ht_entries_def dictReset_def)

lemma reset_simps [simp]:
  "ht_size dictReset = 0" "ht_used dictReset = 0" "ht_table dictReset = []"
  by (simp_all add: dictReset_def)

text \<open>In a well-formed table, an entry with key \<open>k\<close> can only be in \<open>k\<close>'s bucket.\<close>

lemma bucket_complete:
  assumes "ht_wf type ht" and "e \<in> set (ht_entries ht)"
  shows "e \<in> set (ht_table ht ! hash_idx type (ht_sizemask ht) (de_key e))"
    and "0 < ht_size ht"
proof -
  obtain i where i: "i < length (ht_table ht)" "e \<in> set (ht_table ht ! i)"
    using assms(2) by (metis UN_E ht_entries_def in_set_conv_nth set_concat)
  then have "hash_idx type (ht_sizemask ht) (de_key e) = i"
    using assms(1) by (simp add: ht_wf_hash)
  then show "e \<in> set (ht_table ht ! hash_idx type (ht_sizemask ht) (de_key e))"
    using i by simp
  show "0 < ht_size ht" using assms(1) i(1) by (cases "ht_table ht") (simp_all add: ht_wf_size)
qed

lemma bucket_sound: "i < length (ht_table ht) \<Longrightarrow> set (ht_table ht ! i) \<subseteq> set (ht_entries ht)"
  by (auto simp: ht_entries_def intro: nth_mem)

lemma mset_concat_update:
  "i < length xss \<Longrightarrow>
     mset (concat (xss[i := ys])) + mset (xss ! i) = mset (concat xss) + mset ys"
proof (induction xss arbitrary: i)
  case (Cons xs xss)
  then show ?case by (cases i) (auto simp: ac_simps)
qed simp

lemma length_concat_update:
  "i < length xss \<Longrightarrow> length (concat (xss[i := ys])) + length (xss ! i) = length (concat xss) + length ys"
  using arg_cong [OF mset_concat_update, of i xss size ys] by simp

lemma chain_index_None:
  "type_ok type \<Longrightarrow> chain_index type k chain = None \<longleftrightarrow> k \<notin> de_key ` set chain"
  by (induction chain) (auto simp: type_ok_def)

lemma chain_index_Some:
  "type_ok type \<Longrightarrow> chain_index type k chain = Some pos \<Longrightarrow>
     pos < length chain \<and> de_key (chain ! pos) = k"
  by (induction chain arbitrary: pos) (auto simp: type_ok_def split: if_splits)

lemma chain_index_in_table:
  assumes "type_ok type" "ht_wf type ht" "0 < ht_size ht"
  shows "chain_index type k (ht_table ht ! hash_idx type (ht_sizemask ht) k) = None \<longleftrightarrow>
         k \<notin> de_key ` set (ht_entries ht)"
proof -
  let ?i = "hash_idx type (ht_sizemask ht) k"
  have "?i < length (ht_table ht)" using assms by (rule_tac hash_idx_less)
  then have "k \<in> de_key ` set (ht_entries ht) \<longleftrightarrow> k \<in> de_key ` set (ht_table ht ! ?i)"
    using bucket_complete [OF assms(2)] bucket_sound [of ?i ht] by fastforce
  then show ?thesis by (simp add: chain_index_None [OF assms(1)])
qed

section \<open>The map of a dictionary\<close>

lemma dict_map_Some:
  assumes "distinct (map de_key (dict_entries d))"
  shows "dict_map d k = Some v \<longleftrightarrow> (\<exists>e\<in>set (dict_entries d). de_key e = k \<and> de_val e = v)"
proof -
  have "distinct (map fst (map (\<lambda>e. (de_key e, de_val e)) (dict_entries d)))"
    using assms by (simp add: comp_def)
  then show ?thesis unfolding dict_map_def by (subst map_of_eq_Some_iff) auto
qed

lemma dict_map_None: "dict_map d k = None \<longleftrightarrow> k \<notin> de_key ` set (dict_entries d)"
  by (auto simp: dict_map_def map_of_eq_None_iff image_image)

text \<open>What the map is depends only on which entries there are.\<close>

lemma dict_map_cong:
  assumes "distinct (map de_key (dict_entries d))" "mset (dict_entries d') = mset (dict_entries d)"
  shows "dict_map d' = dict_map d" "distinct (map de_key (dict_entries d'))"
proof -
  have "mset (map de_key (dict_entries d')) = mset (map de_key (dict_entries d))"
    using assms(2) by (metis mset_map)
  with assms(1) show 1: "distinct (map de_key (dict_entries d'))"
    by (metis mset_eq_imp_distinct_iff)
  have "set (dict_entries d') = set (dict_entries d)" using assms(2) by (rule mset_eq_setD)
  then show "dict_map d' = dict_map d"
    using dict_map_Some [OF assms(1)] dict_map_Some [OF 1]
    by (intro ext option_eqI) simp
qed


section \<open>Powers of two\<close>

lemma next_power_loop_pow:
  "\<exists>n\<ge>m. next_power_loop (2 ^ m) sz = 2 ^ n \<and> sz \<le> 2 ^ n \<and> (n = m \<or> 2 ^ (n - 1) < sz)"
proof (induction "sz - 2 ^ m" arbitrary: m rule: less_induct)
  case less
  show ?case
  proof (cases "sz \<le> 2 ^ m")
    case True
    then show ?thesis by (subst next_power_loop.simps) auto
  next
    case False
    then have "sz - 2 ^ Suc m < sz - 2 ^ m" by (simp add: diff_less_mono2)
    from less [OF this] obtain n where n: "n \<ge> Suc m" "next_power_loop (2 ^ Suc m) sz = 2 ^ n"
      "sz \<le> 2 ^ n" "n = Suc m \<or> 2 ^ (n - 1) < sz" by blast
    moreover have "next_power_loop (2 ^ m) sz = next_power_loop (2 ^ Suc m) sz"
      using False by (subst next_power_loop.simps) (simp add: mult.commute)
    moreover have "2 ^ (n - 1) < sz" using n(4) False by auto
    ultimately show ?thesis by (intro exI [of _ n]) simp
  qed
qed

lemma dictNextPower_pow:
  assumes "sz < LONG_MAX"
  obtains n where "2 \<le> n" "dictNextPower sz = 2 ^ n" "sz \<le> 2 ^ n" "n = 2 \<or> 2 ^ (n - 1) < sz"
  using next_power_loop_pow [of 2 sz] assms
  by (auto simp: dictNextPower_def DICT_HT_INITIAL_SIZE_def)

lemma dictNextPower_bounded:
  assumes "sz \<le> 2 ^ 31"
  obtains n where "n \<le> 31" "dictNextPower sz = 2 ^ n"
proof -
  have "sz < LONG_MAX" using assms by (simp add: LONG_MAX_def)
  then obtain n where n: "dictNextPower sz = 2 ^ n" "n = 2 \<or> 2 ^ (n - 1) < sz"
    by (rule dictNextPower_pow)
  have "n \<le> 31"
  proof (rule ccontr)
    assume "\<not> n \<le> 31"
    then have "(2::nat) ^ 31 \<le> 2 ^ (n - 1)" by (intro power_increasing) simp_all
    with n(2) assms \<open>\<not> n \<le> 31\<close> show False by auto
  qed
  with n show ?thesis using that by blast
qed

section \<open>The operations on tables\<close>

lemma ht_wf_fresh:
  "n \<le> 31 \<Longrightarrow> ht_wf type \<lparr>ht_table = replicate (2 ^ n) [], ht_size = 2 ^ n, ht_sizemask = 2 ^ n - 1, ht_used = 0\<rparr>"
  by (auto simp: ht_wf_def ht_entries_def size_ok_def)

lemma ht_entries_fresh [simp]:
  "ht_entries \<lparr>ht_table = replicate n [], ht_size = s, ht_sizemask = m, ht_used = u\<rparr> = []"
  by (simp add: ht_entries_def)

lemma ht_push_props:
  assumes wf: "ht_wf type ht" and i: "i < length (ht_table ht)"
    and h: "hash_idx type (ht_sizemask ht) (de_key e) = i"
  shows "ht_wf type (ht_push i e ht)"
    and "mset (ht_entries (ht_push i e ht)) = add_mset e (mset (ht_entries ht))"
    and "ht_size (ht_push i e ht) = ht_size ht" "ht_sizemask (ht_push i e ht) = ht_sizemask ht"
proof -
  have len: "length (ht_entries (ht_push i e ht)) = Suc (length (ht_entries ht))"
    using length_concat_update [OF i, of "e # ht_table ht ! i"]
    by (simp add: ht_entries_def ht_push_def)
  show "mset (ht_entries (ht_push i e ht)) = add_mset e (mset (ht_entries ht))"
    using mset_concat_update [OF i, of "e # ht_table ht ! i"]
    by (simp add: ht_entries_def ht_push_def)
  show s: "ht_size (ht_push i e ht) = ht_size ht" "ht_sizemask (ht_push i e ht) = ht_sizemask ht"
    by (simp_all add: ht_push_def)
  show "ht_wf type (ht_push i e ht)"
    using wf i h len by (auto simp: ht_wf_def ht_push_def nth_list_update)
qed

lemma ht_unlink_props:
  assumes wf: "ht_wf type ht" and i: "i < length (ht_table ht)" and p: "p < length (ht_table ht ! i)"
  shows "ht_wf type (ht_unlink i p ht)"
    and "mset (ht_entries ht) = add_mset (ht_table ht ! i ! p) (mset (ht_entries (ht_unlink i p ht)))"
    and "ht_size (ht_unlink i p ht) = ht_size ht"
proof -
  let ?c = "take p (ht_table ht ! i) @ drop (Suc p) (ht_table ht ! i)"
  have c: "mset (ht_table ht ! i) = add_mset (ht_table ht ! i ! p) (mset ?c)"
    using p by (subst id_take_nth_drop [OF p]) simp
  have eq: "ht_entries (ht_unlink i p ht) = concat ((ht_table ht)[i := ?c])"
    by (simp add: ht_entries_def ht_unlink_def)
  show m: "mset (ht_entries ht) = add_mset (ht_table ht ! i ! p) (mset (ht_entries (ht_unlink i p ht)))"
    unfolding eq using mset_concat_update [OF i, of ?c] c by (simp add: ht_entries_def)
  have len: "length (ht_entries ht) = Suc (length (ht_entries (ht_unlink i p ht)))"
    using arg_cong [OF m, of size] by simp
  show s: "ht_size (ht_unlink i p ht) = ht_size ht" by (simp add: ht_unlink_def)
  have sub: "set ?c \<subseteq> set (ht_table ht ! i)" by (auto dest: in_set_takeD in_set_dropD)
  have used: "ht_used (ht_unlink i p ht) = length (ht_entries (ht_unlink i p ht))"
    using len wf by (simp add: ht_wf_used ht_unlink_def)
  have bucket: "\<forall>j<length ((ht_table ht)[i := ?c]). \<forall>e\<in>set ((ht_table ht)[i := ?c] ! j).
      hash_idx type (ht_sizemask ht) (de_key e) = j"
    using wf sub i by (auto simp: ht_wf_def nth_list_update)
  show "ht_wf type (ht_unlink i p ht)"
    by (rule ht_wf_cong [OF wf]) (use used bucket in \<open>simp_all add: ht_unlink_def\<close>)
qed

lemma set_val_at_props:
  assumes wf: "ht_wf type ht" and i: "i < length (ht_table ht)" and p: "p < length (ht_table ht ! i)"
  shows "ht_wf type (set_val_at i p v ht)"
    and "mset (ht_entries (set_val_at i p v ht)) + {#ht_table ht ! i ! p#} =
         add_mset ((ht_table ht ! i ! p)\<lparr>de_val := v\<rparr>) (mset (ht_entries ht))"
    and "ht_size (set_val_at i p v ht) = ht_size ht"
    and "map de_key (ht_entries (set_val_at i p v ht)) = map de_key (ht_entries ht)"
proof -
  let ?c = "(ht_table ht ! i)[p := (ht_table ht ! i ! p)\<lparr>de_val := v\<rparr>]"
  have c: "mset ?c + {#ht_table ht ! i ! p#} =
           add_mset ((ht_table ht ! i ! p)\<lparr>de_val := v\<rparr>) (mset (ht_table ht ! i))"
    using p by (simp add: mset_update)
  have eq: "ht_entries (set_val_at i p v ht) = concat ((ht_table ht)[i := ?c])"
    by (simp add: ht_entries_def set_val_at_def)
  have "mset (concat ((ht_table ht)[i := ?c])) + mset (ht_table ht ! i) + {#ht_table ht ! i ! p#} =
        mset (concat (ht_table ht)) + (mset ?c + {#ht_table ht ! i ! p#})"
    using mset_concat_update [OF i, of ?c] by simp
  then show m: "mset (ht_entries (set_val_at i p v ht)) + {#ht_table ht ! i ! p#} =
         add_mset ((ht_table ht ! i ! p)\<lparr>de_val := v\<rparr>) (mset (ht_entries ht))"
    unfolding eq c by (simp add: ht_entries_def)
  have len: "length (ht_entries (set_val_at i p v ht)) = length (ht_entries ht)"
    using arg_cong [OF m, of size] by simp
  show s: "ht_size (set_val_at i p v ht) = ht_size ht" by (simp add: set_val_at_def)
  have keys: "map de_key ?c = map de_key (ht_table ht ! i)"
    using p list_update_id [of "map de_key (ht_table ht ! i)" p] by (simp add: map_update)
  show "map de_key (ht_entries (set_val_at i p v ht)) = map de_key (ht_entries ht)"
    using i list_update_id [of "map (map de_key) (ht_table ht)" i]
    unfolding eq by (simp only: ht_entries_def map_concat map_update [of "map de_key"] keys nth_map)
  have "\<forall>e\<in>set ?c. hash_idx type (ht_sizemask ht) (de_key e) = i"
  proof
    fix e assume "e \<in> set ?c"
    then have "de_key e \<in> set (map de_key ?c)" by simp
    then obtain e' where "e' \<in> set (ht_table ht ! i)" "de_key e = de_key e'" unfolding keys by auto
    then show "hash_idx type (ht_sizemask ht) (de_key e) = i" using ht_wf_hash [OF wf i] by simp
  qed
  then have bucket: "\<forall>j<length ((ht_table ht)[i := ?c]). \<forall>e\<in>set ((ht_table ht)[i := ?c] ! j).
      hash_idx type (ht_sizemask ht) (de_key e) = j"
    using wf i by (auto simp: ht_wf_def nth_list_update)
  show "ht_wf type (set_val_at i p v ht)"
    by (rule ht_wf_cong [OF wf])
       (use len bucket ht_wf_used [OF wf] in \<open>simp_all add: set_val_at_def\<close>)
qed


section \<open>Expansion and rehashing keep the entries\<close>

lemma dict_wfD:
  assumes "dict_wf d"
  shows "type_ok (d_type d)" "ht_wf (d_type d) (d_ht0 d)" "ht_wf (d_type d) (d_ht1 d)"
    "distinct (map de_key (dict_entries d))"
    "\<not> dictIsRehashing d \<Longrightarrow> d_ht1 d = dictReset"
    "dictIsRehashing d \<Longrightarrow> 0 < ht_size (d_ht0 d)" "dictIsRehashing d \<Longrightarrow> 0 < ht_size (d_ht1 d)"
    "dictIsRehashing d \<Longrightarrow> 0 \<le> d_rehashidx d"
    "dictIsRehashing d \<Longrightarrow> i < nat (d_rehashidx d) \<Longrightarrow> i < ht_size (d_ht0 d) \<Longrightarrow> ht_table (d_ht0 d) ! i = []"
  using assms by (auto simp: dict_wf_def)

lemma dict_wf_create [wf_intros]: "type_ok type \<Longrightarrow> dict_wf (dictCreate type)"
  by (simp add: dict_wf_def dictCreate_def dict_entries_def dictIsRehashing_def)

lemma dictSize_create [simp]: "dictSize (dictCreate type) = 0"
  by (simp add: dictCreate_def dictSize_def)

lemma dict_map_create [abs_simps]: "dict_map (dictCreate type) = Map.empty"
  by (simp add: dict_map_def dictCreate_def dict_entries_def)

definition same_entries :: "('k, 'v) dict \<Rightarrow> ('k, 'v) dict \<Rightarrow> bool" where
  "same_entries d d' \<longleftrightarrow> d_type d' = d_type d \<and> mset (dict_entries d') = mset (dict_entries d)"

lemma same_entries_refl [simp]: "same_entries d d"
  by (simp add: same_entries_def)

lemma same_entries_trans: "same_entries d d' \<Longrightarrow> same_entries d' d'' \<Longrightarrow> same_entries d d''"
  by (simp add: same_entries_def)

lemma same_entries_map: "dict_wf d \<Longrightarrow> same_entries d d' \<Longrightarrow> dict_map d' = dict_map d"
  by (simp add: same_entries_def dict_map_cong dict_wfD)

lemma same_entries_distinct:
  "dict_wf d \<Longrightarrow> same_entries d d' \<Longrightarrow> distinct (map de_key (dict_entries d'))"
  unfolding same_entries_def using dict_map_cong(2) [OF dict_wfD(4)] by blast

lemma dictSize_entries: "dict_wf d \<Longrightarrow> dictSize d = length (dict_entries d)"
  using dict_wfD(2,3) [of d] by (simp add: dictSize_def dict_entries_def ht_wf_used)

lemma same_entries_size:
  "dict_wf d \<Longrightarrow> dict_wf d' \<Longrightarrow> same_entries d d' \<Longrightarrow> dictSize d' = dictSize d"
  by (metis dictSize_entries same_entries_def size_mset)

lemma dictExpand_props:
  assumes wf: "dict_wf d" and sz: "sz \<le> 2 ^ 31"
  shows "dict_wf (snd (dictExpand d sz))" and "same_entries d (snd (dictExpand d sz))"
    and "fst (dictExpand d sz) = DICT_OK \<Longrightarrow> 0 < ht_size (d_ht0 (snd (dictExpand d sz)))"
    and "d_iterators (snd (dictExpand d sz)) = d_iterators d"
proof -
  obtain n where n: "n \<le> 31" "dictNextPower sz = 2 ^ n" using sz by (rule dictNextPower_bounded)
  have fresh: "ht_wf (d_type d) \<lparr>ht_table = replicate (2 ^ n) [], ht_size = 2 ^ n, ht_sizemask = 2 ^ n - 1, ht_used = 0\<rparr>"
    using n(1) by (rule ht_wf_fresh)
  have nt: "ht_table (d_ht0 d) = [] \<longleftrightarrow> ht_size (d_ht0 d) = 0"
    using ht_wf_size [OF dict_wfD(2) [OF wf]] by simp
  have ne: "ht_table (d_ht0 d) = [] \<Longrightarrow> ht_entries (d_ht0 d) = []" by (simp add: ht_entries_def)
  show "same_entries d (snd (dictExpand d sz))"
    using ne dict_wfD(5) [OF wf]
    by (auto simp: dictExpand_def Let_def same_entries_def dict_entries_def)
  then have "distinct (map de_key (dict_entries (snd (dictExpand d sz))))"
    using wf by (rule_tac same_entries_distinct)
  then show "dict_wf (snd (dictExpand d sz))"
    using wf fresh nt n(2)
    by (auto simp: dictExpand_def Let_def dict_wf_def dictIsRehashing_def split: if_splits)
  show "fst (dictExpand d sz) = DICT_OK \<Longrightarrow> 0 < ht_size (d_ht0 (snd (dictExpand d sz)))"
    using nt n(2) by (auto simp: dictExpand_def Let_def split: if_splits)
  show "d_iterators (snd (dictExpand d sz)) = d_iterators d"
    by (auto simp: dictExpand_def Let_def)
qed

lemma next_bucket_skips:
  "i \<le> next_bucket tbl i \<and> (\<forall>j. i \<le> j \<longrightarrow> j < next_bucket tbl i \<longrightarrow> tbl ! j = [])"
proof (induction tbl i rule: next_bucket.induct)
  case (1 tbl i)
  show ?case
  proof (cases "i < length tbl \<and> tbl ! i = []")
    case True
    then have eq: "next_bucket tbl i = next_bucket tbl (Suc i)" by (subst next_bucket.simps) simp
    have "tbl ! j = []" if "i \<le> j" "j < next_bucket tbl (Suc i)" for j
      using that "1" [OF True] True by (cases "j = i") simp_all
    then show ?thesis unfolding eq using "1" [OF True] by simp
  next
    case False
    then show ?thesis by (subst (1 2) next_bucket.simps) auto
  qed
qed

lemma next_bucket_found:
  "j < length tbl \<Longrightarrow> i \<le> j \<Longrightarrow> tbl ! j \<noteq> [] \<Longrightarrow> next_bucket tbl i \<le> j \<and> tbl ! next_bucket tbl i \<noteq> []"
proof (induction tbl i rule: next_bucket.induct)
  case (1 tbl i)
  show ?case
  proof (cases "i < length tbl \<and> tbl ! i = []")
    case True
    then have eq: "next_bucket tbl i = next_bucket tbl (Suc i)" by (subst next_bucket.simps) simp
    have "Suc i \<le> j" using "1.prems" True by (metis Suc_leI le_neq_implies_less)
    then show ?thesis unfolding eq using "1.IH" [OF True] "1.prems" by simp
  next
    case False
    then have "next_bucket tbl i = i" by (subst next_bucket.simps) auto
    with False "1.prems" show ?thesis by auto
  qed
qed

lemma move_entry_push: "move_entry type e ht = ht_push (hash_idx type (ht_sizemask ht) (de_key e)) e ht"
  by (simp add: move_entry_def ht_push_def Let_def)

lemma fold_move_entry:
  "ht_wf type ht \<Longrightarrow> 0 < ht_size ht \<Longrightarrow>
     ht_wf type (fold (move_entry type) chain ht) \<and>
     mset (ht_entries (fold (move_entry type) chain ht)) = mset chain + mset (ht_entries ht) \<and>
     ht_size (fold (move_entry type) chain ht) = ht_size ht"
proof (induction chain arbitrary: ht)
  case (Cons e chain)
  let ?h = "move_entry type e ht"
  have "ht_wf type ?h" "mset (ht_entries ?h) = add_mset e (mset (ht_entries ht))" "ht_size ?h = ht_size ht"
    using ht_push_props [OF Cons.prems(1) hash_idx_less [OF Cons.prems] refl]
    by (simp_all add: move_entry_push)
  with Cons show ?case by simp
qed simp

lemma rehash_bucket_props:
  assumes wf: "dict_wf d" and re: "dictIsRehashing d" and used: "ht_used (d_ht0 d) \<noteq> 0"
  shows "dict_wf (rehash_bucket d)" "same_entries d (rehash_bucket d)" "dictIsRehashing (rehash_bucket d)"
    and "nat (d_rehashidx d) < length (ht_table (d_ht0 d))"
    and "ht_used (d_ht0 (rehash_bucket d)) < ht_used (d_ht0 d)"
    and "ht_size (d_ht0 (rehash_bucket d)) = ht_size (d_ht0 d)"
    and "d_iterators (rehash_bucket d) = d_iterators d"
    and "next_bucket (ht_table (d_ht0 d)) (nat (d_rehashidx d)) < length (ht_table (d_ht0 d))"
proof -
  let ?tbl = "ht_table (d_ht0 d)" and ?r = "nat (d_rehashidx d)"
  let ?i = "next_bucket ?tbl ?r"
  note w = dict_wfD [OF wf]
  have "ht_entries (d_ht0 d) \<noteq> []" using used ht_wf_used [OF w(2)] by auto
  then obtain j where j: "j < length ?tbl" "?tbl ! j \<noteq> []"
    by (auto simp: ht_entries_def in_set_conv_nth)
  then have "?r \<le> j" using w(9) [OF re] ht_wf_size [OF w(2)] by (metis not_le)
  from next_bucket_found [OF j(1) this j(2)] j(1)
  have i: "?i < length ?tbl" "?tbl ! ?i \<noteq> []" by auto
  show "?r < length ?tbl" using i(1) next_bucket_skips [of ?r ?tbl] by simp
  show "next_bucket ?tbl ?r < length ?tbl" by (rule i(1))
  let ?h0 = "(d_ht0 d)\<lparr>ht_table := ?tbl[?i := []], ht_used := ht_used (d_ht0 d) - length (?tbl ! ?i)\<rparr>"
  let ?h1 = "fold (move_entry (d_type d)) (?tbl ! ?i) (d_ht1 d)"
  have d': "rehash_bucket d = d\<lparr>d_ht0 := ?h0, d_ht1 := ?h1, d_rehashidx := int (Suc ?i)\<rparr>"
    by (simp add: rehash_bucket_def Let_def)
  have m0: "mset (ht_entries ?h0) + mset (?tbl ! ?i) = mset (ht_entries (d_ht0 d))"
    using mset_concat_update [OF i(1), of "[]"] by (simp add: ht_entries_def)
  have u0: "ht_used ?h0 = length (ht_entries ?h0)"
    using arg_cong [OF m0, of size] ht_wf_used [OF w(2)] by simp
  have wf0: "ht_wf (d_type d) ?h0"
    by (rule ht_wf_cong [OF w(2)])
       (use u0 i(1) ht_wf_hash [OF w(2)] in \<open>auto simp: nth_list_update\<close>)
  note h1 = fold_move_entry [OF w(3) w(7) [OF re], of "?tbl ! ?i"]
  show same: "same_entries d (rehash_bucket d)"
    using h1 m0 unfolding d' by (simp add: same_entries_def dict_entries_def ac_simps)
  show re': "dictIsRehashing (rehash_bucket d)" by (simp add: d' dictIsRehashing_def)
  have empty: "?tbl[?i := []] ! k = []" if "k < Suc ?i" "k < length ?tbl" for k
    using that next_bucket_skips [of ?r ?tbl] w(9) [OF re, of k] ht_wf_size [OF w(2)]
    by (cases "k = ?i"; cases "k < ?r") auto
  have "distinct (map de_key (dict_entries (rehash_bucket d)))"
    using wf same by (rule same_entries_distinct)
  then show "dict_wf (rehash_bucket d)"
    using wf0 h1 w(1) w(6,7) [OF re] re' empty ht_wf_size [OF w(2)]
    unfolding dict_wf_def d' by (simp add: dictIsRehashing_def)
  have "length (?tbl ! ?i) \<le> ht_used (d_ht0 d)"
    using arg_cong [OF m0, of size] ht_wf_used [OF w(2)] by simp
  then show "ht_used (d_ht0 (rehash_bucket d)) < ht_used (d_ht0 d)"
    using i(2) used by (simp add: d')
  show "ht_size (d_ht0 (rehash_bucket d)) = ht_size (d_ht0 d)"
    and "d_iterators (rehash_bucket d) = d_iterators d" by (simp_all add: d')
qed

lemma rehash_finish_props:
  assumes wf: "dict_wf d" and re: "dictIsRehashing d" and used: "ht_used (d_ht0 d) = 0"
  defines "d' \<equiv> d\<lparr>d_ht0 := d_ht1 d, d_ht1 := dictReset, d_rehashidx := -1\<rparr>"
  shows "dict_wf d'" "same_entries d d'" "0 < ht_size (d_ht0 d')" "\<not> dictIsRehashing d'"
proof -
  note w = dict_wfD [OF wf]
  have "ht_entries (d_ht0 d) = []" using used ht_wf_used [OF w(2)] by simp
  then show "same_entries d d'" by (simp add: same_entries_def dict_entries_def d'_def)
  then have "distinct (map de_key (dict_entries d'))" using wf by (rule_tac same_entries_distinct)
  then show "dict_wf d'" using w(1,3) by (simp add: dict_wf_def d'_def dictIsRehashing_def)
  show "0 < ht_size (d_ht0 d')" using w(7) [OF re] by (simp add: d'_def)
  show "\<not> dictIsRehashing d'" by (simp add: d'_def dictIsRehashing_def)
qed

lemma rehash_loop_props:
  "dict_wf d \<Longrightarrow> dictIsRehashing d \<Longrightarrow>
     dict_wf (snd (rehash_loop n d)) \<and> same_entries d (snd (rehash_loop n d)) \<and>
     0 < ht_size (d_ht0 (snd (rehash_loop n d))) \<and>
     d_iterators (snd (rehash_loop n d)) = d_iterators d \<and>
     (fst (rehash_loop n d) = 1 \<longleftrightarrow> dictIsRehashing (snd (rehash_loop n d))) \<and>
     (ht_used (d_ht0 d) < n \<longrightarrow> fst (rehash_loop n d) = 0)"
proof (induction n arbitrary: d)
  case 0
  then show ?case using dict_wfD(6) by simp
next
  case (Suc n)
  show ?case
  proof (cases "ht_used (d_ht0 d) = 0")
    case True
    with rehash_finish_props [OF Suc.prems True] show ?thesis by simp
  next
    case False
    note rb = rehash_bucket_props [OF Suc.prems False]
    from Suc.IH [OF rb(1,3)] show ?thesis
      using False rb(2,5,6,7) same_entries_trans [OF rb(2)] by auto
  qed
qed

lemma dictRehashStep_props:
  assumes "dict_wf d"
  shows "dict_wf (dictRehashStep d)" "same_entries d (dictRehashStep d)"
    and "0 < ht_size (d_ht0 d) \<Longrightarrow> 0 < ht_size (d_ht0 (dictRehashStep d))"
    and "d_iterators (dictRehashStep d) = d_iterators d"
    and "d_type (dictRehashStep d) = d_type d"
proof -
  have "dict_wf (dictRehashStep d) \<and> same_entries d (dictRehashStep d) \<and>
        (0 < ht_size (d_ht0 d) \<longrightarrow> 0 < ht_size (d_ht0 (dictRehashStep d))) \<and>
        d_iterators (dictRehashStep d) = d_iterators d"
    using rehash_loop_props [OF assms, of 1] assms
    by (auto simp: dictRehashStep_def dictRehash_def simp del: One_nat_def rehash_loop.simps)
  then show "dict_wf (dictRehashStep d)" "same_entries d (dictRehashStep d)"
    "0 < ht_size (d_ht0 d) \<Longrightarrow> 0 < ht_size (d_ht0 (dictRehashStep d))"
    "d_iterators (dictRehashStep d) = d_iterators d" "d_type (dictRehashStep d) = d_type d"
    by (auto simp: same_entries_def)
qed

section \<open>Correctness of the operations\<close>

lemma dict_map_insert:
  assumes wf: "distinct (map de_key (dict_entries d'))"
    and m: "mset (dict_entries d') = add_mset e (mset (dict_entries d))"
  shows "dict_map d' = (dict_map d)(de_key e \<mapsto> de_val e)" "dict_map d (de_key e) = None"
proof -
  have "mset (map de_key (dict_entries d')) = mset (map de_key (e # dict_entries d))"
    using m by (metis mset.simps(2) mset_map)
  then have dist: "distinct (map de_key (e # dict_entries d))"
    using wf by (metis mset_eq_imp_distinct_iff)
  then show n: "dict_map d (de_key e) = None" by (simp add: dict_map_None)
  have s: "set (dict_entries d') = insert e (set (dict_entries d))"
    using arg_cong [OF m, of set_mset] by simp
  have dd: "distinct (map de_key (dict_entries d))" using dist by simp
  have "dict_map d' k = Some v \<longleftrightarrow> ((dict_map d)(de_key e \<mapsto> de_val e)) k = Some v" for k v
    using n by (auto simp: dict_map_Some [OF wf] dict_map_Some [OF dd] s dict_map_None image_iff)
  then show "dict_map d' = (dict_map d)(de_key e \<mapsto> de_val e)"
    by (intro ext option_eqI) blast
qed

lemma dict_map_remove:
  assumes wf: "distinct (map de_key (dict_entries d))"
    and m: "mset (dict_entries d) = add_mset e (mset (dict_entries d'))"
  shows "dict_map d' = (dict_map d)(de_key e := None)" "dict_map d (de_key e) = Some (de_val e)"
    and "distinct (map de_key (dict_entries d'))"
proof -
  note ins = dict_map_insert [OF wf m]
  show "dict_map d' = (dict_map d)(de_key e := None)" using ins by auto
  show "dict_map d (de_key e) = Some (de_val e)" using ins by simp
  have "mset (map de_key (dict_entries d)) = mset (map de_key (e # dict_entries d'))"
    using m by (metis mset.simps(2) mset_map)
  then have "distinct (map de_key (e # dict_entries d'))"
    using wf by (metis mset_eq_imp_distinct_iff)
  then show "distinct (map de_key (dict_entries d'))" by simp
qed

lemma dict_map_overwrite:
  assumes wf: "distinct (map de_key (dict_entries d))"
    and e: "e \<in> set (dict_entries d)"
    and keys: "map de_key (dict_entries d') = map de_key (dict_entries d)"
    and m: "mset (dict_entries d') + {#e#} = add_mset (e\<lparr>de_val := v\<rparr>) (mset (dict_entries d))"
  shows "dict_map d' = (dict_map d)(de_key e \<mapsto> v)"
proof -
  have wf': "distinct (map de_key (dict_entries d'))" using wf keys by simp
  have s: "insert e (set (dict_entries d')) = insert (e\<lparr>de_val := v\<rparr>) (set (dict_entries d))"
    using arg_cong [OF m, of set_mset] by simp
  show ?thesis
  proof (intro ext option_eqI)
    fix k w
    show "dict_map d' k = Some w \<longleftrightarrow> ((dict_map d)(de_key e \<mapsto> v)) k = Some w"
    proof (cases "k = de_key e")
      case False
      have "(\<exists>x\<in>insert e (set (dict_entries d')). de_key x = k \<and> de_val x = w) \<longleftrightarrow>
            (\<exists>x\<in>insert (e\<lparr>de_val := v\<rparr>) (set (dict_entries d)). de_key x = k \<and> de_val x = w)"
        unfolding s ..
      with False show ?thesis by (auto simp: dict_map_Some [OF wf'] dict_map_Some [OF wf])
    next
      case True
      have "e\<lparr>de_val := v\<rparr> \<in> set (dict_entries d')"
      proof (cases "e = e\<lparr>de_val := v\<rparr>")
        case True
        then have "mset (dict_entries d') = mset (dict_entries d)" using m by simp
        with e True show ?thesis by (metis set_mset_mset)
      next
        case False
        with s show ?thesis by (metis insert_iff)
      qed
      then have "\<exists>x\<in>set (dict_entries d'). de_key x = k \<and> de_val x = v"
        using True by (intro bexI [of _ "e\<lparr>de_val := v\<rparr>"]) simp_all
      then have "dict_map d' k = Some v" by (simp add: dict_map_Some [OF wf'])
      with True show ?thesis by simp
    qed
  qed
qed


fun valid_ref :: "('k, 'v) dict \<Rightarrow> entry_ref \<Rightarrow> bool" where
  "valid_ref d (t, idx, pos) \<longleftrightarrow>
     (let ht = (if t = 0 then d_ht0 d else d_ht1 d)
      in (t \<noteq> 0 \<longrightarrow> dictIsRehashing d) \<and> idx < length (ht_table ht) \<and> pos < length (ht_table ht ! idx))"

lemma valid_ref_entry:
  assumes "valid_ref d r"
  shows "deref d r \<in> set (dict_entries d)"
proof -
  obtain t idx pos where r: "r = (t, idx, pos)" by (cases r)
  let ?ht = "if t = 0 then d_ht0 d else d_ht1 d"
  have "idx < length (ht_table ?ht)" "pos < length (ht_table ?ht ! idx)"
    using assms r by (auto simp: Let_def split: if_splits)
  then have "ht_table ?ht ! idx ! pos \<in> set (ht_entries ?ht)"
    using bucket_sound [of idx ?ht] by (meson nth_mem subsetD)
  then show ?thesis using r by (auto simp: dict_entries_def split: if_splits)
qed

lemma dict_search_None:
  assumes wf: "dict_wf d" and s: "0 < ht_size (d_ht0 d)"
  shows "dict_search d k = None \<longleftrightarrow> dict_map d k = None"
proof -
  note w = dict_wfD [OF wf]
  show ?thesis
  proof (cases "dictIsRehashing d")
    case True
    then show ?thesis
      using chain_index_in_table [OF w(1) w(2) s, of k]
        chain_index_in_table [OF w(1) w(3) w(7) [OF True], of k]
      by (auto simp: dict_search_def Let_def dict_map_None dict_entries_def split: option.splits)
  next
    case False
    then show ?thesis
      using chain_index_in_table [OF w(1) w(2) s, of k] w(5)
      by (auto simp: dict_search_def Let_def dict_map_None dict_entries_def split: option.splits)
  qed
qed

lemma dict_search_Some:
  assumes wf: "dict_wf d" and s: "0 < ht_size (d_ht0 d)" and r: "dict_search d k = Some r"
  shows "valid_ref d r" "de_key (deref d r) = k"
proof -
  note w = dict_wfD [OF wf]
  let ?i0 = "hash_idx (d_type d) (ht_sizemask (d_ht0 d)) k"
  let ?i1 = "hash_idx (d_type d) (ht_sizemask (d_ht1 d)) k"
  consider pos where "chain_index (d_type d) k (ht_table (d_ht0 d) ! ?i0) = Some pos" "r = (0, ?i0, pos)"
    | pos where "dictIsRehashing d" "chain_index (d_type d) k (ht_table (d_ht1 d) ! ?i1) = Some pos"
        "r = (1, ?i1, pos)"
    using r by (auto simp: dict_search_def Let_def split: option.splits if_splits)
  then have "valid_ref d r \<and> de_key (deref d r) = k"
  proof cases
    case (1 pos)
    then show ?thesis
      using chain_index_Some [OF w(1) 1(1)] hash_idx_less [OF w(2) s] by simp
  next
    case (2 pos)
    then show ?thesis
      using chain_index_Some [OF w(1) 2(2)] hash_idx_less [OF w(3) w(7) [OF 2(1)]] by simp
  qed
  then show "valid_ref d r" "de_key (deref d r) = k" by simp_all
qed

lemma dict_map_deref:
  assumes "dict_wf d" "valid_ref d r"
  shows "dict_map d (de_key (deref d r)) = Some (de_val (deref d r))"
  using valid_ref_entry [OF assms(2)] dict_map_Some [OF dict_wfD(4) [OF assms(1)]] by blast

lemma empty_dict_map:
  assumes wf: "dict_wf d" and s: "ht_size (d_ht0 d) = 0"
  shows "dict_entries d = []" "dict_map d = Map.empty"
proof -
  note w = dict_wfD [OF wf]
  have "\<not> dictIsRehashing d" using w(6) s by auto
  moreover have "ht_table (d_ht0 d) = []" using ht_wf_size [OF w(2)] s by simp
  ultimately show e: "dict_entries d = []"
    using w(5) by (simp add: dict_entries_def ht_entries_def)
  show "dict_map d = Map.empty" using e by (simp add: dict_map_def)
qed

lemma maybe_step:
  assumes "dict_wf d"
  defines "d' \<equiv> if dictIsRehashing d then dictRehashStep d else d"
  shows "dict_wf d'" "same_entries d d'" "0 < ht_size (d_ht0 d) \<Longrightarrow> 0 < ht_size (d_ht0 d')"
    "d_type d' = d_type d" "dict_map d' = dict_map d" "dictSize d' = dictSize d"
proof -
  show wf: "dict_wf d'" and same: "same_entries d d'" and "d_type d' = d_type d"
    and "0 < ht_size (d_ht0 d) \<Longrightarrow> 0 < ht_size (d_ht0 d')"
    using dictRehashStep_props [OF assms(1)] assms(1) unfolding d'_def by auto
  show "dict_map d' = dict_map d" using assms(1) same by (rule same_entries_map)
  show "dictSize d' = dictSize d" using assms(1) wf same by (rule same_entries_size)
qed

lemma dictFind_props:
  assumes wf: "dict_wf d"
  shows "dict_wf (snd (dictFind d k))" "dict_map (snd (dictFind d k)) = dict_map d"
    and "same_entries d (snd (dictFind d k))"
    and "fst (dictFind d k) = None \<longleftrightarrow> dict_map d k = None"
    and "fst (dictFind d k) = Some r \<Longrightarrow> valid_ref (snd (dictFind d k)) r \<and>
           de_key (deref (snd (dictFind d k)) r) = k \<and>
           dict_map d k = Some (de_val (deref (snd (dictFind d k)) r))"
proof -
  let ?d = "if dictIsRehashing d then dictRehashStep d else d"
  note st = maybe_step [OF wf]
  show "dict_wf (snd (dictFind d k))" "dict_map (snd (dictFind d k)) = dict_map d"
    "same_entries d (snd (dictFind d k))"
    using wf st by (simp_all add: dictFind_def Let_def)
  show "fst (dictFind d k) = None \<longleftrightarrow> dict_map d k = None"
    using empty_dict_map [OF wf] st(5) dict_search_None [OF st(1), of k] st(3)
    by (cases "ht_size (d_ht0 d) = 0") (simp_all add: dictFind_def Let_def)
  assume r: "fst (dictFind d k) = Some r"
  then have s: "0 < ht_size (d_ht0 d)" "dict_search ?d k = Some r"
    by (auto simp: dictFind_def Let_def split: if_splits)
  have d': "snd (dictFind d k) = ?d" using s(1) by (simp add: dictFind_def Let_def)
  note f = dict_search_Some [OF st(1) st(3) [OF s(1)] s(2)]
  have "dict_map ?d k = Some (de_val (deref ?d r))"
    using dict_map_deref [OF st(1) f(1)] f(2) by simp
  then show "valid_ref (snd (dictFind d k)) r \<and> de_key (deref (snd (dictFind d k)) r) = k \<and>
      dict_map d k = Some (de_val (deref (snd (dictFind d k)) r))"
    using f st(5) unfolding d' by simp
qed

lemma dictFetchValue_props:
  assumes wf: "dict_wf d"
  shows "fst (dictFetchValue d k) = dict_map d k" "dict_wf (snd (dictFetchValue d k))"
    and "dict_map (snd (dictFetchValue d k)) = dict_map d"
  using dictFind_props [OF wf, of k]
  by (cases "fst (dictFind d k)"; auto simp: dictFetchValue_def split_beta)+

lemma dictExpandIfNeeded_props:
  assumes wf: "dict_wf d" and room: "dictSize d < 2 ^ 29"
  shows "fst (dictExpandIfNeeded cr d) = DICT_OK" "dict_wf (snd (dictExpandIfNeeded cr d))"
    and "same_entries d (snd (dictExpandIfNeeded cr d))"
    and "0 < ht_size (d_ht0 (snd (dictExpandIfNeeded cr d)))"
proof -
  note w = dict_wfD [OF wf]
  have used: "ht_used (d_ht0 d) < 2 ^ 29" using room by (simp add: dictSize_def)
  have 4: "DICT_HT_INITIAL_SIZE \<le> 2 ^ 31" by (simp add: DICT_HT_INITIAL_SIZE_def)
  have ok: "\<not> dictIsRehashing d \<Longrightarrow> ht_used (d_ht0 d) \<le> sz \<Longrightarrow> fst (dictExpand d sz) = DICT_OK" for sz
    by (auto simp: dictExpand_def Let_def)
  have u0: "ht_size (d_ht0 d) = 0 \<Longrightarrow> ht_used (d_ht0 d) = 0"
    using empty_dict_map [OF wf] ht_wf_used [OF w(2)] by (simp add: dict_entries_def)
  note ex4 = dictExpand_props [OF wf 4]
  have b: "ht_used (d_ht0 d) * 2 \<le> 2 ^ 31" using used by simp
  note ex2 = dictExpand_props [OF wf b]
  show "fst (dictExpandIfNeeded cr d) = DICT_OK" "dict_wf (snd (dictExpandIfNeeded cr d))"
    "same_entries d (snd (dictExpandIfNeeded cr d))"
    "0 < ht_size (d_ht0 (snd (dictExpandIfNeeded cr d)))"
    using wf ex4 ex2 ok u0 w(6)
    by (auto simp: dictExpandIfNeeded_def Let_def)
qed

lemma dictKeyIndex_props:
  assumes wf: "dict_wf d" and room: "dictSize d < 2 ^ 29"
  shows "dict_wf (snd (dictKeyIndex cr d k))" "same_entries d (snd (dictKeyIndex cr d k))"
    and "fst (dictKeyIndex cr d k) = -1 \<longleftrightarrow> dict_map d k \<noteq> None"
    and "fst (dictKeyIndex cr d k) \<noteq> -1 \<Longrightarrow>
          (let d' = snd (dictKeyIndex cr d k);
               ht = (if dictIsRehashing d' then d_ht1 d' else d_ht0 d')
           in 0 \<le> fst (dictKeyIndex cr d k) \<and> nat (fst (dictKeyIndex cr d k)) < length (ht_table ht) \<and>
              hash_idx (d_type d') (ht_sizemask ht) k = nat (fst (dictKeyIndex cr d k)))"
proof -
  obtain d' where e: "dictExpandIfNeeded cr d = (DICT_OK, d')"
    using dictExpandIfNeeded_props(1) [OF wf room, of cr] by (metis prod.collapse)
  have wf': "dict_wf d'" and same: "same_entries d d'" and s: "0 < ht_size (d_ht0 d')"
    using dictExpandIfNeeded_props [OF wf room, of cr] e by simp_all
  have map: "dict_map d' = dict_map d" using wf same by (rule same_entries_map)
  note w = dict_wfD [OF wf']
  let ?ht = "if dictIsRehashing d' then d_ht1 d' else d_ht0 d'"
  let ?i = "hash_idx (d_type d') (ht_sizemask ?ht) k"
  have ht: "ht_wf (d_type d') ?ht" "0 < ht_size ?ht" using w s by auto
  have i: "?i < length (ht_table ?ht)" using ht by (rule hash_idx_less)
  have ti: "to_int32 (int ?i) = int ?i" using ht_wf_bucket_bound [OF ht(1) i] by simp
  have eq: "dictKeyIndex cr d k = (if dict_map d k \<noteq> None then (-1, d') else (int ?i, d'))"
    using e ti dict_search_None [OF wf' s, of k] map
    by (auto simp: dictKeyIndex_def Let_def if_distrib [of ht_sizemask])
  show "dict_wf (snd (dictKeyIndex cr d k))" "same_entries d (snd (dictKeyIndex cr d k))"
    "fst (dictKeyIndex cr d k) = -1 \<longleftrightarrow> dict_map d k \<noteq> None"
    using eq wf' same by simp_all
  assume "fst (dictKeyIndex cr d k) \<noteq> -1"
  then have "dictKeyIndex cr d k = (int ?i, d')" using eq by (simp split: if_splits)
  then show "let d' = snd (dictKeyIndex cr d k);
               ht = (if dictIsRehashing d' then d_ht1 d' else d_ht0 d')
           in 0 \<le> fst (dictKeyIndex cr d k) \<and> nat (fst (dictKeyIndex cr d k)) < length (ht_table ht) \<and>
              hash_idx (d_type d') (ht_sizemask ht) k = nat (fst (dictKeyIndex cr d k))"
    using i by (simp add: Let_def)
qed


lemma dictAddRaw_props:
  assumes wf: "dict_wf d" and room: "dictSize d < 2 ^ 29"
  shows "dict_wf (snd (dictAddRaw cr d k junk))"
    and "fst (dictAddRaw cr d k junk) = None \<longleftrightarrow> dict_map d k \<noteq> None"
    and "dict_map d k \<noteq> None \<Longrightarrow> same_entries d (snd (dictAddRaw cr d k junk))"
    and "fst (dictAddRaw cr d k junk) = Some r \<Longrightarrow>
           (let d' = snd (dictAddRaw cr d k junk)
            in valid_ref d' r \<and> deref d' r = \<lparr>de_key = k, de_val = junk\<rparr> \<and> d_type d' = d_type d \<and>
               mset (dict_entries d') = add_mset \<lparr>de_key = k, de_val = junk\<rparr> (mset (dict_entries d)))"
proof -
  let ?d1 = "if dictIsRehashing d then dictRehashStep d else d"
  note st = maybe_step [OF wf]
  have room1: "dictSize ?d1 < 2 ^ 29" using st(6) room by simp
  obtain index d2 where ki: "dictKeyIndex cr ?d1 k = (index, d2)" by (cases "dictKeyIndex cr ?d1 k")
  note kp = dictKeyIndex_props [OF st(1) room1, of cr k, unfolded ki, simplified]
  note w = dict_wfD [OF kp(1)]
  have same: "same_entries d d2" using st(2) kp(2) by (rule same_entries_trans)
  have map: "dict_map d2 = dict_map d" using wf same by (rule same_entries_map)
  let ?e = "\<lparr>de_key = k, de_val = junk\<rparr>"
  have key: "(case keyDup (d_type d2) of None \<Rightarrow> k | Some dup \<Rightarrow> dup k) = k"
    using w(1) by (auto simp: type_ok_def split: option.splits)
  have ex: "index = -1 \<longleftrightarrow> dict_map d k \<noteq> None" using kp(3) st(5) by simp
  let ?d' = "if dictIsRehashing d2 then d2\<lparr>d_ht1 := ht_push (nat index) ?e (d_ht1 d2)\<rparr>
             else d2\<lparr>d_ht0 := ht_push (nat index) ?e (d_ht0 d2)\<rparr>"
  let ?r = "(if dictIsRehashing d2 then 1 else 0, nat index, 0) :: entry_ref"
  have eq: "dictAddRaw cr d k junk = (if index = -1 then (None, d2) else (Some ?r, ?d'))"
    unfolding dictAddRaw_def Let_def ki by (simp add: key)
  show "fst (dictAddRaw cr d k junk) = None \<longleftrightarrow> dict_map d k \<noteq> None"
    using eq ex by simp
  show "dict_map d k \<noteq> None \<Longrightarrow> same_entries d (snd (dictAddRaw cr d k junk))"
    using eq ex same by simp
  have new: "dict_wf ?d' \<and> valid_ref ?d' ?r \<and> deref ?d' ?r = ?e \<and> d_type ?d' = d_type d \<and>
      mset (dict_entries ?d') = add_mset ?e (mset (dict_entries d))" if ne: "index \<noteq> -1"
  proof -
    let ?ht = "if dictIsRehashing d2 then d_ht1 d2 else d_ht0 d2"
    have i: "nat index < length (ht_table ?ht)"
      and h: "hash_idx (d_type d2) (ht_sizemask ?ht) (de_key ?e) = nat index"
      using kp(4) ne by (simp_all add: Let_def)
    have hw: "ht_wf (d_type d2) ?ht" using w by simp
    note pu = ht_push_props [OF hw i h]
    have re: "dictIsRehashing ?d' = dictIsRehashing d2" by (simp add: dictIsRehashing_def)
    have m: "mset (dict_entries ?d') = add_mset ?e (mset (dict_entries d2))"
      using pu(2) by (cases "dictIsRehashing d2") (simp_all add: dict_entries_def)
    then have m': "mset (dict_entries ?d') = add_mset ?e (mset (dict_entries d))"
      using same by (simp add: same_entries_def)
    have "k \<notin> de_key ` set (dict_entries d2)"
      using ex ne map by (simp flip: dict_map_None)
    then have "distinct (map de_key (?e # dict_entries d2))" using w(4) by simp
    moreover have "mset (map de_key (dict_entries ?d')) = mset (map de_key (?e # dict_entries d2))"
      using m by (metis mset.simps(2) mset_map)
    ultimately have dist: "distinct (map de_key (dict_entries ?d'))"
      by (metis mset_eq_imp_distinct_iff)
    have "d_type ?d' = d_type d2" by simp
    moreover have "dict_wf ?d'"
    proof (cases "dictIsRehashing d2")
      case True
      then show ?thesis
        using w pu(1,3) dist re unfolding dict_wf_def by simp
    next
      case False
      then show ?thesis
        using w pu(1,3) dist re unfolding dict_wf_def by simp
    qed
    moreover have "d_type d2 = d_type d" using same by (simp add: same_entries_def)
    moreover have "valid_ref ?d' ?r \<and> deref ?d' ?r = ?e"
      using i re by (cases "dictIsRehashing d2") (simp_all add: ht_push_def)
    ultimately show ?thesis using m' by simp
  qed
  show "dict_wf (snd (dictAddRaw cr d k junk))"
    using eq new kp(1) by (cases "index = -1") simp_all
  assume "fst (dictAddRaw cr d k junk) = Some r"
  then have "index \<noteq> -1" "r = ?r" "snd (dictAddRaw cr d k junk) = ?d'"
    unfolding eq by (auto split: if_splits)
  with new show "let d' = snd (dictAddRaw cr d k junk)
            in valid_ref d' r \<and> deref d' r = \<lparr>de_key = k, de_val = junk\<rparr> \<and> d_type d' = d_type d \<and>
               mset (dict_entries d') = add_mset \<lparr>de_key = k, de_val = junk\<rparr> (mset (dict_entries d))"
    by (simp add: Let_def)
qed

lemma dictSetVal_props:
  assumes wf: "dict_wf d" and r: "valid_ref d r"
  shows "dict_wf (dictSetVal d r v)"
    and "dict_map (dictSetVal d r v) = (dict_map d)(de_key (deref d r) \<mapsto> v)"
    and "length (dict_entries (dictSetVal d r v)) = length (dict_entries d)"
proof -
  note w = dict_wfD [OF wf]
  obtain t idx pos where t: "r = (t, idx, pos)" by (cases r)
  let ?ht = "if t = 0 then d_ht0 d else d_ht1 d"
  have i: "idx < length (ht_table ?ht)" "pos < length (ht_table ?ht ! idx)"
    using r t by (simp_all add: Let_def)
  have hw: "ht_wf (d_type d) ?ht" using w by simp
  note sv = set_val_at_props [OF hw i, of v]
  let ?d' = "if t = 0 then d\<lparr>d_ht0 := set_val_at idx pos v (d_ht0 d)\<rparr>
             else d\<lparr>d_ht1 := set_val_at idx pos v (d_ht1 d)\<rparr>"
  have dup: "(case valDup (d_type d) of None \<Rightarrow> v | Some dup \<Rightarrow> dup v) = v"
    using w(1) by (auto simp: type_ok_def split: option.splits)
  have eq: "dictSetVal d r v = ?d'" using dup by (simp add: t Let_def)
  have keys: "map de_key (dict_entries ?d') = map de_key (dict_entries d)"
    using sv(4) by (cases "t = 0") (simp_all add: dict_entries_def)
  show "length (dict_entries (dictSetVal d r v)) = length (dict_entries d)"
    using arg_cong [OF keys, of length] eq by simp
  have m: "mset (dict_entries ?d') + {#deref d r#} = add_mset ((deref d r)\<lparr>de_val := v\<rparr>) (mset (dict_entries d))"
    using sv(2) by (cases "t = 0") (simp_all add: dict_entries_def t)
  show "dict_map (dictSetVal d r v) = (dict_map d)(de_key (deref d r) \<mapsto> v)"
    unfolding eq by (rule dict_map_overwrite [OF w(4) valid_ref_entry [OF r] keys m])
  have empty: "ht_table (set_val_at idx pos v (d_ht0 d)) ! j = []"
    if "ht_table (d_ht0 d) ! j = []" "t = 0" for j
    using i that by (cases "j = idx") (auto simp: set_val_at_def)
  have sz: "ht_size (set_val_at a b v h) = ht_size h" for a b and h :: "('a, 'b) dictht"
    by (simp add: set_val_at_def)
  have re: "dictIsRehashing ?d' = dictIsRehashing d" by (simp add: dictIsRehashing_def)
  have nt: "\<not> dictIsRehashing d \<Longrightarrow> t = 0" using r t by (auto simp: Let_def)
  have "dict_wf ?d'"
    using w sv(1) keys re empty nt unfolding dict_wf_def by (auto simp: sz)
  then show "dict_wf (dictSetVal d r v)" unfolding eq .
qed


lemma dictAdd_props:
  assumes wf: "dict_wf d" and room: "dictSize d < 2 ^ 29"
  shows "dict_wf (snd (dictAdd cr d k v))"
    and "fst (dictAdd cr d k v) = (if dict_map d k = None then DICT_OK else DICT_ERR)"
    and "dict_map (snd (dictAdd cr d k v)) = (if dict_map d k = None then (dict_map d)(k \<mapsto> v) else dict_map d)"
    and "dictSize (snd (dictAdd cr d k v)) = (if dict_map d k = None then Suc (dictSize d) else dictSize d)"
proof -
  obtain ro d' where a: "dictAddRaw cr d k v = (ro, d')" by (cases "dictAddRaw cr d k v")
  note ar = dictAddRaw_props [OF wf room, where cr = cr and k = k and junk = v, unfolded a, simplified]
  have "dict_wf (snd (dictAdd cr d k v)) \<and>
    fst (dictAdd cr d k v) = (if dict_map d k = None then DICT_OK else DICT_ERR) \<and>
    dict_map (snd (dictAdd cr d k v)) = (if dict_map d k = None then (dict_map d)(k \<mapsto> v) else dict_map d) \<and>
    dictSize (snd (dictAdd cr d k v)) = (if dict_map d k = None then Suc (dictSize d) else dictSize d)"
  proof (cases ro)
    case None
    then obtain old where "dict_map d k = Some old" using ar(2) by auto
    moreover from this have same: "same_entries d d'" using ar(3) by simp
    moreover have "dict_map d' = dict_map d" using wf same by (rule same_entries_map)
    moreover have "dictSize d' = dictSize d" using wf ar(1) same by (rule same_entries_size)
    ultimately show ?thesis using None a ar(1) by (simp add: dictAdd_def)
  next
    case (Some r)
    then have n: "dict_map d k = None" using ar(2) by auto
    from ar(4) [OF Some] have r: "valid_ref d' r" "deref d' r = \<lparr>de_key = k, de_val = v\<rparr>"
      and m: "mset (dict_entries d') = add_mset \<lparr>de_key = k, de_val = v\<rparr> (mset (dict_entries d))"
      by (simp_all add: Let_def)
    note sv = dictSetVal_props [OF ar(1) r(1), of v]
    have "dict_map d' = (dict_map d)(k \<mapsto> v)"
      using dict_map_insert(1) [OF dict_wfD(4) [OF ar(1)] m] by simp
    then have map: "dict_map (dictSetVal d' r v) = (dict_map d)(k \<mapsto> v)" using sv(2) r(2) by simp
    have "length (dict_entries d') = Suc (length (dict_entries d))"
      using arg_cong [OF m, of size] by simp
    then have "dictSize (dictSetVal d' r v) = Suc (dictSize d)"
      using sv(1,3) wf by (simp add: dictSize_entries)
    then show ?thesis using Some a n map sv(1) by (simp add: dictAdd_def)
  qed
  then show "dict_wf (snd (dictAdd cr d k v))"
    and "fst (dictAdd cr d k v) = (if dict_map d k = None then DICT_OK else DICT_ERR)"
    and "dict_map (snd (dictAdd cr d k v)) = (if dict_map d k = None then (dict_map d)(k \<mapsto> v) else dict_map d)"
    and "dictSize (snd (dictAdd cr d k v)) = (if dict_map d k = None then Suc (dictSize d) else dictSize d)"
    by blast+
qed

lemma dictReplace_props:
  assumes wf: "dict_wf d" and room: "dictSize d < 2 ^ 29"
  shows "dict_wf (fst (snd (the (dictReplace cr d k v))))"
    and "dict_map (fst (snd (the (dictReplace cr d k v)))) = (dict_map d)(k \<mapsto> v)"
    and "fst (the (dictReplace cr d k v)) = (if dict_map d k = None then 1 else 0)"
    and "snd (snd (the (dictReplace cr d k v))) = (case dict_map d k of None \<Rightarrow> [] | Some old \<Rightarrow> [old])"
    and "dictSize (fst (snd (the (dictReplace cr d k v)))) = (if dict_map d k = None then Suc (dictSize d) else dictSize d)"
    and "dictReplace cr d k v \<noteq> None"
proof -
  obtain ra d1 where a: "dictAdd cr d k v = (ra, d1)" by (cases "dictAdd cr d k v")
  note ad = dictAdd_props [OF wf room, where cr = cr and k = k and v = v, unfolded a, simplified]
  have "dict_wf (fst (snd (the (dictReplace cr d k v)))) \<and>
    dict_map (fst (snd (the (dictReplace cr d k v)))) = (dict_map d)(k \<mapsto> v) \<and>
    fst (the (dictReplace cr d k v)) = (if dict_map d k = None then 1 else 0) \<and>
    snd (snd (the (dictReplace cr d k v))) = (case dict_map d k of None \<Rightarrow> [] | Some old \<Rightarrow> [old]) \<and>
    dictSize (fst (snd (the (dictReplace cr d k v)))) = (if dict_map d k = None then Suc (dictSize d) else dictSize d) \<and>
    dictReplace cr d k v \<noteq> None"
  proof (cases "dict_map d k")
    case None
    then show ?thesis using a ad by (simp add: dictReplace_def)
  next
    case (Some old)
    obtain ro d2 where f: "dictFind d1 k = (ro, d2)" by (cases "dictFind d1 k")
    have m1: "dict_map d1 = dict_map d" using ad(3) Some by simp
    note fp = dictFind_props [OF ad(1), where k = k, unfolded f, simplified]
    obtain r where r: "ro = Some r" using fp(4) m1 Some by auto
    have v: "valid_ref d2 r" "de_key (deref d2 r) = k" "dict_map d1 k = Some (de_val (deref d2 r))"
      using fp(5) [OF r] by simp_all
    note sv = dictSetVal_props [OF fp(1) v(1), of v]
    have "dictSize (dictSetVal d2 r v) = dictSize d2"
      using sv(1,3) fp(1) by (simp add: dictSize_entries)
    also have "\<dots> = dictSize d1" using ad(1) fp(1,3) by (rule same_entries_size)
    finally have sz: "dictSize (dictSetVal d2 r v) = dictSize d" using ad(4) Some by simp
    have "dictReplace cr d k v = Some (0, dictSetVal d2 r v, [old])"
      using a ad(2) f r Some v(3) m1 by (simp add: dictReplace_def)
    then show ?thesis using sv sz Some v(2) fp(2) m1 by simp
  qed
  then show "dict_wf (fst (snd (the (dictReplace cr d k v))))"
    and "dict_map (fst (snd (the (dictReplace cr d k v)))) = (dict_map d)(k \<mapsto> v)"
    and "fst (the (dictReplace cr d k v)) = (if dict_map d k = None then 1 else 0)"
    and "snd (snd (the (dictReplace cr d k v))) = (case dict_map d k of None \<Rightarrow> [] | Some old \<Rightarrow> [old])"
    and "dictSize (fst (snd (the (dictReplace cr d k v)))) = (if dict_map d k = None then Suc (dictSize d) else dictSize d)"
    and "dictReplace cr d k v \<noteq> None"
    by blast+
qed

lemma dictGenericDelete_props:
  assumes wf: "dict_wf d"
  shows "dict_wf (fst (snd (dictGenericDelete d k nofree)))"
    and "dict_map (fst (snd (dictGenericDelete d k nofree))) = (dict_map d)(k := None)"
    and "fst (dictGenericDelete d k nofree) = (if dict_map d k = None then DICT_ERR else DICT_OK)"
    and "snd (snd (dictGenericDelete d k nofree)) =
           (if nofree then [] else case dict_map d k of None \<Rightarrow> [] | Some v \<Rightarrow> [\<lparr>de_key = k, de_val = v\<rparr>])"
    and "dictSize (fst (snd (dictGenericDelete d k nofree))) =
           (if dict_map d k = None then dictSize d else dictSize d - 1)"
proof -
  let ?d = "if dictIsRehashing d then dictRehashStep d else d"
  note st = maybe_step [OF wf]
  note w = dict_wfD [OF st(1)]
  have "dict_wf (fst (snd (dictGenericDelete d k nofree))) \<and>
    dict_map (fst (snd (dictGenericDelete d k nofree))) = (dict_map d)(k := None) \<and>
    fst (dictGenericDelete d k nofree) = (if dict_map d k = None then DICT_ERR else DICT_OK) \<and>
    snd (snd (dictGenericDelete d k nofree)) =
      (if nofree then [] else case dict_map d k of None \<Rightarrow> [] | Some v \<Rightarrow> [\<lparr>de_key = k, de_val = v\<rparr>]) \<and>
    dictSize (fst (snd (dictGenericDelete d k nofree))) =
      (if dict_map d k = None then dictSize d else dictSize d - 1)"
  proof (cases "ht_size (d_ht0 d) = 0")
    case True
    then show ?thesis using wf empty_dict_map [OF wf True] by (simp add: dictGenericDelete_def)
  next
    case False
    then have s: "0 < ht_size (d_ht0 ?d)" using st(3) by simp
    show ?thesis
    proof (cases "dict_search ?d k")
      case None
      then have "dict_map d k = None" using dict_search_None [OF st(1) s] st(5) by simp
      moreover from this have "(dict_map d)(k := None) = dict_map d" by auto
      ultimately show ?thesis using None False st by (simp add: dictGenericDelete_def Let_def)
    next
      case (Some r)
      note se = dict_search_Some [OF st(1) s Some]
      obtain t idx pos where t: "r = (t, idx, pos)" by (cases r)
      let ?e = "deref ?d r"
      let ?ht = "if t = 0 then d_ht0 ?d else d_ht1 ?d"
      let ?d' = "if t = 0 then ?d\<lparr>d_ht0 := ht_unlink idx pos (d_ht0 ?d)\<rparr>
                 else ?d\<lparr>d_ht1 := ht_unlink idx pos (d_ht1 ?d)\<rparr>"
      have i: "idx < length (ht_table ?ht)" "pos < length (ht_table ?ht ! idx)"
        using se(1) t by (simp_all add: Let_def)
      have hw: "ht_wf (d_type ?d) ?ht" using w(2,3) by (cases "t = 0") (simp_all del: st(4))
      note ul = ht_unlink_props [OF hw i]
      have m: "mset (dict_entries ?d) = add_mset ?e (mset (dict_entries ?d'))"
        using ul(2) t by (cases "t = 0") (simp_all add: dict_entries_def)
      note rm = dict_map_remove [OF w(4) m]
      have re: "dictIsRehashing ?d' = dictIsRehashing ?d" by (simp add: dictIsRehashing_def)
      have nt: "\<not> dictIsRehashing ?d \<Longrightarrow> t = 0" using se(1) t by (auto simp: Let_def)
      have empty: "ht_table (ht_unlink idx pos (d_ht0 ?d)) ! j = []"
        if "ht_table (d_ht0 ?d) ! j = []" "t = 0" for j
        using i that by (cases "j = idx") (auto simp: ht_unlink_def)
      have sz: "ht_size (ht_unlink a b h) = ht_size h" for a b and h :: "('a, 'b) dictht"
        by (simp add: ht_unlink_def)
      have wf': "dict_wf ?d'"
      proof (cases "t = 0")
        case True
        then show ?thesis using w ul(1) rm(3) re empty unfolding dict_wf_def by (simp add: sz)
      next
        case False
        then show ?thesis using w ul(1) rm(3) re nt unfolding dict_wf_def by (auto simp: sz)
      qed
      have eq: "dictGenericDelete d k nofree = (DICT_OK, ?d', if nofree then [] else [?e])"
        using False Some t by (simp add: dictGenericDelete_def Let_def)
      have some: "dict_map d k = Some (de_val ?e)" using rm(2) se(2) st(5) by simp
      have e: "?e = \<lparr>de_key = k, de_val = de_val ?e\<rparr>" using se(2) by (cases ?e) simp
      have "length (dict_entries ?d) = Suc (length (dict_entries ?d'))"
        using arg_cong [OF m, of size] by simp
      then have "dictSize ?d' = dictSize d - 1"
        using wf' st(1,6) by (simp add: dictSize_entries)
      then show ?thesis
        unfolding eq using wf' rm(1) se(2) st(5) some e by auto
    qed
  qed
  then show "dict_wf (fst (snd (dictGenericDelete d k nofree)))"
    and "dict_map (fst (snd (dictGenericDelete d k nofree))) = (dict_map d)(k := None)"
    and "fst (dictGenericDelete d k nofree) = (if dict_map d k = None then DICT_ERR else DICT_OK)"
    and "snd (snd (dictGenericDelete d k nofree)) =
           (if nofree then [] else case dict_map d k of None \<Rightarrow> [] | Some v \<Rightarrow> [\<lparr>de_key = k, de_val = v\<rparr>])"
    and "dictSize (fst (snd (dictGenericDelete d k nofree))) =
           (if dict_map d k = None then dictSize d else dictSize d - 1)"
    by blast+
qed

section \<open>Iteration visits every entry once\<close>

text \<open>The keys an iterator has still to return.\<close>

definition pending :: "('k, 'v) dict \<Rightarrow> 'k dictIterator \<Rightarrow> 'k list" where
  "pending d it =
     (case it_entry it of
        None \<Rightarrow> []
      | Some _ \<Rightarrow>
          (case it_nextEntry it of
             None \<Rightarrow> []
           | Some k \<Rightarrow> map de_key (dropWhile (\<lambda>e. de_key e \<noteq> k) (iter_table d it ! nat (it_index it))))) @
     map de_key (concat (drop (nat (it_index it + 1)) (iter_table d it))) @
     (if it_table it = 0 \<and> dictIsRehashing d then map de_key (ht_entries (d_ht1 d)) else [])"

definition iter_ok :: "('k, 'v) dict \<Rightarrow> 'k dictIterator \<Rightarrow> bool" where
  "iter_ok d it \<longleftrightarrow>
     -1 \<le> it_index it \<and>
     (it_entry it \<noteq> None \<longrightarrow> 0 \<le> it_index it \<and> it_index it < int (length (iter_table d it))) \<and>
     (\<forall>k. it_entry it \<noteq> None \<longrightarrow> it_nextEntry it = Some k \<longrightarrow>
        k \<in> de_key ` set (iter_table d it ! nat (it_index it)))"

lemma distinct_concat_chain:
  "distinct (map de_key (concat xss)) \<Longrightarrow> i < length xss \<Longrightarrow> distinct (map de_key (xss ! i))"
  by (induction xss arbitrary: i) (auto simp: nth_Cons split: nat.splits)

lemma dropWhile_key:
  "k \<in> de_key ` set chain \<Longrightarrow>
     \<exists>e rest. dropWhile (\<lambda>e. de_key e \<noteq> k) chain = e # rest \<and> de_key e = k"
  by (induction chain) auto

lemma dropWhile_suffix:
  assumes "distinct (map de_key chain)" "dropWhile (\<lambda>e. de_key e \<noteq> k) chain = e # rest"
  shows "rest = [] \<or> dropWhile (\<lambda>x. de_key x \<noteq> de_key (hd rest)) chain = rest"
  using assms
proof (induction chain)
  case (Cons c chain)
  show ?case
  proof (cases "de_key c = k")
    case True
    with Cons.prems have r: "rest = chain" by simp
    show ?thesis
    proof (cases rest)
      case (Cons x xs)
      then have "de_key c \<noteq> de_key x" using Cons.prems(1) r by auto
      then show ?thesis using Cons unfolding r by simp
    qed simp
  next
    case False
    with Cons.prems have d: "dropWhile (\<lambda>e. de_key e \<noteq> k) chain = e # rest" by simp
    from Cons.IH [OF _ d] Cons.prems
    have ih: "rest = [] \<or> dropWhile (\<lambda>x. de_key x \<noteq> de_key (hd rest)) chain = rest" by simp
    have "rest = [] \<or> hd rest \<in> set chain"
      using d set_dropWhileD [of "hd rest" "\<lambda>e. de_key e \<noteq> k" chain] by (cases rest) auto
    then have "rest = [] \<or> de_key c \<noteq> de_key (hd rest)" using Cons.prems(1) by auto
    with ih show ?thesis by auto
  qed
qed simp


text \<open>The same with \<open>entry\<close> just set and \<open>nextEntry\<close> not yet.\<close>

definition reached :: "('k, 'v) dict \<Rightarrow> 'k dictIterator \<Rightarrow> 'k list" where
  "reached d it =
     (case it_entry it of
        None \<Rightarrow> []
      | Some k \<Rightarrow> map de_key (dropWhile (\<lambda>e. de_key e \<noteq> k) (iter_table d it ! nat (it_index it)))) @
     map de_key (concat (drop (nat (it_index it + 1)) (iter_table d it))) @
     (if it_table it = 0 \<and> dictIsRehashing d then map de_key (ht_entries (d_ht1 d)) else [])"

lemma bucket_head_reached:
  "(case bucket_head chain of None \<Rightarrow> [] | Some k \<Rightarrow> map de_key (dropWhile (\<lambda>e. de_key e \<noteq> k) chain)) =
     map de_key chain"
  by (cases chain) (simp_all add: bucket_head_def)

text \<open>Both tables are small enough for their size to be an \<open>int\<close>.\<close>

definition int_sized :: "('k, 'v) dict \<Rightarrow> bool" where
  "int_sized d \<longleftrightarrow> ht_size (d_ht0 d) < 2 ^ 31 \<and> ht_size (d_ht1 d) < 2 ^ 31"

lemma iter_advance_pending:
  assumes wf: "dict_wf d" and ok: "iter_ok d it" and small: "int_sized d"
  shows "iter_advance d it = Inl it' \<Longrightarrow> pending d it = []"
    and "iter_advance d it = Inr it' \<Longrightarrow> reached d it' = pending d it \<and> 0 \<le> it_index it' \<and>
           it_index it' < int (length (iter_table d it')) \<and>
           (\<forall>k. it_entry it' = Some k \<longrightarrow> k \<in> de_key ` set (iter_table d it' ! nat (it_index it')))"
proof -
  note w = dict_wfD [OF wf]
  have len: "ht_size (if it_table it = 0 then d_ht0 d else d_ht1 d) = length (iter_table d it)"
    using ht_wf_size [OF w(2)] ht_wf_size [OF w(3)] by (simp add: iter_table_def)
  have "length (iter_table d it) < 2 ^ 31" unfolding len [symmetric] using small by (simp add: int_sized_def)
  then have sz: "to_int32 (int (ht_size (if it_table it = 0 then d_ht0 d else d_ht1 d))) = int (length (iter_table d it))"
    unfolding len by (intro to_int32_id) simp_all
  have idx: "-1 \<le> it_index it" using ok by (simp add: iter_ok_def)
  show "iter_advance d it = Inl it' \<Longrightarrow> pending d it = []"
    using sz idx by (auto simp: iter_advance_def pending_def Let_def split: option.splits if_splits)
  have hd: "bucket_head c = Some k \<Longrightarrow> k \<in> de_key ` set c" for c :: "('a, 'b) dictEntry list" and k
    by (cases c) (simp_all add: bucket_head_def)
  show "reached d it' = pending d it \<and> 0 \<le> it_index it' \<and> it_index it' < int (length (iter_table d it')) \<and>
      (\<forall>k. it_entry it' = Some k \<longrightarrow> k \<in> de_key ` set (iter_table d it' ! nat (it_index it')))"
    if adv: "iter_advance d it = Inr it'"
  proof (cases "it_entry it")
    case (Some k0)
    then have "it' = it\<lparr>it_entry := it_nextEntry it\<rparr>" using adv by (simp add: iter_advance_def)
    then show ?thesis
      using Some ok by (auto simp: reached_def pending_def iter_table_def iter_ok_def split: option.splits)
  next
    case None
    let ?i = "it_index it + 1"
    show ?thesis
    proof (cases "int (length (iter_table d it)) \<le> ?i")
      case True
      then have re: "dictIsRehashing d" "it_table it = 0"
        and it': "it' = it\<lparr>it_table := 1, it_index := 0, it_entry := bucket_head (ht_table (d_ht1 d) ! 0)\<rparr>"
        using adv None sz by (auto simp: iter_advance_def Let_def split: if_splits)
      obtain c cs where t1: "ht_table (d_ht1 d) = c # cs"
        using w(7) [OF re(1)] ht_wf_size [OF w(3)] by (cases "ht_table (d_ht1 d)") auto
      have "pending d it = map de_key (concat (c # cs))"
        using True None re t1 by (simp add: pending_def ht_entries_def)
      moreover have e: "it_entry it' = bucket_head c" "nat (it_index it' + 1) = 1"
          "nat (it_index it') = 0" "iter_table d it' = c # cs" "it_table it' = 1"
        using t1 by (simp_all add: it' iter_table_def)
      have "reached d it' = map de_key (concat (c # cs))"
        unfolding reached_def e nth_Cons_0 using bucket_head_reached [of c] by simp
      ultimately show ?thesis using t1 hd by (auto simp: it' iter_table_def)
    next
      case False
      then have it': "it' = it\<lparr>it_index := ?i, it_entry := bucket_head (iter_table d it ! nat ?i)\<rparr>"
        using adv None sz by (auto simp: iter_advance_def Let_def)
      have t: "iter_table d it' = iter_table d it" by (simp add: it' iter_table_def)
      have i: "nat ?i < length (iter_table d it)" using False idx by simp
      have e: "it_entry it' = bucket_head (iter_table d it ! nat ?i)" "nat (it_index it') = nat ?i"
          "it_table it' = it_table it" by (simp_all add: it')
      have "Suc (nat ?i) = nat (it_index it' + 1)" using idx by (simp add: it')
      then have "drop (nat ?i) (iter_table d it) =
            iter_table d it ! nat ?i # drop (nat (it_index it' + 1)) (iter_table d it)"
        using Cons_nth_drop_Suc [OF i] by simp
      then have "pending d it = reached d it'"
        unfolding reached_def e t using bucket_head_reached [of "iter_table d it ! nat ?i"] None
        by (simp add: pending_def)
      moreover have "0 \<le> it_index it'" "it_index it' < int (length (iter_table d it'))"
        using i idx t by (simp_all add: it')
      moreover have "\<forall>k. it_entry it' = Some k \<longrightarrow> k \<in> de_key ` set (iter_table d it' ! nat (it_index it'))"
        using hd t by (auto simp: it')
      ultimately show ?thesis by simp
    qed
  qed
qed

lemma iter_loop_pending:
  assumes wf: "dict_wf d" and small: "int_sized d"
  shows "iter_ok d it \<Longrightarrow>
     (case pending d it of
        [] \<Rightarrow> fst (iter_loop d it) = None
      | k # ks \<Rightarrow> fst (iter_loop d it) = Some k \<and> pending d (snd (iter_loop d it)) = ks \<and>
                 iter_ok d (snd (iter_loop d it)) \<and> 0 \<le> it_index (snd (iter_loop d it)))"
  using wf small
proof (induction d it rule: iter_loop.induct)
  case (1 d it)
  show ?case
  proof (cases "iter_advance d it")
    case (Inl it')
    have "iter_loop d it = (None, it')" by (subst iter_loop.simps) (simp add: Inl)
    with iter_advance_pending(1) [OF "1.prems"(2,1,3) Inl] show ?thesis by simp
  next
    case (Inr it')
    note ap = iter_advance_pending(2) [OF "1.prems"(2,1,3) Inr]
    show ?thesis
    proof (cases "it_entry it'")
      case None
      then have eq: "iter_loop d it = iter_loop d it'" by (subst iter_loop.simps) (simp add: Inr)
      have p: "pending d it' = reached d it'" using None by (simp add: pending_def reached_def)
      have "iter_ok d it'" using ap None by (simp add: iter_ok_def)
      from "1.IH" [OF Inr None this "1.prems"(2,3)] show ?thesis
        unfolding eq p conjunct1 [OF ap] .
    next
      case (Some k)
      let ?chain = "iter_table d it' ! nat (it_index it')"
      let ?it = "it'\<lparr>it_nextEntry := chain_next k ?chain\<rparr>"
      have eq: "iter_loop d it = (Some k, ?it)" by (subst iter_loop.simps) (simp add: Inr Some)
      have t: "iter_table d ?it = iter_table d it'" by (simp add: iter_table_def)
      have "k \<in> de_key ` set ?chain" using ap Some by simp
      from dropWhile_key [OF this]
      obtain e rest where dw: "dropWhile (\<lambda>e. de_key e \<noteq> k) ?chain = e # rest" "de_key e = k"
        by (elim exE conjE)
      have "distinct (map de_key (concat (iter_table d it')))"
        using dict_wfD(4) [OF "1.prems"(2)] by (simp add: iter_table_def dict_entries_def ht_entries_def)
      then have "distinct (map de_key ?chain)"
        by (rule distinct_concat_chain) (use ap in \<open>simp add: nat_less_iff\<close>)
      from dropWhile_suffix [OF this dw(1)]
      have nx: "rest = [] \<or> dropWhile (\<lambda>x. de_key x \<noteq> de_key (hd rest)) ?chain = rest" .
      have cn: "chain_next k ?chain = bucket_head rest" using dw by (simp add: chain_next_def)
      have it: "it_entry ?it = Some k" "it_nextEntry ?it = bucket_head rest"
          "it_index ?it = it_index it'" "it_table ?it = it_table it'" using Some cn by simp_all
      have "(case bucket_head rest of None \<Rightarrow> []
            | Some k \<Rightarrow> map de_key (dropWhile (\<lambda>e. de_key e \<noteq> k) ?chain)) = map de_key rest"
        using nx by (cases rest) (simp_all add: bucket_head_def)
      then have "reached d it' = k # pending d ?it"
        unfolding reached_def pending_def it t Some option.case dw by (simp add: dw(2))
      moreover have "rest \<noteq> [] \<longrightarrow> hd rest \<in> set ?chain"
        using dw(1) set_dropWhileD [of "hd rest" "\<lambda>e. de_key e \<noteq> k" ?chain]
        by (cases rest) auto
      then have "iter_ok d ?it"
        using ap cn t by (cases rest) (auto simp: iter_ok_def bucket_head_def)
      ultimately show ?thesis using eq ap by simp
    qed
  qed
qed


lemma dict_wf_iterators: "dict_wf (d\<lparr>d_iterators := n\<rparr>) = dict_wf d"
  by (simp add: dict_wf_def dict_entries_def dictIsRehashing_def)

lemma pending_cong [simp]:
  "pending (d\<lparr>d_iterators := n\<rparr>) it = pending d it" "iter_ok (d\<lparr>d_iterators := n\<rparr>) it = iter_ok d it"
  "pending d (it\<lparr>it_fingerprint := f\<rparr>) = pending d it" "iter_ok d (it\<lparr>it_fingerprint := f\<rparr>) = iter_ok d it"
  by (simp_all add: pending_def iter_ok_def iter_table_def dictIsRehashing_def split: option.splits)

lemma iterate_pending:
  "dict_wf d \<Longrightarrow> int_sized d \<Longrightarrow> iter_ok d it \<Longrightarrow> length (pending d it) < fuel \<Longrightarrow> iterate fuel d it = pending d it"
proof (induction fuel arbitrary: d it)
  case (Suc fuel)
  obtain d1 it1 where n: "dictNext 0 0 d it = (let (r, it2) = iter_loop d1 it1 in (r, it2, d1))"
    and d1: "dict_wf d1" "int_sized d1" "iter_ok d1 it1" "pending d1 it1 = pending d it"
    using Suc.prems by (simp add: dictNext_def Let_def dict_wf_iterators int_sized_def)
  obtain r it2 where l: "iter_loop d1 it1 = (r, it2)" by (cases "iter_loop d1 it1")
  have d12: "pending d1 it2 = pending d1 it2" ..
  show ?case
  proof (cases "pending d it")
    case Nil
    then show ?thesis using iter_loop_pending [OF d1(1-3)] d1(4) n l by simp
  next
    case (Cons k ks)
    then have "r = Some k" "pending d1 it2 = ks" "iter_ok d1 it2"
      using iter_loop_pending [OF d1(1-3)] d1(4) l by simp_all
    then show ?thesis using Suc.IH [OF d1(1,2), of it2] Suc.prems(4) Cons n l by simp
  qed
qed simp

lemma pending_start:
  "dict_wf d \<Longrightarrow> pending d (dictGetIterator\<lparr>it_safe := b\<rparr>) = map de_key (dict_entries d)"
  using dict_wfD(5) [of d]
  by (simp add: pending_def dictGetIterator_def iter_table_def dict_entries_def ht_entries_def)

lemma iter_ok_start: "iter_ok d (dictGetIterator\<lparr>it_safe := b\<rparr>)"
  by (simp add: iter_ok_def dictGetIterator_def)

lemma pick_bucket_Some:
  "pick_bucket bucket rs = Some (c, rs') \<Longrightarrow> c \<noteq> [] \<and> (\<exists>r\<in>set rs. c = bucket r)"
  by (induction rs) (auto split: if_splits)

lemma random_bucket_entries:
  assumes wf: "dict_wf d" and s: "0 < ht_size (d_ht0 d)"
  shows "set (random_bucket d r) \<subseteq> set (dict_entries d)"
proof (cases "dictIsRehashing d")
  case True
  note w = dict_wfD [OF wf]
  let ?h = "r mod (ht_size (d_ht0 d) + ht_size (d_ht1 d))"
  have h: "?h < ht_size (d_ht0 d) + ht_size (d_ht1 d)" using s by simp
  show ?thesis
  proof (cases "ht_size (d_ht0 d) \<le> ?h")
    case le: True
    then have "?h - ht_size (d_ht0 d) < length (ht_table (d_ht1 d))"
      using h ht_wf_size [OF w(3)] by simp
    from bucket_sound [OF this] show ?thesis
      using True le by (auto simp: random_bucket_def Let_def dict_entries_def)
  next
    case lt: False
    then have "?h < length (ht_table (d_ht0 d))" using ht_wf_size [OF w(2)] by simp
    from bucket_sound [OF this] show ?thesis
      using True lt by (auto simp: random_bucket_def Let_def dict_entries_def)
  qed
next
  case False
  note w = dict_wfD [OF wf]
  obtain n where n: "ht_size (d_ht0 d) = 2 ^ n" "ht_sizemask (d_ht0 d) = 2 ^ n - 1"
    using w(2) s by (rule ht_wf_power)
  have "r AND ht_sizemask (d_ht0 d) < length (ht_table (d_ht0 d))"
    using n ht_wf_size [OF w(2)]
    by (metis mask_eq_exp_minus_1 take_bit_eq_mask take_bit_nat_less_exp)
  then show ?thesis
    using False bucket_sound [of _ "d_ht0 d"] by (auto simp: random_bucket_def dict_entries_def)
qed

lemma dictGetRandomKey_member:
  assumes wf: "dict_wf d" and r: "fst (dictGetRandomKey d rs) = Some (Some e)"
  shows "dict_map d (de_key e) = Some (de_val e)"
proof -
  let ?d = "if dictIsRehashing d then dictRehashStep d else d"
  note st = maybe_step [OF wf]
  from r obtain chain q qs where p: "pick_bucket (random_bucket ?d) rs = Some (chain, q # qs)"
    and e: "e = chain ! (q mod length chain)" and ne: "dictSize d \<noteq> 0"
    by (auto simp: dictGetRandomKey_def Let_def split: if_splits option.splits list.splits)
  have "dict_entries d \<noteq> []" using ne dictSize_entries [OF wf] by auto
  then have "0 < ht_size (d_ht0 d)" using empty_dict_map(1) [OF wf] by auto
  then have s: "0 < ht_size (d_ht0 ?d)" by (rule st(3))
  from pick_bucket_Some [OF p] obtain q' where c: "chain \<noteq> []" "chain = random_bucket ?d q'" by auto
  have "e \<in> set chain" using e c(1) by simp
  then have "e \<in> set (dict_entries ?d)" using c(2) random_bucket_entries [OF st(1) s] by blast
  then have "dict_map ?d (de_key e) = Some (de_val e)"
    using dict_map_Some [OF dict_wfD(4) [OF st(1)]] by blast
  then show ?thesis using st(5) by simp
qed

lemma dom_dict_map: "dom (dict_map d) = de_key ` set (dict_entries d)"
proof (rule set_eqI)
  fix k show "k \<in> dom (dict_map d) \<longleftrightarrow> k \<in> de_key ` set (dict_entries d)"
    using dict_map_None [of d k] by (simp only: domIff not_not)
qed

section \<open>The dictionary as a provider of the store interface\<close>

definition dict_fetch :: "('k, 'v) dict \<Rightarrow> 'k \<Rightarrow> 'v option \<times> ('k, 'v) dict" where
  "dict_fetch d k = dictFetchValue d k"

definition dict_add :: "bool \<Rightarrow> ('k, 'v) dict \<Rightarrow> 'k \<Rightarrow> 'v \<Rightarrow> bool \<times> ('k, 'v) dict" where
  "dict_add cr d k v = (let (r, d') = dictAdd cr d k v in (r = DICT_OK, d'))"

definition dict_replace :: "bool \<Rightarrow> ('k, 'v) dict \<Rightarrow> 'k \<Rightarrow> 'v \<Rightarrow> bool \<times> ('k, 'v) dict" where
  "dict_replace cr d k v = (case dictReplace cr d k v of None \<Rightarrow> (False, d) | Some (r, d', _) \<Rightarrow> (r = 1, d'))"

definition dict_del :: "('k, 'v) dict \<Rightarrow> 'k \<Rightarrow> bool \<times> ('k, 'v) dict" where
  "dict_del d k = (let (r, d', _) = dictDelete d k in (r = DICT_OK, d'))"

definition dict_run ::
    "bool \<Rightarrow> ('k, 'v) dict \<Rightarrow> ('k, 'v) store_op list \<Rightarrow> 'v store_res list \<times> ('k, 'v) dict" where
  "dict_run cr = store_run (store_step dict_fetch (dict_add cr) (dict_replace cr) dict_del)"

definition dict_room :: "nat \<Rightarrow> ('k, 'v) dict \<Rightarrow> bool" where
  "dict_room n d \<longleftrightarrow> dictSize d + n \<le> 2 ^ 29"

lemma dictFetchValue_size: "dict_wf d \<Longrightarrow> dictSize (snd (dictFetchValue d k)) = dictSize d"
  using dictFind_props(1,3) [of d k] same_entries_size [of d "snd (dictFind d k)"]
  by (simp add: dictFetchValue_def split_beta)

interpretation dict: map_store dict_wf dict_room dict_map dict_fetch "dict_add cr" "dict_replace cr" dict_del
  for cr
proof (unfold_locales, goal_cases)
  case (1 d k r d')
  then show ?case using dictFetchValue_props [of d k] by (auto simp: dict_fetch_def)
next
  case (2 d n k v ok d')
  then have "dictSize d < 2 ^ 29" by (simp add: dict_room_def)
  from dictAdd_props [OF 2(1) this, where cr = cr and k = k and v = v] 2 show ?case
    by (auto simp: dict_add_def split: prod.splits)
next
  case (3 d n k v new d')
  then have "dictSize d < 2 ^ 29" by (simp add: dict_room_def)
  from dictReplace_props [OF 3(1) this, where cr = cr and k = k and v = v] 3 show ?case
    by (auto simp: dict_replace_def split: prod.splits option.splits if_splits)
next
  case (4 d k ok d')
  from dictGenericDelete_props [OF 4(1), where k = k and nofree = False] 4 show ?case
    by (auto simp: dict_del_def dictDelete_def split: prod.splits if_splits)
next
  case (5 d n k v)
  then have room: "dictSize d < 2 ^ 29" "dictSize d + Suc n \<le> 2 ^ 29" by (simp_all add: dict_room_def)
  show ?case
    using dictFetchValue_size [OF 5(1), of k]
      dictAdd_props(4) [OF 5(1) room(1), where cr = cr and k = k and v = v]
      dictReplace_props(5) [OF 5(1) room(1), where cr = cr and k = k and v = v]
      dictGenericDelete_props(5) [OF 5(1), where k = k and nofree = False] room(2)
    by (auto simp: dict_fetch_def dict_add_def dict_replace_def dict_del_def dictDelete_def dict_room_def split_beta
        split: option.split)
qed

lemma dict_run_wf:
  assumes "dict_wf d" and "dictSize d + length xs \<le> 2 ^ 29"
  shows "map_run (dict_map d) xs = (fst (dict_run cr d xs), dict_map (snd (dict_run cr d xs)))"
    and "dict_wf (snd (dict_run cr d xs))"
proof -
  have room: "dict_room (length xs) d" using assms(2) by (simp add: dict_room_def)
  obtain rs d' where r: "dict_run cr d xs = (rs, d')" by fastforce
  with dict.run_refines [OF assms(1) room, of cr rs d']
  show "map_run (dict_map d) xs = (fst (dict_run cr d xs), dict_map (snd (dict_run cr d xs)))"
    and "dict_wf (snd (dict_run cr d xs))" by (simp_all add: dict_run_def)
qed

text \<open>
  A dictionary of six entries, caught in the middle of its first rehash: the first of the four
  old buckets has moved to the new table.
\<close>

definition nat_type :: "(nat, nat) dictType" where
  "nat_type = \<lparr>hashFunction = of_nat, keyDup = None, valDup = None, keyCompare = None\<rparr>"

definition nat_entry :: "nat \<Rightarrow> (nat, nat) dictEntry" where
  "nat_entry n = \<lparr>de_key = n, de_val = 10 * n\<rparr>"

definition rehashing_dict :: "(nat, nat) dict" where
  "rehashing_dict =
     \<lparr>d_type = nat_type,
      d_ht0 = \<lparr>ht_table = [[], [nat_entry 1], [nat_entry 2], [nat_entry 7, nat_entry 3]],
               ht_size = 4, ht_sizemask = 3, ht_used = 4\<rparr>,
      d_ht1 = \<lparr>ht_table = [[nat_entry 8], [], [], [], [nat_entry 4], [], [], []],
               ht_size = 8, ht_sizemask = 7, ht_used = 2\<rparr>,
      d_rehashidx = 1, d_iterators = 0\<rparr>"

lemma nat_type_ok: "type_ok nat_type"
  by (simp add: type_ok_def nat_type_def dictCompareKeys_def)

lemma mask_nat_mod: "n AND 3 = n mod 4" "n AND 7 = n mod (8::nat)"
  using take_bit_eq_mask [of 2 n] take_bit_eq_mask [of 3 n]
  by (simp_all add: mask_eq_exp_minus_1 take_bit_eq_mod)

lemma rehashing_dict_wf: "dict_wf rehashing_dict"
proof -
  have h: "hash_idx nat_type 3 n = n mod 4" "hash_idx nat_type 7 n = n mod 8" if "n < 16" for n
    using that mask_nat_mod [of n] by (simp_all add: hash_idx_def nat_type_def unat_of_nat)
  have k: "de_key (nat_entry n) = n" for n by (simp add: nat_entry_def)
  have s: "size_ok 4 3" "size_ok 8 7"
    unfolding size_ok_def
    by (intro disjI2 exI [of _ 2], simp) (intro disjI2 exI [of _ 3], simp)
  have "ht_wf nat_type (d_ht0 rehashing_dict)" "ht_wf nat_type (d_ht1 rehashing_dict)"
    by (simp_all add: ht_wf_def rehashing_dict_def ht_entries_def s h k All_less_Suc)
  then show ?thesis
    by (simp add: dict_wf_def rehashing_dict_def nat_type_ok dictIsRehashing_def dict_entries_def
        ht_entries_def k)
qed

lemma rehashing_dict_facts:
  "dictIsRehashing rehashing_dict" "ht_used (d_ht0 rehashing_dict) < 6" "dictSize rehashing_dict < 9"
  by (simp_all add: rehashing_dict_def dictIsRehashing_def dictSize_def)

text \<open>The same dictionary after one more step.\<close>

definition stepped_dict :: "(nat, nat) dict" where
  "stepped_dict =
     rehashing_dict
       \<lparr>d_ht0 := \<lparr>ht_table = [[], [], [nat_entry 2], [nat_entry 7, nat_entry 3]],
                  ht_size = 4, ht_sizemask = 3, ht_used = 3\<rparr>,
        d_ht1 := \<lparr>ht_table = [[nat_entry 8], [nat_entry 1], [], [], [nat_entry 4], [], [], []],
                  ht_size = 8, ht_sizemask = 7, ht_used = 3\<rparr>,
        d_rehashidx := 2\<rparr>"

lemma rehashing_dict_step: "dictRehashStep rehashing_dict = stepped_dict"
proof -
  have "next_bucket (ht_table (d_ht0 rehashing_dict)) 1 = 1"
    by (simp add: next_bucket.simps rehashing_dict_def)
  then have "rehash_bucket rehashing_dict = stepped_dict"
    by (simp add: rehash_bucket_def stepped_dict_def rehashing_dict_def move_entry_def hash_idx_def
        nat_type_def nat_entry_def mask_nat_mod)
  moreover have "dictRehashStep rehashing_dict = rehash_bucket rehashing_dict"
    by (simp add: dictRehashStep_def dictRehash_def rehashing_dict_facts)
      (simp add: rehashing_dict_def)
  ultimately show ?thesis by simp
qed

section \<open>Properties\<close>

text \<open>C16.
  Refinement.  For every sequence of lookups, insertions, replacements and deletions, a
  dictionary in any state (empty, full, in the middle of a rehash, with iterators open)
  returns exactly what a finite map returns, and ends in a well-formed state that represents
  the final map: chaining, expansion and incremental rehashing cannot be observed.
\<close>

theorem dict_refines_map:
  assumes "dict_wf d" and "dictSize d + length xs \<le> 2 ^ 29"
  shows "fst (dict_run cr d xs) = fst (map_run (dict_map d) xs) \<and>
         dict_map (snd (dict_run cr d xs)) = snd (map_run (dict_map d) xs) \<and>
         dict_wf (snd (dict_run cr d xs))"
  using dict_run_wf [OF assms, of cr] by simp

theorem dict_refines_map_witness:
  "fst (dict_run True (dictCreate nat_type)
          [Add 1 10, Add 5 50, Add 1 11, Replace 5 51, Remove 1, Fetch 1, Fetch 5]) =
   [Done True, Done True, Done False, Done False, Done True, Value None, Value (Some 51)]"
  using dict_refines_map [of "dictCreate nat_type"
      "[Add 1 10, Add 5 50, Add 1 11, Replace 5 51, Remove 1, Fetch 1, Fetch 5]" True]
  by (simp add: dict_wf_create nat_type_ok dict_map_create)

text \<open>C34.
  A rehash in progress ends.  Its assertion holds and the walk to the next chain stays inside
  the table; every step empties a bucket of the old table; strictly more steps than there are
  entries in the old table finish the rehash (the last step only frees the old table), and the
  map is the same at every moment.
\<close>

theorem dictRehash_terminates:
  assumes "dict_wf d" and "dictIsRehashing d"
  shows "dict_wf (snd (dictRehash d n)) \<and> dict_map (snd (dictRehash d n)) = dict_map d \<and>
         (ht_used (d_ht0 d) < n \<longrightarrow>
            fst (dictRehash d n) = 0 \<and> \<not> dictIsRehashing (snd (dictRehash d n))) \<and>
         (ht_used (d_ht0 d) \<noteq> 0 \<longrightarrow>
            d_rehashidx d < int (ht_size (d_ht0 d)) \<and>
            next_bucket (ht_table (d_ht0 d)) (nat (d_rehashidx d)) < ht_size (d_ht0 d) \<and>
            ht_used (d_ht0 (rehash_bucket d)) < ht_used (d_ht0 d))"
proof -
  note rl = rehash_loop_props [OF assms, of n]
  have eq: "dictRehash d n = rehash_loop n d" using assms(2) by (simp add: dictRehash_def)
  have "dict_map (snd (rehash_loop n d)) = dict_map d"
    using same_entries_map [OF assms(1)] rl by blast
  moreover have "d_rehashidx d < int (ht_size (d_ht0 d)) \<and>
      next_bucket (ht_table (d_ht0 d)) (nat (d_rehashidx d)) < ht_size (d_ht0 d) \<and>
      ht_used (d_ht0 (rehash_bucket d)) < ht_used (d_ht0 d)" if "ht_used (d_ht0 d) \<noteq> 0"
    using rehash_bucket_props(4,5,8) [OF assms that] dict_wfD(2,8) [OF assms(1)] assms(2)
    by (simp add: ht_wf_size nat_less_iff)
  moreover have "fst (rehash_loop n d) = 0 \<longrightarrow> \<not> dictIsRehashing (snd (rehash_loop n d))"
    using rl by auto
  ultimately show ?thesis using rl by (simp add: eq)
qed

theorem dictRehash_terminates_witness:
  "\<not> dictIsRehashing (snd (dictRehash rehashing_dict 6)) \<and>
   dict_map (snd (dictRehash rehashing_dict 6)) = dict_map rehashing_dict"
proof -
  show ?thesis
    using dictRehash_terminates [OF rehashing_dict_wf rehashing_dict_facts(1), of 6] rehashing_dict_facts(2)
    by blast
qed

text \<open>C35.
  A complete iteration, safe or not, returns every key of the dictionary exactly once, also
  while the entries are spread over two tables.  The sizes of the tables must fit in an \<open>int\<close>: with
  a table of \<open>2 ^ 31\<close> chains the iteration ends at once.
\<close>

theorem iterate_complete:
  assumes "dict_wf d" and "ht_size (d_ht0 d) < 2 ^ 31" and "ht_size (d_ht1 d) < 2 ^ 31" and "dictSize d < fuel"
  shows "distinct (iterate fuel d (dictGetIterator\<lparr>it_safe := safe\<rparr>)) \<and>
         set (iterate fuel d (dictGetIterator\<lparr>it_safe := safe\<rparr>)) = dom (dict_map d)"
proof -
  have "iterate fuel d (dictGetIterator\<lparr>it_safe := safe\<rparr>) = map de_key (dict_entries d)"
    using iterate_pending [OF assms(1) _ iter_ok_start, of safe fuel] assms
    by (simp add: pending_start dictSize_entries int_sized_def)
  then show ?thesis
    using dict_wfD(4) [OF assms(1)] dom_dict_map [of d] by simp
qed

theorem iterate_complete_witness:
  "set (iterate 9 rehashing_dict (dictGetIterator\<lparr>it_safe := True\<rparr>)) = dom (dict_map rehashing_dict)"
proof -
  have "ht_size (d_ht0 rehashing_dict) < 2 ^ 31" "ht_size (d_ht1 rehashing_dict) < 2 ^ 31"
    by (simp_all add: rehashing_dict_def)
  from iterate_complete [OF rehashing_dict_wf this rehashing_dict_facts(3), of True] show ?thesis by blast
qed

text \<open>
  A table of \<open>2 ^ 31\<close> chains: the cast makes its size negative, so the first call of \<open>dictNext\<close>
  returns \<open>NULL\<close>, whatever the table holds.
\<close>

theorem iterate_wide_table:
  assumes "ht_size (d_ht0 d) = 2 ^ 31" and "\<not> dictIsRehashing d"
  shows "iterate fuel d dictGetIterator = []"
proof -
  have cast: "to_int32 (2 ^ 31) = - (2 ^ 31)" by (simp add: to_int32_def)
  have "iter_advance d (dictGetIterator\<lparr>it_fingerprint := f\<rparr>) = Inl (dictGetIterator\<lparr>it_fingerprint := f, it_index := 0\<rparr>)" for f
    using assms cast by (simp add: iter_advance_def dictGetIterator_def)
  then have "iter_loop d (dictGetIterator\<lparr>it_fingerprint := f\<rparr>) = (None, dictGetIterator\<lparr>it_fingerprint := f, it_index := 0\<rparr>)" for f
    by (subst iter_loop.simps) simp
  then show ?thesis by (cases fuel) (simp_all add: dictNext_def Let_def dictGetIterator_def)
qed

text \<open>
  \<open>_dictNextPower\<close> returns the least power of two that is at least 4 and at least its argument,
  and computes it without wrapping around.
\<close>

theorem dictNextPower_least:
  assumes "sz < LONG_MAX"
  shows "\<exists>n\<ge>2. dictNextPower sz = 2 ^ n \<and> sz \<le> 2 ^ n \<and> (\<forall>m\<ge>2. sz \<le> 2 ^ m \<longrightarrow> n \<le> m) \<and>
               dictNextPower sz < 2 ^ 64"
proof -
  obtain n where n: "2 \<le> n" "dictNextPower sz = 2 ^ n" "sz \<le> 2 ^ n" "n = 2 \<or> 2 ^ (n - 1) < sz"
    using assms by (rule dictNextPower_pow)
  have least: "n \<le> m" if "2 \<le> m" "sz \<le> 2 ^ m" for m
  proof (rule ccontr)
    assume "\<not> n \<le> m"
    then have "(2::nat) ^ m \<le> 2 ^ (n - 1)" by (intro power_increasing) auto
    moreover have "2 ^ (n - 1) < sz" using n(4) that \<open>\<not> n \<le> m\<close> by auto
    ultimately show False using that(2) by linarith
  qed
  have "n \<le> 63" using least [of 63] assms by (simp add: LONG_MAX_def)
  then have "(2::nat) ^ n \<le> 2 ^ 63" by (rule power_increasing) simp
  then have "dictNextPower sz < 2 ^ 64" using n(2) by simp
  with n least show ?thesis by blast
qed

theorem dictNextPower_least_witness:
  "\<exists>n\<ge>2. dictNextPower 1000 = 2 ^ n \<and> 1000 \<le> (2::nat) ^ n"
  using dictNextPower_least [of 1000] by (auto simp: LONG_MAX_def)

text \<open>
  \<open>dictGetRandomKey\<close> never returns an entry that is not in the dictionary, whatever the random
  numbers are, and returns \<open>NULL\<close> exactly for the empty dictionary.
\<close>

theorem dictGetRandomKey_sound:
  assumes "dict_wf d" and "fst (dictGetRandomKey d rs) = Some r"
  shows "case r of None \<Rightarrow> dict_map d = Map.empty
                 | Some e \<Rightarrow> dict_map d (de_key e) = Some (de_val e)"
proof (cases r)
  case None
  then have "dictSize d = 0"
    using assms(2) by (auto simp: dictGetRandomKey_def Let_def split: if_splits option.splits list.splits)
  then have "dict_entries d = []" using dictSize_entries [OF assms(1)] by simp
  with None show ?thesis by (simp add: dict_map_def)
next
  case (Some e)
  then show ?thesis using dictGetRandomKey_member [OF assms(1)] assms(2) by simp
qed

theorem dictGetRandomKey_sound_witness:
  "\<exists>e. fst (dictGetRandomKey rehashing_dict [11, 3, 1]) = Some (Some e) \<and>
        dict_map rehashing_dict (de_key e) = Some (de_val e)"
proof -
  have "random_bucket stepped_dict 11 = []"
    and "random_bucket stepped_dict 3 = [nat_entry 7, nat_entry 3]"
    by (simp_all add: random_bucket_def stepped_dict_def rehashing_dict_def dictIsRehashing_def)
  moreover have "dictSize rehashing_dict \<noteq> 0"
    by (simp add: rehashing_dict_def dictSize_def)
  ultimately have "fst (dictGetRandomKey rehashing_dict [11, 3, 1]) = Some (Some (nat_entry 3))"
    by (simp add: dictGetRandomKey_def rehashing_dict_step rehashing_dict_facts(1))
  from dictGetRandomKey_sound [OF rehashing_dict_wf this] this show ?thesis by auto
qed

end
