(* ===== verification/Intset.thy ===== *)
theory Intset
  imports Store
begin

text \<open>
  \<open>intset.c\<close>: sorted sets of 64 bit integers in one block of memory, with 2, 4 or 8 bytes an
  element.  The contents are modelled byte by byte; the abstraction \<open>intset_vals\<close> reads the
  elements back.  A write that does not stay inside the block is \<open>None\<close>.
\<close>

section \<open>Data and access\<close>

record intset =
  is_encoding :: nat
  is_length :: nat
  is_contents :: "byte list"

abbreviation (input) INTSET_ENC_INT16 :: nat where "INTSET_ENC_INT16 \<equiv> 2"
abbreviation (input) INTSET_ENC_INT32 :: nat where "INTSET_ENC_INT32 \<equiv> 4"
abbreviation (input) INTSET_ENC_INT64 :: nat where "INTSET_ENC_INT64 \<equiv> 8"

definition intsetValueEncoding :: "int \<Rightarrow> nat" where
  "intsetValueEncoding v =
     (if v < INT32_MIN \<or> INT32_MAX < v then INTSET_ENC_INT64
      else if v < INT16_MIN \<or> INT16_MAX < v then INTSET_ENC_INT32
      else INTSET_ENC_INT16)"

text \<open>
  The byte order functions \<open>memrev16ifbe\<close> and its relatives make the stored integers
  little-endian on every host.
\<close>

definition intsetGetEncoded :: "intset \<Rightarrow> nat \<Rightarrow> nat \<Rightarrow> int" where
  "intsetGetEncoded js pos enc =
     (if enc = INTSET_ENC_INT64 then le_sint 8 (take 8 (drop (pos * 8) (is_contents js)))
      else if enc = INTSET_ENC_INT32 then le_sint 4 (take 4 (drop (pos * 4) (is_contents js)))
      else le_sint 2 (take 2 (drop (pos * 2) (is_contents js))))"

definition intsetGet_at :: "intset \<Rightarrow> nat \<Rightarrow> int" where
  "intsetGet_at js pos = intsetGetEncoded js pos (is_encoding js)"

text \<open>Stores and moves inside the block.\<close>

definition put_bytes :: "intset \<Rightarrow> nat \<Rightarrow> byte list \<Rightarrow> intset option" where
  "put_bytes js dst xs =
     (if dst + length xs \<le> length (is_contents js)
      then Some (js\<lparr>is_contents := memcpy (is_contents js) dst xs\<rparr>) else None)"

definition move_bytes :: "intset \<Rightarrow> nat \<Rightarrow> nat \<Rightarrow> nat \<Rightarrow> intset option" where
  "move_bytes js dst src n =
     (if dst + n \<le> length (is_contents js) \<and> src + n \<le> length (is_contents js)
      then Some (js\<lparr>is_contents := memmove (is_contents js) dst src n\<rparr>) else None)"

definition intsetSet :: "intset \<Rightarrow> nat \<Rightarrow> int \<Rightarrow> intset option" where
  "intsetSet js pos v =
     (if is_encoding js = INTSET_ENC_INT64 then put_bytes js (pos * 8) (le_bytes 8 v)
      else if is_encoding js = INTSET_ENC_INT32 then put_bytes js (pos * 4) (le_bytes 4 v)
      else put_bytes js (pos * 2) (le_bytes 2 v))"

definition intsetNew :: intset where
  "intsetNew = \<lparr>is_encoding = INTSET_ENC_INT16, is_length = 0, is_contents = []\<rparr>"

text \<open>
  The size of the block is an \<open>uint32_t\<close>.  The bytes a growing block gains are not initialised
  by \<open>zrealloc\<close>; here they are zero, and every one of them is written before it is read.
\<close>

definition intsetResize :: "intset \<Rightarrow> nat \<Rightarrow> intset" where
  "intsetResize js len =
     (let sz = (len * is_encoding js) mod 2 ^ 32
      in js\<lparr>is_contents := take sz (is_contents js @ replicate sz 0)\<rparr>)"

section \<open>Search\<close>

text \<open>
  The binary search: the values of \<open>min\<close>, \<open>mid\<close> and \<open>cur\<close> after the loop.  They are \<open>int\<close>s;
  for a set within its size limits no sum leaves that range (\<open>search_no_overflow\<close>).
\<close>

function search_loop ::
    "intset \<Rightarrow> int \<Rightarrow> int \<Rightarrow> int \<Rightarrow> int \<Rightarrow> int \<Rightarrow> int \<times> int \<times> int" where
  "search_loop js v lo hi mid cur =
     (if lo \<le> hi then
        let mid' = (lo + hi) div 2; cur' = intsetGet_at js (nat mid')
        in if cur' < v then search_loop js v (mid' + 1) hi mid' cur'
           else if v < cur' then search_loop js v lo (mid' - 1) mid' cur'
           else (lo, mid', cur')
      else (lo, mid, cur))"
  by pat_completeness auto
termination
  by (relation "measure (\<lambda>(js, v, lo, hi, mid, cur). nat (hi + 1 - lo))") auto

declare search_loop.simps [simp del]

definition intsetSearch :: "intset \<Rightarrow> int \<Rightarrow> bool \<times> nat" where
  "intsetSearch js v =
     (if is_length js = 0 then (False, 0)
      else if intsetGet_at js (is_length js - 1) < v then (False, is_length js)
      else if v < intsetGet_at js 0 then (False, 0)
      else case search_loop js v 0 (int (is_length js) - 1) (-1) (-1) of
             (lo, mid, cur) \<Rightarrow> if v = cur then (True, nat mid) else (False, nat lo))"

section \<open>Updates\<close>

text \<open>\<open>while(length--)\<close>: the elements are moved from the last to the first.\<close>

primrec upgrade_loop :: "nat \<Rightarrow> nat \<Rightarrow> nat \<Rightarrow> intset \<Rightarrow> intset option" where
  "upgrade_loop 0 prepend curenc js = Some js"
| "upgrade_loop (Suc n) prepend curenc js =
     Option.bind (intsetSet js (n + prepend) (intsetGetEncoded js n curenc)) (upgrade_loop n prepend curenc)"

definition intsetUpgradeAndAdd :: "intset \<Rightarrow> int \<Rightarrow> intset option" where
  "intsetUpgradeAndAdd js v =
     (let curenc = is_encoding js; newenc = intsetValueEncoding v;
          len = is_length js; prepend = (if v < 0 then 1 else 0);
          js1 = intsetResize (js\<lparr>is_encoding := newenc\<rparr>) (len + 1)
      in Option.bind (upgrade_loop len prepend curenc js1) (\<lambda>js2.
         Option.bind (if prepend = 1 then intsetSet js2 0 v else intsetSet js2 (is_length js2) v) (\<lambda>js3.
         Some (js3\<lparr>is_length := is_length js3 + 1\<rparr>))))"

definition intsetMoveTail :: "intset \<Rightarrow> nat \<Rightarrow> nat \<Rightarrow> intset option" where
  "intsetMoveTail js from to =
     (let bytes = is_length js - from
      in if is_encoding js = INTSET_ENC_INT64 then move_bytes js (to * 8) (from * 8) (bytes * 8 mod 2 ^ 32)
         else if is_encoding js = INTSET_ENC_INT32 then move_bytes js (to * 4) (from * 4) (bytes * 4 mod 2 ^ 32)
         else move_bytes js (to * 2) (from * 2) (bytes * 2 mod 2 ^ 32))"

definition intsetAdd :: "intset \<Rightarrow> int \<Rightarrow> (bool \<times> intset) option" where
  "intsetAdd js v =
     (if is_encoding js < intsetValueEncoding v then map_option (Pair True) (intsetUpgradeAndAdd js v)
      else case intsetSearch js v of
             (True, pos) \<Rightarrow> Some (False, js)
           | (False, pos) \<Rightarrow>
               let js1 = intsetResize js (is_length js + 1)
               in Option.bind (if pos < is_length js1 then intsetMoveTail js1 pos (pos + 1) else Some js1) (\<lambda>js2.
                  Option.bind (intsetSet js2 pos v) (\<lambda>js3.
                  Some (True, js3\<lparr>is_length := is_length js3 + 1\<rparr>))))"

definition intsetRemove :: "intset \<Rightarrow> int \<Rightarrow> (bool \<times> intset) option" where
  "intsetRemove js v =
     (if intsetValueEncoding v \<le> is_encoding js then
        case intsetSearch js v of
          (True, pos) \<Rightarrow>
            let len = is_length js
            in Option.bind (if pos < len - 1 then intsetMoveTail js (pos + 1) pos else Some js) (\<lambda>js1.
               Some (True, (intsetResize js1 (len - 1))\<lparr>is_length := len - 1\<rparr>))
        | (False, pos) \<Rightarrow> Some (False, js)
      else Some (False, js))"

definition intsetFind :: "intset \<Rightarrow> int \<Rightarrow> bool" where
  "intsetFind js v \<longleftrightarrow>
     intsetValueEncoding v \<le> is_encoding js \<and> fst (intsetSearch js v)"

definition intsetRandom :: "intset \<Rightarrow> nat \<Rightarrow> int" where
  "intsetRandom js r = intsetGet_at js (r mod is_length js)"

definition intsetGet :: "intset \<Rightarrow> nat \<Rightarrow> int option" where
  "intsetGet js pos = (if pos < is_length js then Some (intsetGet_at js pos) else None)"

definition intsetLen :: "intset \<Rightarrow> nat" where
  "intsetLen js = is_length js"

definition intsetBlobLen :: "intset \<Rightarrow> nat" where
  "intsetBlobLen js = 8 + (is_length js * is_encoding js) mod 2 ^ 32"

section \<open>Blocks of equal chunks\<close>

abbreviation chunked :: "nat \<Rightarrow> 'a list list \<Rightarrow> bool" where
  "chunked n cs \<equiv> \<forall>c\<in>set cs. length c = n"

lemma length_chunks: "chunked n cs \<Longrightarrow> length (concat cs) = length cs * n"
  by (induction cs) auto

lemma take_chunks: "chunked n cs \<Longrightarrow> take (i * n) (concat cs) = concat (take i cs)"
proof (induction cs arbitrary: i)
  case (Cons c cs)
  then show ?case by (cases i) simp_all
qed simp

lemma drop_chunks: "chunked n cs \<Longrightarrow> drop (i * n) (concat cs) = concat (drop i cs)"
proof (induction cs arbitrary: i)
  case (Cons c cs)
  then show ?case by (cases i) simp_all
qed simp

lemma memcpy_chunks:
  assumes "chunked n cs" "length x = n" "i < length cs"
  shows "memcpy (concat cs) (i * n) x = concat (cs[i := x])"
proof -
  have "i * n + n = Suc i * n" by simp
  then have d: "drop (i * n + n) (concat cs) = concat (drop (Suc i) cs)"
    using drop_chunks [OF assms(1), of "Suc i"] by (simp add: add.commute)
  show ?thesis
    unfolding memcpy_def assms(2) d take_chunks [OF assms(1)]
    using assms(3) by (simp add: upd_conv_take_nth_drop)
qed

lemma memmove_chunks:
  assumes "chunked n cs"
  shows "memmove (concat cs) (i * n) (j * n) (m * n) =
         concat (take i cs @ take m (drop j cs) @ drop (i + m) cs)"
proof -
  have "chunked n (drop j cs)" using assms by (auto dest: in_set_dropD)
  then have "take (m * n) (drop (j * n) (concat cs)) = concat (take m (drop j cs))"
    by (simp add: drop_chunks [OF assms] take_chunks)
  moreover have "drop (i * n + m * n) (concat cs) = concat (drop (i + m) cs)"
    using drop_chunks [OF assms, of "i + m"] by (simp add: algebra_simps)
  ultimately show ?thesis by (simp add: memmove_def take_chunks [OF assms])
qed

lemma chunk_at:
  assumes "chunked n cs" "i < length cs"
  shows "take n (drop (i * n) (concat cs)) = cs ! i"
proof -
  have "drop i cs = cs ! i # drop (Suc i) cs" using assms(2) by (simp add: Cons_nth_drop_Suc)
  then show ?thesis using assms by (simp add: drop_chunks)
qed

section \<open>Encodings\<close>

text \<open>The values that fit in \<open>e\<close> bytes, and the representation of a list of values.\<close>

definition fits :: "nat \<Rightarrow> int \<Rightarrow> bool" where
  "fits e v \<longleftrightarrow> - (2 ^ (8 * e - 1)) \<le> v \<and> v < 2 ^ (8 * e - 1)"

definition enc_ok :: "nat \<Rightarrow> bool" where
  "enc_ok e \<longleftrightarrow> e = 2 \<or> e = 4 \<or> e = 8"

definition chunks :: "nat \<Rightarrow> int list \<Rightarrow> byte list list" where
  "chunks e vs = map (le_bytes e) vs"

lemma chunked_chunks [simp]: "\<forall>c\<in>set (chunks e vs). length c = e"
  by (auto simp: chunks_def)

lemma length_chunks' [simp]: "length (chunks e vs) = length vs"
  by (simp add: chunks_def)

lemma enc_ok_fits:
  assumes "LLONG_MIN \<le> v" "v \<le> LLONG_MAX"
  shows "enc_ok (intsetValueEncoding v)" "enc_ok e \<Longrightarrow> fits e v \<longleftrightarrow> intsetValueEncoding v \<le> e"
  using assms by (auto simp: enc_ok_def intsetValueEncoding_def fits_def)

lemma fits_range: "fits e v \<Longrightarrow> enc_ok e \<Longrightarrow> LLONG_MIN \<le> v \<and> v \<le> LLONG_MAX"
  by (auto simp: enc_ok_def fits_def)

lemma fits_mono: "fits e v \<Longrightarrow> enc_ok e \<Longrightarrow> enc_ok e' \<Longrightarrow> e \<le> e' \<Longrightarrow> fits e' v"
  by (auto simp: enc_ok_def fits_def)

lemma fits_id: "fits e v \<Longrightarrow> enc_ok e \<Longrightarrow> le_sint e (le_bytes e v) = v"
  by (rule le_sint_le_bytes) (auto simp: fits_def enc_ok_def)

lemma get_encoded:
  "enc_ok e \<Longrightarrow> intsetGetEncoded js pos e = le_sint e (take e (drop (pos * e) (is_contents js)))"
  by (auto simp: enc_ok_def intsetGetEncoded_def)

lemma set_contents:
  "enc_ok (is_encoding js) \<Longrightarrow> (pos + 1) * is_encoding js \<le> length (is_contents js) \<Longrightarrow>
   intsetSet js pos v =
     Some (js\<lparr>is_contents := memcpy (is_contents js) (pos * is_encoding js) (le_bytes (is_encoding js) v)\<rparr>)"
  by (auto simp: enc_ok_def intsetSet_def put_bytes_def)

lemma move_contents:
  "enc_ok (is_encoding js) \<Longrightarrow> (is_length js - from) * is_encoding js < 2 ^ 32 \<Longrightarrow>
   (to + (is_length js - from)) * is_encoding js \<le> length (is_contents js) \<Longrightarrow>
   (from + (is_length js - from)) * is_encoding js \<le> length (is_contents js) \<Longrightarrow>
   intsetMoveTail js from to = Some (js\<lparr>is_contents :=
     memmove (is_contents js) (to * is_encoding js) (from * is_encoding js)
       ((is_length js - from) * is_encoding js)\<rparr>)"
  by (auto simp: enc_ok_def intsetMoveTail_def move_bytes_def)

section \<open>Representation and invariant\<close>

definition intset_vals :: "intset \<Rightarrow> int list" where
  "intset_vals js = map (intsetGet_at js) [0..<is_length js]"

text \<open>The block holds exactly the values of a list, each in the set's encoding.\<close>

definition holds :: "intset \<Rightarrow> int list \<Rightarrow> bool" where
  "holds js vs \<longleftrightarrow>
     enc_ok (is_encoding js) \<and> is_length js = length vs \<and>
     is_contents js = concat (chunks (is_encoding js) vs) \<and> (\<forall>v\<in>set vs. fits (is_encoding js) v)"

definition intset_wf :: "intset \<Rightarrow> bool" where
  "intset_wf js \<longleftrightarrow>
     holds js (intset_vals js) \<and> sorted_wrt (<) (intset_vals js) \<and> is_length js < 2 ^ 29"

lemma holds_get:
  assumes "holds js vs" "i < length vs"
  shows "intsetGet_at js i = vs ! i"
proof -
  note h = assms(1) [unfolded holds_def]
  have "take (is_encoding js) (drop (i * is_encoding js) (is_contents js)) = le_bytes (is_encoding js) (vs ! i)"
    using h assms(2) chunk_at [of "chunks (is_encoding js) vs" "is_encoding js" i]
    by (simp add: chunks_def)
  with h assms(2) show ?thesis by (simp add: intsetGet_at_def get_encoded fits_id)
qed

lemma holds_vals: "holds js vs \<Longrightarrow> intset_vals js = vs"
  unfolding intset_vals_def
  by (rule nth_equalityI) (use holds_get in \<open>auto simp: holds_def\<close>)

lemma holds_wf: "holds js vs \<Longrightarrow> sorted_wrt (<) vs \<Longrightarrow> length vs < 2 ^ 29 \<Longrightarrow> intset_wf js"
  by (simp add: intset_wf_def holds_vals) (simp add: holds_def)

lemma wf_intsetNew: "intset_wf intsetNew" "intset_vals intsetNew = []"
  by (simp_all add: intset_wf_def intset_vals_def holds_def intsetNew_def enc_ok_def chunks_def)

lemma wf_get:
  "intset_wf js \<Longrightarrow> i < is_length js \<Longrightarrow> intsetGet_at js i = intset_vals js ! i"
  unfolding intset_wf_def by (rule holds_get) (auto simp: intset_vals_def)

lemma vals_length [simp]: "length (intset_vals js) = is_length js"
  by (simp add: intset_vals_def)

section \<open>Search\<close>

lemma wf_sorted_nth:
  assumes "intset_wf js" "i < j" "j < is_length js"
  shows "intset_vals js ! i < intset_vals js ! j"
  using assms by (auto simp: intset_wf_def intro: sorted_wrt_nth_less)

lemma wf_sorted_nth_le:
  assumes "intset_wf js" "i \<le> j" "j < is_length js"
  shows "intset_vals js ! i \<le> intset_vals js ! j"
  using wf_sorted_nth [OF assms(1), of i j] assms by (cases "i = j") auto

text \<open>
  The loop invariant: everything before \<open>lo\<close> is smaller and everything after \<open>hi\<close> is larger
  than the v; at the end either the probe hit the v, or \<open>lo\<close> is where it belongs.
\<close>

lemma search_loop_props:
  assumes wf: "intset_wf js"
    and "0 \<le> lo" "lo \<le> hi + 1" "hi < int (is_length js)"
    and "\<forall>i<nat lo. intset_vals js ! i < v"
    and "\<forall>i<is_length js. hi < int i \<longrightarrow> v < intset_vals js ! i"
    and "lo \<le> hi \<or> cur \<noteq> v"
    and "search_loop js v lo hi mid cur = (lo', mid', cur')"
  shows "(cur' = v \<longrightarrow> 0 \<le> mid' \<and> mid' < int (is_length js) \<and> intset_vals js ! nat mid' = v) \<and>
         (cur' \<noteq> v \<longrightarrow> 0 \<le> lo' \<and> lo' \<le> int (is_length js) \<and>
            (\<forall>i<nat lo'. intset_vals js ! i < v) \<and>
            (\<forall>i<is_length js. nat lo' \<le> i \<longrightarrow> v < intset_vals js ! i))"
  using assms
proof (induction js v lo hi mid cur rule: search_loop.induct)
  case (1 js v lo hi mid cur)
  note wf = "1.prems"(1) and lo = "1.prems"(2) and hi = "1.prems"(4)
    and below = "1.prems"(5) and above = "1.prems"(6) and res = "1.prems"(8)
  show ?case
  proof (cases "lo \<le> hi")
    case False
    then have "lo' = lo" "cur' = cur" using res by (simp_all add: search_loop.simps)
    moreover have "hi < int i" if "nat lo \<le> i" for i using False that lo by linarith
    ultimately show ?thesis using "1.prems"(2-7) False by auto
  next
    case True
    define m where "m = (lo + hi) div 2"
    have m: "lo \<le> m" "m \<le> hi" using True by (simp_all add: m_def)
    define c where "c = intsetGet_at js (nat m)"
    have ml: "nat m < is_length js" "0 \<le> m" using m lo hi by linarith+
    have c: "c = intset_vals js ! nat m" unfolding c_def by (rule wf_get [OF wf ml(1)])
    have unfold: "search_loop js v lo hi mid cur =
        (if c < v then search_loop js v (m + 1) hi m c
         else if v < c then search_loop js v lo (m - 1) m c else (lo, m, c))"
      using True by (subst search_loop.simps) (simp add: Let_def m_def c_def)
    consider "c < v" | "v < c" | "c = v" by linarith
    then show ?thesis
    proof cases
      case 1
      have "\<forall>i<nat (m + 1). intset_vals js ! i < v"
      proof (intro allI impI)
        fix i assume "i < nat (m + 1)"
        then have "i \<le> nat m" using ml(2) by linarith
        from wf_sorted_nth_le [OF wf this ml(1)] show "intset_vals js ! i < v" using 1 c by simp
      qed
      moreover have "search_loop js v (m + 1) hi m c = (lo', mid', cur')" using res unfold 1 by simp
      ultimately show ?thesis
        using "1.IH"(1) [OF True m_def c_def 1 wf] ml(2) m above hi 1 by simp
    next
      case 2
      have "\<forall>i<is_length js. m - 1 < int i \<longrightarrow> v < intset_vals js ! i"
      proof (intro allI impI)
        fix i assume "i < is_length js" "m - 1 < int i"
        then have "nat m \<le> i" using ml(2) by linarith
        from wf_sorted_nth_le [OF wf this \<open>i < is_length js\<close>] show "v < intset_vals js ! i"
          using 2 c by simp
      qed
      moreover have "search_loop js v lo (m - 1) m c = (lo', mid', cur')" using res unfold 2 by simp
      moreover have n: "\<not> c < v" using 2 by simp
      moreover have "lo \<le> m - 1 + 1" "m - 1 < int (is_length js)" "c \<noteq> v" using m hi 2 by simp_all
      ultimately show ?thesis
        using "1.IH"(2) [OF True m_def c_def n 2 wf lo] below by blast
    next
      case 3
      then have "\<not> c < v" "\<not> v < c" by simp_all
      then have "search_loop js v lo hi mid cur = (lo, m, c)" using unfold by (simp only: if_False)
      then have "mid' = m" "cur' = v" using res 3 by (simp_all only: prod.inject)
      moreover have "intset_vals js ! nat m = v" using c 3 by simp
      ultimately show ?thesis using ml by simp
    qed
  qed
qed


lemma wf_sorted: "intset_wf js \<Longrightarrow> sorted_wrt (<) (intset_vals js)"
  by (simp add: intset_wf_def)

text \<open>A search result is right: an element's position, or the place where it belongs.\<close>

definition split_at :: "int list \<Rightarrow> int \<Rightarrow> nat \<Rightarrow> bool" where
  "split_at vs v pos \<longleftrightarrow> pos \<le> length vs \<and> (\<forall>i<pos. vs ! i < v) \<and> (\<forall>i<length vs. pos \<le> i \<longrightarrow> v < vs ! i)"

lemma intsetSearch_props:
  assumes wf: "intset_wf js" and r: "intsetSearch js v = (found, pos)"
  shows "found \<Longrightarrow> pos < is_length js \<and> intset_vals js ! pos = v"
    and "\<not> found \<Longrightarrow> split_at (intset_vals js) v pos"
proof -
  let ?vs = "intset_vals js" and ?n = "is_length js"
  consider "?n = 0" | "?n \<noteq> 0" "?vs ! (?n - 1) < v" | "?n \<noteq> 0" "v < ?vs ! 0"
    | "?n \<noteq> 0" "v \<le> ?vs ! (?n - 1)" "?vs ! 0 \<le> v" by linarith
  then have "(found \<longrightarrow> pos < ?n \<and> ?vs ! pos = v) \<and> (\<not> found \<longrightarrow> split_at ?vs v pos)"
  proof cases
    case 1
    then show ?thesis using r by (simp add: intsetSearch_def split_at_def)
  next
    case 2
    then have "found = False" "pos = ?n" using r wf by (simp_all add: intsetSearch_def wf_get)
    moreover have "?vs ! i < v" if "i < ?n" for i
      using wf_sorted_nth_le [OF wf, of i "?n - 1"] that 2 by fastforce
    ultimately show ?thesis by (simp add: split_at_def)
  next
    case 3
    then have le: "?vs ! 0 \<le> ?vs ! i" if "i < ?n" for i using wf_sorted_nth_le [OF wf, of 0 i] that by simp
    then have "\<not> ?vs ! (?n - 1) < v" using 3 le [of "?n - 1"] by fastforce
    then have "found = False" "pos = 0" using r wf 3 by (simp_all add: intsetSearch_def wf_get)
    moreover have "v < ?vs ! i" if "i < ?n" for i using le [OF that] 3 by simp
    ultimately show ?thesis by (simp add: split_at_def)
  next
    case 4
    obtain lo mid cur where l: "search_loop js v 0 (int ?n - 1) (-1) (-1) = (lo, mid, cur)"
      using prod_cases3 by blast
    have res: "(found, pos) = (if v = cur then (True, nat mid) else (False, nat lo))"
      using r 4 wf l by (simp add: intsetSearch_def wf_get)
    from search_loop_props [OF wf _ _ _ _ _ _ l] 4(1)
    show ?thesis using res by (auto simp: split_at_def split: if_splits)
  qed
  then show "found \<Longrightarrow> pos < ?n \<and> ?vs ! pos = v" and "\<not> found \<Longrightarrow> split_at ?vs v pos" by simp_all
qed


lemma split_at_insort:
  assumes "sorted_wrt (<) vs" "split_at vs v pos"
  shows "sorted_wrt (<) (take pos vs @ v # drop pos vs)"
    and "set (take pos vs @ v # drop pos vs) = insert v (set vs)" "v \<notin> set vs"
proof -
  have s: "pos \<le> length vs" "\<forall>x\<in>set (take pos vs). x < v" "\<forall>x\<in>set (drop pos vs). v < x"
    using assms(2) by (auto simp: split_at_def in_set_conv_nth)
  have "sorted_wrt (<) (take pos vs @ drop pos vs)" using assms(1) by simp
  then show "sorted_wrt (<) (take pos vs @ v # drop pos vs)"
    using s unfolding sorted_wrt_append by auto
  have vs: "set vs = set (take pos vs) \<union> set (drop pos vs)"
    by (metis append_take_drop_id set_append)
  show "set (take pos vs @ v # drop pos vs) = insert v (set vs)" using vs by auto
  show "v \<notin> set vs" using vs s by fastforce
qed

lemma intsetSearch_mem:
  assumes "intset_wf js"
  shows "fst (intsetSearch js v) \<longleftrightarrow> v \<in> set (intset_vals js)"
proof -
  obtain f p where r: "intsetSearch js v = (f, p)" by fastforce
  note sp = intsetSearch_props [OF assms r]
  show ?thesis
  proof (cases f)
    case True
    then show ?thesis using r sp(1) by (auto simp: in_set_conv_nth)
  next
    case False
    then show ?thesis using r split_at_insort(3) [OF wf_sorted [OF assms] sp(2)] by simp
  qed
qed

section \<open>Updates\<close>

lemma vals_fit: "intset_wf js \<Longrightarrow> x \<in> set (intset_vals js) \<Longrightarrow> fits (is_encoding js) x"
  by (simp add: intset_wf_def holds_def)

lemma wf_holds: "intset_wf js \<Longrightarrow> holds js (intset_vals js)"
  by (simp add: intset_wf_def)

lemma resize_contents:
  assumes "len * is_encoding js < 2 ^ 32"
  shows "intsetResize js len =
    js\<lparr>is_contents := take (len * is_encoding js) (is_contents js @ replicate (len * is_encoding js) 0)\<rparr>"
  using assms by (simp add: intsetResize_def Let_def)

lemma enc_le: "enc_ok e \<Longrightarrow> n < 2 ^ 29 \<Longrightarrow> n * e < 2 ^ 32"
  by (auto simp: enc_ok_def)

lemma grow_chunks:
  assumes "holds js vs" "length vs + 1 < 2 ^ 29"
  shows "intsetResize js (is_length js + 1) =
    js\<lparr>is_contents := concat (chunks (is_encoding js) vs @ [replicate (is_encoding js) 0])\<rparr>"
proof -
  note h = assms(1) [unfolded holds_def]
  have "(length vs + 1) * is_encoding js < 2 ^ 32" using h assms(2) by (intro enc_le) simp_all
  then have "intsetResize js (is_length js + 1) = js\<lparr>is_contents :=
      take ((length vs + 1) * is_encoding js) (is_contents js @ replicate ((length vs + 1) * is_encoding js) 0)\<rparr>"
    using h by (simp add: resize_contents)
  moreover have "length (is_contents js) = length vs * is_encoding js"
    using h length_chunks [OF chunked_chunks] by simp
  ultimately show ?thesis using h by simp
qed

lemma intsetAdd_insert:
  assumes wf: "intset_wf js" and room: "is_length js + 1 < 2 ^ 29"
    and v: "LLONG_MIN \<le> v" "v \<le> LLONG_MAX" and enc: "intsetValueEncoding v \<le> is_encoding js"
    and s: "intsetSearch js v = (False, pos)"
  shows "\<exists>js'. intsetAdd js v = Some (True, js') \<and> is_encoding js' = is_encoding js \<and>
    holds js' (take pos (intset_vals js) @ v # drop pos (intset_vals js))"
proof -
  let ?vs = "intset_vals js" and ?e = "is_encoding js"
  note h = wf_holds [OF wf, unfolded holds_def]
  have pos: "pos \<le> is_length js" using intsetSearch_props(2) [OF wf s] by (simp add: split_at_def)
  define cs where "cs = chunks ?e ?vs @ [replicate ?e 0]"
  have cs: "\<forall>c\<in>set cs. length c = ?e" "length cs = is_length js + 1" by (auto simp: cs_def)
  define js1 where "js1 = js\<lparr>is_contents := concat cs\<rparr>"
  have 1: "intsetResize js (is_length js + 1) = js1"
    using grow_chunks [OF wf_holds [OF wf]] room by (simp add: js1_def cs_def)
  define cs2 where "cs2 = take (pos + 1) cs @ take (is_length js - pos) (drop pos cs)"
  have e: "enc_ok ?e" using h by simp
  have "is_length js - pos < 2 ^ 29" using room by linarith
  then have small: "(is_length js - pos) * ?e < 2 ^ 32" by (rule enc_le [OF e])
  have lc: "length (concat cs) = (is_length js + 1) * ?e" using length_chunks [OF cs(1)] cs(2) by simp
  have 2: "(if pos < is_length js1 then intsetMoveTail js1 pos (pos + 1) else Some js1) = Some (js\<lparr>is_contents := concat cs2\<rparr>)"
  proof (cases "pos < is_length js")
    case True
    have "drop (pos + 1 + (is_length js - pos)) cs = []" using cs(2) pos by simp
    then have "memmove (concat cs) ((pos + 1) * ?e) (pos * ?e) ((is_length js - pos) * ?e) = concat cs2"
      using memmove_chunks [OF cs(1), of "pos + 1" pos "is_length js - pos"]
      by (simp only: cs2_def append_Nil2)
    moreover have "(pos + 1 + (is_length js - pos)) * ?e \<le> length (concat cs)" "(pos + (is_length js - pos)) * ?e \<le> length (concat cs)"
      unfolding lc using pos by (intro mult_right_mono; simp)+
    ultimately have "intsetMoveTail js1 pos (pos + 1) = Some (js\<lparr>is_contents := concat cs2\<rparr>)"
      using move_contents [of js1 pos "pos + 1"] e small by (simp add: js1_def)
    with True show ?thesis by (simp add: js1_def)
  next
    case False
    then show ?thesis using pos cs(2) by (simp add: js1_def cs2_def)
  qed
  have cs2: "\<forall>c\<in>set cs2. length c = ?e" "pos < length cs2"
    using cs pos by (auto simp: cs2_def dest: in_set_takeD in_set_dropD)
  have "(pos + 1) * ?e \<le> length cs2 * ?e" using cs2(2) by (intro mult_right_mono) simp_all
  then have 3: "intsetSet (js\<lparr>is_contents := concat cs2\<rparr>) pos v = Some (js\<lparr>is_contents := concat (cs2[pos := le_bytes ?e v])\<rparr>)"
    using set_contents [of "js\<lparr>is_contents := concat cs2\<rparr>" pos v] h memcpy_chunks [OF cs2(1) length_le_bytes cs2(2)]
      length_chunks [OF cs2(1)] by simp
  have "cs2[pos := le_bytes ?e v] = chunks ?e (take pos ?vs @ v # drop pos ?vs)"
  proof -
    have "take pos cs2 = chunks ?e (take pos ?vs)" "drop (Suc pos) cs2 = chunks ?e (drop pos ?vs)"
    proof -
      have l: "length (take (pos + 1) cs) = Suc pos" using pos cs(2) by simp
      have "drop pos cs = chunks ?e (drop pos ?vs) @ [replicate ?e 0]"
        using pos by (simp add: cs_def chunks_def drop_map)
      then show "drop (Suc pos) cs2 = chunks ?e (drop pos ?vs)"
        using l by (simp add: cs2_def chunks_def)
      show "take pos cs2 = chunks ?e (take pos ?vs)"
        using pos l by (simp add: cs2_def cs_def chunks_def take_map)
    qed
    then show ?thesis using cs2(2) by (simp add: upd_conv_take_nth_drop chunks_def)
  qed
  moreover have "intsetAdd js v = Some (True, js\<lparr>is_contents := concat (cs2[pos := le_bytes ?e v]), is_length := is_length js + 1\<rparr>)"
    using enc unfolding intsetAdd_def s 1 Let_def prod.case bool.case 2 by (simp add: 3)
  ultimately show ?thesis
    using pos e enc enc_ok_fits(2) [OF v e] vals_fit [OF wf]
    by (auto simp: holds_def dest!: in_set_takeD in_set_dropD)
qed

lemma upgrade_loop_props:
  assumes "enc_ok cur" "enc_ok (is_encoding js)" "cur \<le> is_encoding js" "n \<le> length vs"
    and "\<forall>v\<in>set vs. fits cur v"
    and "take (n * cur) (is_contents js) = concat (chunks cur (take n vs))"
    and "(n + p) * is_encoding js \<le> length (is_contents js)"
  shows "\<exists>pre. length pre = p * is_encoding js \<and>
           upgrade_loop n p cur js = Some (js\<lparr>is_contents :=
             pre @ concat (chunks (is_encoding js) (take n vs)) @ drop ((n + p) * is_encoding js) (is_contents js)\<rparr>)"
  using assms(2-)
proof (induction n arbitrary: js)
  case 0
  then show ?case
    by (intro exI [of _ "take (p * is_encoding js) (is_contents js)"]) (simp add: chunks_def)
next
  case (Suc n)
  let ?e = "is_encoding js" and ?c = "is_contents js"
  have n: "n < length vs" using Suc.prems(3) by simp
  have tk: "take n (take (Suc n) vs) = take n vs" "take (Suc n) vs = take n vs @ [vs ! n]"
    using n by (simp_all add: take_Suc_conv_app_nth)
  have t: "take (n * cur) ?c = concat (chunks cur (take n vs))"
  proof -
    have "take (n * cur) (take (Suc n * cur) ?c) = take (n * cur) ?c" by (simp add: min_def)
    moreover have "take (n * cur) (concat (chunks cur (take (Suc n) vs))) = concat (chunks cur (take n vs))"
      using n by (simp add: take_chunks chunks_def take_map)
    ultimately show ?thesis using Suc.prems(5) by metis
  qed
  have "intsetGetEncoded js n cur = vs ! n"
  proof -
    have "take cur (drop (n * cur) ?c) = take cur (drop (n * cur) (take (Suc n * cur) ?c))"
      by (simp add: drop_take)
    also have "\<dots> = le_bytes cur (vs ! n)"
      using n chunk_at [of "chunks cur (take (Suc n) vs)" cur n]
      unfolding Suc.prems(5) by (simp add: chunks_def)
    finally show ?thesis
      using n Suc.prems(4) assms(1) by (simp add: get_encoded fits_id)
  qed
  moreover define c' where "c' = memcpy ?c ((n + p) * ?e) (le_bytes ?e (vs ! n))"
  moreover have len: "(n + p) * ?e + ?e \<le> length ?c" using Suc.prems(6) by (simp add: algebra_simps)
  ultimately have step: "upgrade_loop (Suc n) p cur js = upgrade_loop n p cur (js\<lparr>is_contents := c'\<rparr>)"
    using Suc.prems(1) by (simp add: set_contents add.commute)
  have le: "n * cur \<le> (n + p) * ?e" using Suc.prems(2) by (simp add: mult_mono)
  have lc: "length c' = length ?c" using len by (simp add: c'_def)
  have "take (n * cur) c' = take (n * cur) ?c"
    using le len by (simp add: c'_def memcpy_def min_def)
  with t have t': "take (n * cur) c' = concat (chunks cur (take n vs))" by simp
  have d: "drop ((n + p) * ?e) c' = le_bytes ?e (vs ! n) @ drop ((Suc n + p) * ?e) ?c"
    using len by (simp add: c'_def memcpy_def algebra_simps)
  obtain pre where pre: "length pre = p * ?e"
    "upgrade_loop n p cur (js\<lparr>is_contents := c'\<rparr>) = Some ((js\<lparr>is_contents := c'\<rparr>)\<lparr>is_contents :=
       pre @ concat (chunks ?e (take n vs)) @ drop ((n + p) * ?e) c'\<rparr>)"
    using Suc.IH [of "js\<lparr>is_contents := c'\<rparr>"] Suc.prems(1-4) t' len lc n by auto
  show ?case
    using pre step d tk by (intro exI [of _ pre]) (simp add: chunks_def)
qed

lemma intsetUpgradeAndAdd_holds:
  assumes wf: "intset_wf js" and room: "is_length js + 1 < 2 ^ 29"
    and v: "LLONG_MIN \<le> v" "v \<le> LLONG_MAX" and enc: "is_encoding js < intsetValueEncoding v"
  shows "\<exists>js'. intsetUpgradeAndAdd js v = Some js' \<and> is_encoding js' = intsetValueEncoding v \<and>
    holds js' (if v < 0 then v # intset_vals js else intset_vals js @ [v])"
proof -
  let ?vs = "intset_vals js" and ?cur = "is_encoding js" and ?e = "intsetValueEncoding v"
  note h = wf_holds [OF wf, unfolded holds_def]
  have cur: "enc_ok ?cur" and con: "is_contents js = concat (chunks ?cur ?vs)" using h by simp_all
  have e: "enc_ok ?e" using enc_ok_fits(1) [OF v] .
  have fv: "fits ?e v" using enc_ok_fits(2) [OF v e] by simp
  have fo: "\<forall>x\<in>set ?vs. fits ?cur x" using h by simp
  then have fn: "\<forall>x\<in>set ?vs. fits ?e x" using fits_mono [OF _ cur e] enc by auto
  define p :: nat where "p = (if v < 0 then 1 else 0)"
  let ?n = "is_length js"
  define js1 where "js1 = intsetResize (js\<lparr>is_encoding := ?e\<rparr>) (?n + 1)"
  have "(?n + 1) * ?e < 2 ^ 32" using enc_le [OF e room] .
  then have js1: "js1 = js\<lparr>is_encoding := ?e,
      is_contents := take ((?n + 1) * ?e) (is_contents js @ replicate ((?n + 1) * ?e) 0)\<rparr>"
    using resize_contents [of "?n + 1" "js\<lparr>is_encoding := ?e\<rparr>"] by (simp add: js1_def)
  have lc: "length (is_contents js) = ?n * ?cur"
    unfolding con by (simp add: length_chunks [OF chunked_chunks])
  have le: "?n * ?cur \<le> (?n + 1) * ?e" using enc by (intro mult_mono) simp_all
  have l1: "length (is_contents js1) = (?n + 1) * ?e" using js1 by simp
  have t1: "take (?n * ?cur) (is_contents js1) = concat (chunks ?cur (take ?n ?vs))"
    using js1 le lc con by (simp add: min_def)
  have "(?n + p) * ?e \<le> length (is_contents js1)" unfolding l1 by (intro mult_mono) (simp_all add: p_def)
  then obtain pre where pre: "length pre = p * ?e"
    and up: "upgrade_loop ?n p ?cur js1 = Some (js1\<lparr>is_contents :=
       pre @ concat (chunks ?e ?vs) @ drop ((?n + p) * ?e) (is_contents js1)\<rparr>)"
    using upgrade_loop_props [of ?cur js1 ?n ?vs p] cur e enc fo t1 js1 by auto
  define post where "post = drop ((?n + p) * ?e) (is_contents js1)"
  have post: "length post = (1 - p) * ?e" using l1 by (simp add: post_def p_def)
  define js2 where "js2 = js1\<lparr>is_contents := pre @ concat (chunks ?e ?vs) @ post\<rparr>"
  have js2: "is_encoding js2 = ?e" "is_length js2 = ?n"
    "is_contents js2 = pre @ concat (chunks ?e ?vs) @ post" using js1 by (simp_all add: js2_def)
  have lch: "length (concat (chunks ?e ?vs)) = ?n * ?e"
    using length_chunks [OF chunked_chunks, of ?e ?vs] by simp
  have "\<exists>js3. (if p = 1 then intsetSet js2 0 v else intsetSet js2 (is_length js2) v) = Some js3 \<and>
      is_contents js3 = concat (chunks ?e (if v < 0 then v # ?vs else ?vs @ [v])) \<and>
      is_encoding js3 = ?e \<and> is_length js3 = ?n"
  proof (cases "v < 0")
    case True
    then have "p = 1" "post = []" "length pre = ?e" using post pre by (simp_all add: p_def)
    then show ?thesis using True e js2 by (simp add: set_contents memcpy_def chunks_def)
  next
    case False
    then have "p = 0" "pre = []" "length post = ?e" using post pre by (simp_all add: p_def)
    then show ?thesis using False e js2 lch by (simp add: set_contents memcpy_def chunks_def)
  qed
  then obtain js3 where js3: "(if p = 1 then intsetSet js2 0 v else intsetSet js2 (is_length js2) v) = Some js3"
    "is_contents js3 = concat (chunks ?e (if v < 0 then v # ?vs else ?vs @ [v]))"
    "is_encoding js3 = ?e" "is_length js3 = ?n" by blast
  have "intsetUpgradeAndAdd js v = Some (js3\<lparr>is_length := is_length js3 + 1\<rparr>)"
    unfolding intsetUpgradeAndAdd_def Let_def p_def [symmetric] js1_def [symmetric] up
      post_def [symmetric] Option.bind.bind_lunit js2_def [symmetric] js3(1) by simp
  then show ?thesis using js3 e fv fn by (simp add: holds_def)
qed

lemma upgrade_sorted:
  assumes "intset_wf js" "LLONG_MIN \<le> v" "v \<le> LLONG_MAX" "is_encoding js < intsetValueEncoding v"
  shows "sorted_wrt (<) (if v < 0 then v # intset_vals js else intset_vals js @ [v])"
    and "v \<notin> set (intset_vals js)"
proof -
  have e: "enc_ok (is_encoding js)" using wf_holds [OF assms(1)] by (simp add: holds_def)
  have n: "\<not> fits (is_encoding js) v" using enc_ok_fits(2) [OF assms(2,3) e] assms(4) by simp
  then show "v \<notin> set (intset_vals js)" using vals_fit [OF assms(1)] by auto
  have "(v < 0 \<longrightarrow> v < x) \<and> (\<not> v < 0 \<longrightarrow> x < v)" if "x \<in> set (intset_vals js)" for x
    using vals_fit [OF assms(1) that] n by (auto simp: fits_def)
  with wf_sorted [OF assms(1)] show "sorted_wrt (<) (if v < 0 then v # intset_vals js else intset_vals js @ [v])"
    by (auto simp: sorted_wrt_append)
qed

lemma intsetAdd_props:
  assumes wf: "intset_wf js" and room: "is_length js + 1 < 2 ^ 29"
    and v: "LLONG_MIN \<le> v" "v \<le> LLONG_MAX" and r: "intsetAdd js v = Some (ok, js')"
  shows "intset_wf js'" "ok = (v \<notin> set (intset_vals js))"
    "intset_vals js' = (if ok then insort v (intset_vals js) else intset_vals js)"
    "set (intset_vals js') = insert v (set (intset_vals js))"
    "is_length js' \<le> is_length js + 1"
    "is_encoding js' = max (is_encoding js) (intsetValueEncoding v)"
proof -
  let ?vs = "intset_vals js"
  have e: "enc_ok (is_encoding js)" using wf_holds [OF wf] by (simp add: holds_def)
  have ins: "intset_wf js' \<and> intset_vals js' = insort v ?vs \<and>
      set (intset_vals js') = insert v (set ?vs) \<and> is_length js' \<le> is_length js + 1"
    if "holds js' vs'" "sorted_wrt (<) vs'" "set vs' = insert v (set ?vs)" "length vs' = is_length js + 1" "v \<notin> set ?vs" for vs'
  proof -
    have "vs' = insort v ?vs"
      using that wf_sorted [OF wf] strict_sorted_equal [of vs' "insort v ?vs"]
      by (simp add: strict_sorted_iff set_insort_key distinct_insort sorted_insort)
    then show ?thesis
      using that holds_vals [OF that(1)] holds_wf [OF that(1,2)] room by (simp add: holds_def set_insort_key)
  qed
  have "intset_wf js' \<and> ok = (v \<notin> set ?vs) \<and>
    intset_vals js' = (if ok then insort v ?vs else ?vs) \<and>
    set (intset_vals js') = insert v (set ?vs) \<and> is_length js' \<le> is_length js + 1 \<and>
    is_encoding js' = max (is_encoding js) (intsetValueEncoding v)"
  proof (cases "is_encoding js < intsetValueEncoding v")
    case True
    then have "ok" "intsetUpgradeAndAdd js v = Some js'" using r by (auto simp: intsetAdd_def)
    moreover have "set (if v < 0 then v # ?vs else ?vs @ [v]) = insert v (set ?vs)"
      and "length (if v < 0 then v # ?vs else ?vs @ [v]) = is_length js + 1" by simp_all
    ultimately show ?thesis
      using ins [OF _ upgrade_sorted(1) [OF wf v True]] intsetUpgradeAndAdd_holds [OF wf room v True]
        upgrade_sorted(2) [OF wf v True] True by (simp add: set_insort_key)
  next
    case False
    then have enc: "intsetValueEncoding v \<le> is_encoding js" by simp
    obtain f pos where s: "intsetSearch js v = (f, pos)" by fastforce
    show ?thesis
    proof (cases f)
      case True
      then have "\<not> ok" "js' = js" using r False s by (simp_all add: intsetAdd_def)
      moreover have "v \<in> set ?vs" using intsetSearch_mem [OF wf] s True by (metis fst_conv)
      ultimately show ?thesis using wf enc by (auto simp: insert_absorb)
    next
      case f: False
      then have s': "intsetSearch js v = (False, pos)" using s by simp
      note ai = intsetAdd_insert [OF wf room v enc s']
      note sp = split_at_insort [OF wf_sorted [OF wf] intsetSearch_props(2) [OF wf s']]
      have "pos \<le> is_length js" using intsetSearch_props(2) [OF wf s'] by (simp add: split_at_def)
      then have l: "length (take pos ?vs @ v # drop pos ?vs) = is_length js + 1" by simp
      have "ok" "holds js' (take pos ?vs @ v # drop pos ?vs)" "is_encoding js' = is_encoding js" using r ai by auto
      then show ?thesis using ins [OF _ sp(1,2) l sp(3)] sp(3) enc
        by (simp add: set_insort_key)
    qed
  qed
  then show "intset_wf js'" "ok = (v \<notin> set (intset_vals js))"
    "intset_vals js' = (if ok then insort v (intset_vals js) else intset_vals js)"
    "set (intset_vals js') = insert v (set (intset_vals js))"
    "is_length js' \<le> is_length js + 1"
    "is_encoding js' = max (is_encoding js) (intsetValueEncoding v)" by blast+
qed

lemma intsetAdd_total:
  assumes "intset_wf js" "is_length js + 1 < 2 ^ 29" "LLONG_MIN \<le> v" "v \<le> LLONG_MAX"
  obtains ok js' where "intsetAdd js v = Some (ok, js')"
proof (cases "is_encoding js < intsetValueEncoding v")
  case True
  then show thesis using intsetUpgradeAndAdd_holds [OF assms True] that by (auto simp: intsetAdd_def)
next
  case False
  then have enc: "intsetValueEncoding v \<le> is_encoding js" by simp
  obtain f pos where s: "intsetSearch js v = (f, pos)" by fastforce
  show thesis
  proof (cases f)
    case True
    then show thesis using that s False by (simp add: intsetAdd_def)
  next
    case f: False
    with s have "intsetSearch js v = (False, pos)" by simp
    from intsetAdd_insert [OF assms enc this] show thesis using that by blast
  qed
qed

lemma wf_shrink:
  "intset_wf js \<Longrightarrow> v \<in> set (intset_vals js) \<Longrightarrow> LLONG_MIN \<le> v \<and> v \<le> LLONG_MAX"
  by (rule fits_range [OF vals_fit]) (auto simp: intset_wf_def holds_def)

lemma intsetRemove_props:
  assumes wf: "intset_wf js" and v: "LLONG_MIN \<le> v" "v \<le> LLONG_MAX"
    and r: "intsetRemove js v = Some (ok, js')"
  shows "intset_wf js'" "ok = (v \<in> set (intset_vals js))"
    "intset_vals js' = remove1 v (intset_vals js)"
    "set (intset_vals js') = set (intset_vals js) - {v}"
    "is_length js' \<le> is_length js" "is_encoding js' = is_encoding js"
proof -
  let ?vs = "intset_vals js" and ?e = "is_encoding js" and ?n = "is_length js"
  note h = wf_holds [OF wf, unfolded holds_def]
  have e: "enc_ok ?e" and con: "is_contents js = concat (chunks ?e ?vs)" using h by simp_all
  have dist: "distinct ?vs" using wf_sorted [OF wf] by (simp add: strict_sorted_iff)
  have no: "intset_wf js' \<and> ok = (v \<in> set ?vs) \<and> intset_vals js' = remove1 v ?vs \<and>
      is_length js' \<le> ?n \<and> is_encoding js' = ?e" if "v \<notin> set ?vs" "js' = js" "\<not> ok"
    using that wf by (simp add: remove1_idem)
  have main: "intset_wf js' \<and> ok = (v \<in> set ?vs) \<and> intset_vals js' = remove1 v ?vs \<and>
      is_length js' \<le> ?n \<and> is_encoding js' = ?e"
  proof (cases "intsetValueEncoding v \<le> ?e")
    case False
    then have "v \<notin> set ?vs" using vals_fit [OF wf, of v] enc_ok_fits(2) [OF v e] by blast
    moreover have "js' = js" "\<not> ok" using r False by (simp_all add: intsetRemove_def)
    ultimately show ?thesis by (rule no)
  next
    case enc: True
    obtain f pos where s: "intsetSearch js v = (f, pos)" by fastforce
    show ?thesis
    proof (cases f)
      case False
      then have "v \<notin> set ?vs" using intsetSearch_mem [OF wf, of v] s by simp
      moreover have "js' = js" "\<not> ok" using r enc s False by (simp_all add: intsetRemove_def)
      ultimately show ?thesis by (rule no)
    next
      case True
      then have s': "intsetSearch js v = (True, pos)" using s by simp
      have pos: "pos < ?n" and at: "?vs ! pos = v" using intsetSearch_props(1) [OF wf s'] by simp_all
      have n30: "?n - 1 < 2 ^ 29" using wf unfolding intset_wf_def by linarith
      define cs where "cs = chunks ?e ?vs"
      have cs: "\<forall>c\<in>set cs. length c = ?e" "length cs = ?n" by (simp_all add: cs_def)
      have n29: "m \<le> ?n \<Longrightarrow> m * ?e < 2 ^ 32" for m
        using wf e by (intro enc_le) (simp_all add: intset_wf_def)
      define cs1 where "cs1 = (if pos < ?n - 1
        then take pos cs @ take (?n - (pos + 1)) (drop (pos + 1) cs) @ drop (pos + (?n - (pos + 1))) cs else cs)"
      have 1: "(if pos < ?n - 1 then intsetMoveTail js (pos + 1) pos else Some js) = Some (js\<lparr>is_contents := concat cs1\<rparr>)"
      proof (cases "pos < ?n - 1")
        case True
        have "(?n - (pos + 1)) * ?e < 2 ^ 32" by (rule n29) simp
        moreover have "length (is_contents js) = ?n * ?e" using length_chunks [OF cs(1)] cs(2) con by (simp add: cs_def)
        then have "(pos + (?n - (pos + 1))) * ?e \<le> length (is_contents js)" "(pos + 1 + (?n - (pos + 1))) * ?e \<le> length (is_contents js)"
          using pos by (simp_all add: mult_right_mono)
        ultimately have "intsetMoveTail js (pos + 1) pos = Some (js\<lparr>is_contents :=
            memmove (is_contents js) (pos * ?e) ((pos + 1) * ?e) ((?n - (pos + 1)) * ?e)\<rparr>)"
          by (rule move_contents [OF e])
        with memmove_chunks [OF cs(1), of pos "pos + 1" "?n - (pos + 1)"] True con
        show ?thesis by (simp only: cs_def [symmetric] cs1_def if_True)
      next
        case False
        then show ?thesis using con by (simp add: cs1_def cs_def)
      qed
      have cs1: "\<forall>c\<in>set cs1. length c = ?e" "length cs1 = ?n"
        using cs pos by (auto simp: cs1_def dest: in_set_takeD in_set_dropD)
      have tk: "take (?n - 1) cs1 = chunks ?e (remove1 v ?vs)"
      proof -
        have "remove1 v ?vs = take pos ?vs @ drop (Suc pos) ?vs"
        proof -
          have "?vs = take pos ?vs @ v # drop (Suc pos) ?vs" using pos at id_take_nth_drop [of pos ?vs] by simp
          moreover from this have "v \<notin> set (take pos ?vs)" using dist by (metis disjoint_insert(1) distinct_append list.simps(15))
          ultimately show ?thesis by (metis remove1.simps(2) remove1_append)
        qed
        moreover have "take (?n - 1) cs1 = take pos cs @ drop (Suc pos) cs"
        proof (cases "pos < ?n - 1")
          case True
          then show ?thesis using pos cs(2) by (simp add: cs1_def)
        next
          case False
          then have "?n = Suc pos" using pos by simp
          then show ?thesis using cs(2) by (simp add: cs1_def)
        qed
        ultimately show ?thesis by (simp add: cs_def chunks_def take_map drop_map)
      qed
      have "(?n - 1) * ?e < 2 ^ 32" by (rule n29) simp
      then have 2: "intsetResize (js\<lparr>is_contents := concat cs1\<rparr>) (?n - 1) =
          js\<lparr>is_contents := concat (chunks ?e (remove1 v ?vs))\<rparr>"
      proof -
        have "(?n - 1) * ?e \<le> length (concat cs1)" unfolding length_chunks [OF cs1(1)] cs1(2) by simp
        then show ?thesis
          using resize_contents [of "?n - 1" "js\<lparr>is_contents := concat cs1\<rparr>"] \<open>(?n - 1) * ?e < 2 ^ 32\<close>
            take_chunks [OF cs1(1), of "?n - 1"] tk by simp
      qed
      have js': "ok" "js' = js\<lparr>is_contents := concat (chunks ?e (remove1 v ?vs)), is_length := ?n - 1\<rparr>"
        using r enc unfolding intsetRemove_def s' Let_def 1 prod.case bool.case Option.bind.bind_lunit 2 by simp_all
      have vin: "v \<in> set ?vs" using pos at by (metis nth_mem vals_length)
      have "holds js' (remove1 v ?vs)"
        unfolding holds_def js'(2) using e vin vals_fit [OF wf] by (auto simp: length_remove1 dest: notin_set_remove1)
      moreover have "sorted_wrt (<) (remove1 v ?vs)"
        using wf_sorted [OF wf] by (simp add: strict_sorted_iff sorted_remove1 distinct_remove1)
      moreover have "length (remove1 v ?vs) < 2 ^ 29"
        using vin n30 by (simp add: length_remove1)
      ultimately show ?thesis using holds_wf holds_vals js' vin by simp
    qed
  qed
  then show "intset_wf js'" "ok = (v \<in> set ?vs)" "intset_vals js' = remove1 v ?vs"
    "set (intset_vals js') = set ?vs - {v}" "is_length js' \<le> ?n" "is_encoding js' = ?e"
    using dist by simp_all
qed


lemma intsetRemove_total:
  assumes wf: "intset_wf js"
  obtains ok js' where "intsetRemove js v = Some (ok, js')"
proof -
  let ?n = "is_length js" and ?e = "is_encoding js"
  note h = wf_holds [OF wf, unfolded holds_def]
  have e: "enc_ok ?e" using h by simp
  have len: "length (is_contents js) = ?n * ?e"
    using h length_chunks [OF chunked_chunks, of ?e "intset_vals js"] by simp
  have m: "intsetMoveTail js (pos + 1) pos \<noteq> None" if "pos < ?n - 1" for pos
  proof -
    have "?n < 2 ^ 29" using wf unfolding intset_wf_def by blast
    then have "?n - (pos + 1) < 2 ^ 29" by linarith
    then have b: "(?n - (pos + 1)) * ?e < 2 ^ 32" by (rule enc_le [OF e])
    have "(pos + (?n - (pos + 1))) * ?e \<le> length (is_contents js)" "(pos + 1 + (?n - (pos + 1))) * ?e \<le> length (is_contents js)"
      unfolding len using that by (intro mult_right_mono; simp)+
    then show ?thesis using move_contents [OF e b] by simp
  qed
  obtain f pos where "intsetSearch js v = (f, pos)" by fastforce
  then have "intsetRemove js v \<noteq> None"
    using m [of pos]
    by (cases f; cases "pos < ?n - 1"; cases "intsetMoveTail js (pos + 1) pos"; cases "intsetValueEncoding v \<le> ?e")
      (simp_all add: intsetRemove_def Let_def)
  then obtain r where "intsetRemove js v = Some r" by blast
  then show thesis using that by (cases r) simp
qed

section \<open>The integer set as a provider of the set interface\<close>

definition int64 :: "int \<Rightarrow> bool" where
  "int64 v \<longleftrightarrow> LLONG_MIN \<le> v \<and> v \<le> LLONG_MAX"

definition intset_room :: "nat \<Rightarrow> intset \<Rightarrow> bool" where
  "intset_room n js \<longleftrightarrow> is_length js + n < 2 ^ 29"

definition intset_set :: "intset \<Rightarrow> int set" where
  "intset_set js = set (intset_vals js)"

definition intset_add :: "intset \<Rightarrow> int \<Rightarrow> bool \<times> intset" where
  "intset_add js v = (case intsetAdd js v of None \<Rightarrow> (False, js) | Some r \<Rightarrow> r)"

definition intset_del :: "intset \<Rightarrow> int \<Rightarrow> bool \<times> intset" where
  "intset_del js v = (case intsetRemove js v of None \<Rightarrow> (False, js) | Some r \<Rightarrow> r)"

definition intset_mem :: "intset \<Rightarrow> int \<Rightarrow> bool \<times> intset" where
  "intset_mem js v = (intsetFind js v, js)"

lemma intsetFind_mem:
  assumes "intset_wf js" "int64 v"
  shows "intsetFind js v \<longleftrightarrow> v \<in> set (intset_vals js)"
proof -
  have e: "enc_ok (is_encoding js)" using wf_holds [OF assms(1)] by (simp add: holds_def)
  have "v \<notin> set (intset_vals js)" if "\<not> intsetValueEncoding v \<le> is_encoding js"
    using that vals_fit [OF assms(1), of v] enc_ok_fits(2) [of v, OF _ _ e] assms(2)
    by (auto simp: int64_def)
  then show ?thesis using intsetSearch_mem [OF assms(1)] by (auto simp: intsetFind_def)
qed

interpretation intset: set_store intset_wf intset_room int64 intset_set intset_add intset_del intset_mem
proof (unfold_locales, goal_cases)
  case (1 d n e ok d')
  then have r: "is_length d + 1 < 2 ^ 29" "LLONG_MIN \<le> e" "e \<le> LLONG_MAX"
    by (simp_all add: intset_room_def int64_def)
  obtain b js where "intsetAdd d e = Some (b, js)" by (rule intsetAdd_total [OF 1(1) r])
  then have a: "intsetAdd d e = Some (ok, d')" using 1(4) by (simp add: intset_add_def)
  show ?case
    using intsetAdd_props [OF 1(1) r a] 1(2) by (simp add: intset_room_def intset_set_def)
next
  case (2 d n e ok d')
  then have r: "LLONG_MIN \<le> e" "e \<le> LLONG_MAX" by (simp_all add: int64_def)
  obtain b js where "intsetRemove d e = Some (b, js)" by (rule intsetRemove_total [OF 2(1)])
  then have a: "intsetRemove d e = Some (ok, d')" using 2(4) by (simp add: intset_del_def)
  show ?case
    using intsetRemove_props [OF 2(1) r a] 2(2) by (simp add: intset_room_def intset_set_def)
next
  case (3 d n e ok d')
  then show ?case by (auto simp: intset_mem_def intsetFind_mem intset_set_def intset_room_def)
qed

definition intset_run :: "intset \<Rightarrow> int set_op list \<Rightarrow> bool list \<times> intset" where
  "intset_run = store_run (set_impl_step intset_add intset_del intset_mem)"

section \<open>Properties\<close>

text \<open>C21.
  Refinement.  For every sequence of insertions, removals and membership tests of 64 bit
  integers, an integer set answers what a mathematical set answers, through every change of
  encoding, and its elements are the set's elements in increasing order.
\<close>

theorem intset_refines_set:
  assumes "intset_wf js" and "is_length js + length xs < 2 ^ 29"
    and "\<forall>x\<in>set xs. LLONG_MIN \<le> set_elem x \<and> set_elem x \<le> LLONG_MAX"
  shows "fst (intset_run js xs) = fst (store_run set_step (set (intset_vals js)) xs) \<and>
         intset_vals (snd (intset_run js xs)) =
           sorted_list_of_set (snd (store_run set_step (set (intset_vals js)) xs)) \<and>
         intset_wf (snd (intset_run js xs))"
proof -
  obtain rs js' where r: "intset_run js xs = (rs, js')" by fastforce
  have "intset_wf js' \<and> store_run set_step (intset_set js) xs = (rs, intset_set js')"
    using intset.set_run_refines [OF assms(1), of xs rs js'] assms(2,3) r
    by (simp add: intset_run_def intset_room_def int64_def)
  then show ?thesis
    using r wf_sorted [of js'] by (simp add: intset_set_def strict_sorted_iff sorted_list_of_set_unique
        sorted_distinct_set_unique)
qed

theorem intset_refines_set_witness:
  "fst (intset_run intsetNew [Insert 5, Insert 70000, Insert (-3), Insert 5, Delete 70000, Member 5, Member 70000]) =
     [True, True, True, False, True, True, False]"
  using intset_refines_set [of intsetNew
      "[Insert 5, Insert 70000, Insert (-3), Insert 5, Delete 70000, Member 5, Member 70000]"]
  by (simp add: wf_intsetNew) (simp add: intsetNew_def)

text \<open>C36.
  \<open>intsetSearch\<close>, a binary search with two shortcuts, finds exactly the elements, at their
  position; for any other value it returns the position where the value belongs, so that
  inserting it there keeps the elements sorted.
\<close>

theorem intsetSearch_correct:
  assumes "intset_wf js" and "intsetSearch js v = (found, pos)"
  shows "found = (v \<in> set (intset_vals js)) \<and>
         (if found then pos < intsetLen js \<and> intsetGet js pos = Some v
          else pos \<le> intsetLen js \<and>
               sorted_wrt (<) (take pos (intset_vals js) @ v # drop pos (intset_vals js)))"
proof (cases found)
  case True
  then show ?thesis
    using intsetSearch_props(1) [OF assms] wf_get [OF assms(1)]
    by (auto simp: intsetGet_def intsetLen_def in_set_conv_nth)
next
  case False
  note s = intsetSearch_props(2) [OF assms False]
  show ?thesis
    using False split_at_insort [OF wf_sorted [OF assms(1)] s] s by (simp add: intsetLen_def split_at_def)
qed

definition two_ints :: intset where
  "two_ints = \<lparr>is_encoding = 2, is_length = 2, is_contents = [5, 0, 255, 1]\<rparr>"

lemma two_ints: "intset_wf two_ints" "intset_vals two_ints = [5, 511]"
  "is_length two_ints = 2" "is_encoding two_ints = 2"
proof -
  have v: "intset_vals two_ints = [5, 511]"
    by (simp add: intset_vals_def two_ints_def intsetGet_at_def intsetGetEncoded_def le_sint_def
        signed_take_bit_id upt_rec)
  show "intset_vals two_ints = [5, 511]" by (fact v)
  show "is_length two_ints = 2" "is_encoding two_ints = 2" by (simp_all add: two_ints_def)
  have b: "le_bytes 2 n = [word_of_int n, word_of_int (n div 256)]" for n
    by (simp add: numeral_2_eq_2)
  show "intset_wf two_ints"
    unfolding intset_wf_def v holds_def
    by (simp add: two_ints_def enc_ok_def chunks_def fits_def b)
qed

theorem intsetSearch_correct_witness:
  "\<exists>pos. intsetSearch two_ints 7 = (False, pos) \<and> pos \<le> 2 \<and>
      sorted_wrt (<) (take pos [5, 511] @ (7 :: int) # drop pos [5, 511])"
proof -
  obtain f p where r: "intsetSearch two_ints 7 = (f, p)" by fastforce
  show ?thesis using intsetSearch_correct [OF two_ints(1) r] r by (cases f) (simp_all add: two_ints intsetLen_def)
qed

text \<open>C37.
  \<open>intsetAdd\<close> on every branch: a value already present changes nothing; a new value is put at
  its place in the order, the encoding becomes the wider of the set's and the value's, the
  block holds exactly the elements in that encoding, and every store stays inside the block.
\<close>

theorem intsetAdd_functional:
  assumes "intset_wf js" and "is_length js + 1 < 2 ^ 29" and "LLONG_MIN \<le> v" and "v \<le> LLONG_MAX"
  shows "case intsetAdd js v of None \<Rightarrow> False | Some (ok, js') \<Rightarrow>
           ok = (v \<notin> set (intset_vals js)) \<and>
           intset_vals js' = (if ok then insort v (intset_vals js) else intset_vals js) \<and>
           is_encoding js' = max (is_encoding js) (intsetValueEncoding v) \<and>
           is_contents js' = concat (map (le_bytes (is_encoding js')) (intset_vals js'))"
proof -
  obtain ok js' where r: "intsetAdd js v = Some (ok, js')" using assms by (rule intsetAdd_total)
  note p = intsetAdd_props [OF assms r]
  show ?thesis unfolding r option.case prod.case
    using p(2,3,6) wf_holds [OF p(1)] by (simp add: holds_def chunks_def)
qed

theorem intsetAdd_functional_witness:
  "\<exists>js. intsetAdd two_ints 70000 = Some (True, js) \<and> intset_vals js = [5, 511, 70000] \<and> is_encoding js = 4"
  using intsetAdd_functional [OF two_ints(1), of 70000]
  by (auto simp: two_ints intsetValueEncoding_def split: option.splits)

text \<open>
  \<open>intsetRemove\<close> removes exactly the value, reports whether it was there, and never widens or
  narrows the encoding.
\<close>

theorem intsetRemove_functional:
  assumes "intset_wf js" and "LLONG_MIN \<le> v" and "v \<le> LLONG_MAX"
  shows "case intsetRemove js v of None \<Rightarrow> False | Some (ok, js') \<Rightarrow>
           ok = (v \<in> set (intset_vals js)) \<and> intset_vals js' = remove1 v (intset_vals js) \<and>
           is_encoding js' = is_encoding js \<and> intset_wf js'"
proof -
  obtain ok js' where r: "intsetRemove js v = Some (ok, js')" by (rule intsetRemove_total [OF assms(1)])
  show ?thesis unfolding r option.case prod.case using intsetRemove_props [OF assms r] by simp
qed

theorem intsetRemove_functional_witness:
  "\<exists>js. intsetRemove two_ints 5 = Some (True, js) \<and> intset_vals js = [511]"
  using intsetRemove_functional [OF two_ints(1), of 5] by (auto simp: two_ints split: option.splits)

end
