(* ===== verification/Object.thy ===== *)
theory Object
  imports Util Sds Intset
begin

text \<open>
  Redis objects (\<open>src/object.c\<close>): the tagged values the keyspace holds and the strings that
  commands receive as arguments.  A string is held raw or, when it is the decimal notation of
  a \<open>long\<close>, as that number.

  The content of a raw string stands for the sds that holds it: \<open>Sds\<close> shows that the
  routines on sds act on the content as list functions.  Reference counts and the LRU clock
  are not part of the value of an object and are left out; where the code tests the count
  (\<open>tryObjectEncoding\<close>) it is an argument.  A failed \<open>redisAssert\<close>, a \<open>redisPanic\<close> and a
  read of \<open>ptr\<close> at the wrong type are \<open>None\<close>.
\<close>

section \<open>Objects\<close>

datatype otype = REDIS_STRING | REDIS_LIST | REDIS_SET | REDIS_ZSET | REDIS_HASH

datatype oenc = ENC_RAW | ENC_INT | ENC_HT | ENC_ZIPMAP | ENC_LINKEDLIST | ENC_ZIPLIST
  | ENC_INTSET | ENC_SKIPLIST

text \<open>
  What \<open>ptr\<close> points to.  \<open>Items\<close> are the entries of a ziplist or of a linked list, \<open>Members\<close>
  the keys of a hash table used as a set, \<open>Fields\<close> the entries of a hash table.
\<close>

datatype optr = Sds string | Long int | Items "string list" | Members "string set"
  | Ints intset | Fields "string \<Rightarrow> string option"

record robj =
  o_type :: otype
  o_encoding :: oenc
  o_ptr :: optr

definition createObject :: "otype \<Rightarrow> optr \<Rightarrow> robj" where
  "createObject type ptr = \<lparr>o_type = type, o_encoding = ENC_RAW, o_ptr = ptr\<rparr>"

definition createStringObject :: "string \<Rightarrow> robj" where
  "createStringObject s = createObject REDIS_STRING (Sds s)"

text \<open>
  Below \<open>REDIS_SHARED_INTEGERS\<close> the object is one created at startup, with the same type,
  encoding and value as a fresh one.
\<close>

definition shared_integers :: "int \<Rightarrow> robj" where
  "shared_integers v = (createObject REDIS_STRING (Long v))\<lparr>o_encoding := ENC_INT\<rparr>"

definition createStringObjectFromLongLong :: "int \<Rightarrow> robj" where
  "createStringObjectFromLongLong v =
     (if 0 \<le> v \<and> v < 10000 then shared_integers v
      else if LLONG_MIN \<le> v \<and> v \<le> LLONG_MAX
      then (createObject REDIS_STRING (Long v))\<lparr>o_encoding := ENC_INT\<rparr>
      else createObject REDIS_STRING (Sds (sdsval (sdsfromlonglong v))))"

definition dupStringObject :: "robj \<Rightarrow> robj option" where
  "dupStringObject ob =
     (if o_encoding ob \<noteq> ENC_RAW then None
      else case o_ptr ob of Sds s \<Rightarrow> Some (createStringObject s) | _ \<Rightarrow> None)"

definition createListObject :: robj where
  "createListObject = (createObject REDIS_LIST (Items []))\<lparr>o_encoding := ENC_LINKEDLIST\<rparr>"

definition createZiplistObject :: robj where
  "createZiplistObject = (createObject REDIS_LIST (Items []))\<lparr>o_encoding := ENC_ZIPLIST\<rparr>"

definition createSetObject :: robj where
  "createSetObject = (createObject REDIS_SET (Members {}))\<lparr>o_encoding := ENC_HT\<rparr>"

definition createIntsetObject :: robj where
  "createIntsetObject = (createObject REDIS_SET (Ints intsetNew))\<lparr>o_encoding := ENC_INTSET\<rparr>"

definition createHashObject :: robj where
  "createHashObject = (createObject REDIS_HASH (Items []))\<lparr>o_encoding := ENC_ZIPLIST\<rparr>"

definition isObjectRepresentableAsLongLong :: "robj \<Rightarrow> int option option" where
  "isObjectRepresentableAsLongLong ob =
     (if o_type ob \<noteq> REDIS_STRING then None
      else if o_encoding ob = ENC_INT
      then (case o_ptr ob of Long n \<Rightarrow> Some (Some n) | _ \<Rightarrow> None)
      else (case o_ptr ob of Sds s \<Rightarrow> Some (string2ll s) | _ \<Rightarrow> None))"

text \<open>
  \<open>tryObjectEncoding\<close>.  Dropping the free space of a long sds does not change its content.
  With \<open>maxmemory\<close> set no shared integer is used.
\<close>

definition tryObjectEncoding :: "nat \<Rightarrow> nat \<Rightarrow> robj \<Rightarrow> robj option" where
  "tryObjectEncoding maxmemory refcount ob =
     (if o_encoding ob \<noteq> ENC_RAW then Some ob
      else if 1 < refcount then Some ob
      else if o_type ob \<noteq> REDIS_STRING then None
      else case o_ptr ob of
             Sds s \<Rightarrow>
               (case (if 21 < length s then None else string2l s) of
                  None \<Rightarrow> Some ob
                | Some v \<Rightarrow>
                    if maxmemory = 0 \<and> 0 \<le> v \<and> v < 10000 then Some (shared_integers v)
                    else Some (ob\<lparr>o_encoding := ENC_INT, o_ptr := Long v\<rparr>))
           | _ \<Rightarrow> None)"

definition getDecodedObject :: "robj \<Rightarrow> robj option" where
  "getDecodedObject ob =
     (if o_encoding ob = ENC_RAW then Some ob
      else if o_type ob = REDIS_STRING \<and> o_encoding ob = ENC_INT
      then (case o_ptr ob of Long n \<Rightarrow> Some (createStringObject (snd (ll2string 32 n))) | _ \<Rightarrow> None)
      else None)"

text \<open>\<open>strcmp\<close> on two strings without terminators inside.\<close>

fun strcmp :: "string \<Rightarrow> string \<Rightarrow> int" where
  "strcmp [] [] = 0"
| "strcmp [] (b # bs) = - int (code b)"
| "strcmp (a # as) [] = int (code a)"
| "strcmp (a # as) (b # bs) = (if a = b then strcmp as bs else int (code a) - int (code b))"

text \<open>The bytes of an object that is compared: its sds, or the number printed on the stack.\<close>

definition compare_str :: "robj \<Rightarrow> string option" where
  "compare_str ob =
     (case o_ptr ob of
        Long n \<Rightarrow> if o_encoding ob \<noteq> ENC_RAW then Some (snd (ll2string 128 n)) else None
      | Sds s \<Rightarrow> if o_encoding ob = ENC_RAW then Some s else None
      | _ \<Rightarrow> None)"

definition compareStringObjects :: "robj \<Rightarrow> robj \<Rightarrow> int option" where
  "compareStringObjects a b =
     (if o_type a \<noteq> REDIS_STRING \<or> o_type b \<noteq> REDIS_STRING then None
      else case (compare_str a, compare_str b) of
             (Some astr, Some bstr) \<Rightarrow>
               if o_encoding a = ENC_RAW \<and> o_encoding b = ENC_RAW
               then Some (sdscmp (sdsnewlen (Some astr) (length astr)) (sdsnewlen (Some bstr) (length bstr)))
               else Some (strcmp (cstr astr) (cstr bstr))
           | _ \<Rightarrow> None)"

definition equalStringObjects :: "robj \<Rightarrow> robj \<Rightarrow> bool option" where
  "equalStringObjects a b =
     (if o_encoding a \<noteq> ENC_RAW \<and> o_encoding b \<noteq> ENC_RAW then Some (o_ptr a = o_ptr b)
      else case compareStringObjects a b of Some c \<Rightarrow> Some (c = 0) | None \<Rightarrow> None)"

definition stringObjectLen :: "robj \<Rightarrow> nat option" where
  "stringObjectLen ob =
     (if o_type ob \<noteq> REDIS_STRING then None
      else case o_ptr ob of
             Sds s \<Rightarrow> if o_encoding ob = ENC_RAW then Some (length s) else None
           | Long n \<Rightarrow> if o_encoding ob \<noteq> ENC_RAW then Some (fst (ll2string 32 n)) else None
           | _ \<Rightarrow> None)"

section \<open>Numbers in strings\<close>

text \<open>
  \<open>strtoll\<close> with base 10: the value, the text from \<open>endptr\<close> on and whether \<open>errno\<close> is
  \<open>ERANGE\<close>.  Without digits nothing is consumed.
\<close>

definition strtoll :: "string \<Rightarrow> int \<times> string \<times> bool" where
  "strtoll s =
     (let p = cstr s;
          s1 = dropWhile isspace p;
          neg = (s1 \<noteq> [] \<and> hd s1 = CHR ''-'');
          s2 = (if s1 \<noteq> [] \<and> (hd s1 = CHR ''-'' \<or> hd s1 = CHR ''+'') then tl s1 else s1);
          v = int (digits_value (takeWhile isdigit s2))
      in if takeWhile isdigit s2 = [] then (0, p, False)
         else (strtoll10 p, dropWhile isdigit s2, if neg then - v < LLONG_MIN else LLONG_MAX < v))"

text \<open>The outer option is the assertion on the type, the inner one \<open>REDIS_ERR\<close>.\<close>

definition getLongLongFromObject :: "robj option \<Rightarrow> int option option" where
  "getLongLongFromObject o' =
     (case o' of
        None \<Rightarrow> Some (Some 0)
      | Some ob \<Rightarrow>
          if o_type ob \<noteq> REDIS_STRING then None
          else if o_encoding ob = ENC_RAW
          then (case o_ptr ob of
                  Sds s \<Rightarrow>
                    (let (v, eptr, erange) = strtoll s
                     in if isspace (hd (s @ [NUL])) \<or> eptr \<noteq> [] \<or> erange then Some None
                        else Some (Some v))
                | _ \<Rightarrow> None)
          else if o_encoding ob = ENC_INT
          then (case o_ptr ob of Long n \<Rightarrow> Some (Some n) | _ \<Rightarrow> None)
          else None)"

fun strEncoding :: "oenc \<Rightarrow> string" where
  "strEncoding ENC_RAW = ''raw''"
| "strEncoding ENC_INT = ''int''"
| "strEncoding ENC_HT = ''hashtable''"
| "strEncoding ENC_LINKEDLIST = ''linkedlist''"
| "strEncoding ENC_ZIPLIST = ''ziplist''"
| "strEncoding ENC_INTSET = ''intset''"
| "strEncoding ENC_SKIPLIST = ''skiplist''"
| "strEncoding ENC_ZIPMAP = ''unknown''"

section \<open>Well-formed objects and their value\<close>

definition ptr_ok :: "otype \<Rightarrow> oenc \<Rightarrow> optr \<Rightarrow> bool" where
  "ptr_ok t e p \<longleftrightarrow>
     (case t of
        REDIS_STRING \<Rightarrow>
          (case p of Sds s \<Rightarrow> e = ENC_RAW
           | Long n \<Rightarrow> e = ENC_INT \<and> LLONG_MIN \<le> n \<and> n \<le> LLONG_MAX
           | _ \<Rightarrow> False)
      | REDIS_LIST \<Rightarrow> (case p of Items xs \<Rightarrow> e = ENC_ZIPLIST \<or> e = ENC_LINKEDLIST | _ \<Rightarrow> False)
      | REDIS_SET \<Rightarrow>
          (case p of Members S \<Rightarrow> e = ENC_HT | Ints js \<Rightarrow> e = ENC_INTSET \<and> intset_wf js | _ \<Rightarrow> False)
      | REDIS_HASH \<Rightarrow>
          (case p of Items xs \<Rightarrow> e = ENC_ZIPLIST \<and> even (length xs) | Fields m \<Rightarrow> e = ENC_HT
           | _ \<Rightarrow> False)
      | REDIS_ZSET \<Rightarrow> True)"

definition robj_wf :: "robj \<Rightarrow> bool" where
  "robj_wf ob \<longleftrightarrow> ptr_ok (o_type ob) (o_encoding ob) (o_ptr ob)"

text \<open>The string a string object denotes.\<close>

definition objval :: "robj \<Rightarrow> string" where
  "objval ob = (case o_ptr ob of Sds s \<Rightarrow> s | Long n \<Rightarrow> dec_int n | _ \<Rightarrow> [])"

lemma robj_wf_string:
  assumes "robj_wf ob" "o_type ob = REDIS_STRING"
  obtains (raw) s where "o_encoding ob = ENC_RAW" "o_ptr ob = Sds s" "ob = createStringObject s"
  | (num) n where "o_encoding ob = ENC_INT" "o_ptr ob = Long n" "LLONG_MIN \<le> n" "n \<le> LLONG_MAX"
proof (cases "o_ptr ob")
  case (Sds s)
  then have "o_encoding ob = ENC_RAW" using assms by (simp add: robj_wf_def ptr_ok_def)
  moreover have "ob = createStringObject s"
    using Sds assms(2) \<open>o_encoding ob = ENC_RAW\<close>
    by (cases ob) (simp add: createStringObject_def createObject_def)
  ultimately show thesis using raw Sds by blast
next
  case (Long n)
  then show thesis using num [of n] assms by (simp add: robj_wf_def ptr_ok_def)
qed (use assms in \<open>simp_all add: robj_wf_def ptr_ok_def\<close>)

lemma createStringObject_simps [simp]:
  "o_type (createStringObject s) = REDIS_STRING"
  "o_encoding (createStringObject s) = ENC_RAW"
  "o_ptr (createStringObject s) = Sds s"
  "robj_wf (createStringObject s)"
  "objval (createStringObject s) = s"
  by (simp_all add: createStringObject_def createObject_def robj_wf_def ptr_ok_def objval_def)

lemma createStringObjectFromLongLong_simps:
  assumes "LLONG_MIN \<le> v" "v \<le> LLONG_MAX"
  shows "o_type (createStringObjectFromLongLong v) = REDIS_STRING"
    "robj_wf (createStringObjectFromLongLong v)"
    "objval (createStringObjectFromLongLong v) = dec_int v"
    "o_encoding (createStringObjectFromLongLong v) = ENC_INT"
    "o_ptr (createStringObjectFromLongLong v) = Long v"
  using assms
  by (simp_all add: createStringObjectFromLongLong_def shared_integers_def createObject_def
      robj_wf_def ptr_ok_def objval_def)

lemma ll2string_buf:
  assumes "LLONG_MIN \<le> n" "n \<le> LLONG_MAX" "22 \<le> len"
  shows "ll2string len n = (length (dec_int n), dec_int n)"
  using ll2string_dec [OF assms(1,2), of len] length_dec_int [OF assms(1,2)] assms(3) by simp

lemma string2l_eq: "string2l s = string2ll s"
proof (cases "string2ll s")
  case (Some v)
  then have "LLONG_MIN \<le> v" "v \<le> LLONG_MAX" by (simp_all add: string2ll_iff_dec)
  with Some show ?thesis by (simp add: string2l_def)
qed (simp add: string2l_def)

lemma tryObjectEncoding_props:
  assumes "robj_wf ob" "o_type ob = REDIS_STRING"
  shows "\<exists>ob'. tryObjectEncoding maxmemory refcount ob = Some ob' \<and> robj_wf ob' \<and>
    o_type ob' = REDIS_STRING \<and> objval ob' = objval ob \<and>
    (refcount \<le> 1 \<longrightarrow>
      (o_encoding ob' = ENC_INT) = (\<exists>n. LLONG_MIN \<le> n \<and> n \<le> LLONG_MAX \<and> objval ob = dec_int n))"
  using assms
proof (cases rule: robj_wf_string)
  case (raw s)
  show ?thesis
  proof (cases "1 < refcount")
    case True
    with raw assms show ?thesis by (simp add: tryObjectEncoding_def)
  next
    case False
    show ?thesis
    proof (cases "if 21 < length s then None else string2l s")
      case None
      have "\<not> (\<exists>n. LLONG_MIN \<le> n \<and> n \<le> LLONG_MAX \<and> s = dec_int n)"
      proof
        assume "\<exists>n. LLONG_MIN \<le> n \<and> n \<le> LLONG_MAX \<and> s = dec_int n"
        then obtain n where n: "LLONG_MIN \<le> n" "n \<le> LLONG_MAX" "s = dec_int n" by blast
        then have "string2l s = Some n" "length s \<le> 20"
          using string2ll_dec [OF n(1,2)] length_dec_int [OF n(1,2)] by (simp_all add: string2l_eq)
        with None show False by simp
      qed
      then show ?thesis using raw False None assms
        by (auto simp: tryObjectEncoding_def objval_def)
    next
      case (Some v)
      then have "string2l s = Some v" by (simp split: if_splits)
      then have v: "LLONG_MIN \<le> v" "v \<le> LLONG_MAX" "s = dec_int v"
        by (simp_all add: string2l_eq string2ll_iff_dec)
      then show ?thesis using raw False Some assms
        by (auto simp: tryObjectEncoding_def objval_def shared_integers_def createObject_def
            robj_wf_def ptr_ok_def)
    qed
  qed
next
  case (num n)
  then show ?thesis using assms by (auto simp: tryObjectEncoding_def objval_def)
qed

lemma getDecodedObject_props:
  assumes "robj_wf ob" "o_type ob = REDIS_STRING"
  shows "getDecodedObject ob = Some (createStringObject (objval ob))"
  using assms
proof (cases rule: robj_wf_string)
  case (raw s)
  then show ?thesis by (simp add: getDecodedObject_def)
next
  case (num n)
  then show ?thesis using ll2string_buf [OF num(3,4), of 32] assms
    by (simp add: getDecodedObject_def objval_def)
qed

lemma stringObjectLen_props:
  assumes "robj_wf ob" "o_type ob = REDIS_STRING"
  shows "stringObjectLen ob = Some (length (objval ob))"
  using assms
proof (cases rule: robj_wf_string)
  case (num n)
  then show ?thesis using ll2string_buf [OF num(3,4), of 32] assms
    by (simp add: stringObjectLen_def objval_def)
qed (simp add: stringObjectLen_def)

lemma compare_str_props:
  assumes "robj_wf ob" "o_type ob = REDIS_STRING"
  shows "compare_str ob = Some (objval ob)"
  using assms
proof (cases rule: robj_wf_string)
  case (num n)
  then show ?thesis using ll2string_buf [OF num(3,4), of 128]
    by (simp add: compare_str_def objval_def)
qed (simp add: compare_str_def)

lemma dec_nat_no_NUL: "NUL \<notin> set (dec_nat v)"
  using dec_nat_digits [of NUL v] by (auto simp: isdigit_def code_def)

lemma dec_int_no_NUL: "NUL \<notin> set (dec_int n)"
  using dec_nat_no_NUL by (simp add: dec_int_def)

lemma strcmp_props:
  assumes "NUL \<notin> set a" "NUL \<notin> set b"
  shows "(strcmp a b = 0 \<longleftrightarrow> a = b) \<and> (strcmp a b < 0 \<longleftrightarrow> lex_less a b)"
proof -
  have pos: "c \<noteq> NUL \<Longrightarrow> 0 < code c" for c
    using code_eq_0 [of c] by (metis gr0I)
  show ?thesis using assms
  proof (induction a b rule: strcmp.induct)
    case (2 b bs)
    then show ?case using pos [of b] by auto
  next
    case (3 a as)
    then show ?case using pos [of a] by auto
  next
    case (4 a as b bs)
    have "code a = code b \<longleftrightarrow> a = b" by simp
    with 4 show ?case by auto
  qed simp
qed

section \<open>Parsing numbers\<close>

lemma digit_not_space: "isdigit c \<Longrightarrow> \<not> isspace c"
  by (auto simp: isdigit_def isspace_def)

lemma sign_facts [simp]:
  "\<not> isdigit CHR ''-''" "\<not> isdigit CHR ''+''" "\<not> isspace CHR ''-''" "\<not> isspace CHR ''+''"
  "\<not> isspace NUL"
  by (simp_all add: isdigit_def isspace_def code_def)

lemma takeWhile_all: "\<forall>c\<in>set xs. P c \<Longrightarrow> takeWhile P xs = xs"
  by (simp add: takeWhile_eq_all_conv)

text \<open>What \<open>strtoll\<close> does on a text that starts with its first significant character.\<close>

definition signed_value :: "bool \<Rightarrow> nat \<Rightarrow> int" where
  "signed_value neg n = (if neg then - int n else int n)"

lemma strtoll_nospace:
  assumes "cstr s = p" "p \<noteq> []" "\<not> isspace (hd p)"
    and "neg = (hd p = CHR ''-'')"
    and "ds = (if hd p = CHR ''-'' \<or> hd p = CHR ''+'' then tl p else p)"
  shows "strtoll s =
    (if takeWhile isdigit ds = [] then (0, p, False)
     else (if neg then max LLONG_MIN (signed_value neg (digits_value (takeWhile isdigit ds)))
           else min LLONG_MAX (signed_value neg (digits_value (takeWhile isdigit ds))),
           dropWhile isdigit ds,
           signed_value neg (digits_value (takeWhile isdigit ds)) < LLONG_MIN \<or>
           LLONG_MAX < signed_value neg (digits_value (takeWhile isdigit ds))))"
proof -
  have dw: "dropWhile isspace p = p" using assms(2,3) by (cases p) simp_all
  show ?thesis
    unfolding strtoll_def Let_def strtoll10_def assms(1) dw
    using assms(2,4,5) by (auto simp: signed_value_def)
qed

lemma strtoll10_range: "LLONG_MIN \<le> strtoll10 s" "strtoll10 s \<le> LLONG_MAX"
  by (auto simp: strtoll10_def Let_def)

lemma dropWhile_Nil_iff: "dropWhile P xs = [] \<longleftrightarrow> (\<forall>x\<in>set xs. P x)"
  by (induction xs) auto

lemma hd_cstr: "cstr s \<noteq> [] \<Longrightarrow> hd (s @ [NUL]) = hd (cstr s)"
  by (cases s) (auto simp: cstr_def split: if_splits)

lemma cstr_Nil: "cstr s = [] \<Longrightarrow> hd (s @ [NUL]) = NUL"
  by (cases s) (auto simp: cstr_def split: if_splits)

lemma getLongLong_accepts_lemma:
  "getLongLongFromObject (Some (createStringObject s)) = Some (Some v) \<longleftrightarrow>
     (cstr s = [] \<and> v = 0) \<or>
     (\<exists>sign ds. sign \<in> {[], ''-'', ''+''} \<and> cstr s = sign @ ds \<and> ds \<noteq> [] \<and>
        (\<forall>c\<in>set ds. isdigit c) \<and> v = signed_value (sign = ''-'') (digits_value ds) \<and>
        LLONG_MIN \<le> v \<and> v \<le> LLONG_MAX)" (is "?L \<longleftrightarrow> ?Z \<or> ?R")
proof (cases "cstr s = []")
  case True
  then have "strtoll s = (0, [], False)" by (simp add: strtoll_def)
  with True cstr_Nil [OF True] show ?thesis
    by (auto simp: getLongLongFromObject_def)
next
  case False
  define p where "p = cstr s"
  have p: "p \<noteq> []" "hd (s @ [NUL]) = hd p" using False hd_cstr [of s] by (simp_all add: p_def)
  show ?thesis
  proof (cases "isspace (hd p)")
    case True
    have "\<not> ?R"
    proof
      assume ?R
      then obtain sign ds where r: "sign \<in> {[], ''-'', ''+''}" "p = sign @ ds" "ds \<noteq> []" "\<forall>c\<in>set ds. isdigit c"
        unfolding p_def by blast
      then have "hd p = CHR ''-'' \<or> hd p = CHR ''+'' \<or> isdigit (hd p)" by (cases ds) auto
      with True digit_not_space show False by auto
    qed
    moreover have "\<not> ?L"
      using True p(2) by (cases "strtoll s") (simp add: getLongLongFromObject_def)
    ultimately show ?thesis using False by simp
  next
    case ns: False
    define neg where "neg = (hd p = CHR ''-'')"
    define sign where "sign = (if hd p = CHR ''-'' \<or> hd p = CHR ''+'' then [hd p] else [])"
    define ds where "ds = (if hd p = CHR ''-'' \<or> hd p = CHR ''+'' then tl p else p)"
    have sp: "p = sign @ ds" using p(1) by (simp add: sign_def ds_def)
    have si: "sign \<in> {[], ''-'', ''+''}" by (simp add: sign_def)
    have sn: "(sign = ''-'') = neg" by (simp add: sign_def neg_def)
    note st = strtoll_nospace [OF p_def [symmetric] p(1) ns neg_def ds_def]
    define w where "w = signed_value neg (digits_value (takeWhile isdigit ds))"
    have L: "?L \<longleftrightarrow> ds \<noteq> [] \<and> (\<forall>c\<in>set ds. isdigit c) \<and> LLONG_MIN \<le> w \<and> w \<le> LLONG_MAX \<and> v = w"
    proof (cases "takeWhile isdigit ds = []")
      case True
      then have "\<not> (ds \<noteq> [] \<and> (\<forall>c\<in>set ds. isdigit c))" by (cases ds) auto
      moreover have "\<not> ?L" using True st p(1) by (simp add: getLongLongFromObject_def)
      ultimately show ?thesis by blast
    next
      case t: False
      have "strtoll s = (if neg then max LLONG_MIN w else min LLONG_MAX w, dropWhile isdigit ds, w < LLONG_MIN \<or> LLONG_MAX < w)"
        using st t by (simp add: w_def)
      moreover have "ds \<noteq> []" using t by auto
      ultimately show ?thesis using ns p(2)
        by (auto simp: getLongLongFromObject_def dropWhile_Nil_iff)
    qed
    have R: "?R \<longleftrightarrow> ds \<noteq> [] \<and> (\<forall>c\<in>set ds. isdigit c) \<and> LLONG_MIN \<le> w \<and> w \<le> LLONG_MAX \<and> v = w"
    proof
      assume ?R
      then obtain sign' ds' where r: "sign' \<in> {[], ''-'', ''+''}" "p = sign' @ ds'" "ds' \<noteq> []"
        "\<forall>c\<in>set ds'. isdigit c" "v = signed_value (sign' = ''-'') (digits_value ds')"
        "LLONG_MIN \<le> v" "v \<le> LLONG_MAX"
        unfolding p_def by blast
      have "isdigit (hd ds')" using r(3,4) by simp
      then have "sign' = sign \<and> ds' = ds"
        using r(1,2) r(3) by (auto simp: sign_def ds_def)
      with r sn show "ds \<noteq> [] \<and> (\<forall>c\<in>set ds. isdigit c) \<and> LLONG_MIN \<le> w \<and> w \<le> LLONG_MAX \<and> v = w"
        by (simp add: w_def takeWhile_all)
    next
      assume a: "ds \<noteq> [] \<and> (\<forall>c\<in>set ds. isdigit c) \<and> LLONG_MIN \<le> w \<and> w \<le> LLONG_MAX \<and> v = w"
      then have "v = signed_value (sign = ''-'') (digits_value ds)" using sn by (simp add: w_def takeWhile_all)
      with a si sp show ?R unfolding p_def by metis
    qed
    show ?thesis using L R False by blast
  qed
qed

lemma getLongLong_dec:
  assumes "LLONG_MIN \<le> n" "n \<le> LLONG_MAX"
  shows "getLongLongFromObject (Some (createStringObject (dec_int n))) = Some (Some n)"
proof -
  have c: "cstr (dec_int n) = dec_int n" by (rule cstr_id) (rule dec_int_no_NUL)
  show ?thesis
  proof (cases "n < 0")
    case True
    have "\<exists>sign ds. sign \<in> {[], ''-'', ''+''} \<and> cstr (dec_int n) = sign @ ds \<and> ds \<noteq> [] \<and>
        (\<forall>c\<in>set ds. isdigit c) \<and> n = signed_value (sign = ''-'') (digits_value ds) \<and>
        LLONG_MIN \<le> n \<and> n \<le> LLONG_MAX"
      by (rule exI [of _ "''-''"], rule exI [of _ "dec_nat (nat (- n))"])
        (use True assms c dec_nat_digits in \<open>auto simp: dec_int_def signed_value_def\<close>)
    then show ?thesis unfolding getLongLong_accepts_lemma by blast
  next
    case False
    have "\<exists>sign ds. sign \<in> {[], ''-'', ''+''} \<and> cstr (dec_int n) = sign @ ds \<and> ds \<noteq> [] \<and>
        (\<forall>c\<in>set ds. isdigit c) \<and> n = signed_value (sign = ''-'') (digits_value ds) \<and>
        LLONG_MIN \<le> n \<and> n \<le> LLONG_MAX"
      by (rule exI [of _ "[]"], rule exI [of _ "dec_nat (nat n)"])
        (use False assms c dec_nat_digits in \<open>auto simp: dec_int_def signed_value_def\<close>)
    then show ?thesis unfolding getLongLong_accepts_lemma by blast
  qed
qed

text \<open>On a well-formed string object the conversion never panics.\<close>

lemma getLongLong_total:
  assumes "robj_wf ob" "o_type ob = REDIS_STRING"
  shows "\<exists>r. getLongLongFromObject (Some ob) = Some r \<and> (\<forall>v. r = Some v \<longrightarrow> LLONG_MIN \<le> v \<and> v \<le> LLONG_MAX)"
  using assms
proof (cases rule: robj_wf_string)
  case (raw s)
  obtain v e r where st: "strtoll s = (v, e, r)" by (metis prod_cases3)
  have "v = strtoll10 (cstr s) \<or> v = 0" using st by (auto simp: strtoll_def Let_def split: if_splits)
  then have "LLONG_MIN \<le> v \<and> v \<le> LLONG_MAX" using strtoll10_range by auto
  with raw st show ?thesis by (simp add: getLongLongFromObject_def)
next
  case (num n)
  then show ?thesis using assms by (simp add: getLongLongFromObject_def)
qed

lemma getLongLong_num:
  assumes "robj_wf ob" "o_type ob = REDIS_STRING" "o_encoding ob = ENC_INT"
  shows "getLongLongFromObject (Some ob) = getLongLongFromObject (Some (createStringObject (objval ob)))"
  using assms(1,2)
proof (cases rule: robj_wf_string)
  case (num n)
  then show ?thesis using getLongLong_dec [of n] assms
    by (simp add: getLongLongFromObject_def objval_def)
qed (use assms in simp)

lemma getLongLong_objval:
  assumes "robj_wf ob" "o_type ob = REDIS_STRING"
  shows "getLongLongFromObject (Some ob) = getLongLongFromObject (Some (createStringObject (objval ob)))"
  using assms by (cases rule: robj_wf_string) (auto simp: getLongLong_num [OF assms])

section \<open>Comparison\<close>

lemma robj_string_enc:
  "robj_wf ob \<Longrightarrow> o_type ob = REDIS_STRING \<Longrightarrow> o_encoding ob \<noteq> ENC_RAW \<longleftrightarrow> o_encoding ob = ENC_INT"
  by (erule (1) robj_wf_string) simp_all

lemma robj_string_num:
  "robj_wf ob \<Longrightarrow> o_type ob = REDIS_STRING \<Longrightarrow> o_encoding ob = ENC_INT \<Longrightarrow>
    \<exists>n. o_ptr ob = Long n \<and> objval ob = dec_int n \<and> LLONG_MIN \<le> n \<and> n \<le> LLONG_MAX"
  by (erule (1) robj_wf_string) (simp_all add: objval_def)

lemma compareStringObjects_props:
  assumes "robj_wf a" "o_type a = REDIS_STRING" "robj_wf b" "o_type b = REDIS_STRING"
    and "o_encoding a = ENC_INT \<or> o_encoding b = ENC_INT \<Longrightarrow> NUL \<notin> set (objval a) \<and> NUL \<notin> set (objval b)"
    and "length (objval a) \<le> 2147483647" "length (objval b) \<le> 2147483647"
  shows "\<exists>c. compareStringObjects a b = Some c \<and> (c = 0 \<longleftrightarrow> objval a = objval b) \<and>
    (c < 0 \<longleftrightarrow> lex_less (objval a) (objval b))"
proof (cases "o_encoding a = ENC_RAW \<and> o_encoding b = ENC_RAW")
  case True
  let ?a = "sdsnewlen (Some (objval a)) (length (objval a))"
  let ?b = "sdsnewlen (Some (objval b)) (length (objval b))"
  have "sds_wf ?a" "sdsval ?a = objval a" "sds_wf ?b" "sdsval ?b = objval b"
    using sdsnewlen_props(1) [of "length (objval a)" "objval a"]
      sdsnewlen_props(1) [of "length (objval b)" "objval b"] assms(6,7) by simp_all
  with sdscmp_props [of ?a ?b] True assms(1-4) show ?thesis
    by (simp add: compareStringObjects_def compare_str_props)
next
  case False
  then have "o_encoding a = ENC_INT \<or> o_encoding b = ENC_INT"
    using robj_string_enc [OF assms(1,2)] robj_string_enc [OF assms(3,4)] by blast
  then have n: "NUL \<notin> set (objval a)" "NUL \<notin> set (objval b)" using assms(5) by blast+
  with strcmp_props [OF n] False assms(1-4) show ?thesis
    by (auto simp: compareStringObjects_def compare_str_props cstr_id)
qed

lemma dec_int_inject:
  assumes "LLONG_MIN \<le> n" "n \<le> LLONG_MAX" "LLONG_MIN \<le> m" "m \<le> LLONG_MAX"
  shows "dec_int n = dec_int m \<longleftrightarrow> n = m"
proof
  assume "dec_int n = dec_int m"
  then have "Some n = Some m"
    using string2ll_dec [OF assms(1,2)] string2ll_dec [OF assms(3,4)] by (simp only:)
  then show "n = m" by simp
qed simp

lemma equalStringObjects_props:
  assumes "robj_wf a" "o_type a = REDIS_STRING" "robj_wf b" "o_type b = REDIS_STRING"
    and "(o_encoding a = ENC_INT) \<noteq> (o_encoding b = ENC_INT) \<Longrightarrow> NUL \<notin> set (objval a) \<and> NUL \<notin> set (objval b)"
    and "length (objval a) \<le> 2147483647" "length (objval b) \<le> 2147483647"
  shows "equalStringObjects a b = Some (objval a = objval b)"
proof (cases "o_encoding a = ENC_INT \<and> o_encoding b = ENC_INT")
  case True
  obtain n where n: "o_ptr a = Long n" "objval a = dec_int n" "LLONG_MIN \<le> n" "n \<le> LLONG_MAX"
    using robj_string_num [OF assms(1,2)] True by blast
  obtain m where m: "o_ptr b = Long m" "objval b = dec_int m" "LLONG_MIN \<le> m" "m \<le> LLONG_MAX"
    using robj_string_num [OF assms(3,4)] True by blast
  show ?thesis
    unfolding equalStringObjects_def n(1,2) m(1,2) using True dec_int_inject [OF n(3,4) m(3,4)] by simp
next
  case False
  have "o_encoding a = ENC_INT \<or> o_encoding b = ENC_INT \<Longrightarrow> NUL \<notin> set (objval a) \<and> NUL \<notin> set (objval b)"
    using False assms(5) by blast
  from compareStringObjects_props [OF assms(1-4) this assms(6,7)]
  obtain c where c: "compareStringObjects a b = Some c" "(c = 0) = (objval a = objval b)" by blast
  have "\<not> (o_encoding a \<noteq> ENC_RAW \<and> o_encoding b \<noteq> ENC_RAW)"
    using False robj_string_enc [OF assms(1,2)] robj_string_enc [OF assms(3,4)] by blast
  then show ?thesis unfolding equalStringObjects_def by (auto simp: c)
qed

section \<open>Properties\<close>

text \<open>C38.
  The encodings of a string object are invisible: \<open>tryObjectEncoding\<close> keeps the string an
  object denotes, it encodes exactly the strings that \<open>ll2string\<close> can print (so that an
  encoded object can be printed back), \<open>getDecodedObject\<close> prints it back, \<open>stringObjectLen\<close> is
  the length of the string, and reading a number gives the same result on the object and on
  its decoded form.
\<close>

theorem object_encoding_invisible:
  assumes "robj_wf ob" and "o_type ob = REDIS_STRING"
  shows "(\<exists>ob'. tryObjectEncoding maxmemory 1 ob = Some ob' \<and> robj_wf ob' \<and> objval ob' = objval ob \<and>
      o_encoding ob' = (if string2ll (objval ob) = None then ENC_RAW else ENC_INT) \<and>
      getDecodedObject ob' = Some (createStringObject (objval ob)) \<and>
      stringObjectLen ob' = Some (length (objval ob)) \<and>
      getLongLongFromObject (Some ob') = getLongLongFromObject (Some ob))"
proof -
  obtain ob' where t: "tryObjectEncoding maxmemory 1 ob = Some ob'" "robj_wf ob'"
      "o_type ob' = REDIS_STRING" "objval ob' = objval ob"
      "(o_encoding ob' = ENC_INT) = (\<exists>n. LLONG_MIN \<le> n \<and> n \<le> LLONG_MAX \<and> objval ob = dec_int n)"
    using tryObjectEncoding_props [OF assms, of maxmemory 1] by auto
  have "(o_encoding ob' = ENC_INT) = (string2ll (objval ob) \<noteq> None)"
    unfolding t(5) by (auto simp: string2ll_iff_dec)
  then have "o_encoding ob' = (if string2ll (objval ob) = None then ENC_RAW else ENC_INT)"
    using robj_string_enc [OF t(2,3)] by auto
  moreover have "getLongLongFromObject (Some ob') = getLongLongFromObject (Some ob)"
    using getLongLong_objval [OF t(2,3)] getLongLong_objval [OF assms] t(4) by simp
  ultimately show ?thesis
    using t getDecodedObject_props [OF t(2,3)] stringObjectLen_props [OF t(2,3)] by auto
qed

theorem object_encoding_invisible_witness:
  "\<exists>ob'. tryObjectEncoding 0 1 (createStringObject ''12'') = Some ob' \<and> objval ob' = ''12''"
  using object_encoding_invisible [of "createStringObject ''12''" 0] by auto

text \<open>
  The numbers that commands accept: \<open>getLongLongFromObject\<close> returns \<open>v\<close> for a raw string exactly
  if the string up to its first NUL is an optional sign and digits with that value, in the
  range of a \<open>long long\<close>, or is empty and \<open>v\<close> is 0.  So the empty string is accepted as a
  number, and whatever follows a NUL byte is ignored.
\<close>

theorem getLongLong_accepts:
  "getLongLongFromObject (Some (createStringObject s)) = Some (Some v) \<longleftrightarrow>
     (cstr s = [] \<and> v = 0) \<or>
     (\<exists>sign ds. sign \<in> {[], ''-'', ''+''} \<and> cstr s = sign @ ds \<and> ds \<noteq> [] \<and>
        (\<forall>c\<in>set ds. isdigit c) \<and> v = signed_value (sign = ''-'') (digits_value ds) \<and>
        LLONG_MIN \<le> v \<and> v \<le> LLONG_MAX)"
  by (rule getLongLong_accepts_lemma)

theorem getLongLong_accepts_witness:
  "getLongLongFromObject (Some (createStringObject [])) = Some (Some 0)"
  using getLongLong_accepts [of "[]" 0] by (simp add: cstr_def)

text \<open>
  Comparing and testing string objects for equality depends on the strings only, whatever the
  two encodings are; a comparison with an integer-encoded object goes through \<open>strcmp\<close> and
  needs strings without NUL bytes.
\<close>

theorem string_objects_compare:
  assumes "robj_wf a" and "o_type a = REDIS_STRING" and "robj_wf b" and "o_type b = REDIS_STRING"
    and "o_encoding a = ENC_INT \<or> o_encoding b = ENC_INT \<Longrightarrow> NUL \<notin> set (objval a) \<and> NUL \<notin> set (objval b)"
    and "length (objval a) \<le> 2147483647" and "length (objval b) \<le> 2147483647"
  shows "(\<exists>c. compareStringObjects a b = Some c \<and> (c = 0 \<longleftrightarrow> objval a = objval b) \<and>
      (c < 0 \<longleftrightarrow> lex_less (objval a) (objval b))) \<and>
    equalStringObjects a b = Some (objval a = objval b)"
proof
  show "\<exists>c. compareStringObjects a b = Some c \<and> (c = 0 \<longleftrightarrow> objval a = objval b) \<and>
      (c < 0 \<longleftrightarrow> lex_less (objval a) (objval b))"
    by (rule compareStringObjects_props [OF assms])
  show "equalStringObjects a b = Some (objval a = objval b)"
    by (rule equalStringObjects_props [OF assms(1-4) _ assms(6,7)]) (use assms(5) in blast)
qed

theorem string_objects_compare_witness:
  "equalStringObjects (createStringObjectFromLongLong 7) (createStringObject ''7'') = Some True"
proof -
  have "char_of (code CHR ''7'') = CHR ''7''" by (rule char_of_code)
  then have "char_of (55 :: nat) = CHR ''7''" by (simp add: code_def)
  then have d: "dec_int 7 = ''7''" by (simp add: dec_int_def dec_nat.simps)
  note v = createStringObjectFromLongLong_simps [of 7]
  show ?thesis
    using string_objects_compare [of "createStringObjectFromLongLong 7" "createStringObject ''7''"] v d by simp
qed

end
