(* ===== verification/Server.thy ===== *)
theory Server
  imports Object
begin

text \<open>
  The state of the server that commands work on: the databases, the clients with their output,
  transaction and subscription state, the counters and the replication stream; and the
  functions that write replies (\<open>src/networking.c\<close>) and read arguments (\<open>src/object.c\<close>).

  The dictionaries are finite maps: \<open>Dict\<close> proves that the hash tables behave as such, whatever
  their rehashing does.  A client's output (the static buffer and the reply list after it) is
  the sequence of bytes sent.  Handlers take and return the server state; a handler that fails
  a \<open>redisAssert\<close>, panics or reads out of bounds returns \<open>None\<close>.
\<close>

section \<open>State\<close>

type_synonym key = string
type_synonym cid = nat

record redisDb =
  rd_dict :: "key \<Rightarrow> robj option"
  rd_expires :: "key \<Rightarrow> int option"
  rd_watched :: "key \<Rightarrow> cid list option"

text \<open>
  A command of a transaction: the entry of the command table (by its name) and the arguments.
  The flags of a client are one field each.  \<open>c_fake\<close> is a client without a socket (the one that
  loads the append only file).
\<close>

record multiCmd =
  mc_cmd :: string
  mc_argv :: "string list"

record client =
  c_db :: nat
  c_cmd :: string
  c_argv :: "string list"
  c_fake :: bool
  c_master :: bool
  c_authenticated :: bool
  c_close_after_reply :: bool
  c_multi :: bool
  c_dirty_cas :: bool
  c_dirty_exec :: bool
  c_mstate :: "multiCmd list"
  c_watched :: "(key \<times> nat) list"
  c_channels :: "string list"
  c_patterns :: "string list"
  c_out :: string

text \<open>
  The server.  \<open>sv_aof\<close> and \<open>sv_repl\<close> are the commands fed to the append only file and to the
  slaves, with the database they run in.  \<open>sv_iter\<close> is the order in which a dictionary's
  iterator returns its keys (it depends on the hash seed), \<open>sv_rnd\<close> the successive keys that
  \<open>dictGetRandomKey\<close> draws, \<open>sv_now\<close> the clock in milliseconds, constant while a command runs,
  and \<open>sv_disk_ok\<close> says whether writing a file succeeds.  \<open>sv_mem\<close> is the memory in use, without
  the output and append only file buffers, as a function of the keyspace, and \<open>sv_idle\<close> the
  estimated idle time of a key.
\<close>

datatype policy = VOLATILE_LRU | VOLATILE_TTL | VOLATILE_RANDOM | ALLKEYS_LRU | ALLKEYS_RANDOM | NO_EVICTION

record server =
  sv_db :: "nat \<Rightarrow> redisDb"
  sv_dbnum :: nat
  sv_client :: "cid \<Rightarrow> client"
  sv_clients :: "cid list"
  sv_channels :: "string \<Rightarrow> cid list option"
  sv_patterns :: "(cid \<times> string) list"
  sv_now :: int
  sv_loading :: bool
  sv_masterhost :: bool
  sv_maxmemory :: nat
  sv_dirty :: int
  sv_expiredkeys :: nat
  sv_hits :: nat
  sv_misses :: nat
  sv_lastsave :: int
  sv_saveparams :: bool
  sv_aof_on :: bool
  sv_slaves :: bool
  sv_aof :: "(nat \<times> string list) list"
  sv_repl :: "(nat \<times> string list) list"
  sv_iter :: "(key \<Rightarrow> robj option) \<Rightarrow> key list"
  sv_rnd :: "(key \<Rightarrow> robj option) \<Rightarrow> nat \<Rightarrow> key"
  sv_disk_ok :: bool
  sv_requirepass :: "string option"
  sv_stop_writes :: bool
  sv_bgsave_err :: bool
  sv_slave_ro :: bool
  sv_repl_connected :: bool
  sv_serve_stale :: bool
  sv_lua_timedout :: bool
  sv_policy :: policy
  sv_samples :: nat
  sv_evictedkeys :: nat
  sv_mem :: "(nat \<Rightarrow> redisDb) \<Rightarrow> nat"
  sv_idle :: "nat \<Rightarrow> key \<Rightarrow> int"

definition upd_db :: "nat \<Rightarrow> (redisDb \<Rightarrow> redisDb) \<Rightarrow> server \<Rightarrow> server" where
  "upd_db i f sv = sv\<lparr>sv_db := (sv_db sv)(i := f (sv_db sv i))\<rparr>"

definition upd_client :: "cid \<Rightarrow> (client \<Rightarrow> client) \<Rightarrow> server \<Rightarrow> server" where
  "upd_client c f sv = sv\<lparr>sv_client := (sv_client sv)(c := f (sv_client sv c))\<rparr>"

definition incr_dirty :: "int \<Rightarrow> server \<Rightarrow> server" where
  "incr_dirty n sv = sv\<lparr>sv_dirty := sv_dirty sv + n\<rparr>"

abbreviation argv :: "cid \<Rightarrow> server \<Rightarrow> nat \<Rightarrow> string" where
  "argv c sv i \<equiv> c_argv (sv_client sv c) ! i"

abbreviation argc :: "cid \<Rightarrow> server \<Rightarrow> nat" where
  "argc c sv \<equiv> length (c_argv (sv_client sv c))"

abbreviation cdb :: "cid \<Rightarrow> server \<Rightarrow> nat" where
  "cdb c sv \<equiv> c_db (sv_client sv c)"

section \<open>Replies\<close>

definition CRLF :: string where "CRLF = [CHR 0x0D, CHR 0x0A]"

definition shared_ok :: string where "shared_ok = ''+OK'' @ CRLF"
definition shared_emptybulk :: string where "shared_emptybulk = ''$0'' @ CRLF @ CRLF"
definition shared_czero :: string where "shared_czero = '':0'' @ CRLF"
definition shared_cone :: string where "shared_cone = '':1'' @ CRLF"
definition shared_nullbulk :: string where "shared_nullbulk = ''$-1'' @ CRLF"
definition shared_nullmultibulk :: string where "shared_nullmultibulk = ''*-1'' @ CRLF"
definition shared_queued :: string where "shared_queued = ''+QUEUED'' @ CRLF"
definition shared_wrongtypeerr :: string where
  "shared_wrongtypeerr = ''-ERR Operation against a key holding the wrong kind of value'' @ CRLF"
definition shared_nokeyerr :: string where "shared_nokeyerr = ''-ERR no such key'' @ CRLF"
definition shared_syntaxerr :: string where "shared_syntaxerr = ''-ERR syntax error'' @ CRLF"
definition shared_sameobjecterr :: string where
  "shared_sameobjecterr = ''-ERR source and destination objects are the same'' @ CRLF"
definition shared_outofrangeerr :: string where
  "shared_outofrangeerr = ''-ERR index out of range'' @ CRLF"
definition shared_loadingerr :: string where
  "shared_loadingerr = ''-LOADING Redis is loading the dataset in memory'' @ CRLF"
definition shared_slowscripterr :: string where
  "shared_slowscripterr =
     ''-BUSY Redis is busy running a script. You can only call SCRIPT KILL or SHUTDOWN NOSAVE.'' @ CRLF"
definition shared_masterdownerr :: string where
  "shared_masterdownerr =
     ''-MASTERDOWN Link with MASTER is down and slave-serve-stale-data is set to 'no'.'' @ CRLF"
definition shared_bgsaveerr :: string where
  "shared_bgsaveerr =
     ''-MISCONF Redis is configured to save RDB snapshots, but is currently not able to persist on disk. '' @
     ''Commands that may modify the data set are disabled. '' @
     ''Please check Redis logs for details about the error.'' @ CRLF"
definition shared_roslaveerr :: string where
  "shared_roslaveerr = ''-READONLY You can't write against a read only slave.'' @ CRLF"
definition shared_oomerr :: string where
  "shared_oomerr = ''-OOM command not allowed when used memory > 'maxmemory'.'' @ CRLF"
definition shared_execaborterr :: string where
  "shared_execaborterr = ''-EXECABORT Transaction discarded because of previous errors.'' @ CRLF"

text \<open>
  \<open>prepareClientToWrite\<close> refuses a client without a socket.  (Installing the write handler can
  also fail, which is input and output.)
\<close>

definition prepareClientToWrite :: "client \<Rightarrow> bool" where
  "prepareClientToWrite cl \<longleftrightarrow> \<not> c_fake cl"

text \<open>
  The buffers of a client: a client that is to be closed once it has read its replies gets no more.
  (Closing a client whose buffer passes its limit is left out.)
\<close>

definition addReplyString :: "cid \<Rightarrow> string \<Rightarrow> server \<Rightarrow> server" where
  "addReplyString c s =
     upd_client c (\<lambda>cl. if prepareClientToWrite cl \<and> \<not> c_close_after_reply cl then cl\<lparr>c_out := c_out cl @ s\<rparr> else cl)"

text \<open>The clients that do get replies.\<close>

abbreviation receptive :: "client \<Rightarrow> bool" where
  "receptive cl \<equiv> \<not> c_fake cl \<and> \<not> c_close_after_reply cl"

text \<open>\<open>addReply\<close> of a shared string object, and of an object of the keyspace.\<close>

definition addReply :: "cid \<Rightarrow> string \<Rightarrow> server \<Rightarrow> server" where
  "addReply c s = addReplyString c s"

definition addReplyObject :: "cid \<Rightarrow> robj \<Rightarrow> server \<Rightarrow> server option" where
  "addReplyObject c ob sv =
     (if o_encoding ob = ENC_RAW
      then (case o_ptr ob of Sds s \<Rightarrow> Some (addReplyString c s sv) | _ \<Rightarrow> None)
      else if o_encoding ob = ENC_INT
      then (case o_ptr ob of Long n \<Rightarrow> Some (addReplyString c (snd (ll2string 32 n)) sv) | _ \<Rightarrow> None)
      else None)"

definition addReplyErrorLength :: "cid \<Rightarrow> string \<Rightarrow> server \<Rightarrow> server" where
  "addReplyErrorLength c s sv =
     addReplyString c CRLF (addReplyString c s (addReplyString c ''-ERR '' sv))"

definition addReplyError :: "cid \<Rightarrow> string \<Rightarrow> server \<Rightarrow> server" where
  "addReplyError c err = addReplyErrorLength c (cstr err)"

text \<open>\<open>s\<close> is the formatted text.\<close>

definition addReplyErrorFormat :: "cid \<Rightarrow> string \<Rightarrow> server \<Rightarrow> server" where
  "addReplyErrorFormat c s =
     addReplyErrorLength c (List.map (\<lambda>x. if x = CHR 0x0D \<or> x = CHR 0x0A then CHR '' '' else x) s)"

definition addReplyStatus :: "cid \<Rightarrow> string \<Rightarrow> server \<Rightarrow> server" where
  "addReplyStatus c status sv =
     addReplyString c CRLF (addReplyString c (cstr status) (addReplyString c ''+'' sv))"

text \<open>The headers below 32 are shared objects with the same bytes.\<close>

definition addReplyLongLongWithPrefix :: "cid \<Rightarrow> int \<Rightarrow> char \<Rightarrow> server \<Rightarrow> server" where
  "addReplyLongLongWithPrefix c ll prefix =
     addReplyString c (prefix # snd (ll2string 127 ll) @ CRLF)"

definition addReplyLongLong :: "cid \<Rightarrow> int \<Rightarrow> server \<Rightarrow> server" where
  "addReplyLongLong c ll =
     (if ll = 0 then addReply c shared_czero
      else if ll = 1 then addReply c shared_cone
      else addReplyLongLongWithPrefix c ll CHR '':'')"

definition addReplyMultiBulkLen :: "cid \<Rightarrow> nat \<Rightarrow> server \<Rightarrow> server" where
  "addReplyMultiBulkLen c n = addReplyLongLongWithPrefix c (int n) CHR ''*''"

text \<open>\<open>while((n = n/10) != 0) len++\<close>, with C's division, which rounds to zero.\<close>

definition c_div :: "int \<Rightarrow> int \<Rightarrow> int" where
  "c_div n d = (if n < 0 then - ((- n) div d) else n div d)"

abbreviation c_div10 :: "int \<Rightarrow> int" where
  "c_div10 n \<equiv> c_div n 10"

function len_loop :: "int \<Rightarrow> nat \<Rightarrow> nat" where
  "len_loop n len = (if c_div10 n = 0 then len else len_loop (c_div10 n) (len + 1))"
  by auto
termination
  by (relation "measure (\<lambda>(n, len). nat \<bar>n\<bar>)") (auto simp: c_div_def split: if_splits)

declare len_loop.simps [simp del]

definition addReplyBulkLen :: "cid \<Rightarrow> robj \<Rightarrow> server \<Rightarrow> server option" where
  "addReplyBulkLen c ob sv =
     (case o_ptr ob of
        Sds s \<Rightarrow>
          if o_encoding ob = ENC_RAW
          then Some (addReplyLongLongWithPrefix c (int (length s)) CHR ''$'' sv) else None
      | Long n \<Rightarrow>
          if o_encoding ob \<noteq> ENC_RAW
          then Some (addReplyLongLongWithPrefix c
                 (int (len_loop (if n < 0 then to_int64 (- n) else n) (if n < 0 then 2 else 1))) CHR ''$'' sv)
          else None
      | _ \<Rightarrow> None)"

definition addReplyBulk :: "cid \<Rightarrow> robj \<Rightarrow> server \<Rightarrow> server option" where
  "addReplyBulk c ob sv =
     Option.bind (addReplyBulkLen c ob sv) (\<lambda>sv.
     Option.bind (addReplyObject c ob sv) (\<lambda>sv. Some (addReply c CRLF sv)))"

text \<open>\<open>len\<close> bytes from index \<open>start\<close> of a buffer; \<open>None\<close> when they are not all in the buffer.\<close>

definition addReplyBulkCBuffer :: "cid \<Rightarrow> string \<Rightarrow> nat \<Rightarrow> nat \<Rightarrow> server \<Rightarrow> server option" where
  "addReplyBulkCBuffer c buf start len sv =
     (if length buf < start + len then None
      else Some (addReply c CRLF (addReplyString c (take len (drop start buf))
                  (addReplyLongLongWithPrefix c (int len) CHR ''$'' sv))))"

section \<open>Arguments\<close>

definition getLongLongFromObjectOrReply ::
    "cid \<Rightarrow> robj option \<Rightarrow> string option \<Rightarrow> server \<Rightarrow> (int option \<times> server) option" where
  "getLongLongFromObjectOrReply c o' msg sv =
     (case getLongLongFromObject o' of
        None \<Rightarrow> None
      | Some None \<Rightarrow>
          Some (None, addReplyError c
                  (case msg of Some m \<Rightarrow> m | None \<Rightarrow> ''value is not an integer or out of range'') sv)
      | Some (Some v) \<Rightarrow> Some (Some v, sv))"

definition getLongFromObjectOrReply ::
    "cid \<Rightarrow> robj option \<Rightarrow> string option \<Rightarrow> server \<Rightarrow> (int option \<times> server) option" where
  "getLongFromObjectOrReply c o' msg sv =
     (case getLongLongFromObjectOrReply c o' msg sv of
        None \<Rightarrow> None
      | Some (None, sv) \<Rightarrow> Some (None, sv)
      | Some (Some v, sv) \<Rightarrow>
          if v < LLONG_MIN \<or> LLONG_MAX < v
          then Some (None, addReplyError c (case msg of Some m \<Rightarrow> m | None \<Rightarrow> ''value is out of range'') sv)
          else Some (Some v, sv))"

definition checkType :: "cid \<Rightarrow> robj \<Rightarrow> otype \<Rightarrow> server \<Rightarrow> bool \<times> server" where
  "checkType c ob type sv =
     (if o_type ob \<noteq> type then (True, addReply c shared_wrongtypeerr sv) else (False, sv))"

text \<open>An argument as the object the parser of requests made of it.\<close>

abbreviation arg :: "cid \<Rightarrow> server \<Rightarrow> nat \<Rightarrow> robj" where
  "arg c sv i \<equiv> createStringObject (argv c sv i)"

section \<open>What the reply functions write\<close>

text \<open>The protocol encodings of a bulk string and of an integer.\<close>

definition bulk :: "string \<Rightarrow> string" where
  "bulk s = ''$'' @ dec_nat (length s) @ CRLF @ s @ CRLF"

definition intreply :: "int \<Rightarrow> string" where
  "intreply n = '':'' @ dec_int n @ CRLF"

text \<open>
  The limit on the length of strings: requests carry no longer arguments and
  \<open>checkStringLength\<close> refuses to build them.
\<close>

definition small :: "string \<Rightarrow> bool" where
  "small s \<longleftrightarrow> length s \<le> 536870912"

definition robj_small :: "robj \<Rightarrow> bool" where
  "robj_small ob \<longleftrightarrow> (case o_ptr ob of Sds s \<Rightarrow> small s | _ \<Rightarrow> True)"

lemma addReplyString_append [simp]:
  "addReplyString c t (addReplyString c s sv) = addReplyString c (s @ t) sv"
  by (simp add: addReplyString_def upd_client_def prepareClientToWrite_def)

lemma ll2string_127:
  assumes "LLONG_MIN \<le> n" "n \<le> LLONG_MAX"
  shows "snd (ll2string 127 n) = dec_int n"
  using ll2string_buf [OF assms, of 127] by simp

lemma addReplyLongLong_props:
  assumes "LLONG_MIN \<le> n" "n \<le> LLONG_MAX"
  shows "addReplyLongLong c n sv = addReplyString c (intreply n) sv"
proof -
  have c1: "char_of (49 :: nat) = CHR ''1''" by code_simp
  have d: "dec_int 0 = ''0''" "dec_int 1 = ''1''" by (simp_all add: dec_int_def dec_nat.simps c1)
  show ?thesis
    by (auto simp: addReplyLongLong_def addReply_def shared_czero_def shared_cone_def intreply_def d
        addReplyLongLongWithPrefix_def ll2string_127 [OF assms])
qed

lemma len_loop_eq: "len_loop n len + 1 = len + length (dec_nat (nat \<bar>n\<bar>))"
proof (induction n len rule: len_loop.induct)
  case (1 n len)
  have q: "nat \<bar>c_div10 n\<bar> = nat \<bar>n\<bar> div 10"
    by (auto simp: c_div_def nat_div_distrib)
  have z: "c_div10 n = 0 \<longleftrightarrow> nat \<bar>n\<bar> < 10"
    using q by (metis abs_eq_0 div_eq_0_iff nat_0_iff nat_0 zero_neq_numeral abs_ge_zero dual_order.antisym)
  show ?case
  proof (cases "c_div10 n = 0")
    case True
    then show ?thesis using z by (subst len_loop.simps, subst dec_nat.simps) simp
  next
    case False
    have "length (dec_nat (nat \<bar>n\<bar>)) = length (dec_nat (nat \<bar>n\<bar> div 10)) + 1"
      using False z by (subst dec_nat.simps) simp
    then show ?thesis using 1 [OF False] False q by (subst len_loop.simps) simp
  qed
qed

lemma len_loop_dec:
  assumes "LLONG_MIN \<le> n" "n \<le> LLONG_MAX"
  shows "len_loop (if n < 0 then to_int64 (- n) else n) (if n < 0 then 2 else 1) = length (dec_int n)"
proof -
  have m: "nat \<bar>if n < 0 then to_int64 (- n) else n\<bar> = nat \<bar>n\<bar>"
  proof (cases "n = LLONG_MIN")
    case True
    then show ?thesis by (simp add: to_int64_def)
  next
    case False
    then show ?thesis using assms by simp
  qed
  show ?thesis
    using len_loop_eq [of "if n < 0 then to_int64 (- n) else n" "if n < 0 then 2 else 1"] m
    by (auto simp: dec_int_def)
qed

lemma addReplyBulk_props:
  assumes "robj_wf ob" "o_type ob = REDIS_STRING" "robj_small ob"
  shows "addReplyBulk c ob sv = Some (addReplyString c (bulk (objval ob)) sv)"
  using assms(1,2)
proof (cases rule: robj_wf_string)
  case (raw s)
  then have "int (length s) \<le> LLONG_MAX" using assms(3) by (simp add: robj_small_def small_def)
  then have "snd (ll2string 127 (int (length s))) = dec_nat (length s)"
    by (simp add: ll2string_127 dec_int_def)
  then show ?thesis using raw
    by (simp add: addReplyBulk_def addReplyBulkLen_def addReplyObject_def addReply_def bulk_def
        addReplyLongLongWithPrefix_def)
next
  case (num n)
  have "snd (ll2string 127 (int (length (dec_int n)))) = dec_nat (length (dec_int n))"
    using length_dec_int [OF num(3,4)] by (simp add: ll2string_127 dec_int_def)
  then show ?thesis using num ll2string_buf [OF num(3,4), of 32]
    by (simp add: addReplyBulk_def addReplyBulkLen_def addReplyObject_def addReply_def bulk_def
        addReplyLongLongWithPrefix_def len_loop_dec [OF num(3,4)] objval_def)
qed

lemma addReplyBulkCBuffer_props:
  assumes "start + len \<le> length buf" "small buf"
  shows "addReplyBulkCBuffer c buf start len sv = Some (addReplyString c (bulk (take len (drop start buf))) sv)"
proof -
  have "int len \<le> LLONG_MAX" using assms by (simp add: small_def)
  then have "snd (ll2string 127 (int len)) = dec_nat len" by (simp add: ll2string_127 dec_int_def)
  then show ?thesis using assms
    by (simp add: addReplyBulkCBuffer_def addReply_def addReplyLongLongWithPrefix_def bulk_def)
qed

lemma getLongLong_reply:
  assumes "robj_wf ob" "o_type ob = REDIS_STRING"
  shows "\<exists>r. getLongLongFromObjectOrReply c (Some ob) msg sv =
      Some (r, if r = None then addReplyError c (case msg of Some m \<Rightarrow> m | None \<Rightarrow> ''value is not an integer or out of range'') sv else sv) \<and>
    getLongLongFromObject (Some ob) = Some r \<and>
    getLongFromObjectOrReply c (Some ob) msg sv = getLongLongFromObjectOrReply c (Some ob) msg sv \<and>
    (\<forall>v. r = Some v \<longrightarrow> LLONG_MIN \<le> v \<and> v \<le> LLONG_MAX)"
proof -
  obtain r where r: "getLongLongFromObject (Some ob) = Some r" "\<forall>v. r = Some v \<longrightarrow> LLONG_MIN \<le> v \<and> v \<le> LLONG_MAX"
    using getLongLong_total [OF assms] by blast
  show ?thesis
  proof (cases r)
    case None
    with r show ?thesis by (simp add: getLongLongFromObjectOrReply_def getLongFromObjectOrReply_def)
  next
    case (Some v)
    with r(2) have "\<not> (v < LLONG_MIN \<or> LLONG_MAX < v)" by simp
    with r Some show ?thesis by (simp add: getLongLongFromObjectOrReply_def getLongFromObjectOrReply_def)
  qed
qed

section \<open>The keyspace and the rest\<close>

text \<open>
  \<open>frame sv sv'\<close>: an operation on the keyspace leaves the transactions, the watched keys, the
  subscriptions, the selected databases and the configuration of the server as they are.
\<close>

definition same_session :: "client \<Rightarrow> client \<Rightarrow> bool" where
  "same_session a b \<longleftrightarrow>
     c_db b = c_db a \<and> c_multi b = c_multi a \<and> c_dirty_exec b = c_dirty_exec a \<and>
     c_mstate b = c_mstate a \<and> c_watched b = c_watched a \<and> c_channels b = c_channels a \<and>
     c_patterns b = c_patterns a \<and> c_fake b = c_fake a \<and> c_close_after_reply b = c_close_after_reply a"

definition frame :: "server \<Rightarrow> server \<Rightarrow> bool" where
  "frame sv sv' \<longleftrightarrow>
     sv_dbnum sv' = sv_dbnum sv \<and> sv_clients sv' = sv_clients sv \<and> sv_channels sv' = sv_channels sv \<and>
     sv_patterns sv' = sv_patterns sv \<and> sv_now sv' = sv_now sv \<and> sv_loading sv' = sv_loading sv \<and>
     sv_masterhost sv' = sv_masterhost sv \<and> sv_maxmemory sv' = sv_maxmemory sv \<and>
     sv_iter sv' = sv_iter sv \<and> sv_rnd sv' = sv_rnd sv \<and>
     (\<forall>i. rd_watched (sv_db sv' i) = rd_watched (sv_db sv i)) \<and>
     (\<forall>c. same_session (sv_client sv c) (sv_client sv' c))"

lemma same_session_refl [simp]: "same_session a a"
  by (simp add: same_session_def)

lemma same_session_trans: "same_session a b \<Longrightarrow> same_session b d \<Longrightarrow> same_session a d"
  by (simp add: same_session_def)

lemma frame_refl [simp]: "frame sv sv"
  by (simp add: frame_def)

lemma frame_trans: "frame a b \<Longrightarrow> frame b d \<Longrightarrow> frame a d"
  unfolding frame_def using same_session_trans by (metis (no_types, lifting))

lemma frame_proj:
  assumes "frame sv sv'"
  shows "sv_now sv' = sv_now sv" "sv_loading sv' = sv_loading sv" "sv_masterhost sv' = sv_masterhost sv"
    "sv_dbnum sv' = sv_dbnum sv" "c_db (sv_client sv' c) = c_db (sv_client sv c)"
    "sv_maxmemory sv' = sv_maxmemory sv"
  using assms by (auto simp: frame_def same_session_def)

lemma frame_session: "frame sv sv' \<Longrightarrow> same_session (sv_client sv c) (sv_client sv' c)"
  unfolding frame_def by blast

lemma frame_session_proj:
  assumes "frame sv sv'"
  shows "c_channels (sv_client sv' c) = c_channels (sv_client sv c)"
    "c_patterns (sv_client sv' c) = c_patterns (sv_client sv c)" "c_fake (sv_client sv' c) = c_fake (sv_client sv c)"
    "c_multi (sv_client sv' c) = c_multi (sv_client sv c)" "c_mstate (sv_client sv' c) = c_mstate (sv_client sv c)"
    "c_dirty_exec (sv_client sv' c) = c_dirty_exec (sv_client sv c)"
    "c_watched (sv_client sv' c) = c_watched (sv_client sv c)"
    "c_close_after_reply (sv_client sv' c) = c_close_after_reply (sv_client sv c)"
  using frame_session [OF assms, of c] by (simp_all only: same_session_def)

lemma frame_server_proj:
  assumes "frame sv sv'"
  shows "sv_channels sv' = sv_channels sv" "sv_patterns sv' = sv_patterns sv" "sv_clients sv' = sv_clients sv"
    "sv_iter sv' = sv_iter sv" "sv_rnd sv' = sv_rnd sv" "rd_watched (sv_db sv' i) = rd_watched (sv_db sv i)"
  using assms unfolding frame_def by blast+

text \<open>The invariant of the keyspace.\<close>

definition entry_ok :: "key \<Rightarrow> robj \<Rightarrow> bool" where
  "entry_ok k ob \<longleftrightarrow> small k \<and> robj_wf ob \<and> robj_small ob"

definition db_wf :: "redisDb \<Rightarrow> bool" where
  "db_wf db \<longleftrightarrow>
     dom (rd_expires db) \<subseteq> dom (rd_dict db) \<and> finite (dom (rd_dict db)) \<and>
     (\<forall>k ob. rd_dict db k = Some ob \<longrightarrow> entry_ok k ob)"

definition ks_wf :: "server \<Rightarrow> bool" where
  "ks_wf sv \<longleftrightarrow> (\<forall>i. db_wf (sv_db sv i))"

text \<open>At least \<open>n\<close> arguments, none of them longer than the limit.\<close>

definition args_ok :: "nat \<Rightarrow> cid \<Rightarrow> server \<Rightarrow> bool" where
  "args_ok n c sv \<longleftrightarrow> n \<le> argc c sv \<and> (\<forall>a\<in>set (c_argv (sv_client sv c)). small a)"

lemma args_okD: "args_ok n c sv \<Longrightarrow> i < n \<Longrightarrow> small (argv c sv i)"
  by (auto simp: args_ok_def)

lemma createStringObject_small [simp]: "robj_small (createStringObject s) = small s"
  by (simp add: robj_small_def)

text \<open>Total correctness of a handler: it returns, in a state with the property.\<close>

definition ok :: "'a option \<Rightarrow> ('a \<Rightarrow> bool) \<Rightarrow> bool" where
  "ok x Q \<longleftrightarrow> (case x of None \<Rightarrow> False | Some a \<Rightarrow> Q a)"

lemma ok_simps [simp]:
  "ok (Some a) Q = Q a"
  "\<not> ok None Q"
  "ok (Option.bind x f) Q = ok x (\<lambda>a. ok (f a) Q)"
  by (auto simp: ok_def split: option.splits Option.bind_splits)

lemma ok_mono: "ok x P \<Longrightarrow> (\<And>a. P a \<Longrightarrow> Q a) \<Longrightarrow> ok x Q"
  by (auto simp: ok_def split: option.splits)

lemma ok_iff: "ok x Q \<longleftrightarrow> (\<exists>a. x = Some a \<and> Q a)"
  by (auto simp: ok_def split: option.splits)

text \<open>Writing replies and counting changes touch neither.\<close>

lemma addReplyString_state [simp]:
  "sv_db (addReplyString c s sv) = sv_db sv"
  "frame sv0 (addReplyString c s sv) = frame sv0 sv"
  "ks_wf (addReplyString c s sv) = ks_wf sv"
  "c_argv (sv_client (addReplyString c s sv) d) = c_argv (sv_client sv d)"
  "c_db (sv_client (addReplyString c s sv) d) = c_db (sv_client sv d)"
  "sv_now (addReplyString c s sv) = sv_now sv"
  "sv_loading (addReplyString c s sv) = sv_loading sv"
  "sv_masterhost (addReplyString c s sv) = sv_masterhost sv"
  "sv_maxmemory (addReplyString c s sv) = sv_maxmemory sv"
  "sv_dirty (addReplyString c s sv) = sv_dirty sv"
proof -
  have "same_session a (sv_client (addReplyString c s sv) d) = same_session a (sv_client sv d)" for a d
    by (simp add: addReplyString_def upd_client_def same_session_def)
  then show "frame sv0 (addReplyString c s sv) = frame sv0 sv"
    by (simp add: frame_def) (simp add: addReplyString_def upd_client_def)
qed (simp_all add: addReplyString_def upd_client_def ks_wf_def)

lemma incr_dirty_state [simp]:
  "sv_db (incr_dirty n sv) = sv_db sv" "sv_client (incr_dirty n sv) = sv_client sv"
  "frame sv0 (incr_dirty n sv) = frame sv0 sv" "ks_wf (incr_dirty n sv) = ks_wf sv"
  "sv_now (incr_dirty n sv) = sv_now sv" "sv_loading (incr_dirty n sv) = sv_loading sv"
  "sv_masterhost (incr_dirty n sv) = sv_masterhost sv" "sv_maxmemory (incr_dirty n sv) = sv_maxmemory sv"
  "sv_dirty (incr_dirty n sv) = sv_dirty sv + n"
  by (simp_all add: incr_dirty_def frame_def ks_wf_def)

lemma addReplyError_eq: "addReplyError c e sv = addReplyString c (''-ERR '' @ cstr e @ CRLF) sv"
  by (simp add: addReplyError_def addReplyErrorLength_def)

lemmas reply_simps = addReply_def addReplyError_eq addReplyBulk_props addReplyLongLong_props

section \<open>The initial state\<close>

text \<open>
  \<open>createClient\<close>: \<open>fake\<close> is a call with \<open>-1\<close> for a socket; such a client is not in
  \<open>server.clients\<close>.
\<close>

definition initial_client :: "bool \<Rightarrow> client" where
  "initial_client fake =
     \<lparr>c_db = 0, c_cmd = [], c_argv = [], c_fake = fake, c_master = False, c_authenticated = False,
      c_close_after_reply = False, c_multi = False, c_dirty_cas = False, c_dirty_exec = False,
      c_mstate = [], c_watched = [], c_channels = [], c_patterns = [], c_out = []\<rparr>"

definition createClient :: "cid \<Rightarrow> bool \<Rightarrow> server \<Rightarrow> server" where
  "createClient c fake sv =
     sv\<lparr>sv_client := (sv_client sv)(c := initial_client fake),
        sv_clients := (if fake then sv_clients sv else sv_clients sv @ [c])\<rparr>"

text \<open>
  \<open>initServer\<close>: empty databases and tables, counters at zero.  The configuration, the clock and
  the sources of nondeterminism are arguments.
\<close>

definition initServer :: "nat \<Rightarrow> int \<Rightarrow> ((key \<Rightarrow> robj option) \<Rightarrow> key list) \<Rightarrow> ((key \<Rightarrow> robj option) \<Rightarrow> nat \<Rightarrow> key) \<Rightarrow> server" where
  "initServer dbnum now iter rnd =
     \<lparr>sv_db = (\<lambda>_. \<lparr>rd_dict = Map.empty, rd_expires = Map.empty, rd_watched = Map.empty\<rparr>),
      sv_dbnum = dbnum, sv_client = (\<lambda>_. initial_client False), sv_clients = [],
      sv_channels = Map.empty, sv_patterns = [], sv_now = now, sv_loading = False,
      sv_masterhost = False, sv_maxmemory = 0, sv_dirty = 0, sv_expiredkeys = 0, sv_hits = 0,
      sv_misses = 0, sv_lastsave = now div 1000, sv_saveparams = True, sv_aof_on = True,
      sv_slaves = True, sv_aof = [], sv_repl = [], sv_iter = iter, sv_rnd = rnd, sv_disk_ok = True,
      sv_requirepass = None, sv_stop_writes = True, sv_bgsave_err = False, sv_slave_ro = True,
      sv_repl_connected = False, sv_serve_stale = True, sv_lua_timedout = False,
      sv_policy = VOLATILE_LRU, sv_samples = 3, sv_evictedkeys = 0, sv_mem = (\<lambda>_. 0), sv_idle = (\<lambda>_ _. 0)\<rparr>"

lemma initServer_wf [simp]: "ks_wf (initServer n t iter rnd)"
  by (simp add: initServer_def ks_wf_def db_wf_def)

lemma initServer_state [simp]:
  "rd_dict (sv_db (initServer n t iter rnd) i) = Map.empty"
  "rd_expires (sv_db (initServer n t iter rnd) i) = Map.empty"
  "rd_watched (sv_db (initServer n t iter rnd) i) = Map.empty"
  "sv_client (initServer n t iter rnd) c = initial_client False"
  "sv_now (initServer n t iter rnd) = t" "sv_dbnum (initServer n t iter rnd) = n"
  "sv_loading (initServer n t iter rnd) = False" "sv_masterhost (initServer n t iter rnd) = False"
  "sv_rnd (initServer n t iter rnd) = rnd" "sv_iter (initServer n t iter rnd) = iter"
  "sv_dirty (initServer n t iter rnd) = 0" "sv_maxmemory (initServer n t iter rnd) = 0"
  by (simp_all add: initServer_def)

lemma initial_client_state [simp]:
  "c_db (initial_client f) = 0" "c_argv (initial_client f) = []" "c_out (initial_client f) = []"
  "c_watched (initial_client f) = []" "c_channels (initial_client f) = []" "c_patterns (initial_client f) = []"
  "c_multi (initial_client f) = False" "c_mstate (initial_client f) = []" "c_fake (initial_client f) = f"
  "c_close_after_reply (initial_client f) = False"
  "c_dirty_cas (initial_client f) = False" "c_dirty_exec (initial_client f) = False"
  by (simp_all add: initial_client_def)

text \<open>A client with its arguments read.\<close>

definition with_args :: "cid \<Rightarrow> string list \<Rightarrow> server \<Rightarrow> server" where
  "with_args c args = upd_client c (c_argv_update (\<lambda>_. args))"

lemma with_args_state [simp]:
  "sv_db (with_args c args sv) = sv_db sv" "ks_wf (with_args c args sv) = ks_wf sv"
  "c_argv (sv_client (with_args c args sv) d) = (if d = c then args else c_argv (sv_client sv d))"
  "c_db (sv_client (with_args c args sv) d) = c_db (sv_client sv d)"
  "c_fake (sv_client (with_args c args sv) d) = c_fake (sv_client sv d)"
  "c_close_after_reply (sv_client (with_args c args sv) d) = c_close_after_reply (sv_client sv d)"
  "c_out (sv_client (with_args c args sv) d) = c_out (sv_client sv d)"
  "sv_now (with_args c args sv) = sv_now sv" "sv_loading (with_args c args sv) = sv_loading sv"
  "sv_masterhost (with_args c args sv) = sv_masterhost sv" "sv_rnd (with_args c args sv) = sv_rnd sv"
  "sv_iter (with_args c args sv) = sv_iter sv" "sv_dbnum (with_args c args sv) = sv_dbnum sv"
  "sv_maxmemory (with_args c args sv) = sv_maxmemory sv"
  by (simp_all add: with_args_def upd_client_def ks_wf_def)

end
