(* ===== verification/Watch.thy ===== *)
theory Watch
  imports Server
begin

text \<open>
  WATCH (\<open>src/multi.c\<close>): every database maps the watched keys to the clients that watch them,
  every client lists the keys it watches, and a client is marked dirty when one of them is
  touched.
\<close>

section \<open>Operations\<close>

definition watchForKey :: "cid \<Rightarrow> key \<Rightarrow> server \<Rightarrow> server" where
  "watchForKey c key sv =
     (let i = cdb c sv
      in if (key, i) \<in> set (c_watched (sv_client sv c)) then sv
         else let clients = (case rd_watched (sv_db sv i) key of None \<Rightarrow> [] | Some cs \<Rightarrow> cs);
                  sv1 = upd_db i (rd_watched_update (\<lambda>w. w(key \<mapsto> clients @ [c]))) sv
              in upd_client c (c_watched_update (\<lambda>ws. ws @ [(key, i)])) sv1)"

text \<open>The loop of \<open>unwatchAllKeys\<close>; the assertion is that the key has a list of clients.\<close>

fun unwatch_loop :: "cid \<Rightarrow> (key \<times> nat) list \<Rightarrow> server \<Rightarrow> server option" where
  "unwatch_loop c [] sv = Some sv"
| "unwatch_loop c ((key, i) # wks) sv =
     (case rd_watched (sv_db sv i) key of
        None \<Rightarrow> None
      | Some clients \<Rightarrow>
          if c \<notin> set clients then None
          else let clients' = remove1 c clients;
                   sv1 = upd_db i (rd_watched_update (\<lambda>w. w(key := if clients' = [] then None else Some clients'))) sv
               in unwatch_loop c wks (upd_client c (c_watched_update (remove1 (key, i))) sv1))"

definition unwatchAllKeys :: "cid \<Rightarrow> server \<Rightarrow> server option" where
  "unwatchAllKeys c sv = unwatch_loop c (c_watched (sv_client sv c)) sv"

definition mark_dirty_cas :: "cid \<Rightarrow> server \<Rightarrow> server" where
  "mark_dirty_cas c = upd_client c (c_dirty_cas_update (\<lambda>_. True))"

definition touchWatchedKey :: "nat \<Rightarrow> key \<Rightarrow> server \<Rightarrow> server" where
  "touchWatchedKey i key sv =
     (case rd_watched (sv_db sv i) key of
        None \<Rightarrow> sv
      | Some clients \<Rightarrow> fold mark_dirty_cas clients sv)"

text \<open>\<open>dbid\<close> is the database that is flushed, or \<open>-1\<close> for all of them.\<close>

definition touch_client_on_flush :: "int \<Rightarrow> cid \<Rightarrow> server \<Rightarrow> server" where
  "touch_client_on_flush dbid c sv =
     fold (\<lambda>(key, i) sv.
             if (dbid = -1 \<or> int i = dbid) \<and> rd_dict (sv_db sv i) key \<noteq> None
             then mark_dirty_cas c sv else sv)
          (c_watched (sv_client sv c)) sv"

definition touchWatchedKeysOnFlush :: "int \<Rightarrow> server \<Rightarrow> server" where
  "touchWatchedKeysOnFlush dbid sv = fold (touch_client_on_flush dbid) (sv_clients sv) sv"

definition watchCommand :: "cid \<Rightarrow> server \<Rightarrow> server option" where
  "watchCommand c sv =
     (if c_multi (sv_client sv c)
      then Some (addReplyError c ''WATCH inside MULTI is not allowed'' sv)
      else Some (addReply c shared_ok (fold (watchForKey c) (drop 1 (c_argv (sv_client sv c))) sv)))"

definition unwatchCommand :: "cid \<Rightarrow> server \<Rightarrow> server option" where
  "unwatchCommand c sv =
     Option.bind (unwatchAllKeys c sv) (\<lambda>sv.
     Some (addReply c shared_ok (upd_client c (c_dirty_cas_update (\<lambda>_. False)) sv)))"

section \<open>Touching\<close>

text \<open>The clients that touching a key marks, and the state with these clients marked.\<close>

definition watchers :: "server \<Rightarrow> nat \<Rightarrow> key \<Rightarrow> cid set" where
  "watchers sv i key = (case rd_watched (sv_db sv i) key of None \<Rightarrow> {} | Some cs \<Rightarrow> set cs)"

definition mark_all :: "cid set \<Rightarrow> server \<Rightarrow> server" where
  "mark_all S sv = sv\<lparr>sv_client := \<lambda>c. if c \<in> S then (sv_client sv c)\<lparr>c_dirty_cas := True\<rparr> else sv_client sv c\<rparr>"

lemma mark_all_empty [simp]: "mark_all {} sv = sv"
  by (simp add: mark_all_def)

lemma mark_dirty_cas_eq: "mark_dirty_cas c sv = mark_all {c} sv"
  by (auto simp: mark_dirty_cas_def mark_all_def upd_client_def fun_eq_iff)

lemma mark_all_mark_all [simp]: "mark_all S (mark_all T sv) = mark_all (S \<union> T) sv"
  by (auto simp: mark_all_def fun_eq_iff)

lemma fold_mark: "fold mark_dirty_cas cs sv = mark_all (set cs) sv"
  by (induction cs arbitrary: sv) (simp_all add: mark_dirty_cas_eq Un_commute)

lemma touchWatchedKey_eq: "touchWatchedKey i key sv = mark_all (watchers sv i key) sv"
  by (simp add: touchWatchedKey_def watchers_def fold_mark split: option.split)

lemma mark_all_state [simp]:
  "sv_db (mark_all S sv) = sv_db sv" "sv_clients (mark_all S sv) = sv_clients sv"
  "frame sv0 (mark_all S sv) = frame sv0 sv" "ks_wf (mark_all S sv) = ks_wf sv"
  "c_argv (sv_client (mark_all S sv) d) = c_argv (sv_client sv d)"
  "c_db (sv_client (mark_all S sv) d) = c_db (sv_client sv d)"
  "c_watched (sv_client (mark_all S sv) d) = c_watched (sv_client sv d)"
  "c_out (sv_client (mark_all S sv) d) = c_out (sv_client sv d)"
  "c_fake (sv_client (mark_all S sv) d) = c_fake (sv_client sv d)"
  "c_close_after_reply (sv_client (mark_all S sv) d) = c_close_after_reply (sv_client sv d)"
  "c_dirty_cas (sv_client (mark_all S sv) d) = (d \<in> S \<or> c_dirty_cas (sv_client sv d))"
  "sv_now (mark_all S sv) = sv_now sv" "sv_loading (mark_all S sv) = sv_loading sv"
  "sv_masterhost (mark_all S sv) = sv_masterhost sv" "sv_maxmemory (mark_all S sv) = sv_maxmemory sv"
  "sv_dirty (mark_all S sv) = sv_dirty sv"
proof -
  have "same_session a (sv_client (mark_all S sv) d) = same_session a (sv_client sv d)" for a d
    by (simp add: mark_all_def same_session_def)
  then show "frame sv0 (mark_all S sv) = frame sv0 sv"
    by (simp add: frame_def) (simp add: mark_all_def)
qed (simp_all add: mark_all_def ks_wf_def)

text \<open>A watched key that a flush removes.\<close>

definition flushed_watch :: "int \<Rightarrow> server \<Rightarrow> key \<times> nat \<Rightarrow> bool" where
  "flushed_watch dbid sv wk \<longleftrightarrow>
     (dbid = -1 \<or> int (snd wk) = dbid) \<and> rd_dict (sv_db sv (snd wk)) (fst wk) \<noteq> None"

definition flush_victims :: "int \<Rightarrow> server \<Rightarrow> cid set" where
  "flush_victims dbid sv = {c. \<exists>wk\<in>set (c_watched (sv_client sv c)). flushed_watch dbid sv wk}"

lemma flushed_mark_all [simp]:
  "flushed_watch dbid (mark_all S sv) = flushed_watch dbid sv"
  "flush_victims dbid (mark_all S sv) = flush_victims dbid sv"
  by (simp_all add: flushed_watch_def flush_victims_def fun_eq_iff)

lemma touch_client_eq:
  "touch_client_on_flush dbid c sv = mark_all ({c} \<inter> flush_victims dbid sv) sv"
proof -
  have step: "(\<lambda>(key, i) sv. if (dbid = -1 \<or> int i = dbid) \<and> rd_dict (sv_db sv i) key \<noteq> None
             then mark_dirty_cas c sv else sv) =
     (\<lambda>wk sv. mark_all (if flushed_watch dbid sv wk then {c} else {}) sv)"
    by (simp add: fun_eq_iff flushed_watch_def mark_dirty_cas_eq)
  have "fold (\<lambda>wk sv. mark_all (if flushed_watch dbid sv wk then {c} else {}) sv) ws sv =
     mark_all (if \<exists>wk\<in>set ws. flushed_watch dbid sv wk then {c} else {}) sv" for ws
    by (induction ws arbitrary: sv) simp_all
  then show ?thesis
    by (simp only: touch_client_on_flush_def step) (simp add: flush_victims_def)
qed

lemma touchWatchedKeysOnFlush_eq:
  "touchWatchedKeysOnFlush dbid sv = mark_all (set (sv_clients sv) \<inter> flush_victims dbid sv) sv"
proof -
  have "fold (touch_client_on_flush dbid) cs sv = mark_all (set cs \<inter> flush_victims dbid sv) sv" for cs
  proof (induction cs arbitrary: sv)
    case (Cons c cs)
    have st: "set cs \<inter> flush_victims dbid sv \<union> {c} \<inter> flush_victims dbid sv = set (c # cs) \<inter> flush_victims dbid sv"
      by auto
    have "fold (touch_client_on_flush dbid) (c # cs) sv =
        fold (touch_client_on_flush dbid) cs (touch_client_on_flush dbid c sv)" by simp
    also have "\<dots> = mark_all (set cs \<inter> flush_victims dbid (touch_client_on_flush dbid c sv))
        (touch_client_on_flush dbid c sv)" by (rule Cons.IH)
    also have "\<dots> = mark_all (set cs \<inter> flush_victims dbid sv \<union> {c} \<inter> flush_victims dbid sv) sv"
      by (simp only: touch_client_eq flushed_mark_all mark_all_mark_all)
    finally show ?case by (simp only: st)
  qed simp
  then show ?thesis by (simp only: touchWatchedKeysOnFlush_def)
qed

section \<open>The invariant\<close>

text \<open>The two sides agree: a client is in the list of a key exactly if it lists the key.\<close>

definition watch_wf :: "server \<Rightarrow> bool" where
  "watch_wf sv \<longleftrightarrow>
     (\<forall>i key cs. rd_watched (sv_db sv i) key = Some cs \<longrightarrow> cs \<noteq> [] \<and> distinct cs) \<and>
     (\<forall>c. distinct (c_watched (sv_client sv c))) \<and>
     (\<forall>c key i. (key, i) \<in> set (c_watched (sv_client sv c)) \<longleftrightarrow> c \<in> watchers sv i key)"

lemma watch_wf_frame: "frame sv sv' \<Longrightarrow> watch_wf sv' = watch_wf sv"
  by (simp add: watch_wf_def watchers_def frame_def same_session_def)

lemma upd_watched_state [simp]:
  "rd_dict (sv_db (upd_db i (rd_watched_update f) sv) j) = rd_dict (sv_db sv j)"
  "rd_expires (sv_db (upd_db i (rd_watched_update f) sv) j) = rd_expires (sv_db sv j)"
  by (simp_all add: upd_db_def)

lemma db_wf_cong: "rd_dict a = rd_dict b \<Longrightarrow> rd_expires a = rd_expires b \<Longrightarrow> db_wf a = db_wf b"
  by (simp add: db_wf_def)

lemma ks_wf_cong:
  "(\<And>i. rd_dict (sv_db a i) = rd_dict (sv_db b i)) \<Longrightarrow> (\<And>i. rd_expires (sv_db a i) = rd_expires (sv_db b i)) \<Longrightarrow>
    ks_wf a = ks_wf b"
  unfolding ks_wf_def using db_wf_cong by blast

text \<open>What WATCH and UNWATCH change: the watch tables and nothing else.\<close>

definition watch_frame :: "server \<Rightarrow> server \<Rightarrow> bool" where
  "watch_frame sv sv' \<longleftrightarrow>
     (\<exists>wdb wcl. sv' = sv\<lparr>sv_db := \<lambda>i. (sv_db sv i)\<lparr>rd_watched := wdb i\<rparr>,
                          sv_client := \<lambda>c. (sv_client sv c)\<lparr>c_watched := wcl c\<rparr>\<rparr>)"

lemma watch_frame_refl: "watch_frame sv sv"
  unfolding watch_frame_def
  by (rule exI [of _ "\<lambda>i. rd_watched (sv_db sv i)"], rule exI [of _ "\<lambda>c. c_watched (sv_client sv c)"]) simp

lemma watch_frame_trans: "watch_frame a b \<Longrightarrow> watch_frame b d \<Longrightarrow> watch_frame a d"
  unfolding watch_frame_def by (elim exE) (simp, blast)

lemma watch_frame_step:
  "watch_frame sv (upd_client c (c_watched_update f) (upd_db i (rd_watched_update g) sv))"
  unfolding watch_frame_def
  by (rule exI [of _ "\<lambda>j. if j = i then g (rd_watched (sv_db sv i)) else rd_watched (sv_db sv j)"],
      rule exI [of _ "\<lambda>d. if d = c then f (c_watched (sv_client sv c)) else c_watched (sv_client sv d)"])
    (simp add: upd_client_def upd_db_def fun_upd_def fun_eq_iff)

lemma watch_frame_ks: "watch_frame sv sv' \<Longrightarrow> ks_wf sv' = ks_wf sv"
  by (rule ks_wf_cong) (auto simp: watch_frame_def)

lemma watch_wfD:
  assumes "watch_wf sv"
  shows "rd_watched (sv_db sv i) key = Some cs \<Longrightarrow> cs \<noteq> [] \<and> distinct cs"
    "distinct (c_watched (sv_client sv c))"
    "(key, i) \<in> set (c_watched (sv_client sv c)) \<longleftrightarrow> c \<in> watchers sv i key"
  using assms by (simp_all add: watch_wf_def)

text \<open>Setting the list of a key and the keys of a client together.\<close>

definition set_watch :: "nat \<Rightarrow> key \<Rightarrow> cid list option \<Rightarrow> cid \<Rightarrow> (key \<times> nat) list \<Rightarrow> server \<Rightarrow> server" where
  "set_watch i key cs c ws sv =
     upd_client c (c_watched_update (\<lambda>_. ws)) (upd_db i (rd_watched_update (\<lambda>w. w(key := cs))) sv)"

lemma c_watched_update_eq: "c_watched_update f cl = c_watched_update (\<lambda>_. f (c_watched cl)) cl"
  by (cases cl) simp

lemma upd_client_watched:
  "upd_client c (c_watched_update f) (upd_db i (rd_watched_update g) sv) =
   upd_client c (c_watched_update (\<lambda>_. f (c_watched (sv_client sv c)))) (upd_db i (rd_watched_update g) sv)"
proof -
  have "sv_client (upd_db i (rd_watched_update g) sv) = sv_client sv" by (simp add: upd_db_def)
  then show ?thesis by (simp only: upd_client_def c_watched_update_eq [of f])
qed

lemma set_watch_state [simp]:
  "rd_watched (sv_db (set_watch i key cs c ws sv) j) k =
     (if j = i \<and> k = key then cs else rd_watched (sv_db sv j) k)"
  "c_watched (sv_client (set_watch i key cs c ws sv) d) =
     (if d = c then ws else c_watched (sv_client sv d))"
  "watchers (set_watch i key cs c ws sv) j k =
     (if j = i \<and> k = key then (case cs of None \<Rightarrow> {} | Some cs \<Rightarrow> set cs) else watchers sv j k)"
  by (simp_all add: set_watch_def upd_client_def upd_db_def watchers_def)

lemma set_watch_frame: "watch_frame sv (set_watch i key cs c ws sv)"
  unfolding set_watch_def by (rule watch_frame_step)

lemma set_watch_wf:
  assumes "watch_wf sv" "\<And>l. cs = Some l \<Longrightarrow> l \<noteq> [] \<and> distinct l" "distinct ws"
    and "\<And>d. d \<noteq> c \<Longrightarrow> (d \<in> (case cs of None \<Rightarrow> {} | Some cs \<Rightarrow> set cs)) = (d \<in> watchers sv i key)"
    and "\<And>k j. (k, j) \<in> set ws \<longleftrightarrow>
      c \<in> (if j = i \<and> k = key then (case cs of None \<Rightarrow> {} | Some cs \<Rightarrow> set cs) else watchers sv j k)"
  shows "watch_wf (set_watch i key cs c ws sv)"
  unfolding watch_wf_def
proof (intro conjI allI impI)
  fix j k l assume "rd_watched (sv_db (set_watch i key cs c ws sv) j) k = Some l"
  then show "l \<noteq> []" "distinct l"
    using assms(2) watch_wfD(1) [OF assms(1)] by (simp_all split: if_splits)
next
  fix d show "distinct (c_watched (sv_client (set_watch i key cs c ws sv) d))"
    using assms(3) watch_wfD(2) [OF assms(1)] by simp
next
  fix d k j
  show "((k, j) \<in> set (c_watched (sv_client (set_watch i key cs c ws sv) d))) =
    (d \<in> watchers (set_watch i key cs c ws sv) j k)"
    using assms(4,5) watch_wfD(3) [OF assms(1)] by (cases "d = c") simp_all
qed

lemma watchForKey_props:
  assumes "watch_wf sv"
  shows "watch_wf (watchForKey c key sv)" "watch_frame sv (watchForKey c key sv)"
    "set (c_watched (sv_client (watchForKey c key sv) c)) = insert (key, cdb c sv) (set (c_watched (sv_client sv c)))"
proof -
  have "watch_wf (watchForKey c key sv) \<and> watch_frame sv (watchForKey c key sv) \<and>
    set (c_watched (sv_client (watchForKey c key sv) c)) = insert (key, cdb c sv) (set (c_watched (sv_client sv c)))"
  proof (cases "(key, cdb c sv) \<in> set (c_watched (sv_client sv c))")
    case True
    then show ?thesis using assms watch_frame_refl by (auto simp: watchForKey_def Let_def)
  next
    case False
    define i where "i = cdb c sv"
    define cs where "cs = (case rd_watched (sv_db sv i) key of None \<Rightarrow> [] | Some cs \<Rightarrow> cs)"
    define ws where "ws = c_watched (sv_client sv c) @ [(key, i)]"
    have eq: "watchForKey c key sv = set_watch i key (Some (cs @ [c])) c ws sv"
      unfolding watchForKey_def Let_def i_def [symmetric] set_watch_def cs_def [symmetric]
        upd_client_watched [of c "\<lambda>ws. ws @ [(key, i)]"]
      using False by (simp add: i_def ws_def)
    have cs: "set cs = watchers sv i key" "distinct cs"
      using watch_wfD(1) [OF assms, of i key] by (auto simp: cs_def watchers_def split: option.split)
    have c: "c \<notin> watchers sv i key" using watch_wfD(3) [OF assms, of key i c] False by (simp add: i_def)
    have "watch_wf (set_watch i key (Some (cs @ [c])) c ws sv)"
    proof (rule set_watch_wf [OF assms])
      show "distinct ws" using watch_wfD(2) [OF assms, of c] False by (simp add: ws_def i_def)
      show "l \<noteq> [] \<and> distinct l" if "Some (cs @ [c]) = Some l" for l
        using that cs c by auto
      show "(k, j) \<in> set ws \<longleftrightarrow>
        c \<in> (if j = i \<and> k = key then (case Some (cs @ [c]) of None \<Rightarrow> {} | Some cs \<Rightarrow> set cs) else watchers sv j k)" for k j
        using watch_wfD(3) [OF assms, of k j c] by (auto simp: ws_def)
    qed (simp add: cs)
    then show ?thesis unfolding eq using set_watch_frame by (simp add: ws_def i_def)
  qed
  then show "watch_wf (watchForKey c key sv)" "watch_frame sv (watchForKey c key sv)"
    "set (c_watched (sv_client (watchForKey c key sv) c)) = insert (key, cdb c sv) (set (c_watched (sv_client sv c)))"
    by simp_all
qed

lemma watch_frame_cdb: "watch_frame sv sv' \<Longrightarrow> cdb c sv' = cdb c sv"
  by (auto simp: watch_frame_def)

lemma fold_watchForKey:
  assumes "watch_wf sv"
  shows "watch_wf (fold (watchForKey c) ks sv) \<and> watch_frame sv (fold (watchForKey c) ks sv) \<and>
    set (c_watched (sv_client (fold (watchForKey c) ks sv) c)) =
      (\<lambda>k. (k, cdb c sv)) ` set ks \<union> set (c_watched (sv_client sv c))"
  using assms
proof (induction ks arbitrary: sv)
  case (Cons k ks)
  note w = watchForKey_props [OF Cons.prems, of c k]
  note ih = Cons.IH [OF w(1)]
  show ?case
    using ih w(3) watch_frame_trans [OF w(2)] watch_frame_cdb [OF w(2)] by auto
qed (simp add: watch_frame_refl)

lemma unwatch_step:
  assumes "watch_wf sv" "c_watched (sv_client sv c) = (key, i) # wks"
  obtains cs where "rd_watched (sv_db sv i) key = Some cs" "c \<in> set cs"
    "watch_wf (set_watch i key (if remove1 c cs = [] then None else Some (remove1 c cs)) c wks sv)"
proof -
  have cw: "c \<in> watchers sv i key" using watch_wfD(3) [OF assms(1), of key i c] assms(2) by simp
  then obtain cs where cs: "rd_watched (sv_db sv i) key = Some cs" "c \<in> set cs"
    by (auto simp: watchers_def split: option.splits)
  have d: "distinct cs" "distinct wks" "(key, i) \<notin> set wks"
    using watch_wfD(1) [OF assms(1) cs(1)] watch_wfD(2) [OF assms(1), of c] assms(2) by simp_all
  have s: "(case if remove1 c cs = [] then None else Some (remove1 c cs) of None \<Rightarrow> {} | Some cs \<Rightarrow> set cs) = set cs - {c}"
  proof (cases "remove1 c cs = []")
    case True
    then have "set cs - {c} = {}" using d(1) set_remove1_eq [of cs c] by simp
    with True show ?thesis by simp
  next
    case False
    then show ?thesis using d(1) set_remove1_eq [of cs c] by simp
  qed
  have "watch_wf (set_watch i key (if remove1 c cs = [] then None else Some (remove1 c cs)) c wks sv)"
  proof (rule set_watch_wf [OF assms(1)])
    show "distinct wks" by (rule d(2))
    show "l \<noteq> [] \<and> distinct l" if "(if remove1 c cs = [] then None else Some (remove1 c cs)) = Some l" for l
      using that d(1) by (auto split: if_splits)
    show "(e \<in> (case if remove1 c cs = [] then None else Some (remove1 c cs) of None \<Rightarrow> {} | Some cs \<Rightarrow> set cs)) =
        (e \<in> watchers sv i key)" if "e \<noteq> c" for e
      unfolding s using that cs(1) by (simp add: watchers_def)
    show "(k, j) \<in> set wks \<longleftrightarrow>
      c \<in> (if j = i \<and> k = key then (case if remove1 c cs = [] then None else Some (remove1 c cs) of None \<Rightarrow> {} | Some cs \<Rightarrow> set cs)
           else watchers sv j k)" for k j
      unfolding s using watch_wfD(3) [OF assms(1), of k j c] assms(2) d(3) by auto
  qed
  with cs show thesis by (rule that)
qed

lemma unwatchAllKeys_props:
  assumes "watch_wf sv"
  shows "\<exists>sv'. unwatchAllKeys c sv = Some sv' \<and> watch_wf sv' \<and> watch_frame sv sv' \<and>
    c_watched (sv_client sv' c) = []"
proof -
  have "\<exists>sv'. unwatch_loop c ws sv = Some sv' \<and> watch_wf sv' \<and> watch_frame sv sv' \<and>
    c_watched (sv_client sv' c) = []" if "c_watched (sv_client sv c) = ws" for ws
    using assms that
  proof (induction ws arbitrary: sv)
    case Nil
    then show ?case using watch_frame_refl by auto
  next
    case (Cons w wks)
    obtain key i where w: "w = (key, i)" by fastforce
    obtain cs where cs: "rd_watched (sv_db sv i) key = Some cs" "c \<in> set cs"
      "watch_wf (set_watch i key (if remove1 c cs = [] then None else Some (remove1 c cs)) c wks sv)"
      using unwatch_step [OF Cons.prems(1), of c key i wks] Cons.prems(2) w by blast
    let ?t = "set_watch i key (if remove1 c cs = [] then None else Some (remove1 c cs)) c wks sv"
    have "unwatch_loop c (w # wks) sv = unwatch_loop c wks ?t"
      unfolding w unwatch_loop.simps Let_def upd_client_watched [of c "remove1 (key, i)"] set_watch_def
      using cs(1,2) w Cons.prems(2) by simp
    moreover have "c_watched (sv_client ?t c) = wks" by simp
    ultimately show ?case
      using Cons.IH [OF cs(3)] watch_frame_trans [OF set_watch_frame] by metis
  qed
  then show ?thesis by (simp add: unwatchAllKeys_def)
qed

end
