(* ===== verification/Db.thy ===== *)
theory Db
  imports Watch
begin

text \<open>
  The keyspace (\<open>src/db.c\<close>): lookups with lazy expiry, insertion, overwriting and deletion of
  keys, expire times, and the commands that work on keys of any type.
\<close>

section \<open>Expire times\<close>

definition propagateExpire :: "nat \<Rightarrow> key \<Rightarrow> server \<Rightarrow> server" where
  "propagateExpire i key sv =
     sv\<lparr>sv_aof := (if sv_aof_on sv then sv_aof sv @ [(i, [''DEL'', key])] else sv_aof sv),
        sv_repl := (if sv_slaves sv then sv_repl sv @ [(i, [''DEL'', key])] else sv_repl sv)\<rparr>"

definition dbDelete :: "nat \<Rightarrow> key \<Rightarrow> server \<Rightarrow> bool \<times> server" where
  "dbDelete i key sv =
     (rd_dict (sv_db sv i) key \<noteq> None,
      upd_db i (rd_dict_update (\<lambda>d. d(key := None)))
        (upd_db i (rd_expires_update (\<lambda>e. e(key := None))) sv))"

definition removeExpire :: "nat \<Rightarrow> key \<Rightarrow> server \<Rightarrow> (bool \<times> server) option" where
  "removeExpire i key sv =
     (if rd_dict (sv_db sv i) key = None then None
      else Some (rd_expires (sv_db sv i) key \<noteq> None,
                 upd_db i (rd_expires_update (\<lambda>e. e(key := None))) sv))"

definition setExpire :: "nat \<Rightarrow> key \<Rightarrow> int \<Rightarrow> server \<Rightarrow> server option" where
  "setExpire i key when' sv =
     (if rd_dict (sv_db sv i) key = None then None
      else Some (upd_db i (rd_expires_update (\<lambda>e. e(key \<mapsto> when'))) sv))"

definition getExpire :: "nat \<Rightarrow> key \<Rightarrow> server \<Rightarrow> int option" where
  "getExpire i key sv =
     (case rd_expires (sv_db sv i) key of
        None \<Rightarrow> Some (-1)
      | Some when' \<Rightarrow> if rd_dict (sv_db sv i) key = None then None else Some when')"

definition expireIfNeeded :: "nat \<Rightarrow> key \<Rightarrow> server \<Rightarrow> (bool \<times> server) option" where
  "expireIfNeeded i key sv =
     Option.bind (getExpire i key sv) (\<lambda>when'.
       if when' < 0 then Some (False, sv)
       else if sv_loading sv then Some (False, sv)
       else if sv_masterhost sv then Some (when' < sv_now sv, sv)
       else if sv_now sv \<le> when' then Some (False, sv)
       else let sv1 = sv\<lparr>sv_expiredkeys := sv_expiredkeys sv + 1\<rparr>;
                sv2 = propagateExpire i key sv1
            in Some (dbDelete i key sv2))"

section \<open>Lookups and changes\<close>

definition signalModifiedKey :: "nat \<Rightarrow> key \<Rightarrow> server \<Rightarrow> server" where
  "signalModifiedKey = touchWatchedKey"

definition signalFlushedDb :: "int \<Rightarrow> server \<Rightarrow> server" where
  "signalFlushedDb = touchWatchedKeysOnFlush"

definition lookupKey :: "nat \<Rightarrow> key \<Rightarrow> server \<Rightarrow> robj option" where
  "lookupKey i key sv = rd_dict (sv_db sv i) key"

definition lookupKeyRead :: "nat \<Rightarrow> key \<Rightarrow> server \<Rightarrow> (robj option \<times> server) option" where
  "lookupKeyRead i key sv =
     Option.bind (expireIfNeeded i key sv) (\<lambda>(_, sv).
       let val = lookupKey i key sv
       in Some (val, if val = None then sv\<lparr>sv_misses := sv_misses sv + 1\<rparr>
                     else sv\<lparr>sv_hits := sv_hits sv + 1\<rparr>))"

definition lookupKeyWrite :: "nat \<Rightarrow> key \<Rightarrow> server \<Rightarrow> (robj option \<times> server) option" where
  "lookupKeyWrite i key sv =
     Option.bind (expireIfNeeded i key sv) (\<lambda>(_, sv). Some (lookupKey i key sv, sv))"

definition lookupKeyReadOrReply :: "cid \<Rightarrow> key \<Rightarrow> string \<Rightarrow> server \<Rightarrow> (robj option \<times> server) option" where
  "lookupKeyReadOrReply c key reply sv =
     Option.bind (lookupKeyRead (cdb c sv) key sv) (\<lambda>(ob, sv).
       Some (ob, if ob = None then addReply c reply sv else sv))"

definition lookupKeyWriteOrReply :: "cid \<Rightarrow> key \<Rightarrow> string \<Rightarrow> server \<Rightarrow> (robj option \<times> server) option" where
  "lookupKeyWriteOrReply c key reply sv =
     Option.bind (lookupKeyWrite (cdb c sv) key sv) (\<lambda>(ob, sv).
       Some (ob, if ob = None then addReply c reply sv else sv))"

definition dbAdd :: "nat \<Rightarrow> key \<Rightarrow> robj \<Rightarrow> server \<Rightarrow> server option" where
  "dbAdd i key val sv =
     (if rd_dict (sv_db sv i) key \<noteq> None then None
      else Some (upd_db i (rd_dict_update (\<lambda>d. d(key \<mapsto> val))) sv))"

definition dbOverwrite :: "nat \<Rightarrow> key \<Rightarrow> robj \<Rightarrow> server \<Rightarrow> server option" where
  "dbOverwrite i key val sv =
     (if rd_dict (sv_db sv i) key = None then None
      else Some (upd_db i (rd_dict_update (\<lambda>d. d(key \<mapsto> val))) sv))"

definition setKey :: "nat \<Rightarrow> key \<Rightarrow> robj \<Rightarrow> server \<Rightarrow> server option" where
  "setKey i key val sv =
     Option.bind (lookupKeyWrite i key sv) (\<lambda>(ob, sv).
     Option.bind (if ob = None then dbAdd i key val sv else dbOverwrite i key val sv) (\<lambda>sv.
     Option.bind (removeExpire i key sv) (\<lambda>(_, sv).
     Some (signalModifiedKey i key sv))))"

definition dbExists :: "nat \<Rightarrow> key \<Rightarrow> server \<Rightarrow> bool" where
  "dbExists i key sv \<longleftrightarrow> rd_dict (sv_db sv i) key \<noteq> None"

text \<open>
  The loop of \<open>dbRandomKey\<close>, which may never end.  The inner option is the failure of an
  assertion; \<open>n\<close> counts the draws.
\<close>

partial_function (option) dbRandomKey ::
    "nat \<Rightarrow> nat \<Rightarrow> server \<Rightarrow> (key option \<times> server) option option" where
  "dbRandomKey i n sv =
     (if rd_dict (sv_db sv i) = Map.empty then Some (Some (None, sv))
      else let key = sv_rnd sv (rd_dict (sv_db sv i)) n
           in if rd_expires (sv_db sv i) key = None then Some (Some (Some key, sv))
              else case expireIfNeeded i key sv of
                     None \<Rightarrow> Some None
                   | Some (expired, sv1) \<Rightarrow>
                       if expired then dbRandomKey i (n + 1) sv1
                       else Some (Some (Some key, sv1)))"

definition empty_db :: "redisDb \<Rightarrow> redisDb" where
  "empty_db db = db\<lparr>rd_dict := Map.empty, rd_expires := Map.empty\<rparr>"

definition dict_size :: "('a \<Rightarrow> 'b option) \<Rightarrow> int" where
  "dict_size m = int (card (dom m))"

definition emptyDb :: "server \<Rightarrow> int \<times> server" where
  "emptyDb sv =
     fold (\<lambda>j (removed, sv). (removed + dict_size (rd_dict (sv_db sv j)), upd_db j empty_db sv))
       [0..<sv_dbnum sv] (0, sv)"

definition selectDb :: "cid \<Rightarrow> int \<Rightarrow> server \<Rightarrow> bool \<times> server" where
  "selectDb c id' sv =
     (if id' < 0 \<or> int (sv_dbnum sv) \<le> id' then (False, sv)
      else (True, upd_client c (c_db_update (\<lambda>_. nat id')) sv))"

section \<open>Commands\<close>

definition flushdbCommand :: "cid \<Rightarrow> server \<Rightarrow> server option" where
  "flushdbCommand c sv =
     (let i = cdb c sv;
          sv1 = incr_dirty (dict_size (rd_dict (sv_db sv i))) sv;
          sv2 = signalFlushedDb (int i) sv1
      in Some (addReply c shared_ok (upd_db i empty_db sv2)))"

text \<open>
  \<open>rdbSave\<close> writes the (empty) data set and, when that succeeds, resets the counter of changes,
  records the time and clears the failure of the last save; \<open>saved_dirty\<close> is an \<open>int\<close>.  Stopping a child that saves is left out.
\<close>

definition rdbSave :: "server \<Rightarrow> server" where
  "rdbSave sv = (if sv_disk_ok sv
     then sv\<lparr>sv_dirty := 0, sv_lastsave := sv_now sv div 1000, sv_bgsave_err := False\<rparr> else sv)"

definition flushallCommand :: "cid \<Rightarrow> server \<Rightarrow> server option" where
  "flushallCommand c sv =
     (let sv1 = signalFlushedDb (-1) sv;
          (removed, sv2) = emptyDb sv1;
          sv3 = addReply c shared_ok (incr_dirty removed sv2);
          sv4 = (if sv_saveparams sv3
                 then let saved_dirty = to_int32 (sv_dirty sv3)
                      in (rdbSave sv3)\<lparr>sv_dirty := saved_dirty\<rparr>
                 else sv3)
      in Some (incr_dirty 1 sv4))"

definition delCommand :: "cid \<Rightarrow> server \<Rightarrow> server option" where
  "delCommand c sv =
     (let (deleted, sv1) =
        fold (\<lambda>key (deleted, sv).
                let (ok, sv1) = dbDelete (cdb c sv) key sv
                in if ok then (deleted + 1, incr_dirty 1 (signalModifiedKey (cdb c sv) key sv1))
                   else (deleted, sv1))
          (drop 1 (c_argv (sv_client sv c))) (0, sv)
      in Some (addReplyLongLong c deleted sv1))"

definition existsCommand :: "cid \<Rightarrow> server \<Rightarrow> server option" where
  "existsCommand c sv =
     Option.bind (expireIfNeeded (cdb c sv) (argv c sv 1) sv) (\<lambda>(_, sv).
     Some (if dbExists (cdb c sv) (argv c sv 1) sv then addReply c shared_cone sv
           else addReply c shared_czero sv))"

definition selectCommand :: "cid \<Rightarrow> server \<Rightarrow> server option" where
  "selectCommand c sv =
     Option.bind (getLongFromObjectOrReply c (Some (arg c sv 1)) (Some ''invalid DB index'') sv) (\<lambda>(id', sv).
       case id' of
         None \<Rightarrow> Some sv
       | Some id' \<Rightarrow>
           let (ok, sv) = selectDb c (to_int32 id') sv
           in Some (if ok then addReply c shared_ok sv else addReplyError c ''invalid DB index'' sv))"

definition randomkeyCommand :: "cid \<Rightarrow> server \<Rightarrow> server option" where
  "randomkeyCommand c sv =
     (case dbRandomKey (cdb c sv) 0 sv of
        Some (Some (None, sv1)) \<Rightarrow> Some (addReply c shared_nullbulk sv1)
      | Some (Some (Some key, sv1)) \<Rightarrow> addReplyBulk c (createStringObject key) sv1
      | _ \<Rightarrow> None)"

text \<open>
  A deferred length is a position in the output; it is filled in when the number of elements is
  known.
\<close>

definition addDeferredMultiBulkLength :: "cid \<Rightarrow> server \<Rightarrow> nat option" where
  "addDeferredMultiBulkLength c sv =
     (if prepareClientToWrite (sv_client sv c) then Some (length (c_out (sv_client sv c))) else None)"

definition setDeferredMultiBulkLength :: "cid \<Rightarrow> nat option \<Rightarrow> nat \<Rightarrow> server \<Rightarrow> server" where
  "setDeferredMultiBulkLength c node n =
     (case node of
        None \<Rightarrow> (\<lambda>sv. sv)
      | Some pos \<Rightarrow> upd_client c (c_out_update (\<lambda>out. take pos out @ ''*'' @ dec_nat n @ CRLF @ drop pos out)))"

fun keys_loop :: "cid \<Rightarrow> string \<Rightarrow> bool \<Rightarrow> key list \<Rightarrow> nat \<Rightarrow> server \<Rightarrow> (nat \<times> server) option" where
  "keys_loop c pattern allkeys [] numkeys sv = Some (numkeys, sv)"
| "keys_loop c pattern allkeys (key # ks) numkeys sv =
     Option.bind
       (if allkeys then Some True
        else stringmatchlen (pattern @ [NUL]) 0 (int (length pattern)) (key @ [NUL]) 0 (int (length key)) False)
       (\<lambda>m. if m
            then Option.bind (expireIfNeeded (cdb c sv) key sv) (\<lambda>(expired, sv).
                 if expired then keys_loop c pattern allkeys ks numkeys sv
                 else Option.bind (addReplyBulk c (createStringObject key) sv) (\<lambda>sv.
                      keys_loop c pattern allkeys ks (numkeys + 1) sv))
            else keys_loop c pattern allkeys ks numkeys sv)"

definition keysCommand :: "cid \<Rightarrow> server \<Rightarrow> server option" where
  "keysCommand c sv =
     (let pattern = argv c sv 1;
          replylen = addDeferredMultiBulkLength c sv;
          allkeys = ((pattern @ [NUL]) ! 0 = CHR ''*'' \<and> (pattern @ [NUL]) ! 1 = NUL)
      in Option.bind (keys_loop c pattern allkeys (sv_iter sv (rd_dict (sv_db sv (cdb c sv)))) 0 sv) (\<lambda>(numkeys, sv).
         Some (setDeferredMultiBulkLength c replylen numkeys sv)))"

definition dbsizeCommand :: "cid \<Rightarrow> server \<Rightarrow> server option" where
  "dbsizeCommand c sv = Some (addReplyLongLong c (dict_size (rd_dict (sv_db sv (cdb c sv)))) sv)"

definition lastsaveCommand :: "cid \<Rightarrow> server \<Rightarrow> server option" where
  "lastsaveCommand c sv = Some (addReplyLongLong c (sv_lastsave sv) sv)"

fun type_name :: "otype \<Rightarrow> string" where
  "type_name REDIS_STRING = ''string''"
| "type_name REDIS_LIST = ''list''"
| "type_name REDIS_SET = ''set''"
| "type_name REDIS_ZSET = ''zset''"
| "type_name REDIS_HASH = ''hash''"

definition typeCommand :: "cid \<Rightarrow> server \<Rightarrow> server option" where
  "typeCommand c sv =
     Option.bind (lookupKeyRead (cdb c sv) (argv c sv 1) sv) (\<lambda>(ob, sv).
     Some (addReplyStatus c (case ob of None \<Rightarrow> ''none'' | Some ob \<Rightarrow> type_name (o_type ob)) sv))"

definition renameGenericCommand :: "cid \<Rightarrow> bool \<Rightarrow> server \<Rightarrow> server option" where
  "renameGenericCommand c nx sv =
     (let i = cdb c sv; src = argv c sv 1; dst = argv c sv 2
      in if src = dst then Some (addReply c shared_sameobjecterr sv)
         else Option.bind (lookupKeyWriteOrReply c src shared_nokeyerr sv) (\<lambda>(ob, sv).
           case ob of
             None \<Rightarrow> Some sv
           | Some ob \<Rightarrow>
               Option.bind (getExpire i src sv) (\<lambda>expire.
               Option.bind (lookupKeyWrite i dst sv) (\<lambda>(ob2, sv).
                 if ob2 \<noteq> None \<and> nx then Some (addReply c shared_czero sv)
                 else Option.bind (dbAdd i dst ob (if ob2 \<noteq> None then snd (dbDelete i dst sv) else sv)) (\<lambda>sv.
                   Option.bind (if expire \<noteq> -1 then setExpire i dst expire sv else Some sv) (\<lambda>sv.
                   let sv = snd (dbDelete i src sv);
                       sv = signalModifiedKey i src sv;
                       sv = signalModifiedKey i dst sv
                   in Some (addReply c (if nx then shared_cone else shared_ok) (incr_dirty 1 sv))))))))"

definition renameCommand :: "cid \<Rightarrow> server \<Rightarrow> server option" where
  "renameCommand c = renameGenericCommand c False"

definition renamenxCommand :: "cid \<Rightarrow> server \<Rightarrow> server option" where
  "renamenxCommand c = renameGenericCommand c True"

definition atoi :: "string \<Rightarrow> int" where
  "atoi s = to_int32 (strtoll10 (cstr s))"

definition moveCommand :: "cid \<Rightarrow> server \<Rightarrow> server option" where
  "moveCommand c sv =
     (let src = cdb c sv; key = argv c sv 1;
          (ok, sv1) = selectDb c (atoi (argv c sv 2)) sv
      in if \<not> ok then Some (addReply c shared_outofrangeerr sv1)
         else let dst = cdb c sv1;
                  (_, sv2) = selectDb c (int src) sv1
              in if src = dst then Some (addReply c shared_sameobjecterr sv2)
                 else Option.bind (lookupKeyWrite (cdb c sv2) key sv2) (\<lambda>(ob, sv).
                   case ob of
                     None \<Rightarrow> Some (addReply c shared_czero sv)
                   | Some ob \<Rightarrow>
                       Option.bind (lookupKeyWrite dst key sv) (\<lambda>(ob2, sv).
                         if ob2 \<noteq> None then Some (addReply c shared_czero sv)
                         else Option.bind (dbAdd dst key ob sv) (\<lambda>sv.
                              let sv = snd (dbDelete src key sv)
                              in Some (addReply c shared_cone (incr_dirty 1 sv))))))"

text \<open>
  \<open>when\<close> is a \<open>long long\<close>: the multiplication and the addition wrap.  \<open>seconds\<close> is
  \<open>unit == UNIT_SECONDS\<close>.
\<close>

definition expireGenericCommand :: "cid \<Rightarrow> int \<Rightarrow> bool \<Rightarrow> server \<Rightarrow> server option" where
  "expireGenericCommand c basetime seconds sv =
     (let i = cdb c sv; key = argv c sv 1
      in Option.bind (getLongLongFromObjectOrReply c (Some (arg c sv 2)) None sv) (\<lambda>(v, sv).
        case v of
          None \<Rightarrow> Some sv
        | Some v \<Rightarrow>
            let when' = to_int64 ((if seconds then to_int64 (v * 1000) else v) + basetime)
            in Option.bind (lookupKeyRead i key sv) (\<lambda>(ob, sv).
              if ob = None then Some (addReply c shared_czero sv)
              else if when' \<le> sv_now sv \<and> \<not> sv_loading sv \<and> \<not> sv_masterhost sv
              then let (deleted, sv) = dbDelete i key sv
                   in if \<not> deleted then None
                      else let sv = incr_dirty 1 sv;
                               sv = upd_client c (\<lambda>cl. cl\<lparr>c_argv := [''DEL'', key], c_cmd := ''del''\<rparr>) sv;
                               sv = signalModifiedKey i key sv
                           in Some (addReply c shared_cone sv)
              else Option.bind (setExpire i key when' sv) (\<lambda>sv.
                   Some (incr_dirty 1 (signalModifiedKey i key (addReply c shared_cone sv)))))))"

definition expireCommand :: "cid \<Rightarrow> server \<Rightarrow> server option" where
  "expireCommand c sv = expireGenericCommand c (sv_now sv) True sv"

definition expireatCommand :: "cid \<Rightarrow> server \<Rightarrow> server option" where
  "expireatCommand c sv = expireGenericCommand c 0 True sv"

definition pexpireCommand :: "cid \<Rightarrow> server \<Rightarrow> server option" where
  "pexpireCommand c sv = expireGenericCommand c (sv_now sv) False sv"

definition pexpireatCommand :: "cid \<Rightarrow> server \<Rightarrow> server option" where
  "pexpireatCommand c sv = expireGenericCommand c 0 False sv"

definition ttlGenericCommand :: "cid \<Rightarrow> bool \<Rightarrow> server \<Rightarrow> server option" where
  "ttlGenericCommand c output_ms sv =
     Option.bind (getExpire (cdb c sv) (argv c sv 1) sv) (\<lambda>expire.
       let ttl = (if expire \<noteq> -1
                  then let ttl = to_int64 (expire - sv_now sv) in if ttl < 0 then -1 else ttl
                  else -1)
       in Some (if ttl = -1 then addReplyLongLong c (-1) sv
                else addReplyLongLong c (if output_ms then ttl else c_div (to_int64 (ttl + 500)) 1000) sv))"

definition ttlCommand :: "cid \<Rightarrow> server \<Rightarrow> server option" where
  "ttlCommand c = ttlGenericCommand c False"

definition pttlCommand :: "cid \<Rightarrow> server \<Rightarrow> server option" where
  "pttlCommand c = ttlGenericCommand c True"

definition persistCommand :: "cid \<Rightarrow> server \<Rightarrow> server option" where
  "persistCommand c sv =
     (let i = cdb c sv; key = argv c sv 1
      in if rd_dict (sv_db sv i) key = None then Some (addReply c shared_czero sv)
         else Option.bind (removeExpire i key sv) (\<lambda>(removed, sv).
              Some (if removed then incr_dirty 1 (addReply c shared_cone sv)
                    else addReply c shared_czero sv)))"

section \<open>The primitive changes\<close>

definition dbset :: "nat \<Rightarrow> key \<Rightarrow> robj \<Rightarrow> server \<Rightarrow> server" where
  "dbset i k v = upd_db i (rd_dict_update (\<lambda>d. d(k \<mapsto> v)))"

definition dbrem :: "nat \<Rightarrow> key \<Rightarrow> server \<Rightarrow> server" where
  "dbrem i k sv = upd_db i (rd_dict_update (\<lambda>d. d(k := None))) (upd_db i (rd_expires_update (\<lambda>e. e(k := None))) sv)"

definition expset :: "nat \<Rightarrow> key \<Rightarrow> int \<Rightarrow> server \<Rightarrow> server" where
  "expset i k w = upd_db i (rd_expires_update (\<lambda>e. e(k \<mapsto> w)))"

definition exprem :: "nat \<Rightarrow> key \<Rightarrow> server \<Rightarrow> server" where
  "exprem i k = upd_db i (rd_expires_update (\<lambda>e. e(k := None)))"

definition count_lookup :: "bool \<Rightarrow> server \<Rightarrow> server" where
  "count_lookup hit sv = (if hit then sv\<lparr>sv_hits := sv_hits sv + 1\<rparr> else sv\<lparr>sv_misses := sv_misses sv + 1\<rparr>)"

definition count_expired :: "nat \<Rightarrow> key \<Rightarrow> server \<Rightarrow> server" where
  "count_expired i k sv = propagateExpire i k (sv\<lparr>sv_expiredkeys := sv_expiredkeys sv + 1\<rparr>)"

text \<open>A key past its time, and the effect of looking at it.\<close>

definition stale :: "nat \<Rightarrow> key \<Rightarrow> server \<Rightarrow> bool" where
  "stale i k sv \<longleftrightarrow>
     (\<exists>w. rd_expires (sv_db sv i) k = Some w \<and> 0 \<le> w \<and> w < sv_now sv) \<and> \<not> sv_loading sv"

definition evict :: "nat \<Rightarrow> key \<Rightarrow> server \<Rightarrow> server" where
  "evict i k sv = (if stale i k sv \<and> \<not> sv_masterhost sv then dbrem i k (count_expired i k sv) else sv)"

definition visible :: "nat \<Rightarrow> key \<Rightarrow> server \<Rightarrow> robj option" where
  "visible i k sv = (if stale i k sv \<and> \<not> sv_masterhost sv then None else rd_dict (sv_db sv i) k)"

lemma rd_simps [simp]:
  "rd_dict (sv_db (dbset i k v sv) j) = (if j = i then (rd_dict (sv_db sv i))(k \<mapsto> v) else rd_dict (sv_db sv j))"
  "rd_expires (sv_db (dbset i k v sv) j) = rd_expires (sv_db sv j)"
  "rd_watched (sv_db (dbset i k v sv) j) = rd_watched (sv_db sv j)"
  "rd_dict (sv_db (dbrem i k sv) j) = (if j = i then (rd_dict (sv_db sv i))(k := None) else rd_dict (sv_db sv j))"
  "rd_expires (sv_db (dbrem i k sv) j) = (if j = i then (rd_expires (sv_db sv i))(k := None) else rd_expires (sv_db sv j))"
  "rd_watched (sv_db (dbrem i k sv) j) = rd_watched (sv_db sv j)"
  "rd_dict (sv_db (expset i k w sv) j) = rd_dict (sv_db sv j)"
  "rd_expires (sv_db (expset i k w sv) j) = (if j = i then (rd_expires (sv_db sv i))(k \<mapsto> w) else rd_expires (sv_db sv j))"
  "rd_watched (sv_db (expset i k w sv) j) = rd_watched (sv_db sv j)"
  "rd_dict (sv_db (exprem i k sv) j) = rd_dict (sv_db sv j)"
  "rd_expires (sv_db (exprem i k sv) j) = (if j = i then (rd_expires (sv_db sv i))(k := None) else rd_expires (sv_db sv j))"
  "rd_watched (sv_db (exprem i k sv) j) = rd_watched (sv_db sv j)"
  "sv_db (count_lookup h sv) = sv_db sv" "sv_db (count_expired i k sv) = sv_db sv"
  by (simp_all add: dbset_def dbrem_def expset_def exprem_def upd_db_def count_lookup_def
      count_expired_def propagateExpire_def)

lemma client_simps [simp]:
  "sv_client (dbset i k v sv) = sv_client sv" "sv_client (dbrem i k sv) = sv_client sv"
  "sv_client (expset i k w sv) = sv_client sv" "sv_client (exprem i k sv) = sv_client sv"
  "sv_client (count_lookup h sv) = sv_client sv" "sv_client (count_expired i k sv) = sv_client sv"
  "sv_client (evict i k sv) = sv_client sv"
  by (simp_all add: dbset_def dbrem_def expset_def exprem_def upd_db_def count_lookup_def
      count_expired_def propagateExpire_def evict_def)

lemma config_simps [simp]:
  "sv_now (dbset i k v sv) = sv_now sv" "sv_now (dbrem i k sv) = sv_now sv"
  "sv_now (expset i k w sv) = sv_now sv" "sv_now (exprem i k sv) = sv_now sv"
  "sv_now (count_lookup h sv) = sv_now sv" "sv_now (count_expired i k sv) = sv_now sv"
  "sv_loading (dbset i k v sv) = sv_loading sv" "sv_loading (dbrem i k sv) = sv_loading sv"
  "sv_loading (expset i k w sv) = sv_loading sv" "sv_loading (exprem i k sv) = sv_loading sv"
  "sv_loading (count_lookup h sv) = sv_loading sv" "sv_loading (count_expired i k sv) = sv_loading sv"
  "sv_masterhost (dbset i k v sv) = sv_masterhost sv" "sv_masterhost (dbrem i k sv) = sv_masterhost sv"
  "sv_masterhost (expset i k w sv) = sv_masterhost sv" "sv_masterhost (exprem i k sv) = sv_masterhost sv"
  "sv_masterhost (count_lookup h sv) = sv_masterhost sv" "sv_masterhost (count_expired i k sv) = sv_masterhost sv"
  "sv_maxmemory (dbset i k v sv) = sv_maxmemory sv" "sv_maxmemory (dbrem i k sv) = sv_maxmemory sv"
  "sv_maxmemory (expset i k w sv) = sv_maxmemory sv" "sv_maxmemory (exprem i k sv) = sv_maxmemory sv"
  "sv_maxmemory (count_lookup h sv) = sv_maxmemory sv" "sv_maxmemory (count_expired i k sv) = sv_maxmemory sv"
  "sv_dirty (dbset i k v sv) = sv_dirty sv" "sv_dirty (dbrem i k sv) = sv_dirty sv"
  "sv_dirty (expset i k w sv) = sv_dirty sv" "sv_dirty (exprem i k sv) = sv_dirty sv"
  "sv_dirty (count_lookup h sv) = sv_dirty sv" "sv_dirty (count_expired i k sv) = sv_dirty sv"
  by (simp_all add: dbset_def dbrem_def expset_def exprem_def upd_db_def count_lookup_def
      count_expired_def propagateExpire_def)

lemma frame_db [simp]:
  "frame sv0 (dbset i k v sv) = frame sv0 sv" "frame sv0 (dbrem i k sv) = frame sv0 sv"
  "frame sv0 (expset i k w sv) = frame sv0 sv" "frame sv0 (exprem i k sv) = frame sv0 sv"
  "frame sv0 (count_lookup h sv) = frame sv0 sv" "frame sv0 (count_expired i k sv) = frame sv0 sv"
  by (auto simp: frame_def dbset_def dbrem_def expset_def exprem_def upd_db_def count_lookup_def
      count_expired_def propagateExpire_def)

lemma frame_evict [simp]: "frame sv0 (evict i k sv) = frame sv0 sv"
  by (simp add: evict_def)

lemma evict_state [simp]:
  "rd_dict (sv_db (evict i k sv) i) k = visible i k sv"
  "rd_watched (sv_db (evict i k sv) j) = rd_watched (sv_db sv j)"
  "sv_now (evict i k sv) = sv_now sv" "sv_loading (evict i k sv) = sv_loading sv"
  "sv_masterhost (evict i k sv) = sv_masterhost sv" "sv_maxmemory (evict i k sv) = sv_maxmemory sv"
  "sv_dirty (evict i k sv) = sv_dirty sv"
  by (simp_all add: evict_def visible_def)

lemma evict_other:
  "j \<noteq> i \<or> k' \<noteq> k \<Longrightarrow> rd_dict (sv_db (evict i k sv) j) k' = rd_dict (sv_db sv j) k'"
  "j \<noteq> i \<or> k' \<noteq> k \<Longrightarrow> rd_expires (sv_db (evict i k sv) j) k' = rd_expires (sv_db sv j) k'"
  by (auto simp: evict_def)

lemma visible_addReply [simp]:
  "visible i k (addReplyString c s sv) = visible i k sv"
  "visible i k (incr_dirty n sv) = visible i k sv"
  "visible i k (count_lookup h sv) = visible i k sv"
  "visible i k (mark_all S sv) = visible i k sv"
  "stale i k (addReplyString c s sv) = stale i k sv"
  "stale i k (incr_dirty n sv) = stale i k sv"
  "stale i k (count_lookup h sv) = stale i k sv"
  "stale i k (mark_all S sv) = stale i k sv"
  by (auto simp: visible_def stale_def split: option.splits)

lemma watchers_simps [simp]:
  "watchers (addReplyString c s sv) i k = watchers sv i k"
  "watchers (incr_dirty n sv) i k = watchers sv i k"
  "watchers (count_lookup h sv) i k = watchers sv i k"
  "watchers (mark_all S sv) i k = watchers sv i k"
  "watchers (dbset j k' v sv) i k = watchers sv i k"
  "watchers (dbrem j k' sv) i k = watchers sv i k"
  "watchers (expset j k' w sv) i k = watchers sv i k"
  "watchers (exprem j k' sv) i k = watchers sv i k"
  "watchers (evict j k' sv) i k = watchers sv i k"
  by (simp_all add: watchers_def)

section \<open>The invariant of the keyspace\<close>

lemma db_wfI:
  assumes "dom (rd_expires db) \<subseteq> dom (rd_dict db)" "finite (dom (rd_dict db))"
    and "\<And>k ob. rd_dict db k = Some ob \<Longrightarrow> entry_ok k ob"
  shows "db_wf db"
  using assms by (simp add: db_wf_def)

lemma ks_wfD:
  assumes "ks_wf sv"
  shows "rd_dict (sv_db sv i) k = Some ob \<Longrightarrow> entry_ok k ob"
    "rd_dict (sv_db sv i) k = None \<Longrightarrow> rd_expires (sv_db sv i) k = None"
    "rd_expires (sv_db sv i) k = Some w \<Longrightarrow> \<exists>ob. rd_dict (sv_db sv i) k = Some ob"
    "finite (dom (rd_dict (sv_db sv i)))"
proof -
  have w: "db_wf (sv_db sv i)" using assms by (simp add: ks_wf_def)
  then have d: "dom (rd_expires (sv_db sv i)) \<subseteq> dom (rd_dict (sv_db sv i))" by (simp add: db_wf_def)
  show "rd_dict (sv_db sv i) k = Some ob \<Longrightarrow> entry_ok k ob" "finite (dom (rd_dict (sv_db sv i)))"
    using w by (simp_all add: db_wf_def)
  show "rd_dict (sv_db sv i) k = None \<Longrightarrow> rd_expires (sv_db sv i) k = None"
    "rd_expires (sv_db sv i) k = Some w \<Longrightarrow> \<exists>ob. rd_dict (sv_db sv i) k = Some ob"
    using d by (auto simp: dom_def subset_iff)
qed

lemma ks_wf_upd_db:
  assumes "ks_wf sv" "db_wf (f (sv_db sv i))"
  shows "ks_wf (upd_db i f sv)"
  using assms by (simp add: ks_wf_def upd_db_def)

lemma ks_wf_simps [simp]:
  "ks_wf sv \<Longrightarrow> entry_ok k v \<Longrightarrow> ks_wf (dbset i k v sv)"
  "ks_wf sv \<Longrightarrow> ks_wf (dbrem i k sv)"
  "ks_wf sv \<Longrightarrow> rd_dict (sv_db sv i) k \<noteq> None \<Longrightarrow> ks_wf (expset i k w sv)"
  "ks_wf sv \<Longrightarrow> ks_wf (exprem i k sv)"
  "ks_wf (count_lookup h sv) = ks_wf sv"
  "ks_wf (count_expired i k sv) = ks_wf sv"
proof -
  assume w: "ks_wf sv"
  note d = w [unfolded ks_wf_def, rule_format, of i]
  show "entry_ok k v \<Longrightarrow> ks_wf (dbset i k v sv)"
    unfolding dbset_def by (rule ks_wf_upd_db [OF w]) (use d in \<open>auto simp: db_wf_def split: if_splits\<close>)
  have e: "db_wf (rd_expires_update (\<lambda>e. e(k := None)) (sv_db sv i))" using d by (auto simp: db_wf_def)
  then show "ks_wf (exprem i k sv)"
    unfolding exprem_def by (rule ks_wf_upd_db [OF w])
  show "rd_dict (sv_db sv i) k \<noteq> None \<Longrightarrow> ks_wf (expset i k w' sv)" for w'
    unfolding expset_def by (rule ks_wf_upd_db [OF w]) (use d in \<open>auto simp: db_wf_def\<close>)
  have "ks_wf (upd_db i (rd_expires_update (\<lambda>e. e(k := None))) sv)" by (rule ks_wf_upd_db [OF w]) (rule e)
  then show "ks_wf (dbrem i k sv)"
    unfolding dbrem_def by (rule ks_wf_upd_db) (use d in \<open>auto simp: db_wf_def upd_db_def split: if_splits\<close>)
qed (simp_all add: ks_wf_def)

lemma ks_wf_evict [simp]: "ks_wf sv \<Longrightarrow> ks_wf (evict i k sv)"
  by (simp add: evict_def)

lemma visible_wf: "ks_wf sv \<Longrightarrow> visible i k sv = Some ob \<Longrightarrow> entry_ok k ob"
  using ks_wfD(1) by (auto simp: visible_def split: if_splits)

section \<open>Lookups as equations\<close>

lemma expireIfNeeded_eq:
  assumes "ks_wf sv"
  shows "expireIfNeeded i k sv = Some (stale i k sv, evict i k sv)"
proof (cases "rd_expires (sv_db sv i) k")
  case None
  then show ?thesis by (simp add: expireIfNeeded_def getExpire_def stale_def evict_def)
next
  case (Some w)
  then obtain ob where "rd_dict (sv_db sv i) k = Some ob" using ks_wfD(3) [OF assms] by blast
  with Some show ?thesis
    by (auto simp: expireIfNeeded_def getExpire_def stale_def evict_def Let_def dbDelete_def dbrem_def
        upd_db_def count_expired_def propagateExpire_def)
qed

lemma lookupKeyWrite_eq: "ks_wf sv \<Longrightarrow> lookupKeyWrite i k sv = Some (visible i k sv, evict i k sv)"
  by (simp add: lookupKeyWrite_def expireIfNeeded_eq lookupKey_def)

lemma lookupKeyRead_eq:
  "ks_wf sv \<Longrightarrow> lookupKeyRead i k sv = Some (visible i k sv, count_lookup (visible i k sv \<noteq> None) (evict i k sv))"
  by (simp add: lookupKeyRead_def expireIfNeeded_eq lookupKey_def Let_def count_lookup_def)

lemma getExpire_eq:
  "ks_wf sv \<Longrightarrow> getExpire i k sv = Some (case rd_expires (sv_db sv i) k of None \<Rightarrow> -1 | Some w \<Rightarrow> w)"
  by (auto simp: getExpire_def split: option.split dest: ks_wfD(2))

lemma dbDelete_eq: "dbDelete i k sv = (rd_dict (sv_db sv i) k \<noteq> None, dbrem i k sv)"
  by (simp add: dbDelete_def dbrem_def upd_db_def)

lemma dbAdd_eq: "rd_dict (sv_db sv i) k = None \<Longrightarrow> dbAdd i k v sv = Some (dbset i k v sv)"
  by (simp add: dbAdd_def dbset_def)

lemma dbOverwrite_eq: "rd_dict (sv_db sv i) k \<noteq> None \<Longrightarrow> dbOverwrite i k v sv = Some (dbset i k v sv)"
  by (simp add: dbOverwrite_def dbset_def)

lemma removeExpire_eq:
  "rd_dict (sv_db sv i) k \<noteq> None \<Longrightarrow> removeExpire i k sv = Some (rd_expires (sv_db sv i) k \<noteq> None, exprem i k sv)"
  by (simp add: removeExpire_def exprem_def)

lemma setExpire_eq: "rd_dict (sv_db sv i) k \<noteq> None \<Longrightarrow> setExpire i k w sv = Some (expset i k w sv)"
  by (simp add: setExpire_def expset_def)

lemma signalModifiedKey_eq: "signalModifiedKey i k sv = mark_all (watchers sv i k) sv"
  by (simp add: signalModifiedKey_def touchWatchedKey_eq)

text \<open>The state after a key was set: the value is there, without an expire time.\<close>

definition keyset :: "nat \<Rightarrow> key \<Rightarrow> robj \<Rightarrow> server \<Rightarrow> server" where
  "keyset i k v sv = mark_all (watchers sv i k) (exprem i k (dbset i k v (evict i k sv)))"

lemma setKey_eq: "ks_wf sv \<Longrightarrow> setKey i k v sv = Some (keyset i k v sv)"
  by (cases "visible i k sv")
    (simp_all add: setKey_def lookupKeyWrite_eq dbAdd_eq dbOverwrite_eq removeExpire_eq
      signalModifiedKey_eq keyset_def)

lemma keyset_state [simp]:
  "rd_dict (sv_db (keyset i k v sv) i) k = Some v"
  "rd_expires (sv_db (keyset i k v sv) i) k = None"
  "ks_wf sv \<Longrightarrow> entry_ok k v \<Longrightarrow> ks_wf (keyset i k v sv)"
  "frame sv0 (keyset i k v sv) = frame sv0 sv"
  "c_argv (sv_client (keyset i k v sv) d) = c_argv (sv_client sv d)"
  "c_db (sv_client (keyset i k v sv) d) = c_db (sv_client sv d)"
  "c_out (sv_client (keyset i k v sv) d) = c_out (sv_client sv d)"
  "c_fake (sv_client (keyset i k v sv) d) = c_fake (sv_client sv d)"
  "c_close_after_reply (sv_client (keyset i k v sv) d) = c_close_after_reply (sv_client sv d)"
  "sv_now (keyset i k v sv) = sv_now sv" "sv_loading (keyset i k v sv) = sv_loading sv"
  "sv_masterhost (keyset i k v sv) = sv_masterhost sv" "sv_maxmemory (keyset i k v sv) = sv_maxmemory sv"
  "watchers (keyset i k v sv) j k' = watchers sv j k'"
  by (simp_all add: keyset_def)

lemma keyset_other:
  "j \<noteq> i \<or> k' \<noteq> k \<Longrightarrow> rd_dict (sv_db (keyset i k v sv) j) k' = rd_dict (sv_db sv j) k'"
  "j \<noteq> i \<or> k' \<noteq> k \<Longrightarrow> rd_expires (sv_db (keyset i k v sv) j) k' = rd_expires (sv_db sv j) k'"
  using evict_other by (auto simp: keyset_def)

lemmas db_eqs = expireIfNeeded_eq lookupKeyWrite_eq lookupKeyRead_eq getExpire_eq dbDelete_eq dbAdd_eq
  dbOverwrite_eq removeExpire_eq setExpire_eq signalModifiedKey_eq setKey_eq

section \<open>Every command keeps the invariant and fails no assertion\<close>

text \<open>The outcome of a keyspace command: a state with the invariant, the rest as it was.\<close>

abbreviation fine :: "server \<Rightarrow> server option \<Rightarrow> bool" where
  "fine sv r \<equiv> ok r (\<lambda>sv'. ks_wf sv' \<and> frame sv sv')"

lemma entry_ok_simps [simp]: "entry_ok k (createStringObject s) \<longleftrightarrow> small k \<and> small s"
  by (simp add: entry_ok_def)

lemma entry_okD: "entry_ok k ob \<Longrightarrow> robj_wf ob" "entry_ok k ob \<Longrightarrow> robj_small ob" "entry_ok k ob \<Longrightarrow> small k"
  by (simp_all add: entry_ok_def)

lemma frame_cdb [simp]: "frame sv sv' \<Longrightarrow> cdb c sv' = cdb c sv"
  by (simp add: frame_def same_session_def)

lemma upd_client_args [simp]:
  "ks_wf (upd_client c (\<lambda>cl. cl\<lparr>c_argv := a, c_cmd := b\<rparr>) sv) = ks_wf sv"
  "frame sv0 (upd_client c (\<lambda>cl. cl\<lparr>c_argv := a, c_cmd := b\<rparr>) sv) = frame sv0 sv"
  "watchers (upd_client c f sv) = watchers sv"
proof -
  have "same_session x (sv_client (upd_client c (\<lambda>cl. cl\<lparr>c_argv := a, c_cmd := b\<rparr>) sv) d) =
      same_session x (sv_client sv d)" for x d
    by (simp add: upd_client_def same_session_def)
  then show "frame sv0 (upd_client c (\<lambda>cl. cl\<lparr>c_argv := a, c_cmd := b\<rparr>) sv) = frame sv0 sv"
    by (simp add: frame_def) (simp add: upd_client_def)
qed (simp_all add: upd_client_def ks_wf_def watchers_def fun_eq_iff)

lemma upd_empty [simp]:
  "ks_wf sv \<Longrightarrow> ks_wf (upd_db i empty_db sv)" "frame sv0 (upd_db i empty_db sv) = frame sv0 sv"
  "sv_client (upd_db i empty_db sv) = sv_client sv"
  "sv_dbnum (upd_db i empty_db sv) = sv_dbnum sv"
  by (auto simp: ks_wf_def upd_db_def db_wf_def empty_db_def frame_def)

lemma signalFlushedDb_state [simp]:
  "ks_wf (signalFlushedDb i sv) = ks_wf sv" "frame sv0 (signalFlushedDb i sv) = frame sv0 sv"
  "sv_db (signalFlushedDb i sv) = sv_db sv" "c_db (sv_client (signalFlushedDb i sv) d) = c_db (sv_client sv d)"
  by (simp_all add: signalFlushedDb_def touchWatchedKeysOnFlush_eq)

lemma replies [simp]:
  "addReply c s = addReplyString c s"
  "addReplyError c e sv = addReplyString c (''-ERR '' @ cstr e @ CRLF) sv"
  "addReplyStatus c e sv = addReplyString c (''+'' @ cstr e @ CRLF) sv"
  by (simp_all add: addReply_def fun_eq_iff addReplyError_eq addReplyStatus_def)

lemma addReplyLongLong_state [simp]:
  "ks_wf (addReplyLongLong c n sv) = ks_wf sv" "frame sv0 (addReplyLongLong c n sv) = frame sv0 sv"
  by (simp_all add: addReplyLongLong_def addReplyLongLongWithPrefix_def)

lemma flushdb_fine: "ks_wf sv \<Longrightarrow> fine sv (flushdbCommand c sv)"
  by (simp add: flushdbCommand_def Let_def)

lemma emptyDb_eq:
  "emptyDb sv = (sum (\<lambda>j. dict_size (rd_dict (sv_db sv j))) {..<sv_dbnum sv}, fold (\<lambda>j. upd_db j empty_db) [0..<sv_dbnum sv] sv)"
proof -
  have other: "i \<notin> set js \<Longrightarrow> sv_db (fold (\<lambda>j. upd_db j empty_db) js s) i = sv_db s i" for i js s
    by (induction js arbitrary: s) (simp_all add: upd_db_def)
  have "fold (\<lambda>j (removed, sv). (removed + dict_size (rd_dict (sv_db sv j)), upd_db j empty_db sv)) [0..<n] (0, sv) =
    (sum (\<lambda>j. dict_size (rd_dict (sv_db sv j))) {..<n}, fold (\<lambda>j. upd_db j empty_db) [0..<n] sv)" for n
    by (induction n) (simp_all add: other)
  then show ?thesis by (simp only: emptyDb_def)
qed

lemma fold_empty [simp]:
  "ks_wf sv \<Longrightarrow> ks_wf (fold (\<lambda>j. upd_db j empty_db) js sv)"
  "frame sv0 (fold (\<lambda>j. upd_db j empty_db) js sv) = frame sv0 sv"
  by (induction js arbitrary: sv) simp_all

lemma rdbSave_state [simp]:
  "ks_wf (rdbSave sv\<lparr>sv_dirty := n\<rparr>) = ks_wf sv" "frame sv0 (rdbSave sv\<lparr>sv_dirty := n\<rparr>) = frame sv0 sv"
  by (auto simp: rdbSave_def ks_wf_def frame_def)

lemma flushall_fine: "ks_wf sv \<Longrightarrow> fine sv (flushallCommand c sv)"
  by (simp add: flushallCommand_def Let_def emptyDb_eq)

lemma del_fine:
  assumes "ks_wf sv"
  shows "fine sv (delCommand c sv)"
proof -
  have "ks_wf s \<and> frame sv s \<Longrightarrow>
    ks_wf (snd (fold (\<lambda>key (deleted, s).
        let (ok, s1) = dbDelete (cdb c s) key s
        in if ok then (deleted + 1, incr_dirty 1 (signalModifiedKey (cdb c s) key s1)) else (deleted, s1)) ks (n, s))) \<and>
    frame sv (snd (fold (\<lambda>key (deleted, s).
        let (ok, s1) = dbDelete (cdb c s) key s
        in if ok then (deleted + 1, incr_dirty 1 (signalModifiedKey (cdb c s) key s1)) else (deleted, s1)) ks (n, s)))"
    for n :: int and s ks
    by (induction ks arbitrary: s n) (auto simp: Let_def dbDelete_eq signalModifiedKey_eq)
  from this [of sv "drop 1 (c_argv (sv_client sv c))" 0] assms
  show ?thesis by (auto simp: delCommand_def Let_def split: prod.split)
qed

lemma exists_fine: "ks_wf sv \<Longrightarrow> fine sv (existsCommand c sv)"
  by (simp add: existsCommand_def db_eqs)

lemma type_fine: "ks_wf sv \<Longrightarrow> fine sv (typeCommand c sv)"
  by (simp add: typeCommand_def db_eqs)

lemma dbsize_fine: "ks_wf sv \<Longrightarrow> fine sv (dbsizeCommand c sv)"
  by (simp add: dbsizeCommand_def)

lemma lastsave_fine: "ks_wf sv \<Longrightarrow> fine sv (lastsaveCommand c sv)"
  by (simp add: lastsaveCommand_def)

lemma rename_fine:
  assumes "ks_wf sv" "args_ok 3 c sv"
  shows "fine sv (renameGenericCommand c nx sv)"
proof (cases "argv c sv 1 = argv c sv 2")
  case True
  with assms show ?thesis by (simp add: renameGenericCommand_def Let_def)
next
  case False
  have s: "small (argv c sv 2)" using args_okD [OF assms(2), of 2] by simp
  show ?thesis
  proof (cases "visible (cdb c sv) (argv c sv 1) sv")
    case None
    with False assms(1) show ?thesis
      by (simp add: renameGenericCommand_def Let_def lookupKeyWriteOrReply_def db_eqs)
  next
    case (Some ob)
    have e: "entry_ok (argv c sv 1) ob" using visible_wf [OF assms(1) Some] .
    then have e2: "entry_ok (argv c sv 2) ob" using s by (simp add: entry_ok_def)
    show ?thesis
      using False assms(1) Some e2
      by (auto simp: renameGenericCommand_def Let_def lookupKeyWriteOrReply_def db_eqs evict_other visible_def)
  qed
qed

lemma persist_fine: "ks_wf sv \<Longrightarrow> fine sv (persistCommand c sv)"
  by (simp add: persistCommand_def Let_def db_eqs)

lemma ttl_fine: "ks_wf sv \<Longrightarrow> fine sv (ttlGenericCommand c ms sv)"
  by (simp add: ttlGenericCommand_def Let_def db_eqs)

lemma getLongLong_arg:
  obtains (err) "getLongLongFromObjectOrReply c (Some (createStringObject s)) msg sv =
      Some (None, addReplyString c (''-ERR '' @ cstr (case msg of Some m \<Rightarrow> m | None \<Rightarrow> ''value is not an integer or out of range'') @ CRLF) sv)"
    "getLongFromObjectOrReply c (Some (createStringObject s)) msg sv =
      Some (None, addReplyString c (''-ERR '' @ cstr (case msg of Some m \<Rightarrow> m | None \<Rightarrow> ''value is not an integer or out of range'') @ CRLF) sv)"
  | (num) v where "getLongLongFromObjectOrReply c (Some (createStringObject s)) msg sv = Some (Some v, sv)"
    "getLongFromObjectOrReply c (Some (createStringObject s)) msg sv = Some (Some v, sv)"
    "getLongLongFromObject (Some (createStringObject s)) = Some (Some v)"
    "LLONG_MIN \<le> v" "v \<le> LLONG_MAX"
proof -
  obtain r where r: "getLongLongFromObjectOrReply c (Some (createStringObject s)) msg sv =
      Some (r, if r = None then addReplyError c (case msg of Some m \<Rightarrow> m | None \<Rightarrow> ''value is not an integer or out of range'') sv else sv)"
    "getLongLongFromObject (Some (createStringObject s)) = Some r"
    "getLongFromObjectOrReply c (Some (createStringObject s)) msg sv = getLongLongFromObjectOrReply c (Some (createStringObject s)) msg sv"
    "\<forall>v. r = Some v \<longrightarrow> LLONG_MIN \<le> v \<and> v \<le> LLONG_MAX"
    using getLongLong_reply [of "createStringObject s" c msg sv] by auto
  show thesis
  proof (cases r)
    case None
    then show thesis using err r by simp
  next
    case (Some v)
    then show thesis using num [of v] r by simp
  qed
qed

lemma expire_fine:
  assumes "ks_wf sv"
  shows "fine sv (expireGenericCommand c base secs sv)"
proof (rule getLongLong_arg [of c "argv c sv 2" None sv])
  assume "getLongLongFromObjectOrReply c (Some (arg c sv 2)) None sv =
      Some (None, addReplyString c (''-ERR '' @ cstr (case None of Some m \<Rightarrow> m | None \<Rightarrow> ''value is not an integer or out of range'') @ CRLF) sv)"
  then show ?thesis using assms by (simp add: expireGenericCommand_def Let_def)
next
  fix v assume "getLongLongFromObjectOrReply c (Some (arg c sv 2)) None sv = Some (Some v, sv)"
  then show ?thesis using assms
    by (auto simp: expireGenericCommand_def Let_def db_eqs)
qed

lemma select_state:
  assumes "ks_wf sv"
  shows "ks_wf (snd (selectDb c n sv))"
  using assms by (simp add: selectDb_def upd_client_def ks_wf_def)

lemma move_fine:
  assumes "ks_wf sv" "args_ok 3 c sv" "cdb c sv < sv_dbnum sv"
  shows "fine sv (moveCommand c sv)"
proof (cases "selectDb c (atoi (argv c sv 2)) sv")
  case (Pair ok sv1)
  show ?thesis
  proof (cases ok)
    case False
    then have "sv1 = sv" using Pair by (simp add: selectDb_def split: if_splits)
    then show ?thesis using False Pair assms(1) by (simp add: moveCommand_def Let_def)
  next
    case True
    then have "sv1 = upd_client c (c_db_update (\<lambda>_. nat (atoi (argv c sv 2)))) sv"
      using Pair by (auto simp: selectDb_def split: if_splits)
    then have ret: "selectDb c (int (cdb c sv)) sv1 = (True, sv)"
      using assms(3) by (simp add: selectDb_def upd_client_def)
    have s: "small (argv c sv 1)" using args_okD [OF assms(2), of 1] by simp
    show ?thesis
      using True Pair ret assms(1) s
      by (auto simp: moveCommand_def Let_def db_eqs evict_other visible_def split: option.split if_splits
          dest: ks_wfD(1) [OF assms(1)])
  qed
qed

section \<open>RANDOMKEY\<close>

text \<open>The random source draws keys of the dictionary it is asked about.\<close>

definition draws_ok :: "nat \<Rightarrow> server \<Rightarrow> bool" where
  "draws_ok i sv \<longleftrightarrow>
     (\<forall>m n. m \<subseteq>\<^sub>m rd_dict (sv_db sv i) \<and> m \<noteq> Map.empty \<longrightarrow> sv_rnd sv m n \<in> dom m)"

lemma draws_ok_evict: "draws_ok i sv \<Longrightarrow> draws_ok i (evict i k sv)"
proof -
  assume d: "draws_ok i sv"
  have "rd_dict (sv_db (evict i k sv) i) \<subseteq>\<^sub>m rd_dict (sv_db sv i)"
    by (auto simp: evict_def map_le_def)
  moreover have "sv_rnd (evict i k sv) = sv_rnd sv"
    using frame_evict [of sv i k sv] by (simp add: frame_def)
  ultimately show ?thesis using d map_le_trans unfolding draws_ok_def by metis
qed

lemma visible_not_stale: "\<not> stale i k sv \<Longrightarrow> visible i k sv = rd_dict (sv_db sv i) k"
  by (simp add: visible_def)

lemma visible_evict:
  "visible i k' (evict i k sv) = (if k' = k then visible i k sv else visible i k' sv)"
proof (cases "k' = k")
  case True
  then show ?thesis by (auto simp: visible_def evict_def stale_def)
next
  case False
  then have "stale i k' (evict i k sv) = stale i k' sv" using evict_other by (simp add: stale_def)
  then show ?thesis using False evict_other by (simp add: visible_def)
qed

lemma dbRandomKey_master:
  assumes "ks_wf sv" "draws_ok i sv" "\<not> sv_masterhost sv"
  shows "\<exists>key sv'. dbRandomKey i n sv = Some (Some (key, sv')) \<and> ks_wf sv' \<and> frame sv sv' \<and>
    (key = None \<longleftrightarrow> (\<forall>k. visible i k sv = None)) \<and> (\<forall>k. key = Some k \<longrightarrow> visible i k sv \<noteq> None) \<and>
    (\<forall>k. visible i k sv' = visible i k sv) \<and> sv_client sv' = sv_client sv"
  using assms
proof (induction "card (dom (rd_dict (sv_db sv i)))" arbitrary: sv n rule: less_induct)
  case less
  let ?d = "rd_dict (sv_db sv i)"
  show ?case
  proof (cases "?d = Map.empty")
    case True
    then show ?thesis using less.prems(1) by (subst dbRandomKey.simps) (simp add: visible_def)
  next
    case ne: False
    define key where "key = sv_rnd sv ?d n"
    have kd: "key \<in> dom ?d" using less.prems(2) ne by (simp add: draws_ok_def key_def)
    show ?thesis
    proof (cases "stale i key sv")
      case False
      have "visible i key sv \<noteq> None" using visible_not_stale [OF False] kd by auto
      moreover have "dbRandomKey i n sv = Some (Some (Some key, sv))"
        using ne False less.prems(1)
        by (subst dbRandomKey.simps) (auto simp: key_def [symmetric] Let_def expireIfNeeded_eq evict_def)
      ultimately show ?thesis using less.prems(1) by auto
    next
      case True
      let ?s = "evict i key sv"
      have e: "rd_expires (sv_db sv i) key \<noteq> None" using True by (auto simp: stale_def)
      have d: "rd_dict (sv_db ?s i) = ?d(key := None)" using True less.prems(3) by (simp add: evict_def)
      have "card (dom (rd_dict (sv_db ?s i))) < card (dom ?d)"
        unfolding d using kd ks_wfD(4) [OF less.prems(1)] by (simp add: card_Diff1_less del: card_Diff_insert)
      moreover have "ks_wf ?s" "draws_ok i ?s" "\<not> sv_masterhost ?s"
        using less.prems draws_ok_evict by simp_all
      ultimately obtain k sv' where ih: "dbRandomKey i (n + 1) ?s = Some (Some (k, sv'))" "ks_wf sv'" "frame ?s sv'"
        "k = None \<longleftrightarrow> (\<forall>k. visible i k ?s = None)" "\<forall>k'. k = Some k' \<longrightarrow> visible i k' ?s \<noteq> None"
        "\<forall>k. visible i k sv' = visible i k ?s" "sv_client sv' = sv_client ?s"
        using less.hyps [of ?s "n + 1"] by blast
      have "dbRandomKey i n sv = dbRandomKey i (n + 1) ?s"
        using ne e True less.prems(1)
        by (subst dbRandomKey.simps) (auto simp: key_def [symmetric] Let_def expireIfNeeded_eq)
      moreover have "visible i k' ?s = visible i k' sv" for k' by (simp add: visible_evict)
      moreover have "frame sv sv'" using ih(3) frame_trans [of sv ?s sv'] by simp
      ultimately show ?thesis using ih by auto
    qed
  qed
qed

lemma dbRandomKey_slave:
  assumes "dbRandomKey i n sv = Some r" "ks_wf sv" "draws_ok i sv" "sv_masterhost sv"
    "rd_dict (sv_db sv i) \<noteq> Map.empty" "\<forall>k \<in> dom (rd_dict (sv_db sv i)). stale i k sv"
  shows False
proof -
  define P where "P = (\<lambda>i (n :: nat) sv (r :: (key option \<times> server) option).
    ks_wf sv \<longrightarrow> draws_ok i sv \<longrightarrow> sv_masterhost sv \<longrightarrow> rd_dict (sv_db sv i) \<noteq> Map.empty \<longrightarrow>
    \<not> (\<forall>k \<in> dom (rd_dict (sv_db sv i)). stale i k sv))"
  have "P i n sv r"
  proof (rule dbRandomKey.raw_induct [where P = P, OF _ assms(1)])
    fix f i n sv r
    assume ih: "\<And>i n sv r. f i n sv = Some r \<Longrightarrow> P i n sv r"
      and body: "(if rd_dict (sv_db sv i) = Map.empty then Some (Some (None, sv))
        else let key = sv_rnd sv (rd_dict (sv_db sv i)) n
             in if rd_expires (sv_db sv i) key = None then Some (Some (Some key, sv))
                else case expireIfNeeded i key sv of None \<Rightarrow> Some None
                     | Some (expired, sv1) \<Rightarrow> if expired then f i (n + 1) sv1 else Some (Some (Some key, sv1))) = Some r"
    show "P i n sv r"
      unfolding P_def
    proof (intro impI notI)
      assume a: "ks_wf sv" "draws_ok i sv" "sv_masterhost sv" "rd_dict (sv_db sv i) \<noteq> Map.empty"
        "\<forall>k \<in> dom (rd_dict (sv_db sv i)). stale i k sv"
      define key where "key = sv_rnd sv (rd_dict (sv_db sv i)) n"
      have "key \<in> dom (rd_dict (sv_db sv i))" using a(2,4) by (simp add: draws_ok_def key_def)
      then have st: "stale i key sv" using a(5) by blast
      then have e: "rd_expires (sv_db sv i) key \<noteq> None" by (auto simp: stale_def)
      have ev: "evict i key sv = sv" using a(3) by (simp add: evict_def)
      have "expireIfNeeded i key sv = Some (True, sv)" using a(1) st by (simp add: expireIfNeeded_eq ev)
      then have "f i (n + 1) sv = Some r"
        using body a(4) e by (simp add: key_def [symmetric] Let_def)
      from ih [OF this] a show False unfolding P_def by blast
    qed
  qed
  with assms show False unfolding P_def by blast
qed

section \<open>KEYS\<close>

text \<open>Replies commute with expiry.\<close>

lemma upd_db_addReply [simp]:
  "upd_db i f (addReplyString c s sv) = addReplyString c s (upd_db i f sv)"
  by (simp add: upd_db_def addReplyString_def upd_client_def)

lemma evict_addReply [simp]: "evict i k (addReplyString c s sv) = addReplyString c s (evict i k sv)"
proof -
  have "count_expired i k (addReplyString c s sv) = addReplyString c s (count_expired i k sv)"
    by (simp add: count_expired_def propagateExpire_def addReplyString_def upd_client_def)
  then show ?thesis by (simp add: evict_def dbrem_def)
qed

lemma addReplyString_Nil [simp]: "addReplyString c [] sv = sv"
  by (simp add: addReplyString_def upd_client_def)

lemma stale_evict: "k' \<noteq> k \<Longrightarrow> stale i k' (evict i k sv) = stale i k' sv"
  using evict_other by (simp add: stale_def)

lemma keys_loop_props:
  assumes "ks_wf sv" "distinct ks" "\<forall>k\<in>set ks. small k"
    and "\<And>k. k \<in> set ks \<Longrightarrow> (if allkeys then Some True
        else stringmatchlen (pattern @ [NUL]) 0 (int (length pattern)) (k @ [NUL]) 0 (int (length k)) False) = Some (m k)"
  shows "keys_loop c pattern allkeys ks n sv =
    Some (n + length (filter (\<lambda>k. m k \<and> \<not> stale (cdb c sv) k sv) ks),
          addReplyString c (concat (map bulk (filter (\<lambda>k. m k \<and> \<not> stale (cdb c sv) k sv) ks)))
            (fold (evict (cdb c sv)) (filter m ks) sv))"
  using assms
proof (induction ks arbitrary: n sv)
  case (Cons k ks)
  define i where "i = cdb c sv"
  note mk = Cons.prems(4) [of k, simplified]
  have hyp: "\<And>x. x \<in> set ks \<Longrightarrow> (if allkeys then Some True
        else stringmatchlen (pattern @ [NUL]) 0 (int (length pattern)) (x @ [NUL]) 0 (int (length x)) False) = Some (m x)"
    using Cons.prems(4) by (meson list.set_intros(2))
  have st: "filter (\<lambda>x. m x \<and> \<not> stale i x (evict i k sv)) ks = filter (\<lambda>x. m x \<and> \<not> stale i x sv) ks"
  proof (rule filter_cong [OF refl])
    fix x assume "x \<in> set ks"
    then have "x \<noteq> k" using Cons.prems(2) by auto
    then show "(m x \<and> \<not> stale i x (evict i k sv)) = (m x \<and> \<not> stale i x sv)" by (simp add: stale_evict)
  qed
  have loop: "keys_loop c pattern allkeys (k # ks) n sv =
     (if m k then Option.bind (expireIfNeeded i k sv) (\<lambda>(expired, sv).
                 if expired then keys_loop c pattern allkeys ks n sv
                 else Option.bind (addReplyBulk c (createStringObject k) sv) (\<lambda>sv.
                      keys_loop c pattern allkeys ks (n + 1) sv))
      else keys_loop c pattern allkeys ks n sv)"
    by (simp only: keys_loop.simps mk Option.bind.bind_lunit i_def)
  show ?case
  proof (cases "m k")
    case False
    with Cons.IH [OF Cons.prems(1) _ _ hyp, of n] Cons.prems(2,3) show ?thesis unfolding loop by simp
  next
    case True
    show ?thesis
    proof (cases "stale i k sv")
      case s: True
      have "keys_loop c pattern allkeys (k # ks) n sv = keys_loop c pattern allkeys ks n (evict i k sv)"
        unfolding loop using True s Cons.prems(1) by (simp add: expireIfNeeded_eq)
      with Cons.IH [of "evict i k sv" n, OF _ _ _ hyp] Cons.prems(1-3) True s st
      show ?thesis by (simp add: i_def)
    next
      case s: False
      have ev: "evict i k sv = sv" using s by (simp add: evict_def)
      have "keys_loop c pattern allkeys (k # ks) n sv = keys_loop c pattern allkeys ks (n + 1) (addReplyString c (bulk k) sv)"
        unfolding loop using True s Cons.prems(1,3) by (simp add: expireIfNeeded_eq ev addReplyBulk_props)
      moreover have "fold (evict i) l (addReplyString c t s) = addReplyString c t (fold (evict i) l s)" for l t s
        by (induction l arbitrary: s) simp_all
      ultimately show ?thesis
        using Cons.IH [of "addReplyString c (bulk k) sv" "n + 1", OF _ _ _ hyp] Cons.prems(1-3) True s ev
        by (simp add: i_def)
    qed
  qed
qed simp

lemma fold_evict_state [simp]:
  "ks_wf sv \<Longrightarrow> ks_wf (fold (evict i) ks sv)" "frame sv0 (fold (evict i) ks sv) = frame sv0 sv"
  "sv_client (fold (evict i) ks sv) = sv_client sv"
  by (induction ks arbitrary: sv) simp_all

lemma setDeferred_state [simp]:
  "ks_wf (setDeferredMultiBulkLength c p n sv) = ks_wf sv"
  "frame sv0 (setDeferredMultiBulkLength c p n sv) = frame sv0 sv"
proof -
  have "same_session a (sv_client (setDeferredMultiBulkLength c p n sv) d) = same_session a (sv_client sv d)" for a d
    by (simp add: setDeferredMultiBulkLength_def upd_client_def same_session_def split: option.split)
  then show "frame sv0 (setDeferredMultiBulkLength c p n sv) = frame sv0 sv"
    by (simp add: frame_def) (simp add: setDeferredMultiBulkLength_def upd_client_def split: option.split)
qed (simp add: setDeferredMultiBulkLength_def upd_client_def ks_wf_def split: option.split)

lemma keys_result:
  assumes "ks_wf sv" "sv_iter sv (rd_dict (sv_db sv (cdb c sv))) = ks" "distinct ks"
    "set ks = dom (rd_dict (sv_db sv (cdb c sv)))"
    and "argv c sv 1 = pattern" "all = ((pattern @ [NUL]) ! 0 = CHR ''*'' \<and> (pattern @ [NUL]) ! 1 = NUL)"
    and m: "\<And>k. k \<in> set ks \<Longrightarrow> (if all then Some True
        else stringmatchlen (pattern @ [NUL]) 0 (int (length pattern)) (k @ [NUL]) 0 (int (length k)) False) = Some (m k)"
    and "found = filter (\<lambda>k. m k \<and> \<not> stale (cdb c sv) k sv) ks"
  shows "\<exists>sv'. keysCommand c sv = Some sv' \<and> ks_wf sv' \<and> frame sv sv' \<and>
    (receptive (sv_client sv c) \<longrightarrow>
      c_out (sv_client sv' c) = c_out (sv_client sv c) @ ''*'' @ dec_nat (length found) @ CRLF @ concat (map bulk found))"
proof -
  have sm: "\<forall>k\<in>set ks. small k"
    unfolding assms(4) using ks_wfD(1) [OF assms(1)] by (auto simp: entry_ok_def)
  note kl = keys_loop_props [OF assms(1,3) sm m, of c 0]
  define sv1 where "sv1 = addReplyString c (concat (map bulk found)) (fold (evict (cdb c sv)) (filter m ks) sv)"
  have k: "keysCommand c sv = Some (setDeferredMultiBulkLength c (addDeferredMultiBulkLength c sv) (length found) sv1)"
    unfolding keysCommand_def Let_def assms(2,5) assms(6) [symmetric] sv1_def assms(8)
    by (simp only: kl Option.bind.bind_lunit prod.case add_0)
  have "ks_wf sv1" "frame sv sv1" using assms(1) by (simp_all add: sv1_def)
  moreover have "c_out (sv_client (setDeferredMultiBulkLength c (addDeferredMultiBulkLength c sv) (length found) sv1) c) =
      c_out (sv_client sv c) @ ''*'' @ dec_nat (length found) @ CRLF @ concat (map bulk found)"
    if "receptive (sv_client sv c)"
    using that by (simp add: setDeferredMultiBulkLength_def addDeferredMultiBulkLength_def
        prepareClientToWrite_def upd_client_def sv1_def addReplyString_def)
  ultimately show ?thesis using k by simp
qed

section \<open>Functional behaviour\<close>

text \<open>The state after a successful RENAME.\<close>

definition renamed :: "nat \<Rightarrow> key \<Rightarrow> key \<Rightarrow> robj \<Rightarrow> server \<Rightarrow> server" where
  "renamed i src dst ob sv =
     (let s1 = evict i dst (evict i src sv);
          s2 = (if rd_dict (sv_db s1 i) dst \<noteq> None then dbrem i dst s1 else s1);
          s3 = dbset i dst ob s2;
          w = (case rd_expires (sv_db sv i) src of None \<Rightarrow> -1 | Some w \<Rightarrow> w);
          s4 = (if w \<noteq> -1 then expset i dst w s3 else s3)
      in incr_dirty 1 (mark_all (watchers sv i dst) (mark_all (watchers sv i src) (dbrem i src s4))))"

lemma rename_eq:
  assumes "ks_wf sv" "argv c sv 1 \<noteq> argv c sv 2"
    and "visible (cdb c sv) (argv c sv 1) sv = Some ob"
    and "nx \<Longrightarrow> visible (cdb c sv) (argv c sv 2) sv = None"
  shows "renameGenericCommand c nx sv =
    Some (addReplyString c (if nx then shared_cone else shared_ok) (renamed (cdb c sv) (argv c sv 1) (argv c sv 2) ob sv))"
proof -
  let ?src = "argv c sv 1" and ?dst = "argv c sv 2" and ?i = "cdb c sv"
  have v: "visible ?i ?dst (evict ?i ?src sv) = visible ?i ?dst sv"
    unfolding visible_evict using assms(2) by auto
  have ex: "rd_expires (sv_db (evict ?i ?src sv) ?i) ?src = rd_expires (sv_db sv ?i) ?src"
    using assms(3) by (auto simp: evict_def visible_def)
  have d: "rd_dict (sv_db (evict ?i ?dst (evict ?i ?src sv)) ?i) ?dst = visible ?i ?dst sv" using v by simp
  have s: "rd_dict (sv_db (evict ?i ?dst (evict ?i ?src sv)) ?i) ?src = Some ob"
    using assms(2,3) by (simp add: evict_other)
  show ?thesis
    using assms v ex d s
    by (cases "visible ?i ?dst sv")
      (auto simp: renameGenericCommand_def Let_def lookupKeyWriteOrReply_def db_eqs renamed_def)
qed

lemma renamed_state:
  assumes "ks_wf sv" "src \<noteq> dst" "visible i src sv = Some ob" "entry_ok dst ob"
  shows "rd_dict (sv_db (renamed i src dst ob sv) i) =
      (rd_dict (sv_db sv i))(src := None, dst \<mapsto> ob)"
    "rd_expires (sv_db (renamed i src dst ob sv) i) =
      (rd_expires (sv_db sv i))(src := None, dst := (if rd_expires (sv_db sv i) src = Some (-1) then None else rd_expires (sv_db sv i) src))"
proof -
  let ?s1 = "evict i dst (evict i src sv)"
  have d: "rd_dict (sv_db ?s1 i) k = rd_dict (sv_db sv i) k" if "k \<noteq> dst" "k \<noteq> src" for k
    using that by (simp add: evict_other)
  show "rd_dict (sv_db (renamed i src dst ob sv) i) = (rd_dict (sv_db sv i))(src := None, dst \<mapsto> ob)"
    using d assms(2) by (auto simp: renamed_def Let_def fun_eq_iff)
  have w: "rd_expires (sv_db ?s1 i) dst = None" if "rd_dict (sv_db ?s1 i) dst = None"
    using ks_wfD(2) [OF _ that] assms(1) by simp
  have e: "rd_expires (sv_db ?s1 i) k = rd_expires (sv_db sv i) k" if "k \<noteq> dst" "k \<noteq> src" for k
    using that by (simp add: evict_other)
  show "rd_expires (sv_db (renamed i src dst ob sv) i) =
      (rd_expires (sv_db sv i))(src := None, dst := (if rd_expires (sv_db sv i) src = Some (-1) then None else rd_expires (sv_db sv i) src))"
    using e w assms(2)
    by (cases "rd_expires (sv_db sv i) src") (auto simp: renamed_def Let_def fun_eq_iff)
qed

text \<open>The reply of a handler, when the client has a socket.\<close>

lemma c_out_addReply:
  "c_out (sv_client (addReplyString c s sv) c) =
     (if receptive (sv_client sv c) then c_out (sv_client sv c) @ s else c_out (sv_client sv c))"
  by (simp add: addReplyString_def upd_client_def prepareClientToWrite_def)

text \<open>The state after EXPIRE and its variants with the deadline \<open>w\<close>.\<close>

lemma expire_eq:
  assumes "ks_wf sv" "getLongLongFromObject (Some (arg c sv 2)) = Some (Some v)"
    and "w = to_int64 ((if secs then to_int64 (v * 1000) else v) + base)"
    and "visible (cdb c sv) (argv c sv 1) sv = Some ob" "i = cdb c sv" "key = argv c sv 1"
  shows "expireGenericCommand c base secs sv = Some (
    if w \<le> sv_now sv \<and> \<not> sv_loading sv \<and> \<not> sv_masterhost sv
    then addReplyString c shared_cone (mark_all (watchers sv i key)
           (upd_client c (\<lambda>cl. cl\<lparr>c_argv := [''DEL'', key], c_cmd := ''del''\<rparr>)
             (incr_dirty 1 (dbrem i key (count_lookup True (evict i key sv))))))
    else incr_dirty 1 (mark_all (watchers sv i key)
           (addReplyString c shared_cone (expset i key w (count_lookup True (evict i key sv))))))"
  using assms
  by (simp add: expireGenericCommand_def Let_def db_eqs getLongLongFromObjectOrReply_def)

lemma visible_small: "ks_wf sv \<Longrightarrow> visible i k sv \<noteq> None \<Longrightarrow> small k"
proof -
  assume "ks_wf sv" "visible i k sv \<noteq> None"
  then obtain ob where "entry_ok k ob" using visible_wf by fastforce
  then show ?thesis by (rule entry_okD(3))
qed

lemma evict_expires: "visible i k sv \<noteq> None \<Longrightarrow> rd_expires (sv_db (evict i k' sv) i) k = rd_expires (sv_db sv i) k"
  by (cases "k' = k") (auto simp: evict_def visible_def)

lemma evict_db_other: "j \<noteq> i \<Longrightarrow> sv_db (evict i k sv) j = sv_db sv j"
  by (simp add: evict_def dbrem_def upd_db_def count_expired_def propagateExpire_def)

lemma renamed_db_other: "j \<noteq> i \<Longrightarrow> sv_db (renamed i src dst ob sv) j = sv_db sv j"
  by (simp add: renamed_def Let_def evict_db_other dbrem_def dbset_def expset_def upd_db_def)
lemma expire_missing:
  assumes "ks_wf sv" "getLongLongFromObject (Some (arg c sv 2)) = Some (Some v)" "visible (cdb c sv) (argv c sv 1) sv = None"
  shows "expireGenericCommand c base secs sv =
    Some (addReplyString c shared_czero (count_lookup False (evict (cdb c sv) (argv c sv 1) sv)))"
  using assms by (simp add: expireGenericCommand_def Let_def db_eqs getLongLongFromObjectOrReply_def)

lemma expire_not_a_number:
  assumes "getLongLongFromObject (Some (arg c sv 2)) = Some None"
  shows "expireGenericCommand c base secs sv =
    Some (addReplyString c (''-ERR value is not an integer or out of range'' @ CRLF) sv)"
  using assms by (simp add: expireGenericCommand_def Let_def getLongLongFromObjectOrReply_def cstr_def)

text \<open>A small server for examples: one key in database 0, and a request read by client 0.\<close>

definition example_server :: "string list \<Rightarrow> server" where
  "example_server args =
     with_args 0 args (dbset 0 ''a'' (createStringObject ''x'') (initServer 16 1000 (\<lambda>_. [''a'']) (\<lambda>_ _. ''a'')))"

lemma example_state [simp]:
  "rd_dict (sv_db (example_server args) 0) = [''a'' \<mapsto> createStringObject ''x'']"
  "rd_expires (sv_db (example_server args) 0) = Map.empty"
  "c_argv (sv_client (example_server args) 0) = args" "cdb 0 (example_server args) = 0"
  "sv_masterhost (example_server args) = False" "sv_loading (example_server args) = False"
  "sv_now (example_server args) = 1000" "c_fake (sv_client (example_server args) 0) = False"
  "c_out (sv_client (example_server args) 0) = []" "sv_iter (example_server args) = (\<lambda>_. [''a''])"
  "sv_rnd (example_server args) = (\<lambda>_ _. ''a'')" "ks_wf (example_server args)" "sv_maxmemory (example_server args) = 0"
  "c_close_after_reply (sv_client (example_server args) 0) = False"
proof -
  show "sv_iter (example_server args) = (\<lambda>_. [''a''])" "sv_rnd (example_server args) = (\<lambda>_ _. ''a'')"
    by (simp_all add: example_server_def dbset_def upd_db_def)
qed (simp_all add: example_server_def small_def)

lemma example_draws: "draws_ok 0 (example_server args)"
proof -
  have "''a'' \<in> dom m" if m: "m \<subseteq>\<^sub>m [''a'' \<mapsto> createStringObject ''x'']" "m \<noteq> Map.empty" for m :: "key \<Rightarrow> robj option"
  proof -
    obtain k where "k \<in> dom m" using m(2) by auto
    moreover from this have "k = ''a''" using m(1) by (auto simp: map_le_def split: if_splits)
    ultimately show ?thesis by simp
  qed
  then show ?thesis by (simp add: draws_ok_def)
qed

lemma example_visible: "visible 0 ''a'' (example_server args) = Some (createStringObject ''x'')"
  by (simp add: visible_def stale_def)

section \<open>Properties\<close>

text \<open>C27.
  RANDOMKEY on a master, with a random source that draws a key of the dictionary it is given
  (\<open>draws_ok\<close>): whatever keys are drawn the command returns, because every expired key it meets
  is deleted; it replies with a key that has not expired, or with the null bulk when there is no
  such key, and every key that has not expired stays.
\<close>

theorem randomkey_returns:
  assumes "ks_wf sv" and "draws_ok (cdb c sv) sv" and "\<not> sv_masterhost sv"
  shows "\<exists>key sv'. randomkeyCommand c sv = Some sv' \<and> ks_wf sv' \<and> frame sv sv' \<and>
    (key = None \<longleftrightarrow> (\<forall>k. visible (cdb c sv) k sv = None)) \<and> (\<forall>k. key = Some k \<longrightarrow> visible (cdb c sv) k sv \<noteq> None) \<and>
    c_out (sv_client sv' c) = c_out (sv_client sv c) @
      (if receptive (sv_client sv c) then case key of None \<Rightarrow> shared_nullbulk | Some k \<Rightarrow> bulk k else []) \<and>
    (\<forall>k. visible (cdb c sv) k sv' = visible (cdb c sv) k sv)"
proof -
  obtain key s where s: "dbRandomKey (cdb c sv) 0 sv = Some (Some (key, s))" "ks_wf s" "frame sv s"
    "key = None \<longleftrightarrow> (\<forall>k. visible (cdb c sv) k sv = None)" "\<forall>k. key = Some k \<longrightarrow> visible (cdb c sv) k sv \<noteq> None"
    "\<forall>k. visible (cdb c sv) k s = visible (cdb c sv) k sv" "sv_client s = sv_client sv"
    using dbRandomKey_master [OF assms, of 0] by (elim exE conjE) (rule that)
  have "randomkeyCommand c sv = Some (addReplyString c (case key of None \<Rightarrow> shared_nullbulk | Some k \<Rightarrow> bulk k) s)"
    proof (cases key)
    case None
    then show ?thesis using s(1) by (simp add: randomkeyCommand_def)
  next
    case (Some k)
    then have "small k" using s(5) visible_small [OF assms(1)] by blast
    then show ?thesis using s(1) Some by (simp add: randomkeyCommand_def addReplyBulk_props)
  qed
  then have run: "randomkeyCommand c sv = Some (addReplyString c r s)" if "r = (case key of None \<Rightarrow> shared_nullbulk | Some k \<Rightarrow> bulk k)" for r
    using that by simp
  have out: "c_out (sv_client (addReplyString c r s) c) = c_out (sv_client sv c) @ (if receptive (sv_client sv c) then r else [])" for r
    unfolding c_out_addReply s(7) by simp
  have rest: "ks_wf (addReplyString c r s)" "frame sv (addReplyString c r s)"
    "\<forall>k. visible (cdb c sv) k (addReplyString c r s) = visible (cdb c sv) k sv" for r
    using s(2,3,6) by simp_all
  show ?thesis
    by (rule exI, rule exI, intro conjI) (rule run [OF refl], rule rest(1), rule rest(2), rule s(4), rule s(5), rule out, rule rest(3))
qed

theorem randomkey_returns_witness:
  "\<exists>sv'. randomkeyCommand 0 (example_server [''RANDOMKEY'']) = Some sv' \<and> c_out (sv_client sv' 0) = bulk ''a''"
proof -
  let ?s = "example_server [''RANDOMKEY'']"
  have d: "draws_ok (cdb 0 ?s) ?s" using example_draws by simp
  have v: "visible 0 k ?s \<noteq> None \<Longrightarrow> k = ''a''" for k by (auto simp: visible_def split: if_splits)
  have "\<not> sv_masterhost ?s" by simp
  from randomkey_returns [OF example_state(12) d this]
  obtain key sv' where "randomkeyCommand 0 ?s = Some sv'"
      "key = None \<longleftrightarrow> (\<forall>k. visible 0 k ?s = None)" "\<forall>k. key = Some k \<longrightarrow> visible 0 k ?s \<noteq> None"
      "c_out (sv_client sv' 0) = (case key of None \<Rightarrow> shared_nullbulk | Some k \<Rightarrow> bulk k)" by auto
  moreover have "visible 0 ''a'' ?s \<noteq> None" by (simp add: example_visible)
  ultimately show ?thesis using v by (cases key) auto
qed

text \<open>
  On a slave RANDOMKEY does not return when every key of the database is past its time: the
  slave does not delete expired keys, so the loop draws for ever.
\<close>

theorem randomkey_slave_diverges:
  assumes "ks_wf sv" and "draws_ok i sv" and "sv_masterhost sv"
    and "rd_dict (sv_db sv i) \<noteq> Map.empty" and "\<forall>k \<in> dom (rd_dict (sv_db sv i)). stale i k sv"
  shows "dbRandomKey i n sv = None"
  using dbRandomKey_slave [OF _ assms] by (metis not_Some_eq)

theorem randomkey_slave_diverges_witness:
  "dbRandomKey 0 0 ((expset 0 ''a'' 5 (example_server []))\<lparr>sv_masterhost := True\<rparr>) = None"
proof -
  let ?s = "expset 0 ''a'' 5 (example_server [])"
  have w: "ks_wf (?s\<lparr>sv_masterhost := True\<rparr>)"
  proof -
    have "ks_wf ?s" by simp
    then show ?thesis by (simp add: ks_wf_def)
  qed
  have d: "draws_ok 0 (?s\<lparr>sv_masterhost := True\<rparr>)"
    using example_draws [of "[]"] by (simp add: draws_ok_def expset_def upd_db_def)
  show ?thesis
    by (rule randomkey_slave_diverges [OF w d]) (auto simp: stale_def split: if_splits)
qed

text \<open>C24.
  KEYS, for a pattern without a NUL byte on whose every key the matcher returns: the reply to a
  client that takes replies is the number of the keys that match and are not past their time,
  and those keys in the order of the dictionary's iterator.  A key past its time is left out on
  a slave too, where it is not deleted.
\<close>

theorem keys_lists_matching:
  assumes "ks_wf sv" and "sv_iter sv (rd_dict (sv_db sv (cdb c sv))) = ks" and "distinct ks"
    and "set ks = dom (rd_dict (sv_db sv (cdb c sv)))" and "argv c sv 1 = pattern"
    and "\<And>k. k \<in> set ks \<Longrightarrow> (if pattern = ''*'' then Some True else stringmatch pattern k False) = Some (m k)"
    and "NUL \<notin> set pattern" and "receptive (sv_client sv c)"
    and "found = filter (\<lambda>k. m k \<and> \<not> stale (cdb c sv) k sv) ks"
  shows "\<exists>sv'. keysCommand c sv = Some sv' \<and> ks_wf sv' \<and> frame sv sv' \<and>
    c_out (sv_client sv' c) = c_out (sv_client sv c) @ ''*'' @ dec_nat (length found) @ CRLF @ concat (map bulk found)"
proof -
  have all: "(pattern = ''*'') = ((pattern @ [NUL]) ! 0 = CHR ''*'' \<and> (pattern @ [NUL]) ! 1 = NUL)"
  proof (cases pattern)
    case (Cons a p)
    then show ?thesis using assms(7) by (cases p) (auto simp: nth_Cons')
  qed simp
  show ?thesis
    using keys_result [OF assms(1-5) all assms(6) [unfolded stringmatch_def] assms(9)] assms(8) by blast
qed

theorem keys_lists_matching_witness:
  "\<exists>sv'. keysCommand 0 (example_server [''KEYS'', ''*'']) = Some sv' \<and>
    c_out (sv_client sv' 0) = ''*'' @ dec_nat 1 @ CRLF @ bulk ''a''"
proof -
  have st: "\<not> stale 0 ''a'' (example_server [''KEYS'', ''*''])" by (simp add: stale_def)
  show ?thesis
    using keys_lists_matching [of "example_server [''KEYS'', ''*'']" 0 "[''a'']" "''*''" "\<lambda>_. True" "[''a'']"] st
    by auto
qed

text \<open>C23.
  RENAME and RENAMENX on every branch.  The same name twice, a source that is not visible, and
  for RENAMENX a target that is: the reply says so, no visible key, expire time or watching
  client changes and nothing is counted.  Otherwise the source moves to the other name with its
  value and its expire time, the old value and expire time of the target are gone, every other
  key is as it was, the clients that watch either name are marked, and the change is counted.
\<close>

theorem rename_functional:
  assumes "ks_wf sv" and "args_ok 3 c sv" and "argv c sv 1 = src" and "argv c sv 2 = dst" and "i = cdb c sv"
  shows "\<exists>sv'. renameGenericCommand c nx sv = Some sv' \<and> ks_wf sv' \<and> frame sv sv' \<and>
    (\<forall>j. j \<noteq> i \<longrightarrow> sv_db sv' j = sv_db sv j) \<and>
    c_out (sv_client sv' c) = c_out (sv_client sv c) @ (if \<not> receptive (sv_client sv c) then []
      else if src = dst then shared_sameobjecterr
      else if visible i src sv = None then shared_nokeyerr
      else if \<not> nx then shared_ok
      else if visible i dst sv = None then shared_cone else shared_czero) \<and>
    (if src = dst \<or> visible i src sv = None \<or> (nx \<and> visible i dst sv \<noteq> None)
     then (\<forall>k. visible i k sv' = visible i k sv) \<and>
       (\<forall>k. visible i k sv \<noteq> None \<longrightarrow> rd_expires (sv_db sv' i) k = rd_expires (sv_db sv i) k) \<and>
       (\<forall>d. c_dirty_cas (sv_client sv' d) = c_dirty_cas (sv_client sv d)) \<and> sv_dirty sv' = sv_dirty sv
     else rd_dict (sv_db sv' i) = (rd_dict (sv_db sv i))(src := None, dst := visible i src sv) \<and>
       rd_expires (sv_db sv' i) = (rd_expires (sv_db sv i))(src := None,
         dst := (if rd_expires (sv_db sv i) src = Some (-1) then None else rd_expires (sv_db sv i) src)) \<and>
       (\<forall>d\<in>watchers sv i src \<union> watchers sv i dst. c_dirty_cas (sv_client sv' d)) \<and>
       sv_dirty sv' = sv_dirty sv + 1)"
proof -
  let ?run = "renameGenericCommand c nx sv"
  have fine: "ks_wf s \<and> frame sv s" if "?run = Some s" for s using rename_fine [OF assms(1,2), of nx] that by simp
  have marks: "c_dirty_cas (sv_client (addReplyString c t s) d) = c_dirty_cas (sv_client s d)" for t s d
    by (simp add: addReplyString_def upd_client_def)
  have e1: "visible i k (evict i src sv) = visible i k sv" for k by (simp add: visible_evict)
  have e2: "visible i k (evict i dst (evict i src sv)) = visible i k sv" for k by (simp add: visible_evict)
  consider (same) "src = dst" | (absent) "src \<noteq> dst" "visible i src sv = None"
    | (busy) "src \<noteq> dst" "visible i src sv \<noteq> None" "nx" "visible i dst sv \<noteq> None"
    | (move) ob where "src \<noteq> dst" "visible i src sv = Some ob" "nx \<longrightarrow> visible i dst sv = None"
    by (cases "src = dst"; cases "visible i src sv"; cases "nx \<and> visible i dst sv \<noteq> None") auto
  then show ?thesis
  proof cases
    case same
    then have "?run = Some (addReplyString c shared_sameobjecterr sv)" using assms by (simp add: renameGenericCommand_def)
    then show ?thesis using same fine by (simp add: c_out_addReply marks)
  next
    case absent
    then have r: "?run = Some (addReplyString c shared_nokeyerr (evict i src sv))"
      using assms by (simp add: renameGenericCommand_def lookupKeyWriteOrReply_def db_eqs)
    show ?thesis
      using absent fine [OF r] unfolding r
      by (simp add: c_out_addReply marks evict_db_other e1 evict_expires)
  next
    case busy
    then have r: "?run = Some (addReplyString c shared_czero (evict i dst (evict i src sv)))"
      using assms e1 by (auto simp: renameGenericCommand_def Let_def lookupKeyWriteOrReply_def db_eqs)
    show ?thesis
      using busy fine [OF r] unfolding r
      by (auto simp: c_out_addReply marks evict_db_other e2 evict_expires visible_evict)
  next
    case move
    have e: "entry_ok dst ob"
      using visible_wf [OF assms(1) move(2)] args_okD [OF assms(2), of 2] assms(4) by (simp add: entry_ok_def)
    have r: "?run = Some (addReplyString c (if nx then shared_cone else shared_ok) (renamed i src dst ob sv))"
      using rename_eq [of sv c ob nx] assms move by simp
    have out: "c_out (sv_client (renamed i src dst ob sv) c) = c_out (sv_client sv c)"
      "receptive (sv_client (renamed i src dst ob sv) c) = receptive (sv_client sv c)"
      by (simp_all add: renamed_def Let_def)
    have st: "sv_dirty (renamed i src dst ob sv) = sv_dirty sv + 1"
      "\<forall>d\<in>watchers sv i src \<union> watchers sv i dst. c_dirty_cas (sv_client (renamed i src dst ob sv) d)"
      by (auto simp: renamed_def Let_def)
    have live: "\<not> (src = dst \<or> visible i src sv = None \<or> (nx \<and> visible i dst sv \<noteq> None))" using move by auto
    have rep: "(if src = dst then shared_sameobjecterr else if visible i src sv = None then shared_nokeyerr
      else if \<not> nx then shared_ok else if visible i dst sv = None then shared_cone else shared_czero) =
      (if nx then shared_cone else shared_ok)" using move by simp
    show ?thesis
      unfolding if_not_P [OF live] rep
      using r fine [OF r] renamed_state [OF assms(1) move(1,2) e] st move(2)
      by (simp add: c_out_addReply out marks renamed_db_other)
  qed
qed

theorem rename_functional_witness:
  "(\<exists>sv'. renameGenericCommand 0 False (example_server [''RENAME'', ''a'', ''b'']) = Some sv' \<and>
     rd_dict (sv_db sv' 0) = [''b'' \<mapsto> createStringObject ''x''] \<and> c_out (sv_client sv' 0) = shared_ok) \<and>
   (\<exists>sv'. renameGenericCommand 0 False (example_server [''RENAME'', ''b'', ''a'']) = Some sv' \<and>
     c_out (sv_client sv' 0) = shared_nokeyerr)"
proof -
  let ?s = "example_server [''RENAME'', ''a'', ''b'']" and ?t = "example_server [''RENAME'', ''b'', ''a'']"
  have a: "args_ok 3 0 ?s" "args_ok 3 0 ?t" by (simp_all add: args_ok_def small_def)
  have v: "visible 0 ''b'' ?t = None" by (simp add: visible_def)
  show ?thesis
    using rename_functional [OF _ a(1), of "''a''" "''b''" 0 False] rename_functional [OF _ a(2), of "''b''" "''a''" 0 False] v
    by (auto simp: example_visible)
qed

text \<open>C17.
  Expiry on access, for a key with an expire time.  On a master, a lookup after that time
  deletes the key with its expire time, counts one expired key, sends one DEL to the append only
  file and to the slaves, and finds nothing; before the time, and on a slave at any time, nothing
  changes and the key is found.  A lookup for reading does the same and counts a hit or a miss.
\<close>

theorem expiry_on_access:
  assumes "ks_wf sv" and "rd_expires (sv_db sv i) key = Some w" and "0 \<le> w" and "\<not> sv_loading sv"
  shows "(if sv_masterhost sv \<or> sv_now sv \<le> w
    then lookupKeyWrite i key sv = Some (rd_dict (sv_db sv i) key, sv) \<and> rd_dict (sv_db sv i) key \<noteq> None \<and>
      lookupKeyRead i key sv = Some (rd_dict (sv_db sv i) key, sv\<lparr>sv_hits := sv_hits sv + 1\<rparr>)
    else (\<exists>sv'. lookupKeyWrite i key sv = Some (None, sv') \<and>
      lookupKeyRead i key sv = Some (None, sv'\<lparr>sv_misses := sv_misses sv + 1\<rparr>) \<and>
      rd_dict (sv_db sv' i) = (rd_dict (sv_db sv i))(key := None) \<and>
      rd_expires (sv_db sv' i) = (rd_expires (sv_db sv i))(key := None) \<and>
      (\<forall>j. j \<noteq> i \<longrightarrow> sv_db sv' j = sv_db sv j) \<and> ks_wf sv' \<and> frame sv sv' \<and> sv_client sv' = sv_client sv \<and>
      sv_expiredkeys sv' = sv_expiredkeys sv + 1 \<and> sv_dirty sv' = sv_dirty sv \<and>
      sv_aof sv' = (if sv_aof_on sv then sv_aof sv @ [(i, [''DEL'', key])] else sv_aof sv) \<and>
      sv_repl sv' = (if sv_slaves sv then sv_repl sv @ [(i, [''DEL'', key])] else sv_repl sv)))"
proof (cases "sv_masterhost sv \<or> sv_now sv \<le> w")
  case True
  then have "evict i key sv = sv" "visible i key sv = rd_dict (sv_db sv i) key"
    using assms by (auto simp: evict_def visible_def stale_def)
  moreover have "rd_dict (sv_db sv i) key \<noteq> None" using ks_wfD(3) [OF assms(1,2)] by auto
  ultimately show ?thesis using True assms(1)
    by (simp add: lookupKeyWrite_eq lookupKeyRead_eq count_lookup_def)
next
  case False
  then have s: "stale i key sv" "visible i key sv = None" using assms by (simp_all add: stale_def visible_def)
  have w: "ks_wf (evict i key sv)" "frame sv (evict i key sv)" "sv_client (evict i key sv) = sv_client sv"
    using assms(1) by simp_all
  have "lookupKeyWrite i key sv = Some (None, evict i key sv)"
    "lookupKeyRead i key sv = Some (None, (evict i key sv)\<lparr>sv_misses := sv_misses sv + 1\<rparr>)"
    using assms(1) s False
    by (simp_all add: lookupKeyWrite_eq lookupKeyRead_eq count_lookup_def evict_def dbrem_def upd_db_def count_expired_def propagateExpire_def)
  moreover have "rd_dict (sv_db (evict i key sv) i) = (rd_dict (sv_db sv i))(key := None)"
    "rd_expires (sv_db (evict i key sv) i) = (rd_expires (sv_db sv i))(key := None)"
    "sv_expiredkeys (evict i key sv) = sv_expiredkeys sv + 1" "sv_dirty (evict i key sv) = sv_dirty sv"
    "sv_aof (evict i key sv) = (if sv_aof_on sv then sv_aof sv @ [(i, [''DEL'', key])] else sv_aof sv)"
    "sv_repl (evict i key sv) = (if sv_slaves sv then sv_repl sv @ [(i, [''DEL'', key])] else sv_repl sv)"
    "\<forall>j. j \<noteq> i \<longrightarrow> sv_db (evict i key sv) j = sv_db sv j"
    using s False by (simp_all add: evict_def dbrem_def upd_db_def count_expired_def propagateExpire_def)
  ultimately show ?thesis unfolding if_not_P [OF False] using w by blast
qed

theorem expiry_on_access_witness:
  "\<exists>sv'. lookupKeyWrite 0 ''a'' (expset 0 ''a'' 999 (example_server [])) = Some (None, sv') \<and>
    rd_dict (sv_db sv' 0) = Map.empty \<and> sv_expiredkeys sv' = 1"
proof -
  have w: "ks_wf (expset 0 ''a'' 999 (example_server []))" by simp
  have "sv_expiredkeys (expset 0 ''a'' 999 (example_server [])) = 0"
    by (simp add: expset_def upd_db_def example_server_def dbset_def with_args_def initServer_def upd_client_def)
  then show ?thesis
    using expiry_on_access [OF w, of 0 "''a''" 999] by auto
qed

text \<open>C22.
  EXPIRE, PEXPIRE, EXPIREAT and PEXPIREAT on every branch.  An argument that is no number is an
  error and changes nothing; a key that is not visible is answered with 0.  On a visible key a
  deadline in the past deletes the key on a master, and the command is rewritten to the DEL that
  is propagated; otherwise the key gets exactly that deadline and keeps its value; either way
  the change is counted and the clients that watch the key are marked.  No other key changes.
  The deadline is computed in 64 bits: \<open>w\<close> is the wrapped value.
\<close>

theorem expire_sets_deadline:
  assumes "ks_wf sv" and "getLongLongFromObject (Some (arg c sv 2)) = Some num" and "i = cdb c sv" and "key = argv c sv 1"
    and "w = to_int64 ((if secs then to_int64 (the num * 1000) else the num) + base)"
  shows "\<exists>sv'. expireGenericCommand c base secs sv = Some sv' \<and> ks_wf sv' \<and> frame sv sv' \<and>
    c_out (sv_client sv' c) = c_out (sv_client sv c) @ (if \<not> receptive (sv_client sv c) then []
      else if num = None then ''-ERR value is not an integer or out of range'' @ CRLF
      else if visible i key sv = None then shared_czero else shared_cone) \<and>
    (\<forall>j k. (j, k) \<noteq> (i, key) \<longrightarrow> rd_dict (sv_db sv' j) k = rd_dict (sv_db sv j) k \<and>
      rd_expires (sv_db sv' j) k = rd_expires (sv_db sv j) k) \<and>
    (if num = None \<or> visible i key sv = None
     then visible i key sv' = visible i key sv \<and> sv_dirty sv' = sv_dirty sv \<and> c_argv (sv_client sv' c) = c_argv (sv_client sv c) \<and>
       (\<forall>d. c_dirty_cas (sv_client sv' d) = c_dirty_cas (sv_client sv d))
     else sv_dirty sv' = sv_dirty sv + 1 \<and> (\<forall>d\<in>watchers sv i key. c_dirty_cas (sv_client sv' d)) \<and>
       (if w \<le> sv_now sv \<and> \<not> sv_loading sv \<and> \<not> sv_masterhost sv
        then rd_dict (sv_db sv' i) key = None \<and> rd_expires (sv_db sv' i) key = None \<and>
          c_argv (sv_client sv' c) = [''DEL'', key]
        else rd_dict (sv_db sv' i) key = visible i key sv \<and> rd_expires (sv_db sv' i) key = Some w \<and>
          c_argv (sv_client sv' c) = c_argv (sv_client sv c)))"
proof -
  let ?run = "expireGenericCommand c base secs sv"
  have fine: "ks_wf s \<and> frame sv s" if "?run = Some s" for s using expire_fine [OF assms(1), of c base secs] that by simp
  have marks: "c_dirty_cas (sv_client (addReplyString c t s) d) = c_dirty_cas (sv_client s d)" for t s d
    by (simp add: addReplyString_def upd_client_def)
  have ev: "rd_dict (sv_db (evict i key sv) j) k = rd_dict (sv_db sv j) k"
    "rd_expires (sv_db (evict i key sv) j) k = rd_expires (sv_db sv j) k" if "(j, k) \<noteq> (i, key)" for j k
    using that evict_other [of j i k key sv] by auto
  have vis: "visible i key (evict i key sv) = visible i key sv" by (simp add: visible_evict)
  consider (nan) "num = None" | (absent) v where "num = Some v" "visible i key sv = None"
    | (set) v ob where "num = Some v" "visible i key sv = Some ob" by (cases num; cases "visible i key sv") auto
  then show ?thesis
  proof cases
    case nan
    then have r: "?run = Some (addReplyString c (''-ERR value is not an integer or out of range'' @ CRLF) sv)"
      using expire_not_a_number assms(2) by simp
    show ?thesis using fine [OF r] nan unfolding r by (simp add: c_out_addReply marks)
  next
    case absent
    then have r: "?run = Some (addReplyString c shared_czero (count_lookup False (evict i key sv)))"
      using expire_missing assms by simp
    show ?thesis using fine [OF r] absent ev vis unfolding r by (simp add: c_out_addReply marks)
  next
    case set
    have v: "visible (cdb c sv) (argv c sv 1) sv = Some ob" using set assms by simp
    have n: "getLongLongFromObject (Some (arg c sv 2)) = Some (Some v)" "w = to_int64 ((if secs then to_int64 (v * 1000) else v) + base)"
      using set assms by simp_all
    have d: "sv_dirty (upd_client c f s) = sv_dirty s" "sv_db (upd_client c f s) = sv_db s" for f s
      by (simp_all add: upd_client_def)
    define f :: "client \<Rightarrow> client" where "f = (\<lambda>cl. cl\<lparr>c_argv := [''DEL'', key], c_cmd := ''del''\<rparr>)"
    have a: "c_argv (sv_client (upd_client c f s) c) = [''DEL'', key]" 
      "c_out (sv_client (upd_client c f s) c) = c_out (sv_client s c)"
      "receptive (sv_client (upd_client c f s) c) = receptive (sv_client s c)" for s
      by (simp_all add: upd_client_def f_def)
    define past where "past \<longleftrightarrow> w \<le> sv_now sv \<and> \<not> sv_loading sv \<and> \<not> sv_masterhost sv"
    note r = expire_eq [OF assms(1) n v assms(3,4), folded past_def f_def]
    have live: "\<not> (num = None \<or> visible i key sv = None)" using set by simp
    have rep: "(if \<not> receptive (sv_client sv c) then [] else if num = None then ''-ERR value is not an integer or out of range'' @ CRLF
      else if visible i key sv = None then shared_czero else shared_cone) = (if receptive (sv_client sv c) then shared_cone else [])"
      using set by simp
    show ?thesis
    proof (cases past)
      case True
      note r = r [unfolded if_P [OF True]]
      show ?thesis
        unfolding past_def [symmetric] if_not_P [OF live] if_P [OF True] rep
        using r fine [OF r] ev set(2) by (auto simp: c_out_addReply marks a d)
    next
      case False
      note r = r [unfolded if_not_P [OF False]]
      show ?thesis
        unfolding past_def [symmetric] if_not_P [OF live] if_not_P [OF False] rep
        using r fine [OF r] ev set(2) by (auto simp: c_out_addReply marks)
    qed
  qed
qed

theorem expire_sets_deadline_witness:
  "\<exists>sv'. expireGenericCommand 0 1000 False (example_server [''PEXPIRE'', ''a'', ''5'']) = Some sv' \<and>
    rd_expires (sv_db sv' 0) ''a'' = Some 1005"
proof -
  let ?s = "example_server [''PEXPIRE'', ''a'', ''5'']"
  have "getLongLongFromObject (Some (arg 0 ?s 2)) = Some (Some 5)"
    unfolding getLongLong_accepts_lemma
    by (rule disjI2, rule exI [of _ "[]"], rule exI [of _ "''5''"])
      (simp add: cstr_def isdigit_def code_def signed_value_def digits_value_def)
  from expire_sets_deadline [OF _ this, of 0 "''a''" 1005 False 1000]
  show ?thesis by (auto simp: example_visible)
qed

text \<open>
  The seconds given to EXPIRE are multiplied by 1000 without a check: with a number of seconds
  as far in the future as one can ask for, the product wraps to a time before now, and the key
  is deleted instead of kept.
\<close>

theorem expire_overflow_deletes:
  assumes "ks_wf sv" and "argv c sv 2 = ''9223372036854775807''" and "\<not> sv_loading sv" and "\<not> sv_masterhost sv"
    and "visible (cdb c sv) (argv c sv 1) sv = Some ob" and "0 \<le> sv_now sv" and "sv_now sv < 2 ^ 62"
  shows "\<exists>sv'. expireCommand c sv = Some sv' \<and> rd_dict (sv_db sv' (cdb c sv)) (argv c sv 1) = None"
proof -
  have "getLongLongFromObject (Some (arg c sv 2)) = Some (Some LLONG_MAX)"
    unfolding getLongLong_accepts_lemma
    by (rule disjI2, rule exI [of _ "[]"], rule exI [of _ "''9223372036854775807''"])
      (simp add: assms(2) cstr_def isdigit_def code_def signed_value_def digits_value_def)
  moreover have "to_int64 (LLONG_MAX * 1000) = -1000" by (simp add: to_int64_def)
  moreover have "to_int64 (-1000 + sv_now sv) = sv_now sv - 1000" using assms(6,7) by simp
  ultimately show ?thesis
    using expire_eq [OF assms(1) _ _ assms(5) refl refl, of LLONG_MAX "sv_now sv - 1000" True "sv_now sv"] assms
    by (simp add: expireCommand_def upd_client_def)
qed

theorem expire_overflow_deletes_witness:
  "\<exists>sv'. expireCommand 0 (example_server [''EXPIRE'', ''a'', ''9223372036854775807'']) = Some sv' \<and>
    rd_dict (sv_db sv' 0) ''a'' = None"
proof -
  let ?s = "example_server [''EXPIRE'', ''a'', ''9223372036854775807'']"
  have w: "ks_wf ?s" by simp
  show ?thesis
    using expire_overflow_deletes [OF w, of 0 "createStringObject ''x''"] by (simp add: example_visible)
qed

end
