(* ===== verification/Tstring.thy ===== *)
theory Tstring
  imports Db
begin

text \<open>
  The string commands (\<open>src/t_string.c\<close>): SET and its variants, GET, GETSET, SETRANGE,
  GETRANGE, MGET, MSET, MSETNX, the integer increments, APPEND and STRLEN.  INCRBYFLOAT, which
  works on \<open>long double\<close>, is not modelled.
\<close>

section \<open>SET\<close>

definition checkStringLength :: "cid \<Rightarrow> int \<Rightarrow> server \<Rightarrow> bool \<times> server" where
  "checkStringLength c size' sv =
     (if size' > 512 * 1024 * 1024
      then (False, addReplyError c ''string exceeds maximum allowed size (512MB)'' sv)
      else (True, sv))"

text \<open>
  \<open>nx\<close> and \<open>xx\<close> are the two bits of \<open>flags\<close>, \<open>seconds\<close> is \<open>unit == UNIT_SECONDS\<close>.  Each of the two
  lookups of the condition may expire the key.
\<close>

definition set_aborts :: "bool \<Rightarrow> bool \<Rightarrow> nat \<Rightarrow> key \<Rightarrow> server \<Rightarrow> (bool \<times> server) option" where
  "set_aborts nx xx i key sv =
     Option.bind (if nx then lookupKeyWrite i key sv else Some (None, sv)) (\<lambda>(o1, sv).
       if o1 \<noteq> None then Some (True, sv)
       else if xx then Option.bind (lookupKeyWrite i key sv) (\<lambda>(o2, sv). Some (o2 = None, sv))
       else Some (False, sv))"

definition setGenericCommand ::
    "cid \<Rightarrow> bool \<Rightarrow> bool \<Rightarrow> key \<Rightarrow> robj \<Rightarrow> robj option \<Rightarrow> bool \<Rightarrow> string option \<Rightarrow> string option \<Rightarrow> server \<Rightarrow> server option" where
  "setGenericCommand c nx xx key val expire seconds ok_reply abort_reply sv =
     (let i = cdb c sv
      in Option.bind (if expire = None then Some (Some 0, sv) else getLongLongFromObjectOrReply c expire None sv) (\<lambda>(ms, sv).
        case ms of
          None \<Rightarrow> Some sv
        | Some ms \<Rightarrow>
            if expire \<noteq> None \<and> ms \<le> 0 then Some (addReplyError c ''invalid expire time in SETEX'' sv)
            else
              let milliseconds = (if expire \<noteq> None \<and> seconds then to_int64 (ms * 1000) else ms)
              in Option.bind (set_aborts nx xx i key sv) (\<lambda>(aborts, sv).
                if aborts then Some (addReply c (case abort_reply of Some r \<Rightarrow> r | None \<Rightarrow> shared_nullbulk) sv)
                else Option.bind (setKey i key val sv) (\<lambda>sv.
                  Option.bind (if expire \<noteq> None
                               then setExpire i key (to_int64 (sv_now sv + milliseconds)) (incr_dirty 1 sv)
                               else Some (incr_dirty 1 sv)) (\<lambda>sv.
                  Some (addReply c (case ok_reply of Some r \<Rightarrow> r | None \<Rightarrow> shared_ok) sv))))))"

text \<open>An option word of SET: two letters, in either case.\<close>

definition option_word :: "char \<Rightarrow> char \<Rightarrow> string \<Rightarrow> bool" where
  "option_word lo up a \<longleftrightarrow>
     (let b = a @ [NUL, NUL, NUL]
      in (b ! 0 = lo \<or> b ! 0 = up) \<and> (b ! 1 = CHR ''x'' \<or> b ! 1 = CHR ''X'') \<and> b ! 2 = NUL)"

text \<open>The loop over the options: the flags, the expire argument and its unit; \<open>None\<close> is a syntax error.\<close>

fun set_options ::
    "string list \<Rightarrow> bool \<Rightarrow> bool \<Rightarrow> string option \<Rightarrow> bool \<Rightarrow> (bool \<times> bool \<times> string option \<times> bool) option" where
  "set_options [] nx xx expire seconds = Some (nx, xx, expire, seconds)"
| "set_options (a # rest) nx xx expire seconds =
     (if option_word CHR ''n'' CHR ''N'' a then set_options rest True xx expire seconds
      else if option_word CHR ''x'' CHR ''X'' a then set_options rest nx True expire seconds
      else case rest of
             [] \<Rightarrow> None
           | next' # rest' \<Rightarrow>
               if option_word CHR ''e'' CHR ''E'' a then set_options rest' nx xx (Some next') True
               else if option_word CHR ''p'' CHR ''P'' a then set_options rest' nx xx (Some next') False
               else None)"

definition setCommand :: "cid \<Rightarrow> server \<Rightarrow> server option" where
  "setCommand c sv =
     (case set_options (drop 3 (c_argv (sv_client sv c))) False False None True of
        None \<Rightarrow> Some (addReply c shared_syntaxerr sv)
      | Some (nx, xx, expire, seconds) \<Rightarrow>
          Option.bind (tryObjectEncoding (sv_maxmemory sv) 1 (arg c sv 2)) (\<lambda>val.
          setGenericCommand c nx xx (argv c sv 1) val (map_option createStringObject expire) seconds None None sv))"

definition setnxCommand :: "cid \<Rightarrow> server \<Rightarrow> server option" where
  "setnxCommand c sv =
     Option.bind (tryObjectEncoding (sv_maxmemory sv) 1 (arg c sv 2)) (\<lambda>val.
     setGenericCommand c True False (argv c sv 1) val None True (Some shared_cone) (Some shared_czero) sv)"

definition setexCommand :: "cid \<Rightarrow> server \<Rightarrow> server option" where
  "setexCommand c sv =
     Option.bind (tryObjectEncoding (sv_maxmemory sv) 1 (arg c sv 3)) (\<lambda>val.
     setGenericCommand c False False (argv c sv 1) val (Some (arg c sv 2)) True None None sv)"

definition psetexCommand :: "cid \<Rightarrow> server \<Rightarrow> server option" where
  "psetexCommand c sv =
     Option.bind (tryObjectEncoding (sv_maxmemory sv) 1 (arg c sv 3)) (\<lambda>val.
     setGenericCommand c False False (argv c sv 1) val (Some (arg c sv 2)) False None None sv)"

section \<open>GET\<close>

text \<open>\<open>False\<close> is \<open>REDIS_ERR\<close>.\<close>

definition getGenericCommand :: "cid \<Rightarrow> server \<Rightarrow> (bool \<times> server) option" where
  "getGenericCommand c sv =
     Option.bind (lookupKeyReadOrReply c (argv c sv 1) shared_nullbulk sv) (\<lambda>(ob, sv).
       case ob of
         None \<Rightarrow> Some (True, sv)
       | Some ob \<Rightarrow>
           if o_type ob \<noteq> REDIS_STRING then Some (False, addReply c shared_wrongtypeerr sv)
           else Option.bind (addReplyBulk c ob sv) (\<lambda>sv. Some (True, sv)))"

definition getCommand :: "cid \<Rightarrow> server \<Rightarrow> server option" where
  "getCommand c sv = Option.bind (getGenericCommand c sv) (\<lambda>(_, sv). Some sv)"

definition getsetCommand :: "cid \<Rightarrow> server \<Rightarrow> server option" where
  "getsetCommand c sv =
     Option.bind (getGenericCommand c sv) (\<lambda>(ok', sv).
       if \<not> ok' then Some sv
       else Option.bind (tryObjectEncoding (sv_maxmemory sv) 1 (arg c sv 2)) (\<lambda>val.
            Option.bind (setKey (cdb c sv) (argv c sv 1) val sv) (\<lambda>sv. Some (incr_dirty 1 sv))))"

section \<open>SETRANGE and GETRANGE\<close>

text \<open>
  \<open>sdsgrowzero\<close> on the content.  An allocation of \<open>2^63\<close> bytes or more cannot succeed, and the
  allocator then aborts the program.
\<close>

definition grow_zero :: "string \<Rightarrow> nat \<Rightarrow> string option" where
  "grow_zero s n = (if 2 ^ 63 \<le> n then None else Some (s @ replicate (n - length s) NUL))"

text \<open>The object of a key changed in place.\<close>

definition store_object :: "nat \<Rightarrow> key \<Rightarrow> robj \<Rightarrow> server \<Rightarrow> server" where
  "store_object i key ob = upd_db i (rd_dict_update (\<lambda>d. d(key \<mapsto> ob)))"

text \<open>A copy of a shared or encoded object replaces it; a raw one is changed in place.\<close>

definition unshare :: "nat \<Rightarrow> key \<Rightarrow> robj \<Rightarrow> server \<Rightarrow> (robj \<times> server) option" where
  "unshare i key ob sv =
     (if o_encoding ob \<noteq> ENC_RAW
      then Option.bind (getDecodedObject ob) (\<lambda>decoded.
           Option.bind (dupStringObject decoded) (\<lambda>ob.
           Option.bind (dbOverwrite i key ob sv) (\<lambda>sv. Some (ob, sv))))
      else Some (ob, sv))"

definition setrange_write :: "cid \<Rightarrow> nat \<Rightarrow> string \<Rightarrow> robj \<Rightarrow> server \<Rightarrow> server option" where
  "setrange_write c offset val ob sv =
     (case o_ptr ob of
        Sds s \<Rightarrow>
          if 0 < length val
          then Option.bind (grow_zero s (offset + length val)) (\<lambda>s1.
               let s2 = memcpy s1 offset val;
                   sv = store_object (cdb c sv) (argv c sv 1) (ob\<lparr>o_ptr := Sds s2\<rparr>) sv;
                   sv = signalModifiedKey (cdb c sv) (argv c sv 1) sv
               in Some (addReplyLongLong c (int (length s2)) (incr_dirty 1 sv)))
          else Some (addReplyLongLong c (int (length s)) sv)
      | _ \<Rightarrow> None)"

definition setrangeCommand :: "cid \<Rightarrow> server \<Rightarrow> server option" where
  "setrangeCommand c sv =
     (let i = cdb c sv; key = argv c sv 1; val = argv c sv 3
      in Option.bind (getLongFromObjectOrReply c (Some (arg c sv 2)) None sv) (\<lambda>(offset, sv).
        case offset of
          None \<Rightarrow> Some sv
        | Some offset \<Rightarrow>
            if offset < 0 then Some (addReplyError c ''offset is out of range'' sv)
            else Option.bind (lookupKeyWrite i key sv) (\<lambda>(ob, sv).
              case ob of
                None \<Rightarrow>
                  if length val = 0 then Some (addReply c shared_czero sv)
                  else let (fits, sv) = checkStringLength c (to_int64 (offset + int (length val))) sv
                       in if \<not> fits then Some sv
                          else let ob = createObject REDIS_STRING (Sds [])
                               in Option.bind (dbAdd i key ob sv) (\<lambda>sv. setrange_write c (nat offset) val ob sv)
              | Some ob \<Rightarrow>
                  let (wrong, sv) = checkType c ob REDIS_STRING sv
                  in if wrong then Some sv
                     else Option.bind (stringObjectLen ob) (\<lambda>olen.
                       if length val = 0 then Some (addReplyLongLong c (int olen) sv)
                       else let (fits, sv) = checkStringLength c (to_int64 (offset + int (length val))) sv
                            in if \<not> fits then Some sv
                               else Option.bind (unshare i key ob sv) (\<lambda>(ob, sv).
                                    setrange_write c (nat offset) val ob sv)))))"

text \<open>
  The range of GETRANGE.  \<open>strlen\<close> is a \<open>size_t\<close>, so sums with it are computed modulo \<open>2^64\<close>; the
  last test compares the low 32 bits of \<open>end\<close>.
\<close>

definition getrange_bounds :: "nat \<Rightarrow> int \<Rightarrow> int \<Rightarrow> int \<times> int" where
  "getrange_bounds strlen' start end' =
     (let start1 = (if start < 0 then to_int64 (int strlen' + start) else start);
          end1 = (if end' < 0 then to_int64 (int strlen' + end') else end');
          start2 = (if start1 < 0 then 0 else start1);
          end2 = (if end1 < 0 then 0 else end1);
          end3 = (if int strlen' \<le> end2 mod 2 ^ 32 then to_int64 (int strlen' - 1) else end2)
      in (start2, end3))"

definition getrangeCommand :: "cid \<Rightarrow> server \<Rightarrow> server option" where
  "getrangeCommand c sv =
     Option.bind (getLongFromObjectOrReply c (Some (arg c sv 2)) None sv) (\<lambda>(start, sv).
       case start of
         None \<Rightarrow> Some sv
       | Some start \<Rightarrow>
           Option.bind (getLongFromObjectOrReply c (Some (arg c sv 3)) None sv) (\<lambda>(end', sv).
             case end' of
               None \<Rightarrow> Some sv
             | Some end' \<Rightarrow>
                 Option.bind (lookupKeyReadOrReply c (argv c sv 1) shared_emptybulk sv) (\<lambda>(ob, sv).
                   case ob of
                     None \<Rightarrow> Some sv
                   | Some ob \<Rightarrow>
                       let (wrong, sv) = checkType c ob REDIS_STRING sv
                       in if wrong then Some sv
                          else Option.bind (case o_ptr ob of
                                 Long n \<Rightarrow> if o_encoding ob = ENC_INT then Some (snd (ll2string 32 n)) else None
                               | Sds s \<Rightarrow> if o_encoding ob = ENC_RAW then Some s else None
                               | _ \<Rightarrow> None) (\<lambda>str.
                               let (start, end') = getrange_bounds (length str) start end'
                               in if start > end' then Some (addReply c shared_emptybulk sv)
                                  else addReplyBulkCBuffer c str (nat start) (nat (end' - start + 1)) sv))))"

section \<open>Several keys\<close>

fun mget_loop :: "cid \<Rightarrow> key list \<Rightarrow> server \<Rightarrow> server option" where
  "mget_loop c [] sv = Some sv"
| "mget_loop c (key # ks) sv =
     Option.bind (lookupKeyRead (cdb c sv) key sv) (\<lambda>(ob, sv).
     Option.bind (case ob of
                    None \<Rightarrow> Some (addReply c shared_nullbulk sv)
                  | Some ob \<Rightarrow> if o_type ob \<noteq> REDIS_STRING then Some (addReply c shared_nullbulk sv)
                               else addReplyBulk c ob sv) (\<lambda>sv.
     mget_loop c ks sv))"

definition mgetCommand :: "cid \<Rightarrow> server \<Rightarrow> server option" where
  "mgetCommand c sv =
     mget_loop c (drop 1 (c_argv (sv_client sv c))) (addReplyMultiBulkLen c (argc c sv - 1) sv)"

text \<open>The loops over the pairs of arguments: count the existing keys, set all the keys.\<close>

fun busy_loop :: "nat \<Rightarrow> string list \<Rightarrow> nat \<Rightarrow> server \<Rightarrow> (nat \<times> server) option" where
  "busy_loop i (key # val # rest) busykeys sv =
     Option.bind (lookupKeyWrite i key sv) (\<lambda>(ob, sv).
     busy_loop i rest (if ob \<noteq> None then busykeys + 1 else busykeys) sv)"
| "busy_loop i _ busykeys sv = Some (busykeys, sv)"

fun mset_loop :: "nat \<Rightarrow> string list \<Rightarrow> server \<Rightarrow> server option" where
  "mset_loop i (key # val # rest) sv =
     Option.bind (tryObjectEncoding (sv_maxmemory sv) 1 (createStringObject val)) (\<lambda>ob.
     Option.bind (setKey i key ob sv) (\<lambda>sv.
     mset_loop i rest sv))"
| "mset_loop i _ sv = Some sv"

definition msetGenericCommand :: "cid \<Rightarrow> bool \<Rightarrow> server \<Rightarrow> server option" where
  "msetGenericCommand c nx sv =
     (let args = drop 1 (c_argv (sv_client sv c)); i = cdb c sv
      in if argc c sv mod 2 = 0 then Some (addReplyError c ''wrong number of arguments for MSET'' sv)
         else Option.bind (if nx then busy_loop i args 0 sv else Some (0, sv)) (\<lambda>(busykeys, sv).
           if 0 < busykeys then Some (addReply c shared_czero sv)
           else Option.bind (mset_loop i args sv) (\<lambda>sv.
                Some (addReply c (if nx then shared_cone else shared_ok)
                       (incr_dirty (int ((argc c sv - 1) div 2)) sv)))))"

definition msetCommand :: "cid \<Rightarrow> server \<Rightarrow> server option" where
  "msetCommand c = msetGenericCommand c False"

definition msetnxCommand :: "cid \<Rightarrow> server \<Rightarrow> server option" where
  "msetnxCommand c = msetGenericCommand c True"

section \<open>Increments\<close>

definition incrDecrCommand :: "cid \<Rightarrow> int \<Rightarrow> server \<Rightarrow> server option" where
  "incrDecrCommand c incr sv =
     (let i = cdb c sv; key = argv c sv 1
      in Option.bind (lookupKeyWrite i key sv) (\<lambda>(ob, sv).
        let (wrong, sv) = (case ob of None \<Rightarrow> (False, sv) | Some ob \<Rightarrow> checkType c ob REDIS_STRING sv)
        in if wrong then Some sv
           else Option.bind (getLongLongFromObjectOrReply c ob None sv) (\<lambda>(oldvalue, sv).
             case oldvalue of
               None \<Rightarrow> Some sv
             | Some oldvalue \<Rightarrow>
                 if (incr < 0 \<and> oldvalue < 0 \<and> incr < LLONG_MIN - oldvalue) \<or>
                    (0 < incr \<and> 0 < oldvalue \<and> LLONG_MAX - oldvalue < incr)
                 then Some (addReplyError c ''increment or decrement would overflow'' sv)
                 else let new = createStringObjectFromLongLong (to_int64 (oldvalue + incr))
                      in Option.bind (if ob \<noteq> None then dbOverwrite i key new sv else dbAdd i key new sv) (\<lambda>sv.
                         let sv = incr_dirty 1 (signalModifiedKey i key sv)
                         in Option.bind (addReplyObject c new (addReply c '':'' sv)) (\<lambda>sv.
                            Some (addReply c CRLF sv))))))"

definition incrCommand :: "cid \<Rightarrow> server \<Rightarrow> server option" where
  "incrCommand c = incrDecrCommand c 1"

definition decrCommand :: "cid \<Rightarrow> server \<Rightarrow> server option" where
  "decrCommand c = incrDecrCommand c (-1)"

definition incrbyCommand :: "cid \<Rightarrow> server \<Rightarrow> server option" where
  "incrbyCommand c sv =
     Option.bind (getLongLongFromObjectOrReply c (Some (arg c sv 2)) None sv) (\<lambda>(incr, sv).
       case incr of None \<Rightarrow> Some sv | Some incr \<Rightarrow> incrDecrCommand c incr sv)"

text \<open>The negation of the smallest \<open>long long\<close> is itself.\<close>

definition decrbyCommand :: "cid \<Rightarrow> server \<Rightarrow> server option" where
  "decrbyCommand c sv =
     Option.bind (getLongLongFromObjectOrReply c (Some (arg c sv 2)) None sv) (\<lambda>(incr, sv).
       case incr of None \<Rightarrow> Some sv | Some incr \<Rightarrow> incrDecrCommand c (to_int64 (- incr)) sv)"

section \<open>APPEND and STRLEN\<close>

definition appendCommand :: "cid \<Rightarrow> server \<Rightarrow> server option" where
  "appendCommand c sv =
     (let i = cdb c sv; key = argv c sv 1; append' = argv c sv 2
      in Option.bind (lookupKeyWrite i key sv) (\<lambda>(ob, sv).
        Option.bind
          (case ob of
             None \<Rightarrow>
               Option.bind (tryObjectEncoding (sv_maxmemory sv) 1 (arg c sv 2)) (\<lambda>val.
               Option.bind (dbAdd i key val sv) (\<lambda>sv.
               Option.bind (stringObjectLen val) (\<lambda>totlen. Some (Some totlen, sv))))
           | Some ob \<Rightarrow>
               let (wrong, sv) = checkType c ob REDIS_STRING sv
               in if wrong then Some (None, sv)
                  else Option.bind (stringObjectLen ob) (\<lambda>len.
                    let (fits, sv) = checkStringLength c (int (len + length append')) sv
                    in if \<not> fits then Some (None, sv)
                       else Option.bind (unshare i key ob sv) (\<lambda>(ob, sv).
                         case o_ptr ob of
                           Sds s \<Rightarrow> Some (Some (length (s @ append')),
                                          store_object i key (ob\<lparr>o_ptr := Sds (s @ append')\<rparr>) sv)
                         | _ \<Rightarrow> None)))
          (\<lambda>(totlen, sv).
            case totlen of
              None \<Rightarrow> Some sv
            | Some totlen \<Rightarrow>
                Some (addReplyLongLong c (int totlen) (incr_dirty 1 (signalModifiedKey i key sv))))))"

definition strlenCommand :: "cid \<Rightarrow> server \<Rightarrow> server option" where
  "strlenCommand c sv =
     Option.bind (lookupKeyReadOrReply c (argv c sv 1) shared_czero sv) (\<lambda>(ob, sv).
       case ob of
         None \<Rightarrow> Some sv
       | Some ob \<Rightarrow>
           let (wrong, sv) = checkType c ob REDIS_STRING sv
           in if wrong then Some sv
              else Option.bind (stringObjectLen ob) (\<lambda>n. Some (addReplyLongLong c (int n) sv)))"

section \<open>Objects stored by the commands\<close>

lemma store_object_eq: "store_object = dbset"
  by (simp add: store_object_def dbset_def fun_eq_iff)

lemma dbset_dbset [simp]: "dbset i k v (dbset i k u sv) = dbset i k v sv"
  by (simp add: dbset_def upd_db_def) (rule arg_cong [of _ _ "\<lambda>f. sv\<lparr>sv_db := f\<rparr>"], auto simp: fun_eq_iff)

lemma try_arg:
  assumes "small s"
  obtains ob where "tryObjectEncoding mm 1 (createStringObject s) = Some ob" "robj_wf ob"
    "o_type ob = REDIS_STRING" "objval ob = s" "robj_small ob"
proof -
  obtain ob where ob: "tryObjectEncoding mm 1 (createStringObject s) = Some ob" "robj_wf ob"
    "o_type ob = REDIS_STRING" "objval ob = s"
    using tryObjectEncoding_props [of "createStringObject s" mm 1] by auto
  moreover have "robj_small ob"
    using ob(2,3)
  proof (cases rule: robj_wf_string)
    case (raw s')
    then show ?thesis using ob(4) assms by simp
  qed (simp add: robj_small_def)
  ultimately show thesis by (rule that)
qed

lemma entry_ok_try: "robj_wf ob \<Longrightarrow> robj_small ob \<Longrightarrow> small k \<Longrightarrow> entry_ok k ob"
  by (simp add: entry_ok_def)

lemma small_dec: "LLONG_MIN \<le> n \<Longrightarrow> n \<le> LLONG_MAX \<Longrightarrow> small (dec_int n)"
  using length_dec_int [of n] by (simp add: small_def)

lemma objval_small: "robj_wf ob \<Longrightarrow> o_type ob = REDIS_STRING \<Longrightarrow> robj_small ob \<Longrightarrow> small (objval ob)"
  by (erule (1) robj_wf_string) (auto simp: objval_def small_dec robj_small_def)

lemma unshare_eq:
  assumes "robj_wf ob" "o_type ob = REDIS_STRING" "rd_dict (sv_db sv i) k = Some ob"
  shows "\<exists>sv'. unshare i k ob sv = Some (createStringObject (objval ob), sv') \<and>
    (\<forall>v. dbset i k v sv' = dbset i k v sv) \<and> sv_client sv' = sv_client sv \<and> watchers sv' = watchers sv"
  using assms(1,2)
proof (cases rule: robj_wf_string)
  case (raw s)
  then show ?thesis by (simp add: unshare_def)
next
  case (num n)
  then show ?thesis using assms(3) getDecodedObject_props [OF assms(1,2)]
    by (simp add: unshare_def dupStringObject_def db_eqs fun_eq_iff)
qed

section \<open>Every command keeps the invariant\<close>

lemma set_aborts_eq:
  assumes "ks_wf sv"
  shows "set_aborts nx xx i k sv =
    Some ((nx \<and> visible i k sv \<noteq> None) \<or> (xx \<and> visible i k sv = None), if nx \<or> xx then evict i k sv else sv)"
proof -
  have e: "evict i k (evict i k sv) = evict i k sv" by (auto simp: evict_def stale_def)
  have v: "visible i k (evict i k sv) = visible i k sv" by (simp add: visible_evict)
  show ?thesis
    using assms by (auto simp: set_aborts_def db_eqs e v)
qed

lemma upd_dirty_client [simp]: "watchers (incr_dirty n sv) = watchers sv"
  by (simp add: fun_eq_iff)

lemma setGeneric_fine:
  assumes "ks_wf sv" "entry_ok key val" "\<And>e. expire = Some e \<Longrightarrow> \<exists>s. e = createStringObject s"
  shows "fine sv (setGenericCommand c nx xx key val expire secs r1 r2 sv)"
proof (cases expire)
  case None
  then show ?thesis using assms(1,2)
    by (simp add: setGenericCommand_def Let_def set_aborts_eq db_eqs)
next
  case (Some e)
  then obtain s where e: "e = createStringObject s" using assms(3) by blast
  show ?thesis
  proof (rule getLongLong_arg [of c s None sv])
    assume "getLongLongFromObjectOrReply c (Some (createStringObject s)) None sv =
      Some (None, addReplyString c (''-ERR '' @ cstr (case None of Some m \<Rightarrow> m | None \<Rightarrow> ''value is not an integer or out of range'') @ CRLF) sv)"
    then show ?thesis using assms(1) Some e by (simp add: setGenericCommand_def Let_def)
  next
    fix v assume "getLongLongFromObjectOrReply c (Some (createStringObject s)) None sv = Some (Some v, sv)"
    then show ?thesis using assms(1,2) Some e
      by (simp add: setGenericCommand_def Let_def set_aborts_eq db_eqs)
  qed
qed

lemma set_fine:
  assumes "ks_wf sv" "args_ok 3 c sv"
  shows "fine sv (setCommand c sv)"
proof (cases "set_options (drop 3 (c_argv (sv_client sv c))) False False None True")
  case None
  then show ?thesis using assms by (simp add: setCommand_def)
next
  case (Some r)
  obtain nx xx e secs where r: "r = (nx, xx, e, secs)" by (metis prod_cases4)
  have s: "small (argv c sv 1)" "small (argv c sv 2)" using args_okD [OF assms(2)] by simp_all
  obtain ob where ob: "tryObjectEncoding (sv_maxmemory sv) 1 (arg c sv 2) = Some ob" "robj_wf ob" "robj_small ob"
    by (rule try_arg [OF s(2), of "sv_maxmemory sv"])
  have "fine sv (setGenericCommand c nx xx (argv c sv 1) ob (map_option createStringObject e) secs None None sv)"
    by (rule setGeneric_fine [OF assms(1) entry_ok_try [OF ob(2,3) s(1)]]) auto
  then show ?thesis using Some r ob(1) by (simp add: setCommand_def)
qed

lemma setnx_fine:
  assumes "ks_wf sv" "args_ok 3 c sv"
  shows "fine sv (setnxCommand c sv)"
proof -
  have s: "small (argv c sv 1)" "small (argv c sv 2)" using args_okD [OF assms(2)] by simp_all
  obtain ob where ob: "tryObjectEncoding (sv_maxmemory sv) 1 (arg c sv 2) = Some ob" "robj_wf ob" "robj_small ob"
    by (rule try_arg [OF s(2), of "sv_maxmemory sv"])
  show ?thesis unfolding setnxCommand_def ob(1) Option.bind.bind_lunit
    by (rule setGeneric_fine [OF assms(1) entry_ok_try [OF ob(2,3) s(1)]]) simp
qed

lemma setex_fine:
  assumes "ks_wf sv" "args_ok 4 c sv"
  shows "fine sv (setexCommand c sv)" "fine sv (psetexCommand c sv)"
proof -
  have s: "small (argv c sv 1)" "small (argv c sv 3)" using args_okD [OF assms(2)] by simp_all
  obtain ob where ob: "tryObjectEncoding (sv_maxmemory sv) 1 (arg c sv 3) = Some ob" "robj_wf ob" "robj_small ob"
    by (rule try_arg [OF s(2), of "sv_maxmemory sv"])
  show "fine sv (setexCommand c sv)" unfolding setexCommand_def ob(1) Option.bind.bind_lunit
    by (rule setGeneric_fine [OF assms(1) entry_ok_try [OF ob(2,3) s(1)]]) auto
  show "fine sv (psetexCommand c sv)" unfolding psetexCommand_def ob(1) Option.bind.bind_lunit
    by (rule setGeneric_fine [OF assms(1) entry_ok_try [OF ob(2,3) s(1)]]) auto
qed

lemma getGeneric_eq:
  assumes "ks_wf sv" "key = argv c sv 1" "i = cdb c sv" "s1 = count_lookup (visible i key sv \<noteq> None) (evict i key sv)"
  shows "getGenericCommand c sv = Some (case visible i key sv of
      None \<Rightarrow> (True, addReplyString c shared_nullbulk s1)
    | Some ob \<Rightarrow> if o_type ob = REDIS_STRING then (True, addReplyString c (bulk (objval ob)) s1)
               else (False, addReplyString c shared_wrongtypeerr s1))"
  using assms visible_wf [OF assms(1), of i key]
  by (auto simp: getGenericCommand_def lookupKeyReadOrReply_def db_eqs addReplyBulk_props entry_ok_def
      split: option.split)

lemma get_fine: "ks_wf sv \<Longrightarrow> fine sv (getCommand c sv)"
  by (auto simp: getCommand_def getGeneric_eq [OF _ refl refl refl] split: option.split)

lemma getset_fine:
  assumes "ks_wf sv" "args_ok 3 c sv"
  shows "fine sv (getsetCommand c sv)"
proof -
  have s: "small (argv c sv 1)" "small (argv c sv 2)" using args_okD [OF assms(2)] by simp_all
  obtain ob where ob: "tryObjectEncoding (sv_maxmemory sv) 1 (arg c sv 2) = Some ob" "robj_wf ob" "robj_small ob"
    by (rule try_arg [OF s(2), of "sv_maxmemory sv"])
  show ?thesis using assms(1) ob entry_ok_try [OF ob(2,3) s(1)]
    by (auto simp: getsetCommand_def getGeneric_eq [OF _ refl refl refl] db_eqs split: option.split)
qed

lemma strlen_eq:
  assumes "ks_wf sv" "key = argv c sv 1" "i = cdb c sv" "s1 = count_lookup (visible i key sv \<noteq> None) (evict i key sv)"
  shows "strlenCommand c sv = Some (case visible i key sv of
      None \<Rightarrow> addReplyString c shared_czero s1
    | Some ob \<Rightarrow> if o_type ob = REDIS_STRING then addReplyLongLong c (int (length (objval ob))) s1
               else addReplyString c shared_wrongtypeerr s1)"
  using assms visible_wf [OF assms(1), of i key]
  by (auto simp: strlenCommand_def lookupKeyReadOrReply_def db_eqs checkType_def stringObjectLen_props entry_ok_def
      split: option.split)

lemma strlen_fine: "ks_wf sv \<Longrightarrow> fine sv (strlenCommand c sv)"
  by (auto simp: strlen_eq [OF _ refl refl refl] split: option.split)

lemma mget_fine:
  assumes "ks_wf sv"
  shows "fine sv (mgetCommand c sv)"
proof -
  have loop: "ks_wf s \<Longrightarrow> fine s (mget_loop c ks s)" for ks s
  proof (induction ks arbitrary: s)
    case (Cons k ks)
    define t where "t = (case visible (cdb c s) k s of None \<Rightarrow> shared_nullbulk
      | Some ob \<Rightarrow> if o_type ob = REDIS_STRING then bulk (objval ob) else shared_nullbulk)"
    let ?s = "addReplyString c t (count_lookup (visible (cdb c s) k s \<noteq> None) (evict (cdb c s) k s))"
    have "mget_loop c (k # ks) s = mget_loop c ks ?s"
      using Cons.prems visible_wf [OF Cons.prems, of "cdb c s" k]
      by (auto simp: db_eqs addReplyBulk_props entry_ok_def t_def split: option.split)
    moreover have "fine ?s (mget_loop c ks ?s)" using Cons.prems by (intro Cons.IH) simp
    ultimately show ?case
      using frame_trans [of s ?s] by (auto simp: ok_iff)
  qed simp
  have "ks_wf (addReplyMultiBulkLen c n sv)" "frame sv (addReplyMultiBulkLen c n sv)" for n
    using assms by (simp_all add: addReplyMultiBulkLen_def addReplyLongLongWithPrefix_def)
  then show ?thesis using loop frame_trans unfolding mgetCommand_def ok_iff by blast
qed

section \<open>SETRANGE and GETRANGE\<close>

text \<open>The string with \<open>val\<close> written at \<open>offset\<close>, padded with zero bytes.\<close>

definition splice :: "string \<Rightarrow> nat \<Rightarrow> string \<Rightarrow> string" where
  "splice s offset val = take offset (s @ replicate (offset - length s) NUL) @ val @ drop (offset + length val) s"

lemma memcpy_grown:
  "memcpy (s @ replicate (offset + length val - length s) NUL) offset val = splice s offset val"
proof -
  have "take offset (s @ replicate (offset + length val - length s) NUL) =
      take offset (s @ replicate (offset - length s) NUL)"
    by (rule nth_equalityI) (auto simp: nth_append)
  then show ?thesis by (simp add: memcpy_def splice_def)
qed

lemma length_splice: "length (splice s offset val) = max (length s) (offset + length val)"
  by (simp add: splice_def)

lemma createStringObject_upd [simp]:
  "(createStringObject s)\<lparr>o_ptr := Sds t\<rparr> = createStringObject t"
  by (simp add: createStringObject_def createObject_def)

lemma setrange_write_eq:
  assumes "val \<noteq> []" "offset + length val < 2 ^ 63" "i = cdb c sv" "key = argv c sv 1"
  shows "setrange_write c offset val (createStringObject s) sv =
    Some (addReplyLongLong c (int (length (splice s offset val)))
      (incr_dirty 1 (mark_all (watchers sv i key) (dbset i key (createStringObject (splice s offset val)) sv))))"
  using assms
  by (simp add: setrange_write_def grow_zero_def Let_def memcpy_grown store_object_eq signalModifiedKey_eq)

lemma number_cases:
  obtains (err) "getLongLongFromObject (Some (createStringObject s)) = Some None"
  | (num) v where "getLongLongFromObject (Some (createStringObject s)) = Some (Some v)"
    "LLONG_MIN \<le> v" "v \<le> LLONG_MAX"
  using getLongLong_total [of "createStringObject s"] by (metis createStringObject_simps(1,4) not_Some_eq)

lemma getLong_err:
  assumes "getLongLongFromObject (Some (createStringObject s)) = Some None"
  shows "getLongFromObjectOrReply c (Some (createStringObject s)) None sv =
    Some (None, addReplyString c (''-ERR '' @ cstr ''value is not an integer or out of range'' @ CRLF) sv)"
  using assms by (simp add: getLongFromObjectOrReply_def getLongLongFromObjectOrReply_def)

lemma getLong_num:
  assumes "getLongLongFromObject (Some (createStringObject s)) = Some (Some v)" "LLONG_MIN \<le> v" "v \<le> LLONG_MAX"
  shows "getLongFromObjectOrReply c (Some (createStringObject s)) None sv = Some (Some v, sv)"
proof -
  have "\<not> (v < LLONG_MIN \<or> LLONG_MAX < v)" using assms(2,3) by simp
  then show ?thesis using assms(1)
    by (simp add: getLongFromObjectOrReply_def getLongLongFromObjectOrReply_def)
qed

lemma getLong_arg:
  assumes "getLongLongFromObject (Some (createStringObject s)) = Some (Some v)"
  shows "getLongFromObjectOrReply c (Some (createStringObject s)) None sv = Some (Some v, sv)"
    "LLONG_MIN \<le> v" "v \<le> LLONG_MAX"
proof -
  show r: "LLONG_MIN \<le> v" "v \<le> LLONG_MAX"
    using getLongLong_total [of "createStringObject s"] assms by simp_all
  show "getLongFromObjectOrReply c (Some (createStringObject s)) None sv = Some (Some v, sv)"
    by (rule getLong_num [OF assms r])
qed

lemma addReplyLongLong_0: "addReplyLongLong c 0 sv = addReplyString c shared_czero sv"
  by (simp add: addReplyLongLong_def)

text \<open>The arguments of SETRANGE for which the sum of offset and length does not wrap.\<close>

definition setrange_benign :: "cid \<Rightarrow> server \<Rightarrow> bool" where
  "setrange_benign c sv \<longleftrightarrow>
     (\<forall>v. getLongLongFromObject (Some (arg c sv 2)) = Some (Some v) \<longrightarrow> v + int (length (argv c sv 3)) \<le> LLONG_MAX)"

lemma setrange_eq:
  assumes "ks_wf sv" "getLongLongFromObject (Some (arg c sv 2)) = Some (Some off)"
    and "0 \<le> off" "off + int (length val) \<le> LLONG_MAX"
    and "i = cdb c sv" "key = argv c sv 1" "val = argv c sv 3"
    and "visible i key sv = None \<or> (\<exists>ob. visible i key sv = Some ob \<and> o_type ob = REDIS_STRING)"
    and "old = (case visible i key sv of None \<Rightarrow> [] | Some ob \<Rightarrow> objval ob)"
  shows "setrangeCommand c sv = Some (
    if val = [] then addReplyLongLong c (int (length old)) (evict i key sv)
    else if 536870912 < off + int (length val)
    then addReplyError c ''string exceeds maximum allowed size (512MB)'' (evict i key sv)
    else addReplyLongLong c (int (length (splice old (nat off) val)))
      (incr_dirty 1 (mark_all (watchers sv i key) (dbset i key (createStringObject (splice old (nat off) val)) (evict i key sv)))))"
proof -
  have g: "getLongFromObjectOrReply c (Some (arg c sv 2)) None sv = Some (Some off, sv)"
    by (rule getLong_arg [OF assms(2)])
  have t: "to_int64 (off + int (length val)) = off + int (length val)" using assms(3,4) by simp
  have p63: "(2 :: nat) ^ 63 = 9223372036854775808" by simp
  have nl: "nat off + length val < 2 ^ 63" unfolding p63 using assms(3,4) by linarith
  have z: "(length val = 0) = (val = [])" by simp
  show ?thesis
  proof (cases "visible i key sv")
    case None
    have w: "setrange_write c (nat off) val (createObject REDIS_STRING (Sds [])) (dbset i key (createObject REDIS_STRING (Sds [])) (evict i key sv)) =
      Some (addReplyLongLong c (int (length (splice [] (nat off) val)))
        (incr_dirty 1 (mark_all (watchers sv i key) (dbset i key (createStringObject (splice [] (nat off) val)) (evict i key sv)))))"
      if "val \<noteq> []"
      using setrange_write_eq [OF that nl, where i = i and c = c and key = key and s = "[]"
          and sv = "dbset i key (createObject REDIS_STRING (Sds [])) (evict i key sv)"] assms(5,6)
      by (simp add: createStringObject_def)
    show ?thesis
      using assms(1,3,5,6,7,9) None g t w
      by (auto simp: setrangeCommand_def Let_def db_eqs checkStringLength_def z addReplyLongLong_0)
  next
    case (Some ob)
    with assms(8) have ty: "o_type ob = REDIS_STRING" by auto
    have e: "robj_wf ob" using visible_wf [OF assms(1) Some] by (simp add: entry_ok_def)
    obtain s' where u: "unshare i key ob (evict i key sv) = Some (createStringObject (objval ob), s')"
      "\<And>v. dbset i key v s' = dbset i key v (evict i key sv)" "sv_client s' = sv_client sv" "watchers s' = watchers sv"
      using unshare_eq [OF e ty, of "evict i key sv" i key] Some by (auto simp: fun_eq_iff)
    have w: "setrange_write c (nat off) val (createStringObject (objval ob)) s' =
      Some (addReplyLongLong c (int (length (splice old (nat off) val)))
        (incr_dirty 1 (mark_all (watchers sv i key) (dbset i key (createStringObject (splice old (nat off) val)) (evict i key sv)))))"
      if "val \<noteq> []"
      using setrange_write_eq [OF that nl, where i = i and c = c and key = key and s = "objval ob" and sv = s'] assms(5,6,9) Some u(2-4) by simp
    show ?thesis
      using assms(1,3,5,6,7,9) Some g t w ty u(1) stringObjectLen_props [OF e ty]
      by (auto simp: setrangeCommand_def Let_def db_eqs checkStringLength_def checkType_def z)
  qed
qed

lemma getrange_bounds_eq:
  assumes "n \<le> 536870912" "LLONG_MIN \<le> start" "start \<le> LLONG_MAX" "LLONG_MIN \<le> end'" "end' < 2 ^ 32"
  shows "getrange_bounds n start end' =
    (max 0 (if start < 0 then int n + start else start),
     min (max 0 (if end' < 0 then int n + end' else end')) (int n - 1))"
proof -
  have max0: "(if x < 0 then 0 else x) = max 0 x" for x :: int by simp
  define e where "e = max 0 (if end' < 0 then int n + end' else end')"
  have e: "0 \<le> e" "e < 2 ^ 32" using assms by (auto simp: e_def)
  then have m: "e mod 2 ^ 32 = e" by simp
  have i: "(if start < 0 then to_int64 (int n + start) else start) = (if start < 0 then int n + start else start)"
    using assms by simp
  have j: "(if end' < 0 then to_int64 (int n + end') else end') = (if end' < 0 then int n + end' else end')"
    using assms by simp
  have k: "to_int64 (int n - 1) = int n - 1" using assms by simp
  have "getrange_bounds n start end' =
    (max 0 (if start < 0 then int n + start else start), if int n \<le> e mod 2 ^ 32 then int n - 1 else e)"
    unfolding getrange_bounds_def Let_def max0 i j k e_def ..
  then show ?thesis unfolding m by (auto simp: e_def [symmetric])
qed

text \<open>The substring GETRANGE stands for: negative indices count from the end.\<close>

definition substr :: "string \<Rightarrow> int \<Rightarrow> int \<Rightarrow> string" where
  "substr s start end' =
     (let n = int (length s);
          a = max 0 (if start < 0 then n + start else start);
          b = min (max 0 (if end' < 0 then n + end' else end')) (n - 1)
      in if a > b then [] else take (nat (b - a + 1)) (drop (nat a) s))"

lemma bulk_Nil: "bulk [] = shared_emptybulk"
proof -
  have "dec_nat 0 = ''0''" by (simp add: dec_nat.simps)
  then show ?thesis by (simp add: bulk_def shared_emptybulk_def)
qed

lemma getrange_eq:
  assumes "ks_wf sv" "getLongLongFromObject (Some (arg c sv 2)) = Some (Some start)"
    and "getLongLongFromObject (Some (arg c sv 3)) = Some (Some end')" "end' < 2 ^ 32"
    and "i = cdb c sv" "key = argv c sv 1"
    and "visible i key sv = None \<or> (\<exists>ob. visible i key sv = Some ob \<and> o_type ob = REDIS_STRING)"
    and "old = (case visible i key sv of None \<Rightarrow> [] | Some ob \<Rightarrow> objval ob)"
  shows "getrangeCommand c sv =
    Some (addReplyString c (bulk (substr old start end')) (count_lookup (visible i key sv \<noteq> None) (evict i key sv)))"
proof -
  let ?s = "count_lookup (visible i key sv \<noteq> None) (evict i key sv)"
  have g2: "getLongFromObjectOrReply c (Some (arg c sv 2)) None sv = Some (Some start, sv)"
    "LLONG_MIN \<le> start" "start \<le> LLONG_MAX"
    by (rule getLong_arg [OF assms(2)])+
  have g3: "getLongFromObjectOrReply c (Some (arg c sv 3)) None sv = Some (Some end', sv)" "LLONG_MIN \<le> end'"
    by (rule getLong_arg [OF assms(3)])+
  show ?thesis
  proof (cases "visible i key sv")
    case None
    then have "substr old start end' = []" using assms(8) by (simp add: substr_def)
    then show ?thesis using None assms(1,5,6) g2(1) g3(1)
      by (simp add: getrangeCommand_def lookupKeyReadOrReply_def db_eqs bulk_Nil)
  next
    case (Some ob)
    with assms(7) have ty: "o_type ob = REDIS_STRING" by auto
    have e: "robj_wf ob" "robj_small ob" using visible_wf [OF assms(1) Some] by (simp_all add: entry_ok_def)
    have old: "old = objval ob" using assms(8) Some by simp
    have sm: "length old \<le> 536870912" using objval_small [OF e(1) ty e(2)] by (simp add: old small_def)
    have str: "(case o_ptr ob of
                 Long n \<Rightarrow> if o_encoding ob = ENC_INT then Some (snd (ll2string 32 n)) else None
               | Sds s \<Rightarrow> if o_encoding ob = ENC_RAW then Some s else None
               | _ \<Rightarrow> None) = Some old"
      using e(1) ty
    proof (cases rule: robj_wf_string)
      case (num n)
      then show ?thesis using ll2string_buf [OF num(3,4), of 32] by (simp add: old objval_def)
    qed (simp add: old)
    define a where "a = max 0 (if start < 0 then int (length old) + start else start)"
    define b where "b = min (max 0 (if end' < 0 then int (length old) + end' else end')) (int (length old) - 1)"
    have gb: "getrange_bounds (length old) start end' = (a, b)"
      unfolding a_def b_def by (rule getrange_bounds_eq [OF sm g2(2,3) g3(2) assms(4)])
    have sub: "substr old start end' = (if a > b then [] else take (nat (b - a + 1)) (drop (nat a) old))"
      by (simp add: substr_def Let_def a_def b_def)
    have run: "getrangeCommand c sv =
        (if a > b then Some (addReplyString c shared_emptybulk ?s)
         else addReplyBulkCBuffer c old (nat a) (nat (b - a + 1)) ?s)"
      using Some assms(1,5,6) g2(1) g3(1) ty
      by (simp add: getrangeCommand_def lookupKeyReadOrReply_def db_eqs checkType_def str gb)
    show ?thesis
    proof (cases "a > b")
      case True
      then show ?thesis by (simp add: run sub bulk_Nil)
    next
      case False
      have ab: "0 \<le> a" "b < int (length old)" by (simp_all add: a_def b_def)
      then have le: "nat a + nat (b - a + 1) \<le> length old" using False by linarith
      have sml: "small old" using sm by (simp add: small_def)
      show ?thesis using False by (simp add: run sub addReplyBulkCBuffer_props [OF le sml])
    qed
  qed
qed

text \<open>The arguments of GETRANGE for which the low 32 bits of \<open>end\<close> are \<open>end\<close>.\<close>

definition getrange_benign :: "cid \<Rightarrow> server \<Rightarrow> bool" where
  "getrange_benign c sv \<longleftrightarrow>
     (\<forall>v. getLongLongFromObject (Some (arg c sv 3)) = Some (Some v) \<longrightarrow> v < 2 ^ 32)"

lemma wrong_string_type:
  assumes "\<not> (visible i key sv = None \<or> (\<exists>ob. visible i key sv = Some ob \<and> o_type ob = REDIS_STRING))"
  obtains ob where "visible i key sv = Some ob" "o_type ob \<noteq> REDIS_STRING"
  using assms by auto

lemma setrange_fine:
  assumes "ks_wf sv" "args_ok 4 c sv" "setrange_benign c sv"
  shows "fine sv (setrangeCommand c sv)"
proof (cases rule: number_cases [of "argv c sv 2"])
  case err
  then show ?thesis using assms(1) getLong_err [OF err] by (simp add: setrangeCommand_def Let_def)
next
  case (num off)
  let ?i = "cdb c sv" and ?key = "argv c sv 1" and ?val = "argv c sv 3"
  note g = getLong_num [OF num]
  show ?thesis
  proof (cases "0 \<le> off")
    case False
    then show ?thesis using assms(1) g by (simp add: setrangeCommand_def Let_def)
  next
    case True
    show ?thesis
    proof (cases "visible ?i ?key sv = None \<or> (\<exists>ob. visible ?i ?key sv = Some ob \<and> o_type ob = REDIS_STRING)")
      case ok': True
      define old where "old = (case visible ?i ?key sv of None \<Rightarrow> [] | Some ob \<Rightarrow> objval ob)"
      have len: "off + int (length ?val) \<le> LLONG_MAX" using assms(3) num by (simp add: setrange_benign_def)
      have "length old \<le> 536870912"
      proof (cases "visible ?i ?key sv")
        case (Some ob)
        then show ?thesis using ok' visible_wf [OF assms(1) Some] objval_small [of ob]
          by (auto simp: old_def entry_ok_def small_def)
      qed (simp add: old_def)
      then have "small (splice old (nat off) ?val)" if "\<not> 536870912 < off + int (length ?val)"
        using that True unfolding small_def length_splice by linarith
      moreover have "small ?key" using args_okD [OF assms(2)] by simp
      ultimately show ?thesis
        unfolding setrange_eq [OF assms(1) num(1) True len refl refl refl ok' old_def]
        using assms(1) by auto
    next
      case False
      then obtain ob where "visible ?i ?key sv = Some ob" "o_type ob \<noteq> REDIS_STRING" by (rule wrong_string_type)
      then show ?thesis using assms(1) g True
        by (simp add: setrangeCommand_def Let_def db_eqs checkType_def)
    qed
  qed
qed

lemma getrange_fine:
  assumes "ks_wf sv" "args_ok 4 c sv" "getrange_benign c sv"
  shows "fine sv (getrangeCommand c sv)"
proof (cases rule: number_cases [of "argv c sv 2"])
  case err
  then show ?thesis using assms(1) getLong_err [OF err] by (simp add: getrangeCommand_def)
next
  case (num start)
  show ?thesis
  proof (cases rule: number_cases [of "argv c sv 3"])
    case err
    then show ?thesis using assms(1) getLong_err [OF err] getLong_num [OF num] by (simp add: getrangeCommand_def)
  next
    case n3: (num end')
    let ?i = "cdb c sv" and ?key = "argv c sv 1"
    have lt: "end' < 2 ^ 32" using assms(3) n3 by (simp add: getrange_benign_def)
    show ?thesis
    proof (cases "visible ?i ?key sv = None \<or> (\<exists>ob. visible ?i ?key sv = Some ob \<and> o_type ob = REDIS_STRING)")
      case True
      show ?thesis
        unfolding getrange_eq [OF assms(1) num(1) n3(1) lt refl refl True refl] using assms(1) by simp
    next
      case False
      then obtain ob where "visible ?i ?key sv = Some ob" "o_type ob \<noteq> REDIS_STRING" by (rule wrong_string_type)
      then show ?thesis using assms(1) getLong_num [OF num] getLong_num [OF n3]
        by (simp add: getrangeCommand_def lookupKeyReadOrReply_def db_eqs checkType_def)
    qed
  qed
qed

section \<open>Increments and APPEND\<close>

text \<open>The number a key holds for the increments: 0 without the key, an error for another string.\<close>

definition held_number :: "robj option \<Rightarrow> int option" where
  "held_number o' = (case getLongLongFromObject o' of Some r \<Rightarrow> r | None \<Rightarrow> None)"

definition overflows :: "int \<Rightarrow> int \<Rightarrow> bool" where
  "overflows old incr \<longleftrightarrow> old + incr < LLONG_MIN \<or> LLONG_MAX < old + incr"

lemma overflow_test:
  assumes "LLONG_MIN \<le> old" "old \<le> LLONG_MAX" "LLONG_MIN \<le> incr" "incr \<le> LLONG_MAX"
  shows "((incr < 0 \<and> old < 0 \<and> incr < LLONG_MIN - old) \<or> (0 < incr \<and> 0 < old \<and> LLONG_MAX - old < incr)) =
    overflows old incr"
  using assms by (auto simp: overflows_def)

lemma held_number_total:
  assumes "ks_wf sv" "visible i key sv = o'" "o' = None \<or> (\<exists>ob. o' = Some ob \<and> o_type ob = REDIS_STRING)"
  shows "getLongLongFromObject o' = Some (held_number o')"
    "held_number o' = Some v \<Longrightarrow> LLONG_MIN \<le> v \<and> v \<le> LLONG_MAX"
proof -
  have "getLongLongFromObject o' = Some (held_number o') \<and> (\<forall>v. held_number o' = Some v \<longrightarrow> LLONG_MIN \<le> v \<and> v \<le> LLONG_MAX)"
  proof (cases o')
    case None
    then show ?thesis by (simp add: held_number_def getLongLongFromObject_def)
  next
    case (Some ob)
    then have "robj_wf ob" "o_type ob = REDIS_STRING"
      using assms visible_wf [OF assms(1), of i key] by (auto simp: entry_ok_def)
    from getLongLong_total [OF this] Some show ?thesis by (auto simp: held_number_def)
  qed
  then show "getLongLongFromObject o' = Some (held_number o')"
    "held_number o' = Some v \<Longrightarrow> LLONG_MIN \<le> v \<and> v \<le> LLONG_MAX" by auto
qed

lemma addReplyInt:
  assumes "LLONG_MIN \<le> n" "n \<le> LLONG_MAX"
  shows "addReplyObject c (createStringObjectFromLongLong n) sv = Some (addReplyString c (dec_int n) sv)"
  using createStringObjectFromLongLong_simps [OF assms] ll2string_buf [OF assms, of 32]
  by (simp add: addReplyObject_def)

text \<open>Every branch of the increments.\<close>

lemma incrDecr_eq:
  assumes "ks_wf sv" "LLONG_MIN \<le> incr" "incr \<le> LLONG_MAX" "i = cdb c sv" "key = argv c sv 1"
    and "visible i key sv = o'" "o' = None \<or> (\<exists>ob. o' = Some ob \<and> o_type ob = REDIS_STRING)"
  shows "incrDecrCommand c incr sv = Some (case held_number o' of
      None \<Rightarrow> addReplyError c ''value is not an integer or out of range'' (evict i key sv)
    | Some old \<Rightarrow>
        if overflows old incr then addReplyError c ''increment or decrement would overflow'' (evict i key sv)
        else addReplyString c (intreply (old + incr))
               (incr_dirty 1 (mark_all (watchers sv i key)
                 (dbset i key (createStringObjectFromLongLong (old + incr)) (evict i key sv)))))"
proof -
  let ?s = "evict i key sv"
  note h = held_number_total [OF assms(1,6,7)]
  have ct: "(case o' of None \<Rightarrow> (False, ?s) | Some ob \<Rightarrow> checkType c ob REDIS_STRING ?s) = (False, ?s)"
    using assms(7) by (auto simp: checkType_def)
  show ?thesis
  proof (cases "held_number o'")
    case None
    then show ?thesis
      unfolding incrDecrCommand_def Let_def lookupKeyWrite_eq [OF assms(1)] Option.bind.bind_lunit prod.case
        assms(4,5) [symmetric] assms(6) ct
      by (simp add: getLongLongFromObjectOrReply_def h(1))
  next
    case (Some old)
    note r = h(2) [OF Some]
    note test = overflow_test [OF conjunct1 [OF r] conjunct2 [OF r] assms(2,3)]
    define new where "new = createStringObjectFromLongLong (to_int64 (old + incr))"
    define s1 where "s1 = incr_dirty 1 (mark_all (watchers sv i key) (dbset i key new ?s))"
    have sig: "incr_dirty 1 (signalModifiedKey i key (dbset i key new ?s)) = s1"
      by (simp add: signalModifiedKey_eq s1_def)
    have put: "(if o' \<noteq> None then dbOverwrite i key new ?s else dbAdd i key new ?s) = Some (dbset i key new ?s)"
      using assms(6) by (auto simp: db_eqs)
    have run: "incrDecrCommand c incr sv = (
      if overflows old incr then Some (addReplyError c ''increment or decrement would overflow'' ?s)
      else Option.bind (addReplyObject c new (addReply c '':'' s1)) (\<lambda>sv. Some (addReply c CRLF sv)))"
      unfolding incrDecrCommand_def Let_def lookupKeyWrite_eq [OF assms(1)] Option.bind.bind_lunit prod.case
        assms(4,5) [symmetric] assms(6) ct test new_def [symmetric]
      by (simp only: getLongLongFromObjectOrReply_def h(1) Some option.case if_False Option.bind.bind_lunit
          prod.case put sig test new_def [symmetric])
    show ?thesis
    proof (cases "overflows old incr")
      case True
      then show ?thesis by (simp add: run Some)
    next
      case False
      then have n: "LLONG_MIN \<le> old + incr" "old + incr \<le> LLONG_MAX" by (simp_all add: overflows_def)
      then have "new = createStringObjectFromLongLong (old + incr)" by (simp add: new_def)
      with False n show ?thesis by (simp add: run Some addReplyInt s1_def intreply_def)
    qed
  qed
qed

lemma incrDecr_wrongtype:
  assumes "ks_wf sv" "visible (cdb c sv) (argv c sv 1) sv = Some ob" "o_type ob \<noteq> REDIS_STRING"
  shows "incrDecrCommand c incr sv = Some (addReplyString c shared_wrongtypeerr (evict (cdb c sv) (argv c sv 1) sv))"
  using assms by (simp add: incrDecrCommand_def Let_def db_eqs checkType_def)

lemma entry_ok_number:
  assumes "LLONG_MIN \<le> n" "n \<le> LLONG_MAX" "small k"
  shows "entry_ok k (createStringObjectFromLongLong n)"
  using createStringObjectFromLongLong_simps [OF assms(1,2)] assms(3)
  by (simp add: entry_ok_def robj_small_def)

lemma incrDecr_fine:
  assumes "ks_wf sv" "args_ok 2 c sv" "LLONG_MIN \<le> incr" "incr \<le> LLONG_MAX"
  shows "fine sv (incrDecrCommand c incr sv)"
proof (cases "visible (cdb c sv) (argv c sv 1) sv = None \<or>
    (\<exists>ob. visible (cdb c sv) (argv c sv 1) sv = Some ob \<and> o_type ob = REDIS_STRING)")
  case True
  have "small (argv c sv 1)" using args_okD [OF assms(2)] by simp
  then show ?thesis
    unfolding incrDecr_eq [OF assms(1,3,4) refl refl refl True] using assms(1)
    by (auto simp: overflows_def entry_ok_number split: option.split)
next
  case False
  then obtain ob where "visible (cdb c sv) (argv c sv 1) sv = Some ob" "o_type ob \<noteq> REDIS_STRING"
    by (rule wrong_string_type)
  then show ?thesis using assms(1) by (simp add: incrDecr_wrongtype)
qed

lemma incrby_fine:
  assumes "ks_wf sv" "args_ok 3 c sv"
  shows "fine sv (incrbyCommand c sv)" "fine sv (decrbyCommand c sv)"
proof -
  have a: "args_ok 2 c sv" using assms(2) by (simp add: args_ok_def)
  show "fine sv (incrbyCommand c sv)"
  proof (cases rule: number_cases [of "argv c sv 2"])
    case err
    then show ?thesis using assms(1) by (simp add: incrbyCommand_def getLongLongFromObjectOrReply_def)
  next
    case (num v)
    then show ?thesis using incrDecr_fine [OF assms(1) a num(2,3)]
      by (simp add: incrbyCommand_def getLongLongFromObjectOrReply_def)
  qed
  show "fine sv (decrbyCommand c sv)"
  proof (cases rule: number_cases [of "argv c sv 2"])
    case err
    then show ?thesis using assms(1) by (simp add: decrbyCommand_def getLongLongFromObjectOrReply_def)
  next
    case (num v)
    then show ?thesis using incrDecr_fine [OF assms(1) a to_int64_range]
      by (simp add: decrbyCommand_def getLongLongFromObjectOrReply_def)
  qed
qed

lemma incr_fine:
  assumes "ks_wf sv" "args_ok 2 c sv"
  shows "fine sv (incrCommand c sv)" "fine sv (decrCommand c sv)"
  using incrDecr_fine [OF assms] by (simp_all add: incrCommand_def decrCommand_def)

lemma append_eq:
  assumes "ks_wf sv" "args_ok 3 c sv" "i = cdb c sv" "key = argv c sv 1" "val = argv c sv 2"
    and "visible i key sv = o'" "o' = None \<or> (\<exists>ob. o' = Some ob \<and> o_type ob = REDIS_STRING)"
    and "old = (case o' of None \<Rightarrow> [] | Some ob \<Rightarrow> objval ob)"
  shows "\<exists>new. robj_wf new \<and> o_type new = REDIS_STRING \<and> objval new = old @ val \<and>
    (length (old @ val) \<le> 536870912 \<longrightarrow> robj_small new) \<and>
    appendCommand c sv = Some (
      if 536870912 < length (old @ val)
      then addReplyError c ''string exceeds maximum allowed size (512MB)'' (evict i key sv)
      else addReplyLongLong c (int (length (old @ val)))
             (incr_dirty 1 (mark_all (watchers sv i key) (dbset i key new (evict i key sv)))))"
proof (cases o')
  case None
  have s: "small val" using args_okD [OF assms(2), of 2] assms(5) by simp
  obtain ob where ob: "tryObjectEncoding (sv_maxmemory sv) 1 (createStringObject val) = Some ob" "robj_wf ob"
    "o_type ob = REDIS_STRING" "objval ob = val" "robj_small ob"
    by (rule try_arg [OF s, of "sv_maxmemory sv"])
  have "\<not> 536870912 < length (old @ val)" using s None assms(8) by (simp add: small_def)
  then show ?thesis
    using None assms(1,3-6,8) ob stringObjectLen_props [OF ob(2,3)]
    by (intro exI [of _ ob]) (simp add: appendCommand_def Let_def db_eqs)
next
  case (Some ob)
  with assms(7) have ty: "o_type ob = REDIS_STRING" by auto
  have e: "robj_wf ob" using visible_wf [OF assms(1), of i key ob] assms(6) Some by (simp add: entry_ok_def)
  have old: "old = objval ob" using Some assms(8) by simp
  obtain s' where u: "unshare i key ob (evict i key sv) = Some (createStringObject (objval ob), s')"
    "\<And>v. dbset i key v s' = dbset i key v (evict i key sv)" "sv_client s' = sv_client sv" "watchers s' = watchers sv"
    using unshare_eq [OF e ty, of "evict i key sv" i key] Some assms(6) by (auto simp: fun_eq_iff)
  show ?thesis
    using Some assms(1,3-6) ty u stringObjectLen_props [OF e ty]
    by (intro exI [of _ "createStringObject (old @ val)"])
      (auto simp: appendCommand_def Let_def db_eqs checkType_def checkStringLength_def store_object_eq old small_def)
qed

lemma append_wrongtype:
  assumes "ks_wf sv" "visible (cdb c sv) (argv c sv 1) sv = Some ob" "o_type ob \<noteq> REDIS_STRING"
  shows "appendCommand c sv = Some (addReplyString c shared_wrongtypeerr (evict (cdb c sv) (argv c sv 1) sv))"
  using assms by (simp add: appendCommand_def Let_def db_eqs checkType_def)

lemma append_fine:
  assumes "ks_wf sv" "args_ok 3 c sv"
  shows "fine sv (appendCommand c sv)"
proof (cases "visible (cdb c sv) (argv c sv 1) sv = None \<or>
    (\<exists>ob. visible (cdb c sv) (argv c sv 1) sv = Some ob \<and> o_type ob = REDIS_STRING)")
  case True
  have "small (argv c sv 1)" using args_okD [OF assms(2)] by simp
  then show ?thesis
    using append_eq [OF assms refl refl refl refl True refl] assms(1)
    by (auto simp: entry_ok_def not_less)
next
  case False
  then obtain ob where "visible (cdb c sv) (argv c sv 1) sv = Some ob" "o_type ob \<noteq> REDIS_STRING"
    by (rule wrong_string_type)
  then show ?thesis using assms(1) by (simp add: append_wrongtype)
qed

section \<open>MSET and MSETNX\<close>

definition flat :: "(key \<times> string) list \<Rightarrow> string list" where
  "flat kvs = concat (map (\<lambda>(k, v). [k, v]) kvs)"

lemma flat_simps [simp]: "flat [] = []" "flat ((k, v) # kvs) = k # v # flat kvs"
  by (simp_all add: flat_def)

lemma length_flat [simp]: "length (flat kvs) = 2 * length kvs"
  by (induction kvs) auto

lemma flat_ex: "even (length xs) \<Longrightarrow> \<exists>kvs. xs = flat kvs"
proof (induction xs rule: induct_list012)
  case 1
  then show ?case using flat_simps(1) by metis
next
  case (3 k v xs)
  then obtain kvs where "xs = flat kvs" by auto
  then show ?case using flat_simps(2) by metis
qed simp

lemma visible_evict_same [simp]: "visible i k' (evict i k sv) = visible i k' sv"
  by (simp add: visible_evict)

lemma busy_loop_eq:
  assumes "ks_wf sv"
  shows "busy_loop i (flat kvs) n sv =
    Some (n + length (filter (\<lambda>(k, v). visible i k sv \<noteq> None) kvs), fold (evict i) (map fst kvs) sv)"
  using assms
proof (induction kvs arbitrary: n sv)
  case (Cons kv kvs)
  obtain k v where "kv = (k, v)" by fastforce
  with Cons show ?case by (simp add: lookupKeyWrite_eq)
qed simp

lemma visible_fold_evict [simp]: "visible i k' (fold (evict i) ks sv) = visible i k' sv"
  by (induction ks arbitrary: sv) simp_all

text \<open>The string at a key, and the keys and values after a run of assignments.\<close>

definition holds_string :: "server \<Rightarrow> nat \<Rightarrow> key \<Rightarrow> string \<Rightarrow> bool" where
  "holds_string sv i k s \<longleftrightarrow>
     (\<exists>ob. rd_dict (sv_db sv i) k = Some ob \<and> o_type ob = REDIS_STRING \<and> objval ob = s)"

lemma mset_loop_props:
  assumes "ks_wf sv" "\<forall>(k, v)\<in>set kvs. small k \<and> small v"
  shows "\<exists>sv'. mset_loop i (flat kvs) sv = Some sv' \<and> ks_wf sv' \<and> frame sv sv' \<and>
    (\<forall>k. case map_of (rev kvs) k of
           None \<Rightarrow> rd_dict (sv_db sv' i) k = rd_dict (sv_db sv i) k \<and> rd_expires (sv_db sv' i) k = rd_expires (sv_db sv i) k
         | Some v \<Rightarrow> holds_string sv' i k v \<and> rd_expires (sv_db sv' i) k = None) \<and>
    (\<forall>d. c_out (sv_client sv' d) = c_out (sv_client sv d) \<and> c_argv (sv_client sv' d) = c_argv (sv_client sv d))"
  using assms
proof (induction kvs arbitrary: sv)
  case Nil
  then show ?case by simp
next
  case (Cons kv kvs)
  obtain k v where kv: "kv = (k, v)" by fastforce
  have s: "small k" "small v" using Cons.prems(2) kv by auto
  obtain ob where ob: "tryObjectEncoding (sv_maxmemory sv) 1 (createStringObject v) = Some ob" "robj_wf ob"
    "o_type ob = REDIS_STRING" "objval ob = v" "robj_small ob"
    by (rule try_arg [OF s(2), of "sv_maxmemory sv"])
  let ?s = "keyset i k ob sv"
  have w: "ks_wf ?s" using Cons.prems(1) entry_ok_try [OF ob(2,5) s(1)] by simp
  have small: "\<forall>(k, v)\<in>set kvs. small k \<and> small v" using Cons.prems(2) by simp
  obtain sv' where sv': "mset_loop i (flat kvs) ?s = Some sv'" "ks_wf sv'" "frame ?s sv'"
    "\<And>k'. case map_of (rev kvs) k' of
           None \<Rightarrow> rd_dict (sv_db sv' i) k' = rd_dict (sv_db ?s i) k' \<and> rd_expires (sv_db sv' i) k' = rd_expires (sv_db ?s i) k'
         | Some v \<Rightarrow> holds_string sv' i k' v \<and> rd_expires (sv_db sv' i) k' = None"
    "\<And>d. c_out (sv_client sv' d) = c_out (sv_client ?s d) \<and> c_argv (sv_client sv' d) = c_argv (sv_client ?s d)"
    using Cons.IH [OF w small] by blast
  have "mset_loop i (flat (kv # kvs)) sv = Some sv'"
    using sv'(1) ob(1) Cons.prems(1) kv by (simp add: setKey_eq)
  moreover have "frame sv sv'" using sv'(3) frame_trans [of sv ?s sv'] by simp
  moreover have "case map_of (rev (kv # kvs)) k' of
           None \<Rightarrow> rd_dict (sv_db sv' i) k' = rd_dict (sv_db sv i) k' \<and> rd_expires (sv_db sv' i) k' = rd_expires (sv_db sv i) k'
         | Some v \<Rightarrow> holds_string sv' i k' v \<and> rd_expires (sv_db sv' i) k' = None" for k'
  proof (cases "map_of (rev kvs) k'")
    case None
    show ?thesis
    proof (cases "k' = k")
      case True
      then show ?thesis using None sv'(4) [of k'] ob kv by (simp add: holds_string_def map_add_def)
    next
      case False
      then show ?thesis using None sv'(4) [of k'] kv keyset_other [of i i k' k ob sv] by (simp add: map_add_def)
    qed
  next
    case (Some v')
    then show ?thesis using sv'(4) [of k'] kv by (simp add: map_add_def)
  qed
  ultimately show ?case using sv'(2,5) by auto
qed

lemma msetGeneric_eq:
  assumes "ks_wf sv" "c_argv (sv_client sv c) = cmd # flat kvs" "\<forall>(k, v)\<in>set kvs. small k \<and> small v" "i = cdb c sv"
    and "sv1 = (if nx then fold (evict i) (map fst kvs) sv else sv)"
  shows "\<exists>sv2. mset_loop i (flat kvs) sv1 = Some sv2 \<and>
    msetGenericCommand c nx sv = Some (
      if nx \<and> (\<exists>(k, v)\<in>set kvs. visible i k sv \<noteq> None) then addReplyString c shared_czero sv1
      else addReplyString c (if nx then shared_cone else shared_ok) (incr_dirty (int (length kvs)) sv2))"
proof -
  have w: "ks_wf sv1" using assms(1,5) by simp
  obtain sv2 where sv2: "mset_loop i (flat kvs) sv1 = Some sv2"
    "\<And>d. c_argv (sv_client sv2 d) = c_argv (sv_client sv1 d)"
    using mset_loop_props [OF w assms(3), of i] by blast
  have argc: "argc c sv2 = Suc (2 * length kvs)" "argc c sv = Suc (2 * length kvs)"
    using sv2(2) assms(2,5) by simp_all
  have f: "(filter (\<lambda>(k, v). visible i k sv \<noteq> None) kvs = []) = (\<not> (\<exists>(k, v)\<in>set kvs. visible i k sv \<noteq> None))"
    by (auto simp: filter_empty_conv)
  have b1: "(if nx then busy_loop i (flat kvs) 0 sv else Some (0, sv)) =
    Some (if nx then length (filter (\<lambda>(k, v). visible i k sv \<noteq> None) kvs) else 0, sv1)"
    using assms(5) by (simp add: busy_loop_eq [OF assms(1)])
  have b2: "drop 1 (c_argv (sv_client sv c)) = flat kvs" using assms(2) by simp
  have odd: "(argc c sv mod 2 = 0) = False" unfolding argc(2) by simp
  have run: "msetGenericCommand c nx sv =
    (if 0 < (if nx then length (filter (\<lambda>(k, v). visible i k sv \<noteq> None) kvs) else 0)
     then Some (addReply c shared_czero sv1)
     else Option.bind (mset_loop i (flat kvs) sv1) (\<lambda>sv.
          Some (addReply c (if nx then shared_cone else shared_ok) (incr_dirty (int ((argc c sv - 1) div 2)) sv))))"
    by (simp only: msetGenericCommand_def Let_def assms(4) [symmetric] odd if_False b2 b1 Option.bind.bind_lunit prod.case)
  define busy where "busy \<longleftrightarrow> nx \<and> (\<exists>(k, v)\<in>set kvs. visible i k sv \<noteq> None)"
  have cnd: "0 < (if nx then length (filter (\<lambda>(k, v). visible i k sv \<noteq> None) kvs) else 0) \<longleftrightarrow> busy"
    using f by (auto simp: busy_def)
  show ?thesis
    unfolding run sv2(1) Option.bind.bind_lunit argc(1) cnd busy_def [symmetric] by (cases busy) simp_all
qed

lemma mset_fine:
  assumes "ks_wf sv" "args_ok 1 c sv"
  shows "fine sv (msetGenericCommand c nx sv)"
proof (cases "even (argc c sv)")
  case True
  then show ?thesis using assms(1) by (simp add: msetGenericCommand_def Let_def)
next
  case False
  then obtain cmd rest where a: "c_argv (sv_client sv c) = cmd # rest" by (cases "c_argv (sv_client sv c)") auto
  then obtain kvs where k: "rest = flat kvs" using False flat_ex [of rest] by auto
  have mem: "(x, y) \<in> set l \<Longrightarrow> x \<in> set (flat l) \<and> y \<in> set (flat l)" for x y l
    by (induction l) auto
  have s: "\<forall>(x, y)\<in>set kvs. small x \<and> small y"
  proof clarify
    fix x y assume "(x, y) \<in> set kvs"
    then have "x \<in> set (c_argv (sv_client sv c)) \<and> y \<in> set (c_argv (sv_client sv c))"
      using mem [of x y kvs] a k by simp
    then show "small x \<and> small y" using assms(2) unfolding args_ok_def by blast
  qed
  define s1 where "s1 = (if nx then fold (evict (cdb c sv)) (map fst kvs) sv else sv)"
  define busy where "busy \<longleftrightarrow> nx \<and> (\<exists>(k, v)\<in>set kvs. visible (cdb c sv) k sv \<noteq> None)"
  obtain sv2 where sv2: "mset_loop (cdb c sv) (flat kvs) s1 = Some sv2"
    "msetGenericCommand c nx sv = Some (if busy then addReplyString c shared_czero s1
      else addReplyString c (if nx then shared_cone else shared_ok) (incr_dirty (int (length kvs)) sv2))"
    using msetGeneric_eq [OF assms(1) a [unfolded k] s refl s1_def]
    unfolding busy_def [symmetric] by blast
  have w: "ks_wf s1" "frame sv s1" using assms(1) by (simp_all add: s1_def)
  obtain sv2' where "mset_loop (cdb c sv) (flat kvs) s1 = Some sv2'" "ks_wf sv2'" "frame s1 sv2'"
    using mset_loop_props [OF w(1) s, of "cdb c sv"] by blast
  then have "ks_wf sv2" "frame sv sv2" using sv2(1) frame_trans [OF w(2)] by simp_all
  then show ?thesis using w by (simp add: sv2(2))
qed

section \<open>Where the checks of the arguments fall short\<close>

text \<open>
  GETRANGE compares the low 32 bits of \<open>end\<close> with the length: with \<open>2^32\<close> for \<open>end\<close> it reads four
  gigabytes from the address of a short string.
\<close>

theorem getrange_out_of_bounds:
  assumes "ks_wf sv" and "argv c sv 2 = ''0''" and "argv c sv 3 = ''4294967296''"
    and "visible (cdb c sv) (argv c sv 1) sv = Some (createStringObject s)" and "s \<noteq> []" and "small s"
  shows "getrangeCommand c sv = None"
proof -
  have n2: "getLongLongFromObject (Some (arg c sv 2)) = Some (Some 0)"
    unfolding getLongLong_accepts_lemma
    by (rule disjI2, rule exI [of _ "[]"], rule exI [of _ "''0''"])
      (simp add: assms(2) cstr_def isdigit_def code_def signed_value_def digits_value_def)
  have n3: "getLongLongFromObject (Some (arg c sv 3)) = Some (Some 4294967296)"
    unfolding getLongLong_accepts_lemma
    by (rule disjI2, rule exI [of _ "[]"], rule exI [of _ "''4294967296''"])
      (simp add: assms(3) cstr_def isdigit_def code_def signed_value_def digits_value_def)
  have gb: "getrange_bounds (length s) 0 4294967296 = (0, 4294967296)"
    using assms(5) by (simp add: getrange_bounds_def)
  have "addReplyBulkCBuffer c s 0 4294967297 t = None" for t
    using assms(6) by (simp add: addReplyBulkCBuffer_def small_def)
  then show ?thesis
    using assms(1,4) getLong_arg(1) [OF n2, of c sv] getLong_arg(1) [OF n3, of c sv]
    by (simp add: getrangeCommand_def lookupKeyReadOrReply_def db_eqs checkType_def gb)
qed

lemma to_int64_period: "to_int64 (x + 18446744073709551616) = to_int64 x"
proof -
  have "(x + M + h) mod M = (x + h) mod M" for M h :: int
    using mod_add_self2 [of "x + h" M] by (simp add: algebra_simps)
  from this [of "2 ^ 64" "2 ^ 63"] show ?thesis
    unfolding to_int64_def int_word_sint by simp
qed

text \<open>
  SETRANGE adds the offset and the length of the value before it tests the sum: with the largest
  offset the sum is negative, the test passes and the string is grown to more than \<open>2^63\<close> bytes,
  which aborts the program.
\<close>

theorem setrange_sum_wraps:
  assumes "ks_wf sv" and "argv c sv 2 = ''9223372036854775807''" and "argv c sv 3 \<noteq> []" and "small (argv c sv 3)"
    and "visible (cdb c sv) (argv c sv 1) sv = None"
  shows "setrangeCommand c sv = None"
proof -
  let ?val = "argv c sv 3"
  have n2: "getLongLongFromObject (Some (arg c sv 2)) = Some (Some LLONG_MAX)"
    unfolding getLongLong_accepts_lemma
    by (rule disjI2, rule exI [of _ "[]"], rule exI [of _ "''9223372036854775807''"])
      (simp add: assms(2) cstr_def isdigit_def code_def signed_value_def digits_value_def)
  define n where "n = int (length ?val)"
  have n: "0 < n" using assms(3) unfolding n_def by (metis length_greater_0_conv of_nat_0_less_iff)
  have n: "0 < n" "n \<le> 536870912" using n assms(4) by (simp_all add: n_def small_def)
  have "to_int64 (LLONG_MAX + n) = to_int64 ((n - 9223372036854775809) + 18446744073709551616)"
    by (rule arg_cong [of _ _ to_int64]) simp
  also have "\<dots> = to_int64 (n - 9223372036854775809)" by (rule to_int64_period)
  also have "\<dots> = n - 9223372036854775809" using n by simp
  finally have t: "to_int64 (LLONG_MAX + n) = n - 9223372036854775809" .
  have fits: "\<not> 536870912 < to_int64 (LLONG_MAX + n)" unfolding t using n by simp
  have "2 ^ 63 \<le> nat LLONG_MAX + length ?val" using assms(3) by (simp add: Suc_le_eq)
  then have g: "grow_zero [] (nat LLONG_MAX + length ?val) = None" by (simp add: grow_zero_def)
  have w: "setrange_write c (nat LLONG_MAX) ?val (createObject REDIS_STRING (Sds [])) t = None" for t
    using assms(3) g by (simp add: setrange_write_def createObject_def del: nat_numeral)
  show ?thesis
    using assms(1,3,5) getLong_arg(1) [OF n2, of c sv] fits w
    by (simp add: setrangeCommand_def Let_def db_eqs checkStringLength_def n_def del: nat_numeral)
qed

text \<open>
  DECRBY negates its argument before the overflow test: taking \<open>-2^63\<close> from a key that does not
  exist stores \<open>-2^63\<close>, the opposite of the true difference, instead of replying with an error.
\<close>

theorem decrby_negation_wraps:
  assumes "ks_wf sv" and "argv c sv 2 = ''-9223372036854775808''"
    and "visible (cdb c sv) (argv c sv 1) sv = None"
  shows "\<exists>sv'. decrbyCommand c sv = Some sv' \<and>
    rd_dict (sv_db sv' (cdb c sv)) (argv c sv 1) = Some (createStringObjectFromLongLong LLONG_MIN)"
proof -
  have n2: "getLongLongFromObject (Some (arg c sv 2)) = Some (Some LLONG_MIN)"
    unfolding getLongLong_accepts_lemma
    by (rule disjI2, rule exI [of _ "''-''"], rule exI [of _ "''9223372036854775808''"])
      (simp add: assms(2) cstr_def isdigit_def code_def signed_value_def digits_value_def)
  have neg: "to_int64 (- LLONG_MIN) = LLONG_MIN" by (simp add: to_int64_def)
  have h: "held_number None = Some 0" by (simp add: held_number_def getLongLongFromObject_def)
  have o: "\<not> overflows 0 LLONG_MIN" by (simp add: overflows_def)
  have r: "LLONG_MIN \<le> LLONG_MIN" "LLONG_MIN \<le> LLONG_MAX" by simp_all
  have run: "decrbyCommand c sv = incrDecrCommand c (to_int64 (- LLONG_MIN)) sv"
    using n2 by (simp add: decrbyCommand_def getLongLongFromObjectOrReply_def)
  show ?thesis
    unfolding run neg
    using incrDecr_eq [OF assms(1) r refl refl assms(3)] h o by simp
qed

text \<open>
  SETEX multiplies the seconds by 1000 without a check.  With 9223372036854776 seconds the
  deadline wraps to a negative time, which the lookups take for no deadline: the key never
  expires on access.
\<close>

theorem setex_deadline_wraps:
  assumes "ks_wf sv" and "args_ok 4 c sv" and "argv c sv 2 = ''9223372036854776''" and "0 \<le> sv_now sv" and "sv_now sv < 2 ^ 62"
  shows "\<exists>sv' w. setexCommand c sv = Some sv' \<and> rd_expires (sv_db sv' (cdb c sv)) (argv c sv 1) = Some w \<and>
    w < 0 \<and> (\<forall>t. visible (cdb c sv) (argv c sv 1) (sv'\<lparr>sv_now := t\<rparr>) \<noteq> None)"
proof -
  let ?i = "cdb c sv" and ?key = "argv c sv 1"
  have n2: "getLongLongFromObject (Some (arg c sv 2)) = Some (Some 9223372036854776)"
    unfolding getLongLong_accepts_lemma
    by (rule disjI2, rule exI [of _ "[]"], rule exI [of _ "''9223372036854776''"])
      (simp add: assms(3) cstr_def isdigit_def code_def signed_value_def digits_value_def)
  have s: "small (argv c sv 1)" "small (argv c sv 3)" using args_okD [OF assms(2)] by simp_all
  obtain ob where ob: "tryObjectEncoding (sv_maxmemory sv) 1 (arg c sv 3) = Some ob"
    by (rule try_arg [OF s(2), of "sv_maxmemory sv"])
  define ms where "ms = to_int64 (9223372036854776 * 1000)"
  have ms: "ms = - 9223372036854775616" by (simp add: ms_def to_int64_def)
  define w where "w = to_int64 (sv_now sv + ms)"
  have w: "w = sv_now sv - 9223372036854775616" "w < 0" using assms(4,5) by (simp_all add: w_def ms)
  have "setexCommand c sv = Some (addReplyString c shared_ok (expset ?i ?key w (incr_dirty 1 (keyset ?i ?key ob sv))))"
    using assms(1) ob n2
    by (simp add: setexCommand_def setGenericCommand_def Let_def getLongLongFromObjectOrReply_def set_aborts_eq
        setKey_eq setExpire_eq w_def ms_def)
  then show ?thesis using w(2) by (auto simp: visible_def stale_def)
qed

section \<open>Properties\<close>

text \<open>C8.
  What SET stores, GET returns: after SET with a key and a value, without options, every client
  of the same database gets exactly the value, whatever was stored under the key before and
  whatever encoding the value gets; the reply to SET is \<open>+OK\<close>, the key has no expire time, and
  the clients that watched it are marked.
\<close>

theorem set_get_roundtrip:
  assumes "ks_wf sv" and "args_ok 3 c sv" and "c_argv (sv_client sv c) = [cmd, key, val]"
    and "i = cdb c sv" and "receptive (sv_client sv c)"
  shows "\<exists>sv'. setCommand c sv = Some sv' \<and> ks_wf sv' \<and> frame sv sv' \<and>
    c_out (sv_client sv' c) = c_out (sv_client sv c) @ shared_ok \<and>
    rd_expires (sv_db sv' i) key = None \<and>
    (\<forall>d\<in>watchers sv i key. c_dirty_cas (sv_client sv' d)) \<and>
    (\<forall>d. cdb d sv' = i \<and> receptive (sv_client sv' d) \<longrightarrow>
      (\<exists>sv''. getCommand d (with_args d [''GET'', key] sv') = Some sv'' \<and>
         c_out (sv_client sv'' d) = c_out (sv_client sv' d) @ bulk val))"
proof -
  have a: "argv c sv 1 = key" "argv c sv 2 = val" using assms(3) by simp_all
  have s: "small key" "small val" using args_okD [OF assms(2)] a by force+
  obtain ob where ob: "tryObjectEncoding (sv_maxmemory sv) 1 (createStringObject val) = Some ob" "robj_wf ob"
    "o_type ob = REDIS_STRING" "objval ob = val" "robj_small ob"
    by (rule try_arg [OF s(2), of "sv_maxmemory sv"])
  define sv' where "sv' = addReplyString c shared_ok (incr_dirty 1 (keyset i key ob sv))"
  have run: "setCommand c sv = Some sv'"
    using assms(1,3,4) ob(1) a
    by (simp add: setCommand_def setGenericCommand_def Let_def set_aborts_eq setKey_eq sv'_def)
  have wf: "ks_wf sv'" using assms(1) entry_ok_try [OF ob(2,5) s(1)] by (simp add: sv'_def)
  have get: "\<exists>sv''. getCommand d (with_args d [''GET'', key] sv') = Some sv'' \<and>
      c_out (sv_client sv'' d) = c_out (sv_client sv' d) @ bulk val"
    if d: "cdb d sv' = i" "receptive (sv_client sv' d)" for d
  proof -
    let ?t = "with_args d [''GET'', key] sv'"
    have w: "ks_wf ?t" using wf by simp
    have v: "visible i key ?t = Some ob" by (simp add: visible_def stale_def sv'_def)
    show ?thesis using d ob v
      by (simp add: getCommand_def getGeneric_eq [OF w refl refl refl] c_out_addReply)
  qed
  have "c_out (sv_client sv' c) = c_out (sv_client sv c) @ shared_ok"
    using assms(5) by (simp add: sv'_def c_out_addReply)
  moreover have "c_dirty_cas (sv_client sv' d)" if "d \<in> watchers sv i key" for d
    using that by (auto simp: sv'_def addReplyString_def upd_client_def keyset_def)
  ultimately show ?thesis using run wf get by (simp add: sv'_def)
qed

theorem set_get_roundtrip_witness:
  "\<exists>sv'. setCommand 0 (example_server [''SET'', ''k'', ''12'']) = Some sv' \<and>
    c_out (sv_client sv' 0) = shared_ok \<and> rd_expires (sv_db sv' 0) ''k'' = None"
proof -
  let ?s = "example_server [''SET'', ''k'', ''12'']"
  have w: "ks_wf ?s" by simp
  have a: "args_ok 3 0 ?s" by (simp add: args_ok_def small_def)
  show ?thesis
    using set_get_roundtrip [OF w a, of "''SET''" "''k''" "''12''" 0] by auto
qed

text \<open>C10.
  INCR, DECR, INCRBY and DECRBY on every branch.  A key that holds a value of another type, a
  string that is not a number, or a sum outside the range of a \<open>long long\<close> gives an error
  reply and leaves every key and expire time as the lookup left them, uncounted.  Otherwise the
  key holds the decimal notation of the exact sum (a missing key counts as 0), keeps its expire
  time, and the reply is the sum.
\<close>

theorem incr_functional:
  assumes "ks_wf sv" and "args_ok 2 c sv" and "LLONG_MIN \<le> incr" and "incr \<le> LLONG_MAX"
    and "i = cdb c sv" and "key = argv c sv 1" and "visible i key sv = o'" and "receptive (sv_client sv c)"
  shows "\<exists>sv'. incrDecrCommand c incr sv = Some sv' \<and> ks_wf sv' \<and> frame sv sv' \<and>
    (if (\<exists>ob. o' = Some ob \<and> o_type ob \<noteq> REDIS_STRING) \<or> held_number o' = None \<or>
        LLONG_MAX < the (held_number o') + incr \<or> the (held_number o') + incr < LLONG_MIN
     then sv_db sv' = sv_db (evict i key sv) \<and> sv_dirty sv' = sv_dirty sv
     else holds_string sv' i key (dec_int (the (held_number o') + incr)) \<and>
       rd_expires (sv_db sv' i) key = rd_expires (sv_db (evict i key sv) i) key \<and>
       (\<forall>k. k \<noteq> key \<longrightarrow> rd_dict (sv_db sv' i) k = rd_dict (sv_db sv i) k) \<and>
       sv_dirty sv' = sv_dirty sv + 1 \<and>
       c_out (sv_client sv' c) = c_out (sv_client sv c) @ intreply (the (held_number o') + incr))"
proof (cases "o' = None \<or> (\<exists>ob. o' = Some ob \<and> o_type ob = REDIS_STRING)")
  case True
  note eq = incrDecr_eq [OF assms(1,3-7) True]
  have fine: "fine sv (incrDecrCommand c incr sv)" by (rule incrDecr_fine [OF assms(1-4)])
  have ty: "\<not> (\<exists>ob. o' = Some ob \<and> o_type ob \<noteq> REDIS_STRING)" using True by auto
  show ?thesis
  proof (cases "held_number o'")
    case None
    then show ?thesis using fine eq by simp
  next
    case (Some old)
    show ?thesis
    proof (cases "overflows old incr")
      case True
      then show ?thesis using fine eq Some by (auto simp: overflows_def)
    next
      case False
      then have n: "LLONG_MIN \<le> old + incr" "old + incr \<le> LLONG_MAX" by (simp_all add: overflows_def)
      note num = createStringObjectFromLongLong_simps [OF n]
      show ?thesis
        using fine eq Some False n ty num assms(8)
        by (auto simp: holds_string_def evict_other c_out_addReply)
    qed
  qed
next
  case False
  then obtain ob where ob: "o' = Some ob" "o_type ob \<noteq> REDIS_STRING" by auto
  then show ?thesis
    using incrDecr_wrongtype [OF assms(1), of c ob incr] incrDecr_fine [OF assms(1-4)] assms(5-7) by auto
qed

theorem incr_functional_witness:
  "\<exists>sv'. incrDecrCommand 0 5 (example_server [''INCRBY'', ''n'', ''5'']) = Some sv' \<and>
    holds_string sv' 0 ''n'' (dec_int 5)"
proof -
  let ?s = "example_server [''INCRBY'', ''n'', ''5'']"
  have w: "ks_wf ?s" by simp
  have a: "args_ok 2 0 ?s" by (simp add: args_ok_def small_def)
  have h: "held_number None = Some 0" by (simp add: held_number_def getLongLongFromObject_def)
  have v: "visible 0 ''n'' ?s = None" by (simp add: visible_def)
  show ?thesis
    using incr_functional [OF w a, of 5 0 "''n''" None] h v by auto
qed

text \<open>C30.
  GETRANGE returns the substring between the two indices, negative ones counted from the end
  and both clipped to the string, for every \<open>end\<close> below \<open>2^32\<close>; a missing key is the empty
  string, and nothing is read outside the string.
\<close>

theorem getrange_functional:
  assumes "ks_wf sv" and "getLongLongFromObject (Some (arg c sv 2)) = Some (Some start)"
    and "getLongLongFromObject (Some (arg c sv 3)) = Some (Some end')" and "end' < 2 ^ 32"
    and "i = cdb c sv" and "key = argv c sv 1"
    and "visible i key sv = None \<or> (\<exists>ob. visible i key sv = Some ob \<and> o_type ob = REDIS_STRING)"
    and "old = (case visible i key sv of None \<Rightarrow> [] | Some ob \<Rightarrow> objval ob)" and "receptive (sv_client sv c)"
  shows "\<exists>sv'. getrangeCommand c sv = Some sv' \<and> ks_wf sv' \<and> frame sv sv' \<and>
    c_out (sv_client sv' c) = c_out (sv_client sv c) @ bulk (substr old start end')"
  unfolding getrange_eq [OF assms(1-8)] using assms(1,9) by (simp add: c_out_addReply)

theorem getrange_functional_witness:
  "\<exists>sv'. getrangeCommand 0 (example_server [''GETRANGE'', ''a'', ''0'', ''-1'']) = Some sv' \<and>
    c_out (sv_client sv' 0) = bulk ''x''"
proof -
  let ?s = "example_server [''GETRANGE'', ''a'', ''0'', ''-1'']"
  have w: "ks_wf ?s" by simp
  have n2: "getLongLongFromObject (Some (arg 0 ?s 2)) = Some (Some 0)"
    unfolding getLongLong_accepts_lemma
    by (rule disjI2, rule exI [of _ "[]"], rule exI [of _ "''0''"])
      (simp add: cstr_def isdigit_def code_def signed_value_def digits_value_def)
  have n3: "getLongLongFromObject (Some (arg 0 ?s 3)) = Some (Some (-1))"
    unfolding getLongLong_accepts_lemma
    by (rule disjI2, rule exI [of _ "''-''"], rule exI [of _ "''1''"])
      (simp add: cstr_def isdigit_def code_def signed_value_def digits_value_def)
  have "substr ''x'' 0 (-1) = ''x''" by (simp add: substr_def)
  then show ?thesis
    using getrange_functional [OF w n2 n3, of 0 "''a''"] by (auto simp: example_visible)
qed

text \<open>
  APPEND writes the argument behind the string of the key (a missing key is the empty string),
  whatever its encoding, keeps the expire time, and replies with the new length; a result of
  more than 512 MB is refused and nothing changes.
\<close>

theorem append_functional:
  assumes "ks_wf sv" and "args_ok 3 c sv" and "i = cdb c sv" and "key = argv c sv 1" and "val = argv c sv 2"
    and "visible i key sv = o'" and "o' = None \<or> (\<exists>ob. o' = Some ob \<and> o_type ob = REDIS_STRING)"
    and "old = (case o' of None \<Rightarrow> [] | Some ob \<Rightarrow> objval ob)" and "receptive (sv_client sv c)"
  shows "\<exists>sv'. appendCommand c sv = Some sv' \<and> ks_wf sv' \<and> frame sv sv' \<and>
    (if 536870912 < length (old @ val) then sv_db sv' = sv_db (evict i key sv) \<and> sv_dirty sv' = sv_dirty sv
     else holds_string sv' i key (old @ val) \<and>
       rd_expires (sv_db sv' i) key = rd_expires (sv_db (evict i key sv) i) key \<and>
       (\<forall>k. k \<noteq> key \<longrightarrow> rd_dict (sv_db sv' i) k = rd_dict (sv_db sv i) k) \<and>
       c_out (sv_client sv' c) = c_out (sv_client sv c) @ intreply (int (length (old @ val))))"
proof -
  have fine: "fine sv (appendCommand c sv)" by (rule append_fine [OF assms(1,2)])
  obtain new where new: "o_type new = REDIS_STRING" "objval new = old @ val"
    "appendCommand c sv = Some (
      if 536870912 < length (old @ val)
      then addReplyError c ''string exceeds maximum allowed size (512MB)'' (evict i key sv)
      else addReplyLongLong c (int (length (old @ val)))
             (incr_dirty 1 (mark_all (watchers sv i key) (dbset i key new (evict i key sv)))))"
    using append_eq [OF assms(1-8)] by blast
  show ?thesis
  proof (cases "536870912 < length (old @ val)")
    case True
    then show ?thesis using fine new(3) by (simp del: length_append)
  next
    case False
    then have "addReplyLongLong c (int (length (old @ val))) s = addReplyString c (intreply (int (length (old @ val)))) s" for s
      by (intro addReplyLongLong_props) linarith+
    then show ?thesis using False fine new assms(9)
      by (simp add: holds_string_def evict_other c_out_addReply del: length_append)
  qed
qed

theorem append_functional_witness:
  "\<exists>sv'. appendCommand 0 (example_server [''APPEND'', ''a'', ''yz'']) = Some sv' \<and> holds_string sv' 0 ''a'' ''xyz''"
proof -
  let ?s = "example_server [''APPEND'', ''a'', ''yz'']"
  have w: "ks_wf ?s" by simp
  have a: "args_ok 3 0 ?s" by (simp add: args_ok_def small_def)
  show ?thesis
    using append_functional [OF w a, of 0 "''a''" "''yz''" "Some (createStringObject ''x'')" "''x''"]
    by (auto simp: example_visible)
qed

lemma fold_evict_dirty [simp]: "sv_dirty (fold (evict i) ks sv) = sv_dirty sv"
  by (induction ks arbitrary: sv) simp_all

lemma fold_evict_other: "k \<notin> set ks \<Longrightarrow> rd_dict (sv_db (fold (evict i) ks sv) i) k = rd_dict (sv_db sv i) k"
  by (induction ks arbitrary: sv) (simp_all add: evict_other)

lemma holds_string_reply [simp]:
  "holds_string (addReplyString c t (incr_dirty n sv)) i k v = holds_string sv i k v"
  by (simp add: holds_string_def)

lemma mset_loop_after_evict:
  assumes "ks_wf sv" "\<forall>(k, v)\<in>set kvs. small k \<and> small v"
    "mset_loop i (flat kvs) (fold (evict i) (map fst kvs) sv) = Some sv2"
  shows "ks_wf sv2" "frame sv sv2" "c_out (sv_client sv2 d) = c_out (sv_client sv d)"
    "case map_of (rev kvs) k of
         None \<Rightarrow> rd_dict (sv_db sv2 i) k = rd_dict (sv_db sv i) k
       | Some v \<Rightarrow> holds_string sv2 i k v \<and> rd_expires (sv_db sv2 i) k = None"
proof -
  have w: "ks_wf (fold (evict i) (map fst kvs) sv)" "frame sv (fold (evict i) (map fst kvs) sv)"
    using assms(1) by simp_all
  note p = mset_loop_props [OF w(1) assms(2), of i, unfolded assms(3) option.inject ex_simps simp_thms, THEN conjunct1]
    mset_loop_props [OF w(1) assms(2), of i, unfolded assms(3) option.inject ex_simps simp_thms, THEN conjunct2]
  show "ks_wf sv2" by (rule p(1))
  show "frame sv sv2" by (rule frame_trans [OF w(2) p(2) [THEN conjunct1]])
  show "c_out (sv_client sv2 d) = c_out (sv_client sv d)"
    using p(2) [THEN conjunct2, THEN conjunct2, rule_format, of d] by simp
  note q = p(2) [THEN conjunct2, THEN conjunct1, rule_format, of k]
  show "case map_of (rev kvs) k of
         None \<Rightarrow> rd_dict (sv_db sv2 i) k = rd_dict (sv_db sv i) k
       | Some v \<Rightarrow> holds_string sv2 i k v \<and> rd_expires (sv_db sv2 i) k = None"
  proof (cases "map_of (rev kvs) k")
    case None
    then have "k \<notin> set (map fst kvs)" by (simp add: map_of_eq_None_iff)
    with q None show ?thesis by (simp add: fold_evict_other)
  next
    case (Some v)
    with q show ?thesis by simp
  qed
qed

text \<open>C15.
  MSETNX is all or nothing.  If one of the keys exists (and has not expired) the reply is 0,
  nothing is set and no change is counted; otherwise every key holds the last value given for
  it, without an expire time, every other key is as it was, and the reply is 1.
\<close>

theorem msetnx_all_or_nothing:
  assumes "ks_wf sv" and "c_argv (sv_client sv c) = cmd # flat kvs" and "\<forall>(k, v)\<in>set kvs. small k \<and> small v"
    and "i = cdb c sv" and "receptive (sv_client sv c)"
  shows "\<exists>sv'. msetnxCommand c sv = Some sv' \<and> ks_wf sv' \<and> frame sv sv' \<and>
    (if \<exists>(k, v)\<in>set kvs. visible i k sv \<noteq> None
     then (\<forall>k. visible i k sv' = visible i k sv) \<and> sv_dirty sv' = sv_dirty sv \<and>
       c_out (sv_client sv' c) = c_out (sv_client sv c) @ shared_czero
     else (\<forall>k. case map_of (rev kvs) k of
         None \<Rightarrow> rd_dict (sv_db sv' i) k = rd_dict (sv_db sv i) k
       | Some v \<Rightarrow> holds_string sv' i k v \<and> rd_expires (sv_db sv' i) k = None) \<and>
       c_out (sv_client sv' c) = c_out (sv_client sv c) @ shared_cone)"
proof -
  define s1 where "s1 = fold (evict i) (map fst kvs) sv"
  define free where "free k sv' = (case map_of (rev kvs) k of
       None \<Rightarrow> rd_dict (sv_db sv' i) k = rd_dict (sv_db sv i) k
     | Some v \<Rightarrow> holds_string sv' i k v \<and> rd_expires (sv_db sv' i) k = None)" for k and sv' :: server
  define busy where "busy \<longleftrightarrow> (\<exists>(k, v)\<in>set kvs. visible i k sv \<noteq> None)"
  obtain sv2 where sv2: "mset_loop i (flat kvs) s1 = Some sv2"
    "msetGenericCommand c True sv = Some (if busy then addReplyString c shared_czero s1
      else addReplyString c shared_cone (incr_dirty (int (length kvs)) sv2))"
    using msetGeneric_eq [OF assms(1-4) refl, of True] unfolding busy_def [symmetric] if_True simp_thms s1_def [symmetric]
    by (elim exE conjE) (rule that)
  show ?thesis
    unfolding busy_def [symmetric] free_def [symmetric] msetnxCommand_def sv2(2)
  proof (cases busy)
    case True
    have "ks_wf s1" "frame sv s1" "sv_client s1 = sv_client sv" "sv_dirty s1 = sv_dirty sv" "visible i k s1 = visible i k sv" for k
      using assms(1) by (simp_all add: s1_def)
    then show "\<exists>sv'. Some (if busy then addReplyString c shared_czero s1
          else addReplyString c shared_cone (incr_dirty (int (length kvs)) sv2)) = Some sv' \<and> ks_wf sv' \<and> frame sv sv' \<and>
        (if busy then (\<forall>k. visible i k sv' = visible i k sv) \<and> sv_dirty sv' = sv_dirty sv \<and>
           c_out (sv_client sv' c) = c_out (sv_client sv c) @ shared_czero
         else (\<forall>k. free k sv') \<and> c_out (sv_client sv' c) = c_out (sv_client sv c) @ shared_cone)"
      using True assms(5) by (simp add: c_out_addReply)
  next
    case False
    note p = mset_loop_after_evict [OF assms(1,3) sv2(1) [unfolded s1_def]]
    have "c_fake (sv_client sv2 c) = c_fake (sv_client sv c)"
      "c_close_after_reply (sv_client sv2 c) = c_close_after_reply (sv_client sv c)"
      using frame_session [OF p(2), of c] by (simp_all only: same_session_def)
    moreover have "free k (addReplyString c shared_cone (incr_dirty n sv2))" for k n
      using p(4) [of k] unfolding free_def by (cases "map_of (rev kvs) k") simp_all
    ultimately show "\<exists>sv'. Some (if busy then addReplyString c shared_czero s1
          else addReplyString c shared_cone (incr_dirty (int (length kvs)) sv2)) = Some sv' \<and> ks_wf sv' \<and> frame sv sv' \<and>
        (if busy then (\<forall>k. visible i k sv' = visible i k sv) \<and> sv_dirty sv' = sv_dirty sv \<and>
           c_out (sv_client sv' c) = c_out (sv_client sv c) @ shared_czero
         else (\<forall>k. free k sv') \<and> c_out (sv_client sv' c) = c_out (sv_client sv c) @ shared_cone)"
      using False p(1-3) assms(5) by (simp add: c_out_addReply)
  qed
qed

theorem msetnx_all_or_nothing_witness:
  "\<exists>sv'. msetnxCommand 0 (example_server [''MSETNX'', ''b'', ''1'', ''a'', ''2'']) = Some sv' \<and>
    c_out (sv_client sv' 0) = shared_czero"
proof -
  let ?s = "example_server [''MSETNX'', ''b'', ''1'', ''a'', ''2'']"
  have w: "ks_wf ?s" by simp
  have f: "c_argv (sv_client ?s 0) = ''MSETNX'' # flat [(''b'', ''1''), (''a'', ''2'')]" by simp
  show ?thesis
    using msetnx_all_or_nothing [OF w f, of 0] by (auto simp: small_def example_visible)
qed

end
