(* ===== verification/Signal.thy ===== *)
theory Signal
  imports Tstring
begin

text \<open>
  Which changes of the keyspace reach the clients that watch a key.  \<open>signalled sv sv'\<close> says that
  between two states every key whose value changed has all its watchers marked, unless the key
  had already expired.  Every command of \<open>src/db.c\<close> and \<open>src/t_string.c\<close> has this property, with
  one exception: MOVE tells nobody.
\<close>

section \<open>Signalled changes\<close>

text \<open>A key that the next access removes.\<close>

definition dead :: "nat \<Rightarrow> key \<Rightarrow> server \<Rightarrow> bool" where
  "dead i k sv \<longleftrightarrow> stale i k sv \<and> \<not> sv_masterhost sv"

text \<open>The value changed, or a new expire time was set.  (Taking an expire time away alters nothing.)\<close>

definition altered :: "server \<Rightarrow> server \<Rightarrow> nat \<Rightarrow> key \<Rightarrow> bool" where
  "altered sv sv' i k \<longleftrightarrow>
     rd_dict (sv_db sv' i) k \<noteq> rd_dict (sv_db sv i) k \<or>
     (\<exists>w. rd_expires (sv_db sv' i) k = Some w \<and> rd_expires (sv_db sv i) k \<noteq> Some w)"

definition excused :: "server \<Rightarrow> server \<Rightarrow> nat \<Rightarrow> key \<Rightarrow> bool" where
  "excused sv sv' i k \<longleftrightarrow> dead i k sv \<or> (\<forall>d\<in>watchers sv i k. c_dirty_cas (sv_client sv' d))"

definition marks_kept :: "server \<Rightarrow> server \<Rightarrow> bool" where
  "marks_kept sv sv' \<longleftrightarrow>
     (\<forall>d. c_dirty_cas (sv_client sv d) \<longrightarrow> c_dirty_cas (sv_client sv' d)) \<and>
     sv_now sv' = sv_now sv \<and> sv_loading sv' = sv_loading sv \<and> sv_masterhost sv' = sv_masterhost sv"

text \<open>The keys of \<open>E\<close> are exempt: their watchers are still to be marked.\<close>

definition signalledx :: "(nat \<times> key) set \<Rightarrow> server \<Rightarrow> server \<Rightarrow> bool" where
  "signalledx E sv sv' \<longleftrightarrow>
     marks_kept sv sv' \<and> (\<forall>i k. (i, k) \<notin> E \<and> altered sv sv' i k \<longrightarrow> excused sv sv' i k)"

abbreviation signalled :: "server \<Rightarrow> server \<Rightarrow> bool" where
  "signalled \<equiv> signalledx {}"

lemma dead_simps [simp]:
  "dead i k (addReplyString c s sv) = dead i k sv" "dead i k (incr_dirty n sv) = dead i k sv"
  "dead i k (count_lookup h sv) = dead i k sv" "dead i k (mark_all S sv) = dead i k sv"
  by (simp_all add: dead_def)

lemma signalledx_refl [simp]: "signalledx E sv sv"
  by (simp add: signalledx_def marks_kept_def altered_def excused_def)

lemma signalledx_mono: "signalledx E sv sv' \<Longrightarrow> E \<subseteq> E' \<Longrightarrow> signalledx E' sv sv'"
  unfolding signalledx_def by blast

lemma excused_mono: "excused sv a i k \<Longrightarrow> marks_kept a b \<Longrightarrow> excused sv b i k"
  unfolding excused_def marks_kept_def by blast

lemma marks_kept_trans: "marks_kept a b \<Longrightarrow> marks_kept b c \<Longrightarrow> marks_kept a c"
  by (simp add: marks_kept_def)

lemma signalledx_step:
  assumes "signalledx E sv a" "marks_kept a b"
    and "\<And>i k. (i, k) \<notin> E' \<Longrightarrow> altered sv b i k \<Longrightarrow> (i, k) \<notin> E \<and> altered sv a i k \<or> excused sv b i k"
  shows "signalledx E' sv b"
  unfolding signalledx_def
proof (intro conjI allI impI)
  show "marks_kept sv b" using assms(1,2) marks_kept_trans by (auto simp: signalledx_def)
  fix i k assume "(i, k) \<notin> E' \<and> altered sv b i k"
  then have "(i, k) \<notin> E \<and> altered sv a i k \<or> excused sv b i k" using assms(3) by blast
  then show "excused sv b i k"
    using assms(1) excused_mono [OF _ assms(2)] unfolding signalledx_def by blast
qed

lemma c_dirty_cas_simps [simp]:
  "c_dirty_cas (sv_client (addReplyString c s sv) d) = c_dirty_cas (sv_client sv d)"
  by (simp add: addReplyString_def upd_client_def)

lemma signalledx_same:
  assumes "\<And>d. c_dirty_cas (sv_client sv2 d) = c_dirty_cas (sv_client sv1 d)"
    and "\<And>i. rd_dict (sv_db sv2 i) = rd_dict (sv_db sv1 i)" and "\<And>i. rd_expires (sv_db sv2 i) = rd_expires (sv_db sv1 i)"
    and "sv_now sv2 = sv_now sv1" "sv_loading sv2 = sv_loading sv1" "sv_masterhost sv2 = sv_masterhost sv1"
  shows "signalledx E sv sv2 = signalledx E sv sv1"
  by (simp add: signalledx_def marks_kept_def altered_def excused_def assms)

lemma signalledx_simps [simp]:
  "signalledx E sv (addReplyString c s sv') = signalledx E sv sv'"
  "signalledx E sv (incr_dirty n sv') = signalledx E sv sv'"
  "signalledx E sv (count_lookup h sv') = signalledx E sv sv'"
  "signalledx E sv (upd_client c (\<lambda>cl. cl\<lparr>c_argv := a, c_cmd := b\<rparr>) sv') = signalledx E sv sv'"
  by (rule signalledx_same; simp add: upd_client_def)+

lemma dead_before:
  assumes "dead i k b" "marks_kept a b"
  shows "dead i k a \<or> altered a b i k"
  using assms by (auto simp: dead_def stale_def altered_def marks_kept_def)

lemma altered_evict: "altered sv (evict i k sv') j k' \<Longrightarrow> altered sv sv' j k' \<or> (j, k') = (i, k) \<and> dead i k sv'"
proof (cases "dead i k sv'")
  case False
  then have "evict i k sv' = sv'" unfolding evict_def dead_def by (rule if_not_P)
  then show "altered sv (evict i k sv') j k' \<Longrightarrow> altered sv sv' j k' \<or> (j, k') = (i, k) \<and> dead i k sv'" by simp
next
  case True
  then show "altered sv (evict i k sv') j k' \<Longrightarrow> altered sv sv' j k' \<or> (j, k') = (i, k) \<and> dead i k sv'"
    using evict_other [of j i k' k sv'] by (cases "(j, k') = (i, k)") (auto simp: altered_def)
qed

lemma signalledx_evict [simp]:
  assumes "signalledx E sv sv'"
  shows "signalledx E sv (evict i k sv')"
proof (rule signalledx_step [OF assms])
  fix j k' assume a: "(j, k') \<notin> E" "altered sv (evict i k sv') j k'"
  have m: "marks_kept sv sv'" using assms by (simp add: signalledx_def)
  show "(j, k') \<notin> E \<and> altered sv sv' j k' \<or> excused sv (evict i k sv') j k'"
    using a(1) altered_evict [OF a(2)] dead_before [OF _ m, of j k'] by (auto simp: excused_def)
qed (simp add: marks_kept_def)

lemma altered_db:
  assumes "(j, k') \<noteq> (i, k)"
  shows "altered sv (dbset i k v sv') j k' = altered sv sv' j k'"
    "altered sv (dbrem i k sv') j k' = altered sv sv' j k'"
    "altered sv (expset i k w sv') j k' = altered sv sv' j k'"
proof -
  have d: "rd_dict (sv_db (dbset i k v sv') j) k' = rd_dict (sv_db sv' j) k'"
    "rd_dict (sv_db (dbrem i k sv') j) k' = rd_dict (sv_db sv' j) k'"
    "rd_expires (sv_db (dbrem i k sv') j) k' = rd_expires (sv_db sv' j) k'"
    "rd_expires (sv_db (expset i k w sv') j) k' = rd_expires (sv_db sv' j) k'"
    using assms by (cases "j = i"; simp)+
  have e: "rd_expires (sv_db (dbset i k v sv') j) = rd_expires (sv_db sv' j)"
    "rd_dict (sv_db (expset i k w sv') j) = rd_dict (sv_db sv' j)" by simp_all
  show "altered sv (dbset i k v sv') j k' = altered sv sv' j k'"
    "altered sv (dbrem i k sv') j k' = altered sv sv' j k'"
    "altered sv (expset i k w sv') j k' = altered sv sv' j k'"
    by (simp_all only: altered_def d e)
qed

lemma signalledx_db [simp]:
  "(i, k) \<in> E \<Longrightarrow> signalledx E sv sv' \<Longrightarrow> signalledx E sv (dbset i k v sv')"
  "(i, k) \<in> E \<Longrightarrow> signalledx E sv sv' \<Longrightarrow> signalledx E sv (dbrem i k sv')"
  "(i, k) \<in> E \<Longrightarrow> signalledx E sv sv' \<Longrightarrow> signalledx E sv (expset i k w sv')"
  "signalledx E sv sv' \<Longrightarrow> signalledx E sv (exprem i k sv')"
proof -
  assume s: "signalledx E sv sv'"
  { assume e: "(i, k) \<in> E"
    have ne: "(j, k') \<noteq> (i, k)" if "(j, k') \<notin> E" for j k' using that e by auto
    show "signalledx E sv (dbset i k v sv')"
      by (rule signalledx_step [OF s]) (use altered_db(1) [OF ne] in \<open>auto simp: marks_kept_def\<close>)
    show "signalledx E sv (dbrem i k sv')"
      by (rule signalledx_step [OF s]) (use altered_db(2) [OF ne] in \<open>auto simp: marks_kept_def\<close>)
    show "signalledx E sv (expset i k w sv')"
      by (rule signalledx_step [OF s]) (use altered_db(3) [OF ne] in \<open>auto simp: marks_kept_def\<close>) }
  have "altered sv (exprem i k sv') j k' \<Longrightarrow> altered sv sv' j k'" for j k'
    by (auto simp: altered_def split: if_splits)
  then show "signalledx E sv (exprem i k sv')"
    by (intro signalledx_step [OF s]) (auto simp: marks_kept_def)
qed

lemma signalledx_mark [simp]:
  assumes "signalledx (insert (i, k) E) sv sv'"
  shows "signalledx E sv (mark_all (watchers sv i k) sv')"
proof (rule signalledx_step [OF assms])
  fix j k' assume a: "(j, k') \<notin> E" "altered sv (mark_all (watchers sv i k) sv') j k'"
  show "(j, k') \<notin> insert (i, k) E \<and> altered sv sv' j k' \<or> excused sv (mark_all (watchers sv i k) sv') j k'"
  proof (cases "(j, k') = (i, k)")
    case True
    then show ?thesis by (simp add: excused_def)
  next
    case False
    then show ?thesis using a by (auto simp: altered_def)
  qed
qed (simp add: marks_kept_def)

lemma altered_trans: "altered a c i k \<Longrightarrow> altered a b i k \<or> altered b c i k"
  by (auto simp: altered_def)

lemma signalledx_trans:
  assumes "signalledx {} a b" "signalledx E b c" "frame a b"
  shows "signalledx E a c"
proof (rule signalledx_step [OF assms(1)])
  have w: "watchers b i k = watchers a i k" for i k
    by (simp only: watchers_def frame_server_proj(6) [OF assms(3)])
  show "marks_kept b c" using assms(2) by (simp add: signalledx_def)
  have m: "marks_kept a b" using assms(1) by (simp add: signalledx_def)
  fix i k assume x: "(i, k) \<notin> E" "altered a c i k"
  show "(i, k) \<notin> {} \<and> altered a b i k \<or> excused a c i k"
  proof (cases "altered b c i k")
    case True
    then have "excused b c i k" using assms(2) x(1) by (simp add: signalledx_def)
    then show ?thesis using dead_before [OF _ m, of i k] by (auto simp: excused_def w)
  next
    case False
    then show ?thesis using altered_trans [OF x(2)] by blast
  qed
qed

lemma signalledx_keyset [simp]:
  assumes "signalled sv sv'" "watchers sv' i k = watchers sv i k"
  shows "signalled sv (keyset i k v sv')"
  unfolding keyset_def assms(2)
  by (rule signalledx_mark) (use signalledx_mono [OF assms(1)] in simp)

lemma addReplyLongLong_signal [simp]:
  "signalledx E sv (addReplyLongLong c n sv') = signalledx E sv sv'"
  "signalledx E sv (addReplyMultiBulkLen c m sv') = signalledx E sv sv'"
  by (simp_all add: addReplyLongLong_def addReplyLongLongWithPrefix_def addReplyMultiBulkLen_def)

abbreviation signals :: "server \<Rightarrow> server option \<Rightarrow> bool" where
  "signals sv r \<equiv> ok r (signalled sv)"

section \<open>The commands of the keyspace\<close>

text \<open>Every client that watches a key is in the list of clients.\<close>

definition watchers_registered :: "server \<Rightarrow> bool" where
  "watchers_registered sv \<longleftrightarrow> (\<forall>i k. watchers sv i k \<subseteq> set (sv_clients sv))"

lemma flushed_signal:
  assumes "watch_wf sv" "watchers_registered sv" "dbid = -1 \<or> dbid = int i" "rd_dict (sv_db sv i) k \<noteq> None"
    and "d \<in> watchers sv i k"
  shows "d \<in> set (sv_clients sv) \<inter> flush_victims dbid sv"
proof -
  have "(k, i) \<in> set (c_watched (sv_client sv d))" using watch_wfD(3) [OF assms(1)] assms(5) by simp
  moreover have "flushed_watch dbid sv (k, i)" using assms(3,4) by (auto simp: flushed_watch_def)
  ultimately show ?thesis
    using assms(2,5) by (auto simp: watchers_registered_def flush_victims_def)
qed

lemma signalled_emptied:
  assumes "watch_wf sv" "watchers_registered sv" "\<And>i. i \<in> J \<Longrightarrow> dbid = -1 \<or> dbid = int i"
    and "\<And>i. rd_dict (sv_db sv' i) = (if i \<in> J then Map.empty else rd_dict (sv_db sv i))"
    and "\<And>i. rd_expires (sv_db sv' i) = (if i \<in> J then Map.empty else rd_expires (sv_db sv i))"
    and "sv_now sv' = sv_now sv" "sv_loading sv' = sv_loading sv" "sv_masterhost sv' = sv_masterhost sv"
    and "\<And>d. c_dirty_cas (sv_client sv' d) \<longleftrightarrow>
      d \<in> set (sv_clients sv) \<inter> flush_victims dbid sv \<or> c_dirty_cas (sv_client sv d)"
  shows "signalled sv sv'"
proof (rule signalledx_step [OF signalledx_refl])
  show "marks_kept sv sv'" using assms(6-9) by (simp add: marks_kept_def)
  fix i k assume a: "altered sv sv' i k"
  show "(i, k) \<notin> {} \<and> altered sv sv i k \<or> excused sv sv' i k"
  proof (cases "i \<in> J \<and> rd_dict (sv_db sv i) k \<noteq> None")
    case True
    then show ?thesis
      using flushed_signal [OF assms(1,2) assms(3)] assms(9) by (fastforce simp: excused_def)
  next
    case False
    then show ?thesis using a assms(4,5) [of i] by (auto simp: altered_def split: if_splits)
  qed
qed

lemma flushdb_signals:
  assumes "watch_wf sv" "watchers_registered sv"
  shows "signals sv (flushdbCommand c sv)"
proof -
  have "flush_victims dbid (incr_dirty n sv) = flush_victims dbid sv" "sv_clients (incr_dirty n sv) = sv_clients sv" for dbid n
    by (simp_all add: flush_victims_def flushed_watch_def incr_dirty_def)
  then show ?thesis
    unfolding flushdbCommand_def Let_def ok_simps signalFlushedDb_def touchWatchedKeysOnFlush_eq
    by (intro signalled_emptied [OF assms, where J = "{cdb c sv}" and dbid = "int (cdb c sv)"])
      (auto simp: upd_db_def empty_db_def)
qed

lemma fold_empty_db:
  "rd_dict (sv_db (fold (\<lambda>j. upd_db j empty_db) js sv) i) = (if i \<in> set js then Map.empty else rd_dict (sv_db sv i))"
  "rd_expires (sv_db (fold (\<lambda>j. upd_db j empty_db) js sv) i) = (if i \<in> set js then Map.empty else rd_expires (sv_db sv i))"
  "sv_client (fold (\<lambda>j. upd_db j empty_db) js sv) = sv_client sv"
  by (induction js arbitrary: sv) (auto simp: upd_db_def empty_db_def)

lemma fold_empty_config:
  "sv_now (fold (\<lambda>j. upd_db j empty_db) js sv) = sv_now sv"
  "sv_loading (fold (\<lambda>j. upd_db j empty_db) js sv) = sv_loading sv"
  "sv_masterhost (fold (\<lambda>j. upd_db j empty_db) js sv) = sv_masterhost sv"
  by (induction js arbitrary: sv) (auto simp: upd_db_def empty_db_def)

lemma rdbSave_same:
  "sv_db (rdbSave sv) = sv_db sv" "sv_client (rdbSave sv) = sv_client sv" "sv_now (rdbSave sv) = sv_now sv"
  "sv_loading (rdbSave sv) = sv_loading sv" "sv_masterhost (rdbSave sv) = sv_masterhost sv"
  by (simp_all add: rdbSave_def)

lemma flushall_signals:
  assumes "watch_wf sv" "watchers_registered sv"
  shows "signals sv (flushallCommand c sv)"
  unfolding flushallCommand_def Let_def emptyDb_eq prod.case ok_simps signalFlushedDb_def touchWatchedKeysOnFlush_eq
  by (rule signalled_emptied [OF assms, where J = "{..<sv_dbnum sv}" and dbid = "-1"])
    (auto simp: rdbSave_same fold_empty_db fold_empty_config mark_all_def [of _ sv])

lemma del_signals:
  assumes "ks_wf sv"
  shows "signals sv (delCommand c sv)"
proof -
  have "ks_wf s \<and> signalled sv s \<and> watchers s = watchers sv \<Longrightarrow>
    signalled sv (snd (fold (\<lambda>key (deleted, s).
        let (ok, s1) = dbDelete (cdb c s) key s
        in if ok then (deleted + 1, incr_dirty 1 (signalModifiedKey (cdb c s) key s1)) else (deleted, s1)) ks (n, s)))"
    for n :: int and s ks
  proof (induction ks arbitrary: s n)
    case (Cons k ks)
    let ?i = "cdb c s"
    have m: "signalledx {(?i, k)} sv s" using Cons.prems signalledx_mono by blast
    show ?case
    proof (cases "rd_dict (sv_db s ?i) k = None")
      case True
      then have "rd_expires (sv_db s ?i) k = None" using Cons.prems ks_wfD(2) by blast
      then have "rd_dict (sv_db (dbrem ?i k s) j) = rd_dict (sv_db s j)" "rd_expires (sv_db (dbrem ?i k s) j) = rd_expires (sv_db s j)" for j
        using True by (auto simp: fun_eq_iff)
      then have "signalled sv (dbrem ?i k s) = signalled sv s"
        by (intro signalledx_same) simp_all
      moreover have "watchers (dbrem ?i k s) = watchers s" by (simp add: fun_eq_iff)
      ultimately show ?thesis using Cons True by (simp add: dbDelete_eq Let_def)
    next
      case False
      let ?s = "incr_dirty 1 (mark_all (watchers sv ?i k) (dbrem ?i k s))"
      have "signalled sv ?s" using m by simp
      moreover have "watchers ?s = watchers sv" using Cons.prems by (simp add: fun_eq_iff)
      ultimately show ?thesis using Cons False by (simp add: dbDelete_eq Let_def signalModifiedKey_eq)
    qed
  qed simp
  from this [of sv "drop 1 (c_argv (sv_client sv c))" 0] assms
  show ?thesis by (auto simp: delCommand_def Let_def split: prod.split)
qed

lemma exists_signals: "ks_wf sv \<Longrightarrow> signals sv (existsCommand c sv)"
  by (simp add: existsCommand_def db_eqs)

lemma type_signals: "ks_wf sv \<Longrightarrow> signals sv (typeCommand c sv)"
  by (simp add: typeCommand_def db_eqs)

lemma count_signals: "signals sv (dbsizeCommand c sv)" "signals sv (lastsaveCommand c sv)"
  by (simp_all add: dbsizeCommand_def lastsaveCommand_def)

lemma persist_signals: "ks_wf sv \<Longrightarrow> signals sv (persistCommand c sv)"
  by (simp add: persistCommand_def Let_def db_eqs)

lemma ttl_signals: "ks_wf sv \<Longrightarrow> signals sv (ttlGenericCommand c ms sv)"
  by (simp add: ttlGenericCommand_def Let_def db_eqs)

lemma signalledx_mark2 [simp]:
  assumes "signalledx (insert (i, k) (insert (i, k') E)) sv sv'"
  shows "signalledx E sv (mark_all (watchers sv i k \<union> watchers sv i k') sv')"
  using signalledx_mark [OF signalledx_mark [OF assms]] by (simp add: Un_commute)

lemma rename_signals:
  assumes "ks_wf sv"
  shows "signals sv (renameGenericCommand c nx sv)"
proof (cases "argv c sv 1 = argv c sv 2")
  case True
  with assms show ?thesis by (simp add: renameGenericCommand_def Let_def)
next
  case False
  show ?thesis
  proof (cases "visible (cdb c sv) (argv c sv 1) sv")
    case None
    with False assms show ?thesis
      by (simp add: renameGenericCommand_def Let_def lookupKeyWriteOrReply_def db_eqs)
  next
    case (Some ob)
    show ?thesis
    proof (cases "nx \<and> visible (cdb c sv) (argv c sv 2) sv \<noteq> None")
      case True
      have v: "visible (cdb c sv) (argv c sv 2) (evict (cdb c sv) (argv c sv 1) sv) \<noteq> None" using True by simp
      show ?thesis using False assms Some True v
        by (auto simp: renameGenericCommand_def Let_def lookupKeyWriteOrReply_def db_eqs)
    next
      case f: False
      have "signalled sv (renamed (cdb c sv) (argv c sv 1) (argv c sv 2) ob sv)"
        by (auto simp: renamed_def Let_def)
      then show ?thesis using rename_eq [OF assms False Some, of nx] f by auto
    qed
  qed
qed

lemma expire_signals:
  assumes "ks_wf sv"
  shows "signals sv (expireGenericCommand c base secs sv)"
proof (cases rule: number_cases [of "argv c sv 2"])
  case err
  then show ?thesis by (simp add: expireGenericCommand_def Let_def getLongLongFromObjectOrReply_def)
next
  case (num v)
  show ?thesis
  proof (cases "visible (cdb c sv) (argv c sv 1) sv")
    case None
    then show ?thesis using assms num
      by (simp add: expireGenericCommand_def Let_def getLongLongFromObjectOrReply_def db_eqs)
  next
    case (Some ob)
    show ?thesis unfolding expire_eq [OF assms num(1) refl Some refl refl] by (simp split: if_split)
  qed
qed

section \<open>RANDOMKEY and KEYS\<close>

lemma signals_trans: "signalled sv s \<Longrightarrow> frame sv s \<Longrightarrow> ok r (signalledx E s) \<Longrightarrow> ok r (signalledx E sv)"
  using signalledx_trans by (auto simp: ok_iff)

lemma randomkey_signals:
  assumes "dbRandomKey i n sv = Some (Some (k, sv'))" "ks_wf sv"
  shows "signalled sv sv' \<and> ks_wf sv' \<and> frame sv sv'"
proof -
  define P where "P = (\<lambda>(i :: nat) (n :: nat) sv (r :: (key option \<times> server) option).
    ks_wf sv \<longrightarrow> (\<forall>k sv'. r = Some (k, sv') \<longrightarrow> signalled sv sv' \<and> ks_wf sv' \<and> frame sv sv'))"
  have "P i n sv (Some (k, sv'))"
  proof (rule dbRandomKey.raw_induct [where P = P, OF _ assms(1)])
    fix f i n sv r
    assume ih: "\<And>i n sv r. f i n sv = Some r \<Longrightarrow> P i n sv r"
      and body: "(if rd_dict (sv_db sv i) = Map.empty then Some (Some (None, sv))
        else let key = sv_rnd sv (rd_dict (sv_db sv i)) n
             in if rd_expires (sv_db sv i) key = None then Some (Some (Some key, sv))
                else case expireIfNeeded i key sv of None \<Rightarrow> Some None
                     | Some (expired, sv1) \<Rightarrow> if expired then f i (n + 1) sv1 else Some (Some (Some key, sv1))) = Some r"
    show "P i n sv r"
      unfolding P_def
    proof (intro impI allI)
      fix k sv' assume w: "ks_wf sv" and r: "r = Some (k, sv')"
      define key where "key = sv_rnd sv (rd_dict (sv_db sv i)) n"
      show "signalled sv sv' \<and> ks_wf sv' \<and> frame sv sv'"
      proof (cases "rd_dict (sv_db sv i) = Map.empty \<or> rd_expires (sv_db sv i) key = None")
        case True
        then have "sv' = sv" using body r by (auto simp: key_def Let_def split: if_splits)
        then show ?thesis using w by simp
      next
        case False
        have ne: "rd_dict (sv_db sv i) \<noteq> Map.empty" "rd_expires (sv_db sv i) key \<noteq> None" using False by simp_all
        have e: "expireIfNeeded i key sv = Some (stale i key sv, evict i key sv)" by (rule expireIfNeeded_eq [OF w])
        have b: "(if stale i key sv then f i (n + 1) (evict i key sv) else Some (Some (Some key, evict i key sv))) = Some r"
          using body ne by (simp add: key_def [symmetric] Let_def e)
        show ?thesis
        proof (cases "stale i key sv")
          case True
          then have "P i (n + 1) (evict i key sv) r" using b ih by simp
          then have "signalled (evict i key sv) sv' \<and> ks_wf sv' \<and> frame (evict i key sv) sv'"
            using w r by (simp add: P_def)
          then show ?thesis using signalledx_trans [of sv "evict i key sv"] frame_trans [of sv "evict i key sv"] by simp
        next
          case st: False
          then show ?thesis using b r w by auto
        qed
      qed
    qed
  qed
  then show ?thesis using assms(2) by (simp add: P_def)
qed

lemma randomkey_command_signals:
  assumes "randomkeyCommand c sv = Some sv'" "ks_wf sv"
  shows "signalled sv sv' \<and> ks_wf sv' \<and> frame sv sv'"
proof -
  obtain k s where r: "dbRandomKey (cdb c sv) 0 sv = Some (Some (k, s))"
    using assms(1) by (auto simp: randomkeyCommand_def split: option.splits prod.splits)
  have s: "signalled sv s \<and> ks_wf s \<and> frame sv s" by (rule randomkey_signals [OF r assms(2)])
  show ?thesis
  proof (cases k)
    case None
    then show ?thesis using assms(1) r s by (auto simp: randomkeyCommand_def)
  next
    case (Some key)
    then have "addReplyBulk c (createStringObject key) s = Some sv'" using assms(1) r by (simp add: randomkeyCommand_def)
    then show ?thesis
      using s by (auto simp: addReplyBulk_def addReplyBulkLen_def addReplyObject_def addReplyLongLongWithPrefix_def
          split: option.splits optr.splits if_splits Option.bind_splits)
  qed
qed

lemma addReplyBulk_some:
  "addReplyBulk c (createStringObject k) sv =
    Some (addReplyString c (CHR ''$'' # snd (ll2string 127 (int (length k))) @ CRLF @ k @ CRLF) sv)"
  by (simp add: addReplyBulk_def addReplyBulkLen_def addReplyObject_def addReplyLongLongWithPrefix_def
      createStringObject_def createObject_def)

lemma keys_loop_signals:
  assumes "keys_loop c pattern all ks n sv = Some (m, sv')" "ks_wf sv"
  shows "signalled sv sv' \<and> ks_wf sv' \<and> frame sv sv'"
  using assms
proof (induction ks arbitrary: n sv)
  case (Cons k ks)
  let ?m = "if all then Some True
        else stringmatchlen (pattern @ [NUL]) 0 (int (length pattern)) (k @ [NUL]) 0 (int (length k)) False"
  obtain b where b: "?m = Some b" using Cons.prems(1) by (cases ?m) auto
  let ?e = "evict (cdb c sv) k sv"
  have e: "expireIfNeeded (cdb c sv) k sv = Some (stale (cdb c sv) k sv, ?e)"
    by (rule expireIfNeeded_eq [OF Cons.prems(2)])
  define s where "s = (if \<not> b then sv else if stale (cdb c sv) k sv then ?e
    else addReplyString c (CHR ''$'' # snd (ll2string 127 (int (length k))) @ CRLF @ k @ CRLF) ?e)"
  obtain n' where run: "keys_loop c pattern all ks n' s = Some (m, sv')"
    using Cons.prems(1) unfolding keys_loop.simps b Option.bind.bind_lunit e
    by (cases b; cases "stale (cdb c sv) k sv"; simp add: s_def addReplyBulk_some)
  have s: "signalled sv s" "ks_wf s" "frame sv s" using Cons.prems(2) by (auto simp: s_def)
  from Cons.IH [OF run s(2)] show ?case
    using signalledx_trans [OF s(1) _ s(3)] frame_trans [OF s(3)] by blast
qed simp

lemma deferred_same:
  "c_dirty_cas (sv_client (setDeferredMultiBulkLength c p n sv) d) = c_dirty_cas (sv_client sv d)"
  "sv_db (setDeferredMultiBulkLength c p n sv) = sv_db sv"
  "sv_now (setDeferredMultiBulkLength c p n sv) = sv_now sv"
  "sv_loading (setDeferredMultiBulkLength c p n sv) = sv_loading sv"
  "sv_masterhost (setDeferredMultiBulkLength c p n sv) = sv_masterhost sv"
  "ks_wf (setDeferredMultiBulkLength c p n sv) = ks_wf sv"
  by (auto simp: setDeferredMultiBulkLength_def upd_client_def ks_wf_def split: option.splits)

lemma frame_deferred: "frame sv0 (setDeferredMultiBulkLength c p n sv) = frame sv0 sv"
proof -
  have "same_session a (sv_client (setDeferredMultiBulkLength c p n sv) d) = same_session a (sv_client sv d)" for a d
    by (simp add: setDeferredMultiBulkLength_def upd_client_def same_session_def split: option.split)
  then show ?thesis
    by (simp add: frame_def) (simp add: setDeferredMultiBulkLength_def upd_client_def split: option.split)
qed

lemma keys_signals:
  assumes "keysCommand c sv = Some sv'" "ks_wf sv"
  shows "signalled sv sv' \<and> ks_wf sv' \<and> frame sv sv'"
proof -
  obtain n all s where r: "keys_loop c (argv c sv 1) all (sv_iter sv (rd_dict (sv_db sv (cdb c sv)))) 0 sv = Some (n, s)"
    "sv' = setDeferredMultiBulkLength c (addDeferredMultiBulkLength c sv) n s"
    using assms(1) by (auto simp: keysCommand_def Let_def split: Option.bind_splits)
  have "signalled sv sv' = signalled sv s"
    unfolding r(2) by (rule signalledx_same) (simp_all add: deferred_same)
  then show ?thesis using keys_loop_signals [OF r(1) assms(2)] by (simp add: r(2) deferred_same frame_deferred)
qed

section \<open>The string commands\<close>

lemma expset_mark:
  "expset i k w (incr_dirty n (mark_all S sv)) = incr_dirty n (mark_all S (expset i k w sv))"
  by (simp add: expset_def upd_db_def incr_dirty_def mark_all_def cong: if_cong)

lemma setGeneric_signals:
  assumes "ks_wf sv" "\<And>e. expire = Some e \<Longrightarrow> \<exists>s. e = createStringObject s"
  shows "signals sv (setGenericCommand c nx xx key val expire secs r1 r2 sv)"
proof (cases expire)
  case None
  then show ?thesis using assms(1)
    by (simp add: setGenericCommand_def Let_def set_aborts_eq setKey_eq)
next
  case (Some e)
  then obtain s where e: "e = createStringObject s" using assms(2) by blast
  show ?thesis
  proof (rule getLongLong_arg [of c s None sv])
    assume "getLongLongFromObjectOrReply c (Some (createStringObject s)) None sv =
      Some (None, addReplyString c (''-ERR '' @ cstr (case None of Some m \<Rightarrow> m | None \<Rightarrow> ''value is not an integer or out of range'') @ CRLF) sv)"
    then show ?thesis using assms(1) Some e by (simp add: setGenericCommand_def Let_def)
  next
    fix v assume g: "getLongLongFromObjectOrReply c (Some (createStringObject s)) None sv = Some (Some v, sv)"
    have "signalled sv (expset (cdb c sv) key w (incr_dirty n (keyset (cdb c sv) key val s')))"
      if "signalled sv s'" "watchers s' (cdb c sv) key = watchers sv (cdb c sv) key" for w n s'
      unfolding keyset_def that(2)
      unfolding expset_mark signalledx_simps
      by (rule signalledx_mark) (use signalledx_mono [OF that(1)] in simp)
    then show ?thesis using assms(1) Some e g
      by (simp add: setGenericCommand_def Let_def set_aborts_eq setKey_eq setExpire_eq)
  qed
qed

lemma set_commands_signal:
  assumes "ks_wf sv"
  shows "args_ok 3 c sv \<Longrightarrow> signals sv (setCommand c sv)" "args_ok 3 c sv \<Longrightarrow> signals sv (setnxCommand c sv)"
    "args_ok 4 c sv \<Longrightarrow> signals sv (setexCommand c sv)" "args_ok 4 c sv \<Longrightarrow> signals sv (psetexCommand c sv)"
proof -
  assume a: "args_ok 3 c sv"
  obtain ob where ob: "tryObjectEncoding (sv_maxmemory sv) 1 (arg c sv 2) = Some ob"
    using try_arg [OF args_okD [OF a, of 2], of "sv_maxmemory sv"] by auto
  show "signals sv (setCommand c sv)"
  proof (cases "set_options (drop 3 (c_argv (sv_client sv c))) False False None True")
    case None
    then show ?thesis by (simp add: setCommand_def)
  next
    case (Some r)
    obtain nx xx e secs where r: "r = (nx, xx, e, secs)" by (metis prod_cases4)
    have "signals sv (setGenericCommand c nx xx (argv c sv 1) ob (map_option createStringObject e) secs None None sv)"
      by (rule setGeneric_signals [OF assms]) auto
    then show ?thesis using Some r ob(1) by (simp add: setCommand_def)
  qed
  show "signals sv (setnxCommand c sv)" unfolding setnxCommand_def ob(1) Option.bind.bind_lunit
    by (rule setGeneric_signals [OF assms]) simp
next
  assume a: "args_ok 4 c sv"
  obtain ob where ob: "tryObjectEncoding (sv_maxmemory sv) 1 (arg c sv 3) = Some ob"
    using try_arg [OF args_okD [OF a, of 3], of "sv_maxmemory sv"] by auto
  show "signals sv (setexCommand c sv)" unfolding setexCommand_def ob(1) Option.bind.bind_lunit
    by (rule setGeneric_signals [OF assms]) auto
  show "signals sv (psetexCommand c sv)" unfolding psetexCommand_def ob(1) Option.bind.bind_lunit
    by (rule setGeneric_signals [OF assms]) auto
qed

lemma get_signals: "ks_wf sv \<Longrightarrow> signals sv (getCommand c sv)"
  by (auto simp: getCommand_def getGeneric_eq [OF _ refl refl refl] split: option.split)

lemma strlen_signals: "ks_wf sv \<Longrightarrow> signals sv (strlenCommand c sv)"
  by (auto simp: strlen_eq [OF _ refl refl refl] split: option.split)

lemma getset_signals:
  assumes "ks_wf sv" "args_ok 3 c sv"
  shows "signals sv (getsetCommand c sv)"
proof -
  obtain ob where ob: "tryObjectEncoding (sv_maxmemory sv) 1 (arg c sv 2) = Some ob"
    using try_arg [OF args_okD [OF assms(2), of 2], of "sv_maxmemory sv"] by auto
  show ?thesis using assms(1) ob
    by (auto simp: getsetCommand_def getGeneric_eq [OF _ refl refl refl] setKey_eq split: option.split)
qed

lemma mget_signals:
  assumes "ks_wf sv"
  shows "signals sv (mgetCommand c sv)"
proof -
  have loop: "ks_wf s \<Longrightarrow> signals s (mget_loop c ks s)" for ks s
  proof (induction ks arbitrary: s)
    case (Cons k ks)
    define t where "t = (case visible (cdb c s) k s of None \<Rightarrow> shared_nullbulk
      | Some ob \<Rightarrow> if o_type ob = REDIS_STRING then bulk (objval ob) else shared_nullbulk)"
    let ?s = "addReplyString c t (count_lookup (visible (cdb c s) k s \<noteq> None) (evict (cdb c s) k s))"
    have "mget_loop c (k # ks) s = mget_loop c ks ?s"
      using Cons.prems visible_wf [OF Cons.prems, of "cdb c s" k]
      by (auto simp: db_eqs addReplyBulk_props entry_ok_def t_def split: option.split)
    moreover have "signals ?s (mget_loop c ks ?s)" using Cons.prems by (intro Cons.IH) simp
    ultimately show ?case using signals_trans [of s ?s] by simp
  qed simp
  let ?s = "addReplyMultiBulkLen c (argc c sv - 1) sv"
  have "ks_wf ?s" "frame sv ?s" "signalled sv ?s"
    using assms by (simp_all add: addReplyMultiBulkLen_def addReplyLongLongWithPrefix_def)
  then show ?thesis using loop [of ?s] signals_trans [of sv ?s] by (simp add: mgetCommand_def)
qed

lemma setrange_signals:
  assumes "ks_wf sv" "args_ok 4 c sv" "setrange_benign c sv"
  shows "signals sv (setrangeCommand c sv)"
proof (cases rule: number_cases [of "argv c sv 2"])
  case err
  then show ?thesis using getLong_err [OF err] by (simp add: setrangeCommand_def Let_def)
next
  case (num off)
  let ?i = "cdb c sv" and ?key = "argv c sv 1" and ?val = "argv c sv 3"
  note g = getLong_num [OF num]
  show ?thesis
  proof (cases "0 \<le> off")
    case False
    then show ?thesis using g by (simp add: setrangeCommand_def Let_def)
  next
    case True
    show ?thesis
    proof (cases "visible ?i ?key sv = None \<or> (\<exists>ob. visible ?i ?key sv = Some ob \<and> o_type ob = REDIS_STRING)")
      case ok': True
      have len: "off + int (length ?val) \<le> LLONG_MAX" using assms(3) num by (simp add: setrange_benign_def)
      show ?thesis
        unfolding setrange_eq [OF assms(1) num(1) True len refl refl refl ok' refl] by simp
    next
      case False
      then obtain ob where "visible ?i ?key sv = Some ob" "o_type ob \<noteq> REDIS_STRING" by (rule wrong_string_type)
      then show ?thesis using assms(1) g True
        by (simp add: setrangeCommand_def Let_def db_eqs checkType_def)
    qed
  qed
qed

lemma getrange_signals:
  assumes "ks_wf sv" "args_ok 4 c sv" "getrange_benign c sv"
  shows "signals sv (getrangeCommand c sv)"
proof (cases rule: number_cases [of "argv c sv 2"])
  case err
  then show ?thesis using getLong_err [OF err] by (simp add: getrangeCommand_def)
next
  case (num start)
  show ?thesis
  proof (cases rule: number_cases [of "argv c sv 3"])
    case err
    then show ?thesis using getLong_err [OF err] getLong_num [OF num] by (simp add: getrangeCommand_def)
  next
    case n3: (num end')
    let ?i = "cdb c sv" and ?key = "argv c sv 1"
    have lt: "end' < 2 ^ 32" using assms(3) n3 by (simp add: getrange_benign_def)
    show ?thesis
    proof (cases "visible ?i ?key sv = None \<or> (\<exists>ob. visible ?i ?key sv = Some ob \<and> o_type ob = REDIS_STRING)")
      case True
      show ?thesis
        unfolding getrange_eq [OF assms(1) num(1) n3(1) lt refl refl True refl] by simp
    next
      case False
      then obtain ob where "visible ?i ?key sv = Some ob" "o_type ob \<noteq> REDIS_STRING" by (rule wrong_string_type)
      then show ?thesis using assms(1) getLong_num [OF num] getLong_num [OF n3]
        by (simp add: getrangeCommand_def lookupKeyReadOrReply_def db_eqs checkType_def)
    qed
  qed
qed

lemma incrDecr_signals:
  assumes "ks_wf sv" "LLONG_MIN \<le> incr" "incr \<le> LLONG_MAX"
  shows "signals sv (incrDecrCommand c incr sv)"
proof (cases "visible (cdb c sv) (argv c sv 1) sv = None \<or>
    (\<exists>ob. visible (cdb c sv) (argv c sv 1) sv = Some ob \<and> o_type ob = REDIS_STRING)")
  case True
  show ?thesis
    unfolding incrDecr_eq [OF assms refl refl refl True] by (simp split: option.split)
next
  case False
  then obtain ob where "visible (cdb c sv) (argv c sv 1) sv = Some ob" "o_type ob \<noteq> REDIS_STRING"
    by (rule wrong_string_type)
  then show ?thesis using assms(1) by (simp add: incrDecr_wrongtype)
qed

lemma incr_commands_signal:
  assumes "ks_wf sv"
  shows "signals sv (incrCommand c sv)" "signals sv (decrCommand c sv)"
    "signals sv (incrbyCommand c sv)" "signals sv (decrbyCommand c sv)"
proof -
  show "signals sv (incrCommand c sv)" "signals sv (decrCommand c sv)"
    using incrDecr_signals [OF assms] by (simp_all add: incrCommand_def decrCommand_def)
  show "signals sv (incrbyCommand c sv)"
    using incrDecr_signals [OF assms, where c = c]
    by (cases rule: number_cases [of "argv c sv 2"])
      (simp_all add: incrbyCommand_def getLongLongFromObjectOrReply_def)
  show "signals sv (decrbyCommand c sv)"
    using incrDecr_signals [OF assms to_int64_range, where c = c]
    by (cases rule: number_cases [of "argv c sv 2"])
      (simp_all add: decrbyCommand_def getLongLongFromObjectOrReply_def)
qed

lemma append_signals:
  assumes "ks_wf sv" "args_ok 3 c sv"
  shows "signals sv (appendCommand c sv)"
proof (cases "visible (cdb c sv) (argv c sv 1) sv = None \<or>
    (\<exists>ob. visible (cdb c sv) (argv c sv 1) sv = Some ob \<and> o_type ob = REDIS_STRING)")
  case True
  show ?thesis
    using append_eq [OF assms refl refl refl refl True refl] by auto
next
  case False
  then obtain ob where "visible (cdb c sv) (argv c sv 1) sv = Some ob" "o_type ob \<noteq> REDIS_STRING"
    by (rule wrong_string_type)
  then show ?thesis using assms(1) by (simp add: append_wrongtype)
qed

section \<open>MSET\<close>

lemma busy_loop_signals:
  assumes "ks_wf sv"
  shows "signalled sv (fold (evict i) ks sv)"
proof -
  have "signalled sv s \<Longrightarrow> signalled sv (fold (evict i) ks s)" for s
    by (induction ks arbitrary: s) simp_all
  then show ?thesis by simp
qed

lemma mset_loop_signals:
  assumes "ks_wf s" "signalled sv s" "watchers s = watchers sv" "\<forall>(k, v)\<in>set kvs. small k \<and> small v"
    and "mset_loop i (flat kvs) s = Some sv'"
  shows "signalled sv sv'"
  using assms
proof (induction kvs arbitrary: s)
  case (Cons kv kvs)
  obtain k v where kv: "kv = (k, v)" by fastforce
  have s: "small k" "small v" using Cons.prems(4) kv by auto
  obtain ob where ob: "tryObjectEncoding (sv_maxmemory s) 1 (createStringObject v) = Some ob" "robj_wf ob"
    "o_type ob = REDIS_STRING" "objval ob = v" "robj_small ob"
    by (rule try_arg [OF s(2), of "sv_maxmemory s"])
  let ?s = "keyset i k ob s"
  have "mset_loop i (flat kvs) ?s = Some sv'"
    using Cons.prems(1,5) ob(1) kv by (simp add: setKey_eq)
  moreover have "ks_wf ?s" using Cons.prems(1) entry_ok_try [OF ob(2,5) s(1)] by simp
  moreover have "signalled sv ?s" "watchers ?s = watchers sv"
    using Cons.prems(2,3) by (simp_all add: fun_eq_iff)
  ultimately show ?case using Cons.IH Cons.prems(4) by simp
qed simp

lemma mset_signals:
  assumes "ks_wf sv" "args_ok 1 c sv"
  shows "signals sv (msetGenericCommand c nx sv)"
proof (cases "even (argc c sv)")
  case True
  then show ?thesis by (simp add: msetGenericCommand_def Let_def)
next
  case False
  then obtain cmd rest where a: "c_argv (sv_client sv c) = cmd # rest" by (cases "c_argv (sv_client sv c)") auto
  then obtain kvs where k: "rest = flat kvs" using False flat_ex [of rest] by auto
  have s: "\<forall>(k, v)\<in>set kvs. small k \<and> small v"
  proof -
    have "\<forall>x\<in>set (flat kvs). small x" using assms(2) a k by (simp add: args_ok_def)
    then show ?thesis by (auto simp: flat_def)
  qed
  define s1 where "s1 = (if nx then fold (evict (cdb c sv)) (map fst kvs) sv else sv)"
  have s1: "signalled sv s1" "ks_wf s1" "watchers s1 = watchers sv"
  proof -
    have "watchers (fold (evict i) ks s) = watchers s" for i ks s
      by (induction ks arbitrary: s) (simp_all add: fun_eq_iff)
    then show "watchers s1 = watchers sv" by (simp add: s1_def)
  qed (simp_all add: s1_def assms(1) busy_loop_signals)
  obtain sv2 where r: "mset_loop (cdb c sv) (flat kvs) s1 = Some sv2"
    "msetGenericCommand c nx sv = Some (
      if nx \<and> (\<exists>(k, v)\<in>set kvs. visible (cdb c sv) k sv \<noteq> None) then addReplyString c shared_czero s1
      else addReplyString c (if nx then shared_cone else shared_ok) (incr_dirty (int (length kvs)) sv2))"
    using msetGeneric_eq [OF assms(1) a [unfolded k] s refl s1_def] by (elim exE conjE) (rule that)
  have "signalled sv sv2" by (rule mset_loop_signals [OF s1(2,1,3) s r(1)])
  then show ?thesis unfolding r(2) ok_simps using s1(1) by (simp only: signalledx_simps split: if_split) simp
qed

lemma watch_reg_cong: "frame sv sv' \<Longrightarrow> watchers_registered sv' = watchers_registered sv"
  by (simp only: watchers_registered_def watchers_def frame_server_proj)

section \<open>The exceptions\<close>

text \<open>
  MOVE takes a key away and gives it to another database, and no client that watches either is
  told.
\<close>

theorem move_not_signalled:
  assumes "ks_wf sv" and "key = argv c sv 1" and "src = cdb c sv" and "src < sv_dbnum sv"
    and "atoi (argv c sv 2) = int dst" and "dst < sv_dbnum sv" and "dst \<noteq> src"
    and "visible src key sv = Some ob" and "visible dst key sv = None"
  shows "\<exists>sv'. moveCommand c sv = Some sv' \<and>
    rd_dict (sv_db sv' src) key = None \<and> rd_dict (sv_db sv' dst) key = Some ob \<and>
    (\<forall>d. c_dirty_cas (sv_client sv' d) = c_dirty_cas (sv_client sv d))"
proof -
  define s1 where "s1 = upd_client c (c_db_update (\<lambda>_. dst)) sv"
  have sel: "selectDb c (atoi (argv c sv 2)) sv = (True, s1)"
    using assms(5,6) by (simp add: selectDb_def s1_def)
  have ret: "selectDb c (int src) s1 = (True, sv)"
    using assms(3,4) by (simp add: selectDb_def s1_def upd_client_def)
  have d: "cdb c s1 = dst" by (simp add: s1_def upd_client_def)
  let ?s = "evict dst key (evict src key sv)"
  have v: "visible dst key (evict src key sv) = None" using assms(7,9) by (auto simp: visible_def stale_def evict_other split: if_splits)
  have a: "rd_dict (sv_db ?s dst) key = None" using v by simp
  have "moveCommand c sv = Some (addReplyString c shared_cone (incr_dirty 1 (dbrem src key (dbset dst key ob ?s))))"
    using assms(1,2,3,7,8) sel ret d v a
    by (simp add: moveCommand_def Let_def db_eqs)
  then show ?thesis using assms(7) by simp
qed

text \<open>
  PERSIST looks the key up in the dictionary without asking whether it has expired: an expired
  key that was not accessed since comes back to life.
\<close>

theorem persist_resurrects:
  assumes "ks_wf sv" and "key = argv c sv 1" and "i = cdb c sv" and "dead i key sv"
  shows "visible i key sv = None" "\<exists>sv'. persistCommand c sv = Some sv' \<and> visible i key sv' \<noteq> None"
proof -
  show "visible i key sv = None" using assms(4) by (simp add: visible_def dead_def)
  obtain w where w: "rd_expires (sv_db sv i) key = Some w" using assms(4) by (auto simp: dead_def stale_def)
  then obtain ob where ob: "rd_dict (sv_db sv i) key = Some ob" using ks_wfD(3) [OF assms(1)] by blast
  have "persistCommand c sv = Some (incr_dirty 1 (addReplyString c shared_cone (exprem i key sv)))"
    using assms(2,3) w ob by (simp add: persistCommand_def Let_def removeExpire_eq)
  then show "\<exists>sv'. persistCommand c sv = Some sv' \<and> visible i key sv' \<noteq> None"
    using ob by (simp add: visible_def stale_def)
qed

end
