(* ===== verification/Evict.thy ===== *)
theory Evict
  imports Signal
begin

text \<open>
  The eviction of keys under a memory limit (\<open>freeMemoryIfNeeded\<close> in \<open>src/redis.c\<close>) and the
  active expire of one key (\<open>activeExpireCycleTryExpire\<close>).
\<close>

section \<open>Operations\<close>

text \<open>The dictionary of expire times; its random draws depend on its keys only.\<close>

definition expires_dict :: "redisDb \<Rightarrow> key \<Rightarrow> robj option" where
  "expires_dict db = (\<lambda>k. map_option createStringObjectFromLongLong (rd_expires db k))"

definition eviction_dict :: "policy \<Rightarrow> redisDb \<Rightarrow> key \<Rightarrow> robj option" where
  "eviction_dict p db = (if p = ALLKEYS_LRU \<or> p = ALLKEYS_RANDOM then rd_dict db else expires_dict db)"

text \<open>
  The loop over the samples: the first key, then every key that is strictly better.  For
  \<open>volatile-lru\<close> the object is looked up in the main dictionary, where it must exist.
\<close>

fun lru_loop :: "server \<Rightarrow> nat \<Rightarrow> (key \<Rightarrow> robj option) \<Rightarrow> nat \<Rightarrow> nat \<Rightarrow> (key \<times> int) option \<Rightarrow> (key \<times> int) option option" where
  "lru_loop sv i dict n 0 best = Some best"
| "lru_loop sv i dict n (Suc k) best =
     (let thiskey = sv_rnd sv dict n
      in if rd_dict (sv_db sv i) thiskey = None then None
         else let thisval = sv_idle sv i thiskey
              in lru_loop sv i dict (n + 1) k
                   (case best of
                      None \<Rightarrow> Some (thiskey, thisval)
                    | Some (_, bestval) \<Rightarrow> if bestval < thisval then Some (thiskey, thisval) else best))"

fun ttl_loop :: "server \<Rightarrow> nat \<Rightarrow> (key \<Rightarrow> robj option) \<Rightarrow> nat \<Rightarrow> nat \<Rightarrow> (key \<times> int) option \<Rightarrow> (key \<times> int) option option" where
  "ttl_loop sv i dict n 0 best = Some best"
| "ttl_loop sv i dict n (Suc k) best =
     (let thiskey = sv_rnd sv dict n
      in case rd_expires (sv_db sv i) thiskey of
           None \<Rightarrow> None
         | Some thisval \<Rightarrow>
             ttl_loop sv i dict (n + 1) k
               (case best of
                  None \<Rightarrow> Some (thiskey, thisval)
                | Some (_, bestval) \<Rightarrow> if thisval < bestval then Some (thiskey, thisval) else best))"

text \<open>The key chosen in a database, and the number of draws made.\<close>

definition choose_key :: "nat \<Rightarrow> nat \<Rightarrow> server \<Rightarrow> (key option \<times> nat) option" where
  "choose_key i n sv =
     (let dict = eviction_dict (sv_policy sv) (sv_db sv i)
      in case sv_policy sv of
           ALLKEYS_RANDOM \<Rightarrow> Some (Some (sv_rnd sv dict n), n + 1)
         | VOLATILE_RANDOM \<Rightarrow> Some (Some (sv_rnd sv dict n), n + 1)
         | ALLKEYS_LRU \<Rightarrow>
             map_option (\<lambda>b. (map_option fst b, n + sv_samples sv)) (lru_loop sv i dict n (sv_samples sv) None)
         | VOLATILE_LRU \<Rightarrow>
             map_option (\<lambda>b. (map_option fst b, n + sv_samples sv)) (lru_loop sv i dict n (sv_samples sv) None)
         | VOLATILE_TTL \<Rightarrow>
             map_option (\<lambda>b. (map_option fst b, n + sv_samples sv)) (ttl_loop sv i dict n (sv_samples sv) None)
         | NO_EVICTION \<Rightarrow> Some (None, n))"

text \<open>\<open>mem_freed\<close> is a \<open>size_t\<close>: the sum wraps when the memory grew.\<close>

definition add_size :: "nat \<Rightarrow> int \<Rightarrow> nat" where
  "add_size freed delta = nat ((int freed + delta) mod 2 ^ 64)"

definition evict_key :: "nat \<Rightarrow> key \<Rightarrow> nat \<Rightarrow> server \<Rightarrow> nat \<times> server" where
  "evict_key i bestkey mem_freed sv =
     (let sv1 = propagateExpire i bestkey sv;
          before = int (sv_mem sv1 (sv_db sv1));
          sv2 = snd (dbDelete i bestkey sv1);
          delta = before - int (sv_mem sv2 (sv_db sv2))
      in (add_size mem_freed delta, sv2\<lparr>sv_evictedkeys := sv_evictedkeys sv2 + 1\<rparr>))"

text \<open>The pass over the databases: draws, memory freed, keys freed, state.\<close>

fun evict_pass :: "nat list \<Rightarrow> nat \<Rightarrow> nat \<Rightarrow> nat \<Rightarrow> server \<Rightarrow> (nat \<times> nat \<times> nat \<times> server) option" where
  "evict_pass [] n mem_freed keys_freed sv = Some (n, mem_freed, keys_freed, sv)"
| "evict_pass (i # dbs) n mem_freed keys_freed sv =
     (if eviction_dict (sv_policy sv) (sv_db sv i) = Map.empty
      then evict_pass dbs n mem_freed keys_freed sv
      else case choose_key i n sv of
             None \<Rightarrow> None
           | Some (None, n) \<Rightarrow> evict_pass dbs n mem_freed keys_freed sv
           | Some (Some bestkey, n) \<Rightarrow>
               let (mem_freed, sv) = evict_key i bestkey mem_freed sv
               in evict_pass dbs n mem_freed (keys_freed + 1) sv)"

text \<open>The outer loop.  \<open>None\<close> is divergence, \<open>Some None\<close> a crash.\<close>

partial_function (option) evict_loop :: "nat \<Rightarrow> nat \<Rightarrow> nat \<Rightarrow> server \<Rightarrow> (bool \<times> server) option option" where
  "evict_loop n mem_freed mem_tofree sv =
     (if mem_freed < mem_tofree
      then case evict_pass [0..<sv_dbnum sv] n mem_freed 0 sv of
             None \<Rightarrow> Some None
           | Some (n, mem_freed, keys_freed, sv) \<Rightarrow>
               if keys_freed = 0 then Some (Some (False, sv)) else evict_loop n mem_freed mem_tofree sv
      else Some (Some (True, sv)))"

declare evict_loop.simps [simp del]

definition freeMemoryIfNeeded :: "server \<Rightarrow> (bool \<times> server) option option" where
  "freeMemoryIfNeeded sv =
     (let mem_used = sv_mem sv (sv_db sv)
      in if mem_used \<le> sv_maxmemory sv then Some (Some (True, sv))
         else if sv_policy sv = NO_EVICTION then Some (Some (False, sv))
         else evict_loop 0 0 (mem_used - sv_maxmemory sv) sv)"

text \<open>The expire cycle draws a key of the expires dictionary and removes it when its time is past.\<close>

definition activeExpireCycleTryExpire :: "nat \<Rightarrow> key \<Rightarrow> int \<Rightarrow> int \<Rightarrow> server \<Rightarrow> bool \<times> server" where
  "activeExpireCycleTryExpire i key t now sv =
     (if t < now
      then let sv1 = propagateExpire i key sv;
               sv2 = snd (dbDelete i key sv1)
           in (True, sv2\<lparr>sv_expiredkeys := sv_expiredkeys sv2 + 1\<rparr>)
      else (False, sv))"

section \<open>Eviction ends and removes keys only\<close>

definition volatile_policy :: "policy \<Rightarrow> bool" where
  "volatile_policy p \<longleftrightarrow> p = VOLATILE_LRU \<or> p = VOLATILE_TTL \<or> p = VOLATILE_RANDOM"

text \<open>
  The outcome of evictions: some keys are gone, with their expire times, the others are as they
  were; under a volatile policy only keys with an expire time go.
\<close>

definition shrunk :: "server \<Rightarrow> server \<Rightarrow> bool" where
  "shrunk sv sv' \<longleftrightarrow>
     frame sv sv' \<and> sv_policy sv' = sv_policy sv \<and> sv_samples sv' = sv_samples sv \<and> sv_mem sv' = sv_mem sv \<and>
     sv_idle sv' = sv_idle sv \<and> sv_client sv' = sv_client sv \<and> sv_dirty sv' = sv_dirty sv \<and>
     (\<forall>i k. rd_dict (sv_db sv' i) k = rd_dict (sv_db sv i) k \<and> rd_expires (sv_db sv' i) k = rd_expires (sv_db sv i) k \<or>
        rd_dict (sv_db sv' i) k = None \<and> rd_expires (sv_db sv' i) k = None \<and>
        (volatile_policy (sv_policy sv) \<longrightarrow> rd_expires (sv_db sv i) k \<noteq> None))"

lemma shrunk_refl: "shrunk sv sv"
  by (simp add: shrunk_def)

lemma shrunk_key:
  assumes "shrunk sv sv'"
  shows "rd_dict (sv_db sv' i) k = rd_dict (sv_db sv i) k \<and> rd_expires (sv_db sv' i) k = rd_expires (sv_db sv i) k \<or>
    rd_dict (sv_db sv' i) k = None \<and> rd_expires (sv_db sv' i) k = None \<and>
    (volatile_policy (sv_policy sv) \<longrightarrow> rd_expires (sv_db sv i) k \<noteq> None)"
  using assms by (simp add: shrunk_def)

lemma shrunk_trans:
  assumes "shrunk a b" "shrunk b c"
  shows "shrunk a c"
proof -
  have p: "sv_policy b = sv_policy a" using assms(1) by (simp add: shrunk_def)
  have "rd_dict (sv_db c i) k = rd_dict (sv_db a i) k \<and> rd_expires (sv_db c i) k = rd_expires (sv_db a i) k \<or>
    rd_dict (sv_db c i) k = None \<and> rd_expires (sv_db c i) k = None \<and>
    (volatile_policy (sv_policy a) \<longrightarrow> rd_expires (sv_db a i) k \<noteq> None)" for i k
    using shrunk_key [OF assms(1), of i k] shrunk_key [OF assms(2), of i k] p by metis
  moreover have "frame a c" using assms frame_trans unfolding shrunk_def by blast
  ultimately show ?thesis using assms unfolding shrunk_def by metis
qed

text \<open>The random source draws a key of the dictionary it is asked about.\<close>

definition rnd_ok :: "server \<Rightarrow> bool" where
  "rnd_ok sv \<longleftrightarrow>
     (\<forall>i m n. m \<noteq> Map.empty \<and> dom m \<subseteq> dom (rd_dict (sv_db sv i)) \<longrightarrow> sv_rnd sv m n \<in> dom m)"

lemma rnd_ok_shrunk:
  assumes "shrunk sv sv'" "rnd_ok sv"
  shows "rnd_ok sv'"
proof -
  have "dom (rd_dict (sv_db sv' i)) \<subseteq> dom (rd_dict (sv_db sv i))" for i
  proof
    fix k assume "k \<in> dom (rd_dict (sv_db sv' i))"
    then show "k \<in> dom (rd_dict (sv_db sv i))" using shrunk_key [OF assms(1), of i k] by auto
  qed
  moreover have "sv_rnd sv' = sv_rnd sv"
    using assms(1) frame_server_proj(5) by (auto simp: shrunk_def)
  ultimately show ?thesis using assms(2) unfolding rnd_ok_def by (metis order_trans)
qed

lemma eviction_dict_dom:
  assumes "ks_wf sv"
  shows "finite (dom (eviction_dict p (sv_db sv i)))" "dom (eviction_dict p (sv_db sv i)) \<subseteq> dom (rd_dict (sv_db sv i))"
    "dom (expires_dict db) = dom (rd_expires db)"
proof -
  show e: "dom (expires_dict db) = dom (rd_expires db)" for db by (auto simp: expires_dict_def)
  have "dom (rd_expires (sv_db sv i)) \<subseteq> dom (rd_dict (sv_db sv i))" using ks_wfD(3) [OF assms] by blast
  then show s: "dom (eviction_dict p (sv_db sv i)) \<subseteq> dom (rd_dict (sv_db sv i))"
    using e by (simp add: eviction_dict_def)
  show "finite (dom (eviction_dict p (sv_db sv i)))" using finite_subset [OF s] ks_wfD(4) [OF assms] by blast
qed

lemma draw_ok:
  assumes "ks_wf sv" "rnd_ok sv" "eviction_dict p (sv_db sv i) \<noteq> Map.empty"
  shows "sv_rnd sv (eviction_dict p (sv_db sv i)) n \<in> dom (eviction_dict p (sv_db sv i))"
  using assms(2,3) eviction_dict_dom(2) [OF assms(1), of p i] unfolding rnd_ok_def by blast

lemma lru_loop_ok:
  assumes "\<And>n. sv_rnd sv dict n \<in> D" "D \<subseteq> dom (rd_dict (sv_db sv i))" "\<And>x. best = Some x \<Longrightarrow> fst x \<in> D"
  shows "\<exists>b. lru_loop sv i dict n k best = Some b \<and> (\<forall>x. b = Some x \<longrightarrow> fst x \<in> D) \<and> (b = None \<longrightarrow> k = 0 \<and> best = None)"
  using assms(3)
proof (induction k arbitrary: n best)
  case (Suc k)
  obtain ob where d: "sv_rnd sv dict n \<in> D" "rd_dict (sv_db sv i) (sv_rnd sv dict n) = Some ob" using assms(1,2) by blast
  define b' where "b' = (case best of
                      None \<Rightarrow> Some (sv_rnd sv dict n, sv_idle sv i (sv_rnd sv dict n))
                    | Some (_, bestval) \<Rightarrow> if bestval < sv_idle sv i (sv_rnd sv dict n)
                        then Some (sv_rnd sv dict n, sv_idle sv i (sv_rnd sv dict n)) else best)"
  have "\<And>x. b' = Some x \<Longrightarrow> fst x \<in> D" "b' \<noteq> None"
    using d(1) Suc.prems by (auto simp: b'_def split: option.splits if_splits)
  moreover have "lru_loop sv i dict n (Suc k) best = lru_loop sv i dict (n + 1) k b'"
    using d(2) by (simp add: Let_def b'_def)
  ultimately show ?case using Suc.IH [of b' "n + 1"] by auto
qed auto

lemma ttl_loop_ok:
  assumes "\<And>n. sv_rnd sv dict n \<in> D" "D \<subseteq> dom (rd_expires (sv_db sv i))" "\<And>x. best = Some x \<Longrightarrow> fst x \<in> D"
  shows "\<exists>b. ttl_loop sv i dict n k best = Some b \<and> (\<forall>x. b = Some x \<longrightarrow> fst x \<in> D) \<and> (b = None \<longrightarrow> k = 0 \<and> best = None)"
  using assms(3)
proof (induction k arbitrary: n best)
  case (Suc k)
  obtain w where d: "sv_rnd sv dict n \<in> D" "rd_expires (sv_db sv i) (sv_rnd sv dict n) = Some w" using assms(1,2) by blast
  define b' where "b' = (case best of
                      None \<Rightarrow> Some (sv_rnd sv dict n, w)
                    | Some (_, bestval) \<Rightarrow> if w < bestval then Some (sv_rnd sv dict n, w) else best)"
  have "\<And>x. b' = Some x \<Longrightarrow> fst x \<in> D" "b' \<noteq> None"
    using d(1) Suc.prems by (auto simp: b'_def split: option.splits if_splits)
  moreover have "ttl_loop sv i dict n (Suc k) best = ttl_loop sv i dict (n + 1) k b'"
    using d(2) by (simp add: Let_def b'_def)
  ultimately show ?case using Suc.IH [of b' "n + 1"] by auto
qed auto

lemma choose_key_ok:
  assumes "ks_wf sv" "rnd_ok sv" "eviction_dict (sv_policy sv) (sv_db sv i) \<noteq> Map.empty"
  shows "\<exists>k n'. choose_key i n sv = Some (k, n') \<and>
    (\<forall>k'. k = Some k' \<longrightarrow> k' \<in> dom (eviction_dict (sv_policy sv) (sv_db sv i))) \<and>
    (k = None \<longrightarrow> sv_policy sv = NO_EVICTION \<or> sv_samples sv = 0)"
proof -
  let ?d = "eviction_dict (sv_policy sv) (sv_db sv i)"
  note draw = draw_ok [OF assms]
  obtain b where b: "lru_loop sv i ?d n (sv_samples sv) None = Some b" "\<forall>x. b = Some x \<longrightarrow> fst x \<in> dom ?d"
    "b = None \<longrightarrow> sv_samples sv = 0"
    using lru_loop_ok [OF draw eviction_dict_dom(2) [OF assms(1)], of None n "sv_samples sv"] by auto
  show ?thesis
  proof (cases "sv_policy sv")
    case VOLATILE_TTL
    then have "dom ?d \<subseteq> dom (rd_expires (sv_db sv i))" using eviction_dict_dom(3) [OF assms(1)] by (simp add: eviction_dict_def)
    then obtain b where "ttl_loop sv i ?d n (sv_samples sv) None = Some b" "\<forall>x. b = Some x \<longrightarrow> fst x \<in> dom ?d"
      "b = None \<longrightarrow> sv_samples sv = 0"
      using ttl_loop_ok [OF draw, of i None n "sv_samples sv"] by auto
    then show ?thesis using VOLATILE_TTL by (auto simp: choose_key_def Let_def)
  qed (use b draw in \<open>auto simp: choose_key_def Let_def\<close>)
qed

lemma evict_key_state:
  assumes "evict_key i k m sv = (m', sv')" "ks_wf sv" "k \<in> dom (eviction_dict (sv_policy sv) (sv_db sv i))"
  shows "ks_wf sv'" "shrunk sv sv'"
    "rd_dict (sv_db sv' j) = (if j = i then (rd_dict (sv_db sv i))(k := None) else rd_dict (sv_db sv j))"
proof -
  define s where "s = (dbrem i k (propagateExpire i k sv))\<lparr>sv_evictedkeys := sv_evictedkeys sv + 1\<rparr>"
  have e: "sv' = s"
    using assms(1) by (auto simp: evict_key_def Let_def dbDelete_eq s_def dbrem_def upd_db_def propagateExpire_def)
  have ks: "ks_wf s = ks_wf (dbrem i k sv)"
    by (rule ks_wf_cong) (simp_all add: s_def, simp_all add: propagateExpire_def)
  show "ks_wf sv'" unfolding e ks using assms(2) by simp
  have db: "rd_dict (sv_db s j) = (if j = i then (rd_dict (sv_db sv i))(k := None) else rd_dict (sv_db sv j))"
    "rd_expires (sv_db s j) = (if j = i then (rd_expires (sv_db sv i))(k := None) else rd_expires (sv_db sv j))" for j
    by (simp_all add: s_def) (simp_all add: propagateExpire_def)
  show "rd_dict (sv_db sv' j) = (if j = i then (rd_dict (sv_db sv i))(k := None) else rd_dict (sv_db sv j))"
    unfolding e by (rule db(1))
  have "frame sv s"
    by (simp add: frame_def s_def) (simp add: dbrem_def upd_db_def propagateExpire_def)
  moreover have "sv_policy s = sv_policy sv" "sv_samples s = sv_samples sv" "sv_mem s = sv_mem sv"
    "sv_idle s = sv_idle sv" "sv_client s = sv_client sv" "sv_dirty s = sv_dirty sv"
    by (simp_all add: s_def dbrem_def upd_db_def propagateExpire_def)
  moreover have "rd_expires (sv_db sv i) k \<noteq> None" if "volatile_policy (sv_policy sv)"
    using assms(3) that eviction_dict_dom(3) [OF assms(2), of "sv_db sv i"]
    by (auto simp: eviction_dict_def volatile_policy_def)
  ultimately show "shrunk sv sv'" unfolding shrunk_def e by (auto simp: db)
qed

section \<open>The loops\<close>

definition total_keys :: "server \<Rightarrow> nat" where
  "total_keys sv = sum (\<lambda>i. card (dom (rd_dict (sv_db sv i)))) {..<sv_dbnum sv}"

lemma shrunk_proj:
  assumes "shrunk sv sv'"
  shows "sv_policy sv' = sv_policy sv" "sv_samples sv' = sv_samples sv" "sv_dbnum sv' = sv_dbnum sv" "frame sv sv'"
    "sv_client sv' = sv_client sv" "sv_dirty sv' = sv_dirty sv"
  using assms frame_proj(4) by (auto simp: shrunk_def)

lemma total_keys_remove:
  assumes "ks_wf sv" "sv_dbnum sv' = sv_dbnum sv" "i < sv_dbnum sv" "k \<in> dom (rd_dict (sv_db sv i))"
    and "\<And>j. rd_dict (sv_db sv' j) = (if j = i then (rd_dict (sv_db sv i))(k := None) else rd_dict (sv_db sv j))"
  shows "Suc (total_keys sv') = total_keys sv"
proof -
  let ?f = "\<lambda>j. card (dom (rd_dict (sv_db sv j)))" and ?g = "\<lambda>j. card (dom (rd_dict (sv_db sv' j)))"
  have "Suc (?g i) = ?f i"
    using assms(4) ks_wfD(4) [OF assms(1), of i] card_Suc_Diff1 [of "dom (rd_dict (sv_db sv i))" k]
    by (simp add: assms(5))
  moreover have "sum ?g ({..<sv_dbnum sv} - {i}) = sum ?f ({..<sv_dbnum sv} - {i})"
    by (rule sum.cong) (simp_all add: assms(5))
  ultimately show ?thesis
    using assms(2,3) sum.remove [of "{..<sv_dbnum sv}" i ?f] sum.remove [of "{..<sv_dbnum sv}" i ?g]
    by (simp add: total_keys_def)
qed

definition nothing_to_evict :: "server \<Rightarrow> nat \<Rightarrow> bool" where
  "nothing_to_evict sv i \<longleftrightarrow>
     sv_policy sv = NO_EVICTION \<or> sv_samples sv = 0 \<or> eviction_dict (sv_policy sv) (sv_db sv i) = Map.empty"

lemma evict_pass_ok:
  assumes "ks_wf sv" "rnd_ok sv" "\<forall>i\<in>set dbs. i < sv_dbnum sv"
  shows "\<exists>n' m' kf' sv'. evict_pass dbs n m kf sv = Some (n', m', kf', sv') \<and> ks_wf sv' \<and> shrunk sv sv' \<and>
    total_keys sv' + kf' = total_keys sv + kf \<and> kf \<le> kf' \<and>
    (kf' = kf \<longrightarrow> sv' = sv \<and> (\<forall>i\<in>set dbs. nothing_to_evict sv i))"
  using assms
proof (induction dbs arbitrary: n m kf sv)
  case Nil
  then show ?case by (simp add: shrunk_refl)
next
  case (Cons i dbs)
  show ?case
  proof (cases "eviction_dict (sv_policy sv) (sv_db sv i) = Map.empty")
    case True
    then show ?thesis using Cons.IH [OF Cons.prems(1,2), of n m kf] Cons.prems(3)
      by (fastforce simp: nothing_to_evict_def)
  next
    case False
    obtain k n1 where c: "choose_key i n sv = Some (k, n1)"
      "\<forall>k'. k = Some k' \<longrightarrow> k' \<in> dom (eviction_dict (sv_policy sv) (sv_db sv i))"
      "k = None \<longrightarrow> sv_policy sv = NO_EVICTION \<or> sv_samples sv = 0"
      using choose_key_ok [OF Cons.prems(1,2) False, of n] by blast
    show ?thesis
    proof (cases k)
      case None
      then show ?thesis using Cons.IH [OF Cons.prems(1,2), of n1 m kf] Cons.prems(3) c(1,3) False
        by (fastforce simp: nothing_to_evict_def)
    next
      case (Some k')
      obtain m1 s where e: "evict_key i k' m sv = (m1, s)" by fastforce
      have kd: "k' \<in> dom (eviction_dict (sv_policy sv) (sv_db sv i))" using c(2) Some by blast
      note st = evict_key_state [OF e Cons.prems(1) kd]
      have p: "sv_dbnum s = sv_dbnum sv" by (rule shrunk_proj(3) [OF st(2)])
      have "k' \<in> dom (rd_dict (sv_db sv i))" using kd eviction_dict_dom(2) [OF Cons.prems(1)] by blast
      then have tot: "Suc (total_keys s) = total_keys sv"
        using Cons.prems(3) by (intro total_keys_remove [OF Cons.prems(1) p _ _ st(3)]) simp_all
      have "rnd_ok s" by (rule rnd_ok_shrunk [OF st(2) Cons.prems(2)])
      then obtain n' m' kf' sv' where ih: "evict_pass dbs n1 m1 (kf + 1) s = Some (n', m', kf', sv')" "ks_wf sv'" "shrunk s sv'"
        "total_keys sv' + kf' = total_keys s + (kf + 1)" "kf + 1 \<le> kf'"
        using Cons.IH [OF st(1), of n1 m1 "kf + 1"] Cons.prems(3) p by auto
      have "evict_pass (i # dbs) n m kf sv = Some (n', m', kf', sv')"
        using False c(1) Some e ih(1) by simp
      then show ?thesis using ih shrunk_trans [OF st(2) ih(3)] tot by simp
    qed
  qed
qed

lemma evict_loop_ok:
  assumes "ks_wf sv" "rnd_ok sv"
  shows "\<exists>b sv'. evict_loop n m t sv = Some (Some (b, sv')) \<and> ks_wf sv' \<and> shrunk sv sv' \<and>
    (b \<longrightarrow> sv' = sv \<or> total_keys sv' < total_keys sv) \<and> (\<not> b \<longrightarrow> (\<forall>i < sv_dbnum sv. nothing_to_evict sv' i))"
  using assms
proof (induction "total_keys sv" arbitrary: n m sv rule: less_induct)
  case less
  show ?case
  proof (cases "m < t")
    case False
    then have "evict_loop n m t sv = Some (Some (True, sv))" by (subst evict_loop.simps) simp
    then show ?thesis using less.prems shrunk_refl by auto
  next
    case True
    obtain n' m' kf s where p: "evict_pass [0..<sv_dbnum sv] n m 0 sv = Some (n', m', kf, s)" "ks_wf s" "shrunk sv s"
      "total_keys s + kf = total_keys sv"
      "kf = 0 \<longrightarrow> s = sv \<and> (\<forall>i\<in>set [0..<sv_dbnum sv]. nothing_to_evict sv i)"
      using evict_pass_ok [OF less.prems, of "[0..<sv_dbnum sv]" n m 0] by auto
    show ?thesis
    proof (cases "kf = 0")
      case kf: True
      then have "evict_loop n m t sv = Some (Some (False, s))"
        using True p(1) by (subst evict_loop.simps) simp
      then show ?thesis using p(2,3,5) kf by auto
    next
      case kf: False
      then have lt: "total_keys s < total_keys sv" using p(4) by simp
      have "rnd_ok s" by (rule rnd_ok_shrunk [OF p(3) less.prems(2)])
      then obtain b sv' where ih: "evict_loop n' m' t s = Some (Some (b, sv'))" "ks_wf sv'" "shrunk s sv'"
        "b \<longrightarrow> sv' = s \<or> total_keys sv' < total_keys s" "\<not> b \<longrightarrow> (\<forall>i < sv_dbnum s. nothing_to_evict sv' i)"
        using less.hyps [OF lt p(2), of n' m'] by blast
      have "evict_loop n m t sv = Some (Some (b, sv'))"
        using True p(1) kf ih(1) by (subst evict_loop.simps) simp
      then show ?thesis
        using ih lt shrunk_trans [OF p(3) ih(3)] shrunk_proj(3) [OF p(3)] by auto
    qed
  qed
qed

lemma freeMemory_ok:
  assumes "ks_wf sv" "rnd_ok sv"
  shows "\<exists>b sv'. freeMemoryIfNeeded sv = Some (Some (b, sv')) \<and> ks_wf sv' \<and> shrunk sv sv' \<and>
    (sv_mem sv (sv_db sv) \<le> sv_maxmemory sv \<longrightarrow> b \<and> sv' = sv) \<and>
    (\<not> b \<longrightarrow> (\<forall>i < sv_dbnum sv. nothing_to_evict sv' i))"
proof (cases "sv_mem sv (sv_db sv) \<le> sv_maxmemory sv \<or> sv_policy sv = NO_EVICTION")
  case True
  then have "freeMemoryIfNeeded sv = Some (Some (sv_mem sv (sv_db sv) \<le> sv_maxmemory sv, sv))"
    by (auto simp: freeMemoryIfNeeded_def Let_def)
  then show ?thesis using assms True shrunk_refl by (auto simp: nothing_to_evict_def)
next
  case False
  obtain b sv' where "evict_loop 0 0 (sv_mem sv (sv_db sv) - sv_maxmemory sv) sv = Some (Some (b, sv'))" "ks_wf sv'" "shrunk sv sv'"
    "\<not> b \<longrightarrow> (\<forall>i < sv_dbnum sv. nothing_to_evict sv' i)"
    using evict_loop_ok [OF assms] by blast
  then show ?thesis using False by (simp add: freeMemoryIfNeeded_def)
qed

text \<open>C20.
  Eviction always ends, whatever the measured sizes say, and fails nothing, for a random source that
  draws keys of the dictionaries it is given.  It only removes keys, together with their expire
  times, and only keys with an expire time under the volatile policies; it changes nothing when the
  memory is within the limit or the policy is \<open>noeviction\<close>, which is an error exactly over the limit;
  and it reports an error only when no database has a key left that the policy could take.
\<close>

theorem eviction_terminates:
  assumes "ks_wf sv" and "rnd_ok sv"
  shows "\<exists>b sv'. freeMemoryIfNeeded sv = Some (Some (b, sv')) \<and> ks_wf sv' \<and> frame sv sv' \<and>
    (\<forall>i k. rd_dict (sv_db sv' i) k = rd_dict (sv_db sv i) k \<and> rd_expires (sv_db sv' i) k = rd_expires (sv_db sv i) k \<or>
       rd_dict (sv_db sv' i) k = None \<and> rd_expires (sv_db sv' i) k = None \<and>
       (sv_policy sv \<in> {VOLATILE_LRU, VOLATILE_TTL, VOLATILE_RANDOM} \<longrightarrow> rd_expires (sv_db sv i) k \<noteq> None)) \<and>
    (sv_mem sv (sv_db sv) \<le> sv_maxmemory sv \<longrightarrow> b \<and> sv' = sv) \<and>
    (sv_policy sv = NO_EVICTION \<longrightarrow> sv' = sv \<and> (b \<longleftrightarrow> sv_mem sv (sv_db sv) \<le> sv_maxmemory sv)) \<and>
    (\<not> b \<longrightarrow> (\<forall>i < sv_dbnum sv. sv_policy sv = NO_EVICTION \<or> sv_samples sv = 0 \<or>
       eviction_dict (sv_policy sv) (sv_db sv' i) = Map.empty))"
proof -
  obtain b sv' where r: "freeMemoryIfNeeded sv = Some (Some (b, sv'))" "ks_wf sv'" "shrunk sv sv'"
    "sv_mem sv (sv_db sv) \<le> sv_maxmemory sv \<longrightarrow> b \<and> sv' = sv"
    "\<not> b \<longrightarrow> (\<forall>i < sv_dbnum sv. nothing_to_evict sv' i)"
    using freeMemory_ok [OF assms] by blast
  have none: "sv' = sv \<and> (b \<longleftrightarrow> sv_mem sv (sv_db sv) \<le> sv_maxmemory sv)" if "sv_policy sv = NO_EVICTION"
    using r(1) that by (auto simp: freeMemoryIfNeeded_def Let_def split: if_splits)
  have "nothing_to_evict sv' i \<Longrightarrow> sv_policy sv = NO_EVICTION \<or> sv_samples sv = 0 \<or>
       eviction_dict (sv_policy sv) (sv_db sv' i) = Map.empty" for i
    using shrunk_proj(1,2) [OF r(3)] by (simp add: nothing_to_evict_def)
  moreover have "volatile_policy p \<longleftrightarrow> p \<in> {VOLATILE_LRU, VOLATILE_TTL, VOLATILE_RANDOM}" for p
    by (auto simp: volatile_policy_def)
  ultimately show ?thesis
    using r none shrunk_key [OF r(3)] shrunk_proj(4) [OF r(3)] by (intro exI conjI) auto
qed

theorem eviction_terminates_witness:
  "\<exists>b sv'. freeMemoryIfNeeded ((example_server [''PING''])\<lparr>sv_policy := ALLKEYS_RANDOM,
       sv_mem := \<lambda>dbs. if rd_dict (dbs 0) ''a'' = None then 0 else 5\<rparr>) = Some (Some (b, sv'))"
proof -
  let ?s = "(example_server [''PING''])\<lparr>sv_policy := ALLKEYS_RANDOM,
       sv_mem := \<lambda>dbs. if rd_dict (dbs 0) ''a'' = None then 0 else 5\<rparr>"
  have db: "sv_db ?s = sv_db (example_server [''PING''])" by simp
  have w: "ks_wf ?s" using example_state(12) [of "[''PING'']"] unfolding ks_wf_def db .
  have d: "dom (rd_dict (sv_db (example_server [''PING'']) i)) \<subseteq> {''a''}" for i
    by (auto simp: example_server_def split: if_splits)
  have "sv_rnd ?s m n = ''a''" for m n by simp
  moreover have "''a'' \<in> dom m" if m: "m \<noteq> Map.empty" "dom m \<subseteq> dom (rd_dict (sv_db (example_server [''PING'']) i))"
    for m :: "key \<Rightarrow> robj option" and i
  proof -
    have "dom m \<noteq> {}" using m(1) by simp
    then show ?thesis using subset_trans [OF m(2) d [of i]] by blast
  qed
  ultimately have r: "rnd_ok ?s" unfolding rnd_ok_def db by metis
  show ?thesis using eviction_terminates [OF w r] by blast
qed

end
