(* ===== verification/Pubsub.thy ===== *)
theory Pubsub
  imports Db
begin

text \<open>
  Publish and subscribe (\<open>src/pubsub.c\<close>).  The server keeps, for every channel, the list of its
  clients, and one list of pairs of a client and a pattern; every client keeps its channels and
  its patterns.  The invariant \<open>pubsub_wf\<close> says that the two sides agree; with it no lookup of an
  operation fails.
\<close>

section \<open>Operations\<close>

definition shared_mbulkhdr :: "nat \<Rightarrow> string" where
  "shared_mbulkhdr j = ''*'' @ dec_nat j @ CRLF"

definition shared_messagebulk :: string where "shared_messagebulk = ''$7'' @ CRLF @ ''message'' @ CRLF"
definition shared_pmessagebulk :: string where "shared_pmessagebulk = ''$8'' @ CRLF @ ''pmessage'' @ CRLF"
definition shared_subscribebulk :: string where "shared_subscribebulk = ''$9'' @ CRLF @ ''subscribe'' @ CRLF"
definition shared_unsubscribebulk :: string where
  "shared_unsubscribebulk = ''$11'' @ CRLF @ ''unsubscribe'' @ CRLF"
definition shared_psubscribebulk :: string where
  "shared_psubscribebulk = ''$10'' @ CRLF @ ''psubscribe'' @ CRLF"
definition shared_punsubscribebulk :: string where
  "shared_punsubscribebulk = ''$12'' @ CRLF @ ''punsubscribe'' @ CRLF"

text \<open>\<open>dictSize(c->pubsub_channels)+listLength(c->pubsub_patterns)\<close>.\<close>

definition subscriptions :: "cid \<Rightarrow> server \<Rightarrow> nat" where
  "subscriptions c sv = length (c_channels (sv_client sv c)) + length (c_patterns (sv_client sv c))"

text \<open>The notification: the kind, the name and the number of subscriptions left.\<close>

definition notify_client :: "cid \<Rightarrow> string \<Rightarrow> string \<Rightarrow> server \<Rightarrow> server option" where
  "notify_client c kind name sv =
     Option.bind (addReplyBulk c (createStringObject name) (addReply c kind (addReply c (shared_mbulkhdr 3) sv)))
       (\<lambda>sv. Some (addReplyLongLong c (int (subscriptions c sv)) sv))"

definition notify_nothing :: "cid \<Rightarrow> string \<Rightarrow> server \<Rightarrow> server" where
  "notify_nothing c kind sv =
     (let sv = addReply c shared_nullbulk (addReply c kind (addReply c (shared_mbulkhdr 3) sv))
      in addReplyLongLong c (int (subscriptions c sv)) sv)"

definition pubsubSubscribeChannel :: "cid \<Rightarrow> string \<Rightarrow> server \<Rightarrow> (nat \<times> server) option" where
  "pubsubSubscribeChannel c channel sv =
     (let (retval, sv) =
            (if channel \<in> set (c_channels (sv_client sv c)) then (0, sv)
             else let sv1 = upd_client c (c_channels_update (\<lambda>chs. chs @ [channel])) sv;
                      clients = (case sv_channels sv channel of None \<Rightarrow> [] | Some cs \<Rightarrow> cs)
                  in (1, sv1\<lparr>sv_channels := (sv_channels sv)(channel \<mapsto> clients @ [c])\<rparr>))
      in Option.bind (notify_client c shared_subscribebulk channel sv) (\<lambda>sv. Some (retval, sv)))"

definition pubsubUnsubscribeChannel :: "cid \<Rightarrow> string \<Rightarrow> bool \<Rightarrow> server \<Rightarrow> (nat \<times> server) option" where
  "pubsubUnsubscribeChannel c channel notify sv =
     Option.bind
       (if channel \<in> set (c_channels (sv_client sv c))
        then let sv1 = upd_client c (c_channels_update (remove1 channel)) sv
             in case sv_channels sv channel of
                  None \<Rightarrow> None
                | Some clients \<Rightarrow>
                    if c \<notin> set clients then None
                    else let clients' = remove1 c clients
                         in Some (1, sv1\<lparr>sv_channels :=
                                (sv_channels sv)(channel := if clients' = [] then None else Some clients')\<rparr>)
        else Some (0, sv))
       (\<lambda>(retval, sv).
         if notify
         then Option.bind (notify_client c shared_unsubscribebulk channel sv) (\<lambda>sv. Some (retval, sv))
         else Some (retval, sv))"

definition pubsubSubscribePattern :: "cid \<Rightarrow> string \<Rightarrow> server \<Rightarrow> (nat \<times> server) option" where
  "pubsubSubscribePattern c pattern sv =
     (let (retval, sv) =
            (if pattern \<in> set (c_patterns (sv_client sv c)) then (0, sv)
             else let sv1 = upd_client c (c_patterns_update (\<lambda>ps. ps @ [pattern])) sv
                  in (1, sv1\<lparr>sv_patterns := sv_patterns sv @ [(c, pattern)]\<rparr>))
      in Option.bind (notify_client c shared_psubscribebulk pattern sv) (\<lambda>sv. Some (retval, sv)))"

text \<open>\<open>listDelNode\<close> of a node that was not found is a crash.\<close>

definition pubsubUnsubscribePattern :: "cid \<Rightarrow> string \<Rightarrow> bool \<Rightarrow> server \<Rightarrow> (nat \<times> server) option" where
  "pubsubUnsubscribePattern c pattern notify sv =
     Option.bind
       (if pattern \<in> set (c_patterns (sv_client sv c))
        then let sv1 = upd_client c (c_patterns_update (remove1 pattern)) sv
             in if (c, pattern) \<notin> set (sv_patterns sv) then None
                else Some (1, sv1\<lparr>sv_patterns := remove1 (c, pattern) (sv_patterns sv)\<rparr>)
        else Some (0, sv))
       (\<lambda>(retval, sv).
         if notify
         then Option.bind (notify_client c shared_punsubscribebulk pattern sv) (\<lambda>sv. Some (retval, sv))
         else Some (retval, sv))"

text \<open>
  The dictionary of the channels of a client, as its iterator sees it (the values are NULL in
  the code), and the loops of the two \<open>UnsubscribeAll\<close> functions: the iterator and the list
  cursor have moved on before an entry is deleted.
\<close>

definition channel_dict :: "client \<Rightarrow> key \<Rightarrow> robj option" where
  "channel_dict cl = (\<lambda>ch. if ch \<in> set (c_channels cl) then Some (createStringObject ch) else None)"

fun unsubscribe_loop ::
    "(string \<Rightarrow> server \<Rightarrow> (nat \<times> server) option) \<Rightarrow> string list \<Rightarrow> nat \<Rightarrow> server \<Rightarrow> (nat \<times> server) option" where
  "unsubscribe_loop unsub [] count sv = Some (count, sv)"
| "unsubscribe_loop unsub (name # names) count sv =
     Option.bind (unsub name sv) (\<lambda>(n, sv). unsubscribe_loop unsub names (count + n) sv)"

definition pubsubUnsubscribeAllChannels :: "cid \<Rightarrow> bool \<Rightarrow> server \<Rightarrow> (nat \<times> server) option" where
  "pubsubUnsubscribeAllChannels c notify sv =
     Option.bind (unsubscribe_loop (\<lambda>ch. pubsubUnsubscribeChannel c ch notify)
                    (sv_iter sv (channel_dict (sv_client sv c))) 0 sv)
       (\<lambda>(count, sv).
         Some (count, if notify \<and> count = 0 then notify_nothing c shared_unsubscribebulk sv else sv))"

definition pubsubUnsubscribeAllPatterns :: "cid \<Rightarrow> bool \<Rightarrow> server \<Rightarrow> (nat \<times> server) option" where
  "pubsubUnsubscribeAllPatterns c notify sv =
     Option.bind (unsubscribe_loop (\<lambda>p. pubsubUnsubscribePattern c p notify) (c_patterns (sv_client sv c)) 0 sv)
       (\<lambda>(count, sv).
         Some (count, if notify \<and> count = 0 then notify_nothing c shared_punsubscribebulk sv else sv))"

text \<open>Publishing: first to the clients of the channel, then to those with a matching pattern.\<close>

fun publish_channel_loop :: "string \<Rightarrow> string \<Rightarrow> cid list \<Rightarrow> server \<Rightarrow> server option" where
  "publish_channel_loop channel message [] sv = Some sv"
| "publish_channel_loop channel message (c # cs) sv =
     Option.bind (addReplyBulk c (createStringObject channel)
                   (addReply c shared_messagebulk (addReply c (shared_mbulkhdr 3) sv))) (\<lambda>sv.
     Option.bind (addReplyBulk c (createStringObject message) sv) (\<lambda>sv.
     publish_channel_loop channel message cs sv))"

fun publish_pattern_loop :: "string \<Rightarrow> string \<Rightarrow> (cid \<times> string) list \<Rightarrow> nat \<Rightarrow> server \<Rightarrow> (nat \<times> server) option" where
  "publish_pattern_loop channel message [] receivers sv = Some (receivers, sv)"
| "publish_pattern_loop channel message ((c, pattern) # ps) receivers sv =
     Option.bind (stringmatchlen (pattern @ [NUL]) 0 (int (length pattern)) (channel @ [NUL]) 0 (int (length channel)) False)
       (\<lambda>m. if m
            then Option.bind (addReplyBulk c (createStringObject pattern)
                   (addReply c shared_pmessagebulk (addReply c (shared_mbulkhdr 4) sv))) (\<lambda>sv.
                 Option.bind (addReplyBulk c (createStringObject channel) sv) (\<lambda>sv.
                 Option.bind (addReplyBulk c (createStringObject message) sv) (\<lambda>sv.
                 publish_pattern_loop channel message ps (receivers + 1) sv)))
            else publish_pattern_loop channel message ps receivers sv)"

definition pubsubPublishMessage :: "string \<Rightarrow> string \<Rightarrow> server \<Rightarrow> (nat \<times> server) option" where
  "pubsubPublishMessage channel message sv =
     (let clients = (case sv_channels sv channel of None \<Rightarrow> [] | Some cs \<Rightarrow> cs)
      in Option.bind (publish_channel_loop channel message clients sv) (\<lambda>sv.
         publish_pattern_loop channel message (sv_patterns sv) (length clients) sv))"

text \<open>The commands.\<close>

fun each_argument ::
    "(string \<Rightarrow> server \<Rightarrow> (nat \<times> server) option) \<Rightarrow> string list \<Rightarrow> server \<Rightarrow> server option" where
  "each_argument f [] sv = Some sv"
| "each_argument f (a # as) sv = Option.bind (f a sv) (\<lambda>(_, sv). each_argument f as sv)"

definition subscribeCommand :: "cid \<Rightarrow> server \<Rightarrow> server option" where
  "subscribeCommand c sv =
     each_argument (pubsubSubscribeChannel c) (drop 1 (c_argv (sv_client sv c))) sv"

definition unsubscribeCommand :: "cid \<Rightarrow> server \<Rightarrow> server option" where
  "unsubscribeCommand c sv =
     (if argc c sv = 1
      then Option.bind (pubsubUnsubscribeAllChannels c True sv) (\<lambda>(_, sv). Some sv)
      else each_argument (\<lambda>ch. pubsubUnsubscribeChannel c ch True) (drop 1 (c_argv (sv_client sv c))) sv)"

definition psubscribeCommand :: "cid \<Rightarrow> server \<Rightarrow> server option" where
  "psubscribeCommand c sv =
     each_argument (pubsubSubscribePattern c) (drop 1 (c_argv (sv_client sv c))) sv"

definition punsubscribeCommand :: "cid \<Rightarrow> server \<Rightarrow> server option" where
  "punsubscribeCommand c sv =
     (if argc c sv = 1
      then Option.bind (pubsubUnsubscribeAllPatterns c True sv) (\<lambda>(_, sv). Some sv)
      else each_argument (\<lambda>p. pubsubUnsubscribePattern c p True) (drop 1 (c_argv (sv_client sv c))) sv)"

definition publishCommand :: "cid \<Rightarrow> server \<Rightarrow> server option" where
  "publishCommand c sv =
     Option.bind (pubsubPublishMessage (argv c sv 1) (argv c sv 2) sv) (\<lambda>(receivers, sv).
     Some (addReplyLongLong c (int receivers) sv))"

section \<open>The invariant\<close>

definition subscribers :: "server \<Rightarrow> string \<Rightarrow> cid set" where
  "subscribers sv ch = (case sv_channels sv ch of None \<Rightarrow> {} | Some cs \<Rightarrow> set cs)"

definition pubsub_wf :: "server \<Rightarrow> bool" where
  "pubsub_wf sv \<longleftrightarrow>
     (\<forall>ch cs. sv_channels sv ch = Some cs \<longrightarrow> cs \<noteq> [] \<and> distinct cs \<and> small ch) \<and>
     distinct (sv_patterns sv) \<and> (\<forall>(c, p)\<in>set (sv_patterns sv). small p) \<and>
     (\<forall>c. distinct (c_channels (sv_client sv c)) \<and> distinct (c_patterns (sv_client sv c))) \<and>
     (\<forall>c ch. ch \<in> set (c_channels (sv_client sv c)) \<longleftrightarrow> c \<in> subscribers sv ch) \<and>
     (\<forall>c p. p \<in> set (c_patterns (sv_client sv c)) \<longleftrightarrow> (c, p) \<in> set (sv_patterns sv))"

lemma pubsub_wfD:
  assumes "pubsub_wf sv"
  shows "sv_channels sv ch = Some cs \<Longrightarrow> cs \<noteq> [] \<and> distinct cs \<and> small ch"
    "distinct (sv_patterns sv)" "(c, p) \<in> set (sv_patterns sv) \<Longrightarrow> small p"
    "distinct (c_channels (sv_client sv c))" "distinct (c_patterns (sv_client sv c))"
    "ch \<in> set (c_channels (sv_client sv c)) \<longleftrightarrow> c \<in> subscribers sv ch"
    "p \<in> set (c_patterns (sv_client sv c)) \<longleftrightarrow> (c, p) \<in> set (sv_patterns sv)"
  using assms by (auto simp: pubsub_wf_def)

lemma pubsub_wf_small:
  assumes "pubsub_wf sv"
  shows "ch \<in> set (c_channels (sv_client sv c)) \<Longrightarrow> small ch" "p \<in> set (c_patterns (sv_client sv c)) \<Longrightarrow> small p"
  using pubsub_wfD(1,3,6,7) [OF assms] by (auto simp: subscribers_def split: option.splits)

lemma pubsub_wf_cong:
  assumes "sv_channels sv' = sv_channels sv" "sv_patterns sv' = sv_patterns sv"
    and "\<And>c. c_channels (sv_client sv' c) = c_channels (sv_client sv c)"
    and "\<And>c. c_patterns (sv_client sv' c) = c_patterns (sv_client sv c)"
  shows "pubsub_wf sv' = pubsub_wf sv"
  by (simp only: pubsub_wf_def subscribers_def assms)

lemma pubsub_wf_frame: "frame sv sv' \<Longrightarrow> pubsub_wf sv' = pubsub_wf sv"
  by (rule pubsub_wf_cong) (simp_all only: frame_session_proj frame_server_proj)

lemma pubsub_wf_watch_frame: "watch_frame sv sv' \<Longrightarrow> pubsub_wf sv' = pubsub_wf sv"
  by (rule pubsub_wf_cong) (auto simp: watch_frame_def)

text \<open>What these operations change: subscriptions and output, nothing else.\<close>

definition pubsub_frame :: "server \<Rightarrow> server \<Rightarrow> bool" where
  "pubsub_frame sv sv' \<longleftrightarrow>
     (\<exists>chs ps out chd psd.
        sv' = sv\<lparr>sv_client := \<lambda>c. (sv_client sv c)\<lparr>c_channels := chs c, c_patterns := ps c, c_out := out c\<rparr>,
                 sv_channels := chd, sv_patterns := psd\<rparr>)"

lemma pubsub_frameI:
  assumes "sv' = sv\<lparr>sv_client := \<lambda>c. (sv_client sv c)\<lparr>c_channels := chs c, c_patterns := ps c, c_out := out c\<rparr>,
                 sv_channels := chd, sv_patterns := psd\<rparr>"
  shows "pubsub_frame sv sv'"
  unfolding pubsub_frame_def by (intro exI) (rule assms)

lemma pubsub_frame_refl: "pubsub_frame sv sv"
  by (rule pubsub_frameI [where chs = "\<lambda>c. c_channels (sv_client sv c)" and ps = "\<lambda>c. c_patterns (sv_client sv c)"
        and out = "\<lambda>c. c_out (sv_client sv c)" and chd = "sv_channels sv" and psd = "sv_patterns sv"]) simp

lemma pubsub_frame_trans: "pubsub_frame a b \<Longrightarrow> pubsub_frame b d \<Longrightarrow> pubsub_frame a d"
  unfolding pubsub_frame_def by (elim exE) (simp, blast)

lemma pubsub_frame_proj:
  assumes "pubsub_frame sv sv'"
  shows "sv_db sv' = sv_db sv" "c_watched (sv_client sv' c) = c_watched (sv_client sv c)"
    "c_dirty_cas (sv_client sv' c) = c_dirty_cas (sv_client sv c)" "sv_now sv' = sv_now sv"
    "sv_loading sv' = sv_loading sv" "sv_masterhost sv' = sv_masterhost sv"
    "c_db (sv_client sv' c) = c_db (sv_client sv c)" "c_multi (sv_client sv' c) = c_multi (sv_client sv c)"
    "c_mstate (sv_client sv' c) = c_mstate (sv_client sv c)" "c_dirty_exec (sv_client sv' c) = c_dirty_exec (sv_client sv c)"
    "sv_dbnum sv' = sv_dbnum sv" "sv_dirty sv' = sv_dirty sv" "sv_clients sv' = sv_clients sv"
    "c_argv (sv_client sv' c) = c_argv (sv_client sv c)" "c_fake (sv_client sv' c) = c_fake (sv_client sv c)"
    "sv_iter sv' = sv_iter sv" "c_cmd (sv_client sv' c) = c_cmd (sv_client sv c)"
    "c_close_after_reply (sv_client sv' c) = c_close_after_reply (sv_client sv c)"
  using assms by (auto simp: pubsub_frame_def)

lemma pubsub_frame_ks: "pubsub_frame sv sv' \<Longrightarrow> ks_wf sv' = ks_wf sv"
  by (simp add: ks_wf_def pubsub_frame_proj)

lemma pubsub_frame_watch: "pubsub_frame sv sv' \<Longrightarrow> watch_wf sv' = watch_wf sv"
  by (simp add: watch_wf_def watchers_def pubsub_frame_proj)

lemma pubsub_frame_reply: "pubsub_frame sv (addReplyString c s sv)"
  unfolding addReplyString_def upd_client_def
  by (rule pubsub_frameI [where chs = "\<lambda>c. c_channels (sv_client sv c)" and ps = "\<lambda>c. c_patterns (sv_client sv c)"
        and out = "\<lambda>d. if d = c \<and> receptive (sv_client sv c) then c_out (sv_client sv c) @ s else c_out (sv_client sv d)"
        and chd = "sv_channels sv" and psd = "sv_patterns sv"])
    (auto simp: fun_eq_iff prepareClientToWrite_def)

lemma pubsub_wf_reply [simp]: "pubsub_wf (addReplyString c s sv) = pubsub_wf sv"
  by (rule pubsub_wf_frame) simp

lemma subscriptions_reply [simp]:
  "subscriptions c (addReplyString d s sv) = subscriptions c sv"
  "c_channels (sv_client (addReplyString d s sv) e) = c_channels (sv_client sv e)"
  "c_patterns (sv_client (addReplyString d s sv) e) = c_patterns (sv_client sv e)"
  "sv_channels (addReplyString d s sv) = sv_channels sv" "sv_patterns (addReplyString d s sv) = sv_patterns sv"
  "sv_iter (addReplyString d s sv) = sv_iter sv"
  by (simp_all add: subscriptions_def addReplyString_def upd_client_def)

section \<open>One step on both sides\<close>

definition set_chan :: "string \<Rightarrow> cid list option \<Rightarrow> cid \<Rightarrow> string list \<Rightarrow> server \<Rightarrow> server" where
  "set_chan ch cs c chs sv =
     (upd_client c (c_channels_update (\<lambda>_. chs)) sv)\<lparr>sv_channels := (sv_channels sv)(ch := cs)\<rparr>"

definition set_pats :: "(cid \<times> string) list \<Rightarrow> cid \<Rightarrow> string list \<Rightarrow> server \<Rightarrow> server" where
  "set_pats psd c ps sv = (upd_client c (c_patterns_update (\<lambda>_. ps)) sv)\<lparr>sv_patterns := psd\<rparr>"

lemma set_chan_state [simp]:
  "sv_channels (set_chan ch cs c chs sv) = (sv_channels sv)(ch := cs)"
  "sv_patterns (set_chan ch cs c chs sv) = sv_patterns sv"
  "c_channels (sv_client (set_chan ch cs c chs sv) d) = (if d = c then chs else c_channels (sv_client sv d))"
  "c_patterns (sv_client (set_chan ch cs c chs sv) d) = c_patterns (sv_client sv d)"
  "subscribers (set_chan ch cs c chs sv) ch' =
     (if ch' = ch then (case cs of None \<Rightarrow> {} | Some cs \<Rightarrow> set cs) else subscribers sv ch')"
  "sv_iter (set_chan ch cs c chs sv) = sv_iter sv"
  by (simp_all add: set_chan_def upd_client_def subscribers_def)

lemma set_pats_state [simp]:
  "sv_channels (set_pats psd c ps sv) = sv_channels sv" "sv_patterns (set_pats psd c ps sv) = psd"
  "c_channels (sv_client (set_pats psd c ps sv) d) = c_channels (sv_client sv d)"
  "c_patterns (sv_client (set_pats psd c ps sv) d) = (if d = c then ps else c_patterns (sv_client sv d))"
  "subscribers (set_pats psd c ps sv) ch = subscribers sv ch" "sv_iter (set_pats psd c ps sv) = sv_iter sv"
  by (simp_all add: set_pats_def upd_client_def subscribers_def)

lemma set_chan_frame: "pubsub_frame sv (set_chan ch cs c chs sv)"
  unfolding set_chan_def upd_client_def
  by (rule pubsub_frameI [where chs = "\<lambda>d. if d = c then chs else c_channels (sv_client sv d)"
        and ps = "\<lambda>c. c_patterns (sv_client sv c)" and out = "\<lambda>c. c_out (sv_client sv c)"
        and chd = "(sv_channels sv)(ch := cs)" and psd = "sv_patterns sv"])
    (auto simp: fun_eq_iff)

lemma set_pats_frame: "pubsub_frame sv (set_pats psd c ps sv)"
  unfolding set_pats_def upd_client_def
  by (rule pubsub_frameI [where chs = "\<lambda>d. c_channels (sv_client sv d)"
        and ps = "\<lambda>d. if d = c then ps else c_patterns (sv_client sv d)" and out = "\<lambda>c. c_out (sv_client sv c)"
        and chd = "sv_channels sv" and psd = psd])
    (auto simp: fun_eq_iff)

lemma set_chan_wf:
  assumes "pubsub_wf sv" "\<And>l. cs = Some l \<Longrightarrow> l \<noteq> [] \<and> distinct l \<and> small ch" "distinct chs"
    and "\<And>d. d \<noteq> c \<Longrightarrow> (d \<in> (case cs of None \<Rightarrow> {} | Some cs \<Rightarrow> set cs)) = (d \<in> subscribers sv ch)"
    and "\<And>ch'. ch' \<in> set chs \<longleftrightarrow>
      c \<in> (if ch' = ch then (case cs of None \<Rightarrow> {} | Some cs \<Rightarrow> set cs) else subscribers sv ch')"
  shows "pubsub_wf (set_chan ch cs c chs sv)"
  unfolding pubsub_wf_def
proof (intro conjI allI impI)
  fix ch' l assume "sv_channels (set_chan ch cs c chs sv) ch' = Some l"
  then show "l \<noteq> []" "distinct l" "small ch'"
    using assms(2) pubsub_wfD(1) [OF assms(1)] by (auto split: if_splits)
next
  fix d ch' show "(ch' \<in> set (c_channels (sv_client (set_chan ch cs c chs sv) d))) = (d \<in> subscribers (set_chan ch cs c chs sv) ch')"
    using assms(4,5) pubsub_wfD(6) [OF assms(1)] by (cases "d = c") simp_all
qed (use assms(3) pubsub_wfD [OF assms(1)] in auto)

lemma set_pats_wf:
  assumes "pubsub_wf sv" "distinct psd" "distinct ps" "\<And>d p. (d, p) \<in> set psd \<Longrightarrow> small p"
    and "\<And>d p. d \<noteq> c \<Longrightarrow> ((d, p) \<in> set psd) = ((d, p) \<in> set (sv_patterns sv))"
    and "\<And>p. p \<in> set ps \<longleftrightarrow> (c, p) \<in> set psd"
  shows "pubsub_wf (set_pats psd c ps sv)"
  unfolding pubsub_wf_def
proof (intro conjI allI impI)
  fix d p show "(p \<in> set (c_patterns (sv_client (set_pats psd c ps sv) d))) = ((d, p) \<in> set (sv_patterns (set_pats psd c ps sv)))"
    using assms(5,6) pubsub_wfD(7) [OF assms(1)] by (cases "d = c") simp_all
qed (use assms(2-4) pubsub_wfD [OF assms(1)] in auto)

section \<open>The operations as equations\<close>

lemma addReplyLongLong_string: "\<exists>s. addReplyLongLong c n = addReplyString c s"
  by (simp add: addReplyLongLong_def addReplyLongLongWithPrefix_def fun_eq_iff) blast

lemma notify_client_string:
  assumes "small name"
  shows "\<exists>s. notify_client c kind name sv = Some (addReplyString c s sv)"
proof -
  obtain s where "addReplyLongLong c (int (subscriptions c sv)) = addReplyString c s"
    using addReplyLongLong_string by blast
  then show ?thesis using assms by (simp add: notify_client_def addReplyBulk_props) blast
qed

lemma notify_client_eq:
  assumes "small name" "int (subscriptions c sv) \<le> LLONG_MAX"
  shows "notify_client c kind name sv =
    Some (addReplyString c (shared_mbulkhdr 3 @ kind @ bulk name @ intreply (int (subscriptions c sv))) sv)"
  using assms by (simp add: notify_client_def addReplyBulk_props addReplyLongLong_props)

lemma notify_nothing_string: "\<exists>s. notify_nothing c kind sv = addReplyString c s sv"
proof -
  obtain s where "addReplyLongLong c (int (subscriptions c sv)) = addReplyString c s"
    using addReplyLongLong_string by blast
  then show ?thesis by (simp add: notify_nothing_def Let_def) blast
qed

lemma c_channels_upd: "c_channels_update f cl = c_channels_update (\<lambda>_. f (c_channels cl)) cl"
  by (cases cl) simp

lemma c_patterns_upd: "c_patterns_update f cl = c_patterns_update (\<lambda>_. f (c_patterns cl)) cl"
  by (cases cl) simp

definition subscribed :: "cid \<Rightarrow> string \<Rightarrow> server \<Rightarrow> server" where
  "subscribed c ch sv =
     (if ch \<in> set (c_channels (sv_client sv c)) then sv
      else set_chan ch (Some ((case sv_channels sv ch of None \<Rightarrow> [] | Some cs \<Rightarrow> cs) @ [c])) c
             (c_channels (sv_client sv c) @ [ch]) sv)"

definition unsubscribed :: "cid \<Rightarrow> string \<Rightarrow> server \<Rightarrow> server" where
  "unsubscribed c ch sv =
     (if ch \<in> set (c_channels (sv_client sv c))
      then let cs = remove1 c (case sv_channels sv ch of None \<Rightarrow> [] | Some cs \<Rightarrow> cs)
           in set_chan ch (if cs = [] then None else Some cs) c (remove1 ch (c_channels (sv_client sv c))) sv
      else sv)"

definition psubscribed :: "cid \<Rightarrow> string \<Rightarrow> server \<Rightarrow> server" where
  "psubscribed c p sv =
     (if p \<in> set (c_patterns (sv_client sv c)) then sv
      else set_pats (sv_patterns sv @ [(c, p)]) c (c_patterns (sv_client sv c) @ [p]) sv)"

definition punsubscribed :: "cid \<Rightarrow> string \<Rightarrow> server \<Rightarrow> server" where
  "punsubscribed c p sv =
     (if p \<in> set (c_patterns (sv_client sv c))
      then set_pats (remove1 (c, p) (sv_patterns sv)) c (remove1 p (c_patterns (sv_client sv c))) sv
      else sv)"

lemma subscribe_eq:
  "pubsubSubscribeChannel c ch sv =
    Option.bind (notify_client c shared_subscribebulk ch (subscribed c ch sv))
      (\<lambda>sv'. Some (if ch \<in> set (c_channels (sv_client sv c)) then 0 else 1, sv'))"
  unfolding pubsubSubscribeChannel_def subscribed_def set_chan_def Let_def
    upd_client_def c_channels_upd [of "\<lambda>chs. chs @ [ch]"]
  by simp

lemma psubscribe_eq:
  "pubsubSubscribePattern c p sv =
    Option.bind (notify_client c shared_psubscribebulk p (psubscribed c p sv))
      (\<lambda>sv'. Some (if p \<in> set (c_patterns (sv_client sv c)) then 0 else 1, sv'))"
  unfolding pubsubSubscribePattern_def psubscribed_def set_pats_def Let_def
    upd_client_def c_patterns_upd [of "\<lambda>ps. ps @ [p]"]
  by simp

lemma unsubscribe_eq:
  assumes "pubsub_wf sv"
  shows "pubsubUnsubscribeChannel c ch notify sv =
    Option.bind (if notify then notify_client c shared_unsubscribebulk ch (unsubscribed c ch sv) else Some (unsubscribed c ch sv))
      (\<lambda>sv'. Some (if ch \<in> set (c_channels (sv_client sv c)) then 1 else 0, sv'))"
proof (cases "ch \<in> set (c_channels (sv_client sv c))")
  case True
  then obtain cs where "sv_channels sv ch = Some cs" "c \<in> set cs"
    using pubsub_wfD(6) [OF assms, of ch c] by (auto simp: subscribers_def split: option.splits)
  then show ?thesis using True
    unfolding pubsubUnsubscribeChannel_def unsubscribed_def set_chan_def Let_def
      upd_client_def c_channels_upd [of "remove1 ch"]
    by simp
qed (simp add: pubsubUnsubscribeChannel_def unsubscribed_def)

lemma punsubscribe_eq:
  assumes "pubsub_wf sv"
  shows "pubsubUnsubscribePattern c p notify sv =
    Option.bind (if notify then notify_client c shared_punsubscribebulk p (punsubscribed c p sv) else Some (punsubscribed c p sv))
      (\<lambda>sv'. Some (if p \<in> set (c_patterns (sv_client sv c)) then 1 else 0, sv'))"
proof (cases "p \<in> set (c_patterns (sv_client sv c))")
  case True
  then have "(c, p) \<in> set (sv_patterns sv)" using pubsub_wfD(7) [OF assms, of p c] by simp
  then show ?thesis using True
    unfolding pubsubUnsubscribePattern_def punsubscribed_def set_pats_def Let_def
      upd_client_def c_patterns_upd [of "remove1 p"]
    by simp
qed (simp add: pubsubUnsubscribePattern_def punsubscribed_def)

section \<open>The invariant is kept\<close>

lemma subscribed_props:
  assumes "pubsub_wf sv" "small ch"
  shows "pubsub_wf (subscribed c ch sv)" "pubsub_frame sv (subscribed c ch sv)"
    "subscribers (subscribed c ch sv) ch' = (if ch' = ch then insert c (subscribers sv ch) else subscribers sv ch')"
proof -
  define cs where "cs = (case sv_channels sv ch of None \<Rightarrow> [] | Some cs \<Rightarrow> cs)"
  have cs: "set cs = subscribers sv ch" "distinct cs"
    using pubsub_wfD(1) [OF assms(1), of ch] by (auto simp: cs_def subscribers_def split: option.split)
  have "pubsub_wf (set_chan ch (Some (cs @ [c])) c (c_channels (sv_client sv c) @ [ch]) sv)"
    if new: "ch \<notin> set (c_channels (sv_client sv c))"
  proof (rule set_chan_wf [OF assms(1)])
    have c: "c \<notin> subscribers sv ch" using pubsub_wfD(6) [OF assms(1)] new by blast
    show "l \<noteq> [] \<and> distinct l \<and> small ch" if "Some (cs @ [c]) = Some l" for l
      using that cs c assms(2) by auto
    show "distinct (c_channels (sv_client sv c) @ [ch])" using new pubsub_wfD(4) [OF assms(1)] by simp
    show "ch' \<in> set (c_channels (sv_client sv c) @ [ch]) \<longleftrightarrow>
      c \<in> (if ch' = ch then case Some (cs @ [c]) of None \<Rightarrow> {} | Some cs \<Rightarrow> set cs else subscribers sv ch')" for ch'
      using pubsub_wfD(6) [OF assms(1)] by auto
  qed (use cs in auto)
  then show "pubsub_wf (subscribed c ch sv)"
    using assms(1) by (simp add: subscribed_def cs_def)
  show "pubsub_frame sv (subscribed c ch sv)"
    by (simp add: subscribed_def set_chan_frame pubsub_frame_refl)
  show "subscribers (subscribed c ch sv) ch' = (if ch' = ch then insert c (subscribers sv ch) else subscribers sv ch')"
    using cs(1) pubsub_wfD(6) [OF assms(1), of ch c] by (auto simp: subscribed_def cs_def [symmetric])
qed

lemma unsubscribed_props:
  assumes "pubsub_wf sv"
  shows "pubsub_wf (unsubscribed c ch sv)" "pubsub_frame sv (unsubscribed c ch sv)"
    "subscribers (unsubscribed c ch sv) ch' = (if ch' = ch then subscribers sv ch - {c} else subscribers sv ch')"
    "set (c_channels (sv_client (unsubscribed c ch sv) c)) = set (c_channels (sv_client sv c)) - {ch}"
proof -
  define cs where "cs = remove1 c (case sv_channels sv ch of None \<Rightarrow> [] | Some cs \<Rightarrow> cs)"
  have cs: "set cs = subscribers sv ch - {c}" "distinct cs"
    using pubsub_wfD(1) [OF assms, of ch]
    by (auto simp: cs_def subscribers_def set_remove1_eq split: option.split)
  have s: "(case if cs = [] then None else Some cs of None \<Rightarrow> {} | Some cs \<Rightarrow> set cs) = set cs" by simp
  have d: "distinct (c_channels (sv_client sv c))" by (rule pubsub_wfD(4) [OF assms])
  have "pubsub_wf (set_chan ch (if cs = [] then None else Some cs) c (remove1 ch (c_channels (sv_client sv c))) sv)"
    if old: "ch \<in> set (c_channels (sv_client sv c))"
  proof (rule set_chan_wf [OF assms])
    show "l \<noteq> [] \<and> distinct l \<and> small ch" if "(if cs = [] then None else Some cs) = Some l" for l
      using that cs pubsub_wf_small(1) [OF assms old] by (auto split: if_splits)
    show "distinct (remove1 ch (c_channels (sv_client sv c)))" using d by simp
    show "ch' \<in> set (remove1 ch (c_channels (sv_client sv c))) \<longleftrightarrow>
      c \<in> (if ch' = ch then case if cs = [] then None else Some cs of None \<Rightarrow> {} | Some cs \<Rightarrow> set cs else subscribers sv ch')" for ch'
      unfolding s using d cs pubsub_wfD(6) [OF assms] by (auto simp: set_remove1_eq)
    show "e \<in> (case if cs = [] then None else Some cs of None \<Rightarrow> {} | Some cs \<Rightarrow> set cs) \<longleftrightarrow> e \<in> subscribers sv ch"
      if "e \<noteq> c" for e
      unfolding s using cs that by auto
  qed
  then show "pubsub_wf (unsubscribed c ch sv)"
    using assms by (simp add: unsubscribed_def Let_def cs_def [symmetric])
  show "pubsub_frame sv (unsubscribed c ch sv)"
    by (simp add: unsubscribed_def set_chan_frame pubsub_frame_refl Let_def)
  show "subscribers (unsubscribed c ch sv) ch' = (if ch' = ch then subscribers sv ch - {c} else subscribers sv ch')"
  proof (cases "ch \<in> set (c_channels (sv_client sv c))")
    case True
    then show ?thesis
      by (simp only: unsubscribed_def Let_def if_True cs_def [symmetric] set_chan_state s cs(1))
  next
    case False
    then show ?thesis using pubsub_wfD(6) [OF assms, of ch c] by (simp add: unsubscribed_def)
  qed
  show "set (c_channels (sv_client (unsubscribed c ch sv) c)) = set (c_channels (sv_client sv c)) - {ch}"
    using d by (auto simp: unsubscribed_def Let_def set_remove1_eq)
qed

lemma psubscribed_props:
  assumes "pubsub_wf sv" "small p"
  shows "pubsub_wf (psubscribed c p sv)" "pubsub_frame sv (psubscribed c p sv)"
    "set (sv_patterns (psubscribed c p sv)) = insert (c, p) (set (sv_patterns sv))"
proof -
  have "pubsub_wf (set_pats (sv_patterns sv @ [(c, p)]) c (c_patterns (sv_client sv c) @ [p]) sv)"
    if new: "p \<notin> set (c_patterns (sv_client sv c))"
    by (rule set_pats_wf [OF assms(1)])
      (use new assms(2) pubsub_wfD(2,3,5,7) [OF assms(1)] in auto)
  then show "pubsub_wf (psubscribed c p sv)" using assms(1) by (simp add: psubscribed_def)
  show "pubsub_frame sv (psubscribed c p sv)"
    by (simp add: psubscribed_def set_pats_frame pubsub_frame_refl)
  show "set (sv_patterns (psubscribed c p sv)) = insert (c, p) (set (sv_patterns sv))"
    using pubsub_wfD(7) [OF assms(1), of p c] by (auto simp: psubscribed_def)
qed

lemma punsubscribed_props:
  assumes "pubsub_wf sv"
  shows "pubsub_wf (punsubscribed c p sv)" "pubsub_frame sv (punsubscribed c p sv)"
    "set (sv_patterns (punsubscribed c p sv)) = set (sv_patterns sv) - {(c, p)}"
    "set (c_patterns (sv_client (punsubscribed c p sv) c)) = set (c_patterns (sv_client sv c)) - {p}"
proof -
  note d = pubsub_wfD(2) [OF assms] pubsub_wfD(5) [OF assms, of c]
  have "pubsub_wf (set_pats (remove1 (c, p) (sv_patterns sv)) c (remove1 p (c_patterns (sv_client sv c))) sv)"
    by (rule set_pats_wf [OF assms])
      (use d pubsub_wfD(3,7) [OF assms] in \<open>auto simp: set_remove1_eq\<close>)
  then show "pubsub_wf (punsubscribed c p sv)" using assms by (simp add: punsubscribed_def)
  show "pubsub_frame sv (punsubscribed c p sv)"
    by (simp add: punsubscribed_def set_pats_frame pubsub_frame_refl)
  show "set (sv_patterns (punsubscribed c p sv)) = set (sv_patterns sv) - {(c, p)}"
    using d pubsub_wfD(7) [OF assms, of p c] by (auto simp: punsubscribed_def set_remove1_eq)
  show "set (c_patterns (sv_client (punsubscribed c p sv) c)) = set (c_patterns (sv_client sv c)) - {p}"
    using d by (auto simp: punsubscribed_def set_remove1_eq)
qed

text \<open>The outcome of an operation: the invariant, and only subscriptions and output changed.\<close>

abbreviation pfine :: "server \<Rightarrow> server \<Rightarrow> bool" where
  "pfine sv sv' \<equiv> pubsub_wf sv' \<and> pubsub_frame sv sv'"

lemma pfine_reply: "pfine sv sv' \<Longrightarrow> pfine sv (addReplyString c s sv')"
  using pubsub_frame_reply pubsub_frame_trans by (metis pubsub_wf_reply)

lemma pfine_notify:
  assumes "pfine sv sv'" "small name"
  shows "ok (notify_client c kind name sv') (pfine sv)"
  using notify_client_string [OF assms(2), of c kind sv'] pfine_reply [OF assms(1)] by auto

lemma pfine_ok_bind:
  assumes "ok x (pfine sv)"
  shows "ok (Option.bind x (\<lambda>sv'. Some (n, sv'))) (\<lambda>(_, sv'). pfine sv sv')"
  using assms by simp

lemma subscribe_fine:
  "pubsub_wf sv \<Longrightarrow> small ch \<Longrightarrow> ok (pubsubSubscribeChannel c ch sv) (\<lambda>(_, sv'). pfine sv sv')"
  unfolding subscribe_eq using subscribed_props(1,2) by (intro pfine_ok_bind pfine_notify) blast+

lemma psubscribe_fine:
  "pubsub_wf sv \<Longrightarrow> small p \<Longrightarrow> ok (pubsubSubscribePattern c p sv) (\<lambda>(_, sv'). pfine sv sv')"
  unfolding psubscribe_eq using psubscribed_props(1,2) by (intro pfine_ok_bind pfine_notify) blast+

lemma unsubscribe_fine:
  assumes "pubsub_wf sv" "small ch \<or> \<not> notify"
  shows "ok (pubsubUnsubscribeChannel c ch notify sv) (\<lambda>(_, sv'). pfine sv sv')"
  unfolding unsubscribe_eq [OF assms(1)]
  using unsubscribed_props(1,2) [OF assms(1)] assms(2) by (intro pfine_ok_bind) (auto intro: pfine_notify)

lemma punsubscribe_fine:
  assumes "pubsub_wf sv" "small p \<or> \<not> notify"
  shows "ok (pubsubUnsubscribePattern c p notify sv) (\<lambda>(_, sv'). pfine sv sv')"
  unfolding punsubscribe_eq [OF assms(1)]
  using punsubscribed_props(1,2) [OF assms(1)] assms(2) by (intro pfine_ok_bind) (auto intro: pfine_notify)

section \<open>Unsubscribing from everything\<close>

text \<open>The order of the iterator is that of some enumeration of the channels.\<close>

definition channel_order_ok :: "cid \<Rightarrow> server \<Rightarrow> bool" where
  "channel_order_ok c sv \<longleftrightarrow>
     distinct (sv_iter sv (channel_dict (sv_client sv c))) \<and>
     set (sv_iter sv (channel_dict (sv_client sv c))) = set (c_channels (sv_client sv c))"

lemma unsubscribe_channels_loop:
  assumes "pubsub_wf sv" "\<forall>ch\<in>set chs. small ch"
  shows "ok (unsubscribe_loop (\<lambda>ch. pubsubUnsubscribeChannel c ch notify) chs n sv) (\<lambda>(_, sv').
    pfine sv sv' \<and> set (c_channels (sv_client sv' c)) = set (c_channels (sv_client sv c)) - set chs \<and>
    c_patterns (sv_client sv' c) = c_patterns (sv_client sv c))"
  using assms
proof (induction chs arbitrary: n sv)
  case Nil
  then show ?case by (simp add: pubsub_frame_refl)
next
  case (Cons ch chs)
  have s: "small ch" using Cons.prems(2) by simp
  let ?u = "unsubscribed c ch sv"
  note u = unsubscribed_props [OF Cons.prems(1), of c ch]
  have pat: "c_patterns (sv_client ?u c) = c_patterns (sv_client sv c)"
    by (simp add: unsubscribed_def Let_def)
  obtain k where k: "(if notify then notify_client c shared_unsubscribebulk ch ?u else Some ?u) = Some (addReplyString c k ?u)"
    using notify_client_string [OF s, of c shared_unsubscribebulk ?u] by (cases notify) (auto intro: that [of "[]"])
  define s1 where "s1 = addReplyString c k ?u"
  have s1: "pubsub_wf s1" "pubsub_frame sv s1" "set (c_channels (sv_client s1 c)) = set (c_channels (sv_client sv c)) - {ch}"
    "c_patterns (sv_client s1 c) = c_patterns (sv_client sv c)"
    using u pat pfine_reply [of ?u sv c k] by (simp_all add: s1_def)
  define r where "r = (if ch \<in> set (c_channels (sv_client sv c)) then 1 else 0 :: nat)"
  have run: "unsubscribe_loop (\<lambda>ch. pubsubUnsubscribeChannel c ch notify) (ch # chs) n sv =
    unsubscribe_loop (\<lambda>ch. pubsubUnsubscribeChannel c ch notify) chs (n + r) s1"
    by (simp add: unsubscribe_eq [OF Cons.prems(1)] k s1_def r_def)
  show ?case
    unfolding run
    using Cons.IH [OF s1(1), of "n + r"] Cons.prems(2) s1(3,4) pubsub_frame_trans [OF s1(2)]
    by (auto simp: ok_iff)
qed

lemma unsubscribe_patterns_loop:
  assumes "pubsub_wf sv" "\<forall>p\<in>set ps. small p"
  shows "ok (unsubscribe_loop (\<lambda>p. pubsubUnsubscribePattern c p notify) ps n sv) (\<lambda>(_, sv').
    pfine sv sv' \<and> set (c_patterns (sv_client sv' c)) = set (c_patterns (sv_client sv c)) - set ps \<and>
    c_channels (sv_client sv' c) = c_channels (sv_client sv c))"
  using assms
proof (induction ps arbitrary: n sv)
  case Nil
  then show ?case by (simp add: pubsub_frame_refl)
next
  case (Cons p ps)
  have s: "small p" using Cons.prems(2) by simp
  let ?u = "punsubscribed c p sv"
  note u = punsubscribed_props [OF Cons.prems(1), of c p]
  have chs: "c_channels (sv_client ?u c) = c_channels (sv_client sv c)"
    by (simp add: punsubscribed_def)
  obtain k where k: "(if notify then notify_client c shared_punsubscribebulk p ?u else Some ?u) = Some (addReplyString c k ?u)"
    using notify_client_string [OF s, of c shared_punsubscribebulk ?u] by (cases notify) (auto intro: that [of "[]"])
  define s1 where "s1 = addReplyString c k ?u"
  have s1: "pubsub_wf s1" "pubsub_frame sv s1" "set (c_patterns (sv_client s1 c)) = set (c_patterns (sv_client sv c)) - {p}"
    "c_channels (sv_client s1 c) = c_channels (sv_client sv c)"
    using u chs pfine_reply [of ?u sv c k] by (simp_all add: s1_def)
  define r where "r = (if p \<in> set (c_patterns (sv_client sv c)) then 1 else 0 :: nat)"
  have run: "unsubscribe_loop (\<lambda>p. pubsubUnsubscribePattern c p notify) (p # ps) n sv =
    unsubscribe_loop (\<lambda>p. pubsubUnsubscribePattern c p notify) ps (n + r) s1"
    by (simp add: punsubscribe_eq [OF Cons.prems(1)] k s1_def r_def)
  show ?case
    unfolding run
    using Cons.IH [OF s1(1), of "n + r"] Cons.prems(2) s1(3,4) pubsub_frame_trans [OF s1(2)]
    by (auto simp: ok_iff)
qed

lemma pfine_nothing: "pfine sv sv' \<Longrightarrow> pfine sv (notify_nothing c kind sv')"
  using notify_nothing_string [of c kind sv'] pfine_reply by (metis (no_types, lifting))

lemma notify_nothing_subs [simp]:
  "c_channels (sv_client (notify_nothing c kind sv) d) = c_channels (sv_client sv d)"
  "c_patterns (sv_client (notify_nothing c kind sv) d) = c_patterns (sv_client sv d)"
  using notify_nothing_string [of c kind sv] by auto

lemma unsubscribe_all_channels:
  assumes "pubsub_wf sv" "channel_order_ok c sv"
  shows "ok (pubsubUnsubscribeAllChannels c notify sv) (\<lambda>(_, sv'). pfine sv sv' \<and>
    c_channels (sv_client sv' c) = [] \<and> c_patterns (sv_client sv' c) = c_patterns (sv_client sv c))"
proof -
  let ?o = "sv_iter sv (channel_dict (sv_client sv c))"
  have o: "set ?o = set (c_channels (sv_client sv c))" using assms(2) by (simp add: channel_order_ok_def)
  then have "\<forall>ch\<in>set ?o. small ch" using pubsub_wf_small(1) [OF assms(1)] by simp
  from unsubscribe_channels_loop [OF assms(1) this, of c notify 0]
  show ?thesis
    unfolding pubsubUnsubscribeAllChannels_def
    using pfine_nothing [of _ sv c shared_unsubscribebulk] by (auto simp: ok_iff o)
qed

lemma unsubscribe_all_patterns:
  assumes "pubsub_wf sv"
  shows "ok (pubsubUnsubscribeAllPatterns c notify sv) (\<lambda>(_, sv'). pfine sv sv' \<and>
    c_patterns (sv_client sv' c) = [] \<and> c_channels (sv_client sv' c) = c_channels (sv_client sv c))"
proof -
  have "\<forall>p\<in>set (c_patterns (sv_client sv c)). small p" using pubsub_wf_small(2) [OF assms] by simp
  from unsubscribe_patterns_loop [OF assms(1) this, of c notify 0]
  show ?thesis
    unfolding pubsubUnsubscribeAllPatterns_def
    using pfine_nothing [of _ sv c shared_punsubscribebulk] by (auto simp: ok_iff)
qed

section \<open>The commands\<close>

lemma each_argument_fine:
  assumes "\<And>a s. a \<in> set as \<Longrightarrow> pubsub_wf s \<Longrightarrow> ok (f a s) (\<lambda>(_, s'). pfine s s')" and "pubsub_wf sv"
  shows "ok (each_argument f as sv) (pfine sv)"
  using assms
proof (induction as arbitrary: sv)
  case Nil
  then show ?case by (simp add: pubsub_frame_refl)
next
  case (Cons a as)
  from Cons.prems(1) [of a sv] Cons.prems(2) obtain n s where s: "f a sv = Some (n, s)" "pfine sv s"
    by (auto simp: ok_iff)
  have "ok (each_argument f as s) (pfine s)" using Cons.IH Cons.prems(1) s(2) by simp
  then show ?case using s pubsub_frame_trans [of sv s] by (auto simp: ok_iff)
qed

lemma argv_small: "args_ok n c sv \<Longrightarrow> a \<in> set (drop 1 (c_argv (sv_client sv c))) \<Longrightarrow> small a"
  using in_set_dropD by (fastforce simp: args_ok_def)

lemma subscribe_commands_fine:
  assumes "pubsub_wf sv" "args_ok n c sv" "channel_order_ok c sv"
  shows "ok (subscribeCommand c sv) (pfine sv)" "ok (psubscribeCommand c sv) (pfine sv)"
    "ok (unsubscribeCommand c sv) (pfine sv)" "ok (punsubscribeCommand c sv) (pfine sv)"
proof -
  note s = argv_small [OF assms(2)]
  show "ok (subscribeCommand c sv) (pfine sv)"
    unfolding subscribeCommand_def by (rule each_argument_fine [OF subscribe_fine assms(1)]) (use s in auto)
  show "ok (psubscribeCommand c sv) (pfine sv)"
    unfolding psubscribeCommand_def by (rule each_argument_fine [OF psubscribe_fine assms(1)]) (use s in auto)
  have "ok (each_argument (\<lambda>ch. pubsubUnsubscribeChannel c ch True) (drop 1 (c_argv (sv_client sv c))) sv) (pfine sv)"
    by (rule each_argument_fine [OF unsubscribe_fine assms(1)]) (use s in auto)
  then show "ok (unsubscribeCommand c sv) (pfine sv)"
    unfolding unsubscribeCommand_def
    using unsubscribe_all_channels [OF assms(1,3), of True] by (auto simp: ok_iff)
  have "ok (each_argument (\<lambda>p. pubsubUnsubscribePattern c p True) (drop 1 (c_argv (sv_client sv c))) sv) (pfine sv)"
    by (rule each_argument_fine [OF punsubscribe_fine assms(1)]) (use s in auto)
  then show "ok (punsubscribeCommand c sv) (pfine sv)"
    unfolding punsubscribeCommand_def
    using unsubscribe_all_patterns [OF assms(1), of c True] by (auto simp: ok_iff)
qed

section \<open>Publishing\<close>

definition channel_message :: "string \<Rightarrow> string \<Rightarrow> string" where
  "channel_message ch m = shared_mbulkhdr 3 @ shared_messagebulk @ bulk ch @ bulk m"

definition pattern_message :: "string \<Rightarrow> string \<Rightarrow> string \<Rightarrow> string" where
  "pattern_message p ch m = shared_mbulkhdr 4 @ shared_pmessagebulk @ bulk p @ bulk ch @ bulk m"

definition deliveries :: "(string \<Rightarrow> bool) \<Rightarrow> string \<Rightarrow> string \<Rightarrow> server \<Rightarrow> cid \<Rightarrow> string" where
  "deliveries mt ch m sv d =
     (if d \<in> subscribers sv ch then channel_message ch m else []) @
     concat (map (\<lambda>(c, p). pattern_message p ch m) (filter (\<lambda>(c, p). c = d \<and> mt p) (sv_patterns sv)))"

lemma publish_channel_loop_eq:
  "small ch \<Longrightarrow> small m \<Longrightarrow>
    publish_channel_loop ch m cs sv = Some (fold (\<lambda>c. addReplyString c (channel_message ch m)) cs sv)"
  by (induction cs arbitrary: sv) (simp_all add: addReplyBulk_props channel_message_def)

lemma publish_pattern_loop_eq:
  assumes "small ch" "small m" "\<forall>(c, p)\<in>set ps. small p \<and> stringmatch p ch False = Some (mt p)"
  shows "publish_pattern_loop ch m ps n sv =
    Some (n + length (filter (\<lambda>(c, p). mt p) ps),
          fold (\<lambda>(c, p). addReplyString c (pattern_message p ch m)) (filter (\<lambda>(c, p). mt p) ps) sv)"
  using assms(3)
proof (induction ps arbitrary: n sv)
  case (Cons cp ps)
  obtain c p where cp: "cp = (c, p)" by fastforce
  then have "small p" "stringmatchlen (p @ [NUL]) 0 (int (length p)) (ch @ [NUL]) 0 (int (length ch)) False = Some (mt p)"
    using Cons.prems by (simp_all add: stringmatch_def)
  then show ?case using Cons assms(1,2) cp by (simp add: addReplyBulk_props pattern_message_def)
qed simp

lemma c_out_reply:
  "c_out (sv_client (addReplyString c s sv) d) =
     (if d = c \<and> receptive (sv_client sv c) then c_out (sv_client sv d) @ s else c_out (sv_client sv d))"
  by (simp add: addReplyString_def upd_client_def prepareClientToWrite_def)

lemma c_fake_reply [simp]:
  "c_fake (sv_client (addReplyString c s sv) d) = c_fake (sv_client sv d)"
  "c_close_after_reply (sv_client (addReplyString c s sv) d) = c_close_after_reply (sv_client sv d)"
  by (simp_all add: addReplyString_def upd_client_def)

lemma fold_reply_out:
  assumes "receptive (sv_client sv d)"
  shows "c_out (sv_client (fold (\<lambda>x. addReplyString (f x) (g x)) xs sv) d) =
    c_out (sv_client sv d) @ concat (map g (filter (\<lambda>x. f x = d) xs))"
  using assms by (induction xs arbitrary: sv) (simp_all add: c_out_reply)

lemma fold_reply_pfine: "pubsub_wf sv \<Longrightarrow> pfine sv (fold (\<lambda>x. addReplyString (f x) (g x)) xs sv)"
proof (induction xs arbitrary: sv)
  case (Cons x xs)
  let ?s = "addReplyString (f x) (g x) sv"
  have "pfine ?s (fold (\<lambda>x. addReplyString (f x) (g x)) xs ?s)" using Cons by simp
  then show ?case using pubsub_frame_trans [OF pubsub_frame_reply] by auto
qed (simp add: pubsub_frame_refl)

lemma fold_reply_fake:
  "c_fake (sv_client (fold (\<lambda>x. addReplyString (f x) (g x)) xs sv) d) = c_fake (sv_client sv d)"
  "c_close_after_reply (sv_client (fold (\<lambda>x. addReplyString (f x) (g x)) xs sv) d) = c_close_after_reply (sv_client sv d)"
  by (induction xs arbitrary: sv) simp_all

lemma fold_reply_patterns [simp]:
  "sv_patterns (fold (\<lambda>x. addReplyString (f x) (g x)) xs sv) = sv_patterns sv"
  by (induction xs arbitrary: sv) simp_all

lemma filter_eq_distinct: "distinct xs \<Longrightarrow> filter (\<lambda>x. x = d) xs = (if d \<in> set xs then [d] else [])"
  by (induction xs) auto

lemma publish_eq:
  assumes "pubsub_wf sv" "small ch" "small m" "\<forall>(c, p)\<in>set (sv_patterns sv). stringmatch p ch False = Some (mt p)"
  shows "\<exists>sv'. pubsubPublishMessage ch m sv =
      Some (card (subscribers sv ch) + length (filter (\<lambda>(c, p). mt p) (sv_patterns sv)), sv') \<and> pfine sv sv' \<and>
    (\<forall>d. receptive (sv_client sv d) \<longrightarrow> c_out (sv_client sv' d) = c_out (sv_client sv d) @ deliveries mt ch m sv d)"
proof -
  define cs where "cs = (case sv_channels sv ch of None \<Rightarrow> [] | Some cs \<Rightarrow> cs)"
  have cs: "set cs = subscribers sv ch" "distinct cs"
    using pubsub_wfD(1) [OF assms(1), of ch] by (auto simp: cs_def subscribers_def split: option.split)
  then have n: "length cs = card (subscribers sv ch)" using distinct_card by metis
  define ps where "ps = filter (\<lambda>(c, p). mt p) (sv_patterns sv)"
  define s1 where "s1 = fold (\<lambda>c. addReplyString c (channel_message ch m)) cs sv"
  define s2 where "s2 = fold (\<lambda>x. addReplyString (fst x) (pattern_message (snd x) ch m)) ps s1"
  have p: "\<forall>(c, p)\<in>set (sv_patterns s1). small p \<and> stringmatch p ch False = Some (mt p)"
    using assms(4) pubsub_wfD(3) [OF assms(1)] fold_reply_patterns [of "\<lambda>c. c" _ cs sv] by (auto simp: s1_def)
  have pat: "sv_patterns s1 = sv_patterns sv" using fold_reply_patterns [of "\<lambda>c. c"] by (simp add: s1_def)
  have run: "pubsubPublishMessage ch m sv = Some (card (subscribers sv ch) + length ps, s2)"
    using publish_pattern_loop_eq [OF assms(2,3) p, of "length cs" s1] assms(2,3)
    by (simp add: pubsubPublishMessage_def publish_channel_loop_eq cs_def [symmetric] s1_def [symmetric]
        s2_def ps_def n pat case_prod_unfold)
  have f1: "pfine sv s1" using fold_reply_pfine [OF assms(1), of "\<lambda>c. c"] by (simp add: s1_def)
  then have f2: "pfine sv s2"
    using fold_reply_pfine [of s1 fst "\<lambda>x. pattern_message (snd x) ch m" ps] pubsub_frame_trans [of sv s1 s2]
    by (simp add: s2_def)
  have "c_out (sv_client s2 d) = c_out (sv_client sv d) @ deliveries mt ch m sv d"
    if d: "receptive (sv_client sv d)" for d
  proof -
    have o1: "c_out (sv_client s1 d) = c_out (sv_client sv d) @ (if d \<in> subscribers sv ch then channel_message ch m else [])"
      using fold_reply_out [OF d, of "\<lambda>c. c" "\<lambda>_. channel_message ch m" cs] cs
      by (simp add: s1_def filter_eq_distinct)
    have "receptive (sv_client s1 d)" using d fold_reply_fake [of "\<lambda>c. c"] by (simp add: s1_def)
    from fold_reply_out [OF this, of fst "\<lambda>x. pattern_message (snd x) ch m" ps]
    show ?thesis
      by (simp add: s2_def o1 deliveries_def ps_def case_prod_unfold conj_commute)
  qed
  then show ?thesis using run f2 ps_def by blast
qed

lemma fold_reply_tables:
  "sv_channels (fold (\<lambda>x. addReplyString (f x) (g x)) xs sv) = sv_channels sv"
  by (induction xs arbitrary: sv) simp_all

lemma publish_eq_tables:
  assumes "pubsub_wf sv" "small ch" "small m" "\<forall>(c, p)\<in>set (sv_patterns sv). stringmatch p ch False = Some (mt p)"
    and "pubsubPublishMessage ch m sv = Some (n, s)"
  shows "sv_channels s = sv_channels sv" "sv_patterns s = sv_patterns sv"
proof -
  define s1 where "s1 = fold (\<lambda>c. addReplyString c (channel_message ch m))
    (case sv_channels sv ch of None \<Rightarrow> [] | Some cs \<Rightarrow> cs) sv"
  have s1: "sv_channels s1 = sv_channels sv" "sv_patterns s1 = sv_patterns sv"
    using fold_reply_tables [of "\<lambda>c. c"] fold_reply_patterns [of "\<lambda>c. c"] by (simp_all add: s1_def)
  have p: "\<forall>(c, p)\<in>set (sv_patterns s1). small p \<and> stringmatch p ch False = Some (mt p)"
    using assms(4) pubsub_wfD(3) [OF assms(1)] s1 by auto
  have "s = fold (\<lambda>x. addReplyString (fst x) (pattern_message (snd x) ch m)) (filter (\<lambda>(c, p). mt p) (sv_patterns s1)) s1"
    using assms(5) publish_pattern_loop_eq [OF assms(2,3) p] s1
    by (simp add: pubsubPublishMessage_def publish_channel_loop_eq assms(2,3) s1_def [symmetric] Let_def case_prod_unfold)
  then show "sv_channels s = sv_channels sv" "sv_patterns s = sv_patterns sv"
    by (simp_all add: s1 fold_reply_tables)
qed

section \<open>Properties\<close>

lemma subscribers_reply [simp]: "subscribers (addReplyString c s sv) ch = subscribers sv ch"
  by (simp add: subscribers_def)

lemma subscribe_each:
  assumes "pubsub_wf sv" "\<forall>ch\<in>set chs. small ch"
  shows "ok (each_argument (pubsubSubscribeChannel c) chs sv) (\<lambda>sv'. pfine sv sv' \<and>
    (\<forall>ch. subscribers sv' ch = (if ch \<in> set chs then insert c (subscribers sv ch) else subscribers sv ch)))"
  using assms
proof (induction chs arbitrary: sv)
  case (Cons ch chs)
  have s: "small ch" using Cons.prems(2) by simp
  note u = subscribed_props [OF Cons.prems(1) s, of c]
  obtain k where k: "notify_client c shared_subscribebulk ch (subscribed c ch sv) = Some (addReplyString c k (subscribed c ch sv))"
    using notify_client_string [OF s] by blast
  define s1 where "s1 = addReplyString c k (subscribed c ch sv)"
  have s1: "pubsub_wf s1" "pubsub_frame sv s1"
    "\<And>ch'. subscribers s1 ch' = (if ch' = ch then insert c (subscribers sv ch) else subscribers sv ch')"
    using u pfine_reply [of "subscribed c ch sv" sv c k] by (simp_all add: s1_def)
  have "each_argument (pubsubSubscribeChannel c) (ch # chs) sv = each_argument (pubsubSubscribeChannel c) chs s1"
    by (simp add: subscribe_eq k s1_def)
  then show ?case
    using Cons.IH [OF s1(1)] Cons.prems(2) pubsub_frame_trans [OF s1(2)] by (auto simp: ok_iff s1(3))
qed (simp add: pubsub_frame_refl)

lemma unsubscribe_each:
  assumes "pubsub_wf sv" "\<forall>ch\<in>set chs. small ch"
  shows "ok (each_argument (\<lambda>ch. pubsubUnsubscribeChannel c ch True) chs sv) (\<lambda>sv'. pfine sv sv' \<and>
    (\<forall>ch. subscribers sv' ch = (if ch \<in> set chs then subscribers sv ch - {c} else subscribers sv ch)))"
  using assms
proof (induction chs arbitrary: sv)
  case (Cons ch chs)
  have s: "small ch" using Cons.prems(2) by simp
  note u = unsubscribed_props [OF Cons.prems(1), of c ch]
  obtain k where k: "notify_client c shared_unsubscribebulk ch (unsubscribed c ch sv) = Some (addReplyString c k (unsubscribed c ch sv))"
    using notify_client_string [OF s] by blast
  define s1 where "s1 = addReplyString c k (unsubscribed c ch sv)"
  have s1: "pubsub_wf s1" "pubsub_frame sv s1"
    "\<And>ch'. subscribers s1 ch' = (if ch' = ch then subscribers sv ch - {c} else subscribers sv ch')"
    using u(1-3) pfine_reply [of "unsubscribed c ch sv" sv c k] by (simp_all add: s1_def)
  have "each_argument (\<lambda>ch. pubsubUnsubscribeChannel c ch True) (ch # chs) sv =
    each_argument (\<lambda>ch. pubsubUnsubscribeChannel c ch True) chs s1"
    by (simp add: unsubscribe_eq [OF Cons.prems(1)] k s1_def)
  then show ?case
    using Cons.IH [OF s1(1)] Cons.prems(2) pubsub_frame_trans [OF s1(2)] by (auto simp: ok_iff s1(3))
qed (simp add: pubsub_frame_refl)

text \<open>C18.
  SUBSCRIBE and UNSUBSCRIBE with arguments keep the two sides of the subscriptions in step, touch
  neither the keyspace nor the transactions, fail no assertion, and change the subscribers of
  exactly the named channels, by exactly the client.  An UNSUBSCRIBE without arguments leaves the
  client in no channel at all.
\<close>

theorem subscriptions_consistent:
  assumes "pubsub_wf sv" and "args_ok 1 c sv" and "chs = drop 1 (c_argv (sv_client sv c))"
    and "channel_order_ok c sv"
  shows "ok (subscribeCommand c sv) (\<lambda>sv'. pubsub_wf sv' \<and> pubsub_frame sv sv' \<and>
           (\<forall>ch. subscribers sv' ch = (if ch \<in> set chs then insert c (subscribers sv ch) else subscribers sv ch))) \<and>
         ok (unsubscribeCommand c sv) (\<lambda>sv'. pubsub_wf sv' \<and> pubsub_frame sv sv' \<and>
           (if chs = [] then \<forall>ch. c \<notin> subscribers sv' ch
            else \<forall>ch. subscribers sv' ch = (if ch \<in> set chs then subscribers sv ch - {c} else subscribers sv ch)))"
proof -
  have s: "\<forall>ch\<in>set chs. small ch" using argv_small [OF assms(2)] assms(3) by blast
  have n: "argc c sv = 1 \<longleftrightarrow> chs = []" using assms(2,3) by (auto simp: args_ok_def)
  have all: "c \<notin> subscribers sv' ch" if "pubsub_wf sv'" "c_channels (sv_client sv' c) = []" for sv' ch
    using pubsub_wfD(6) [OF that(1), of ch c] that(2) by simp
  have "ok (unsubscribeCommand c sv) (\<lambda>sv'. pubsub_wf sv' \<and> pubsub_frame sv sv' \<and>
           (if chs = [] then \<forall>ch. c \<notin> subscribers sv' ch
            else \<forall>ch. subscribers sv' ch = (if ch \<in> set chs then subscribers sv ch - {c} else subscribers sv ch)))"
  proof (cases "chs = []")
    case True
    then show ?thesis
      using unsubscribe_all_channels [OF assms(1,4), of True] n all
      by (auto simp: unsubscribeCommand_def ok_iff)
  next
    case False
    then show ?thesis
      using unsubscribe_each [OF assms(1) s, of c] n
      by (simp add: unsubscribeCommand_def assms(3))
  qed
  then show ?thesis
    using subscribe_each [OF assms(1) s, of c] by (simp add: subscribeCommand_def assms(3))
qed

lemma example_pubsub_wf [simp]:
  "pubsub_wf (example_server args)" "c_channels (sv_client (example_server args) c) = []"
  "subscribers (example_server args) ch = {}" "sv_patterns (example_server args) = []"
proof -
  have *: "sv_channels (example_server args) = Map.empty" "sv_patterns (example_server args) = []"
    "c_channels (sv_client (example_server args) d) = []" "c_patterns (sv_client (example_server args) d) = []" for d
    by (simp_all add: example_server_def with_args_def upd_client_def initServer_def dbset_def upd_db_def)
  show "pubsub_wf (example_server args)" "c_channels (sv_client (example_server args) c) = []"
    "subscribers (example_server args) ch = {}" "sv_patterns (example_server args) = []"
    by (simp_all add: pubsub_wf_def subscribers_def *)
qed

lemma example_order:
  "channel_order_ok c ((example_server args)\<lparr>sv_iter := \<lambda>_. []\<rparr>)"
  "pubsub_wf ((example_server args)\<lparr>sv_iter := iter\<rparr>)"
proof -
  have "pubsub_wf ((example_server args)\<lparr>sv_iter := iter\<rparr>) = pubsub_wf (example_server args)"
    by (rule pubsub_wf_cong) simp_all
  then show "pubsub_wf ((example_server args)\<lparr>sv_iter := iter\<rparr>)" by simp
qed (simp add: channel_order_ok_def)

theorem subscriptions_consistent_witness:
  "ok (subscribeCommand 0 ((example_server [''SUBSCRIBE'', ''news''])\<lparr>sv_iter := \<lambda>_. []\<rparr>))
     (\<lambda>sv'. subscribers sv' ''news'' = {0} \<and> subscribers sv' ''x'' = {})"
proof -
  let ?s = "(example_server [''SUBSCRIBE'', ''news''])\<lparr>sv_iter := \<lambda>_. []\<rparr>"
  have a: "args_ok 1 0 ?s" by (simp add: args_ok_def small_def)
  have e: "subscribers ?s ch = {}" for ch
    using example_pubsub_wf(3) [of "[''SUBSCRIBE'', ''news'']" ch] by (simp add: subscribers_def)
  show ?thesis
    using subscriptions_consistent [OF example_order(2) a refl example_order(1)]
    by (elim conjE) (erule ok_mono, simp add: e)
qed

lemma example_match: "stringmatch ''n*'' ''news'' False = Some True"
  unfolding stringmatch_def using stringmatchlen_render [where ts = "[Lit CHR ''n'', Star]" and s = "''news''" and nocase = False]
  by (simp add: char_eq_def)

text \<open>A server with one client that listens to a channel, by name and by a pattern.\<close>

definition listening :: "string list \<Rightarrow> server" where
  "listening args = psubscribed 1 ''n*'' (subscribed 1 ''news'' (example_server args))"

lemma listening:
  "pubsub_wf (listening args)" "subscribers (listening args) ''news'' = {1}" "sv_patterns (listening args) = [(1, ''n*'')]"
  "argv 0 (listening args) j = args ! j" "receptive (sv_client (listening args) d)" "c_out (sv_client (listening args) d) = []"
proof -
  let ?e = "example_server args" and ?s = "subscribed 1 ''news'' (example_server args)"
  have s: "pubsub_wf ?s" "pubsub_frame ?e ?s" "subscribers ?s ''news'' = {1}"
    using subscribed_props [OF example_pubsub_wf(1) [of args], of "''news''" 1] by (simp_all add: small_def)
  have p: "pubsub_wf (listening args)" "pubsub_frame ?s (listening args)"
    using psubscribed_props [OF s(1), of "''n*''" 1] by (simp_all add: small_def listening_def)
  have f: "pubsub_frame ?e (listening args)" by (rule pubsub_frame_trans [OF s(2) p(2)])
  have e: "receptive (sv_client ?e d)" "c_out (sv_client ?e d) = []"
    "c_patterns (sv_client ?e d) = []" for d
    by (simp_all add: example_server_def with_args_def upd_client_def initServer_def dbset_def upd_db_def)
  have u: "subscribers (psubscribed c q sv) = subscribers sv" for c q sv
    by (simp add: psubscribed_def set_pats_def subscribers_def upd_client_def fun_eq_iff)
  show "pubsub_wf (listening args)" by (rule p(1))
  show "subscribers (listening args) ''news'' = {1}" using s(3) by (simp add: listening_def u)
  show "sv_patterns (listening args) = [(1, ''n*'')]" "c_out (sv_client (listening args) d) = []"
    using e by (simp_all add: listening_def psubscribed_def set_pats_def subscribed_def set_chan_def upd_client_def)
  show "argv 0 (listening args) j = args ! j" "receptive (sv_client (listening args) d)"
    using f e(1) by (simp_all add: pubsub_frame_proj(14,15,18) [OF f])
qed

text \<open>C19.
  PUBLISH delivers exactly once per subscription: every client of the channel gets the message,
  every client with a matching pattern gets it once for each of its patterns, in the order of the
  server's lists, nobody else gets anything, and the publisher is told the number of deliveries.
  This is what the clients get that take replies: a client that is to be closed after its last
  reply (and one without a socket) is counted, but the message is dropped.  The matcher is assumed
  to return on the patterns of the server.
\<close>

theorem publish_delivers:
  assumes "pubsub_wf sv" and "argv c sv 1 = ch" and "argv c sv 2 = m" and "small ch" and "small m"
    and "\<And>d p. (d, p) \<in> set (sv_patterns sv) \<Longrightarrow> stringmatch p ch False = Some (mt p)"
    and "n = card (subscribers sv ch) + length (filter (\<lambda>(d, p). mt p) (sv_patterns sv))" and "int n \<le> LLONG_MAX"
  shows "\<exists>sv'. publishCommand c sv = Some sv' \<and> pubsub_wf sv' \<and> pubsub_frame sv sv' \<and>
    sv_channels sv' = sv_channels sv \<and> sv_patterns sv' = sv_patterns sv \<and>
    (\<forall>d. receptive (sv_client sv d) \<longrightarrow> c_out (sv_client sv' d) =
      c_out (sv_client sv d) @ deliveries mt ch m sv d @ (if d = c then intreply (int n) else []))"
proof -
  have mt: "\<forall>(d, p)\<in>set (sv_patterns sv). stringmatch p ch False = Some (mt p)" using assms(6) by auto
  obtain s where s: "pubsubPublishMessage ch m sv = Some (n, s)" "pubsub_wf s" "pubsub_frame sv s"
    "\<forall>d. receptive (sv_client sv d) \<longrightarrow> c_out (sv_client s d) = c_out (sv_client sv d) @ deliveries mt ch m sv d"
    using publish_eq [OF assms(1,4,5) mt] unfolding assms(7) [symmetric] by blast
  have tables: "sv_channels s = sv_channels sv" "sv_patterns s = sv_patterns sv"
    using publish_eq_tables [OF assms(1,4,5) mt s(1)] by simp_all
  have run: "publishCommand c sv = Some (addReplyString c (intreply (int n)) s)"
    using assms(2,3,8) s(1) by (simp add: publishCommand_def addReplyLongLong_props)
  have "c_fake (sv_client s d) = c_fake (sv_client sv d)"
    "c_close_after_reply (sv_client s d) = c_close_after_reply (sv_client sv d)" for d
    by (rule pubsub_frame_proj(15,18) [OF s(3)])+
  then show ?thesis
    using run s(2-4) tables pfine_reply [of s sv c "intreply (int n)"] by (auto simp: c_out_reply)
qed

theorem publish_delivers_witness:
  "\<exists>sv'. publishCommand 0 (listening [''PUBLISH'', ''news'', ''hi'']) = Some sv' \<and>
    c_out (sv_client sv' 0) = intreply 2 \<and>
    c_out (sv_client sv' 1) = channel_message ''news'' ''hi'' @ pattern_message ''n*'' ''news'' ''hi''"
proof -
  let ?s = "listening [''PUBLISH'', ''news'', ''hi'']"
  show ?thesis
    using publish_delivers [of ?s 0 "''news''" "''hi''" "\<lambda>_. True" 2] example_match
    by (auto simp: small_def deliveries_def listening [simplified])
qed

end
