(* ===== verification/Command.thy ===== *)
theory Command
  imports Evict Pubsub
begin

unbundle bit_operations_syntax

text \<open>
  The execution of commands: the command table, \<open>propagate\<close>, \<open>call\<close> and \<open>processCommand\<close>
  (\<open>src/redis.c\<close>), the transactions of \<open>src/multi.c\<close>, and the release of a client
  (\<open>freeClient\<close> in \<open>src/networking.c\<close>).  MONITOR, the slow log and the statistics are left out.
\<close>

section \<open>Small commands\<close>

definition shared_pong :: string where "shared_pong = ''+PONG'' @ CRLF"

definition pingCommand :: "cid \<Rightarrow> server \<Rightarrow> server option" where
  "pingCommand c sv = Some (addReply c shared_pong sv)"

definition echoCommand :: "cid \<Rightarrow> server \<Rightarrow> server option" where
  "echoCommand c sv = addReplyBulk c (arg c sv 1) sv"

text \<open>Two zeroed buffers of 512 bytes, compared byte by byte; zero means equal.\<close>

definition REDIS_AUTHPASS_MAX_LEN :: nat where "REDIS_AUTHPASS_MAX_LEN = 512"

definition pass_buffer :: "string \<Rightarrow> string" where
  "pass_buffer s = cstr s @ replicate (REDIS_AUTHPASS_MAX_LEN - length (cstr s)) NUL"

definition time_independent_strcmp :: "string \<Rightarrow> string \<Rightarrow> nat" where
  "time_independent_strcmp a b =
     (let alen = length (cstr a); blen = length (cstr b)
      in if REDIS_AUTHPASS_MAX_LEN < alen \<or> REDIS_AUTHPASS_MAX_LEN < blen then 1
         else fold (\<lambda>(x, y) diff. diff OR (code x XOR code y)) (zip (pass_buffer a) (pass_buffer b)) 0
                OR (alen XOR blen))"

definition authCommand :: "cid \<Rightarrow> server \<Rightarrow> server option" where
  "authCommand c sv =
     Some (case sv_requirepass sv of
             None \<Rightarrow> addReplyError c ''Client sent AUTH, but no password is set'' sv
           | Some pass \<Rightarrow>
               if time_independent_strcmp (argv c sv 1) pass = 0
               then addReply c shared_ok (upd_client c (c_authenticated_update (\<lambda>_. True)) sv)
               else addReplyError c ''invalid password'' (upd_client c (c_authenticated_update (\<lambda>_. False)) sv))"

section \<open>The command table\<close>

text \<open>
  \<open>rc_getkeys\<close> names the function that finds the keys among the arguments, when the three numbers
  are not enough.  A handler that is not modelled is \<open>None\<close>.
\<close>

datatype getkeys_proc = NoPreloadGetKeys | RenameGetKeys | ZunionInterGetKeys

record redisCommand =
  rc_name :: string
  rc_proc :: "(cid \<Rightarrow> server \<Rightarrow> server option) option"
  rc_arity :: int
  rc_sflags :: string
  rc_getkeys :: "getkeys_proc option"
  rc_firstkey :: int
  rc_lastkey :: int
  rc_keystep :: int

definition entry ::
    "string \<Rightarrow> (cid \<Rightarrow> server \<Rightarrow> server option) option \<Rightarrow> int \<Rightarrow> string \<Rightarrow> getkeys_proc option \<Rightarrow> int \<Rightarrow> int \<Rightarrow> int \<Rightarrow> redisCommand" where
  "entry name proc arity sflags getkeys firstkey lastkey keystep =
     \<lparr>rc_name = name, rc_proc = proc, rc_arity = arity, rc_sflags = sflags, rc_getkeys = getkeys,
      rc_firstkey = firstkey, rc_lastkey = lastkey, rc_keystep = keystep\<rparr>"

definition redisCommandTable :: "redisCommand list" where
  "redisCommandTable =
    [entry ''get'' (Some getCommand) 2 ''r'' None 1 1 1,
     entry ''set'' (Some setCommand) (-3) ''wm'' (Some NoPreloadGetKeys) 1 1 1,
     entry ''setnx'' (Some setnxCommand) 3 ''wm'' (Some NoPreloadGetKeys) 1 1 1,
     entry ''setex'' (Some setexCommand) 4 ''wm'' (Some NoPreloadGetKeys) 1 1 1,
     entry ''psetex'' (Some psetexCommand) 4 ''wm'' (Some NoPreloadGetKeys) 1 1 1,
     entry ''append'' (Some appendCommand) 3 ''wm'' None 1 1 1,
     entry ''strlen'' (Some strlenCommand) 2 ''r'' None 1 1 1,
     entry ''del'' (Some delCommand) (-2) ''w'' (Some NoPreloadGetKeys) 1 (-1) 1,
     entry ''exists'' (Some existsCommand) 2 ''r'' None 1 1 1,
     entry ''setbit'' None 4 ''wm'' None 1 1 1,
     entry ''getbit'' None 3 ''r'' None 1 1 1,
     entry ''setrange'' (Some setrangeCommand) 4 ''wm'' None 1 1 1,
     entry ''getrange'' (Some getrangeCommand) 4 ''r'' None 1 1 1,
     entry ''substr'' (Some getrangeCommand) 4 ''r'' None 1 1 1,
     entry ''incr'' (Some incrCommand) 2 ''wm'' None 1 1 1,
     entry ''decr'' (Some decrCommand) 2 ''wm'' None 1 1 1,
     entry ''mget'' (Some mgetCommand) (-2) ''r'' None 1 (-1) 1,
     entry ''rpush'' None (-3) ''wm'' None 1 1 1,
     entry ''lpush'' None (-3) ''wm'' None 1 1 1,
     entry ''rpushx'' None 3 ''wm'' None 1 1 1,
     entry ''lpushx'' None 3 ''wm'' None 1 1 1,
     entry ''linsert'' None 5 ''wm'' None 1 1 1,
     entry ''rpop'' None 2 ''w'' None 1 1 1,
     entry ''lpop'' None 2 ''w'' None 1 1 1,
     entry ''brpop'' None (-3) ''ws'' None 1 1 1,
     entry ''brpoplpush'' None 4 ''wms'' None 1 2 1,
     entry ''blpop'' None (-3) ''ws'' None 1 (-2) 1,
     entry ''llen'' None 2 ''r'' None 1 1 1,
     entry ''lindex'' None 3 ''r'' None 1 1 1,
     entry ''lset'' None 4 ''wm'' None 1 1 1,
     entry ''lrange'' None 4 ''r'' None 1 1 1,
     entry ''ltrim'' None 4 ''w'' None 1 1 1,
     entry ''lrem'' None 4 ''w'' None 1 1 1,
     entry ''rpoplpush'' None 3 ''wm'' None 1 2 1,
     entry ''sadd'' None (-3) ''wm'' None 1 1 1,
     entry ''srem'' None (-3) ''w'' None 1 1 1,
     entry ''smove'' None 4 ''w'' None 1 2 1,
     entry ''sismember'' None 3 ''r'' None 1 1 1,
     entry ''scard'' None 2 ''r'' None 1 1 1,
     entry ''spop'' None 2 ''wRs'' None 1 1 1,
     entry ''srandmember'' None (-2) ''rR'' None 1 1 1,
     entry ''sinter'' None (-2) ''rS'' None 1 (-1) 1,
     entry ''sinterstore'' None (-3) ''wm'' None 1 (-1) 1,
     entry ''sunion'' None (-2) ''rS'' None 1 (-1) 1,
     entry ''sunionstore'' None (-3) ''wm'' None 1 (-1) 1,
     entry ''sdiff'' None (-2) ''rS'' None 1 (-1) 1,
     entry ''sdiffstore'' None (-3) ''wm'' None 1 (-1) 1,
     entry ''smembers'' None 2 ''rS'' None 1 1 1,
     entry ''zadd'' None (-4) ''wm'' None 1 1 1,
     entry ''zincrby'' None 4 ''wm'' None 1 1 1,
     entry ''zrem'' None (-3) ''w'' None 1 1 1,
     entry ''zremrangebyscore'' None 4 ''w'' None 1 1 1,
     entry ''zremrangebyrank'' None 4 ''w'' None 1 1 1,
     entry ''zunionstore'' None (-4) ''wm'' (Some ZunionInterGetKeys) 0 0 0,
     entry ''zinterstore'' None (-4) ''wm'' (Some ZunionInterGetKeys) 0 0 0,
     entry ''zrange'' None (-4) ''r'' None 1 1 1,
     entry ''zrangebyscore'' None (-4) ''r'' None 1 1 1,
     entry ''zrevrangebyscore'' None (-4) ''r'' None 1 1 1,
     entry ''zcount'' None 4 ''r'' None 1 1 1,
     entry ''zrevrange'' None (-4) ''r'' None 1 1 1,
     entry ''zcard'' None 2 ''r'' None 1 1 1,
     entry ''zscore'' None 3 ''r'' None 1 1 1,
     entry ''zrank'' None 3 ''r'' None 1 1 1,
     entry ''zrevrank'' None 3 ''r'' None 1 1 1,
     entry ''hset'' None 4 ''wm'' None 1 1 1,
     entry ''hsetnx'' None 4 ''wm'' None 1 1 1,
     entry ''hget'' None 3 ''r'' None 1 1 1,
     entry ''hmset'' None (-4) ''wm'' None 1 1 1,
     entry ''hmget'' None (-3) ''r'' None 1 1 1,
     entry ''hincrby'' None 4 ''wm'' None 1 1 1,
     entry ''hincrbyfloat'' None 4 ''wm'' None 1 1 1,
     entry ''hdel'' None (-3) ''w'' None 1 1 1,
     entry ''hlen'' None 2 ''r'' None 1 1 1,
     entry ''hkeys'' None 2 ''rS'' None 1 1 1,
     entry ''hvals'' None 2 ''rS'' None 1 1 1,
     entry ''hgetall'' None 2 ''r'' None 1 1 1,
     entry ''hexists'' None 3 ''r'' None 1 1 1,
     entry ''incrby'' (Some incrbyCommand) 3 ''wm'' None 1 1 1,
     entry ''decrby'' (Some decrbyCommand) 3 ''wm'' None 1 1 1,
     entry ''incrbyfloat'' None 3 ''wm'' None 1 1 1,
     entry ''getset'' (Some getsetCommand) 3 ''wm'' None 1 1 1,
     entry ''mset'' (Some msetCommand) (-3) ''wm'' None 1 (-1) 2,
     entry ''msetnx'' (Some msetnxCommand) (-3) ''wm'' None 1 (-1) 2,
     entry ''randomkey'' (Some randomkeyCommand) 1 ''rR'' None 0 0 0,
     entry ''select'' (Some selectCommand) 2 ''rl'' None 0 0 0,
     entry ''move'' (Some moveCommand) 3 ''w'' None 1 1 1,
     entry ''rename'' (Some renameCommand) 3 ''w'' (Some RenameGetKeys) 1 2 1,
     entry ''renamenx'' (Some renamenxCommand) 3 ''w'' (Some RenameGetKeys) 1 2 1,
     entry ''expire'' (Some expireCommand) 3 ''w'' None 1 1 1,
     entry ''expireat'' (Some expireatCommand) 3 ''w'' None 1 1 1,
     entry ''pexpire'' (Some pexpireCommand) 3 ''w'' None 1 1 1,
     entry ''pexpireat'' (Some pexpireatCommand) 3 ''w'' None 1 1 1,
     entry ''keys'' (Some keysCommand) 2 ''rS'' None 0 0 0,
     entry ''dbsize'' (Some dbsizeCommand) 1 ''r'' None 0 0 0,
     entry ''auth'' (Some authCommand) 2 ''rslt'' None 0 0 0,
     entry ''ping'' (Some pingCommand) 1 ''rt'' None 0 0 0,
     entry ''echo'' (Some echoCommand) 2 ''r'' None 0 0 0,
     entry ''save'' None 1 ''ars'' None 0 0 0,
     entry ''bgsave'' None 1 ''ar'' None 0 0 0,
     entry ''bgrewriteaof'' None 1 ''ar'' None 0 0 0,
     entry ''shutdown'' None (-1) ''ar'' None 0 0 0,
     entry ''lastsave'' (Some lastsaveCommand) 1 ''rR'' None 0 0 0,
     entry ''type'' (Some typeCommand) 2 ''r'' None 1 1 1,
     entry ''multi'' None 1 ''rs'' None 0 0 0,
     entry ''exec'' None 1 ''sM'' None 0 0 0,
     entry ''discard'' None 1 ''rs'' None 0 0 0,
     entry ''sync'' None 1 ''ars'' None 0 0 0,
     entry ''replconf'' None (-1) ''ars'' None 0 0 0,
     entry ''flushdb'' (Some flushdbCommand) 1 ''w'' None 0 0 0,
     entry ''flushall'' (Some flushallCommand) 1 ''w'' None 0 0 0,
     entry ''sort'' None (-2) ''wm'' None 1 1 1,
     entry ''info'' None (-1) ''rlt'' None 0 0 0,
     entry ''monitor'' None 1 ''ars'' None 0 0 0,
     entry ''ttl'' (Some ttlCommand) 2 ''r'' None 1 1 1,
     entry ''pttl'' (Some pttlCommand) 2 ''r'' None 1 1 1,
     entry ''persist'' (Some persistCommand) 2 ''w'' None 1 1 1,
     entry ''slaveof'' None 3 ''ast'' None 0 0 0,
     entry ''debug'' None (-2) ''as'' None 0 0 0,
     entry ''config'' None (-2) ''ar'' None 0 0 0,
     entry ''subscribe'' (Some subscribeCommand) (-2) ''rpslt'' None 0 0 0,
     entry ''unsubscribe'' (Some unsubscribeCommand) (-1) ''rpslt'' None 0 0 0,
     entry ''psubscribe'' (Some psubscribeCommand) (-2) ''rpslt'' None 0 0 0,
     entry ''punsubscribe'' (Some punsubscribeCommand) (-1) ''rpslt'' None 0 0 0,
     entry ''publish'' (Some publishCommand) 3 ''pfltr'' None 0 0 0,
     entry ''watch'' (Some watchCommand) (-2) ''rs'' (Some NoPreloadGetKeys) 1 (-1) 1,
     entry ''unwatch'' (Some unwatchCommand) 1 ''rs'' None 0 0 0,
     entry ''restore'' None 4 ''awm'' None 1 1 1,
     entry ''migrate'' None 6 ''aw'' None 0 0 0,
     entry ''dump'' None 2 ''ar'' None 1 1 1,
     entry ''object'' None (-2) ''r'' None 2 2 2,
     entry ''client'' None (-2) ''ar'' None 0 0 0,
     entry ''eval'' None (-3) ''s'' (Some ZunionInterGetKeys) 0 0 0,
     entry ''evalsha'' None (-3) ''s'' (Some ZunionInterGetKeys) 0 0 0,
     entry ''slowlog'' None (-2) ''r'' None 0 0 0,
     entry ''script'' None (-2) ''ras'' None 0 0 0,
     entry ''time'' None 1 ''rR'' None 0 0 0,
     entry ''bitop'' None (-4) ''wm'' None 2 (-1) 1,
     entry ''bitcount'' None (-2) ''r'' None 1 1 1]"

text \<open>
  The commands that the server of the model answers: those with a handler, and the three that are
  defined after the others because EXEC calls them.  The rest of the table is as if renamed to the
  empty name in the configuration.
\<close>

definition has_handler :: "redisCommand \<Rightarrow> bool" where
  "has_handler cmd \<longleftrightarrow> rc_proc cmd \<noteq> None \<or> rc_name cmd \<in> {''multi'', ''exec'', ''discard''}"

definition commandTable :: "redisCommand list" where
  "commandTable = filter has_handler redisCommandTable"

lemma commandTable_eq:
  "commandTable =
    [entry ''get'' (Some getCommand) 2 ''r'' None 1 1 1,
     entry ''set'' (Some setCommand) (-3) ''wm'' (Some NoPreloadGetKeys) 1 1 1,
     entry ''setnx'' (Some setnxCommand) 3 ''wm'' (Some NoPreloadGetKeys) 1 1 1,
     entry ''setex'' (Some setexCommand) 4 ''wm'' (Some NoPreloadGetKeys) 1 1 1,
     entry ''psetex'' (Some psetexCommand) 4 ''wm'' (Some NoPreloadGetKeys) 1 1 1,
     entry ''append'' (Some appendCommand) 3 ''wm'' None 1 1 1,
     entry ''strlen'' (Some strlenCommand) 2 ''r'' None 1 1 1,
     entry ''del'' (Some delCommand) (-2) ''w'' (Some NoPreloadGetKeys) 1 (-1) 1,
     entry ''exists'' (Some existsCommand) 2 ''r'' None 1 1 1,
     entry ''setrange'' (Some setrangeCommand) 4 ''wm'' None 1 1 1,
     entry ''getrange'' (Some getrangeCommand) 4 ''r'' None 1 1 1,
     entry ''substr'' (Some getrangeCommand) 4 ''r'' None 1 1 1,
     entry ''incr'' (Some incrCommand) 2 ''wm'' None 1 1 1,
     entry ''decr'' (Some decrCommand) 2 ''wm'' None 1 1 1,
     entry ''mget'' (Some mgetCommand) (-2) ''r'' None 1 (-1) 1,
     entry ''incrby'' (Some incrbyCommand) 3 ''wm'' None 1 1 1,
     entry ''decrby'' (Some decrbyCommand) 3 ''wm'' None 1 1 1,
     entry ''getset'' (Some getsetCommand) 3 ''wm'' None 1 1 1,
     entry ''mset'' (Some msetCommand) (-3) ''wm'' None 1 (-1) 2,
     entry ''msetnx'' (Some msetnxCommand) (-3) ''wm'' None 1 (-1) 2,
     entry ''randomkey'' (Some randomkeyCommand) 1 ''rR'' None 0 0 0,
     entry ''select'' (Some selectCommand) 2 ''rl'' None 0 0 0,
     entry ''move'' (Some moveCommand) 3 ''w'' None 1 1 1,
     entry ''rename'' (Some renameCommand) 3 ''w'' (Some RenameGetKeys) 1 2 1,
     entry ''renamenx'' (Some renamenxCommand) 3 ''w'' (Some RenameGetKeys) 1 2 1,
     entry ''expire'' (Some expireCommand) 3 ''w'' None 1 1 1,
     entry ''expireat'' (Some expireatCommand) 3 ''w'' None 1 1 1,
     entry ''pexpire'' (Some pexpireCommand) 3 ''w'' None 1 1 1,
     entry ''pexpireat'' (Some pexpireatCommand) 3 ''w'' None 1 1 1,
     entry ''keys'' (Some keysCommand) 2 ''rS'' None 0 0 0,
     entry ''dbsize'' (Some dbsizeCommand) 1 ''r'' None 0 0 0,
     entry ''auth'' (Some authCommand) 2 ''rslt'' None 0 0 0,
     entry ''ping'' (Some pingCommand) 1 ''rt'' None 0 0 0,
     entry ''echo'' (Some echoCommand) 2 ''r'' None 0 0 0,
     entry ''lastsave'' (Some lastsaveCommand) 1 ''rR'' None 0 0 0,
     entry ''type'' (Some typeCommand) 2 ''r'' None 1 1 1,
     entry ''multi'' None 1 ''rs'' None 0 0 0,
     entry ''exec'' None 1 ''sM'' None 0 0 0,
     entry ''discard'' None 1 ''rs'' None 0 0 0,
     entry ''flushdb'' (Some flushdbCommand) 1 ''w'' None 0 0 0,
     entry ''flushall'' (Some flushallCommand) 1 ''w'' None 0 0 0,
     entry ''ttl'' (Some ttlCommand) 2 ''r'' None 1 1 1,
     entry ''pttl'' (Some pttlCommand) 2 ''r'' None 1 1 1,
     entry ''persist'' (Some persistCommand) 2 ''w'' None 1 1 1,
     entry ''subscribe'' (Some subscribeCommand) (-2) ''rpslt'' None 0 0 0,
     entry ''unsubscribe'' (Some unsubscribeCommand) (-1) ''rpslt'' None 0 0 0,
     entry ''psubscribe'' (Some psubscribeCommand) (-2) ''rpslt'' None 0 0 0,
     entry ''punsubscribe'' (Some punsubscribeCommand) (-1) ''rpslt'' None 0 0 0,
     entry ''publish'' (Some publishCommand) 3 ''pfltr'' None 0 0 0,
     entry ''watch'' (Some watchCommand) (-2) ''rs'' (Some NoPreloadGetKeys) 1 (-1) 1,
     entry ''unwatch'' (Some unwatchCommand) 1 ''rs'' None 0 0 0]"
  by (simp add: commandTable_def redisCommandTable_def has_handler_def entry_def)

text \<open>
  The dictionary of commands compares names with \<open>strcasecmp\<close>.  (Its hash takes the whole name, so
  a name with a byte 0 in it is another name.)
\<close>

definition lookupCommand :: "string \<Rightarrow> redisCommand option" where
  "lookupCommand name = List.find (\<lambda>cmd. rc_name cmd = List.map tolower name) commandTable"

definition has_flag :: "char \<Rightarrow> redisCommand \<Rightarrow> bool" where
  "has_flag f cmd \<longleftrightarrow> f \<in> set (rc_sflags cmd)"

text \<open>The entry a client's \<open>cmd\<close> points to, by its name.\<close>

definition command_of :: "string \<Rightarrow> redisCommand" where
  "command_of name = (case List.find (\<lambda>cmd. rc_name cmd = name) redisCommandTable of
     Some cmd \<Rightarrow> cmd | None \<Rightarrow> entry name None 1 [] None 0 0 0)"

section \<open>Executing a command\<close>

definition propagate :: "nat \<Rightarrow> string list \<Rightarrow> bool \<Rightarrow> bool \<Rightarrow> server \<Rightarrow> server" where
  "propagate dbid args to_aof to_repl sv =
     sv\<lparr>sv_aof := (if sv_aof_on sv \<and> to_aof then sv_aof sv @ [(dbid, args)] else sv_aof sv),
        sv_repl := (if to_repl \<and> sv_slaves sv then sv_repl sv @ [(dbid, args)] else sv_repl sv)\<rparr>"

definition call :: "(cid \<Rightarrow> server \<Rightarrow> server option) \<Rightarrow> cid \<Rightarrow> server \<Rightarrow> server option" where
  "call proc c sv =
     (let dirty = sv_dirty sv
      in Option.bind (proc c sv) (\<lambda>sv.
         let dirty = sv_dirty sv - dirty;
             to_aof = (dirty \<noteq> 0);
             to_repl = (has_flag CHR ''f'' (command_of (c_cmd (sv_client sv c))) \<or> dirty \<noteq> 0)
         in Some (if to_aof \<or> to_repl
                  then propagate (cdb c sv) (c_argv (sv_client sv c)) to_aof to_repl sv
                  else sv)))"

section \<open>Transactions\<close>

definition queueMultiCommand :: "cid \<Rightarrow> server \<Rightarrow> server" where
  "queueMultiCommand c =
     upd_client c (\<lambda>cl. cl\<lparr>c_mstate := c_mstate cl @ [\<lparr>mc_cmd = c_cmd cl, mc_argv = c_argv cl\<rparr>]\<rparr>)"

definition discardTransaction :: "cid \<Rightarrow> server \<Rightarrow> server option" where
  "discardTransaction c sv =
     unwatchAllKeys c (upd_client c (\<lambda>cl. cl\<lparr>c_mstate := [], c_multi := False, c_dirty_cas := False,
                                              c_dirty_exec := False\<rparr>) sv)"

definition flagTransaction :: "cid \<Rightarrow> server \<Rightarrow> server" where
  "flagTransaction c =
     upd_client c (\<lambda>cl. if c_multi cl then cl\<lparr>c_dirty_exec := True\<rparr> else cl)"

definition multiCommand :: "cid \<Rightarrow> server \<Rightarrow> server option" where
  "multiCommand c sv =
     Some (if c_multi (sv_client sv c) then addReplyError c ''MULTI calls can not be nested'' sv
           else addReply c shared_ok (upd_client c (c_multi_update (\<lambda>_. True)) sv))"

definition discardCommand :: "cid \<Rightarrow> server \<Rightarrow> server option" where
  "discardCommand c sv =
     (if \<not> c_multi (sv_client sv c) then Some (addReplyError c ''DISCARD without MULTI'' sv)
      else Option.bind (discardTransaction c sv) (\<lambda>sv. Some (addReply c shared_ok sv)))"

definition execCommandPropagateMulti :: "cid \<Rightarrow> server \<Rightarrow> server" where
  "execCommandPropagateMulti c sv = propagate (cdb c sv) [''MULTI''] True True sv"

definition set_request :: "cid \<Rightarrow> string \<Rightarrow> string list \<Rightarrow> server \<Rightarrow> server" where
  "set_request c cmd args = upd_client c (\<lambda>cl. cl\<lparr>c_cmd := cmd, c_argv := args\<rparr>)"

text \<open>The handler of a queued command; a transaction command is never queued.\<close>

definition queued_proc :: "string \<Rightarrow> cid \<Rightarrow> server \<Rightarrow> server option" where
  "queued_proc name = (case rc_proc (command_of name) of Some proc \<Rightarrow> proc | None \<Rightarrow> (\<lambda>_ _. None))"

fun exec_loop :: "cid \<Rightarrow> multiCmd list \<Rightarrow> bool \<Rightarrow> server \<Rightarrow> (bool \<times> server) option" where
  "exec_loop c [] must_propagate sv = Some (must_propagate, sv)"
| "exec_loop c (mc # mcs) must_propagate sv =
     (let sv = set_request c (mc_cmd mc) (mc_argv mc) sv;
          writes = (\<not> must_propagate \<and> \<not> has_flag CHR ''r'' (command_of (mc_cmd mc)));
          sv = (if writes then execCommandPropagateMulti c sv else sv)
      in Option.bind (call (queued_proc (mc_cmd mc)) c sv) (\<lambda>sv.
         exec_loop c mcs (must_propagate \<or> writes) sv))"

definition execCommand :: "cid \<Rightarrow> server \<Rightarrow> server option" where
  "execCommand c sv =
     (let cl = sv_client sv c
      in if \<not> c_multi cl then Some (addReplyError c ''EXEC without MULTI'' sv)
         else if c_dirty_cas cl \<or> c_dirty_exec cl
         then discardTransaction c
                (addReply c (if c_dirty_exec cl then shared_execaborterr else shared_nullmultibulk) sv)
         else Option.bind (unwatchAllKeys c sv) (\<lambda>sv.
              let sv = addReplyMultiBulkLen c (length (c_mstate cl)) sv
              in Option.bind (exec_loop c (c_mstate cl) False sv) (\<lambda>(must_propagate, sv).
                 Option.bind (discardTransaction c (set_request c (c_cmd cl) (c_argv cl) sv)) (\<lambda>sv.
                 Some (if must_propagate then incr_dirty 1 sv else sv)))))"

definition command_proc :: "redisCommand \<Rightarrow> cid \<Rightarrow> server \<Rightarrow> server option" where
  "command_proc cmd =
     (case rc_proc cmd of
        Some proc \<Rightarrow> proc
      | None \<Rightarrow> if rc_name cmd = ''exec'' then execCommand
                else if rc_name cmd = ''discard'' then discardCommand else multiCommand)"

section \<open>Processing a request\<close>

text \<open>
  The tests of \<open>processCommand\<close> in their order; the result says whether the client is still alive.
  The memory check may evict keys.  (\<open>shutdown nosave\<close> and \<open>script kill\<close>, which a slow script lets
  through, are not in the table.)
\<close>

definition reject :: "bool \<Rightarrow> cid \<Rightarrow> string \<Rightarrow> server \<Rightarrow> (bool \<times> server) option" where
  "reject flag c reply sv = Some (True, addReply c reply (if flag then flagTransaction c sv else sv))"

definition wrong_arity :: "redisCommand \<Rightarrow> nat \<Rightarrow> bool" where
  "wrong_arity cmd argc' \<longleftrightarrow> (0 < rc_arity cmd \<and> rc_arity cmd \<noteq> int argc') \<or> int argc' < - rc_arity cmd"

definition pubsub_name :: "string \<Rightarrow> bool" where
  "pubsub_name name \<longleftrightarrow> name \<in> {''subscribe'', ''unsubscribe'', ''psubscribe'', ''punsubscribe''}"

definition error_reply :: "string \<Rightarrow> string" where
  "error_reply s = ''-ERR '' @ s @ CRLF"

text \<open>The tests after the memory check, and the execution or queueing of the command.\<close>

definition dispatch :: "redisCommand \<Rightarrow> cid \<Rightarrow> server \<Rightarrow> (bool \<times> server) option" where
  "dispatch cmd c sv =
     (let cl = sv_client sv c; name = rc_name cmd; writes = has_flag CHR ''w'' cmd
      in if sv_stop_writes sv \<and> sv_saveparams sv \<and> sv_bgsave_err sv \<and> writes
         then reject True c shared_bgsaveerr sv
         else if sv_masterhost sv \<and> sv_slave_ro sv \<and> \<not> c_master cl \<and> writes
         then reject False c shared_roslaveerr sv
         else if (c_channels cl \<noteq> [] \<or> c_patterns cl \<noteq> []) \<and> \<not> pubsub_name name
         then reject False c (error_reply ''only (P)SUBSCRIBE / (P)UNSUBSCRIBE / QUIT allowed in this context'') sv
         else if sv_masterhost sv \<and> \<not> sv_repl_connected sv \<and> \<not> sv_serve_stale sv \<and> \<not> has_flag CHR ''t'' cmd
         then reject True c shared_masterdownerr sv
         else if sv_loading sv \<and> \<not> has_flag CHR ''l'' cmd
         then reject False c shared_loadingerr sv
         else if sv_lua_timedout sv \<and> name \<noteq> ''auth''
         then reject True c shared_slowscripterr sv
         else if c_multi cl \<and> name \<notin> {''exec'', ''discard'', ''multi'', ''watch''}
         then Some (True, addReply c shared_queued (queueMultiCommand c sv))
         else map_option (Pair True) (call (command_proc cmd) c sv))"

text \<open>\<open>None\<close> is a crash or, in the memory check, divergence.\<close>

definition processCommand :: "cid \<Rightarrow> server \<Rightarrow> (bool \<times> server) option" where
  "processCommand c sv =
     (if List.map tolower (cstr (argv c sv 0)) = ''quit''
      then Some (False, upd_client c (c_close_after_reply_update (\<lambda>_. True)) (addReply c shared_ok sv))
      else case lookupCommand (argv c sv 0) of
        None \<Rightarrow>
          Some (True, addReplyErrorFormat c (''unknown command '' @ [CHR 0x27] @ cstr (argv c sv 0) @ [CHR 0x27])
                        (flagTransaction c (upd_client c (c_cmd_update (\<lambda>_. [])) sv)))
      | Some cmd \<Rightarrow>
          let sv = upd_client c (c_cmd_update (\<lambda>_. rc_name cmd)) sv
          in if wrong_arity cmd (argc c sv)
             then Some (True, addReplyErrorFormat c
                    (''wrong number of arguments for '' @ [CHR 0x27] @ rc_name cmd @ [CHR 0x27] @ '' command'')
                    (flagTransaction c sv))
             else if sv_requirepass sv \<noteq> None \<and> \<not> c_authenticated (sv_client sv c) \<and> rc_name cmd \<noteq> ''auth''
             then reject True c (error_reply ''operation not permitted'') sv
             else if sv_maxmemory sv \<noteq> 0
             then case freeMemoryIfNeeded sv of
                    Some (Some (within, sv)) \<Rightarrow>
                      if has_flag CHR ''m'' cmd \<and> \<not> within then reject True c shared_oomerr sv
                      else dispatch cmd c sv
                  | _ \<Rightarrow> None
             else dispatch cmd c sv)"

section \<open>Releasing a client\<close>

text \<open>
  The parts of \<open>freeClient\<close> that touch shared state: the watched keys, the subscriptions and the
  list of clients, where the client must be.
\<close>

definition freeClient :: "cid \<Rightarrow> server \<Rightarrow> server option" where
  "freeClient c sv =
     Option.bind (unwatchAllKeys c sv) (\<lambda>sv.
     Option.bind (pubsubUnsubscribeAllChannels c False sv) (\<lambda>(_, sv).
     Option.bind (pubsubUnsubscribeAllPatterns c False sv) (\<lambda>(_, sv).
       if c \<notin> set (sv_clients sv) then None
       else Some (upd_client c (c_mstate_update (\<lambda>_. [])) (sv\<lparr>sv_clients := remove1 c (sv_clients sv)\<rparr>)))))"

end
