(* ===== verification/Effects.thy ===== *)
theory Effects
  imports Command
begin

text \<open>
  What every command of the table does to the rest of the server: it keeps the invariant \<open>sane\<close>,
  leaves the tables of other clients alone, and tells the clients that watch a key it changes (all
  but MOVE).  \<open>table_good\<close> goes through the table once; calls and transactions follow from it.
\<close>

section \<open>What the commands on keys keep\<close>

text \<open>
  If the command returns, the keyspace is well formed, the session state is untouched and every
  changed key is signalled.  (RANDOMKEY, KEYS, SETRANGE and GETRANGE need not return.)
\<close>

definition keeps :: "server \<Rightarrow> server option \<Rightarrow> bool" where
  "keeps sv r \<longleftrightarrow> (\<forall>sv'. r = Some sv' \<longrightarrow> ks_wf sv' \<and> frame sv sv' \<and> signalled sv sv')"

lemma keepsI: "fine sv r \<Longrightarrow> signals sv r \<Longrightarrow> keeps sv r"
  by (auto simp: keeps_def ok_iff)

lemma keepsD: "keeps sv r \<Longrightarrow> r = Some sv' \<Longrightarrow> ks_wf sv' \<and> frame sv sv' \<and> signalled sv sv'"
  by (simp add: keeps_def)

lemma keeps_reply: "ks_wf sv \<Longrightarrow> keeps sv (Some (addReplyString c s sv))"
  by (simp add: keeps_def)

lemma setrange_keeps:
  assumes "ks_wf sv" "args_ok 4 c sv"
  shows "keeps sv (setrangeCommand c sv)"
proof (cases "setrange_benign c sv")
  case True
  then show ?thesis using setrange_fine [OF assms] setrange_signals [OF assms] by (simp add: keepsI)
next
  case False
  let ?i = "cdb c sv" and ?key = "argv c sv 1" and ?val = "argv c sv 3"
  obtain off where off: "getLongLongFromObject (Some (arg c sv 2)) = Some (Some off)" "LLONG_MAX < off + int (length ?val)"
    using False by (auto simp: setrange_benign_def)
  obtain r where "getLongLongFromObject (Some (arg c sv 2)) = Some r" "\<forall>v. r = Some v \<longrightarrow> LLONG_MIN \<le> v \<and> v \<le> LLONG_MAX"
    using getLongLong_total [of "arg c sv 2"] by auto
  then have le: "off \<le> LLONG_MAX" using off(1) by simp
  have small: "length ?val \<le> 536870912" using args_okD [OF assms(2), of 3] by (simp add: small_def)
  have pos: "0 \<le> off" "length ?val \<noteq> 0" using off(2) le small by linarith+
  have big: "2 ^ 63 \<le> nat off + length ?val"
    using off(2) pos(1) by (simp add: nat_le_iff zless_nat_eq_int_zless)
  have w: "setrange_write c (nat off) ?val ob s = None" if "o_ptr ob = Sds t" for ob s t
    using that pos(2) big by (simp add: setrange_write_def grow_zero_def del: nat_numeral)
  have w0: "setrange_write c (nat off) ?val (createObject REDIS_STRING (Sds [])) s = None" for s
    by (rule w) (simp add: createObject_def)
  have err: "\<exists>t. checkStringLength c n s = (False, addReplyString c t s) \<or> checkStringLength c n s = (True, s)" for n s
    by (auto simp: checkStringLength_def addReplyError_eq)
  show ?thesis
  proof (cases "visible ?i ?key sv")
    case None
    have "keeps sv (let (fits, s) = checkStringLength c n (evict ?i ?key sv)
                       in if \<not> fits then Some s
                          else let ob = createObject REDIS_STRING (Sds [])
                               in Option.bind (dbAdd ?i ?key ob s) (\<lambda>sv. setrange_write c (nat off) ?val ob sv))" for n
      using err [of n "evict ?i ?key sv"] assms(1) w0
      by (auto simp: keeps_def Let_def split: Option.bind_splits)
    then show ?thesis
      using None pos assms(1) getLong_arg [OF off(1)]
      by (simp add: setrangeCommand_def Let_def db_eqs del: One_nat_def)
  next
    case (Some ob)
    note e = visible_wf [OF assms(1) Some]
    have "keeps sv (let (wrong, s) = checkType c ob REDIS_STRING (evict ?i ?key sv)
        in if wrong then Some s
        else Option.bind (stringObjectLen ob) (\<lambda>olen.
          if length ?val = 0 then Some (addReplyLongLong c (int olen) s)
          else let (fits, s) = checkStringLength c n s
          in if \<not> fits then Some s
             else Option.bind (unshare ?i ?key ob s) (\<lambda>(ob, sv). setrange_write c (nat off) ?val ob sv)))" for n
    proof (cases "o_type ob = REDIS_STRING")
      case True
      have e': "robj_wf ob" using e by (simp add: entry_ok_def)
      have u: "\<exists>s'. unshare ?i ?key ob (evict ?i ?key sv) = Some (createStringObject (objval ob), s')"
        using unshare_eq [OF e' True, of "evict ?i ?key sv" ?i ?key] Some by auto
      have "o_ptr (createStringObject (objval ob)) = Sds (objval ob)" by (simp add: createStringObject_def createObject_def)
      then show ?thesis
        using err [of n "evict ?i ?key sv"] assms(1) w u True pos(2)
        by (auto simp: keeps_def checkType_def split: Option.bind_splits)
    next
      case False
      then show ?thesis using assms(1) by (simp add: keeps_def checkType_def addReply_def)
    qed
    then show ?thesis
      using Some pos assms(1) getLong_arg [OF off(1)]
      by (simp add: setrangeCommand_def Let_def db_eqs del: One_nat_def)
  qed
qed

lemma getrange_keeps:
  assumes "ks_wf sv" "args_ok 4 c sv"
  shows "keeps sv (getrangeCommand c sv)"
proof (cases rule: number_cases [of "argv c sv 2"])
  case err
  then show ?thesis using getLong_err [OF err] assms(1) by (simp add: getrangeCommand_def keeps_def)
next
  case (num start)
  show ?thesis
  proof (cases rule: number_cases [of "argv c sv 3"])
    case err
    then show ?thesis using getLong_err [OF err] getLong_num [OF num] assms(1) by (simp add: getrangeCommand_def keeps_def)
  next
    case n3: (num end')
    let ?i = "cdb c sv" and ?key = "argv c sv 1"
    have "keeps sv (addReplyBulkCBuffer c buf a b (count_lookup h (evict ?i ?key sv)))" for buf a b h
      using assms(1) by (auto simp: keeps_def addReplyBulkCBuffer_def addReply_def addReplyLongLongWithPrefix_def)
    then show ?thesis using assms(1) getLong_num [OF num] getLong_num [OF n3]
      by (auto simp: getrangeCommand_def lookupKeyReadOrReply_def db_eqs checkType_def keeps_def Let_def
          split: option.splits optr.splits if_splits prod.splits Option.bind_splits)
  qed
qed

lemma keys_keeps: "ks_wf sv \<Longrightarrow> keeps sv (keysCommand c sv)"
  using keys_signals by (auto simp: keeps_def)

lemma randomkey_keeps: "ks_wf sv \<Longrightarrow> keeps sv (randomkeyCommand c sv)"
  using randomkey_command_signals by (auto simp: keeps_def)

lemma echo_keeps: "ks_wf sv \<Longrightarrow> keeps sv (echoCommand c sv)"
  by (simp add: echoCommand_def addReplyBulk_some keeps_reply)

lemma key_commands_keep:
  assumes "ks_wf sv" "watch_wf sv" "watchers_registered sv"
  shows "keeps sv (flushdbCommand c sv)" "keeps sv (flushallCommand c sv)" "keeps sv (delCommand c sv)"
    "keeps sv (existsCommand c sv)" "keeps sv (typeCommand c sv)" "keeps sv (dbsizeCommand c sv)"
    "keeps sv (lastsaveCommand c sv)" "keeps sv (persistCommand c sv)" "keeps sv (ttlCommand c sv)"
    "keeps sv (pttlCommand c sv)" "keeps sv (expireCommand c sv)" "keeps sv (expireatCommand c sv)"
    "keeps sv (pexpireCommand c sv)" "keeps sv (pexpireatCommand c sv)" "keeps sv (getCommand c sv)"
    "keeps sv (strlenCommand c sv)" "keeps sv (mgetCommand c sv)" "keeps sv (keysCommand c sv)"
    "keeps sv (randomkeyCommand c sv)" "keeps sv (echoCommand c sv)" "keeps sv (pingCommand c sv)"
  using assms
  by (auto simp: keeps_reply ttlCommand_def pttlCommand_def expireCommand_def expireatCommand_def
      pexpireCommand_def pexpireatCommand_def pingCommand_def addReply_def
      intro!: keepsI keys_keeps randomkey_keeps echo_keeps flushdb_fine flushdb_signals flushall_fine flushall_signals
        del_fine del_signals exists_fine exists_signals type_fine type_signals dbsize_fine lastsave_fine count_signals
        persist_fine persist_signals ttl_fine ttl_signals expire_fine expire_signals get_fine get_signals
        strlen_fine strlen_signals mget_fine mget_signals)

lemma value_commands_keep:
  assumes "ks_wf sv"
  shows "args_ok 3 c sv \<Longrightarrow> keeps sv (setCommand c sv)" "args_ok 3 c sv \<Longrightarrow> keeps sv (setnxCommand c sv)"
    "args_ok 4 c sv \<Longrightarrow> keeps sv (setexCommand c sv)" "args_ok 4 c sv \<Longrightarrow> keeps sv (psetexCommand c sv)"
    "args_ok 3 c sv \<Longrightarrow> keeps sv (appendCommand c sv)" "args_ok 4 c sv \<Longrightarrow> keeps sv (setrangeCommand c sv)"
    "args_ok 4 c sv \<Longrightarrow> keeps sv (getrangeCommand c sv)" "args_ok 2 c sv \<Longrightarrow> keeps sv (incrCommand c sv)"
    "args_ok 2 c sv \<Longrightarrow> keeps sv (decrCommand c sv)" "args_ok 3 c sv \<Longrightarrow> keeps sv (incrbyCommand c sv)"
    "args_ok 3 c sv \<Longrightarrow> keeps sv (decrbyCommand c sv)" "args_ok 3 c sv \<Longrightarrow> keeps sv (getsetCommand c sv)"
    "args_ok 1 c sv \<Longrightarrow> keeps sv (msetCommand c sv)" "args_ok 1 c sv \<Longrightarrow> keeps sv (msetnxCommand c sv)"
    "args_ok 3 c sv \<Longrightarrow> keeps sv (renameCommand c sv)" "args_ok 3 c sv \<Longrightarrow> keeps sv (renamenxCommand c sv)"
  using assms
  by (auto simp: msetCommand_def msetnxCommand_def renameCommand_def renamenxCommand_def
      intro!: keepsI set_fine setnx_fine setex_fine set_commands_signal append_fine append_signals
        setrange_keeps getrange_keeps incr_fine incr_commands_signal incrby_fine getset_fine getset_signals
        mset_fine mset_signals rename_fine rename_signals)

section \<open>The operations of a client leave the tables of the others alone\<close>

definition others :: "cid \<Rightarrow> server \<Rightarrow> server \<Rightarrow> bool" where
  "others c sv sv' \<longleftrightarrow>
     (\<forall>d. d \<noteq> c \<longrightarrow> c_channels (sv_client sv' d) = c_channels (sv_client sv d) \<and>
        c_patterns (sv_client sv' d) = c_patterns (sv_client sv d) \<and>
        c_watched (sv_client sv' d) = c_watched (sv_client sv d))"

lemma others_refl [simp]: "others c sv sv"
  by (simp add: others_def)

lemma others_trans: "others c a b \<Longrightarrow> others c b d \<Longrightarrow> others c a d"
  by (simp add: others_def)

lemma others_reply [simp]: "others c sv (addReplyString d s sv') = others c sv sv'"
  by (auto simp: others_def addReplyString_def upd_client_def)

lemma others_longlong [simp]: "others c sv (addReplyLongLong d n sv') = others c sv sv'"
  using addReplyLongLong_string [of d n] by auto

lemma others_upd [simp]:
  "others c sv (upd_client c f sv') = others c sv sv'"
  "others c sv (upd_db i g sv') = others c sv sv'"
  "others c sv (sv'\<lparr>sv_channels := chd\<rparr>) = others c sv sv'"
  "others c sv (sv'\<lparr>sv_patterns := psd\<rparr>) = others c sv sv'"
  by (simp_all add: others_def upd_client_def upd_db_def)

lemma notify_client_others: "notify_client c kind name sv = Some sv' \<Longrightarrow> others c sv0 sv' = others c sv0 sv"
  by (auto simp: notify_client_def addReplyBulk_some addReply_def)

lemma notify_nothing_others: "others c sv0 (notify_nothing c kind sv) = others c sv0 sv"
  by (auto simp: notify_nothing_def addReply_def Let_def)

lemma subscription_others:
  "pubsubSubscribeChannel c name sv = Some (n, sv') \<Longrightarrow> others c sv sv'"
  "pubsubUnsubscribeChannel c name b sv = Some (n, sv') \<Longrightarrow> others c sv sv'"
  "pubsubSubscribePattern c name sv = Some (n, sv') \<Longrightarrow> others c sv sv'"
  "pubsubUnsubscribePattern c name b sv = Some (n, sv') \<Longrightarrow> others c sv sv'"
  by (auto simp: pubsubSubscribeChannel_def pubsubUnsubscribeChannel_def pubsubSubscribePattern_def
      pubsubUnsubscribePattern_def Let_def notify_client_others
      split: if_splits Option.bind_splits option.splits)

lemma each_argument_others:
  assumes "\<And>a s n s'. f a s = Some (n, s') \<Longrightarrow> others c s s'"
  shows "each_argument f as sv = Some sv' \<Longrightarrow> others c sv sv'"
proof (induction as arbitrary: sv)
  case (Cons a as)
  then obtain n s where "f a sv = Some (n, s)" "each_argument f as s = Some sv'" by (auto split: Option.bind_splits)
  then show ?case using Cons.IH assms others_trans by blast
qed simp

lemma unsubscribe_loop_others:
  assumes "\<And>a s n s'. f a s = Some (n, s') \<Longrightarrow> others c s s'"
  shows "unsubscribe_loop f as k sv = Some (m, sv') \<Longrightarrow> others c sv sv'"
proof (induction as arbitrary: sv k)
  case (Cons a as)
  then obtain n s where "f a sv = Some (n, s)" "unsubscribe_loop f as (k + n) s = Some (m, sv')"
    by (auto split: Option.bind_splits)
  then show ?case using Cons.IH assms others_trans by blast
qed simp

lemma unsubscribe_all_others:
  "pubsubUnsubscribeAllChannels c b sv = Some (n, sv') \<Longrightarrow> others c sv sv'"
  "pubsubUnsubscribeAllPatterns c b sv = Some (n, sv') \<Longrightarrow> others c sv sv'"
  by (auto simp: pubsubUnsubscribeAllChannels_def pubsubUnsubscribeAllPatterns_def notify_nothing_others
      split: Option.bind_splits if_splits
      intro: unsubscribe_loop_others [OF subscription_others(2)] unsubscribe_loop_others [OF subscription_others(4)])

lemma subscribe_commands_others:
  "subscribeCommand c sv = Some sv' \<Longrightarrow> others c sv sv'"
  "psubscribeCommand c sv = Some sv' \<Longrightarrow> others c sv sv'"
  "unsubscribeCommand c sv = Some sv' \<Longrightarrow> others c sv sv'"
  "punsubscribeCommand c sv = Some sv' \<Longrightarrow> others c sv sv'"
  by (auto simp: subscribeCommand_def psubscribeCommand_def unsubscribeCommand_def punsubscribeCommand_def
      split: if_splits Option.bind_splits
      intro: each_argument_others [OF subscription_others(1)] each_argument_others [OF subscription_others(2)]
        each_argument_others [OF subscription_others(3)] each_argument_others [OF subscription_others(4)]
      dest: unsubscribe_all_others)

lemma unwatch_loop_others: "unwatch_loop c wks sv = Some sv' \<Longrightarrow> others c sv sv'"
proof (induction wks arbitrary: sv)
  case (Cons w wks)
  obtain key i where w: "w = (key, i)" by fastforce
  obtain f g where "unwatch_loop c wks (upd_client c f (upd_db i g sv)) = Some sv'"
    using Cons.prems by (auto simp: w Let_def split: option.splits if_splits)
  from others_trans [OF _ Cons.IH [OF this], of sv] show ?case by simp
qed simp

lemma unwatch_others: "unwatchAllKeys c sv = Some sv' \<Longrightarrow> others c sv sv'"
  using unwatch_loop_others by (auto simp: unwatchAllKeys_def)

lemma watch_others: "others c sv (fold (watchForKey c) ks sv)"
proof -
  have "others c sv s \<Longrightarrow> others c sv (fold (watchForKey c) ks s)" for s
    by (induction ks arbitrary: s) (simp_all add: watchForKey_def Let_def)
  then show ?thesis by simp
qed

section \<open>The invariant of the server\<close>

text \<open>What a client may have queued: commands of the table, with the right number of arguments.\<close>

definition queued_ok :: "multiCmd \<Rightarrow> bool" where
  "queued_ok mc \<longleftrightarrow>
     mc_cmd mc \<in> rc_name ` set commandTable \<and> mc_cmd mc \<notin> {''exec'', ''discard'', ''multi'', ''watch''} \<and>
     \<not> wrong_arity (command_of (mc_cmd mc)) (length (mc_argv mc)) \<and> (\<forall>a\<in>set (mc_argv mc). small a)"

definition multi_ok :: "client \<Rightarrow> bool" where
  "multi_ok cl \<longleftrightarrow> (\<not> c_multi cl \<longrightarrow> c_mstate cl = [] \<and> \<not> c_dirty_exec cl) \<and> (\<forall>mc\<in>set (c_mstate cl). queued_ok mc)"

text \<open>A client that is in no table, and the iterators and the random source.\<close>

definition detached :: "client \<Rightarrow> bool" where
  "detached cl \<longleftrightarrow> c_watched cl = [] \<and> c_channels cl = [] \<and> c_patterns cl = []"

definition registered :: "server \<Rightarrow> bool" where
  "registered sv \<longleftrightarrow> distinct (sv_clients sv) \<and> (\<forall>c. c \<notin> set (sv_clients sv) \<longrightarrow> detached (sv_client sv c))"

definition sources_ok :: "server \<Rightarrow> bool" where
  "sources_ok sv \<longleftrightarrow>
     (\<forall>m. finite (dom m) \<longrightarrow> distinct (sv_iter sv m) \<and> set (sv_iter sv m) = dom m) \<and>
     (\<forall>m n. finite (dom m) \<and> m \<noteq> Map.empty \<longrightarrow> sv_rnd sv m n \<in> dom m)"

definition sane :: "server \<Rightarrow> bool" where
  "sane sv \<longleftrightarrow>
     ks_wf sv \<and> watch_wf sv \<and> pubsub_wf sv \<and> registered sv \<and> sources_ok sv \<and>
     (\<forall>c. multi_ok (sv_client sv c) \<and> cdb c sv < sv_dbnum sv)"

lemma saneD:
  assumes "sane sv"
  shows "ks_wf sv" "watch_wf sv" "pubsub_wf sv" "registered sv" "sources_ok sv"
    "multi_ok (sv_client sv c)" "cdb c sv < sv_dbnum sv"
  using assms by (simp_all add: sane_def)

lemma sane_watchers:
  assumes "sane sv"
  shows "watchers_registered sv"
  unfolding watchers_registered_def
proof (intro allI subsetI)
  fix i k c assume "c \<in> watchers sv i k"
  then have "(k, i) \<in> set (c_watched (sv_client sv c))" using watch_wfD(3) [OF saneD(2) [OF assms]] by simp
  then show "c \<in> set (sv_clients sv)" using saneD(4) [OF assms] by (auto simp: registered_def detached_def)
qed

lemma sane_rnd: "sane sv \<Longrightarrow> rnd_ok sv"
  using ks_wfD(4) unfolding rnd_ok_def sane_def sources_ok_def by (metis finite_subset)

lemma sane_channel_order: "sane sv \<Longrightarrow> channel_order_ok c sv"
proof -
  have "dom (channel_dict (sv_client sv c)) = set (c_channels (sv_client sv c))"
    by (auto simp: channel_dict_def split: if_splits)
  then show "sane sv \<Longrightarrow> channel_order_ok c sv"
    using saneD(5) [of sv] unfolding channel_order_ok_def sources_ok_def by (metis List.finite_set)
qed

lemma registered_cong:
  assumes "sv_clients sv' = sv_clients sv" "others c sv sv'" "c \<in> set (sv_clients sv)"
  shows "registered sv' = registered sv"
  using assms(3) by (auto simp: registered_def assms(1) detached_def) (metis assms(2) others_def)+

lemma sources_cong: "sv_iter sv' = sv_iter sv \<Longrightarrow> sv_rnd sv' = sv_rnd sv \<Longrightarrow> sources_ok sv' = sources_ok sv"
  by (simp add: sources_ok_def)

lemma multi_cong:
  "c_multi cl' = c_multi cl \<Longrightarrow> c_mstate cl' = c_mstate cl \<Longrightarrow> c_dirty_exec cl' = c_dirty_exec cl \<Longrightarrow>
    multi_ok cl' = multi_ok cl"
  by (simp add: multi_ok_def)

lemma sane_frame:
  assumes "sane sv" "frame sv sv'" "ks_wf sv'"
  shows "sane sv'"
  unfolding sane_def
proof (intro conjI allI)
  note s = saneD [OF assms(1)]
  note p = frame_session_proj [OF assms(2)] frame_server_proj [OF assms(2)] frame_proj [OF assms(2)]
  show "ks_wf sv'" by (rule assms(3))
  show "watch_wf sv'" using s(2) watch_wf_frame [OF assms(2)] by simp
  show "pubsub_wf sv'" using s(3) pubsub_wf_frame [OF assms(2)] by simp
  show "registered sv'" using s(4) unfolding registered_def detached_def p by blast
  show "sources_ok sv'" using s(5) unfolding sources_ok_def p by blast
  fix c
  show "multi_ok (sv_client sv' c)" using s(6) [of c] unfolding multi_ok_def p by blast
  show "cdb c sv' < sv_dbnum sv'" using s(7) [of c] by (simp only: p)
qed

lemma sane_reply [simp]: "sane sv \<Longrightarrow> sane (addReplyString c s sv)"
  using sane_frame [of sv "addReplyString c s sv"] by (simp add: saneD(1))

lemma sane_pubsub:
  assumes "sane sv" "pubsub_wf sv'" "pubsub_frame sv sv'" "others c sv sv'" "c \<in> set (sv_clients sv)" "sv_rnd sv' = sv_rnd sv"
  shows "sane sv'"
  unfolding sane_def
proof (intro conjI allI)
  note s = saneD [OF assms(1)]
  note p = pubsub_frame_proj [OF assms(3)]
  show "ks_wf sv'" using s(1) pubsub_frame_ks [OF assms(3)] by simp
  show "watch_wf sv'" using s(2) pubsub_frame_watch [OF assms(3)] by simp
  show "pubsub_wf sv'" by (rule assms(2))
  show "registered sv'" using s(4) registered_cong [OF p(13) assms(4,5)] by simp
  show "sources_ok sv'" using s(5) sources_cong [OF p(16) assms(6)] by simp
  fix c
  show "multi_ok (sv_client sv' c)" using s(6) [of c] unfolding multi_ok_def p by blast
  show "cdb c sv' < sv_dbnum sv'" using s(7) [of c] by (simp only: p)
qed

lemma watch_frame_proj:
  assumes "watch_frame sv sv'"
  shows "sv_clients sv' = sv_clients sv" "sv_iter sv' = sv_iter sv" "sv_rnd sv' = sv_rnd sv" "sv_dbnum sv' = sv_dbnum sv"
    "c_multi (sv_client sv' c) = c_multi (sv_client sv c)" "c_mstate (sv_client sv' c) = c_mstate (sv_client sv c)"
    "c_dirty_exec (sv_client sv' c) = c_dirty_exec (sv_client sv c)" "cdb c sv' = cdb c sv"
    "c_dirty_cas (sv_client sv' c) = c_dirty_cas (sv_client sv c)" "rd_dict (sv_db sv' i) = rd_dict (sv_db sv i)"
    "rd_expires (sv_db sv' i) = rd_expires (sv_db sv i)" "sv_now sv' = sv_now sv" "sv_maxmemory sv' = sv_maxmemory sv"
    "c_argv (sv_client sv' c) = c_argv (sv_client sv c)" "c_cmd (sv_client sv' c) = c_cmd (sv_client sv c)"
    "sv_dirty sv' = sv_dirty sv" "sv_aof sv' = sv_aof sv" "sv_repl sv' = sv_repl sv" "c_out (sv_client sv' c) = c_out (sv_client sv c)"
    "c_channels (sv_client sv' c) = c_channels (sv_client sv c)" "c_patterns (sv_client sv' c) = c_patterns (sv_client sv c)"
  using assms by (auto simp: watch_frame_def)

lemma sane_watch_frame:
  assumes "sane sv" "watch_wf sv'" "watch_frame sv sv'" "others c sv sv'" "c \<in> set (sv_clients sv)"
  shows "sane sv'"
  unfolding sane_def
proof (intro conjI allI)
  note s = saneD [OF assms(1)]
  note p = watch_frame_proj [OF assms(3)]
  show "ks_wf sv'" using s(1) watch_frame_ks [OF assms(3)] by simp
  show "watch_wf sv'" by (rule assms(2))
  show "pubsub_wf sv'" using s(3) pubsub_wf_watch_frame [OF assms(3)] by simp
  show "registered sv'" using s(4) registered_cong [OF p(1) assms(4,5)] by simp
  show "sources_ok sv'" using s(5) sources_cong [OF p(2,3)] by simp
  fix c
  show "multi_ok (sv_client sv' c)" using s(6) [of c] unfolding multi_ok_def p by blast
  show "cdb c sv' < sv_dbnum sv'" using s(7) [of c] by (simp only: p)
qed

text \<open>A change of one client outside the tables.\<close>

lemma sane_client:
  assumes "sane sv"
    and "c_watched (f (sv_client sv c)) = c_watched (sv_client sv c)"
      "c_channels (f (sv_client sv c)) = c_channels (sv_client sv c)"
      "c_patterns (f (sv_client sv c)) = c_patterns (sv_client sv c)"
    and "multi_ok (f (sv_client sv c))" "c_db (f (sv_client sv c)) < sv_dbnum sv"
  shows "sane (upd_client c f sv)"
  unfolding sane_def
proof (intro conjI allI)
  note s = saneD [OF assms(1)]
  have p: "sv_db (upd_client c f sv) = sv_db sv" "sv_channels (upd_client c f sv) = sv_channels sv"
    "sv_patterns (upd_client c f sv) = sv_patterns sv" "sv_clients (upd_client c f sv) = sv_clients sv"
    "sv_iter (upd_client c f sv) = sv_iter sv" "sv_rnd (upd_client c f sv) = sv_rnd sv"
    "sv_dbnum (upd_client c f sv) = sv_dbnum sv" by (simp_all add: upd_client_def)
  have q: "c_watched (sv_client (upd_client c f sv) d) = c_watched (sv_client sv d)"
    "c_channels (sv_client (upd_client c f sv) d) = c_channels (sv_client sv d)"
    "c_patterns (sv_client (upd_client c f sv) d) = c_patterns (sv_client sv d)" for d
    using assms(2-4) by (auto simp: upd_client_def)
  show "ks_wf (upd_client c f sv)" using s(1) unfolding ks_wf_def p by blast
  show "watch_wf (upd_client c f sv)" using s(2) unfolding watch_wf_def watchers_def p q by blast
  show "pubsub_wf (upd_client c f sv)" using s(3) unfolding pubsub_wf_def subscribers_def p q by blast
  show "registered (upd_client c f sv)" using s(4) unfolding registered_def detached_def p q by blast
  show "sources_ok (upd_client c f sv)" using s(5) unfolding sources_ok_def p by blast
  fix d
  show "multi_ok (sv_client (upd_client c f sv) d)" using s(6) [of d] assms(5) by (simp add: upd_client_def)
  show "cdb d (upd_client c f sv) < sv_dbnum (upd_client c f sv)"
    using s(7) [of d] assms(6) by (simp add: upd_client_def)
qed

section \<open>What a watching client is told\<close>

text \<open>
  The client \<open>d\<close> is marked, or the key \<open>k\<close> of database \<open>i\<close> still has the value \<open>v\<close> and the
  expire time \<open>e\<close> (or none), or that time has passed.
\<close>

definition guarded :: "cid \<Rightarrow> nat \<Rightarrow> key \<Rightarrow> robj option \<Rightarrow> int option \<Rightarrow> server \<Rightarrow> bool" where
  "guarded d i k v e sv \<longleftrightarrow>
     c_dirty_cas (sv_client sv d) \<or>
     rd_dict (sv_db sv i) k = v \<and> (rd_expires (sv_db sv i) k = e \<or> rd_expires (sv_db sv i) k = None) \<or>
     (\<exists>t. e = Some t \<and> t < sv_now sv)"

definition attentive :: "cid \<Rightarrow> server \<Rightarrow> server \<Rightarrow> bool" where
  "attentive d sv sv' \<longleftrightarrow>
     set (c_watched (sv_client sv d)) \<subseteq> set (c_watched (sv_client sv' d)) \<and>
     (\<forall>i k v e. (k, i) \<in> set (c_watched (sv_client sv d)) \<longrightarrow> guarded d i k v e sv \<longrightarrow> guarded d i k v e sv')"

lemma attentive_refl [simp]: "attentive d sv sv"
  by (simp add: attentive_def)

lemma attentive_trans: "attentive d a b \<Longrightarrow> attentive d b c \<Longrightarrow> attentive d a c"
  unfolding attentive_def by blast

lemma attentive_same:
  assumes "\<And>i. rd_dict (sv_db sv' i) = rd_dict (sv_db sv i)" "\<And>i. rd_expires (sv_db sv' i) = rd_expires (sv_db sv i)"
    and "sv_now sv' = sv_now sv" "c_dirty_cas (sv_client sv' d) = c_dirty_cas (sv_client sv d)"
    and "set (c_watched (sv_client sv d)) \<subseteq> set (c_watched (sv_client sv' d))"
  shows "attentive d sv sv'"
  using assms(5) by (simp add: attentive_def guarded_def assms(1-4))

lemma attentive_keeps:
  assumes "watch_wf sv" "frame sv sv'" "signalled sv sv'"
  shows "attentive d sv sv'"
  unfolding attentive_def
proof (intro conjI allI impI)
  show "set (c_watched (sv_client sv d)) \<subseteq> set (c_watched (sv_client sv' d))"
    by (simp only: frame_session_proj(7) [OF assms(2)] order_refl)
  fix i k v e assume w: "(k, i) \<in> set (c_watched (sv_client sv d))" and g: "guarded d i k v e sv"
  have m: "marks_kept sv sv'" using assms(3) by (simp add: signalledx_def)
  have t: "sv_now sv' = sv_now sv" using m by (simp add: marks_kept_def)
  consider (dirty) "c_dirty_cas (sv_client sv d)"
    | (same) "rd_dict (sv_db sv i) k = v" "rd_expires (sv_db sv i) k = e \<or> rd_expires (sv_db sv i) k = None"
    | (late) t where "e = Some t" "t < sv_now sv"
    using g by (auto simp: guarded_def)
  then show "guarded d i k v e sv'"
  proof cases
    case dirty
    then show ?thesis using m by (simp add: guarded_def marks_kept_def)
  next
    case late
    then show ?thesis using t by (simp add: guarded_def)
  next
    case same
    show ?thesis
    proof (cases "altered sv sv' i k")
      case False
      then show ?thesis using same
        by (cases "rd_expires (sv_db sv' i) k") (auto simp: altered_def guarded_def)
    next
      case True
      then have "excused sv sv' i k" using assms(3) by (simp add: signalledx_def)
      moreover have "d \<in> watchers sv i k" using w watch_wfD(3) [OF assms(1)] by simp
      moreover have "dead i k sv \<Longrightarrow> \<exists>t. e = Some t \<and> t < sv_now sv'"
        using same(2) t by (auto simp: dead_def stale_def)
      ultimately show ?thesis by (auto simp: excused_def guarded_def)
    qed
  qed
qed

text \<open>What a command of client \<open>c\<close> does to the rest of the server.\<close>

definition effect :: "cid \<Rightarrow> server \<Rightarrow> server \<Rightarrow> bool" where
  "effect c sv sv' \<longleftrightarrow>
     sane sv' \<and> sv_clients sv' = sv_clients sv \<and> sv_maxmemory sv' = sv_maxmemory sv \<and>
     (\<forall>d. set (c_mstate (sv_client sv' d)) \<subseteq> set (c_mstate (sv_client sv d)))"

definition minds :: "cid \<Rightarrow> server \<Rightarrow> server \<Rightarrow> bool" where
  "minds c sv sv' \<longleftrightarrow> (\<forall>d. attentive d sv sv' \<or> d = c \<and> c_watched (sv_client sv' d) = [])"

lemma effect_refl: "sane sv \<Longrightarrow> effect c sv sv"
  by (simp add: effect_def)

lemma effect_trans: "effect c a b \<Longrightarrow> effect c b d \<Longrightarrow> effect c a d"
  unfolding effect_def by (metis order_trans)

lemma minds_refl [simp]: "minds c sv sv"
  by (simp add: minds_def)

lemma keeps_effect:
  assumes "sane sv" "keeps sv r" "r = Some sv'"
  shows "effect c sv sv' \<and> minds c sv sv'"
proof -
  note k = keepsD [OF assms(2,3)]
  then have f: "frame sv sv'" by simp
  have "sane sv'" using sane_frame [OF assms(1) f] k by simp
  moreover have "attentive d sv sv'" for d using attentive_keeps saneD(2) [OF assms(1)] k by blast
  moreover have "sv_clients sv' = sv_clients sv" "sv_maxmemory sv' = sv_maxmemory sv"
    "c_mstate (sv_client sv' d) = c_mstate (sv_client sv d)" for d
    using frame_server_proj(3) [OF f] frame_proj(6) [OF f] frame_session_proj(5) [OF f] by auto
  ultimately show ?thesis by (simp add: effect_def minds_def)
qed

lemma move_effect:
  assumes "sane sv" "args_ok 3 c sv" "moveCommand c sv = Some sv'"
  shows "effect c sv sv'"
proof -
  have f: "ks_wf sv'" "frame sv sv'"
    using move_fine [OF saneD(1) [OF assms(1)] assms(2) saneD(7) [OF assms(1)]] assms(3) by auto
  then show ?thesis using sane_frame [OF assms(1) f(2,1)]
    frame_server_proj(3) [OF f(2)] frame_proj(6) [OF f(2)] frame_session_proj(5) [OF f(2)]
    by (simp add: effect_def)
qed

text \<open>A change of the client itself.\<close>

lemma upd_client_state:
  "sv_db (upd_client c f sv) = sv_db sv" "sv_now (upd_client c f sv) = sv_now sv"
  "sv_clients (upd_client c f sv) = sv_clients sv" "sv_maxmemory (upd_client c f sv) = sv_maxmemory sv"
  "sv_client (upd_client c f sv) d = (if d = c then f (sv_client sv c) else sv_client sv d)"
  "sv_dirty (upd_client c f sv) = sv_dirty sv" "sv_dbnum (upd_client c f sv) = sv_dbnum sv"
  by (simp_all add: upd_client_def)

lemma client_effect:
  assumes "sane sv"
    and "c_watched (f (sv_client sv c)) = c_watched (sv_client sv c)"
      "c_channels (f (sv_client sv c)) = c_channels (sv_client sv c)"
      "c_patterns (f (sv_client sv c)) = c_patterns (sv_client sv c)"
      "c_dirty_cas (f (sv_client sv c)) = c_dirty_cas (sv_client sv c)"
    and "multi_ok (f (sv_client sv c))" "c_db (f (sv_client sv c)) < sv_dbnum sv"
      "set (c_mstate (f (sv_client sv c))) \<subseteq> set (c_mstate (sv_client sv c))"
  shows "effect c sv (upd_client c f sv) \<and> minds c sv (upd_client c f sv)"
proof -
  have "sane (upd_client c f sv)" by (rule sane_client) (fact assms)+
  moreover have "attentive d sv (upd_client c f sv)" for d
    by (rule attentive_same) (use assms(2,5) in \<open>auto simp: upd_client_state\<close>)
  ultimately show ?thesis using assms(8) by (simp add: effect_def minds_def upd_client_state)
qed

lemma reply_effect [simp]:
  "effect c sv sv' \<Longrightarrow> effect c sv (addReplyString d s sv')"
  "minds c sv sv' \<Longrightarrow> minds c sv (addReplyString d s sv')"
proof -
  have q: "sv_clients (addReplyString d s sv') = sv_clients sv'" "c_mstate (sv_client (addReplyString d s sv') e) = c_mstate (sv_client sv' e)"
    "c_watched (sv_client (addReplyString d s sv') e) = c_watched (sv_client sv' e)"
    "c_dirty_cas (sv_client (addReplyString d s sv') e) = c_dirty_cas (sv_client sv' e)" for e
    by (simp_all add: addReplyString_def upd_client_def)
  show "effect c sv sv' \<Longrightarrow> effect c sv (addReplyString d s sv')" by (simp add: effect_def q)
  have a: "attentive e sv' (addReplyString d s sv')" for e
    by (rule attentive_same) (simp_all add: q)
  show "minds c sv sv' \<Longrightarrow> minds c sv (addReplyString d s sv')"
    unfolding minds_def using attentive_trans [OF _ a] q(3) by metis
qed

lemma longlong_effect [simp]:
  "effect c sv sv' \<Longrightarrow> effect c sv (addReplyLongLong d n sv')" "minds c sv sv' \<Longrightarrow> minds c sv (addReplyLongLong d n sv')"
  using addReplyLongLong_string [of d n] by auto

lemma select_effect:
  assumes "sane sv" "selectCommand c sv = Some sv'"
  shows "effect c sv sv' \<and> minds c sv sv'"
proof (rule getLongLong_arg [of c "argv c sv 1" "Some ''invalid DB index''" sv])
  assume "getLongFromObjectOrReply c (Some (arg c sv 1)) (Some ''invalid DB index'') sv =
    Some (None, addReplyString c (''-ERR '' @ cstr (case Some ''invalid DB index'' of Some m \<Rightarrow> m | None \<Rightarrow> ''value is not an integer or out of range'') @ CRLF) sv)"
  then show ?thesis using assms by (auto simp: selectCommand_def effect_refl)
next
  fix v assume "getLongFromObjectOrReply c (Some (arg c sv 1)) (Some ''invalid DB index'') sv = Some (Some v, sv)"
  then have sv': "sv' = (let (ok, sv) = selectDb c (to_int32 v) sv
    in if ok then addReply c shared_ok sv else addReplyError c ''invalid DB index'' sv)"
    using assms(2) by (simp add: selectCommand_def Let_def case_prod_unfold)
  show ?thesis
  proof (cases "to_int32 v < 0 \<or> int (sv_dbnum sv) \<le> to_int32 v")
    case True
    then show ?thesis using assms(1) by (simp add: sv' selectDb_def addReplyError_eq effect_refl)
  next
    case False
    have "effect c sv (upd_client c (c_db_update (\<lambda>_. nat (to_int32 v))) sv) \<and>
        minds c sv (upd_client c (c_db_update (\<lambda>_. nat (to_int32 v))) sv)"
      by (rule client_effect [OF assms(1)]) (use False saneD(6) [OF assms(1)] in \<open>auto simp: multi_ok_def\<close>)
    then show ?thesis using False by (simp add: sv' selectDb_def addReply_def)
  qed
qed

lemma auth_effect:
  assumes "sane sv" "authCommand c sv = Some sv'"
  shows "effect c sv sv' \<and> minds c sv sv'"
proof -
  have e: "effect c sv (upd_client c (c_authenticated_update (\<lambda>_. b)) sv) \<and>
      minds c sv (upd_client c (c_authenticated_update (\<lambda>_. b)) sv)" for b
    by (rule client_effect [OF assms(1)]) (use saneD(6,7) [OF assms(1)] in \<open>auto simp: multi_ok_def\<close>)
  show ?thesis
    using assms e by (auto simp: authCommand_def addReplyError_eq addReply_def effect_refl split: option.splits if_splits)
qed

lemma pubsub_effect:
  assumes "sane sv" "c \<in> set (sv_clients sv)" "pubsub_wf sv'" "pubsub_frame sv sv'" "others c sv sv'"
  shows "effect c sv sv' \<and> minds c sv sv'"
proof -
  note p = pubsub_frame_proj [OF assms(4)]
  have q: "sv_rnd sv' = sv_rnd sv" "sv_maxmemory sv' = sv_maxmemory sv" using assms(4) by (auto simp: pubsub_frame_def)
  have "sane sv'" by (rule sane_pubsub [OF assms(1,3,4,5,2) q(1)])
  moreover have "attentive d sv sv'" for d by (rule attentive_same) (simp_all add: p)
  ultimately show ?thesis by (simp add: effect_def minds_def p q)
qed

lemma subscribe_effect:
  assumes "sane sv" "c \<in> set (sv_clients sv)" "args_ok n c sv"
  shows "subscribeCommand c sv = Some sv' \<Longrightarrow> effect c sv sv' \<and> minds c sv sv'"
    "psubscribeCommand c sv = Some sv' \<Longrightarrow> effect c sv sv' \<and> minds c sv sv'"
    "unsubscribeCommand c sv = Some sv' \<Longrightarrow> effect c sv sv' \<and> minds c sv sv'"
    "punsubscribeCommand c sv = Some sv' \<Longrightarrow> effect c sv sv' \<and> minds c sv sv'"
  using subscribe_commands_fine [OF saneD(3) [OF assms(1)] assms(3) sane_channel_order [OF assms(1)]]
    pubsub_effect [OF assms(1,2)] subscribe_commands_others
  by auto

lemma publish_channel_ind:
  assumes "\<And>d s t. P t \<Longrightarrow> P (addReplyString d s t)" "P sv" "publish_channel_loop ch m cs sv = Some sv'"
  shows "P sv'"
  using assms(2,3)
proof (induction cs arbitrary: sv)
  case (Cons c cs)
  then show ?case using assms(1) by (auto simp: addReplyBulk_some addReply_def)
qed simp

lemma publish_pattern_ind:
  assumes "\<And>d s t. P t \<Longrightarrow> P (addReplyString d s t)" "P sv" "publish_pattern_loop ch m ps n sv = Some (n', sv')"
  shows "P sv'"
  using assms(2,3)
proof (induction ps arbitrary: sv n)
  case (Cons cp ps)
  obtain c p where cp: "cp = (c, p)" by fastforce
  obtain b where b: "stringmatchlen (p @ [NUL]) 0 (int (length p)) (ch @ [NUL]) 0 (int (length ch)) False = Some b"
    using Cons.prems(2) by (auto simp: cp split: Option.bind_splits)
  show ?case
    using Cons.prems b Cons.IH [of "addReplyString _ _ sv"] Cons.IH [of sv] assms(1)
    by (cases b) (auto simp: cp addReplyBulk_some addReply_def)
qed simp

lemma publish_effect:
  assumes "sane sv" "publishCommand c sv = Some sv'"
  shows "effect c sv sv' \<and> minds c sv sv'"
proof -
  obtain n s1 s2 where r: "publish_channel_loop (argv c sv 1) (argv c sv 2)
      (case sv_channels sv (argv c sv 1) of None \<Rightarrow> [] | Some cs \<Rightarrow> cs) sv = Some s1"
    "publish_pattern_loop (argv c sv 1) (argv c sv 2) (sv_patterns s1)
      (length (case sv_channels sv (argv c sv 1) of None \<Rightarrow> [] | Some cs \<Rightarrow> cs)) s1 = Some (n, s2)"
    "sv' = addReplyLongLong c (int n) s2"
    using assms(2) by (auto simp: publishCommand_def pubsubPublishMessage_def Let_def split: Option.bind_splits)
  have "effect c sv s1 \<and> minds c sv s1"
    by (rule publish_channel_ind [OF _ _ r(1)]) (use effect_refl [OF assms(1)] in auto)
  then have "effect c sv s2 \<and> minds c sv s2"
    by (rule publish_pattern_ind [OF _ _ r(2), rotated]) auto
  then show ?thesis by (simp add: r(3))
qed

lemma watch_frame_effect:
  assumes "sane sv" "c \<in> set (sv_clients sv)" "watch_wf sv'" "watch_frame sv sv'" "others c sv sv'"
  shows "effect c sv sv'"
    "set (c_watched (sv_client sv c)) \<subseteq> set (c_watched (sv_client sv' c)) \<or> c_watched (sv_client sv' c) = [] \<Longrightarrow> minds c sv sv'"
proof -
  note p = watch_frame_proj [OF assms(4)]
  show "effect c sv sv'" using sane_watch_frame [OF assms(1,3,4,5,2)] by (simp add: effect_def p)
  assume w: "set (c_watched (sv_client sv c)) \<subseteq> set (c_watched (sv_client sv' c)) \<or> c_watched (sv_client sv' c) = []"
  show "minds c sv sv'"
    unfolding minds_def
  proof (intro allI)
    fix d show "attentive d sv sv' \<or> d = c \<and> c_watched (sv_client sv' d) = []"
    proof (cases "d = c \<and> c_watched (sv_client sv' d) = []")
      case False
      then have "set (c_watched (sv_client sv d)) \<subseteq> set (c_watched (sv_client sv' d))"
        using w assms(5) by (cases "d = c") (auto simp: others_def)
      then have "attentive d sv sv'" by (intro attentive_same) (simp_all add: p)
      then show ?thesis by simp
    qed blast
  qed
qed

lemma watch_effect:
  assumes "sane sv" "c \<in> set (sv_clients sv)" "watchCommand c sv = Some sv'"
  shows "effect c sv sv' \<and> minds c sv sv'"
proof (cases "c_multi (sv_client sv c)")
  case True
  then show ?thesis using assms by (auto simp: watchCommand_def addReplyError_eq effect_refl)
next
  case False
  define s where "s = fold (watchForKey c) (drop 1 (c_argv (sv_client sv c))) sv"
  have f: "watch_wf s" "watch_frame sv s" "set (c_watched (sv_client sv c)) \<subseteq> set (c_watched (sv_client s c))"
    using fold_watchForKey [OF saneD(2) [OF assms(1)], of c "drop 1 (c_argv (sv_client sv c))"] by (auto simp: s_def)
  have "others c sv s" by (simp add: s_def watch_others)
  then have "effect c sv s \<and> minds c sv s" using watch_frame_effect [OF assms(1,2) f(1,2)] f(3) by simp
  then show ?thesis using assms(3) False by (auto simp: watchCommand_def s_def addReply_def)
qed

lemma unwatchAll_effect:
  assumes "sane sv" "c \<in> set (sv_clients sv)"
  obtains s where "unwatchAllKeys c sv = Some s" "watch_frame sv s" "c_watched (sv_client s c) = []"
    "effect c sv s" "minds c sv s"
proof -
  obtain s where s: "unwatchAllKeys c sv = Some s" "watch_wf s" "watch_frame sv s" "c_watched (sv_client s c) = []"
    using unwatchAllKeys_props [OF saneD(2) [OF assms(1)], of c] by blast
  have "effect c sv s" "minds c sv s"
    using watch_frame_effect [OF assms s(2,3) unwatch_others [OF s(1)]] s(4) by simp_all
  with s show thesis using that by blast
qed

lemma minds_unwatched:
  assumes "minds c sv s" "c_watched (sv_client s c) = []" "\<And>d. d \<noteq> c \<Longrightarrow> attentive d s t" "c_watched (sv_client t c) = []"
  shows "minds c sv t"
  using assms unfolding minds_def by (metis attentive_trans)

lemma watched_reply [simp]:
  "c_watched (sv_client (addReplyString d s sv) c) = c_watched (sv_client sv c)"
  by (simp add: addReplyString_def upd_client_def)

lemma unwatch_effect:
  assumes "sane sv" "c \<in> set (sv_clients sv)" "unwatchCommand c sv = Some sv'"
  shows "effect c sv sv' \<and> minds c sv sv' \<and> c_watched (sv_client sv' c) = []"
proof -
  obtain s where s: "unwatchAllKeys c sv = Some s" "c_watched (sv_client s c) = []" "effect c sv s" "minds c sv s"
    using unwatchAll_effect [OF assms(1,2)] by metis
  let ?t = "upd_client c (c_dirty_cas_update (\<lambda>_. False)) s"
  have "sane s" using s(3) by (simp add: effect_def)
  then have "sane ?t"
    by (rule sane_client) (use saneD(6,7) [of s c] \<open>sane s\<close> in \<open>auto simp: multi_ok_def\<close>)
  then have "effect c sv ?t" using s(3) by (simp add: effect_def upd_client_state)
  moreover have "minds c sv ?t"
    by (rule minds_unwatched [OF s(4,2)]) (auto intro!: attentive_same simp: upd_client_state s(2))
  ultimately show ?thesis 
    using assms(3) s(1,2) by (auto simp: unwatchCommand_def addReply_def upd_client_state)
qed

section \<open>Every entry of the table\<close>

definition good :: "cid \<Rightarrow> server \<Rightarrow> string \<Rightarrow> server option \<Rightarrow> bool" where
  "good c sv name r \<longleftrightarrow>
     (\<forall>sv'. r = Some sv' \<longrightarrow> effect c sv sv' \<and> (name \<noteq> ''move'' \<longrightarrow> minds c sv sv'))"

definition entry_good :: "cid \<Rightarrow> server \<Rightarrow> redisCommand \<Rightarrow> bool" where
  "entry_good c sv cmd \<longleftrightarrow>
     (\<forall>proc. rc_proc cmd = Some proc \<and> \<not> wrong_arity cmd (argc c sv) \<longrightarrow> good c sv (rc_name cmd) (proc c sv))"

lemma good_keeps: "sane sv \<Longrightarrow> keeps sv r \<Longrightarrow> good c sv name r"
  using keeps_effect by (auto simp: good_def)

lemma entry_good_simps:
  assumes "\<forall>a\<in>set (c_argv (sv_client sv c)). small a"
  shows "(args_ok (nat \<bar>arity\<bar>) c sv \<Longrightarrow> good c sv name (proc c sv)) \<Longrightarrow> entry_good c sv (entry name (Some proc) arity fl g a b d)"
    "entry_good c sv (entry name None arity fl g a b d)"
proof -
  have a: "args_ok (nat \<bar>arity\<bar>) c sv" if "\<not> wrong_arity (entry name (Some proc) arity fl g a b d) (argc c sv)"
    using assms that by (auto simp: args_ok_def wrong_arity_def entry_def)
  show "(args_ok (nat \<bar>arity\<bar>) c sv \<Longrightarrow> good c sv name (proc c sv)) \<Longrightarrow> entry_good c sv (entry name (Some proc) arity fl g a b d)"
    using a by (simp add: entry_good_def) (simp add: entry_def)
qed (simp add: entry_good_def entry_def)

lemma args_ok_le: "args_ok m c sv \<Longrightarrow> n \<le> m \<Longrightarrow> args_ok n c sv"
  by (simp add: args_ok_def)

lemma table_good:
  assumes "sane sv" "c \<in> set (sv_clients sv)" "\<forall>a\<in>set (c_argv (sv_client sv c)). small a"
  shows "\<forall>cmd\<in>set commandTable. entry_good c sv cmd"
proof -
  note k = key_commands_keep [OF saneD(1,2) [OF assms(1)] sane_watchers [OF assms(1)], THEN good_keeps [OF assms(1)]]
  note v = value_commands_keep [OF saneD(1) [OF assms(1)], THEN good_keeps [OF assms(1)]]
  have m: "args_ok 3 c sv \<Longrightarrow> good c sv ''move'' (moveCommand c sv)"
    using move_effect [OF assms(1)] by (simp add: good_def)
  have s: "good c sv name (selectCommand c sv)" "good c sv name (authCommand c sv)" "good c sv name (publishCommand c sv)"
    "good c sv name (watchCommand c sv)" "good c sv name (unwatchCommand c sv)" for name
    using select_effect [OF assms(1)] auth_effect [OF assms(1)] publish_effect [OF assms(1)]
      watch_effect [OF assms(1,2)] unwatch_effect [OF assms(1,2)] by (auto simp: good_def)
  have p: "args_ok n c sv \<Longrightarrow> good c sv name (subscribeCommand c sv)" "args_ok n c sv \<Longrightarrow> good c sv name (psubscribeCommand c sv)"
    "args_ok n c sv \<Longrightarrow> good c sv name (unsubscribeCommand c sv)" "args_ok n c sv \<Longrightarrow> good c sv name (punsubscribeCommand c sv)" for name n
    using subscribe_effect [OF assms(1,2)] by (auto simp: good_def)
  note e = entry_good_simps(1) [OF assms(3)]
  show ?thesis
    unfolding commandTable_eq list.set ball_simps(7) ball_empty
    by (intro conjI) ((rule TrueI entry_good_simps(2) [OF assms(3)] | (rule e, (rule k s | (rule p, assumption) | (rule v m, rule args_ok_le, assumption, simp))))+)
qed

section \<open>The table\<close>

lemma full_names: "distinct (List.map rc_name redisCommandTable)"
  by (simp add: redisCommandTable_def entry_def)

lemma table_names: "distinct (List.map rc_name commandTable)"
  unfolding commandTable_def by (rule distinct_map_filter [OF full_names])

lemma table_proc:
  assumes "cmd \<in> set commandTable"
  shows "rc_proc cmd = None \<longleftrightarrow> rc_name cmd \<in> {''exec'', ''discard'', ''multi''}"
  using assms unfolding commandTable_eq entry_def by auto

lemma find_name:
  assumes "distinct (List.map rc_name cmds)" "cmd \<in> set cmds"
  shows "List.find (\<lambda>c. rc_name c = rc_name cmd) cmds = Some cmd"
  using assms by (induction cmds) (auto simp: image_iff)

lemma command_of_table:
  assumes "cmd \<in> set commandTable"
  shows "command_of (rc_name cmd) = cmd"
  using find_name [OF full_names, of cmd] assms by (simp add: command_of_def commandTable_def)

lemma lookupCommand_table:
  assumes "lookupCommand name = Some cmd"
  shows "cmd \<in> set commandTable" "rc_name cmd = List.map tolower name"
  using assms by (auto simp: lookupCommand_def find_Some_iff)

lemma queued_proc:
  assumes "queued_ok mc"
  obtains cmd proc where "cmd \<in> set commandTable" "rc_name cmd = mc_cmd mc" "command_of (mc_cmd mc) = cmd"
    "rc_proc cmd = Some proc" "queued_proc (mc_cmd mc) = proc" "\<not> wrong_arity cmd (length (mc_argv mc))"
    "\<forall>a\<in>set (mc_argv mc). small a"
proof -
  obtain cmd where cmd: "cmd \<in> set commandTable" "rc_name cmd = mc_cmd mc"
    using assms by (auto simp: queued_ok_def)
  have c: "command_of (mc_cmd mc) = cmd" using command_of_table [OF cmd(1)] cmd(2) by simp
  have "rc_proc cmd \<noteq> None" using table_proc [OF cmd(1)] assms by (auto simp: cmd(2) queued_ok_def)
  then obtain proc where "rc_proc cmd = Some proc" by auto
  with cmd c show thesis using assms that by (auto simp: queued_proc_def queued_ok_def)
qed

section \<open>Calls and transactions\<close>

definition mindful :: "cid \<Rightarrow> server \<Rightarrow> server \<Rightarrow> bool" where
  "mindful c sv sv' \<longleftrightarrow> (\<forall>d. d \<noteq> c \<longrightarrow> attentive d sv sv')"

lemma mindful_trans: "mindful c a b \<Longrightarrow> mindful c b d \<Longrightarrow> mindful c a d"
  unfolding mindful_def using attentive_trans by blast

lemma minds_mindful: "minds c sv sv' \<Longrightarrow> mindful c sv sv'"
  by (auto simp: minds_def mindful_def)

lemma mindful_minds: "mindful c sv sv' \<Longrightarrow> c_watched (sv_client sv' c) = [] \<Longrightarrow> minds c sv sv'"
  by (auto simp: minds_def mindful_def)

lemma effect_same:
  assumes "sv_db sv2 = sv_db sv1" "sv_client sv2 = sv_client sv1" "sv_clients sv2 = sv_clients sv1"
    "sv_channels sv2 = sv_channels sv1" "sv_patterns sv2 = sv_patterns sv1" "sv_iter sv2 = sv_iter sv1"
    "sv_rnd sv2 = sv_rnd sv1" "sv_dbnum sv2 = sv_dbnum sv1" "sv_now sv2 = sv_now sv1" "sv_maxmemory sv2 = sv_maxmemory sv1"
  shows "sane sv2 = sane sv1" "effect c sv sv2 = effect c sv sv1" "minds c sv sv2 = minds c sv sv1"
proof -
  show s: "sane sv2 = sane sv1"
    unfolding sane_def ks_wf_def watch_wf_def watchers_def pubsub_wf_def subscribers_def registered_def sources_ok_def assms ..
  show "effect c sv sv2 = effect c sv sv1" unfolding effect_def s assms ..
  show "minds c sv sv2 = minds c sv sv1" unfolding minds_def attentive_def guarded_def assms ..
qed

lemma propagate_effect [simp]:
  "effect c sv (propagate i args a r sv') = effect c sv sv'" "minds c sv (propagate i args a r sv') = minds c sv sv'"
  "sane (propagate i args a r sv') = sane sv'"
  "sv_client (propagate i args a r sv') = sv_client sv'" "sv_clients (propagate i args a r sv') = sv_clients sv'"
  by (rule effect_same; simp add: propagate_def)+ (simp_all add: propagate_def)

lemma dirty_effect [simp]:
  "effect c sv (incr_dirty n sv') = effect c sv sv'" "minds c sv (incr_dirty n sv') = minds c sv sv'"
  "sane (incr_dirty n sv') = sane sv'"
  by (rule effect_same; simp add: incr_dirty_def)+

lemma call_result:
  assumes "call proc c sv = Some sv'"
  obtains s where "proc c sv = Some s" "sv' = s \<or> (\<exists>i args a r. sv' = propagate i args a r s)"
  using assms by (auto simp: call_def Let_def split: Option.bind_splits if_splits)

lemma call_effect:
  assumes "call proc c sv = Some sv'" "good c sv name (proc c sv)"
  shows "effect c sv sv'" "name \<noteq> ''move'' \<Longrightarrow> minds c sv sv'"
  using assms(2) by (auto simp: good_def intro: call_result [OF assms(1)])

lemma set_request_effect:
  assumes "sane sv"
  shows "effect c sv (set_request c cmd args sv)" "minds c sv (set_request c cmd args sv)"
  using client_effect [OF assms, of "\<lambda>cl. cl\<lparr>c_cmd := cmd, c_argv := args\<rparr>" c] saneD(6,7) [OF assms]
  by (simp_all add: set_request_def multi_ok_def)

lemma exec_loop_effect:
  assumes "sane sv" "c \<in> set (sv_clients sv)" "\<forall>mc\<in>set mcs. queued_ok mc" "exec_loop c mcs b sv = Some (b', sv')"
  shows "effect c sv sv' \<and> ((\<forall>mc\<in>set mcs. mc_cmd mc \<noteq> ''move'') \<longrightarrow> mindful c sv sv')"
  using assms
proof (induction mcs arbitrary: b sv)
  case Nil
  then show ?case by (simp add: effect_refl mindful_def)
next
  case (Cons mc mcs)
  obtain cmd proc where q: "cmd \<in> set commandTable" "rc_name cmd = mc_cmd mc" "command_of (mc_cmd mc) = cmd"
    "rc_proc cmd = Some proc" "queued_proc (mc_cmd mc) = proc" "\<not> wrong_arity cmd (length (mc_argv mc))"
    "\<forall>a\<in>set (mc_argv mc). small a"
    using queued_proc [of mc] Cons.prems(3) by auto
  define s1 where "s1 = set_request c (mc_cmd mc) (mc_argv mc) sv"
  define w where "w = (\<not> b \<and> \<not> has_flag CHR ''r'' cmd)"
  define s2 where "s2 = (if w then execCommandPropagateMulti c s1 else s1)"
  obtain s3 where r: "call proc c s2 = Some s3" "exec_loop c mcs (b \<or> w) s3 = Some (b', sv')"
    using Cons.prems(4) by (auto simp: q(3,5) Let_def s1_def [symmetric] w_def [symmetric] s2_def [symmetric]
        split: Option.bind_splits)
  have e2: "effect c sv s2" "minds c sv s2"
    using set_request_effect [OF Cons.prems(1), of c "mc_cmd mc" "mc_argv mc"]
    by (simp_all add: s2_def s1_def execCommandPropagateMulti_def)
  have s2: "sane s2" "c \<in> set (sv_clients s2)" "c_argv (sv_client s2 c) = mc_argv mc"
    using e2(1) Cons.prems(2)
    by (simp_all add: effect_def) (simp add: s2_def s1_def execCommandPropagateMulti_def set_request_def upd_client_state)
  have "entry_good c s2 cmd" using table_good [OF s2(1,2)] q(1,7) s2(3) by simp
  then have g: "good c s2 (mc_cmd mc) (proc c s2)" using q(2,4,6) s2(3) by (simp add: entry_good_def)
  note e3 = call_effect [OF r(1) g]
  have s3: "sane s3" "c \<in> set (sv_clients s3)" using e3(1) s2(2) by (simp_all add: effect_def)
  have ih: "effect c s3 sv' \<and> ((\<forall>mc\<in>set mcs. mc_cmd mc \<noteq> ''move'') \<longrightarrow> mindful c s3 sv')"
    using Cons.IH [OF s3 _ r(2)] Cons.prems(3) by simp
  have "effect c sv sv'" using ih e2(1) e3(1) effect_trans by blast
  moreover have "mindful c sv sv'" if "\<forall>mc\<in>set (mc # mcs). mc_cmd mc \<noteq> ''move''"
    using ih minds_mindful [OF e2(2)] minds_mindful [OF e3(2)] that mindful_trans by auto
  ultimately show ?case by blast
qed

lemma discard_effect:
  assumes "sane sv" "c \<in> set (sv_clients sv)"
  obtains s where "discardTransaction c sv = Some s" "effect c sv s" "mindful c sv s" "c_watched (sv_client s c) = []"
    "c_mstate (sv_client s c) = []" "\<not> c_multi (sv_client s c)" "\<not> c_dirty_cas (sv_client s c)"
proof -
  let ?f = "\<lambda>cl. cl\<lparr>c_mstate := [], c_multi := False, c_dirty_cas := False, c_dirty_exec := False\<rparr>"
  let ?t = "upd_client c ?f sv"
  have t: "sane ?t" by (rule sane_client [OF assms(1)]) (use saneD(7) [OF assms(1)] in \<open>auto simp: multi_ok_def\<close>)
  have e: "effect c sv ?t" using t by (simp add: effect_def upd_client_state)
  have m: "mindful c sv ?t"
    unfolding mindful_def by (intro allI impI attentive_same) (simp_all add: upd_client_state)
  have "c \<in> set (sv_clients ?t)" using assms(2) by (simp add: upd_client_state)
  then obtain s where s: "unwatchAllKeys c ?t = Some s" "watch_frame ?t s" "c_watched (sv_client s c) = []"
    "effect c ?t s" "minds c ?t s" using unwatchAll_effect [OF t] by blast
  have p: "c_mstate (sv_client s c) = []" "\<not> c_multi (sv_client s c)" "\<not> c_dirty_cas (sv_client s c)"
    using watch_frame_proj [OF s(2)] by (simp_all add: upd_client_state)
  have d: "discardTransaction c sv = Some s" using s(1) by (simp add: discardTransaction_def)
  show thesis
    by (rule that [OF d effect_trans [OF e s(4)] mindful_trans [OF m minds_mindful [OF s(5)]] s(3) p])
qed

end
