(* ===== verification/Machine.thy ===== *)
theory Machine
  imports Effects "HOL-Library.List_Lexorder" "HOL-Library.Char_ord"
begin

text \<open>
  The server as a state machine: connections, requests, the clock, the expire cycle and
  disconnections are the events, \<open>step\<close> their transitions and \<open>reachable\<close> the states they lead to.
  Every reachable state is \<open>sane\<close>, requests return, and a client is told of every change of a key it
  watches.
\<close>

lemma exec_effect:
  assumes "sane sv" "c \<in> set (sv_clients sv)" "execCommand c sv = Some sv'"
  shows "effect c sv sv' \<and> ((\<forall>mc\<in>set (c_mstate (sv_client sv c)). mc_cmd mc \<noteq> ''move'') \<longrightarrow> minds c sv sv')"
proof -
  let ?cl = "sv_client sv c"
  consider (none) "\<not> c_multi ?cl" | (abort) "c_multi ?cl" "c_dirty_cas ?cl \<or> c_dirty_exec ?cl"
    | (run) "c_multi ?cl" "\<not> (c_dirty_cas ?cl \<or> c_dirty_exec ?cl)" by blast
  then show ?thesis
  proof cases
    case none
    then show ?thesis using assms by (auto simp: execCommand_def addReplyError_eq effect_refl)
  next
    case abort
    let ?r = "if c_dirty_exec ?cl then shared_execaborterr else shared_nullmultibulk"
    let ?s = "addReplyString c ?r sv"
    have e: "effect c sv ?s" "minds c sv ?s" using effect_refl [OF assms(1)] by simp_all
    then have s: "sane ?s" "c \<in> set (sv_clients ?s)" using assms(2) by (simp_all add: effect_def)
    obtain s' where d: "discardTransaction c ?s = Some s'" "effect c ?s s'" "mindful c ?s s'" "c_watched (sv_client s' c) = []"
      using discard_effect [OF s] by metis
    have "sv' = s'" using assms(3) abort d(1) by (simp add: execCommand_def addReply_def)
    then show ?thesis
      using effect_trans [OF e(1) d(2)] mindful_minds [OF mindful_trans [OF minds_mindful [OF e(2)] d(3)] d(4)] by simp
  next
    case run
    obtain s0 where u: "unwatchAllKeys c sv = Some s0" "effect c sv s0" "minds c sv s0"
      using unwatchAll_effect [OF assms(1,2)] by metis
    let ?s1 = "addReplyMultiBulkLen c (length (c_mstate ?cl)) s0"
    have e1: "effect c sv ?s1" "minds c sv ?s1"
      using u(2,3) by (simp_all add: addReplyMultiBulkLen_def addReplyLongLongWithPrefix_def)
    then have s1: "sane ?s1" "c \<in> set (sv_clients ?s1)" using assms(2) by (simp_all add: effect_def)
    obtain b s2 s3 where r: "exec_loop c (c_mstate ?cl) False ?s1 = Some (b, s2)"
      "discardTransaction c (set_request c (c_cmd ?cl) (c_argv ?cl) s2) = Some s3"
      "sv' = (if b then incr_dirty 1 s3 else s3)"
      using assms(3) run u(1) by (auto simp: execCommand_def Let_def split: Option.bind_splits)
    have "\<forall>mc\<in>set (c_mstate ?cl). queued_ok mc" using saneD(6) [OF assms(1), of c] by (simp add: multi_ok_def)
    note e2 = exec_loop_effect [OF s1 this r(1)]
    then have s2: "sane s2" "c \<in> set (sv_clients s2)" using s1(2) by (simp_all add: effect_def)
    note e3 = set_request_effect [OF s2(1), of c "c_cmd ?cl" "c_argv ?cl"]
    then have s3: "sane (set_request c (c_cmd ?cl) (c_argv ?cl) s2)" "c \<in> set (sv_clients (set_request c (c_cmd ?cl) (c_argv ?cl) s2))"
      using s2(2) by (simp_all add: effect_def)
    obtain e4: "effect c (set_request c (c_cmd ?cl) (c_argv ?cl) s2) s3"
      "mindful c (set_request c (c_cmd ?cl) (c_argv ?cl) s2) s3" "c_watched (sv_client s3 c) = []"
      using discard_effect [OF s3] r(2) by (metis option.inject)
    have "effect c sv s3" using e1 e2 e3 e4 effect_trans by blast
    moreover have "minds c sv s3" if "\<forall>mc\<in>set (c_mstate ?cl). mc_cmd mc \<noteq> ''move''"
      using that e1(2) e2 e3(2) e4(2) by (intro mindful_minds [OF _ e4(3)]) (meson mindful_trans minds_mindful)
    ultimately show ?thesis by (simp add: r(3))
  qed
qed

lemma discardCommand_effect:
  assumes "sane sv" "c \<in> set (sv_clients sv)" "discardCommand c sv = Some sv'"
  shows "effect c sv sv' \<and> minds c sv sv'"
proof (cases "c_multi (sv_client sv c)")
  case False
  then show ?thesis using assms by (auto simp: discardCommand_def addReplyError_eq effect_refl)
next
  case True
  obtain s where "discardTransaction c sv = Some s" "effect c sv s" "mindful c sv s" "c_watched (sv_client s c) = []"
    using discard_effect [OF assms(1,2)] by metis
  then show ?thesis using assms(3) True by (auto simp: discardCommand_def addReply_def mindful_minds)
qed

lemma multiCommand_effect:
  assumes "sane sv" "multiCommand c sv = Some sv'"
  shows "effect c sv sv' \<and> minds c sv sv'"
proof -
  have "effect c sv (upd_client c (c_multi_update (\<lambda>_. True)) sv) \<and> minds c sv (upd_client c (c_multi_update (\<lambda>_. True)) sv)"
    by (rule client_effect [OF assms(1)]) (use saneD(6,7) [OF assms(1), of c] in \<open>auto simp: multi_ok_def\<close>)
  then show ?thesis using assms by (auto simp: multiCommand_def addReplyError_eq addReply_def effect_refl)
qed

text \<open>No MOVE waits in a transaction.\<close>

definition moveless :: "server \<Rightarrow> bool" where
  "moveless sv \<longleftrightarrow> (\<forall>c. \<forall>mc\<in>set (c_mstate (sv_client sv c)). mc_cmd mc \<noteq> ''move'')"

lemma effect_moveless: "effect c sv sv' \<Longrightarrow> moveless sv \<Longrightarrow> moveless sv'"
  unfolding effect_def moveless_def by blast

definition runs :: "cid \<Rightarrow> bool \<Rightarrow> server \<Rightarrow> server \<Rightarrow> bool" where
  "runs c nomove sv sv' \<longleftrightarrow>
     sane sv' \<and> sv_clients sv' = sv_clients sv \<and> sv_maxmemory sv' = sv_maxmemory sv \<and>
     (nomove \<and> moveless sv \<longrightarrow> moveless sv' \<and> minds c sv sv')"

lemma effect_runs: "effect c sv sv' \<Longrightarrow> (nomove \<Longrightarrow> moveless sv \<Longrightarrow> minds c sv sv') \<Longrightarrow> runs c nomove sv sv'"
  using effect_moveless by (auto simp: runs_def) (auto simp: effect_def)

lemma command_proc_runs:
  assumes "sane sv" "c \<in> set (sv_clients sv)" "\<forall>a\<in>set (c_argv (sv_client sv c)). small a"
    and "cmd \<in> set commandTable" "\<not> wrong_arity cmd (argc c sv)" "call (command_proc cmd) c sv = Some sv'"
  shows "runs c (rc_name cmd \<noteq> ''move'') sv sv'"
proof (cases "rc_proc cmd")
  case (Some proc)
  have "entry_good c sv cmd" using table_good [OF assms(1-3)] assms(4) by blast
  then have "good c sv (rc_name cmd) (command_proc cmd c sv)"
    using Some assms(5) by (simp add: entry_good_def command_proc_def)
  from call_effect [OF assms(6) this] show ?thesis by (intro effect_runs)
next
  case None
  then have n: "rc_name cmd \<in> {''exec'', ''discard'', ''multi''}" using table_proc [OF assms(4)] by simp
  obtain s where s: "command_proc cmd c sv = Some s" "sv' = s \<or> (\<exists>i args a r. sv' = propagate i args a r s)"
    by (rule call_result [OF assms(6)])
  have "effect c sv s \<and> (moveless sv \<longrightarrow> minds c sv s)"
    using n s(1) None exec_effect [OF assms(1,2)] discardCommand_effect [OF assms(1,2)] multiCommand_effect [OF assms(1)]
    by (auto simp: command_proc_def moveless_def)
  then have "effect c sv sv' \<and> (moveless sv \<longrightarrow> minds c sv sv')" using s(2) by auto
  then show ?thesis by (intro effect_runs) auto
qed

section \<open>Requests\<close>

lemma runs_reply: "runs c b sv sv' \<Longrightarrow> runs c b sv (addReplyString d s sv')"
proof -
  have "c_mstate (sv_client (addReplyString d s sv') e) = c_mstate (sv_client sv' e)"
    "sv_clients (addReplyString d s sv') = sv_clients sv'" for e
    by (simp_all add: addReplyString_def upd_client_def)
  then show "runs c b sv sv' \<Longrightarrow> runs c b sv (addReplyString d s sv')" by (simp add: runs_def moveless_def)
qed

lemma flag_effect:
  assumes "sane sv"
  shows "effect c sv (flagTransaction c sv)" "minds c sv (flagTransaction c sv)"
  using client_effect [OF assms, of "\<lambda>cl. if c_multi cl then cl\<lparr>c_dirty_exec := True\<rparr> else cl" c] saneD(6,7) [OF assms, of c]
  by (simp_all add: flagTransaction_def multi_ok_def)

lemma runs_flag: "sane sv \<Longrightarrow> runs c b sv (flagTransaction c sv)" "sane sv \<Longrightarrow> runs c b sv sv"
  using flag_effect effect_runs effect_refl minds_refl by blast+

lemma reject_runs:
  assumes "sane sv" "reject fl c r sv = Some (alive, sv')"
  shows "runs c b sv sv'"
  using assms runs_flag by (auto simp: reject_def addReply_def intro: runs_reply)

lemma queue_runs:
  assumes "sane sv" "\<forall>a\<in>set (c_argv (sv_client sv c)). small a" "cmd \<in> set commandTable"
    and "\<not> wrong_arity cmd (argc c sv)" "c_cmd (sv_client sv c) = rc_name cmd" "c_multi (sv_client sv c)"
    and "rc_name cmd \<notin> {''exec'', ''discard'', ''multi'', ''watch''}"
  shows "runs c (rc_name cmd \<noteq> ''move'') sv (queueMultiCommand c sv)"
proof -
  let ?f = "\<lambda>cl. cl\<lparr>c_mstate := c_mstate cl @ [\<lparr>mc_cmd = c_cmd cl, mc_argv = c_argv cl\<rparr>]\<rparr>"
  have q: "queued_ok \<lparr>mc_cmd = rc_name cmd, mc_argv = c_argv (sv_client sv c)\<rparr>"
    using assms(2,3,4,7) command_of_table [OF assms(3)] by (simp add: queued_ok_def)
  have s: "sane (upd_client c ?f sv)"
    by (rule sane_client [OF assms(1)])
      (use saneD(6,7) [OF assms(1), of c] assms(5,6) q in \<open>auto simp: multi_ok_def\<close>)
  have a: "attentive d sv (upd_client c ?f sv)" for d
    by (rule attentive_same) (simp_all add: upd_client_state)
  show ?thesis
    using s a assms(5) by (auto simp: runs_def queueMultiCommand_def upd_client_state minds_def moveless_def)
qed

lemma dispatch_runs:
  assumes "sane sv" "c \<in> set (sv_clients sv)" "\<forall>a\<in>set (c_argv (sv_client sv c)). small a"
    and "cmd \<in> set commandTable" "\<not> wrong_arity cmd (argc c sv)" "c_cmd (sv_client sv c) = rc_name cmd"
    and "dispatch cmd c sv = Some (alive, sv')"
  shows "runs c (rc_name cmd \<noteq> ''move'') sv sv'"
proof -
  let ?q = "c_multi (sv_client sv c) \<and> rc_name cmd \<notin> {''exec'', ''discard'', ''multi'', ''watch''}"
  consider (reject) fl r where "reject fl c r sv = Some (alive, sv')"
    | (queue) "?q" "sv' = addReply c shared_queued (queueMultiCommand c sv)"
    | (call) "call (command_proc cmd) c sv = Some sv'"
    using assms(7) unfolding dispatch_def Let_def by (auto split: if_splits)
  then show ?thesis
  proof cases
    case reject
    then show ?thesis using reject_runs [OF assms(1)] by blast
  next
    case queue
    then show ?thesis using runs_reply [OF queue_runs [OF assms(1,3-6)]] by (simp add: addReply_def)
  next
    case call
    then show ?thesis by (rule command_proc_runs [OF assms(1-5)])
  qed
qed

lemma runs_prefix:
  assumes "effect c sv s" "\<And>d. attentive d sv s" "runs c b s sv'"
  shows "runs c b sv sv'"
proof -
  have "minds c s sv' \<Longrightarrow> minds c sv sv'" using assms(2) attentive_trans unfolding minds_def by blast
  then show ?thesis using assms(1,3) effect_moveless by (auto simp: runs_def effect_def)
qed

lemma runs_weaken: "runs c b sv sv' \<Longrightarrow> (b' \<Longrightarrow> b) \<Longrightarrow> runs c b' sv sv'"
  by (auto simp: runs_def)

lemma request_prefix:
  assumes "sane sv"
  shows "effect c sv (upd_client c (c_cmd_update (\<lambda>_. x)) sv)" "attentive d sv (upd_client c (c_cmd_update (\<lambda>_. x)) sv)"
    "effect c sv (with_args c args sv)" "attentive d sv (with_args c args sv)"
    "effect c sv (upd_client c (c_close_after_reply_update (\<lambda>_. y)) sv)"
    "minds c sv (upd_client c (c_close_after_reply_update (\<lambda>_. y)) sv)"
  using client_effect [OF assms, of "c_cmd_update (\<lambda>_. x)" c] client_effect [OF assms, of "c_argv_update (\<lambda>_. args)" c]
    client_effect [OF assms, of "c_close_after_reply_update (\<lambda>_. y)" c] saneD(6,7) [OF assms, of c]
  by (auto simp: with_args_def multi_ok_def upd_client_state intro!: attentive_same split: if_splits)

lemma evicted_runs:
  assumes "sane sv" "ks_wf s" "shrunk sv s"
  shows "effect c sv s" "sv_client s = sv_client sv"
proof -
  have f: "frame sv s" "sv_client s = sv_client sv" using assms(3) by (simp_all add: shrunk_def)
  show "effect c sv s" using sane_frame [OF assms(1) f(1) assms(2)] frame_server_proj(3) [OF f(1)] frame_proj(6) [OF f(1)]
    by (simp add: effect_def f(2))
  show "sv_client s = sv_client sv" by (rule f(2))
qed

lemma processCommand_runs:
  assumes "sane sv" "c \<in> set (sv_clients sv)" "\<forall>a\<in>set (c_argv (sv_client sv c)). small a"
    and "processCommand c sv = Some (alive, sv')"
  shows "runs c (List.map tolower (argv c sv 0) \<noteq> ''move'' \<and> sv_maxmemory sv = 0) sv sv'"
proof -
  let ?b = "List.map tolower (argv c sv 0) \<noteq> ''move'' \<and> sv_maxmemory sv = 0"
  consider (quit) "sv' = upd_client c (c_close_after_reply_update (\<lambda>_. True)) (addReply c shared_ok sv)"
    | (unknown) t where "sv' = addReplyErrorFormat c t (flagTransaction c (upd_client c (c_cmd_update (\<lambda>_. [])) sv))"
    | (known) cmd where "lookupCommand (argv c sv 0) = Some cmd" "List.map tolower (cstr (argv c sv 0)) \<noteq> ''quit''"
    using assms(4) by (auto simp: processCommand_def split: if_splits option.splits)
  then show ?thesis
  proof cases
    case quit
    let ?s = "addReplyString c shared_ok sv"
    have s: "sane ?s" using assms(1) by simp
    have e: "effect c sv ?s" "minds c sv ?s" using effect_refl [OF assms(1)] by simp_all
    have a: "attentive d sv ?s" for d by (rule attentive_same) (simp_all add: addReplyString_def upd_client_def)
    show ?thesis
      unfolding quit addReply_def
      by (rule runs_prefix [OF e(1) a]) (rule effect_runs [OF request_prefix(5) [OF s] request_prefix(6) [OF s]])
  next
    case unknown
    have s: "sane (upd_client c (c_cmd_update (\<lambda>_. [])) sv)" using request_prefix(1) [OF assms(1), of c "[]"] by (simp add: effect_def)
    show ?thesis
      unfolding unknown addReplyErrorFormat_def addReplyErrorLength_def
      by (intro runs_reply runs_prefix [OF request_prefix(1,2) [OF assms(1), where x = "[]"]] runs_flag(1) s)
  next
    case known
    note t = lookupCommand_table [OF known(1)]
    define s where "s = upd_client c (c_cmd_update (\<lambda>_. rc_name cmd)) sv"
    have e: "effect c sv s" "\<And>d. attentive d sv s" using request_prefix(1,2) [OF assms(1)] by (simp_all add: s_def)
    have s: "sane s" "c \<in> set (sv_clients s)" "c_argv (sv_client s c) = c_argv (sv_client sv c)"
      "c_cmd (sv_client s c) = rc_name cmd" "sv_maxmemory s = sv_maxmemory sv"
      using e(1) assms(2) by (simp_all add: effect_def) (simp_all add: s_def upd_client_state)
    have d: "runs c ?b sv sv'" if "dispatch cmd c s = Some (alive, sv')" "\<not> wrong_arity cmd (argc c s)"
    proof (rule runs_prefix [OF e])
      show "runs c ?b s sv'"
        using dispatch_runs [OF s(1,2) _ t(1) that(2) s(4) that(1)] assms(3) t(2) s(3)
        by (auto intro: runs_weaken)
    qed
    have r: "runs c ?b sv sv'" if "reject fl c x s = Some (alive, sv')" for fl x
      by (rule runs_prefix [OF e]) (rule reject_runs [OF s(1) that])
    show ?thesis
    proof (cases "wrong_arity cmd (argc c s)")
      case True
      then have "sv' = addReplyErrorFormat c
          (''wrong number of arguments for '' @ [CHR 0x27] @ rc_name cmd @ [CHR 0x27] @ '' command'') (flagTransaction c s)"
        using assms(4) known by (simp add: processCommand_def s_def)
      then show ?thesis
        using runs_prefix [OF e runs_flag(1) [OF s(1)], of ?b]
        by (simp add: addReplyErrorFormat_def addReplyErrorLength_def runs_reply)
    next
      case ar: False
      show ?thesis
      proof (cases "sv_maxmemory s = 0")
        case True
        then have "reject True c (error_reply ''operation not permitted'') s = Some (alive, sv') \<or> dispatch cmd c s = Some (alive, sv')"
          using assms(4) known ar by (auto simp: processCommand_def s_def [symmetric] split: if_splits)
        then show ?thesis using r d ar by blast
      next
        case False
        obtain b s2 where m: "freeMemoryIfNeeded s = Some (Some (b, s2))" "ks_wf s2" "shrunk s s2"
          using freeMemory_ok [OF saneD(1) [OF s(1)] sane_rnd [OF s(1)]] by blast
        note e2 = evicted_runs [OF s(1) m(2,3)]
        have s2: "sane s2" "c \<in> set (sv_clients s2)" "c_argv (sv_client s2 c) = c_argv (sv_client sv c)"
          "c_cmd (sv_client s2 c) = rc_name cmd"
          using e2(1) [of c] s(2-4) by (simp_all add: effect_def e2(2))
        have wrap: "runs c ?b sv sv'" if "runs c x s2 sv'" for x
          using that effect_trans [OF e(1) e2(1)] False s(5) by (simp add: runs_def effect_def)
        have ar2: "\<not> wrong_arity cmd (argc c s2)" using ar e2(2) by simp
        have sm: "\<forall>a\<in>set (c_argv (sv_client s2 c)). small a" using assms(3) s2(3) by simp
        have "reject True c (error_reply ''operation not permitted'') s = Some (alive, sv') \<or>
            reject True c shared_oomerr s2 = Some (alive, sv') \<or> dispatch cmd c s2 = Some (alive, sv')"
          using assms(4) known ar False m(1) by (auto simp: processCommand_def s_def [symmetric] split: if_splits)
        then show ?thesis
          using r wrap [OF reject_runs [OF s2(1)]] wrap [OF dispatch_runs [OF s2(1,2) sm t(1) ar2 s2(4)]] by blast
      qed
    qed
  qed
qed

lemma freeClient_effect:
  assumes "sane sv" "c \<in> set (sv_clients sv)"
  obtains sv' where "freeClient c sv = Some sv'" "sane sv'" "sv_clients sv' = remove1 c (sv_clients sv)"
    "sv_maxmemory sv' = sv_maxmemory sv" "moveless sv \<Longrightarrow> moveless sv'" "minds c sv sv'"
proof -
  obtain s1 where s1: "unwatchAllKeys c sv = Some s1" "c_watched (sv_client s1 c) = []" "effect c sv s1" "minds c sv s1"
    using unwatchAll_effect [OF assms] by metis
  have c1: "sane s1" "c \<in> set (sv_clients s1)" using s1(3) assms(2) by (simp_all add: effect_def)
  obtain n2 s2 where s2: "pubsubUnsubscribeAllChannels c False s1 = Some (n2, s2)" "pubsub_wf s2" "pubsub_frame s1 s2"
    "c_channels (sv_client s2 c) = []"
    using unsubscribe_all_channels [OF saneD(3) [OF c1(1)] sane_channel_order [OF c1(1), of c], where notify = False] by (auto simp: ok_iff)
  note e2 = pubsub_effect [OF c1 s2(2,3) unsubscribe_all_others(1) [OF s2(1)]]
  then have c2: "sane s2" "c \<in> set (sv_clients s2)" using c1(2) by (simp_all add: effect_def)
  obtain n3 s3 where s3: "pubsubUnsubscribeAllPatterns c False s2 = Some (n3, s3)" "pubsub_wf s3" "pubsub_frame s2 s3"
    "c_patterns (sv_client s3 c) = []" "c_channels (sv_client s3 c) = c_channels (sv_client s2 c)"
    using unsubscribe_all_patterns [OF saneD(3) [OF c2(1)], where c = c and notify = False] by (auto simp: ok_iff)
  note e3 = pubsub_effect [OF c2 s3(2,3) unsubscribe_all_others(2) [OF s3(1)]]
  have w: "c_watched (sv_client s3 c) = []"
    using s1(2) pubsub_frame_proj(2) [OF s2(3)] pubsub_frame_proj(2) [OF s3(3)] by simp
  have e: "effect c sv s3" using s1(3) e2 e3 effect_trans by blast
  have m: "mindful c sv s3" using s1(4) e2 e3 minds_mindful mindful_trans by blast
  have c3: "sane s3" "c \<in> set (sv_clients s3)" "sv_clients s3 = sv_clients sv"
    using e assms(2) by (simp_all add: effect_def)
  define t where "t = upd_client c (c_mstate_update (\<lambda>_. [])) (s3\<lparr>sv_clients := remove1 c (sv_clients s3)\<rparr>)"
  have det: "detached (sv_client s3 c)" using w s3(4,5) s2(4) by (simp add: detached_def)
  have q: "c_watched (sv_client t d) = c_watched (sv_client s3 d)" "c_channels (sv_client t d) = c_channels (sv_client s3 d)"
    "c_patterns (sv_client t d) = c_patterns (sv_client s3 d)" "sv_db t = sv_db s3" "sv_channels t = sv_channels s3"
    "sv_patterns t = sv_patterns s3" "sv_iter t = sv_iter s3" "sv_rnd t = sv_rnd s3" "sv_dbnum t = sv_dbnum s3"
    "c_db (sv_client t d) = c_db (sv_client s3 d)" for d
    by (simp_all add: t_def upd_client_def)
  have "sane t"
    unfolding sane_def
  proof (intro conjI allI)
    note s = saneD [OF c3(1)]
    show "ks_wf t" using s(1) unfolding ks_wf_def q by blast
    show "watch_wf t" using s(2) unfolding watch_wf_def watchers_def q by blast
    show "pubsub_wf t" using s(3) unfolding pubsub_wf_def subscribers_def q by blast
    show "sources_ok t" using s(5) unfolding sources_ok_def q by blast
    have "d \<notin> set (remove1 c (sv_clients s3)) \<Longrightarrow> detached (sv_client s3 d)" for d
      using s(4) det by (cases "d = c") (auto simp: registered_def)
    then show "registered t" using s(4) unfolding registered_def detached_def q
      by (simp add: t_def upd_client_def)
    fix d
    show "multi_ok (sv_client t d)" using s(6) [of d] by (auto simp: t_def upd_client_def multi_ok_def)
    show "cdb d t < sv_dbnum t" using s(7) [of d] by (simp only: q)
  qed
  moreover have "freeClient c sv = Some t"
    using s1(1) s2(1) s3(1) c3(2) by (simp add: freeClient_def t_def)
  moreover have "moveless sv \<Longrightarrow> moveless t"
    using effect_moveless [OF e] by (auto simp: moveless_def t_def upd_client_def)
  moreover have "minds c sv t"
    by (rule mindful_minds [OF mindful_trans [OF m]])
      (auto simp: mindful_def q w intro!: attentive_same, auto simp: t_def upd_client_def)
  moreover have "sv_clients t = remove1 c (sv_clients sv)" "sv_maxmemory t = sv_maxmemory sv"
    using e by (simp_all add: t_def upd_client_def effect_def)
  ultimately show thesis using that by blast
qed

section \<open>The server as a state machine\<close>

text \<open>
  The events of the event loop: a connection is accepted, a client's request has been read, time
  passes, the expire cycle draws a key (only on a master), and a client is released.  Requests are
  not read any more after QUIT.
\<close>

datatype event = Connect cid | Request cid "string list" | Tick int | Expire nat key | Disconnect cid

inductive step :: "event \<Rightarrow> server \<Rightarrow> server \<Rightarrow> bool" where
  connect: "c \<notin> set (sv_clients sv) \<Longrightarrow> step (Connect c) sv (createClient c False sv)"
| request: "c \<in> set (sv_clients sv) \<Longrightarrow> \<not> c_close_after_reply (sv_client sv c) \<Longrightarrow> args \<noteq> [] \<Longrightarrow>
    \<forall>a\<in>set args. small a \<Longrightarrow> processCommand c (with_args c args sv) = Some (alive, sv') \<Longrightarrow>
    step (Request c args) sv sv'"
| tick: "0 \<le> ms \<Longrightarrow> step (Tick ms) sv (sv\<lparr>sv_now := sv_now sv + ms\<rparr>)"
| expire: "\<not> sv_masterhost sv \<Longrightarrow> rd_expires (sv_db sv i) k = Some t \<Longrightarrow>
    step (Expire i k) sv (snd (activeExpireCycleTryExpire i k t (sv_now sv) sv))"
| disconnect: "c \<in> set (sv_clients sv) \<Longrightarrow> freeClient c sv = Some sv' \<Longrightarrow> step (Disconnect c) sv sv'"

inductive_cases step_cases [elim]: "step e sv sv'"

text \<open>An empty server, with any configuration.\<close>

definition initial :: "server \<Rightarrow> bool" where
  "initial sv \<longleftrightarrow>
     (\<forall>i. sv_db sv i = \<lparr>rd_dict = Map.empty, rd_expires = Map.empty, rd_watched = Map.empty\<rparr>) \<and>
     (\<forall>c. sv_client sv c = initial_client False) \<and> sv_clients sv = [] \<and> sv_channels sv = Map.empty \<and>
     sv_patterns sv = [] \<and> 0 < sv_dbnum sv \<and> sources_ok sv"

inductive reachable :: "server \<Rightarrow> bool" where
  start: "initial sv \<Longrightarrow> reachable sv"
| event: "reachable sv \<Longrightarrow> step e sv sv' \<Longrightarrow> reachable sv'"

lemma initial_sane: "initial sv \<Longrightarrow> sane sv"
  by (simp add: initial_def sane_def ks_wf_def db_wf_def watch_wf_def watchers_def pubsub_wf_def subscribers_def
      registered_def detached_def multi_ok_def)

lemma initServer_initial:
  "0 < n \<Longrightarrow> sources_ok (initServer n t iter rnd) \<Longrightarrow> initial (initServer n t iter rnd)"
  by (simp add: initial_def initServer_def)

lemma connect_sane:
  assumes "sane sv" "c \<notin> set (sv_clients sv)"
  shows "sane (createClient c False sv)"
proof -
  note s = saneD [OF assms(1)]
  let ?t = "createClient c False sv"
  have d: "detached (sv_client sv c)" using s(4) assms(2) by (simp add: registered_def)
  have q: "c_watched (sv_client ?t e) = c_watched (sv_client sv e)" "c_channels (sv_client ?t e) = c_channels (sv_client sv e)"
    "c_patterns (sv_client ?t e) = c_patterns (sv_client sv e)" "sv_db ?t = sv_db sv" "sv_channels ?t = sv_channels sv"
    "sv_patterns ?t = sv_patterns sv" "sv_iter ?t = sv_iter sv" "sv_rnd ?t = sv_rnd sv" for e
    using d by (simp_all add: createClient_def detached_def)
  show ?thesis
    unfolding sane_def
  proof (intro conjI allI)
    show "ks_wf ?t" using s(1) unfolding ks_wf_def q by blast
    show "watch_wf ?t" using s(2) unfolding watch_wf_def watchers_def q by blast
    show "pubsub_wf ?t" using s(3) unfolding pubsub_wf_def subscribers_def q by blast
    show "sources_ok ?t" using s(5) unfolding sources_ok_def q by blast
    show "registered ?t" using s(4) assms(2) unfolding registered_def detached_def q by (simp add: createClient_def)
    fix e
    show "multi_ok (sv_client ?t e)" using s(6) [of e] by (simp add: createClient_def multi_ok_def)
    show "cdb e ?t < sv_dbnum ?t" using s(7) [of e] s(7) [of c] by (simp add: createClient_def)
  qed
qed

lemma expired_fine:
  assumes "ks_wf sv" "t < sv_now sv"
  shows "ks_wf (snd (activeExpireCycleTryExpire i k t (sv_now sv) sv))" "frame sv (snd (activeExpireCycleTryExpire i k t (sv_now sv) sv))"
    "activeExpireCycleTryExpire i k t (sv_now sv) sv = (True, (dbrem i k (propagateExpire i k sv))\<lparr>sv_expiredkeys := sv_expiredkeys sv + 1\<rparr>)"
proof -
  have p: "sv_expiredkeys (dbrem i k (propagateExpire i k sv)) = sv_expiredkeys sv"
    by (simp add: dbrem_def upd_db_def propagateExpire_def)
  show e: "activeExpireCycleTryExpire i k t (sv_now sv) sv = (True, (dbrem i k (propagateExpire i k sv))\<lparr>sv_expiredkeys := sv_expiredkeys sv + 1\<rparr>)"
    using assms(2) by (simp add: activeExpireCycleTryExpire_def Let_def dbDelete_eq p)
  have f: "frame sv (propagateExpire i k sv)" by (simp add: propagateExpire_def frame_def)
  then have "frame sv (dbrem i k (propagateExpire i k sv))" by simp
  then show "frame sv (snd (activeExpireCycleTryExpire i k t (sv_now sv) sv))" by (simp add: e frame_def)
  have "ks_wf (propagateExpire i k sv)" using assms(1) by (simp add: ks_wf_def propagateExpire_def)
  then have "ks_wf (dbrem i k (propagateExpire i k sv))" by simp
  then show "ks_wf (snd (activeExpireCycleTryExpire i k t (sv_now sv) sv))" by (simp add: e ks_wf_def)
qed

lemma step_sane:
  assumes "step e sv sv'" "sane sv"
  shows "sane sv'"
  using assms(1)
proof cases
  case (connect c)
  then show ?thesis using connect_sane assms(2) by simp
next
  case (request c args alive)
  let ?s = "with_args c args sv"
  have s: "sane ?s" "c \<in> set (sv_clients ?s)" using request_prefix(3) [OF assms(2), of c args] request(2) by (simp_all add: effect_def)
  have "\<forall>a\<in>set (c_argv (sv_client ?s c)). small a" using request(5) by simp
  from processCommand_runs [OF s this request(6)] show ?thesis by (simp add: runs_def)
next
  case (tick ms)
  have "sane sv' = sane sv"
    unfolding tick sane_def ks_wf_def watch_wf_def watchers_def pubsub_wf_def subscribers_def registered_def sources_ok_def by simp
  then show ?thesis using assms(2) by simp
next
  case (expire i k t)
  show ?thesis
  proof (cases "t < sv_now sv")
    case True
    note f = expired_fine [OF saneD(1) [OF assms(2)] True, of i k]
    show ?thesis unfolding expire(2) by (rule sane_frame [OF assms(2) f(2,1)])
  next
    case False
    then show ?thesis using assms(2) expire by (simp add: activeExpireCycleTryExpire_def)
  qed
next
  case (disconnect c)
  then show ?thesis using freeClient_effect [OF assms(2)] by (metis option.inject)
qed

lemma reachable_sane: "reachable sv \<Longrightarrow> sane sv"
  by (induction rule: reachable.induct) (auto intro: initial_sane step_sane)

section \<open>Requests return\<close>

text \<open>
  The commands whose arguments can make the server crash or loop: the pattern matching of KEYS and
  PUBLISH, RANDOMKEY on a slave, and the offsets of SETRANGE and GETRANGE.
\<close>

definition risky :: "string set" where
  "risky = {''keys'', ''publish'', ''randomkey'', ''setrange'', ''getrange'', ''substr''}"

definition entry_returns :: "cid \<Rightarrow> server \<Rightarrow> redisCommand \<Rightarrow> bool" where
  "entry_returns c sv cmd \<longleftrightarrow>
     (\<forall>proc. rc_proc cmd = Some proc \<and> \<not> wrong_arity cmd (argc c sv) \<and> rc_name cmd \<notin> risky \<longrightarrow> proc c sv \<noteq> None)"

lemma entry_returns_simps:
  assumes "\<forall>a\<in>set (c_argv (sv_client sv c)). small a"
  shows "(args_ok (nat \<bar>arity\<bar>) c sv \<Longrightarrow> proc c sv \<noteq> None) \<Longrightarrow> entry_returns c sv (entry name (Some proc) arity fl g a b d)"
    "entry_returns c sv (entry name None arity fl g a b d)"
    "name \<in> risky \<Longrightarrow> entry_returns c sv (entry name (Some proc) arity fl g a b d)"
proof -
  have a: "args_ok (nat \<bar>arity\<bar>) c sv" if "\<not> wrong_arity (entry name (Some proc) arity fl g a b d) (argc c sv)"
    using assms that by (auto simp: args_ok_def wrong_arity_def entry_def)
  then show "(args_ok (nat \<bar>arity\<bar>) c sv \<Longrightarrow> proc c sv \<noteq> None) \<Longrightarrow> entry_returns c sv (entry name (Some proc) arity fl g a b d)"
    by (simp add: entry_returns_def) (simp add: entry_def)
qed (simp_all add: entry_returns_def entry_def)

lemma ok_not_None: "ok r Q \<Longrightarrow> r \<noteq> None"
  by (auto simp: ok_iff)

lemma table_returns:
  assumes "sane sv" "c \<in> set (sv_clients sv)" "\<forall>a\<in>set (c_argv (sv_client sv c)). small a"
  shows "\<forall>cmd\<in>set commandTable. entry_returns c sv cmd"
proof -
  note k = saneD(1) [OF assms(1)]
  have a: "flushdbCommand c sv \<noteq> None" "flushallCommand c sv \<noteq> None" "delCommand c sv \<noteq> None"
    "existsCommand c sv \<noteq> None" "typeCommand c sv \<noteq> None" "dbsizeCommand c sv \<noteq> None"
    "lastsaveCommand c sv \<noteq> None" "persistCommand c sv \<noteq> None" "ttlCommand c sv \<noteq> None"
    "pttlCommand c sv \<noteq> None" "expireCommand c sv \<noteq> None" "expireatCommand c sv \<noteq> None"
    "pexpireCommand c sv \<noteq> None" "pexpireatCommand c sv \<noteq> None" "getCommand c sv \<noteq> None"
    "strlenCommand c sv \<noteq> None" "mgetCommand c sv \<noteq> None" "echoCommand c sv \<noteq> None" "pingCommand c sv \<noteq> None"
    "authCommand c sv \<noteq> None" "watchCommand c sv \<noteq> None"
    unfolding ttlCommand_def pttlCommand_def expireCommand_def expireatCommand_def pexpireCommand_def pexpireatCommand_def
    by (rule ok_not_None [OF flushdb_fine [OF k]] ok_not_None [OF flushall_fine [OF k]] ok_not_None [OF del_fine [OF k]]
        ok_not_None [OF exists_fine [OF k]] ok_not_None [OF type_fine [OF k]] ok_not_None [OF dbsize_fine [OF k]]
        ok_not_None [OF lastsave_fine [OF k]] ok_not_None [OF persist_fine [OF k]] ok_not_None [OF ttl_fine [OF k]]
        ok_not_None [OF expire_fine [OF k]] ok_not_None [OF get_fine [OF k]] ok_not_None [OF strlen_fine [OF k]]
        ok_not_None [OF mget_fine [OF k]] | simp add: echoCommand_def pingCommand_def authCommand_def watchCommand_def addReplyBulk_some)+
  have s: "selectCommand c sv \<noteq> None"
    using getLong_arg by (cases rule: getLongLong_arg [of c "argv c sv 1" "Some ''invalid DB index''" sv])
      (simp_all add: selectCommand_def case_prod_unfold Let_def)
  have u: "unwatchCommand c sv \<noteq> None"
    using unwatchAll_effect [OF assms(1,2)] by (metis Option.bind.bind_lunit option.distinct(1) unwatchCommand_def)
  have m: "args_ok 3 c sv \<Longrightarrow> moveCommand c sv \<noteq> None"
    using move_fine [OF k _ saneD(7) [OF assms(1)]] ok_not_None by blast
  have v: "args_ok 3 c sv \<Longrightarrow> setCommand c sv \<noteq> None" "args_ok 3 c sv \<Longrightarrow> setnxCommand c sv \<noteq> None"
    "args_ok 4 c sv \<Longrightarrow> setexCommand c sv \<noteq> None" "args_ok 4 c sv \<Longrightarrow> psetexCommand c sv \<noteq> None"
    "args_ok 3 c sv \<Longrightarrow> appendCommand c sv \<noteq> None" "args_ok 2 c sv \<Longrightarrow> incrCommand c sv \<noteq> None"
    "args_ok 2 c sv \<Longrightarrow> decrCommand c sv \<noteq> None" "args_ok 3 c sv \<Longrightarrow> incrbyCommand c sv \<noteq> None"
    "args_ok 3 c sv \<Longrightarrow> decrbyCommand c sv \<noteq> None" "args_ok 3 c sv \<Longrightarrow> getsetCommand c sv \<noteq> None"
    "args_ok 1 c sv \<Longrightarrow> msetCommand c sv \<noteq> None" "args_ok 1 c sv \<Longrightarrow> msetnxCommand c sv \<noteq> None"
    "args_ok 3 c sv \<Longrightarrow> renameCommand c sv \<noteq> None" "args_ok 3 c sv \<Longrightarrow> renamenxCommand c sv \<noteq> None"
    unfolding msetCommand_def msetnxCommand_def renameCommand_def renamenxCommand_def
    by (erule ok_not_None [OF set_fine [OF k]] ok_not_None [OF setnx_fine [OF k]] ok_not_None [OF setex_fine(1) [OF k]]
        ok_not_None [OF setex_fine(2) [OF k]] ok_not_None [OF append_fine [OF k]] ok_not_None [OF incr_fine(1) [OF k]]
        ok_not_None [OF incr_fine(2) [OF k]] ok_not_None [OF incrby_fine(1) [OF k]] ok_not_None [OF incrby_fine(2) [OF k]]
        ok_not_None [OF getset_fine [OF k]] ok_not_None [OF mset_fine [OF k]] ok_not_None [OF rename_fine [OF k]])+
  note p = subscribe_commands_fine [OF saneD(3) [OF assms(1)] _ sane_channel_order [OF assms(1)], THEN ok_not_None]
  note e = entry_returns_simps [OF assms(3)]
  show ?thesis
    unfolding commandTable_eq list.set ball_simps(7) ball_empty
    by (intro conjI) ((rule TrueI e(2) | (rule e(3), simp add: risky_def; fail) |
       (rule e(1), (rule a s u | (rule p, assumption) | (rule v m, rule args_ok_le, assumption, simp))))+)
qed

lemma call_returns: "proc c sv \<noteq> None \<Longrightarrow> call proc c sv \<noteq> None"
  by (auto simp: call_def Let_def)

lemma exec_loop_returns:
  assumes "sane sv" "c \<in> set (sv_clients sv)" "\<forall>mc\<in>set mcs. queued_ok mc \<and> mc_cmd mc \<notin> risky"
  shows "exec_loop c mcs b sv \<noteq> None"
  using assms
proof (induction mcs arbitrary: b sv)
  case (Cons mc mcs)
  obtain cmd proc where q: "cmd \<in> set commandTable" "rc_name cmd = mc_cmd mc" "command_of (mc_cmd mc) = cmd"
    "rc_proc cmd = Some proc" "queued_proc (mc_cmd mc) = proc" "\<not> wrong_arity cmd (length (mc_argv mc))"
    "\<forall>a\<in>set (mc_argv mc). small a"
    using queued_proc [of mc] Cons.prems(3) by auto
  define s1 where "s1 = set_request c (mc_cmd mc) (mc_argv mc) sv"
  define w where "w = (\<not> b \<and> \<not> has_flag CHR ''r'' cmd)"
  define s2 where "s2 = (if w then execCommandPropagateMulti c s1 else s1)"
  have e2: "effect c sv s2"
    using set_request_effect [OF Cons.prems(1), of c "mc_cmd mc" "mc_argv mc"]
    by (simp add: s2_def s1_def execCommandPropagateMulti_def)
  have s2: "sane s2" "c \<in> set (sv_clients s2)" "c_argv (sv_client s2 c) = mc_argv mc"
    using e2 Cons.prems(2)
    by (simp_all add: effect_def) (simp add: s2_def s1_def execCommandPropagateMulti_def set_request_def upd_client_state)
  have "entry_returns c s2 cmd" using table_returns [OF s2(1,2)] q(1,7) s2(3) by simp
  then have "proc c s2 \<noteq> None" using q(2,4,6) s2(3) Cons.prems(3) by (simp add: entry_returns_def)
  then obtain s3 where r: "call proc c s2 = Some s3" using call_returns by blast
  have "entry_good c s2 cmd" using table_good [OF s2(1,2)] q(1,7) s2(3) by simp
  then have "good c s2 (mc_cmd mc) (proc c s2)" using q(2,4,6) s2(3) by (simp add: entry_good_def)
  then have s3: "sane s3" "c \<in> set (sv_clients s3)" using call_effect(1) [OF r] s2(2) by (simp_all add: effect_def)
  have "exec_loop c mcs (b \<or> w) s3 \<noteq> None" using Cons.IH [OF s3] Cons.prems(3) by simp
  then show ?case using r by (simp add: q(3,5) Let_def s1_def [symmetric] w_def [symmetric] s2_def [symmetric])
qed simp

lemma exec_returns:
  assumes "sane sv" "c \<in> set (sv_clients sv)" "\<forall>mc\<in>set (c_mstate (sv_client sv c)). mc_cmd mc \<notin> risky"
  shows "execCommand c sv \<noteq> None"
proof -
  let ?cl = "sv_client sv c"
  have d: "discardTransaction c s \<noteq> None" if "effect c sv s" for s
    using discard_effect [of s c] that assms(2) by (metis effect_def option.distinct(1))
  obtain s0 where u: "unwatchAllKeys c sv = Some s0" "effect c sv s0"
    using unwatchAll_effect [OF assms(1,2)] by metis
  let ?s1 = "addReplyMultiBulkLen c (length (c_mstate ?cl)) s0"
  have e1: "effect c sv ?s1" using u(2) by (simp add: addReplyMultiBulkLen_def addReplyLongLongWithPrefix_def)
  then have s1: "sane ?s1" "c \<in> set (sv_clients ?s1)" using assms(2) by (simp_all add: effect_def)
  have q: "\<forall>mc\<in>set (c_mstate ?cl). queued_ok mc" using saneD(6) [OF assms(1), of c] by (simp add: multi_ok_def)
  then obtain b s2 where r: "exec_loop c (c_mstate ?cl) False ?s1 = Some (b, s2)"
    using exec_loop_returns [OF s1] assms(3) by force
  have e2: "effect c sv s2" using exec_loop_effect [OF s1 q r] effect_trans [OF e1] by blast
  then have "effect c sv (set_request c (c_cmd ?cl) (c_argv ?cl) s2)"
    using set_request_effect(1) [of s2] effect_trans by (metis effect_def)
  from d [OF this] d [of "addReplyString c x sv" for x] show ?thesis
    using u(1) r effect_refl [OF assms(1)] by (auto simp: execCommand_def Let_def addReply_def)
qed

lemma command_proc_returns:
  assumes "sane sv" "c \<in> set (sv_clients sv)" "\<forall>a\<in>set (c_argv (sv_client sv c)). small a"
    and "cmd \<in> set commandTable" "\<not> wrong_arity cmd (argc c sv)" "rc_name cmd \<notin> risky"
    and "\<forall>mc\<in>set (c_mstate (sv_client sv c)). mc_cmd mc \<notin> risky"
  shows "call (command_proc cmd) c sv \<noteq> None"
proof (rule call_returns, cases "rc_proc cmd")
  case (Some proc)
  have "entry_returns c sv cmd" using table_returns [OF assms(1-3)] assms(4) by blast
  then show "command_proc cmd c sv \<noteq> None" using Some assms(5,6) by (simp add: entry_returns_def command_proc_def)
next
  case None
  obtain s where "discardTransaction c sv = Some s" by (rule discard_effect [OF assms(1,2)])
  then have "discardCommand c sv \<noteq> None" by (simp add: discardCommand_def)
  then show "command_proc cmd c sv \<noteq> None"
    using None exec_returns [OF assms(1,2,7)] by (simp add: command_proc_def multiCommand_def)
qed

lemma dispatch_returns:
  assumes "sane sv" "c \<in> set (sv_clients sv)" "\<forall>a\<in>set (c_argv (sv_client sv c)). small a"
    and "cmd \<in> set commandTable" "\<not> wrong_arity cmd (argc c sv)" "rc_name cmd \<notin> risky"
    and "\<forall>mc\<in>set (c_mstate (sv_client sv c)). mc_cmd mc \<notin> risky"
  shows "dispatch cmd c sv \<noteq> None"
  using command_proc_returns [OF assms] by (simp add: dispatch_def Let_def reject_def del: not_None_eq)

lemma processCommand_returns:
  assumes "sane sv" "c \<in> set (sv_clients sv)" "\<forall>a\<in>set (c_argv (sv_client sv c)). small a"
    and "List.map tolower (argv c sv 0) \<notin> risky" "\<forall>mc\<in>set (c_mstate (sv_client sv c)). mc_cmd mc \<notin> risky"
  shows "processCommand c sv \<noteq> None"
proof (cases "lookupCommand (argv c sv 0)")
  case None
  then show ?thesis by (simp add: processCommand_def del: not_None_eq)
next
  case (Some cmd)
  note t = lookupCommand_table [OF Some]
  define s where "s = upd_client c (c_cmd_update (\<lambda>_. rc_name cmd)) sv"
  have s: "sane s" "c \<in> set (sv_clients s)" "c_argv (sv_client s c) = c_argv (sv_client sv c)"
    "c_mstate (sv_client s c) = c_mstate (sv_client sv c)"
    using request_prefix(1) [OF assms(1), of c "rc_name cmd"] assms(2)
    by (simp_all add: effect_def s_def) (simp_all add: upd_client_state)
  obtain b s2 where m: "freeMemoryIfNeeded s = Some (Some (b, s2))" "ks_wf s2" "shrunk s s2"
    using freeMemory_ok [OF saneD(1) [OF s(1)] sane_rnd [OF s(1)]] by blast
  note e2 = evicted_runs [OF s(1) m(2,3)]
  have s2: "sane s2" "c \<in> set (sv_clients s2)" using e2(1) [of c] s(2) by (simp_all add: effect_def)
  have "dispatch cmd c s \<noteq> None" "dispatch cmd c s2 \<noteq> None" if "\<not> wrong_arity cmd (argc c s)"
    using dispatch_returns [OF s(1,2) _ t(1) that] dispatch_returns [OF s2 _ t(1)] that assms(3-5) s(3,4) t(2) e2(2)
    by simp_all
  then show ?thesis
    using Some m(1) by (auto simp: processCommand_def s_def [symmetric] reject_def)
qed

section \<open>Optimistic locking\<close>

definition moves :: "event \<Rightarrow> bool" where
  "moves e \<longleftrightarrow> (\<exists>c args. e = Request c args \<and> List.map tolower (args ! 0) = ''move'')"

lemma tick_attentive: "0 \<le> ms \<Longrightarrow> attentive d sv (sv\<lparr>sv_now := sv_now sv + ms\<rparr>)"
  by (auto simp: attentive_def guarded_def)

lemma expire_attentive:
  assumes "rd_expires (sv_db sv i) k = Some t"
  shows "attentive d sv (snd (activeExpireCycleTryExpire i k t (sv_now sv) sv))"
proof (cases "t < sv_now sv")
  case False
  then show ?thesis by (simp add: activeExpireCycleTryExpire_def)
next
  case True
  let ?s = "(dbrem i k (propagateExpire i k sv))\<lparr>sv_expiredkeys := sv_expiredkeys sv + 1\<rparr>"
  have q: "sv_client ?s = sv_client sv" "sv_now ?s = sv_now sv"
    by (simp_all add: dbrem_def upd_db_def propagateExpire_def)
  have o: "rd_dict (sv_db ?s j) k' = rd_dict (sv_db sv j) k'" "rd_expires (sv_db ?s j) k' = rd_expires (sv_db sv j) k'"
    if "(j, k') \<noteq> (i, k)" for j k'
    using that by (auto simp: dbrem_def upd_db_def propagateExpire_def)
  have "activeExpireCycleTryExpire i k t (sv_now sv) sv = (True, ?s)"
  proof -
    have "sv_expiredkeys (dbrem i k (propagateExpire i k sv)) = sv_expiredkeys sv"
      by (simp add: dbrem_def upd_db_def propagateExpire_def)
    then show ?thesis using True by (simp add: activeExpireCycleTryExpire_def Let_def dbDelete_eq)
  qed
  moreover have "attentive d sv ?s"
    unfolding attentive_def
  proof (intro conjI allI impI)
    show "set (c_watched (sv_client sv d)) \<subseteq> set (c_watched (sv_client ?s d))" by (simp only: q order_refl)
    fix j k' v e assume g: "guarded d j k' v e sv"
    show "guarded d j k' v e ?s"
    proof (cases "(j, k') = (i, k)")
      case False
      then show ?thesis using g unfolding guarded_def q by (simp only: o [OF False])
    next
      case True
      then show ?thesis using g assms \<open>t < sv_now sv\<close> unfolding guarded_def q by auto
    qed
  qed
  ultimately show ?thesis by simp
qed

lemma step_attentive:
  assumes "step e sv sv'" "sane sv" "moveless sv" "sv_maxmemory sv = 0" "\<not> moves e"
  shows "moveless sv' \<and> sv_maxmemory sv' = 0 \<and> (\<forall>d. attentive d sv sv' \<or> c_watched (sv_client sv' d) = [])"
  using assms(1)
proof cases
  case (connect c)
  have "attentive d sv sv'" if "d \<noteq> c" for d
    by (rule attentive_same) (use that connect in \<open>auto simp: createClient_def\<close>)
  moreover have "c_watched (sv_client sv' c) = []" using connect by (simp add: createClient_def)
  ultimately show ?thesis using connect assms(3,4) by (auto simp: createClient_def moveless_def)
next
  case (request c args alive)
  let ?s = "with_args c args sv"
  note p = request_prefix(3,4) [OF assms(2), where c = c and args = args]
  have s: "sane ?s" "c \<in> set (sv_clients ?s)" "moveless ?s" "sv_maxmemory ?s = 0" "c_argv (sv_client ?s c) = args"
    using p(1) request(2) effect_moveless [OF p(1) assms(3)] assms(4) by (simp_all add: effect_def)
  have nm: "List.map tolower (argv c ?s 0) \<noteq> ''move''" using assms(5) request(1) by (simp add: moves_def)
  have "runs c True ?s sv'"
    using processCommand_runs [OF s(1,2) _ request(6)] request(5) s(4) nm by (auto intro: runs_weaken)
  then have "runs c True sv sv'" by (rule runs_prefix [OF p(1) p(2)])
  then show ?thesis using assms(3,4) by (auto simp: runs_def minds_def)
next
  case (tick ms)
  then show ?thesis using assms(3,4) tick_attentive by (auto simp: moveless_def)
next
  case (expire i k t)
  have q: "sv_client sv' = sv_client sv" "sv_maxmemory sv' = sv_maxmemory sv"
    by (simp_all add: expire(2) activeExpireCycleTryExpire_def dbDelete_eq Let_def dbrem_def upd_db_def propagateExpire_def)
  show ?thesis using expire_attentive [OF expire(4)] assms(3,4) q by (simp add: expire(2) moveless_def)
next
  case (disconnect c)
  then obtain "moveless sv'" "minds c sv sv'" "sv_maxmemory sv' = sv_maxmemory sv"
    using freeClient_effect [OF assms(2)] assms(3) by (metis option.inject)
  then show ?thesis using assms(4) by (auto simp: minds_def)
qed

text \<open>Runs in which client \<open>d\<close> watches key \<open>k\<close> of database \<open>i\<close> all the time, without a MOVE.\<close>

inductive watching :: "cid \<Rightarrow> nat \<Rightarrow> key \<Rightarrow> server \<Rightarrow> server \<Rightarrow> bool" for d i k where
  here: "(k, i) \<in> set (c_watched (sv_client sv d)) \<Longrightarrow> watching d i k sv sv"
| after: "watching d i k sv s \<Longrightarrow> step e s s' \<Longrightarrow> \<not> moves e \<Longrightarrow> (k, i) \<in> set (c_watched (sv_client s' d)) \<Longrightarrow>
    watching d i k sv s'"

lemma watching_guarded:
  assumes "watching d i k sv sv'" "sane sv" "moveless sv" "sv_maxmemory sv = 0" "guarded d i k v e sv"
  shows "sane sv' \<and> moveless sv' \<and> sv_maxmemory sv' = 0 \<and> (k, i) \<in> set (c_watched (sv_client sv' d)) \<and> guarded d i k v e sv'"
  using assms
proof (induction rule: watching.induct)
  case (after sv s ev s')
  then have s: "sane s" "moveless s" "sv_maxmemory s = 0" "(k, i) \<in> set (c_watched (sv_client s d))" "guarded d i k v e s"
    by simp_all
  note a = step_attentive [OF after.hyps(2) s(1-3) after.hyps(3)]
  then have "attentive d s s'" using after.hyps(4) by auto
  then show ?case using a s step_sane [OF after.hyps(2) s(1)] after.hyps(4) by (simp add: attentive_def)
qed simp

lemma exec_aborts:
  assumes "sane sv" "c \<in> set (sv_clients sv)" "c_multi (sv_client sv c)"
    and "c_dirty_cas (sv_client sv c) \<or> c_dirty_exec (sv_client sv c)"
  obtains s where "execCommand c sv = Some s" "\<And>i. rd_dict (sv_db s i) = rd_dict (sv_db sv i)"
    "\<And>i. rd_expires (sv_db s i) = rd_expires (sv_db sv i)" "sv_aof s = sv_aof sv" "sv_repl s = sv_repl sv"
    "\<not> c_multi (sv_client s c)" "c_mstate (sv_client s c) = []" "c_watched (sv_client s c) = []"
    "\<not> receptive (sv_client sv c) \<or> c_out (sv_client s c) = c_out (sv_client sv c) @
       (if c_dirty_exec (sv_client sv c) then shared_execaborterr else shared_nullmultibulk)"
proof -
  let ?r = "if c_dirty_exec (sv_client sv c) then shared_execaborterr else shared_nullmultibulk"
  let ?t = "addReplyString c ?r sv"
  let ?f = "\<lambda>cl. cl\<lparr>c_mstate := [], c_multi := False, c_dirty_cas := False, c_dirty_exec := False\<rparr>"
  have t: "sane (upd_client c ?f ?t)"
    by (rule sane_client) (use assms(1) saneD(7) [OF assms(1)] in
      \<open>auto simp: multi_ok_def, auto simp: addReplyString_def upd_client_def\<close>)
  have "c \<in> set (sv_clients (upd_client c ?f ?t))" using assms(2) by (simp add: upd_client_def addReplyString_def)
  then obtain s where s: "unwatchAllKeys c (upd_client c ?f ?t) = Some s" "watch_frame (upd_client c ?f ?t) s"
    "c_watched (sv_client s c) = []"
    using unwatchAll_effect [OF t] by metis
  note p = watch_frame_proj [OF s(2)]
  have "execCommand c sv = Some s"
    using assms(3,4) s(1) by (simp add: execCommand_def addReply_def discardTransaction_def)
  then show thesis
    using that [of s] s(3) by (simp add: p) (simp add: upd_client_def addReplyString_def prepareClientToWrite_def)
qed

end
