(* ===== verification/Guarantees.thy ===== *)
theory Guarantees
  imports Machine
begin

text \<open>
  The guarantees of the running server, over all reachable states: well-typed states, no dangling
  clients, optimistic locking with WATCH, rejected commands in transactions, requests that return;
  and the comparison of passwords.  The witnesses run a small server.
\<close>

section \<open>A run\<close>

text \<open>The request of a table command that no test of \<open>processCommand\<close> turns away.\<close>

lemma processCommand_run:
  assumes "lookupCommand (argv c sv 0) = Some cmd" "List.map tolower (cstr (argv c sv 0)) \<noteq> ''quit''"
    and "\<not> wrong_arity cmd (argc c sv)" "sv_requirepass sv = None" "sv_maxmemory sv = 0" "\<not> sv_bgsave_err sv"
    and "\<not> sv_masterhost sv" "c_channels (sv_client sv c) = []" "c_patterns (sv_client sv c) = []" "\<not> sv_loading sv"
    and "\<not> sv_lua_timedout sv" "c_multi (sv_client sv c) \<longrightarrow> rc_name cmd \<in> {''exec'', ''discard'', ''multi'', ''watch''}"
  shows "processCommand c sv = map_option (Pair True) (call (command_proc cmd) c (upd_client c (c_cmd_update (\<lambda>_. rc_name cmd)) sv))"
  using assms by (simp add: processCommand_def dispatch_def upd_client_def Let_def) auto

definition demo :: server where
  "demo = initServer 16 1000 (\<lambda>m. sorted_list_of_set (dom m)) (\<lambda>m _. hd (sorted_list_of_set (dom m)))"

lemma demo_reachable: "reachable demo"
proof -
  have "sources_ok demo"
    by (auto simp: sources_ok_def demo_def)
      (metis domIff hd_in_set set_sorted_list_of_set set_empty dom_eq_empty_conv option.collapse)
  then show ?thesis unfolding demo_def by (intro reachable.start initServer_initial) simp_all
qed

definition demo1 :: server where
  "demo1 = createClient 2 False (createClient 1 False demo)"

lemma demo1_reachable: "reachable demo1"
proof -
  have "reachable (createClient 1 False demo)"
    by (rule reachable.event [OF demo_reachable step.connect]) (simp add: demo_def initServer_def)
  then show ?thesis
    unfolding demo1_def by (rule reachable.event [OF _ step.connect]) (simp add: demo_def initServer_def createClient_def)
qed

lemma lookup_eq:
  assumes "cmd \<in> set commandTable" "List.map tolower name = rc_name cmd"
  shows "lookupCommand name = Some cmd"
  using find_name [OF table_names assms(1)] assms(2) by (simp add: lookupCommand_def)

lemma lower_names:
  "List.map tolower ''WATCH'' = ''watch''" "List.map tolower ''MULTI'' = ''multi''" "List.map tolower ''EXEC'' = ''exec''"
  "List.map tolower ''SET'' = ''set''" "List.map tolower ''FLUSHALL'' = ''flushall''"
  by code_simp+

lemma lookups:
  "lookupCommand ''WATCH'' = Some (entry ''watch'' (Some watchCommand) (-2) ''rs'' (Some NoPreloadGetKeys) 1 (-1) 1)"
  "lookupCommand ''MULTI'' = Some (entry ''multi'' None 1 ''rs'' None 0 0 0)"
  "lookupCommand ''EXEC'' = Some (entry ''exec'' None 1 ''sM'' None 0 0 0)"
  "lookupCommand ''SET'' = Some (entry ''set'' (Some setCommand) (-3) ''wm'' (Some NoPreloadGetKeys) 1 1 1)"
  "lookupCommand ''FLUSHALL'' = Some (entry ''flushall'' (Some flushallCommand) 1 ''w'' None 0 0 0)"
  by (rule lookup_eq, simp only: commandTable_eq list.set insert_iff simp_thms,
      simp only: lower_names entry_def redisCommand.select_convs)+

lemmas demo_simps = lookups wrong_arity_def entry_def with_args_def demo1_def demo_def initServer_def
  createClient_def upd_client_def

definition demo2 :: server where
  "demo2 = (case processCommand 1 (with_args 1 [''WATCH'', ''a''] demo1) of Some (b, sv) \<Rightarrow> sv | None \<Rightarrow> demo1)"

lemma demo_watch:
  "processCommand 1 (with_args 1 [''WATCH'', ''a''] demo1) = Some (True, demo2)"
  "sv_clients demo2 = [1, 2]" "c_close_after_reply (sv_client demo2 c) = False"
  "c_watched (sv_client demo2 1) = [(''a'', 0)]" "c_watched (sv_client demo2 2) = []"
  "c_mstate (sv_client demo2 c) = []" "c_multi (sv_client demo2 c) = False" "sv_maxmemory demo2 = 0"
  "sv_requirepass demo2 = None" "sv_bgsave_err demo2 = False" "sv_masterhost demo2 = False" "sv_loading demo2 = False"
  "sv_lua_timedout demo2 = False" "c_channels (sv_client demo2 c) = []" "c_patterns (sv_client demo2 c) = []"
  "rd_dict (sv_db demo2 i) = Map.empty" "rd_expires (sv_db demo2 i) = Map.empty" "sv_dbnum demo2 = 16"
  "c_db (sv_client demo2 c) = 0" "sv_now demo2 = 1000" "rd_watched (sv_db demo2 0) ''a'' = Some [1]"
proof -
  have p: "processCommand 1 (with_args 1 [''WATCH'', ''a''] demo1) =
    map_option (Pair True) (call watchCommand 1 (upd_client 1 (c_cmd_update (\<lambda>_. ''watch'')) (with_args 1 [''WATCH'', ''a''] demo1)))"
    by (subst processCommand_run [where cmd = "entry ''watch'' (Some watchCommand) (-2) ''rs'' (Some NoPreloadGetKeys) 1 (-1) 1"])
      (simp_all add: demo_simps, simp_all add: cstr_def command_proc_def)
  have "\<exists>s. processCommand 1 (with_args 1 [''WATCH'', ''a''] demo1) = Some (True, s)"
    unfolding p by (simp add: call_def watchCommand_def Let_def demo_simps)
  then show "processCommand 1 (with_args 1 [''WATCH'', ''a''] demo1) = Some (True, demo2)"
    by (auto simp: demo2_def)
  note q = call_def watchCommand_def Let_def watchForKey_def upd_db_def addReply_def addReplyString_def prepareClientToWrite_def
    demo_simps propagate_def
  show "sv_clients demo2 = [1, 2]" "c_close_after_reply (sv_client demo2 c) = False"
  "c_watched (sv_client demo2 1) = [(''a'', 0)]" "c_watched (sv_client demo2 2) = []"
  "c_mstate (sv_client demo2 c) = []" "c_multi (sv_client demo2 c) = False" "sv_maxmemory demo2 = 0"
  "sv_requirepass demo2 = None" "sv_bgsave_err demo2 = False" "sv_masterhost demo2 = False" "sv_loading demo2 = False"
  "sv_lua_timedout demo2 = False" "c_channels (sv_client demo2 c) = []" "c_patterns (sv_client demo2 c) = []"
  "rd_dict (sv_db demo2 i) = Map.empty" "rd_expires (sv_db demo2 i) = Map.empty" "sv_dbnum demo2 = 16"
  "c_db (sv_client demo2 c) = 0" "sv_now demo2 = 1000" "rd_watched (sv_db demo2 0) ''a'' = Some [1]"
    unfolding demo2_def p by (simp_all add: q initial_client_def)
qed

lemma demo_set:
  "\<exists>s. processCommand 2 (with_args 2 [''SET'', ''a'', ''x''] demo2) = Some (True, s) \<and>
     rd_dict (sv_db s 0) ''a'' \<noteq> None \<and> c_watched (sv_client s 1) = [(''a'', 0)] \<and> sv_clients s = [1, 2] \<and>
     \<not> c_close_after_reply (sv_client s 1) \<and> \<not> c_multi (sv_client s 1) \<and> sv_maxmemory s = 0 \<and> sv_requirepass s = None \<and>
     \<not> sv_bgsave_err s \<and> \<not> sv_masterhost s \<and> \<not> sv_loading s \<and> \<not> sv_lua_timedout s \<and>
     c_channels (sv_client s 1) = [] \<and> c_patterns (sv_client s 1) = []"
proof -
  let ?s = "with_args 2 [''SET'', ''a'', ''x''] demo2"
  have p: "processCommand 2 ?s = map_option (Pair True) (call setCommand 2 (upd_client 2 (c_cmd_update (\<lambda>_. ''set'')) ?s))"
    by (subst processCommand_run [where cmd = "entry ''set'' (Some setCommand) (-3) ''wm'' (Some NoPreloadGetKeys) 1 1 1"])
      (simp_all add: lookups wrong_arity_def entry_def with_args_def upd_client_def demo_watch, simp_all add: cstr_def command_proc_def)
  let ?t = "upd_client 2 (c_cmd_update (\<lambda>_. ''set'')) ?s"
  have k: "ks_wf ?t" by (simp add: ks_wf_def upd_client_def demo_watch with_args_def db_wf_def)
  obtain ob where ob: "tryObjectEncoding 0 1 (createStringObject ''x'') = Some ob"
    using try_arg [of "''x''" 0] by (auto simp: small_def)
  have e: "evict 0 ''a'' ?t = ?t"  "visible 0 ''a'' ?t = None" by (simp_all add: evict_def stale_def visible_def upd_client_def demo_watch with_args_def)
  have c: "setCommand 2 ?t = Some (addReplyString 2 shared_ok (incr_dirty 1 (keyset 0 ''a'' ob ?t)))"
    using k e
    by (simp add: setCommand_def setGenericCommand_def set_aborts_eq setKey_eq upd_client_state demo_watch ob [simplified] Let_def)
  show ?thesis
    unfolding p call_def c by (simp add: Let_def keyset_def e [simplified] propagate_def, simp add: addReplyString_def incr_dirty_def exprem_def dbset_def mark_all_def upd_db_def upd_client_def with_args_def demo_watch [simplified] prepareClientToWrite_def)
qed

lemma demo_multi:
  assumes "sv_clients s = [1, 2]" "\<not> c_multi (sv_client s 1)" "sv_maxmemory s = 0" "sv_requirepass s = None"
    "\<not> sv_bgsave_err s" "\<not> sv_masterhost s" "\<not> sv_loading s" "\<not> sv_lua_timedout s"
    "c_channels (sv_client s 1) = []" "c_patterns (sv_client s 1) = []"
  shows "\<exists>t. processCommand 1 (with_args 1 [''MULTI''] s) = Some (True, t) \<and> c_multi (sv_client t 1) \<and>
    c_watched (sv_client t 1) = c_watched (sv_client s 1) \<and> sv_db t = sv_db s \<and> sv_now t = sv_now s"
proof -
  have p: "processCommand 1 (with_args 1 [''MULTI''] s) = map_option (Pair True)
    (call multiCommand 1 (upd_client 1 (c_cmd_update (\<lambda>_. ''multi'')) (with_args 1 [''MULTI''] s)))"
    by (subst processCommand_run [where cmd = "entry ''multi'' None 1 ''rs'' None 0 0 0"])
      (use assms in \<open>simp_all add: lookups wrong_arity_def entry_def with_args_def upd_client_def\<close>,
       simp_all add: cstr_def command_proc_def)
  show ?thesis
    unfolding p call_def using assms(2)
    by (simp add: multiCommand_def Let_def addReply_def addReplyString_def upd_client_def with_args_def propagate_def)
qed

lemma demo_watching:
  "\<exists>sv'. watching 1 0 ''a'' demo2 sv' \<and> c_multi (sv_client sv' 1) \<and> rd_dict (sv_db sv' 0) ''a'' \<noteq> None"
proof -
  obtain s where s: "processCommand 2 (with_args 2 [''SET'', ''a'', ''x''] demo2) = Some (True, s)"
    "rd_dict (sv_db s 0) ''a'' \<noteq> None" "c_watched (sv_client s 1) = [(''a'', 0)]" "sv_clients s = [1, 2]"
    "\<not> c_close_after_reply (sv_client s 1)" "\<not> c_multi (sv_client s 1)" "sv_maxmemory s = 0" "sv_requirepass s = None"
    "\<not> sv_bgsave_err s" "\<not> sv_masterhost s" "\<not> sv_loading s" "\<not> sv_lua_timedout s"
    "c_channels (sv_client s 1) = []" "c_patterns (sv_client s 1) = []"
    using demo_set by blast
  obtain t where t: "processCommand 1 (with_args 1 [''MULTI''] s) = Some (True, t)" "c_multi (sv_client t 1)"
    "c_watched (sv_client t 1) = c_watched (sv_client s 1)" "sv_db t = sv_db s"
    using demo_multi [OF s(4,6-14)] by blast
  have "watching 1 0 ''a'' demo2 demo2" by (rule watching.here) (simp add: demo_watch [simplified])
  then have "watching 1 0 ''a'' demo2 s"
    by (rule watching.after [OF _ step.request [OF _ _ _ _ s(1)]])
      (simp_all add: demo_watch [simplified] s(3) [simplified] moves_def small_def tolower_def)
  then have "watching 1 0 ''a'' demo2 t"
    by (rule watching.after [OF _ step.request [OF _ _ _ _ t(1)]])
      (use s(3-5) t(3) in \<open>simp_all add: moves_def small_def tolower_def\<close>)
  then show ?thesis using t(2,4) s(2) by metis
qed

lemma demo2_reachable: "reachable demo2"
  by (rule reachable.event [OF demo1_reachable step.request [OF _ _ _ _ demo_watch(1)]])
    (simp_all add: demo1_def demo_def createClient_def initServer_def small_def initial_client_def)

section \<open>Properties\<close>

text \<open>C1.
  Optimistic locking, for a server without a memory limit (\<open>maxmemory\<close> 0: evictions mark nobody) and as
  long as no client sends MOVE (which does not mark the key either, see below).  While a client watches
  a key, through any events (requests of the modelled commands, connections, disconnections, expiry
  and ticks of the clock): either the key still has the value it had, with its expire time or
  without one (PERSIST takes the expire time away without marking), or its expire time has passed, or
  an EXEC of the client is refused: it runs no command, changes no key, feeds nothing to the append
  only file and the slaves, replies with the null multi bulk (or the error of a transaction with a
  rejected command) and ends the transaction.
\<close>

theorem optimistic_locking:
  assumes "reachable sv" and "moveless sv" and "sv_maxmemory sv = 0" and "watching d i k sv sv'"
    and "c_multi (sv_client sv' d)"
  shows "rd_dict (sv_db sv' i) k = rd_dict (sv_db sv i) k \<and>
      (rd_expires (sv_db sv' i) k = rd_expires (sv_db sv i) k \<or> rd_expires (sv_db sv' i) k = None) \<or>
    (\<exists>t. rd_expires (sv_db sv i) k = Some t \<and> t < sv_now sv') \<or>
    (\<exists>s. execCommand d sv' = Some s \<and>
       (\<forall>j. rd_dict (sv_db s j) = rd_dict (sv_db sv' j) \<and> rd_expires (sv_db s j) = rd_expires (sv_db sv' j)) \<and>
       sv_aof s = sv_aof sv' \<and> sv_repl s = sv_repl sv' \<and> \<not> c_multi (sv_client s d) \<and> c_watched (sv_client s d) = [] \<and>
       (\<not> receptive (sv_client sv' d) \<or> c_out (sv_client s d) = c_out (sv_client sv' d) @
          (if c_dirty_exec (sv_client sv' d) then shared_execaborterr else shared_nullmultibulk)))"
proof -
  have g: "guarded d i k (rd_dict (sv_db sv i) k) (rd_expires (sv_db sv i) k) sv" by (simp add: guarded_def)
  note w = watching_guarded [OF assms(4) reachable_sane [OF assms(1)] assms(2,3) g]
  then have "registered sv'" by (simp add: sane_def)
  then have "d \<in> set (sv_clients sv')" using w by (auto simp: registered_def detached_def)
  then have ab: "c_dirty_cas (sv_client sv' d) \<Longrightarrow> \<exists>s. execCommand d sv' = Some s \<and>
       (\<forall>j. rd_dict (sv_db s j) = rd_dict (sv_db sv' j) \<and> rd_expires (sv_db s j) = rd_expires (sv_db sv' j)) \<and>
       sv_aof s = sv_aof sv' \<and> sv_repl s = sv_repl sv' \<and> \<not> c_multi (sv_client s d) \<and> c_watched (sv_client s d) = [] \<and>
       (\<not> receptive (sv_client sv' d) \<or> c_out (sv_client s d) = c_out (sv_client sv' d) @
          (if c_dirty_exec (sv_client sv' d) then shared_execaborterr else shared_nullmultibulk))"
    using w assms(5) exec_aborts [of sv' d] by metis
  have "c_dirty_cas (sv_client sv' d) \<or>
    rd_dict (sv_db sv' i) k = rd_dict (sv_db sv i) k \<and>
      (rd_expires (sv_db sv' i) k = rd_expires (sv_db sv i) k \<or> rd_expires (sv_db sv' i) k = None) \<or>
    (\<exists>t. rd_expires (sv_db sv i) k = Some t \<and> t < sv_now sv')"
    using w by (simp add: guarded_def)
  then show ?thesis using ab by (elim disjE) (simp_all only: simp_thms)
qed

theorem optimistic_locking_witness:
  "\<exists>sv' s. watching 1 0 ''a'' demo2 sv' \<and> rd_dict (sv_db sv' 0) ''a'' \<noteq> rd_dict (sv_db demo2 0) ''a'' \<and>
     execCommand 1 sv' = Some s \<and> rd_dict (sv_db s 0) = rd_dict (sv_db sv' 0)"
proof -
  obtain sv' where sv': "watching 1 0 ''a'' demo2 sv'" "c_multi (sv_client sv' 1)" "rd_dict (sv_db sv' 0) ''a'' \<noteq> None"
    using demo_watching by blast
  have "moveless demo2" by (simp add: moveless_def demo_watch)
  from optimistic_locking [OF demo2_reachable this demo_watch(8) sv'(1,2)] sv'(1,3)
  show ?thesis by (auto simp: demo_watch)
qed

text \<open>C2.
  Every state that events can lead to is well typed: keys and values are well-formed objects
  within the size limits, every expire time belongs to a key, every client has selected a
  database that exists, and what it has queued are commands of the table with an accepted number
  of arguments, never EXEC, DISCARD, MULTI or WATCH; outside MULTI nothing is queued.
\<close>

theorem reachable_well_typed:
  assumes "reachable sv"
  shows "(\<forall>i k ob. rd_dict (sv_db sv i) k = Some ob \<longrightarrow> robj_wf ob \<and> robj_small ob \<and> small k) \<and>
    (\<forall>i. dom (rd_expires (sv_db sv i)) \<subseteq> dom (rd_dict (sv_db sv i)) \<and> finite (dom (rd_dict (sv_db sv i)))) \<and>
    (\<forall>c. c_db (sv_client sv c) < sv_dbnum sv) \<and>
    (\<forall>c. \<not> c_multi (sv_client sv c) \<longrightarrow> c_mstate (sv_client sv c) = [] \<and> \<not> c_dirty_exec (sv_client sv c)) \<and>
    (\<forall>c. \<forall>mc\<in>set (c_mstate (sv_client sv c)).
       mc_cmd mc \<in> rc_name ` set commandTable \<and> mc_cmd mc \<notin> {''exec'', ''discard'', ''multi'', ''watch''} \<and>
       \<not> wrong_arity (command_of (mc_cmd mc)) (length (mc_argv mc)))"
proof -
  note s = reachable_sane [OF assms]
  have m: "multi_ok (sv_client sv c)" for c by (rule saneD(6) [OF s])
  show ?thesis
    using saneD(1) [OF s] saneD(7) [OF s] m
    by (auto simp: ks_wf_def db_wf_def entry_ok_def multi_ok_def queued_ok_def)
qed

theorem reachable_well_typed_witness:
  "reachable demo2 \<and> c_db (sv_client demo2 1) < sv_dbnum demo2"
  using reachable_well_typed [OF demo2_reachable] demo2_reachable by blast

text \<open>C3.
  No dangling client: the lists of watchers, of the subscribers of a channel and of the
  subscribers of a pattern only ever name connected clients, each at most once, and exactly those
  that hold the key, the channel or the pattern on their own side.
\<close>

theorem no_dangling_clients:
  assumes "reachable sv"
  shows "distinct (sv_clients sv) \<and>
    (\<forall>i k cs. rd_watched (sv_db sv i) k = Some cs \<longrightarrow>
       cs \<noteq> [] \<and> distinct cs \<and> set cs \<subseteq> set (sv_clients sv) \<and> set cs = {c. (k, i) \<in> set (c_watched (sv_client sv c))}) \<and>
    (\<forall>ch cs. sv_channels sv ch = Some cs \<longrightarrow>
       cs \<noteq> [] \<and> distinct cs \<and> set cs \<subseteq> set (sv_clients sv) \<and> set cs = {c. ch \<in> set (c_channels (sv_client sv c))}) \<and>
    distinct (sv_patterns sv) \<and> fst ` set (sv_patterns sv) \<subseteq> set (sv_clients sv) \<and>
    (\<forall>c p. (c, p) \<in> set (sv_patterns sv) \<longleftrightarrow> p \<in> set (c_patterns (sv_client sv c)))"
proof (intro conjI allI impI)
  note s = reachable_sane [OF assms]
  note w = saneD(2) [OF s] and p = saneD(3) [OF s]
  have r: "distinct (sv_clients sv)" "\<And>c. c \<notin> set (sv_clients sv) \<Longrightarrow> detached (sv_client sv c)"
    using saneD(4) [OF s] by (auto simp: registered_def)
  have reg: "c_watched (sv_client sv c) \<noteq> [] \<or> c_channels (sv_client sv c) \<noteq> [] \<Longrightarrow> c \<in> set (sv_clients sv)" for c
    using r(2) [of c] by (auto simp: detached_def)
  show "distinct (sv_clients sv)" by (rule r(1))
  {
    fix i k cs assume cs: "rd_watched (sv_db sv i) k = Some cs"
    show "cs \<noteq> []" "distinct cs" using watch_wfD(1) [OF w cs] by simp_all
    show eq: "set cs = {c. (k, i) \<in> set (c_watched (sv_client sv c))}"
      using watch_wfD(3) [OF w, of k i] cs by (auto simp: watchers_def)
    show "set cs \<subseteq> set (sv_clients sv)" unfolding eq using reg by force
  }
  {
    fix ch cs assume cs: "sv_channels sv ch = Some cs"
    show "cs \<noteq> []" "distinct cs" using pubsub_wfD(1) [OF p cs] by simp_all
    show eq: "set cs = {c. ch \<in> set (c_channels (sv_client sv c))}"
      using pubsub_wfD(6) [OF p, of ch] cs by (auto simp: subscribers_def)
    show "set cs \<subseteq> set (sv_clients sv)" unfolding eq using reg by force
  }
  show "distinct (sv_patterns sv)" by (rule pubsub_wfD(2) [OF p])
  show pat: "(c, q) \<in> set (sv_patterns sv) \<longleftrightarrow> q \<in> set (c_patterns (sv_client sv c))" for c q
    using pubsub_wfD(7) [OF p, of q c] by simp
  show "fst ` set (sv_patterns sv) \<subseteq> set (sv_clients sv)"
  proof
    fix c assume "c \<in> fst ` set (sv_patterns sv)"
    then obtain q where "(c, q) \<in> set (sv_patterns sv)" by force
    then have "c_patterns (sv_client sv c) \<noteq> []" using pubsub_wfD(7) [OF p, of q c] by auto
    then show "c \<in> set (sv_clients sv)" using r(2) by (auto simp: detached_def)
  qed
qed

theorem no_dangling_clients_witness:
  "rd_watched (sv_db demo2 0) ''a'' = Some [1] \<and> set [1] \<subseteq> set (sv_clients demo2)"
proof -
  note all = no_dangling_clients [OF demo2_reachable, THEN conjunct2, THEN conjunct1]
  note clients = all [THEN spec, THEN spec, THEN spec, THEN mp, OF demo_watch(21), THEN conjunct2, THEN conjunct2, THEN conjunct1]
  show ?thesis by (rule conjI [OF demo_watch(21) clients])
qed

text \<open>C9.
  No request crashes the server or keeps it busy for ever, in any state it can reach, for every
  command of the table but six (the pattern matching of KEYS and PUBLISH, RANDOMKEY on a slave,
  and the offsets of SETRANGE, GETRANGE and SUBSTR can do it); an EXEC returns when none of the six
  is queued.
\<close>

theorem requests_return:
  assumes "reachable sv" and "c \<in> set (sv_clients sv)" and "args \<noteq> []" and "\<forall>a\<in>set args. small a"
    and "List.map tolower (args ! 0) \<notin> {''keys'', ''publish'', ''randomkey'', ''setrange'', ''getrange'', ''substr''}"
    and "\<forall>mc\<in>set (c_mstate (sv_client sv c)).
      mc_cmd mc \<notin> {''keys'', ''publish'', ''randomkey'', ''setrange'', ''getrange'', ''substr''}"
  shows "\<exists>alive sv'. processCommand c (with_args c args sv) = Some (alive, sv') \<and> sane sv' \<and> sv_clients sv' = sv_clients sv"
proof -
  let ?s = "with_args c args sv"
  have e: "effect c sv ?s" by (rule request_prefix(3) [OF reachable_sane [OF assms(1)]])
  have s: "sane ?s" "c \<in> set (sv_clients ?s)" "sv_clients ?s = sv_clients sv" using e assms(2) by (simp_all add: effect_def)
  have a: "\<forall>a\<in>set (c_argv (sv_client ?s c)). small a" using assms(4) by simp
  have m: "c_mstate (sv_client ?s c) = c_mstate (sv_client sv c)" by (simp add: with_args_def upd_client_def)
  have v: "argv c ?s 0 = args ! 0" by simp
  have "processCommand c ?s \<noteq> None"
  proof (rule processCommand_returns [OF s(1,2) a])
    show "List.map tolower (argv c ?s 0) \<notin> risky" unfolding v risky_def by (rule assms(5))
    show "\<forall>mc\<in>set (c_mstate (sv_client ?s c)). mc_cmd mc \<notin> risky" unfolding m risky_def by (rule assms(6))
  qed
  then obtain r where "processCommand c ?s = Some r" by (elim not_None_eq [THEN iffD1, THEN exE])
  then obtain alive sv' where r: "processCommand c ?s = Some (alive, sv')" by (cases r) blast
  note q = processCommand_runs [OF s(1,2) a r]
  have "sane sv'" "sv_clients sv' = sv_clients ?s" using q by (simp_all only: runs_def)
  then show ?thesis using r s(3) by metis
qed

theorem requests_return_witness:
  "\<exists>alive sv'. processCommand 2 (with_args 2 [''SET'', ''a'', ''x''] demo2) = Some (alive, sv') \<and> sane sv' \<and>
     sv_clients sv' = sv_clients demo2"
  by (rule requests_return [OF demo2_reachable])
    (simp_all add: demo_watch [simplified] small_def tolower_def)

section \<open>AUTH\<close>

lemma fold_or_zero: "fold (\<lambda>(x, y) diff. diff OR (code x XOR code y)) ps n = 0 \<longleftrightarrow> n = 0 \<and> (\<forall>(x, y)\<in>set ps. x = y)"
proof (induction ps arbitrary: n)
  case (Cons p ps)
  obtain x y where p: "p = (x, y)" by fastforce
  have "code x XOR code y = 0 \<longleftrightarrow> code x = code y" by (auto simp: bit_eq_iff bit_xor_iff)
  then have "code x XOR code y = 0 \<longleftrightarrow> x = y" by (simp add: code_def)
  then show ?case using Cons.IH [of "n OR (code x XOR code y)"] by (auto simp: p or_eq_0_iff)
qed simp

text \<open>C31.
  The comparison of passwords, which always looks at every byte of its two buffers, is string
  equality: it returns 0 exactly for equal strings of at most 512 bytes, and never 0 for a longer
  one.
\<close>

theorem time_independent_strcmp_equality:
  "time_independent_strcmp a b = 0 \<longleftrightarrow> cstr a = cstr b \<and> length (cstr a) \<le> REDIS_AUTHPASS_MAX_LEN"
proof (cases "REDIS_AUTHPASS_MAX_LEN < length (cstr a) \<or> REDIS_AUTHPASS_MAX_LEN < length (cstr b)")
  case True
  then show ?thesis by (auto simp: time_independent_strcmp_def Let_def)
next
  case False
  let ?a = "pass_buffer a" and ?b = "pass_buffer b"
  have l: "length ?a = REDIS_AUTHPASS_MAX_LEN" "length ?b = REDIS_AUTHPASS_MAX_LEN" using False by (simp_all add: pass_buffer_def)
  have z: "(\<forall>(x, y)\<in>set (zip xs ys). x = y) \<longleftrightarrow> xs = ys" if "length xs = length ys" for xs ys :: string
    using that by (induction xs ys rule: list_induct2) auto
  have len: "length (cstr a) XOR length (cstr b) = 0 \<longleftrightarrow> length (cstr a) = length (cstr b)"
    by (auto simp: bit_eq_iff bit_xor_iff)
  have "time_independent_strcmp a b = 0 \<longleftrightarrow> ?a = ?b \<and> length (cstr a) = length (cstr b)"
    using False by (simp add: time_independent_strcmp_def Let_def or_eq_0_iff fold_or_zero z l len)
  also have "\<dots> \<longleftrightarrow> cstr a = cstr b" by (auto simp: pass_buffer_def)
  finally show ?thesis using False by auto
qed

section \<open>Rejected commands\<close>

text \<open>C14.
  A request inside MULTI that names no command, or gives a command a wrong number of arguments, is
  not executed and changes no key; the EXEC that follows then runs nothing, changes no key, ends the
  transaction and replies with EXECABORT.
\<close>

theorem rejected_request_aborts_exec:
  assumes "reachable sv" and "c \<in> set (sv_clients sv)" and "c_multi (sv_client sv c)" and "args \<noteq> []"
    and "lookupCommand (args ! 0) = None \<or> (\<exists>cmd. lookupCommand (args ! 0) = Some cmd \<and> wrong_arity cmd (length args))"
    and "List.map tolower (cstr (args ! 0)) \<noteq> ''quit''"
  shows "\<exists>s t. processCommand c (with_args c args sv) = Some (True, s) \<and> sv_db s = sv_db sv \<and> c_multi (sv_client s c) \<and>
    execCommand c s = Some t \<and> (\<forall>i. rd_dict (sv_db t i) = rd_dict (sv_db sv i) \<and> rd_expires (sv_db t i) = rd_expires (sv_db sv i)) \<and>
    \<not> c_multi (sv_client t c) \<and> c_mstate (sv_client t c) = [] \<and> sv_aof t = sv_aof s \<and>
    (\<not> receptive (sv_client s c) \<or> c_out (sv_client t c) = c_out (sv_client s c) @ shared_execaborterr)"
proof -
  let ?s = "with_args c args sv"
  have e: "effect c sv ?s" by (rule request_prefix(3) [OF reachable_sane [OF assms(1)]])
  have s: "sane ?s" "c \<in> set (sv_clients ?s)" "c_multi (sv_client ?s c)" "sv_db ?s = sv_db sv"
    using e assms(2,3) by (simp_all add: effect_def) (simp_all add: with_args_def upd_client_def)
  obtain x r where run: "processCommand c ?s = Some (True, addReplyString c r (flagTransaction c (upd_client c (c_cmd_update (\<lambda>_. x)) ?s)))"
  proof -
    consider (none) "lookupCommand (args ! 0) = None"
      | (arity) cmd where "lookupCommand (args ! 0) = Some cmd" "wrong_arity cmd (length args)" using assms(5) by auto
    then show thesis
    proof cases
      case none
      then show thesis using that assms(6) by (simp add: processCommand_def addReplyErrorFormat_def addReplyErrorLength_def)
    next
      case arity
      have "argc c (upd_client c (c_cmd_update (\<lambda>_. rc_name cmd)) ?s) = length args"
        by (simp add: upd_client_state)
      then show thesis using that arity assms(6)
        by (simp add: processCommand_def Let_def addReplyErrorFormat_def addReplyErrorLength_def)
    qed
  qed
  let ?u = "upd_client c (c_cmd_update (\<lambda>_. x)) ?s"
  let ?t = "addReplyString c r (flagTransaction c ?u)"
  have u: "effect c ?s ?u" by (rule request_prefix(1) [OF s(1)])
  then have "sane ?u" by (simp add: effect_def)
  then have "effect c ?u (flagTransaction c ?u)" by (rule flag_effect)
  then have t: "effect c ?s ?t" using u effect_trans by (blast intro: reply_effect)
  have t: "sane ?t" "c \<in> set (sv_clients ?t)" using t s(2) by (simp_all add: effect_def)
  have d: "c_multi (sv_client ?t c)" "c_dirty_exec (sv_client ?t c)" "sv_db ?t = sv_db sv"
    using s(3,4) by (simp_all add: addReplyString_def flagTransaction_def upd_client_def)
  have "c_dirty_cas (sv_client ?t c) \<or> c_dirty_exec (sv_client ?t c)" using d(2) by simp
  then obtain z where z: "execCommand c ?t = Some z" "\<And>i. rd_dict (sv_db z i) = rd_dict (sv_db ?t i)"
    "\<And>i. rd_expires (sv_db z i) = rd_expires (sv_db ?t i)" "sv_aof z = sv_aof ?t"
    "\<not> c_multi (sv_client z c)" "c_mstate (sv_client z c) = []"
    "\<not> receptive (sv_client ?t c) \<or> c_out (sv_client z c) = c_out (sv_client ?t c) @
       (if c_dirty_exec (sv_client ?t c) then shared_execaborterr else shared_nullmultibulk)"
    by (rule exec_aborts [OF t d(1)]) (rule that; assumption)
  show ?thesis
    by (intro exI conjI allI, rule run, rule d(3), rule d(1), rule z(1)) (use z d(2,3) in simp_all)
qed

lemma demo_transaction:
  "\<exists>sv. reachable sv \<and> 1 \<in> set (sv_clients sv) \<and> c_multi (sv_client sv 1)"
proof -
  obtain t where t: "processCommand 1 (with_args 1 [''MULTI''] demo2) = Some (True, t)" "c_multi (sv_client t 1)"
    using demo_multi [of demo2] by (auto simp: demo_watch [simplified])
  have st: "step (Request 1 [''MULTI'']) demo2 t"
    by (rule step.request [OF _ _ _ _ t(1)]) (simp_all add: demo_watch [simplified] small_def)
  have "sane demo2" by (rule reachable_sane [OF demo2_reachable])
  have "sv_clients t = sv_clients demo2"
  proof -
    have e: "effect 1 demo2 (with_args 1 [''MULTI''] demo2)" by (rule request_prefix(3) [OF \<open>sane demo2\<close>])
    then have s: "sane (with_args 1 [''MULTI''] demo2)" "1 \<in> set (sv_clients (with_args 1 [''MULTI''] demo2))"
      by (simp_all add: effect_def demo_watch)
    have a: "\<forall>a\<in>set (c_argv (sv_client (with_args 1 [''MULTI''] demo2) 1)). small a" by (simp add: small_def)
    note q = processCommand_runs [OF s a t(1)]
    have "sv_clients t = sv_clients (with_args 1 [''MULTI''] demo2)" using q by (simp only: runs_def)
    then show ?thesis using e by (simp add: effect_def)
  qed
  then show ?thesis using reachable.event [OF demo2_reachable st] t(2) by (auto simp: demo_watch)
qed

theorem rejected_request_aborts_exec_witness:
  "\<exists>sv s t. c_multi (sv_client sv 1) \<and> processCommand 1 (with_args 1 [''GET''] sv) = Some (True, s) \<and>
     execCommand 1 s = Some t \<and> \<not> c_multi (sv_client t 1)"
proof -
  obtain sv where sv: "reachable sv" "1 \<in> set (sv_clients sv)" "c_multi (sv_client sv 1)" using demo_transaction by blast
  have low: "List.map tolower ''GET'' = ''get''" by code_simp
  have "lookupCommand ''GET'' = Some (entry ''get'' (Some getCommand) 2 ''r'' None 1 1 1)"
    by (rule lookup_eq, simp only: commandTable_eq list.set insert_iff simp_thms,
        simp only: low entry_def redisCommand.select_convs)
  moreover have "wrong_arity (entry ''get'' (Some getCommand) 2 ''r'' None 1 1 1) (length [''GET''])"
    by (simp add: wrong_arity_def entry_def)
  ultimately have l: "lookupCommand ([''GET''] ! 0) = None \<or>
      (\<exists>cmd. lookupCommand ([''GET''] ! 0) = Some cmd \<and> wrong_arity cmd (length [''GET'']))" by simp
  have "List.map tolower (cstr ([''GET''] ! 0)) \<noteq> ''quit''" by (simp add: cstr_def)
  from rejected_request_aborts_exec [OF sv _ l this] sv(3) show ?thesis by (metis list.distinct(1))
qed

section \<open>Findings\<close>

text \<open>
  A write command that a read-only slave refuses inside MULTI does not flag the transaction, although
  the comment of \<open>flagTransaction\<close> asks for it: the rest of the transaction runs at EXEC.
\<close>

theorem readonly_error_not_flagged:
  assumes "sv_masterhost sv" and "sv_slave_ro sv" and "\<not> c_master (sv_client sv c)" and "has_flag CHR ''w'' cmd"
    and "\<not> sv_bgsave_err sv" and "\<not> c_dirty_exec (sv_client sv c)"
  shows "\<exists>s. dispatch cmd c sv = Some (True, s) \<and> s = addReplyString c shared_roslaveerr sv \<and> \<not> c_dirty_exec (sv_client s c)"
  using assms by (simp add: dispatch_def Let_def reject_def addReply_def) (simp add: addReplyString_def upd_client_def)

text \<open>\<open>selectDb\<close> takes an \<open>int\<close>: the number of the database is cut to 32 bits before it is tested.\<close>

theorem select_truncates:
  assumes "argv c sv 1 = ''4294967296''" and "0 < sv_dbnum sv"
  shows "selectCommand c sv = Some (addReplyString c shared_ok (upd_client c (c_db_update (\<lambda>_. 0)) sv))"
proof -
  have n: "getLongLongFromObject (Some (arg c sv 1)) = Some (Some 4294967296)"
    unfolding getLongLong_accepts_lemma
    by (rule disjI2, rule exI [of _ "[]"], rule exI [of _ "''4294967296''"])
      (simp add: assms(1) [simplified] cstr_def isdigit_def code_def signed_value_def digits_value_def)
  have "to_int32 4294967296 = 0" by (simp add: to_int32_def)
  then show ?thesis
    using assms(2) n
    by (simp add: selectCommand_def selectDb_def addReply_def getLongFromObjectOrReply_def getLongLongFromObjectOrReply_def
        del: One_nat_def)
qed

text \<open>
  A negative deadline counts as no deadline when the key is looked up, but the expire cycle deletes
  the key.
\<close>

theorem negative_deadline_deleted:
  assumes "ks_wf sv" and "rd_expires (sv_db sv i) k = Some t" and "t < 0" and "0 \<le> sv_now sv"
  shows "expireIfNeeded i k sv = Some (False, sv) \<and>
    rd_dict (sv_db (snd (activeExpireCycleTryExpire i k t (sv_now sv) sv)) i) k = None"
proof -
  have "\<not> stale i k sv" using assms(2,3) by (simp add: stale_def)
  then have "expireIfNeeded i k sv = Some (False, sv)" by (simp add: expireIfNeeded_eq [OF assms(1)] evict_def)
  moreover have "activeExpireCycleTryExpire i k t (sv_now sv) sv =
      (True, (dbrem i k (propagateExpire i k sv))\<lparr>sv_expiredkeys := sv_expiredkeys sv + 1\<rparr>)"
    using assms(3,4) by (intro expired_fine(3) [OF assms(1)]) simp
  ultimately show ?thesis by simp
qed

text \<open>Eviction removes a watched key without marking the clients that watch it.\<close>

theorem eviction_not_signalled:
  "rd_dict (sv_db (snd (evict_key i k m sv)) i) k = None \<and> sv_client (snd (evict_key i k m sv)) = sv_client sv"
  by (simp add: evict_key_def Let_def dbDelete_eq)
    (simp add: dbrem_def upd_db_def propagateExpire_def)

end
