(* ===== verification/Wire.thy ===== *)
theory Wire
  imports Guarantees
begin

text \<open>
  The wire protocol as \<open>src/networking.c\<close> reads it: the query buffer of a client, the parsers of inline
  and multi bulk requests, which work on whatever bytes have arrived so far, the loop that executes
  the complete requests, and the event loop's read handler.  Two results: a stream of well-formed
  requests is executed as sent, however it is cut into reads; and no byte sequence breaks the server.
\<close>

section \<open>The query buffer of a client\<close>

text \<open>
  The input half of \<open>redisClient\<close>.  The arguments are read into \<open>q_argv\<close>; \<open>q_bulklen\<close> is \<open>-1\<close>
  when the length of the next argument is not known.
\<close>

definition REDIS_IOBUF_LEN :: nat where "REDIS_IOBUF_LEN = 1024 * 16"
definition REDIS_INLINE_MAX_SIZE :: nat where "REDIS_INLINE_MAX_SIZE = 1024 * 64"
definition REDIS_MBULK_BIG_ARG :: nat where "REDIS_MBULK_BIG_ARG = 1024 * 32"
definition REDIS_MAX_QUERYBUF_LEN :: nat where "REDIS_MAX_QUERYBUF_LEN = 1024 * 1024 * 1024"

datatype reqtype = NO_REQ | REQ_INLINE | REQ_MULTIBULK

record query =
  q_buf :: string
  q_reqtype :: reqtype
  q_multibulklen :: nat
  q_bulklen :: int
  q_argv :: "string list"

definition initial_query :: query where
  "initial_query =
     \<lparr>q_buf = [], q_reqtype = NO_REQ, q_multibulklen = 0, q_bulklen = -1, q_argv = []\<rparr>"

definition resetClient :: "query \<Rightarrow> query" where
  "resetClient q = q\<lparr>q_argv := [], q_reqtype := NO_REQ, q_multibulklen := 0, q_bulklen := -1\<rparr>"

text \<open>
  \<open>strchr(p, '\r')\<close> and \<open>strstr\<close> on the text before the first byte 0: the offset.
\<close>

definition find_cr :: "string \<Rightarrow> nat option" where
  "find_cr p =
     (let k = length (takeWhile (\<lambda>x. x \<noteq> CHR 0x0D) (cstr p))
      in if k < length (cstr p) then Some k else None)"

fun strstr :: "string \<Rightarrow> string \<Rightarrow> nat option" where
  "strstr h n =
     (if take (length n) h = n then Some 0
      else case h of [] \<Rightarrow> None | _ # h' \<Rightarrow> map_option Suc (strstr h' n))"

declare strstr.simps [simp del]

text \<open>
  The parsers return whether a request is complete (\<open>REDIS_OK\<close>), the protocol error to reply with,
  if any, and the query; \<open>None\<close> is a failed assertion.  A formatted error is one of
  \<open>addReplyErrorFormat\<close>.
\<close>

datatype complaint = Plain string | Formatted string

definition processInlineBuffer :: "query \<Rightarrow> bool \<times> complaint option \<times> query" where
  "processInlineBuffer q =
     (case strstr (cstr (q_buf q)) CRLF of
        None \<Rightarrow>
          (False,
           if REDIS_INLINE_MAX_SIZE < length (q_buf q)
           then Some (Plain ''Protocol error: too big inline request'') else None, q)
      | Some querylen \<Rightarrow>
          let argv = (case sdssplitlen (take querylen (q_buf q)) '' '' of Some ts \<Rightarrow> ts | None \<Rightarrow> [])
          in (True, None, q\<lparr>q_buf := drop (querylen + 2) (q_buf q), q_argv := List.filter (\<lambda>a. a \<noteq> []) argv\<rparr>))"

text \<open>
  The loop of \<open>processMultibulkBuffer\<close>.  \<open>Break\<close> leaves it, with the position up to which the buffer
  is to be trimmed; \<open>Return\<close> is a return with \<open>REDIS_ERR\<close>, after \<open>setProtocolError\<close> trimmed the buffer.
\<close>

datatype bulk_end = Break "complaint option" nat query | Return complaint query

definition setProtocolError :: "nat \<Rightarrow> query \<Rightarrow> query" where
  "setProtocolError pos q = q\<lparr>q_buf := drop pos (q_buf q)\<rparr>"

definition not_dollar :: "char \<Rightarrow> string" where
  "not_dollar x = ''Protocol error: expected '' @ [CHR 0x27, CHR ''$'', CHR 0x27] @ '', got '' @ [CHR 0x27, x, CHR 0x27]"

definition read_bulklen :: "nat \<Rightarrow> query \<Rightarrow> bulk_end + nat \<times> query" where
  "read_bulklen pos q =
     (if q_bulklen q \<noteq> -1 then Inr (pos, q)
      else case find_cr (drop pos (q_buf q)) of
        None \<Rightarrow>
          Inl (if REDIS_INLINE_MAX_SIZE < length (q_buf q)
               then Break (Some (Plain ''Protocol error: too big bulk count string'')) pos (setProtocolError 0 q)
               else Break None pos q)
      | Some k \<Rightarrow>
          if int (length (q_buf q)) - 2 < int (pos + k) then Inl (Break None pos q)
          else if q_buf q ! pos \<noteq> CHR ''$''
          then Inl (Return (Formatted (cstr (not_dollar (q_buf q ! pos)))) (setProtocolError pos q))
          else case string2ll (take (k - 1) (drop (pos + 1) (q_buf q))) of
            None \<Rightarrow> Inl (Return (Plain ''Protocol error: invalid bulk length'') (setProtocolError pos q))
          | Some ll \<Rightarrow>
              if ll < 0 \<or> 512 * 1024 * 1024 < ll
              then Inl (Return (Plain ''Protocol error: invalid bulk length'') (setProtocolError pos q))
              else if int REDIS_MBULK_BIG_ARG \<le> ll
              then Inr (0, q\<lparr>q_buf := drop (pos + k + 2) (q_buf q), q_bulklen := ll\<rparr>)
              else Inr (pos + k + 2, q\<lparr>q_bulklen := ll\<rparr>))"

definition read_argument :: "nat \<Rightarrow> query \<Rightarrow> nat \<times> query" where
  "read_argument pos q =
     (let buf = q_buf q; len = nat (q_bulklen q)
      in if pos = 0 \<and> int REDIS_MBULK_BIG_ARG \<le> q_bulklen q \<and> int (length buf) = q_bulklen q + 2
         then (0, q\<lparr>q_argv := q_argv q @ [take (length buf - 2) buf], q_buf := []\<rparr>)
         else (pos + len + 2, q\<lparr>q_argv := q_argv q @ [take len (drop pos buf)]\<rparr>))"

fun bulk_loop :: "nat \<Rightarrow> nat \<Rightarrow> query \<Rightarrow> bulk_end" where
  "bulk_loop 0 pos q = Break None pos q"
| "bulk_loop (Suc n) pos q =
     (case read_bulklen pos q of
        Inl e \<Rightarrow> e
      | Inr (pos, q) \<Rightarrow>
          if length (q_buf q) - pos < nat (q_bulklen q + 2) then Break None pos q
          else let (pos, q) = read_argument pos q
               in bulk_loop n pos (q\<lparr>q_bulklen := -1, q_multibulklen := n\<rparr>))"

fun bulk_finish :: "bulk_end \<Rightarrow> bool \<times> complaint option \<times> query" where
  "bulk_finish (Return e q) = (False, Some e, q)"
| "bulk_finish (Break e pos q) = (q_multibulklen q = 0, e, q\<lparr>q_buf := drop pos (q_buf q)\<rparr>)"

definition processMultibulkBuffer :: "query \<Rightarrow> (bool \<times> complaint option \<times> query) option" where
  "processMultibulkBuffer q =
     (if q_multibulklen q = 0 then
        (if q_argv q \<noteq> [] then None
         else case find_cr (q_buf q) of
           None \<Rightarrow>
             Some (False,
               if REDIS_INLINE_MAX_SIZE < length (q_buf q)
               then Some (Plain ''Protocol error: too big mbulk count string'') else None, q)
         | Some k \<Rightarrow>
             if int (length (q_buf q)) - 2 < int k then Some (False, None, q)
             else if q_buf q ! 0 \<noteq> CHR ''*'' then None
             else case string2ll (take (k - 1) (drop 1 (q_buf q))) of
               None \<Rightarrow> Some (False, Some (Plain ''Protocol error: invalid multibulk length''), q)
             | Some ll \<Rightarrow>
                 if 1024 * 1024 < ll
                 then Some (False, Some (Plain ''Protocol error: invalid multibulk length''), q)
                 else if ll \<le> 0 then Some (True, None, q\<lparr>q_buf := drop (k + 2) (q_buf q)\<rparr>)
                 else Some (bulk_finish (bulk_loop (nat ll) (k + 2) (q\<lparr>q_multibulklen := nat ll\<rparr>))))
      else Some (bulk_finish (bulk_loop (q_multibulklen q) 0 q)))"

section \<open>The loop over the requests in the buffer\<close>

definition set_reqtype :: "query \<Rightarrow> query" where
  "set_reqtype q =
     (if q_reqtype q \<noteq> NO_REQ then q
      else q\<lparr>q_reqtype := (if hd (q_buf q) = CHR ''*'' then REQ_MULTIBULK else REQ_INLINE)\<rparr>)"

definition parse_request :: "query \<Rightarrow> (bool \<times> complaint option \<times> query) option" where
  "parse_request q =
     (if q_reqtype q = REQ_INLINE then Some (processInlineBuffer q)
      else if q_reqtype q = REQ_MULTIBULK then processMultibulkBuffer q
      else None)"

fun complain :: "cid \<Rightarrow> complaint option \<Rightarrow> server \<Rightarrow> server" where
  "complain c None sv = sv"
| "complain c (Some (Plain s)) sv = upd_client c (c_close_after_reply_update (\<lambda>_. True)) (addReplyError c s sv)"
| "complain c (Some (Formatted s)) sv =
     upd_client c (c_close_after_reply_update (\<lambda>_. True)) (addReplyErrorFormat c s sv)"

lemma read_bulklen_shrinks:
  assumes "0 < q_multibulklen q" "read_bulklen pos q = r"
  shows "case r of
      Inl e \<Rightarrow> \<not> fst (bulk_finish e) \<and> length (q_buf (snd (snd (bulk_finish e)))) \<le> length (q_buf q) - pos
    | Inr (pos', q') \<Rightarrow> length (q_buf q') - pos' \<le> length (q_buf q) - pos \<and> q_multibulklen q' = q_multibulklen q"
  using assms by (auto simp: read_bulklen_def setProtocolError_def split: if_splits option.splits)

lemma read_argument_shrinks:
  "read_argument pos q = (pos', q') \<Longrightarrow> length (q_buf q') - pos' \<le> length (q_buf q) - pos - 2"
  by (auto simp: read_argument_def Let_def split: if_splits)

lemma bulk_loop_shrinks:
  "bulk_finish (bulk_loop n pos q) = (done, e, q') \<Longrightarrow> q_multibulklen q = n \<Longrightarrow>
     length (q_buf q') \<le> length (q_buf q) - pos \<and> (0 < n \<and> done \<longrightarrow> length (q_buf q') \<le> length (q_buf q) - pos - 2)"
proof (induction n arbitrary: pos q)
  case (Suc n)
  have "0 < q_multibulklen q" using Suc.prems(2) by simp
  note b = read_bulklen_shrinks [OF this refl, of pos]
  show ?case
  proof (cases "read_bulklen pos q")
    case (Inl r)
    then show ?thesis using b Suc.prems by simp
  next
    case (Inr pq)
    obtain pos1 q1 where pq: "pq = (pos1, q1)" by fastforce
    have q1: "length (q_buf q1) - pos1 \<le> length (q_buf q) - pos" "q_multibulklen q1 = Suc n"
      using b Inr pq Suc.prems(2) by simp_all
    show ?thesis
    proof (cases "length (q_buf q1) - pos1 < nat (q_bulklen q1 + 2)")
      case True
      then show ?thesis using Suc.prems Inr pq q1 by auto
    next
      case False
      obtain pos2 q2 where r: "read_argument pos1 q1 = (pos2, q2)" by fastforce
      have "bulk_finish (bulk_loop n pos2 (q2\<lparr>q_bulklen := -1, q_multibulklen := n\<rparr>)) = (done, e, q')"
        using Suc.prems Inr pq False r by simp
      then have "length (q_buf q') \<le> length (q_buf q2) - pos2" using Suc.IH by fastforce
      then have "length (q_buf q') \<le> length (q_buf q) - pos - 2" using read_argument_shrinks [OF r] q1(1) by linarith
      then show ?thesis by linarith
    qed
  qed
qed auto

lemma find_cr_less: "find_cr p = Some k \<Longrightarrow> k < length p"
  using takeWhile_eq_all_conv by (auto simp: find_cr_def cstr_def Let_def split: if_splits)
    (meson le_trans length_takeWhile_le not_less)

lemma strstr_less: "strstr h n = Some k \<Longrightarrow> n \<noteq> [] \<Longrightarrow> k < length h"
proof (induction h arbitrary: k)
  case (Cons x h)
  then show ?case by (auto simp: strstr.simps [of "x # h"] split: if_splits)
qed (simp add: strstr.simps)

lemma parse_request_shrinks:
  assumes "parse_request q = Some (done, e, q')" "q_buf q \<noteq> []"
  shows "length (q_buf q') \<le> length (q_buf q)" "done \<Longrightarrow> length (q_buf q') < length (q_buf q)"
proof -
  have inl: "done \<longrightarrow> length (q_buf q') < length (q_buf q)" "length (q_buf q') \<le> length (q_buf q)"
    if "processInlineBuffer q = (done, e, q')"
    using that assms(2) by (auto simp: processInlineBuffer_def Let_def split: option.splits)
  have mb: "length (q_buf q') \<le> length (q_buf q) \<and> (done \<longrightarrow> length (q_buf q') < length (q_buf q))"
    if m: "processMultibulkBuffer q = Some (done, e, q')"
  proof (cases "q_multibulklen q = 0")
    case False
    then show ?thesis
      using m bulk_loop_shrinks [of "q_multibulklen q" 0 q] assms(2) by (auto simp: processMultibulkBuffer_def)
        (smt (verit) Suc_pred' diff_less le_trans length_greater_0_conv not_less numeral_2_eq_2 zero_less_Suc)
  next
    case True
    show ?thesis
    proof (cases "\<exists>k ll. bulk_finish (bulk_loop (nat ll) (k + 2) (q\<lparr>q_multibulklen := nat ll\<rparr>)) = (done, e, q')")
      case True
      then obtain k ll where "bulk_finish (bulk_loop (nat ll) (k + 2) (q\<lparr>q_multibulklen := nat ll\<rparr>)) = (done, e, q')" by blast
      from bulk_loop_shrinks [OF this] have "length (q_buf q') \<le> length (q_buf q) - (k + 2)" by simp
      moreover have "0 < length (q_buf q)" using assms(2) by simp
      ultimately show ?thesis by linarith
    next
      case False
      then show ?thesis
        using m True assms(2) by (auto simp: processMultibulkBuffer_def split: if_splits option.splits)
    qed
  qed
  show "length (q_buf q') \<le> length (q_buf q)" "done \<Longrightarrow> length (q_buf q') < length (q_buf q)"
    using assms(1) inl mb by (auto simp: parse_request_def split: if_splits)
qed

text \<open>
  \<open>processInputBuffer\<close>.  A complete request is handed to \<open>processCommand\<close>; after QUIT the client is
  not reset.  (A client waiting in a blocking command, which is not modelled, is not served.)
\<close>

function processInputBuffer :: "cid \<Rightarrow> query \<Rightarrow> server \<Rightarrow> (query \<times> server) option" where
  "processInputBuffer c q sv =
     (if q_buf q = [] \<or> c_close_after_reply (sv_client sv c) then Some (q, sv)
      else case parse_request (set_reqtype q) of
        None \<Rightarrow> None
      | Some (done, e, q') \<Rightarrow>
          if \<not> done then Some (q', complain c e sv)
          else if q_argv q' = [] then processInputBuffer c (resetClient q') (complain c e sv)
          else case processCommand c (with_args c (q_argv q') (complain c e sv)) of
            None \<Rightarrow> None
          | Some (executed, sv') \<Rightarrow> processInputBuffer c (if executed then resetClient q' else q') sv')"
  by pat_completeness auto
termination
  by (relation "measure (\<lambda>(c, q, sv). length (q_buf q))")
    (auto simp: set_reqtype_def resetClient_def split: if_splits dest!: parse_request_shrinks(2))

declare processInputBuffer.simps [simp del]

text \<open>
  \<open>readQueryFromClient\<close>: \<open>data\<close> is what \<open>read\<close> returned, at most \<open>read_len\<close> bytes; nothing is the end
  of the connection.  The result \<open>None\<close> in place of the query says that the client was freed.
\<close>

definition read_len :: "query \<Rightarrow> nat" where
  "read_len q =
     (if q_reqtype q = REQ_MULTIBULK \<and> q_multibulklen q \<noteq> 0 \<and> q_bulklen q \<noteq> -1 \<and>
         int REDIS_MBULK_BIG_ARG \<le> q_bulklen q
      then min REDIS_IOBUF_LEN (nat (q_bulklen q + 2) - length (q_buf q))
      else REDIS_IOBUF_LEN)"

definition readQueryFromClient :: "cid \<Rightarrow> string \<Rightarrow> query \<Rightarrow> server \<Rightarrow> (query option \<times> server) option" where
  "readQueryFromClient c data q sv =
     (if data = [] \<or> REDIS_MAX_QUERYBUF_LEN < length (q_buf q @ data)
      then map_option (Pair None) (freeClient c sv)
      else map_option (map_prod Some id) (processInputBuffer c (q\<lparr>q_buf := q_buf q @ data\<rparr>) sv))"

section \<open>Requests as the append only file and clients write them\<close>

text \<open>
  A header line and a bulk argument, as \<open>catAppendOnlyGenericCommand\<close> writes them from a buffer of 32
  bytes.  (Slaves and client libraries use the same format.)
\<close>

definition header :: "char \<Rightarrow> nat \<Rightarrow> string" where
  "header x n = x # snd (ll2string 31 (int n)) @ CRLF"

fun cat_arguments :: "string \<Rightarrow> string list \<Rightarrow> string" where
  "cat_arguments dst [] = dst"
| "cat_arguments dst (a # as) = cat_arguments (dst @ header CHR ''$'' (length a) @ a @ CRLF) as"

definition catAppendOnlyGenericCommand :: "string \<Rightarrow> string list \<Rightarrow> string" where
  "catAppendOnlyGenericCommand dst args = cat_arguments (dst @ header CHR ''*'' (length args)) args"

definition bulk_text :: "string \<Rightarrow> string" where
  "bulk_text a = header CHR ''$'' (length a) @ a @ CRLF"

definition request :: "string list \<Rightarrow> string" where
  "request args = catAppendOnlyGenericCommand [] args"

lemma cat_arguments_eq: "cat_arguments dst as = dst @ concat (List.map bulk_text as)"
  by (induction dst as rule: cat_arguments.induct) (simp_all add: bulk_text_def)

lemma cat_eq: "catAppendOnlyGenericCommand dst args = dst @ header CHR ''*'' (length args) @ concat (List.map bulk_text args)"
  by (simp add: catAppendOnlyGenericCommand_def cat_arguments_eq)

lemma request_eq: "request args = header CHR ''*'' (length args) @ concat (List.map bulk_text args)"
  by (simp add: request_def cat_eq)

lemma header_eq: "n \<le> 536870912 \<Longrightarrow> header x n = x # dec_nat n @ CRLF"
  using ll2string_buf [of "int n" 31] by (simp add: header_def dec_int_def)

definition sendable :: "string list \<Rightarrow> bool" where
  "sendable args \<longleftrightarrow> args \<noteq> [] \<and> length args \<le> 1048576 \<and> (\<forall>a\<in>set args. small a)"

section \<open>Reading a header line\<close>

lemma dec_nat_plain: "c \<in> set (dec_nat n) \<Longrightarrow> c \<noteq> CHR 0x0D \<and> c \<noteq> NUL"
  using dec_nat_digits [of c n] by (auto simp: isdigit_def code_def)

lemma length_dec_small: "n \<le> 536870912 \<Longrightarrow> length (dec_nat n) \<le> 9"
  by (rule length_dec_nat) simp_all

text \<open>A line that has not arrived, has half arrived, and has arrived.\<close>

lemma find_cr_line:
  assumes "B @ F = w @ CRLF @ R" "CHR 0x0D \<notin> set w" "NUL \<notin> set w"
  shows "find_cr B = (if length B \<le> length w then None else Some (length w))"
proof (cases "length B \<le> length w")
  case True
  then obtain w' where w: "w = B @ w'"
    using assms(1) by (metis append_eq_append_conv_if append_take_drop_id)
  have tw: "takeWhile (\<lambda>x. x \<noteq> CHR 0x0D) (cstr B) = cstr B"
    using assms(2,3) by (auto simp: w cstr_def takeWhile_eq_all_conv dest: set_takeWhileD)
  show ?thesis using True by (simp add: find_cr_def Let_def tw)
next
  case False
  then obtain B' where B: "B = w @ CHR 0x0D # B'"
  proof -
    have "take (length w) B = w" using assms(1) False by (metis append_eq_append_conv_if less_imp_le not_le take_all_iff)
    moreover have "B ! length w = CHR 0x0D"
      using assms(1) False by (metis CRLF_def append_Cons linorder_not_le nth_append nth_append_length)
    ultimately show thesis using that [of "drop (Suc (length w)) B"] False
      by (metis append_take_drop_id Cons_nth_drop_Suc linorder_not_le)
  qed
  have "takeWhile (\<lambda>x. x \<noteq> CHR 0x0D) (cstr B) = w" "length w < length (cstr B)"
    using assms(2,3) by (auto simp: B cstr_def takeWhile_append takeWhile_eq_all_conv)
  then show ?thesis using False by (simp add: find_cr_def Let_def)
qed

lemma string2ll_dec_nat: "n \<le> 536870912 \<Longrightarrow> string2ll (dec_nat n) = Some (int n)"
  using string2ll_dec [of "int n"] by (simp add: dec_int_def)

section \<open>Incomplete requests\<close>

text \<open>
  \<open>awaiting q args t\<close>: the request \<open>args\<close> has been read up to its last part \<open>t\<close>, which the buffer
  begins with.  \<open>lacking q\<close>: the buffer does not hold enough to go on.
\<close>

definition awaiting :: "query \<Rightarrow> string list \<Rightarrow> string \<Rightarrow> bool" where
  "awaiting q args t \<longleftrightarrow>
     q_reqtype q = REQ_MULTIBULK \<and>
     (q_multibulklen q = 0 \<and> q_argv q = [] \<and> q_bulklen q = -1 \<and> t = request args \<or>
      (\<exists>a rest. q_argv q @ a # rest = args \<and> q_multibulklen q = Suc (length rest) \<and>
         (q_bulklen q = -1 \<and> t = concat (List.map bulk_text (a # rest)) \<or>
          q_bulklen q = int (length a) \<and> t = a @ CRLF @ concat (List.map bulk_text rest))))"

definition lacking :: "query \<Rightarrow> bool" where
  "lacking q \<longleftrightarrow>
     (if q_bulklen q = -1 then length (q_buf q) < 32 else length (q_buf q) < nat (q_bulklen q + 2))"

definition parsed :: "string list \<Rightarrow> string \<Rightarrow> string \<Rightarrow> bool \<times> complaint option \<times> query \<Rightarrow> bool" where
  "parsed args F W r \<longleftrightarrow>
     (case r of (fin, e, q) \<Rightarrow>
        e = None \<and> q_reqtype q = REQ_MULTIBULK \<and>
        (if fin then q_argv q = args \<and> q_buf q @ F = W
         else \<exists>t. awaiting q args t \<and> q_buf q @ F = t @ W \<and> length (q_buf q) < length t \<and> lacking q))"

text \<open>What one call sees of the buffer: not much, or an argument it was sized for.\<close>

definition modest :: "nat \<Rightarrow> query \<Rightarrow> bool" where
  "modest pos q \<longleftrightarrow>
     length (q_buf q) \<le> REDIS_INLINE_MAX_SIZE \<or>
     pos = 0 \<and> int REDIS_MBULK_BIG_ARG \<le> q_bulklen q \<and> int (length (q_buf q)) \<le> q_bulklen q + 2"

lemma length_CRLF [simp]: "length CRLF = 2"
  by (simp add: CRLF_def)

lemma bulk_length: "small a \<Longrightarrow> length (bulk_text a) = length (dec_nat (length a)) + length a + 5"
  by (simp add: bulk_text_def header_eq small_def)

lemma read_argument_text:
  assumes "drop pos (q_buf q) @ F = a @ CRLF @ R" "q_bulklen q = int (length a)" "modest pos q"
    and "length a + 2 \<le> length (q_buf q) - pos" "read_argument pos q = (pos', q')"
  shows "q_argv q' = q_argv q @ [a]" "drop pos' (q_buf q') @ F = R" "length (q_buf q') \<le> REDIS_INLINE_MAX_SIZE"
    "q_reqtype q' = q_reqtype q"
proof -
  have t: "drop pos (q_buf q) = a @ CRLF @ drop (pos + length a + 2) (q_buf q)"
    "drop (pos + length a + 2) (q_buf q) @ F = R"
  proof -
    have "take (length a + 2) (drop pos (q_buf q)) = a @ CRLF"
      using arg_cong [OF assms(1), of "take (length a + 2)"] assms(4) by (simp add: CRLF_def)
    then show t1: "drop pos (q_buf q) = a @ CRLF @ drop (pos + length a + 2) (q_buf q)"
      by (metis (no_types, lifting) add.assoc add.commute append.assoc append_take_drop_id drop_drop)
    show "drop (pos + length a + 2) (q_buf q) @ F = R"
      using assms(1) by (subst (asm) t1) simp
  qed
  have take: "take (length a) (drop pos (q_buf q)) = a" by (subst t(1)) simp
  have "q_argv q' = q_argv q @ [a] \<and> drop pos' (q_buf q') @ F = R \<and> length (q_buf q') \<le> REDIS_INLINE_MAX_SIZE \<and>
      q_reqtype q' = q_reqtype q"
  proof (cases "pos = 0 \<and> int REDIS_MBULK_BIG_ARG \<le> q_bulklen q \<and> int (length (q_buf q)) = q_bulklen q + 2")
    case True
    then show ?thesis
      using assms(2,5) t take by (auto simp: read_argument_def Let_def)
  next
    case False
    moreover have "length (q_buf q) \<le> REDIS_INLINE_MAX_SIZE" using False assms(2-4) by (auto simp: modest_def)
    ultimately show ?thesis
      using assms(2,5) t(2) take by (auto simp: read_argument_def Let_def)
  qed
  then show "q_argv q' = q_argv q @ [a]" "drop pos' (q_buf q') @ F = R" "length (q_buf q') \<le> REDIS_INLINE_MAX_SIZE"
    "q_reqtype q' = q_reqtype q" by simp_all
qed

lemma read_bulklen_text:
  assumes "drop pos (q_buf q) @ F = bulk_text a @ R" "q_bulklen q = -1" "length (q_buf q) \<le> REDIS_INLINE_MAX_SIZE" "small a"
    "pos \<le> length (q_buf q)"
  shows "read_bulklen pos q = Inl (Break None pos q) \<and> length (q_buf q) - pos < 32 \<and> length (q_buf q) - pos < length (bulk_text a) \<or>
    (\<exists>pos' q'. read_bulklen pos q = Inr (pos', q') \<and> drop pos' (q_buf q') @ F = a @ CRLF @ R \<and> pos' \<le> length (q_buf q') \<and>
       length (q_buf q') \<le> REDIS_INLINE_MAX_SIZE \<and> q_bulklen q' = int (length a) \<and> q_argv q' = q_argv q \<and>
       q_multibulklen q' = q_multibulklen q \<and> q_reqtype q' = q_reqtype q)"
proof -
  let ?w = "CHR ''$'' # dec_nat (length a)"
  let ?n = "length (q_buf q) - pos"
  have len: "length a \<le> 536870912" using assms(4) by (simp add: small_def)
  have h: "drop pos (q_buf q) @ F = ?w @ CRLF @ a @ CRLF @ R"
    using assms(1) header_eq [OF len] by (simp add: bulk_text_def)
  have w: "CHR 0x0D \<notin> set ?w" "NUL \<notin> set ?w" "length ?w \<le> 10"
    using dec_nat_plain [of _ "length a"] length_dec_small [OF len] by auto
  have cr: "find_cr (drop pos (q_buf q)) = (if ?n \<le> length ?w then None else Some (length ?w))"
    using find_cr_line [OF h w(1,2)] by simp
  have bl: "length (bulk_text a) = length ?w + length a + 4" using bulk_length [OF assms(4)] by simp
  consider (none) "?n \<le> length ?w" | (half) "?n = length ?w + 1" | (full) "length ?w + 2 \<le> ?n" by linarith
  then show ?thesis
  proof cases
    case none
    then have "read_bulklen pos q = Inl (Break None pos q)" using cr assms(2,3) by (simp add: read_bulklen_def)
    then show ?thesis using none w(3) bl by auto
  next
    case half
    then have "int (length (q_buf q)) - 2 < int (pos + length ?w)" by linarith
    then have "read_bulklen pos q = Inl (Break None pos q)" using half cr assms(2) by (simp add: read_bulklen_def)
    then show ?thesis using half w(3) bl by auto
  next
    case full
    have t: "drop pos (q_buf q) = ?w @ CRLF @ drop (pos + length ?w + 2) (q_buf q)"
    proof -
      have "take (length ?w + 2) (drop pos (q_buf q)) = ?w @ CRLF"
        using arg_cong [OF h, of "take (length ?w + 2)"] full by (simp add: CRLF_def)
      then show ?thesis by (metis (no_types, lifting) add.assoc add.commute append.assoc append_take_drop_id drop_drop)
    qed
    have rest: "drop (pos + length ?w + 2) (q_buf q) @ F = a @ CRLF @ R"
      using h by (subst (asm) t) simp
    have "pos < length (q_buf q)" using full by simp
    then have d: "q_buf q ! pos = CHR ''$''"
      using arg_cong [OF t, of hd] by (simp add: hd_drop_conv_nth)
    have ds: "take (length ?w - 1) (drop (pos + 1) (q_buf q)) = dec_nat (length a)"
    proof -
      have "drop (pos + 1) (q_buf q) = tl (drop pos (q_buf q))" by (simp add: drop_Suc tl_drop)
      then show ?thesis using t by simp
    qed
    have s: "string2ll (dec_nat (length a)) = Some (int (length a))" using string2ll_dec_nat [OF len] .
    have e: "read_bulklen pos q =
      (if REDIS_MBULK_BIG_ARG \<le> length a
       then Inr (0, q\<lparr>q_buf := drop (pos + length ?w + 2) (q_buf q), q_bulklen := int (length a)\<rparr>)
       else Inr (pos + length ?w + 2, q\<lparr>q_bulklen := int (length a)\<rparr>))"
      using assms(2) cr full d ds s len by (simp add: read_bulklen_def)
    show ?thesis using e rest full assms(3) by (auto split: if_splits)
  qed
qed

lemma awaiting_simps:
  assumes "q_reqtype q = REQ_MULTIBULK"
  shows "q_multibulklen q = 0 \<Longrightarrow> q_argv q = [] \<Longrightarrow> q_bulklen q = -1 \<Longrightarrow> awaiting q args (request args)"
    "q_argv q @ a # rest = args \<Longrightarrow> q_multibulklen q = Suc (length rest) \<Longrightarrow> q_bulklen q = -1 \<Longrightarrow>
       awaiting q args (concat (List.map bulk_text (a # rest)))"
    "q_argv q @ a # rest = args \<Longrightarrow> q_multibulklen q = Suc (length rest) \<Longrightarrow> q_bulklen q = int (length a) \<Longrightarrow>
       awaiting q args (a @ CRLF @ concat (List.map bulk_text rest))"
  using assms by (auto simp: awaiting_def)

lemma awaiting_cases:
  assumes "awaiting q args t"
  obtains (head) "q_multibulklen q = 0" "q_argv q = []" "q_bulklen q = -1" "t = request args"
    | (len) a rest where "q_argv q @ a # rest = args" "q_multibulklen q = Suc (length rest)" "q_bulklen q = -1"
      "t = concat (List.map bulk_text (a # rest))"
    | (arg) a rest where "q_argv q @ a # rest = args" "q_multibulklen q = Suc (length rest)" "q_bulklen q = int (length a)"
      "t = a @ CRLF @ concat (List.map bulk_text rest)"
  using assms unfolding awaiting_def by (elim conjE disjE exE) simp_all

lemma loop_argument:
  assumes later: "\<And>pos q. drop pos (q_buf q) @ F = concat (List.map bulk_text rest) @ W \<Longrightarrow> pos \<le> length (q_buf q) \<Longrightarrow>
      length (q_buf q) \<le> REDIS_INLINE_MAX_SIZE \<Longrightarrow> q_bulklen q = -1 \<Longrightarrow> q_multibulklen q = length rest \<Longrightarrow>
      q_reqtype q = REQ_MULTIBULK \<Longrightarrow> parsed (q_argv q @ rest) F W (bulk_finish (bulk_loop (length rest) pos q))"
    and body: "drop pos (q_buf q) @ F = a @ CRLF @ concat (List.map bulk_text rest) @ W"
    and q: "q_bulklen q = int (length a)" "q_multibulklen q = Suc (length rest)" "q_reqtype q = REQ_MULTIBULK"
    and m: "modest pos q" "pos \<le> length (q_buf q)"
  shows "parsed (q_argv q @ a # rest) F W (bulk_finish (
    if length (q_buf q) - pos < nat (q_bulklen q + 2) then Break None pos q
    else let (pos, q) = read_argument pos q
         in bulk_loop (length rest) pos (q\<lparr>q_bulklen := -1, q_multibulklen := length rest\<rparr>)))"
proof (cases "length (q_buf q) - pos < nat (q_bulklen q + 2)")
  case True
  let ?t = "a @ CRLF @ concat (List.map bulk_text rest)"
  have "awaiting (q\<lparr>q_buf := drop pos (q_buf q)\<rparr>) (q_argv q @ a # rest) ?t"
    by (rule awaiting_simps(3)) (simp_all add: q)
  moreover have "lacking (q\<lparr>q_buf := drop pos (q_buf q)\<rparr>)" using True q(1) by (simp add: lacking_def)
  moreover have "length (drop pos (q_buf q)) < length ?t" using True q(1) by simp
  ultimately show ?thesis using True body q by (auto simp: parsed_def)
next
  case False
  obtain pos2 q2 where r: "read_argument pos q = (pos2, q2)" by fastforce
  have len: "length a + 2 \<le> length (q_buf q) - pos" using False q(1) by linarith
  note a = read_argument_text [OF body q(1) m(1) len r]
  have "pos2 \<le> length (q_buf q2)"
    using r len m(2) q(1) by (auto simp: read_argument_def Let_def split: if_splits)
  with later [of pos2 "q2\<lparr>q_bulklen := -1, q_multibulklen := length rest\<rparr>"] show ?thesis
    using a False r q(3) by simp
qed

lemma loop_arguments:
  assumes "\<forall>a\<in>set rest. small a"
  shows "drop pos (q_buf q) @ F = concat (List.map bulk_text rest) @ W \<Longrightarrow> pos \<le> length (q_buf q) \<Longrightarrow>
      length (q_buf q) \<le> REDIS_INLINE_MAX_SIZE \<Longrightarrow> q_bulklen q = -1 \<Longrightarrow> q_multibulklen q = length rest \<Longrightarrow>
      q_reqtype q = REQ_MULTIBULK \<Longrightarrow> parsed (q_argv q @ rest) F W (bulk_finish (bulk_loop (length rest) pos q))"
  using assms
proof (induction rest arbitrary: pos q)
  case Nil
  then show ?case by (simp add: parsed_def)
next
  case (Cons a rest)
  let ?R = "concat (List.map bulk_text rest) @ W"
  have body: "drop pos (q_buf q) @ F = bulk_text a @ ?R" using Cons.prems(1) by simp
  have sm: "small a" "\<forall>a\<in>set rest. small a" using Cons.prems(7) by simp_all
  consider (wait) "read_bulklen pos q = Inl (Break None pos q)" "length (q_buf q) - pos < 32" "length (q_buf q) - pos < length (bulk_text a)"
    | (go) pos' q' where "read_bulklen pos q = Inr (pos', q')" "drop pos' (q_buf q') @ F = a @ CRLF @ ?R"
      "pos' \<le> length (q_buf q')" "length (q_buf q') \<le> REDIS_INLINE_MAX_SIZE" "q_bulklen q' = int (length a)"
      "q_argv q' = q_argv q" "q_multibulklen q' = q_multibulklen q" "q_reqtype q' = q_reqtype q"
    using read_bulklen_text [OF body Cons.prems(4,3) sm(1) Cons.prems(2)] by blast
  then show ?case
  proof cases
    case wait
    let ?t = "concat (List.map bulk_text (a # rest))"
    have "awaiting (q\<lparr>q_buf := drop pos (q_buf q)\<rparr>) (q_argv q @ a # rest) ?t"
      by (rule awaiting_simps(2)) (simp_all add: Cons.prems(4-6))
    moreover have "lacking (q\<lparr>q_buf := drop pos (q_buf q)\<rparr>)" using wait(2) Cons.prems(4) by (simp add: lacking_def)
    moreover have "length (drop pos (q_buf q)) < length ?t" using wait(3) by simp
    ultimately show ?thesis using wait Cons.prems by (auto simp: parsed_def)
  next
    case go
    have "modest pos' q'" using go(4) by (simp add: modest_def)
    moreover have "q_multibulklen q' = Suc (length rest)" "q_reqtype q' = REQ_MULTIBULK" using go Cons.prems(5,6) by simp_all
    ultimately have "parsed (q_argv q' @ a # rest) F W (bulk_finish (
        if length (q_buf q') - pos' < nat (q_bulklen q' + 2) then Break None pos' q'
        else let (pos, q) = read_argument pos' q'
             in bulk_loop (length rest) pos (q\<lparr>q_bulklen := -1, q_multibulklen := length rest\<rparr>)))"
      using loop_argument [of F rest W pos' q' a] Cons.IH [OF _ _ _ _ _ _ sm(2)] go by simp
    then show ?thesis using go(1,6) by simp
  qed
qed

text \<open>One call of the parser on a request that arrives in pieces.\<close>

lemma multibulk_text:
  assumes "awaiting q args t" "q_buf q @ F = t @ W" "modest 0 q" "sendable args"
  obtains r where "processMultibulkBuffer q = Some r" "parsed args F W r"
proof -
  have sm: "\<forall>a\<in>set args. small a" and ne: "args \<noteq> []" and n: "length args \<le> 1048576"
    using assms(4) by (simp_all add: sendable_def)
  have mb: "q_reqtype q = REQ_MULTIBULK" using assms(1) by (simp add: awaiting_def)
  from assms(1) show thesis
  proof (cases rule: awaiting_cases)
    case (len a rest)
    have "\<forall>a\<in>set (a # rest). small a" using sm len(1) by auto
    moreover have "length (q_buf q) \<le> REDIS_INLINE_MAX_SIZE" using assms(3) len(3) by (auto simp: modest_def)
    ultimately have "parsed args F W (bulk_finish (bulk_loop (length (a # rest)) 0 q))"
      using loop_arguments [of "a # rest" 0 q F W] assms(2) len mb by simp
    then show thesis using that len(2) by (simp add: processMultibulkBuffer_def)
  next
    case (arg a rest)
    have s: "\<forall>a\<in>set rest. small a" using sm arg(1) by auto
    have "read_bulklen 0 q = Inr (0, q)" using arg(3) by (simp add: read_bulklen_def)
    then have e: "bulk_loop (Suc (length rest)) 0 q = (if length (q_buf q) - 0 < nat (q_bulklen q + 2) then Break None 0 q
        else let (pos, q) = read_argument 0 q
             in bulk_loop (length rest) pos (q\<lparr>q_bulklen := -1, q_multibulklen := length rest\<rparr>))" by simp
    have b: "drop 0 (q_buf q) @ F = a @ CRLF @ concat (List.map bulk_text rest) @ W" using assms(2) arg(4) by simp
    have "parsed (q_argv q @ a # rest) F W (bulk_finish (bulk_loop (Suc (length rest)) 0 q))"
      unfolding e by (rule loop_argument [OF loop_arguments [OF s] b arg(3,2) mb assms(3) le0])
    then have "parsed args F W (bulk_finish (bulk_loop (Suc (length rest)) 0 q))" by (simp only: arg(1))
    then show thesis using that arg(2) by (simp add: processMultibulkBuffer_def)
  next
    case head
    let ?w = "CHR ''*'' # dec_nat (length args)"
    have small: "length args \<le> 536870912" using n by simp
    have h: "q_buf q @ F = ?w @ CRLF @ concat (List.map bulk_text args) @ W"
      using assms(2) head(4) by (simp add: request_eq header_eq [OF small])
    have w: "CHR 0x0D \<notin> set ?w" "NUL \<notin> set ?w" "length ?w \<le> 10"
      using dec_nat_plain [of _ "length args"] length_dec_small [OF small] by auto
    have cr: "find_cr (q_buf q) = (if length (q_buf q) \<le> length ?w then None else Some (length ?w))"
      using find_cr_line [OF h w(1,2)] .
    have le: "length (q_buf q) \<le> REDIS_INLINE_MAX_SIZE" using assms(3) head(3) by (auto simp: modest_def)
    have wait: "parsed args F W (False, None, q)" if "length (q_buf q) < length ?w + 2"
    proof -
      have "length (q_buf q) < length t" using that head(4) by (simp add: request_eq header_eq [OF small])
      moreover have "lacking q" using that w(3) head(3) by (simp add: lacking_def)
      ultimately show ?thesis using assms(1,2) mb by (auto simp: parsed_def)
    qed
    consider (none) "length (q_buf q) \<le> length ?w" | (half) "length (q_buf q) = length ?w + 1" | (full) "length ?w + 2 \<le> length (q_buf q)"
      by linarith
    then show thesis
    proof cases
      case none
      then have "processMultibulkBuffer q = Some (False, None, q)" using cr le head by (simp add: processMultibulkBuffer_def)
      then show thesis using that wait none by simp
    next
      case half
      then have "processMultibulkBuffer q = Some (False, None, q)" using cr head by (simp add: processMultibulkBuffer_def)
      then show thesis using that wait half by simp
    next
      case full
      have t: "q_buf q = ?w @ CRLF @ drop (length ?w + 2) (q_buf q)"
      proof -
        have "take (length ?w + 2) (q_buf q) = ?w @ CRLF"
          using arg_cong [OF h, of "take (length ?w + 2)"] full by (simp add: CRLF_def)
        then show ?thesis by (metis append.assoc append_take_drop_id)
      qed
      have rest: "drop (length ?w + 2) (q_buf q) @ F = concat (List.map bulk_text args) @ W"
        using h by (subst (asm) t) simp
      have d: "q_buf q ! 0 = CHR ''*''" by (subst t) simp
      have ds: "take (length ?w - 1) (drop 1 (q_buf q)) = dec_nat (length args)" by (subst t) simp
      have s: "string2ll (dec_nat (length args)) = Some (int (length args))" using string2ll_dec_nat [OF small] .
      have e: "processMultibulkBuffer q = Some (bulk_finish (bulk_loop (length args) (length ?w + 2) (q\<lparr>q_multibulklen := length args\<rparr>)))"
        using head cr full d ds s ne n by (simp add: processMultibulkBuffer_def)
      moreover have "parsed args F W (bulk_finish (bulk_loop (length args) (length ?w + 2) (q\<lparr>q_multibulklen := length args\<rparr>)))"
        using loop_arguments [OF sm, of "length ?w + 2" "q\<lparr>q_multibulklen := length args\<rparr>" F W] rest full le head mb by simp
      ultimately show thesis using that by blast
    qed
  qed
qed

section \<open>Whole streams of requests\<close>

text \<open>
  What a client asks for: one request after the other, until it is to be closed.  \<open>deliver\<close> is the
  event loop on the bytes \<open>t\<close>, where before the \<open>i\<close>-th read \<open>ns ! i + 1\<close> bytes have arrived.
\<close>

fun serve :: "cid \<Rightarrow> string list list \<Rightarrow> server \<Rightarrow> server option" where
  "serve c [] sv = Some sv"
| "serve c (args # cmds) sv =
     (if c_close_after_reply (sv_client sv c) then Some sv
      else case processCommand c (with_args c args sv) of
        None \<Rightarrow> None
      | Some (_, sv') \<Rightarrow> serve c cmds sv')"

fun deliver :: "cid \<Rightarrow> nat list \<Rightarrow> string \<Rightarrow> query \<Rightarrow> server \<Rightarrow> (query option \<times> server) option" where
  "deliver c [] t q sv = Some (Some q, sv)"
| "deliver c (n # ns) t q sv =
     (if t = [] \<or> c_close_after_reply (sv_client sv c) then Some (Some q, sv)
      else let k = min (n + 1) (read_len q)
           in case readQueryFromClient c (take k t) q sv of
                None \<Rightarrow> None
              | Some (None, sv') \<Rightarrow> Some (None, sv')
              | Some (Some q', sv') \<Rightarrow> deliver c ns (drop k t) q' sv')"

definition stream :: "string list list \<Rightarrow> string" where
  "stream cmds = concat (List.map request cmds)"

lemma stream_simps [simp]: "stream [] = []" "stream (args # cmds) = request args @ stream cmds"
  by (simp_all add: stream_def)

lemma hd_request: "request args = CHR ''*'' # tl (request args)"
  by (simp add: request_eq header_def)

lemma stream_Nil [simp]: "stream cmds = [] \<longleftrightarrow> cmds = []"
  using hd_request by (cases cmds) (simp_all, metis list.distinct(1))

lemma serve_closing: "c_close_after_reply (sv_client sv c) \<Longrightarrow> serve c cmds sv = Some sv"
  by (cases cmds) simp_all

lemma serve_append:
  "serve c (xs @ ys) sv = (case serve c xs sv of None \<Rightarrow> None | Some s \<Rightarrow> serve c ys s)"
  by (induction xs arbitrary: sv) (auto simp: serve_closing split: option.split)

lemma quit_closes:
  assumes "processCommand c sv = Some (False, sv')"
  shows "c_close_after_reply (sv_client sv' c)"
proof (cases "List.map tolower (cstr (argv c sv 0)) = ''quit''")
  case True
  then show ?thesis using assms by (auto simp: processCommand_def upd_client_def)
next
  case False
  have d: "dispatch cmd c s \<noteq> Some (False, sv')" for cmd s
    by (auto simp: dispatch_def Let_def reject_def)
  show ?thesis
    using assms False d by (auto simp: processCommand_def reject_def Let_def split: option.splits if_splits)
qed

definition fresh :: "query \<Rightarrow> bool" where
  "fresh q \<longleftrightarrow> q = initial_query\<lparr>q_buf := q_buf q\<rparr>"

lemma fresh_proj:
  assumes "fresh q"
  shows "q_reqtype q = NO_REQ" "q_multibulklen q = 0" "q_bulklen q = -1" "q_argv q = []"
  using arg_cong [OF assms [unfolded fresh_def], of q_reqtype] arg_cong [OF assms [unfolded fresh_def], of q_multibulklen]
    arg_cong [OF assms [unfolded fresh_def], of q_bulklen] arg_cong [OF assms [unfolded fresh_def], of q_argv]
  by (simp_all add: initial_query_def)

lemma fresh_reset [simp]: "fresh (resetClient q)" "q_buf (resetClient q) = q_buf q"
  by (simp_all add: fresh_def resetClient_def initial_query_def)

text \<open>The buffer and the bytes \<open>F\<close> still to come hold the requests \<open>cmds\<close>.\<close>

definition holds :: "query \<Rightarrow> string list list \<Rightarrow> string \<Rightarrow> bool" where
  "holds q cmds F \<longleftrightarrow>
     fresh q \<and> q_buf q @ F = stream cmds \<or>
     (\<exists>args cmds' t. cmds = args # cmds' \<and> awaiting q args t \<and> q_buf q @ F = t @ stream cmds')"

definition stalled :: "query \<Rightarrow> string list list \<Rightarrow> string \<Rightarrow> bool" where
  "stalled q cmds F \<longleftrightarrow>
     fresh q \<and> q_buf q = [] \<and> F = stream cmds \<or>
     (\<exists>args cmds' t. cmds = args # cmds' \<and> awaiting q args t \<and> q_buf q @ F = t @ stream cmds' \<and>
        length (q_buf q) < length t \<and> lacking q)"

lemma awaiting_nonempty: "awaiting q args t \<Longrightarrow> t \<noteq> []"
  by (erule awaiting_cases) (auto simp: request_eq header_def bulk_text_def CRLF_def)

lemma awaiting_bulklen: "awaiting q args t \<Longrightarrow> q_bulklen q = -1 \<or> 0 \<le> q_bulklen q \<and> nat (q_bulklen q) + 2 \<le> length t"
  by (erule awaiting_cases) auto

lemma holds_stalled:
  assumes "holds q cmds F" "q_buf q = []"
  shows "stalled q cmds F"
proof -
  have "lacking q \<and> length (q_buf q) < length t" if "awaiting q args t" for args t
    using awaiting_bulklen [OF that] awaiting_nonempty [OF that] assms(2) by (auto simp: lacking_def)
  then show ?thesis using assms unfolding holds_def stalled_def by fastforce
qed

lemma stalled_done: "stalled q cmds [] \<Longrightarrow> cmds = []"
  unfolding stalled_def by (metis append_Nil2 length_append not_add_less1 stream_Nil)

lemma hd_stream:
  assumes "B @ F = stream cmds" "B \<noteq> []"
  obtains args cmds' where "cmds = args # cmds'" "hd B = CHR ''*''"
proof -
  obtain args cmds' where c: "cmds = args # cmds'" using assms by (cases cmds) auto
  then have "hd (B @ F) = CHR ''*''" using assms(1) hd_request [of args] by (metis append_Cons list.sel(1) stream_simps(2))
  with c assms(2) show thesis using that by simp
qed

text \<open>The parser's result on a buffer that is not empty.\<close>

lemma holds_parse:
  assumes "holds q cmds F" "q_buf q \<noteq> []" "modest 0 q" "\<forall>args\<in>set cmds. sendable args"
  obtains args cmds' fin q' where "cmds = args # cmds'" "parse_request (set_reqtype q) = Some (fin, None, q')"
    "fin \<Longrightarrow> q_argv q' = args \<and> q_buf q' @ F = stream cmds' \<and> length (q_buf q') \<le> REDIS_INLINE_MAX_SIZE"
    "\<not> fin \<Longrightarrow> stalled q' cmds F"
proof -
  obtain args cmds' t where w: "cmds = args # cmds'" "awaiting (set_reqtype q) args t" "q_buf q @ F = t @ stream cmds'"
    "q_bulklen (set_reqtype q) = q_bulklen q"
  proof -
    consider "fresh q" "q_buf q @ F = stream cmds"
      | args cmds' t where "cmds = args # cmds'" "awaiting q args t" "q_buf q @ F = t @ stream cmds'"
      using assms(1) by (auto simp: holds_def)
    then show thesis
    proof cases
      case 1
      obtain args cmds' where c: "cmds = args # cmds'" "hd (q_buf q) = CHR ''*''" by (rule hd_stream [OF 1(2) assms(2)])
      have "awaiting (set_reqtype q) args (request args)"
        using fresh_proj [OF 1(1)] c(2) by (intro awaiting_simps) (simp_all add: set_reqtype_def)
      then show thesis using that c 1(2) by (simp add: set_reqtype_def)
    next
      case 2
      have "set_reqtype q = q" using 2(2) by (simp add: awaiting_def set_reqtype_def)
      then show thesis using that 2 by simp
    qed
  qed
  have b: "q_buf (set_reqtype q) = q_buf q" by (simp add: set_reqtype_def)
  have m: "modest 0 (set_reqtype q)" using assms(3) b w(4) by (simp add: modest_def)
  have s: "sendable args" using assms(4) w(1) by simp
  obtain r where r: "processMultibulkBuffer (set_reqtype q) = Some r" "parsed args F (stream cmds') r"
    using multibulk_text [OF w(2) _ m s, of F "stream cmds'"] w(3) b by auto
  obtain fin e q' where rr: "r = (fin, e, q')" by (metis prod_cases3)
  have e: "e = None" using r(2) rr by (simp add: parsed_def)
  have p: "parse_request (set_reqtype q) = Some (fin, None, q')"
    using r(1) rr e w(2) by (simp add: parse_request_def awaiting_def)
  show thesis
  proof (rule that [OF w(1) p])
    assume fin
    then have f: "q_argv q' = args" "q_buf q' @ F = stream cmds'" using r(2) rr by (simp_all add: parsed_def)
    have "q_buf q = t @ q_buf q'" using w(3) f(2) by (metis append_assoc append_same_eq)
    then have "length (q_buf q) = length t + length (q_buf q')" by simp
    moreover have "int REDIS_MBULK_BIG_ARG \<le> q_bulklen q \<Longrightarrow> q_bulklen q + 2 \<le> int (length t)"
      using awaiting_bulklen [OF w(2)] w(4) by auto
    ultimately have "length (q_buf q') \<le> REDIS_INLINE_MAX_SIZE"
      using assms(3) unfolding modest_def by linarith
    with f show "q_argv q' = args \<and> q_buf q' @ F = stream cmds' \<and> length (q_buf q') \<le> REDIS_INLINE_MAX_SIZE" by simp
  next
    assume "\<not> fin"
    then show "stalled q' cmds F" using r(2) rr w(1) by (auto simp: parsed_def stalled_def)
  qed
qed

lemma processInputBuffer_stream:
  assumes "holds q cmds F" "modest 0 q" "\<forall>args\<in>set cmds. sendable args"
  shows "\<exists>cmds1 cmds2. cmds = cmds1 @ cmds2 \<and>
    (case serve c cmds1 sv of
       None \<Rightarrow> processInputBuffer c q sv = None
     | Some sv' \<Rightarrow> \<exists>q'. processInputBuffer c q sv = Some (q', sv') \<and>
         (c_close_after_reply (sv_client sv' c) \<or> stalled q' cmds2 F))"
  using assms
proof (induction cmds arbitrary: q sv)
  case Nil
  have "q_buf q = []" using Nil.prems(1) by (auto simp: holds_def)
  then show ?case using holds_stalled [OF Nil.prems(1)] by (simp add: processInputBuffer.simps)
next
  case (Cons args0 cmds0)
  show ?case
  proof (cases "q_buf q = [] \<or> c_close_after_reply (sv_client sv c)")
    case True
    then have "processInputBuffer c q sv = Some (q, sv)" by (simp add: processInputBuffer.simps)
    then show ?thesis using True holds_stalled [OF Cons.prems(1)] by (intro exI [of _ "[]"] exI [of _ "args0 # cmds0"]) auto
  next
    case False
    then have ne: "q_buf q \<noteq> []" by simp
    obtain fin q' where p: "parse_request (set_reqtype q) = Some (fin, None, q')"
      "fin \<Longrightarrow> q_argv q' = args0 \<and> q_buf q' @ F = stream cmds0 \<and> length (q_buf q') \<le> REDIS_INLINE_MAX_SIZE"
      "\<not> fin \<Longrightarrow> stalled q' (args0 # cmds0) F"
      by (rule holds_parse [OF Cons.prems(1) ne Cons.prems(2,3)]) auto
    show ?thesis
    proof (cases fin)
      case False
      then have "processInputBuffer c q sv = Some (q', sv)"
        using p(1) \<open>\<not> (q_buf q = [] \<or> c_close_after_reply (sv_client sv c))\<close> by (simp add: processInputBuffer.simps [of c q sv])
      then show ?thesis using p(3) False by (intro exI [of _ "[]"] exI [of _ "args0 # cmds0"]) auto
    next
      case True
      then have a: "q_argv q' = args0" "q_buf q' @ F = stream cmds0" "length (q_buf q') \<le> REDIS_INLINE_MAX_SIZE"
        using p(2) by simp_all
      have "args0 \<noteq> []" using Cons.prems(3) by (simp add: sendable_def)
      then have e: "processInputBuffer c q sv = (case processCommand c (with_args c args0 sv) of
          None \<Rightarrow> None | Some (executed, sv') \<Rightarrow> processInputBuffer c (if executed then resetClient q' else q') sv')"
        using p(1) a(1) True \<open>\<not> (q_buf q = [] \<or> c_close_after_reply (sv_client sv c))\<close>
        by (simp add: processInputBuffer.simps [of c q sv])
      show ?thesis
      proof (cases "processCommand c (with_args c args0 sv)")
        case None
        then show ?thesis using e False by (intro exI [of _ "[args0]"] exI [of _ cmds0]) simp
      next
        case (Some r)
        obtain executed s where r: "r = (executed, s)" by fastforce
        have sv: "serve c (args0 # cs) sv = serve c cs s" for cs using Some r False by simp
        show ?thesis
        proof (cases executed)
          case False
          then have "c_close_after_reply (sv_client s c)" using quit_closes Some by (simp add: r)
          then show ?thesis using e Some r sv [of "[]"] False
            by (intro exI [of _ "[args0]"] exI [of _ cmds0]) (simp add: processInputBuffer.simps [of c q' s])
        next
          case True
          have h: "holds (resetClient q') cmds0 F" "modest 0 (resetClient q')"
            using a(2,3) by (simp_all add: holds_def modest_def)
          have sendable0: "\<forall>args\<in>set cmds0. sendable args" using Cons.prems(3) by simp
          obtain cmds1 cmds2 where ih: "cmds0 = cmds1 @ cmds2"
            "case serve c cmds1 s of
               None \<Rightarrow> processInputBuffer c (resetClient q') s = None
             | Some sv' \<Rightarrow> \<exists>q2. processInputBuffer c (resetClient q') s = Some (q2, sv') \<and>
                 (c_close_after_reply (sv_client sv' c) \<or> stalled q2 cmds2 F)"
            using Cons.IH [OF h sendable0, of s] by blast
          show ?thesis
            by (rule exI [of _ "args0 # cmds1"], rule exI [of _ cmds2])
              (use ih e Some r True sv [of cmds1] in \<open>simp del: serve.simps split: option.splits\<close>)
        qed
      qed
    qed
  qed
qed

text \<open>How much one read may return, and what the buffer is then.\<close>

lemma stalled_read:
  assumes "stalled q cmds F" "\<forall>args\<in>set cmds. sendable args" "F \<noteq> []" "k = min (n + 1) (read_len q)"
  defines "q1 \<equiv> q\<lparr>q_buf := q_buf q @ take k F\<rparr>"
  shows "0 < k" "holds q1 cmds (drop k F)" "modest 0 q1" "length (q_buf q @ take k F) \<le> REDIS_MAX_QUERYBUF_LEN"
proof -
  have c: "REDIS_IOBUF_LEN = 16384" "REDIS_INLINE_MAX_SIZE = 65536" "REDIS_MBULK_BIG_ARG = 32768"
    "REDIS_MAX_QUERYBUF_LEN = 1073741824"
    by (simp_all add: REDIS_IOBUF_LEN_def REDIS_INLINE_MAX_SIZE_def REDIS_MBULK_BIG_ARG_def REDIS_MAX_QUERYBUF_LEN_def)
  have L: "length (q_buf q1) \<le> length (q_buf q) + k" "length (q_buf q @ take k F) = length (q_buf q1)"
    "q_bulklen q1 = q_bulklen q" by (simp_all add: q1_def)
  have "0 < k \<and> holds q1 cmds (drop k F) \<and> modest 0 q1 \<and> length (q_buf q @ take k F) \<le> REDIS_MAX_QUERYBUF_LEN"
  proof (cases "fresh q \<and> q_buf q = [] \<and> F = stream cmds")
    case True
    then have f: "fresh q1" by (cases q) (simp add: q1_def fresh_def initial_query_def)
    have "read_len q = 16384" using fresh_proj [of q] True by (simp add: read_len_def c)
    then have "0 < k" "k \<le> 16384" using assms(4) by simp_all
    moreover from this have "min (length F) k \<le> 16384" by simp
    ultimately show ?thesis using f True by (simp add: q1_def holds_def modest_def c)
  next
    case False
    then obtain args cmds' t where t: "cmds = args # cmds'" "awaiting q args t" "q_buf q @ F = t @ stream cmds'"
      "length (q_buf q) < length t" "lacking q"
      using assms(1) by (auto simp: stalled_def)
    have "awaiting q1 args t" using t(2) by (simp add: awaiting_def q1_def)
    then have h: "holds q1 cmds (drop k F)" using t(1,3) by (auto simp: holds_def q1_def)
    have sm: "\<forall>a\<in>set args. small a" using assms(2) t(1) by (simp add: sendable_def)
    show ?thesis
    proof (cases "q_bulklen q = -1")
      case True
      have "read_len q = 16384" using True by (simp add: read_len_def c)
      then have "0 < k" "k \<le> 16384" using assms(4) by simp_all
      moreover have "length (q_buf q) < 32" using t(5) True by (simp add: lacking_def)
      ultimately show ?thesis using h L unfolding modest_def c by simp
    next
      case False
      from t(2) obtain a rest where a: "q_argv q @ a # rest = args" "q_multibulklen q = Suc (length rest)" "q_bulklen q = int (length a)"
        using False by (cases rule: awaiting_cases) auto
      have len: "length (q_buf q) < length a + 2" "length a \<le> 536870912"
        using t(5) False a sm by (auto simp: lacking_def small_def)
      have mb: "q_reqtype q = REQ_MULTIBULK" using t(2) by (simp add: awaiting_def)
      show ?thesis
      proof (cases "REDIS_MBULK_BIG_ARG \<le> length a")
        case True
        then have "read_len q = min 16384 (length a + 2 - length (q_buf q))"
          using mb a(2,3) by (simp add: read_len_def nat_add_distrib c)
        then have "0 < k" "k \<le> length a + 2 - length (q_buf q)" using assms(4) len(1) by simp_all
        moreover from this have "length (q_buf q1) \<le> length a + 2" using L(1) len(1) by linarith
        ultimately show ?thesis using h L len(2) True a(3) unfolding modest_def c by simp
      next
        case False
        then have "read_len q = 16384" using a(3) by (simp add: read_len_def c)
        then have "0 < k" "k \<le> 16384" using assms(4) by simp_all
        then show ?thesis using h L len False unfolding modest_def c by simp
      qed
    qed
  qed
  then show "0 < k" "holds q1 cmds (drop k F)" "modest 0 q1" "length (q_buf q @ take k F) \<le> REDIS_MAX_QUERYBUF_LEN"
    by simp_all
qed

lemma deliver_stream:
  assumes "stalled q cmds t" "\<forall>args\<in>set cmds. sendable args" "length t \<le> length ns"
  shows "map_option snd (deliver c ns t q sv) = serve c cmds sv"
  using assms
proof (induction ns arbitrary: q t sv cmds)
  case Nil
  then have "cmds = []" using stalled_done by simp
  then show ?case by simp
next
  case (Cons n ns)
  show ?case
  proof (cases "t = [] \<or> c_close_after_reply (sv_client sv c)")
    case True
    have "cmds = []" if "t = []" using Cons.prems(1) stalled_done that by blast
    then have "serve c cmds sv = Some sv" using True serve_closing by auto
    then show ?thesis using True by auto
  next
    case False
    define k where "k = min (n + 1) (read_len q)"
    define q1 where "q1 = q\<lparr>q_buf := q_buf q @ take k t\<rparr>"
    have ne: "t \<noteq> []" using False by simp
    note r = stalled_read [OF Cons.prems(1,2) ne k_def, folded q1_def]
    have rd: "readQueryFromClient c (take k t) q sv = map_option (map_prod Some id) (processInputBuffer c q1 sv)"
      using r(1,4) ne by (simp add: readQueryFromClient_def q1_def)
    obtain cmds1 cmds2 where p: "cmds = cmds1 @ cmds2"
      "case serve c cmds1 sv of
         None \<Rightarrow> processInputBuffer c q1 sv = None
       | Some sv' \<Rightarrow> \<exists>q'. processInputBuffer c q1 sv = Some (q', sv') \<and>
           (c_close_after_reply (sv_client sv' c) \<or> stalled q' cmds2 (drop k t))"
      using processInputBuffer_stream [OF r(2,3) Cons.prems(2), of c sv] by blast
    have d: "deliver c (n # ns) t q sv = (case readQueryFromClient c (take k t) q sv of
        None \<Rightarrow> None | Some (None, sv') \<Rightarrow> Some (None, sv') | Some (Some q', sv') \<Rightarrow> deliver c ns (drop k t) q' sv')"
      using False unfolding deliver.simps Let_def k_def by (simp only: if_False)
    show ?thesis
    proof (cases "serve c cmds1 sv")
      case None
      then show ?thesis using d rd p by (simp add: serve_append)
    next
      case (Some sv')
      then obtain q' where q': "processInputBuffer c q1 sv = Some (q', sv')"
        "c_close_after_reply (sv_client sv' c) \<or> stalled q' cmds2 (drop k t)" using p(2) by auto
      have e: "deliver c (n # ns) t q sv = deliver c ns (drop k t) q' sv'" using d rd q'(1) by simp
      have s: "serve c cmds sv = serve c cmds2 sv'" using p(1) Some by (simp add: serve_append)
      show ?thesis
      proof (cases "c_close_after_reply (sv_client sv' c)")
        case True
        then have "deliver c ns (drop k t) q' sv' = Some (Some q', sv')" by (cases ns) simp_all
        then show ?thesis using e s True by (simp add: serve_closing)
      next
        case False
        then show ?thesis
          using e s q'(2) Cons.IH [of q' cmds2 "drop k t" sv'] Cons.prems(2,3) r(1) p(1) by simp
      qed
    qed
  qed
qed

section \<open>The wire protocol\<close>

text \<open>C4.
  However the network cuts a stream of requests into pieces (within what a read may return), the
  server does exactly what the requests say, one after the other: nothing is lost, repeated or
  taken apart, binary arguments of up to 512 MB included, and no protocol error is reported.
\<close>

theorem requests_any_chunking:
  assumes "\<forall>args\<in>set cmds. sendable args" "length (stream cmds) \<le> length ns"
  shows "map_option snd (deliver c ns (stream cmds) initial_query sv) = serve c cmds sv"
proof (rule deliver_stream [OF _ assms])
  show "stalled initial_query cmds (stream cmds)"
    by (simp add: stalled_def fresh_def initial_query_def)
qed

section \<open>Any bytes\<close>

text \<open>The invariant of the query of a client that is not to be closed.\<close>

definition query_ok :: "query \<Rightarrow> bool" where
  "query_ok q \<longleftrightarrow>
     -1 \<le> q_bulklen q \<and> q_bulklen q \<le> 536870912 \<and> (\<forall>a\<in>set (q_argv q). small a) \<and>
     (q_multibulklen q = 0 \<longrightarrow> q_argv q = [] \<and> q_bulklen q = -1) \<and>
     (case q_reqtype q of
        NO_REQ \<Rightarrow> q_multibulklen q = 0
      | REQ_INLINE \<Rightarrow> q_multibulklen q = 0
      | REQ_MULTIBULK \<Rightarrow> q_multibulklen q = 0 \<longrightarrow> q_buf q \<noteq> [] \<and> hd (q_buf q) = CHR ''*'')"

definition digestible :: "query \<Rightarrow> bool" where
  "digestible q \<longleftrightarrow> -1 \<le> q_bulklen q \<and> q_bulklen q \<le> 536870912 \<and> (\<forall>a\<in>set (q_argv q). small a)"

lemma set_reqtype_buf [simp]: "q_buf (set_reqtype q) = q_buf q"
  by (simp add: set_reqtype_def)

lemma initial_query_ok: "query_ok initial_query"
  by (simp add: query_ok_def initial_query_def)

lemma resetClient_ok: "query_ok (resetClient q)"
  by (simp add: query_ok_def resetClient_def)

lemma split_loop_length: "t \<in> set (split_loop s sep start j) \<Longrightarrow> length t \<le> length s"
proof (induction s sep start j rule: split_loop.induct)
  case (1 s sep start j)
  then show ?case by (subst (asm) (3) split_loop.simps) (auto split: if_splits)
qed

lemma inline_small:
  assumes "processInlineBuffer q = (fin, e, q')" "length (q_buf q) \<le> 536870912" "\<forall>a\<in>set (q_argv q). small a"
  shows "\<forall>a\<in>set (q_argv q'). small a"
proof -
  have "small t" if "sdssplitlen (take k (q_buf q)) '' '' = Some ts" "t \<in> set ts" for k ts t
    using that assms(2) split_loop_length [of t "take k (q_buf q)" "'' ''" 0 0]
    by (auto simp: sdssplitlen_def small_def split: if_splits)
  then show ?thesis
    using assms(1,3) by (auto simp: processInlineBuffer_def Let_def split: option.splits)
qed

lemma read_bulklen_safe:
  assumes "read_bulklen pos q = r" "digestible q" "q_reqtype q = REQ_MULTIBULK" "q_multibulklen q = Suc n"
  shows "case r of
      Inl (Return e q') \<Rightarrow> True
    | Inl (Break e pos' q') \<Rightarrow> digestible q' \<and> q_reqtype q' = REQ_MULTIBULK \<and> q_multibulklen q' = Suc n
    | Inr (pos', q') \<Rightarrow> digestible q' \<and> q_reqtype q' = REQ_MULTIBULK \<and> q_multibulklen q' = Suc n \<and> 0 \<le> q_bulklen q'"
  using assms by (auto simp: read_bulklen_def digestible_def setProtocolError_def split: if_splits option.splits)

lemma bulk_loop_safe:
  "bulk_loop n pos q = r \<Longrightarrow> digestible q \<Longrightarrow> q_reqtype q = REQ_MULTIBULK \<Longrightarrow> q_multibulklen q = n \<Longrightarrow>
   (case r of Return e q' \<Rightarrow> True
    | Break e pos' q' \<Rightarrow> digestible q' \<and> q_reqtype q' = REQ_MULTIBULK)"
proof (induction n arbitrary: pos q)
  case (Suc n)
  note b = read_bulklen_safe [OF refl Suc.prems(2-4), of pos]
  show ?case
  proof (cases "read_bulklen pos q")
    case (Inl e)
    then show ?thesis using b Suc.prems(1) by (auto split: bulk_end.splits)
  next
    case (Inr pq)
    obtain pos1 q1 where pq: "pq = (pos1, q1)" by fastforce
    have q1: "digestible q1" "q_reqtype q1 = REQ_MULTIBULK" "0 \<le> q_bulklen q1" using b Inr pq by simp_all
    show ?thesis
    proof (cases "length (q_buf q1) - pos1 < nat (q_bulklen q1 + 2)")
      case True
      then show ?thesis using Suc.prems(1) Inr pq q1 by auto
    next
      case False
      obtain pos2 q2 where r: "read_argument pos1 q1 = (pos2, q2)" by fastforce
      have q2: "digestible (q2\<lparr>q_bulklen := -1, q_multibulklen := n\<rparr>)" "q_reqtype q2 = REQ_MULTIBULK"
        using r q1 by (auto simp: read_argument_def Let_def digestible_def small_def split: if_splits)
      have "bulk_loop n pos2 (q2\<lparr>q_bulklen := -1, q_multibulklen := n\<rparr>) = r" if "bulk_loop (Suc n) pos q = r" for r
        using that Inr pq False r by simp
      from Suc.IH [OF this [OF Suc.prems(1)] q2(1)] show ?thesis using q2(2) by simp
    qed
  qed
qed auto

lemma finish_safe:
  assumes "bulk_finish (bulk_loop n pos q) = (fin, e, q')" "digestible q" "q_reqtype q = REQ_MULTIBULK" "q_multibulklen q = n"
  shows "(fin \<longrightarrow> (\<forall>a\<in>set (q_argv q'). small a)) \<and> (\<not> fin \<and> e = None \<longrightarrow> query_ok q')"
  using bulk_loop_safe [OF refl assms(2-4), of pos] assms(1)
  by (cases "bulk_loop n pos q") (auto simp: digestible_def query_ok_def)

lemma multibulk_safe:
  assumes "query_ok q" "q_reqtype q = REQ_MULTIBULK"
  obtains fin e q' where "processMultibulkBuffer q = Some (fin, e, q')"
    "fin \<Longrightarrow> \<forall>a\<in>set (q_argv q'). small a" "\<not> fin \<Longrightarrow> e = None \<Longrightarrow> query_ok q'"
proof -
  have d: "digestible q" "digestible (q\<lparr>q_multibulklen := m\<rparr>)" for m
    using assms by (simp_all add: query_ok_def digestible_def)
  show thesis
  proof (cases "q_multibulklen q = 0")
    case False
    obtain fin e q' where r: "bulk_finish (bulk_loop (q_multibulklen q) 0 q) = (fin, e, q')" by (metis prod_cases3)
    show thesis using that [of fin e q'] finish_safe [OF r d(1) assms(2) refl] r False by (simp add: processMultibulkBuffer_def)
  next
    case True
    then have a: "q_argv q = []" "q_bulklen q = -1" "q_buf q ! 0 = CHR ''*''"
      using assms by (auto simp: query_ok_def hd_conv_nth)
    show thesis
    proof (cases "\<exists>k ll. processMultibulkBuffer q = Some (bulk_finish (bulk_loop (nat ll) (k + 2) (q\<lparr>q_multibulklen := nat ll\<rparr>)))")
      case True
      then obtain k ll where p: "processMultibulkBuffer q = Some (bulk_finish (bulk_loop (nat ll) (k + 2) (q\<lparr>q_multibulklen := nat ll\<rparr>)))"
        by blast
      obtain fin e q' where r: "bulk_finish (bulk_loop (nat ll) (k + 2) (q\<lparr>q_multibulklen := nat ll\<rparr>)) = (fin, e, q')" by (metis prod_cases3)
      show thesis using that [of fin e q'] finish_safe [OF r d(2)] p r assms(2) by simp
    next
      case False
      have "\<exists>fin e q'. processMultibulkBuffer q = Some (fin, e, q') \<and> (fin \<longrightarrow> q_argv q' = []) \<and> (\<not> fin \<and> e = None \<longrightarrow> q' = q)"
        using False True a by (auto simp: processMultibulkBuffer_def split: option.splits if_splits)
      then obtain fin e q' where "processMultibulkBuffer q = Some (fin, e, q')" "fin \<longrightarrow> q_argv q' = []" "\<not> fin \<and> e = None \<longrightarrow> q' = q"
        by blast
      then show thesis using that [of fin e q'] assms(1) by auto
    qed
  qed
qed

lemma parse_safe:
  assumes "query_ok q" "q_buf q \<noteq> []" "length (q_buf q) \<le> 536870912"
  obtains fin e q' where "parse_request (set_reqtype q) = Some (fin, e, q')"
    "fin \<Longrightarrow> \<forall>a\<in>set (q_argv q'). small a" "\<not> fin \<Longrightarrow> e = None \<Longrightarrow> query_ok q'"
proof -
  let ?q = "set_reqtype q"
  have ok: "query_ok ?q" "q_buf ?q = q_buf q" "q_reqtype ?q = REQ_INLINE \<or> q_reqtype ?q = REQ_MULTIBULK"
    using assms(1,2) by (auto simp: set_reqtype_def query_ok_def split: reqtype.splits)
  from ok(3) show thesis
  proof
    assume t: "q_reqtype ?q = REQ_INLINE"
    obtain fin e q' where r: "processInlineBuffer ?q = (fin, e, q')" by (metis prod_cases3)
    have "\<forall>a\<in>set (q_argv q'). small a"
      using inline_small [OF r] ok(1) assms(3) by (simp add: ok(2) query_ok_def)
    moreover have "query_ok q'" if "\<not> fin" "e = None"
      using r that ok(1) by (auto simp: processInlineBuffer_def Let_def split: option.splits)
    ultimately show thesis using that [of fin e q'] r t by (simp add: parse_request_def)
  next
    assume t: "q_reqtype ?q = REQ_MULTIBULK"
    then show thesis using multibulk_safe [OF ok(1) t] that by (metis parse_request_def reqtype.distinct(5))
  qed
qed

lemma complain_effect:
  assumes "sane sv"
  shows "sane (complain c e sv)" "sv_clients (complain c e sv) = sv_clients sv"
    "e \<noteq> None \<Longrightarrow> c_close_after_reply (sv_client (complain c e sv) c)"
proof -
  have s: "effect c sv (upd_client c (c_close_after_reply_update (\<lambda>_. True)) (addReplyString c t sv))" for t
    using request_prefix(5) [of "addReplyString c t sv" c True] effect_refl [OF assms] effect_trans reply_effect(1) [OF effect_refl [OF assms]]
    unfolding effect_def by metis
  obtain t where t: "e \<noteq> None \<Longrightarrow> complain c e sv = upd_client c (c_close_after_reply_update (\<lambda>_. True)) (addReplyString c t sv)"
    by (cases "(c, e, sv)" rule: complain.cases) (auto simp: addReplyError_eq addReplyErrorFormat_def addReplyErrorLength_def)
  show "sane (complain c e sv)" "sv_clients (complain c e sv) = sv_clients sv"
    "e \<noteq> None \<Longrightarrow> c_close_after_reply (sv_client (complain c e sv) c)"
    using s [of t] t assms by (cases e; auto simp: effect_def upd_client_state)+
qed


text \<open>
  The turns of the loop of \<open>processInputBuffer\<close> that lead to another turn: a complete request without
  arguments, and a request whose command returns.
\<close>

inductive input_step :: "cid \<Rightarrow> query \<times> server \<Rightarrow> query \<times> server \<Rightarrow> bool" for c where
  empty: "q_buf q \<noteq> [] \<Longrightarrow> \<not> c_close_after_reply (sv_client sv c) \<Longrightarrow>
    parse_request (set_reqtype q) = Some (True, e, q') \<Longrightarrow> q_argv q' = [] \<Longrightarrow>
    input_step c (q, sv) (resetClient q', complain c e sv)"
| command: "q_buf q \<noteq> [] \<Longrightarrow> \<not> c_close_after_reply (sv_client sv c) \<Longrightarrow>
    parse_request (set_reqtype q) = Some (True, e, q') \<Longrightarrow> q_argv q' \<noteq> [] \<Longrightarrow>
    processCommand c (with_args c (q_argv q') (complain c e sv)) = Some (executed, sv') \<Longrightarrow>
    input_step c (q, sv) (if executed then resetClient q' else q', sv')"

fun input_ok :: "cid \<Rightarrow> query \<times> server \<Rightarrow> bool" where
  "input_ok c (q, sv) \<longleftrightarrow>
     sane sv \<and> c \<in> set (sv_clients sv) \<and> (query_ok q \<or> c_close_after_reply (sv_client sv c)) \<and>
     length (q_buf q) \<le> 536870912"

lemma input_parses:
  assumes "input_ok c (q, sv)" "q_buf q \<noteq> []" "\<not> c_close_after_reply (sv_client sv c)"
  obtains fin e q' where "parse_request (set_reqtype q) = Some (fin, e, q')"
    "fin \<Longrightarrow> \<forall>a\<in>set (q_argv q'). small a" "\<not> fin \<Longrightarrow> e = None \<Longrightarrow> query_ok q'"
    "sane (complain c e sv)" "c \<in> set (sv_clients (complain c e sv))"
    "e \<noteq> None \<Longrightarrow> c_close_after_reply (sv_client (complain c e sv) c)"
    "length (q_buf q') \<le> length (q_buf q)" "fin \<Longrightarrow> length (q_buf q') < length (q_buf q)"
proof -
  have ok: "query_ok q" "length (q_buf q) \<le> 536870912" using assms by auto
  obtain fin e q' where p: "parse_request (set_reqtype q) = Some (fin, e, q')"
    "fin \<Longrightarrow> \<forall>a\<in>set (q_argv q'). small a" "\<not> fin \<Longrightarrow> e = None \<Longrightarrow> query_ok q'"
    by (rule parse_safe [OF ok(1) assms(2) ok(2)]) (rule that; assumption)
  have s: "sane (complain c e sv)" "c \<in> set (sv_clients (complain c e sv))"
    "e \<noteq> None \<Longrightarrow> c_close_after_reply (sv_client (complain c e sv) c)"
    using complain_effect [where sv = sv and c = c and e = e] assms(1) by auto
  have "q_buf (set_reqtype q) = q_buf q" by (simp add: set_reqtype_def)
  then have l: "length (q_buf q') \<le> length (q_buf q)" "fin \<Longrightarrow> length (q_buf q') < length (q_buf q)"
    using parse_request_shrinks [OF p(1)] assms(2) by simp_all
  show thesis by (rule that [OF p s l])
qed

lemma input_step_ok:
  assumes "input_step c p p'" "input_ok c p"
  shows "input_ok c p' \<and> length (q_buf (fst p')) < length (q_buf (fst p))"
  using assms
proof cases
  case (empty q sv e q')
  have "input_ok c (q, sv)" using assms(2) empty(1) by simp
  then obtain s: "sane (complain c e sv)" "c \<in> set (sv_clients (complain c e sv))" "length (q_buf q') < length (q_buf q)"
    using empty(3-5) by (elim input_parses) auto
  then show ?thesis using empty(1,2) assms(2) resetClient_ok [of q'] by (simp add: resetClient_def)
next
  case (command q sv e q' x sv')
  have "input_ok c (q, sv)" using assms(2) command(1) by simp
  then obtain s: "sane (complain c e sv)" "c \<in> set (sv_clients (complain c e sv))"
    "\<forall>a\<in>set (q_argv q'). small a" "length (q_buf q') < length (q_buf q)"
    using command(3-5) by (elim input_parses) auto
  let ?t = "with_args c (q_argv q') (complain c e sv)"
  have t: "sane ?t" "c \<in> set (sv_clients ?t)" "\<forall>a\<in>set (c_argv (sv_client ?t c)). small a"
    using request_prefix(3) [OF s(1), of c "q_argv q'"] s by (simp_all add: effect_def)
  have "runs c (List.map tolower (argv c ?t 0) \<noteq> ''move'' \<and> sv_maxmemory ?t = 0) ?t sv'"
    by (rule processCommand_runs [OF t command(7)])
  then have s2: "sane sv'" "c \<in> set (sv_clients sv')" using t(2) by (simp_all add: runs_def)
  have "query_ok (if x then resetClient q' else q') \<or> c_close_after_reply (sv_client sv' c)"
    using quit_closes [of c ?t sv'] command(7) resetClient_ok by (cases x) simp_all
  then show ?thesis using s2 s(4) command(1,2) assms(2) by (auto simp: resetClient_def)
qed

lemma input_steps_ok: "(input_step c)\<^sup>*\<^sup>* p p' \<Longrightarrow> input_ok c p \<Longrightarrow> input_ok c p'"
  by (induction rule: rtranclp_induct) (simp, metis input_step_ok)

text \<open>The loop fails only at a turn it reaches, in the command of the request that is complete there.\<close>

definition attended :: "cid \<Rightarrow> query \<times> server \<Rightarrow> (query \<times> server) option \<Rightarrow> bool" where
  "attended c p r \<longleftrightarrow>
     (case r of
        None \<Rightarrow> \<exists>q1 s1 e q2. (input_step c)\<^sup>*\<^sup>* p (q1, s1) \<and> q_buf q1 \<noteq> [] \<and> \<not> c_close_after_reply (sv_client s1 c) \<and>
          parse_request (set_reqtype q1) = Some (True, e, q2) \<and> q_argv q2 \<noteq> [] \<and>
          processCommand c (with_args c (q_argv q2) (complain c e s1)) = None
      | Some (q, sv) \<Rightarrow> sane sv \<and> c \<in> set (sv_clients sv) \<and> (query_ok q \<or> c_close_after_reply (sv_client sv c)))"

lemma attended_step: "input_step c p p' \<Longrightarrow> attended c p' r \<Longrightarrow> attended c p r"
  unfolding attended_def by (auto split: option.splits intro: converse_rtranclp_into_rtranclp)

lemma processInputBuffer_safe:
  "input_ok c (q, sv) \<Longrightarrow> attended c (q, sv) (processInputBuffer c q sv)"
proof (induction "length (q_buf q)" arbitrary: q sv rule: less_induct)
  case less
  have next_turn: "attended c (q, sv) (processInputBuffer c q1 s1)" if "input_step c (q, sv) (q1, s1)" for q1 s1
    using less.hyps [of q1 s1] input_step_ok [OF that less.prems] attended_step [OF that] by simp
  show ?case
  proof (cases "q_buf q = [] \<or> c_close_after_reply (sv_client sv c)")
    case True
    then have "processInputBuffer c q sv = Some (q, sv)" by (simp add: processInputBuffer.simps)
    then show ?thesis using less.prems by (auto simp: attended_def)
  next
    case False
    then have o: "q_buf q \<noteq> []" "\<not> c_close_after_reply (sv_client sv c)" by auto
    obtain fin e q' where p: "parse_request (set_reqtype q) = Some (fin, e, q')" "\<not> fin \<Longrightarrow> e = None \<Longrightarrow> query_ok q'"
      and s: "sane (complain c e sv)" "c \<in> set (sv_clients (complain c e sv))"
        "e \<noteq> None \<Longrightarrow> c_close_after_reply (sv_client (complain c e sv) c)"
      by (rule input_parses [OF less.prems o]) (rule that; assumption)
    note eq = processInputBuffer.simps [of c q sv, unfolded if_not_P [OF False] p(1) option.case prod.case]
    show ?thesis
    proof (cases "fin \<and> q_argv q' = []")
      case True
      then have "input_step c (q, sv) (resetClient q', complain c e sv)" using o p(1) by (intro input_step.empty) simp_all
      then show ?thesis using next_turn True eq by simp
    next
      case more: False
      show ?thesis
      proof (cases fin)
        case False
        then show ?thesis using eq s p(2) by (cases e) (auto simp: attended_def)
      next
        case True
        then have run: "processInputBuffer c q sv = (case processCommand c (with_args c (q_argv q') (complain c e sv)) of
            None \<Rightarrow> None | Some (executed, sv') \<Rightarrow> processInputBuffer c (if executed then resetClient q' else q') sv')"
          using eq more by simp
        show ?thesis
        proof (cases "processCommand c (with_args c (q_argv q') (complain c e sv))")
          case None
          then have "processInputBuffer c q sv = None" using run by simp
          then show ?thesis
            unfolding attended_def using None o p(1) True more by auto
        next
          case (Some r)
          obtain x s2 where r: "r = (x, s2)" by fastforce
          have "input_step c (q, sv) (if x then resetClient q' else q', s2)"
            using o p(1) True more Some r by (intro input_step.command) simp_all
          then show ?thesis using next_turn run Some r by simp
        qed
      qed
    qed
  qed
qed

text \<open>C5.
  Whatever bytes a client sends, however malformed: at every turn of the loop that this read reaches,
  the server has its invariant and the parser fails no assertion; the read ends with the client freed
  (at the end of the connection), or marked to be closed, or in a state of the parser from which the
  next read can go on; and it can only fail in the command of a complete request, at a turn the
  loop reaches.
\<close>

theorem any_bytes_safe:
  assumes "sane sv" and "c \<in> set (sv_clients sv)" and "query_ok q \<or> c_close_after_reply (sv_client sv c)"
    and "length (q_buf q @ data) \<le> 512 * 1024 * 1024" and "start = (q\<lparr>q_buf := q_buf q @ data\<rparr>, sv)"
  shows "(\<forall>q1 s1. (input_step c)\<^sup>*\<^sup>* start (q1, s1) \<longrightarrow> sane s1 \<and> c \<in> set (sv_clients s1) \<and>
      (q_buf q1 \<noteq> [] \<and> \<not> c_close_after_reply (sv_client s1 c) \<longrightarrow> parse_request (set_reqtype q1) \<noteq> None)) \<and>
    (case readQueryFromClient c data q sv of
      None \<Rightarrow> \<exists>q1 s1 e q2. (input_step c)\<^sup>*\<^sup>* start (q1, s1) \<and> q_buf q1 \<noteq> [] \<and>
        parse_request (set_reqtype q1) = Some (True, e, q2) \<and> q_argv q2 \<noteq> [] \<and>
        processCommand c (with_args c (q_argv q2) (complain c e s1)) = None
    | Some (None, sv') \<Rightarrow> data = [] \<and> sane sv' \<and> sv_clients sv' = remove1 c (sv_clients sv)
    | Some (Some q', sv') \<Rightarrow> sane sv' \<and> c \<in> set (sv_clients sv') \<and>
        (query_ok q' \<or> c_close_after_reply (sv_client sv' c)))"
proof -
  have "query_ok (q\<lparr>q_buf := q_buf q @ data\<rparr>) \<or> c_close_after_reply (sv_client sv c)"
    using assms(3) by (auto simp: query_ok_def split: reqtype.splits)
  then have ok: "input_ok c start" using assms(1,2,4,5) by simp
  have turns: "sane s1 \<and> c \<in> set (sv_clients s1) \<and>
      (q_buf q1 \<noteq> [] \<and> \<not> c_close_after_reply (sv_client s1 c) \<longrightarrow> parse_request (set_reqtype q1) \<noteq> None)"
    if "(input_step c)\<^sup>*\<^sup>* start (q1, s1)" for q1 s1
  proof -
    note o = input_steps_ok [OF that ok]
    moreover have "parse_request (set_reqtype q1) \<noteq> None" if "q_buf q1 \<noteq> []" "\<not> c_close_after_reply (sv_client s1 c)"
      using input_parses [OF o that] by (metis option.distinct(1))
    ultimately show ?thesis by auto
  qed
  have "\<not> REDIS_MAX_QUERYBUF_LEN < length (q_buf q @ data)"
    using assms(4) by (simp add: REDIS_MAX_QUERYBUF_LEN_def)
  then have r: "readQueryFromClient c data q sv = (if data = [] then map_option (Pair None) (freeClient c sv)
      else map_option (map_prod Some id) (processInputBuffer c (fst start) (snd start)))"
    using assms(5) by (simp add: readQueryFromClient_def)
  have a: "attended c start (processInputBuffer c (fst start) (snd start))"
    using processInputBuffer_safe [of c "fst start" "snd start"] ok by simp
  obtain sv' where "freeClient c sv = Some sv'" "sane sv'" "sv_clients sv' = remove1 c (sv_clients sv)"
    using freeClient_effect [OF assms(1,2)] by metis
  then show ?thesis
    using turns a unfolding r attended_def by (cases "data = []") (auto split: option.splits)
qed

lemma wire_lookups:
  "lookupCommand ''PING'' = Some (entry ''ping'' (Some pingCommand) 1 ''rt'' None 0 0 0)"
  "lookupCommand ''SELECT'' = Some (entry ''select'' (Some selectCommand) 2 ''rl'' None 0 0 0)"
proof -
  have t: "List.map tolower ''PING'' = ''ping''" "List.map tolower ''SELECT'' = ''select''" by code_simp+
  show "lookupCommand ''PING'' = Some (entry ''ping'' (Some pingCommand) 1 ''rt'' None 0 0 0)"
    "lookupCommand ''SELECT'' = Some (entry ''select'' (Some selectCommand) 2 ''rl'' None 0 0 0)"
    by (rule lookup_eq, simp only: commandTable_eq list.set insert_iff simp_thms, simp only: t entry_def redisCommand.select_convs)+
qed

lemma demo_ping:
  "serve 1 [[''PING'']] demo1 =
     Some (addReplyString 1 (''+PONG'' @ CRLF) (upd_client 1 (c_cmd_update (\<lambda>_. ''ping'')) (with_args 1 [''PING''] demo1)))"
proof -
  let ?e = "entry ''ping'' (Some pingCommand) 1 ''rt'' None 0 0 0"
  let ?s = "with_args 1 [''PING''] demo1"
  let ?t = "upd_client 1 (c_cmd_update (\<lambda>_. ''ping'')) ?s"
  have q: "tolower CHR ''N'' \<noteq> CHR ''i''" by code_simp
  have p: "processCommand 1 ?s = map_option (Pair True) (call pingCommand 1 ?t)"
    by (subst processCommand_run [where cmd = ?e])
      (simp_all add: wire_lookups demo_simps initial_client_def cstr_def q, simp_all add: command_proc_def)
  have f: "command_of ''ping'' = ?e"
    using command_of_table [OF lookupCommand_table(1) [OF wire_lookups(1)]] by (simp add: entry_def)
  have nm: "c_cmd (sv_client (addReplyString 1 x ?t) 1) = ''ping''" for x
    by (simp add: addReplyString_def upd_client_def)
  have d: "sv_dirty (addReplyString 1 x ?t) = sv_dirty ?t" for x by (simp add: addReplyString_def upd_client_def)
  have "call pingCommand 1 ?t = Some (addReplyString 1 (''+PONG'' @ CRLF) ?t)"
    unfolding call_def pingCommand_def addReply_def shared_pong_def Let_def Option.bind.bind_lunit nm f
    by (simp add: d del: One_nat_def) (simp add: has_flag_def entry_def)
  then show ?thesis unfolding serve.simps p by (simp add: demo_simps initial_client_def)
qed

theorem requests_any_chunking_witness:
  "map_option (\<lambda>r. c_out (sv_client (snd r) 1)) (deliver 1 (replicate 20 2) (stream [[''PING'']]) initial_query demo1) =
     Some (''+PONG'' @ CRLF)"
proof -
  let ?d = "deliver 1 (replicate 20 2) (stream [[''PING'']]) initial_query demo1"
  have "map_option snd ?d = serve 1 [[''PING'']] demo1"
    by (rule requests_any_chunking) (simp_all add: sendable_def small_def request_eq bulk_text_def header_eq CRLF_def dec_nat.simps)
  then obtain r where "?d = Some r" "snd r = addReplyString 1 (''+PONG'' @ CRLF) (upd_client 1 (c_cmd_update (\<lambda>_. ''ping'')) (with_args 1 [''PING''] demo1))"
    unfolding demo_ping by blast
  then show ?thesis
    by (simp add: addReplyString_def prepareClientToWrite_def upd_client_def with_args_def demo1_def createClient_def initial_client_def)
qed

theorem any_bytes_safe_witness:
  "\<exists>q sv. readQueryFromClient 1 (''*x'' @ CRLF) initial_query demo1 = Some (Some q, sv) \<and> sane sv \<and>
     c_close_after_reply (sv_client sv 1) \<and>
     c_out (sv_client sv 1) = ''-ERR Protocol error: invalid multibulk length'' @ CRLF"
proof -
  let ?q = "initial_query\<lparr>q_buf := ''*x'' @ CRLF\<rparr>"
  let ?e = "Plain ''Protocol error: invalid multibulk length''"
  have p: "parse_request (set_reqtype ?q) = Some (False, Some ?e, ?q\<lparr>q_reqtype := REQ_MULTIBULK\<rparr>)" by code_simp
  have n: "q_buf ?q \<noteq> []" by simp
  have o: "\<not> c_close_after_reply (sv_client demo1 1)"
    by (simp add: demo1_def demo_def initServer_def createClient_def initial_client_def)
  have r: "readQueryFromClient 1 (''*x'' @ CRLF) initial_query demo1 =
      Some (Some (?q\<lparr>q_reqtype := REQ_MULTIBULK\<rparr>), complain 1 (Some ?e) demo1)"
    unfolding readQueryFromClient_def using p n o
    by (simp add: initial_query_def REDIS_MAX_QUERYBUF_LEN_def processInputBuffer.simps del: complain.simps)
  have s: "sane demo1" "1 \<in> set (sv_clients demo1)"
    using reachable_sane [OF demo1_reachable] by (simp_all add: demo1_def createClient_def)
  have "length (q_buf initial_query @ ''*x'' @ CRLF) \<le> 512 * 1024 * 1024" by (simp add: initial_query_def)
  from any_bytes_safe [OF s disjI1 [OF initial_query_ok] this refl] have "sane (complain 1 (Some ?e) demo1)"
    unfolding r by (simp only: option.case prod.case)
  moreover have "c_close_after_reply (sv_client (complain 1 (Some ?e) demo1) 1)" by (simp add: upd_client_def)
  moreover have "c_out (sv_client (complain 1 (Some ?e) demo1) 1) = ''-ERR Protocol error: invalid multibulk length'' @ CRLF"
    by (simp add: addReplyError_eq cstr_def addReplyString_def prepareClientToWrite_def upd_client_def demo1_def createClient_def
        initial_client_def)
  ultimately show ?thesis using r by blast
qed

end
