(* ===== verification/Aof.thy ===== *)
theory Aof
  imports Wire
begin

text \<open>
  The append only file (\<open>src/aof.c\<close>): the text written for a command, the loader, and the proof that the
  loader runs what was written and detects a file cut inside a command.
\<close>

section \<open>Writing the append only file\<close>

text \<open>
  \<open>cmd\<close> is the name of the command (its handler is compared in the code), \<open>now\<close> the clock.
\<close>

definition catAppendOnlyExpireAtCommand :: "string \<Rightarrow> string \<Rightarrow> string \<Rightarrow> string \<Rightarrow> int \<Rightarrow> string" where
  "catAppendOnlyExpireAtCommand buf cmd k seconds now =
     (let when = fst (strtoll seconds);
          when = (if cmd \<in> {''expire'', ''setex'', ''expireat''} then to_int64 (when * 1000) else when);
          when = (if cmd \<in> {''expire'', ''pexpire'', ''setex'', ''psetex''} then to_int64 (when + now) else when)
      in catAppendOnlyGenericCommand buf [''PEXPIREAT'', k, objval (createStringObjectFromLongLong when)])"

text \<open>The state is \<open>server.aof_selected_db\<close> and the text written so far.\<close>

definition select_text :: "nat \<Rightarrow> string" where
  "select_text dictid =
     ''*2'' @ CRLF @ ''$6'' @ CRLF @ ''SELECT'' @ CRLF @ ''$'' @ dec_nat (length (dec_nat dictid)) @ CRLF @ dec_nat dictid @ CRLF"

definition feedAppendOnlyFile :: "string \<Rightarrow> nat \<Rightarrow> string list \<Rightarrow> int \<Rightarrow> int \<times> string \<Rightarrow> int \<times> string" where
  "feedAppendOnlyFile cmd dictid args now st =
     (let buf = (if int dictid \<noteq> fst st then select_text dictid else []);
          buf = (if cmd \<in> {''expire'', ''pexpire'', ''expireat''}
                 then catAppendOnlyExpireAtCommand buf cmd (args ! 1) (args ! 2) now
                 else if cmd \<in> {''setex'', ''psetex''}
                 then catAppendOnlyExpireAtCommand (catAppendOnlyGenericCommand buf [''SET'', args ! 1, args ! 3])
                        cmd (args ! 1) (args ! 2) now
                 else catAppendOnlyGenericCommand buf args)
      in (int dictid, snd st @ buf))"

section \<open>Loading it\<close>

text \<open>
  \<open>fgets\<close> with a buffer of \<open>n\<close> bytes: the line with its newline, and the rest of the file.  The
  loader exits the process on any error.
\<close>

definition fgets :: "nat \<Rightarrow> string \<Rightarrow> (string \<times> string) option" where
  "fgets n f =
     (if f = [] then None
      else let k = min (n - 1) (length (takeWhile (\<lambda>x. x \<noteq> CHR 0x0A) f) + 1)
           in Some (take k f, drop k f))"

datatype load_error = ReadErr | FmtErr | UnknownCommand

text \<open>A negative length is converted to a huge one, which the allocator refuses or the file cannot hold.\<close>

fun read_args :: "nat \<Rightarrow> string \<Rightarrow> load_error + string list \<times> string" where
  "read_args 0 f = Inr ([], f)"
| "read_args (Suc n) f =
     (case fgets 128 f of
        None \<Rightarrow> Inl ReadErr
      | Some (line, f) \<Rightarrow>
          if hd line \<noteq> CHR ''$'' then Inl FmtErr
          else let len = nat (fst (strtoll (tl line)) mod 2 ^ 64)
               in if length f < len \<or> length (drop len f) < 2 then Inl FmtErr
                  else case read_args n (drop 2 (drop len f)) of
                         Inl e \<Rightarrow> Inl e
                       | Inr (as, f') \<Rightarrow> Inr (take len f # as, f'))"

lemma fgets_shorter: "fgets n f = Some (line, f') \<Longrightarrow> 1 < n \<Longrightarrow> length f' < length f"
  by (auto simp: fgets_def Let_def split: if_splits)

lemma read_args_shorter: "read_args n f = Inr (as, f') \<Longrightarrow> length f' \<le> length f"
proof (induction n arbitrary: f as)
  case (Suc n)
  then obtain line f1 where g: "fgets 128 f = Some (line, f1)" by (auto split: option.splits)
  obtain len as' where "read_args n (drop 2 (drop len f1)) = Inr (as', f')"
    using Suc.prems g by (auto simp: Let_def split: if_splits sum.splits simp del: drop_drop)
  then have "length f' \<le> length (drop 2 (drop len f1))" by (rule Suc.IH)
  then show ?case using fgets_shorter [OF g] by simp
qed simp

text \<open>
  The loop of \<open>loadAppendOnlyFile\<close>: the handler is called directly, without the checks of
  \<open>processCommand\<close>, also between MULTI and EXEC.
\<close>

function load_loop :: "cid \<Rightarrow> string \<Rightarrow> server \<Rightarrow> (load_error + server) option" where
  "load_loop c f sv =
     (case fgets 128 f of
        None \<Rightarrow> Some (Inr sv)
      | Some (line, f1) \<Rightarrow>
          if hd line \<noteq> CHR ''*'' then Some (Inl FmtErr)
          else let argc' = to_int32 (fst (strtoll (tl line)))
               in if argc' < 1 then Some (Inl FmtErr)
                  else case read_args (nat argc') f1 of
                    Inl e \<Rightarrow> Some (Inl e)
                  | Inr (as, f2) \<Rightarrow>
                      (case lookupCommand (hd as) of
                         None \<Rightarrow> Some (Inl UnknownCommand)
                       | Some cmd \<Rightarrow>
                           (case command_proc cmd c (with_args c as sv) of
                              None \<Rightarrow> None
                            | Some sv' \<Rightarrow> load_loop c f2 sv')))"
  by pat_completeness auto
termination
  by (relation "measure (\<lambda>(c, f, sv). length f)")
    (auto dest!: fgets_shorter read_args_shorter)

declare load_loop.simps [simp del]

text \<open>
  \<open>None\<close> is a crash, \<open>Some None\<close> the empty file (\<open>REDIS_ERR\<close>).  A file that ends inside a
  transaction is refused.
\<close>

definition loadAppendOnlyFile :: "cid \<Rightarrow> string \<Rightarrow> server \<Rightarrow> (load_error + server) option option" where
  "loadAppendOnlyFile c f sv =
     (if f = [] then Some None
      else let sv1 = upd_client c (\<lambda>_. initial_client True) (sv\<lparr>sv_aof_on := False, sv_loading := True\<rparr>)
           in case load_loop c f sv1 of
                None \<Rightarrow> None
              | Some (Inl e) \<Rightarrow> Some (Some (Inl e))
              | Some (Inr sv2) \<Rightarrow>
                  if c_multi (sv_client sv2 c) then Some (Some (Inl ReadErr))
                  else Some (Some (Inr (sv2\<lparr>sv_aof_on := sv_aof_on sv, sv_loading := False\<rparr>))))"

section \<open>What the file says\<close>

definition aof_commands :: "string \<Rightarrow> nat \<Rightarrow> string list \<Rightarrow> int \<Rightarrow> int \<Rightarrow> string list list" where
  "aof_commands cmd dictid args now selected =
     (let deadline = objval (createStringObjectFromLongLong
            (let when = fst (strtoll (args ! 2));
                 when = (if cmd \<in> {''expire'', ''setex'', ''expireat''} then to_int64 (when * 1000) else when)
             in if cmd \<in> {''expire'', ''pexpire'', ''setex'', ''psetex''} then to_int64 (when + now) else when))
      in (if int dictid \<noteq> selected then [[''SELECT'', dec_nat dictid]] else []) @
         (if cmd \<in> {''expire'', ''pexpire'', ''expireat''} then [[''PEXPIREAT'', args ! 1, deadline]]
          else if cmd \<in> {''setex'', ''psetex''} then [[''SET'', args ! 1, args ! 3], [''PEXPIREAT'', args ! 1, deadline]]
          else [args]))"

lemma cat_append: "catAppendOnlyGenericCommand dst args = dst @ request args"
  by (simp add: cat_eq request_eq)

lemma length_dec_nat_digits: "n < 2147483648 \<Longrightarrow> length (dec_nat n) \<le> 10"
  by (rule length_dec_nat) simp_all

lemma select_request:
  assumes "n < 2147483648"
  shows "select_text n = request [''SELECT'', dec_nat n]"
proof -
  have l: "length (dec_nat n) \<le> 536870912" using length_dec_nat_digits [OF assms] by simp
  have d: "dec_nat (Suc (Suc 0)) = ''2''" "dec_nat (Suc (Suc (Suc (Suc (Suc (Suc 0)))))) = ''6''" by code_simp+
  show ?thesis using l by (simp add: select_text_def request_eq bulk_text_def header_eq d)
qed

lemma feed_appends:
  assumes "dictid < 2147483648"
  shows "feedAppendOnlyFile cmd dictid args now (selected, buf) =
    (int dictid, buf @ stream (aof_commands cmd dictid args now selected))"
  by (simp add: feedAppendOnlyFile_def aof_commands_def catAppendOnlyExpireAtCommand_def cat_append select_request [OF assms]
      Let_def)

lemma fgets_line:
  assumes "CHR 0x0A \<notin> set w" "length w \<le> 100"
  shows "fgets 128 (w @ CRLF @ R) = Some (w @ CRLF, R)"
proof -
  have t: "takeWhile (\<lambda>x. x \<noteq> CHR 0x0A) (w @ CRLF @ R) = w @ [CHR 0x0D]"
    using assms(1) by (auto simp: CRLF_def takeWhile_append)
  then have "length (takeWhile (\<lambda>x. x \<noteq> CHR 0x0A) (w @ CRLF @ R)) + 1 = length w + 2" by simp
  then show ?thesis using assms(2) unfolding fgets_def Let_def by (simp add: CRLF_def)
qed

lemma fgets_tail:
  assumes "CHR 0x0A \<notin> set f" "length f \<le> 100" "f \<noteq> []"
  shows "fgets 128 f = Some (f, [])"
proof -
  have t: "takeWhile (\<lambda>x. x \<noteq> CHR 0x0A) f = f" using assms(1) by (auto simp: takeWhile_eq_all_conv)
  show ?thesis using assms(2,3) unfolding fgets_def Let_def t by simp
qed

lemma dec_nat_no_LF: "CHR 0x0A \<notin> set (dec_nat n)"
  using dec_nat_digits [of "CHR 0x0A" n] by (auto simp: isdigit_def code_def)

lemma strtoll_line:
  assumes "int n \<le> LLONG_MAX"
  shows "fst (strtoll (dec_nat n @ CRLF)) = int n"
proof -
  have dig: "\<forall>x\<in>set (dec_nat n). isdigit x" using dec_nat_digits by blast
  have c: "cstr (dec_nat n @ CRLF) = dec_nat n @ CRLF"
    by (rule cstr_id) (use dec_nat_plain [of NUL n] in \<open>auto simp: CRLF_def\<close>)
  have hd: "isdigit (hd (dec_nat n))" using dig by simp
  have sp: "\<not> isspace (hd (dec_nat n @ CRLF))" using digit_not_space [OF hd] by (simp add: hd_append)
  have sg: "hd (dec_nat n @ CRLF) \<noteq> CHR ''-''" "hd (dec_nat n @ CRLF) \<noteq> CHR ''+''"
    using hd by (auto simp: hd_append isdigit_def code_def)
  have nd: "\<not> isdigit CHR 0x0D" by code_simp
  have t: "takeWhile isdigit (dec_nat n @ CRLF) = dec_nat n"
    using dig nd by (simp add: takeWhile_append CRLF_def)
  show ?thesis
    using strtoll_nospace [OF c _ sp, of False "dec_nat n @ CRLF"] sg t assms by (simp add: signed_value_def)
qed

lemma header_fgets:
  assumes "n \<le> 536870912" "x \<noteq> CHR 0x0A"
  shows "fgets 128 (header x n @ R) = Some (x # dec_nat n @ CRLF, R)"
  using fgets_line [of "x # dec_nat n" R] dec_nat_no_LF [of n] length_dec_small [OF assms(1)] assms
  by (simp add: header_eq)

lemma read_args_bulk: "\<forall>a\<in>set as. small a \<Longrightarrow> read_args (length as) (concat (List.map bulk_text as) @ R) = Inr (as, R)"
proof (induction as)
  case (Cons a as)
  have len: "length a \<le> 536870912" using Cons.prems by (simp add: small_def)
  have f: "fgets 128 (concat (List.map bulk_text (a # as)) @ R) =
      Some (CHR ''$'' # dec_nat (length a) @ CRLF, a @ CRLF @ concat (List.map bulk_text as) @ R)"
    using header_fgets [OF len, of "CHR ''$''" "a @ CRLF @ concat (List.map bulk_text as) @ R"] by (simp add: bulk_text_def)
  have n: "nat (fst (strtoll (dec_nat (length a) @ CRLF)) mod 18446744073709551616) = length a"
    using strtoll_line [of "length a"] len by simp
  have c: "length CRLF = 2" "drop 2 (CRLF @ ys) = ys" for ys by (simp_all add: CRLF_def)
  show ?case using f n c Cons by simp
qed simp

text \<open>What the loader does with a list of commands.\<close>

fun replay :: "cid \<Rightarrow> string list list \<Rightarrow> server \<Rightarrow> (load_error + server) option" where
  "replay c [] sv = Some (Inr sv)"
| "replay c (args # cmds) sv =
     (case lookupCommand (hd args) of
        None \<Rightarrow> Some (Inl UnknownCommand)
      | Some cmd \<Rightarrow>
          (case command_proc cmd c (with_args c args sv) of
             None \<Rightarrow> None
           | Some sv' \<Rightarrow> replay c cmds sv'))"

lemma load_request:
  assumes "sendable args"
  shows "load_loop c (request args @ R) sv =
    (case lookupCommand (hd args) of
       None \<Rightarrow> Some (Inl UnknownCommand)
     | Some cmd \<Rightarrow>
         (case command_proc cmd c (with_args c args sv) of
            None \<Rightarrow> None
          | Some sv' \<Rightarrow> load_loop c R sv'))"
proof -
  have n: "length args \<le> 536870912" "1 \<le> length args" "length args \<le> 2147483647"
    using assms by (auto simp: sendable_def Suc_le_eq)
  have sm: "\<forall>a\<in>set args. small a" using assms by (simp add: sendable_def)
  have f: "fgets 128 (request args @ R) = Some (CHR ''*'' # dec_nat (length args) @ CRLF, concat (List.map bulk_text args) @ R)"
    using header_fgets [OF n(1), of "CHR ''*''"] by (simp add: request_eq)
  have a: "to_int32 (fst (strtoll (dec_nat (length args) @ CRLF))) = int (length args)"
    using strtoll_line [of "length args"] n by simp
  show ?thesis
    using f a n(2) read_args_bulk [OF sm, of R] by (cases "args = []") (simp_all add: load_loop.simps [of c "request args @ R"])
qed

lemma load_stream:
  assumes "\<forall>args\<in>set cmds. sendable args"
  shows "load_loop c (stream cmds @ R) sv =
    (case replay c cmds sv of
       Some (Inr s) \<Rightarrow> load_loop c R s
     | r \<Rightarrow> r)"
  using assms
proof (induction cmds arbitrary: sv)
  case (Cons args cmds)
  then show ?case
    using load_request [of args c "stream cmds @ R" sv] by (auto split: option.splits)
qed simp

text \<open>A file that ends inside a command.\<close>

lemma prefix_split:
  assumes "p @ p' = x @ y"
  shows "length p < length x \<and> (\<exists>z. z \<noteq> [] \<and> x = p @ z) \<or> (\<exists>z. p = x @ z \<and> z @ p' = y)"
proof -
  from assms consider z where "p = x @ z" "z @ p' = y" | z where "x = p @ z" "z @ y = p'"
    by (auto simp: append_eq_append_conv2)
  then show ?thesis
  proof cases
    case (2 z)
    then show ?thesis by (cases "z = []") auto
  qed blast
qed

lemma header_cut:
  assumes "header x n = p @ z" "z \<noteq> []" "n \<le> 536870912" "x \<noteq> CHR 0x0A" "p \<noteq> []"
  shows "fgets 128 p = Some (p, []) \<and> hd p = x"
proof -
  have h: "(x # dec_nat n @ [CHR 0x0D]) @ [CHR 0x0A] = p @ z" using assms(1,3) by (simp add: header_eq CRLF_def)
  then obtain z' where "x # dec_nat n @ [CHR 0x0D] = p @ z'"
    using assms(2) by (metis append_butlast_last_id append_eq_append_conv2 butlast_append butlast_snoc)
  then have "set p \<subseteq> set (x # dec_nat n @ [CHR 0x0D])" "length p \<le> length (x # dec_nat n @ [CHR 0x0D])" "hd p = x"
    using assms(5) by (metis set_append Un_upper1, metis length_append le_add1, metis hd_append2 list.sel(1))
  then show ?thesis
    using fgets_tail [OF _ _ assms(5)] dec_nat_no_LF [of n] length_dec_small [OF assms(3)] assms(4) by force
qed

lemma read_args_cut:
  "concat (List.map bulk_text as) = b @ z \<Longrightarrow> z \<noteq> [] \<Longrightarrow> \<forall>a\<in>set as. small a \<Longrightarrow>
     \<exists>e. read_args (length as) b = Inl e"
proof (induction as arbitrary: b)
  case (Cons a as)
  have len: "length a \<le> 536870912" using Cons.prems(3) by (simp add: small_def)
  let ?h = "header CHR ''$'' (length a)"
  have bz: "b @ z = ?h @ a @ CRLF @ concat (List.map bulk_text as)" using Cons.prems(1) by (simp add: bulk_text_def [of a])
  consider (cut) z' where "?h = b @ z'" "z' \<noteq> []"
    | (data) b2 where "b = ?h @ b2" "b2 @ z = (a @ CRLF) @ concat (List.map bulk_text as)"
    using prefix_split [OF bz] by auto
  then show ?case
  proof cases
    case cut
    show ?thesis
    proof (cases "b = []")
      case True
      then show ?thesis by (simp add: fgets_def)
    next
      case False
      then show ?thesis using header_cut [OF cut len _ False] by auto
    qed
  next
    case data
    have f: "fgets 128 b = Some (CHR ''$'' # dec_nat (length a) @ CRLF, b2)"
      using header_fgets [OF len, of "CHR ''$''" b2] by (simp add: data(1))
    have n: "nat (fst (strtoll (dec_nat (length a) @ CRLF)) mod 18446744073709551616) = length a"
      using strtoll_line [of "length a"] len by simp
    show ?thesis
    proof (cases "length b2 < length a + 2")
      case True
      then show ?thesis using f n by (auto simp: Let_def)
    next
      case False
      then obtain b3 where b3: "b2 = (a @ CRLF) @ b3" "b3 @ z = concat (List.map bulk_text as)"
        using prefix_split [OF data(2)] by auto
      have c: "length CRLF = 2" "drop 2 (CRLF @ ys) = ys" for ys by (simp_all add: CRLF_def)
      obtain e where "read_args (length as) b3 = Inl e"
        using Cons.IH [of b3] b3(2) Cons.prems(2,3) by auto
      then show ?thesis using f n b3(1) c by simp
    qed
  qed
qed simp

lemma load_cut:
  assumes "sendable args" "request args = p @ z" "p \<noteq> []" "z \<noteq> []"
  shows "\<exists>e. load_loop c p sv = Some (Inl e)"
proof -
  have n: "length args \<le> 536870912" "1 \<le> length args" "length args \<le> 2147483647"
    using assms(1) by (auto simp: sendable_def Suc_le_eq)
  have sm: "\<forall>a\<in>set args. small a" using assms(1) by (simp add: sendable_def)
  let ?h = "header CHR ''*'' (length args)"
  have bz: "p @ z = ?h @ concat (List.map bulk_text args)" using assms(2) by (simp add: request_eq)
  consider (cut) z' where "?h = p @ z'" "z' \<noteq> []"
    | (data) b where "p = ?h @ b" "b @ z = concat (List.map bulk_text args)"
    using prefix_split [OF bz] by auto
  then show ?thesis
  proof cases
    case cut
    have r: "read_args k [] = Inl ReadErr" if "0 < k" for k using that by (cases k) (simp_all add: fgets_def)
    show ?thesis
      using header_cut [OF cut n(1) _ assms(3)] r by (auto simp: load_loop.simps [of c p] Let_def)
  next
    case data
    have f: "fgets 128 p = Some (CHR ''*'' # dec_nat (length args) @ CRLF, b)"
      using header_fgets [OF n(1), of "CHR ''*''" b] by (simp add: data(1))
    have a: "to_int32 (fst (strtoll (dec_nat (length args) @ CRLF))) = int (length args)"
      using strtoll_line [of "length args"] n by simp
    obtain e where "read_args (length args) b = Inl e"
      using read_args_cut [of args b z] data(2) assms(4) sm by metis
    then show ?thesis using f a n(2) by (cases "args = []") (simp_all add: load_loop.simps [of c p])
  qed
qed

section \<open>The append only file\<close>

text \<open>A history: the commands that were propagated, with name, database, arguments and time.\<close>

type_synonym history = "(string \<times> nat \<times> string list \<times> int) list"

fun feed_all :: "history \<Rightarrow> int \<times> string \<Rightarrow> int \<times> string" where
  "feed_all [] st = st"
| "feed_all ((cmd, dictid, args, now) # es) st = feed_all es (feedAppendOnlyFile cmd dictid args now st)"

fun history_commands :: "history \<Rightarrow> int \<Rightarrow> string list list" where
  "history_commands [] selected = []"
| "history_commands ((cmd, dictid, args, now) # es) selected =
     aof_commands cmd dictid args now selected @ history_commands es (int dictid)"

lemma stream_append [simp]: "stream (xs @ ys) = stream xs @ stream ys"
  by (simp add: stream_def)

lemma feed_all_eq:
  "\<forall>(cmd, dictid, args, now)\<in>set es. dictid < 2147483648 \<Longrightarrow>
     snd (feed_all es (selected, buf)) = buf @ stream (history_commands es selected)"
proof (induction es arbitrary: selected buf)
  case (Cons x es)
  obtain cmd dictid args now where x: "x = (cmd, dictid, args, now)" by (metis prod_cases4)
  then show ?case using Cons by (simp add: feed_appends)
qed simp

text \<open>A prefix of a stream ends between two requests or inside one.\<close>

lemma stream_prefix:
  assumes "stream cmds = p @ z"
  obtains cmds1 cmds2 where "cmds = cmds1 @ cmds2" "p = stream cmds1"
  | cmds1 args cmds2 q z' where "cmds = cmds1 @ args # cmds2" "p = stream cmds1 @ q" "request args = q @ z'" "q \<noteq> []" "z' \<noteq> []"
  using assms
proof (induction cmds arbitrary: p thesis)
  case Nil
  then show ?case by simp
next
  case (Cons args cmds)
  have e: "p @ z = request args @ stream cmds" using Cons.prems(3) by simp
  consider (cut) z' where "z' \<noteq> []" "request args = p @ z'" | (past) p' where "p = request args @ p'" "p' @ z = stream cmds"
    using prefix_split [OF e] by auto
  then show ?case
  proof cases
    case cut
    show ?thesis
    proof (cases "p = []")
      case True
      then show ?thesis using Cons.prems(1) [of "[]" "args # cmds"] by simp
    next
      case False
      then show ?thesis using Cons.prems(2) [of "[]" args cmds p z'] cut by simp
    qed
  next
    case past
    show ?thesis
    proof (rule Cons.IH [of p'])
      fix cmds1 cmds2 assume "cmds = cmds1 @ cmds2" "p' = stream cmds1"
      then show thesis using Cons.prems(1) [of "args # cmds1" cmds2] past by simp
    next
      fix cmds1 args' cmds2 q z' assume "cmds = cmds1 @ args' # cmds2" "p' = stream cmds1 @ q" "request args' = q @ z'" "q \<noteq> []" "z' \<noteq> []"
      then show thesis using Cons.prems(2) [of "args # cmds1" args' cmds2 q z'] past by simp
    qed (simp add: past)
  qed
qed

definition loading :: "cid \<Rightarrow> server \<Rightarrow> server" where
  "loading c sv = upd_client c (\<lambda>_. initial_client True) (sv\<lparr>sv_aof_on := False, sv_loading := True\<rparr>)"

definition loaded :: "server \<Rightarrow> server \<Rightarrow> server" where
  "loaded sv s = s\<lparr>sv_aof_on := sv_aof_on sv, sv_loading := False\<rparr>"

text \<open>C7.
  Loading the append only file runs exactly the commands that were fed to it, in order and in their
  databases, with relative expire times turned into absolute ones.  A file cut off anywhere is loaded
  only if it ends between two commands, and then as the commands before the cut; any cut inside a
  command is detected.
\<close>

theorem aof_roundtrip:
  assumes "\<forall>(cmd, dictid, args, now)\<in>set es. dictid < 2147483648"
    and "\<forall>args\<in>set (history_commands es (-1)). sendable args"
    and "snd (feed_all es (-1, [])) = p @ z" "p \<noteq> []"
  shows "loadAppendOnlyFile c p sv = Some (Some (Inr s)) \<longleftrightarrow>
    (\<exists>cmds1 cmds2 s1. history_commands es (-1) = cmds1 @ cmds2 \<and> p = stream cmds1 \<and>
       replay c cmds1 (loading c sv) = Some (Inr s1) \<and> \<not> c_multi (sv_client s1 c) \<and> s = loaded sv s1)"
proof -
  have st: "stream (history_commands es (-1)) = p @ z" using feed_all_eq [OF assms(1), of "-1" "[]"] assms(3) by simp
  have l: "loadAppendOnlyFile c p sv = (case load_loop c p (loading c sv) of
      None \<Rightarrow> None
    | Some (Inl e) \<Rightarrow> Some (Some (Inl e))
    | Some (Inr s1) \<Rightarrow> if c_multi (sv_client s1 c) then Some (Some (Inl ReadErr)) else Some (Some (Inr (loaded sv s1))))"
    using assms(4) unfolding loadAppendOnlyFile_def loading_def loaded_def Let_def by simp
  have nil: "load_loop c [] t = Some (Inr t)" for t by (simp add: load_loop.simps fgets_def)
  have whole: "load_loop c (stream cmds1) t = replay c cmds1 t"
    if "history_commands es (-1) = cmds1 @ cmds2" for cmds1 cmds2 t
  proof -
    have "\<forall>args\<in>set cmds1. sendable args" using assms(2) that by simp
    from load_stream [OF this, of c "[]" t] show ?thesis by (simp add: nil split: option.splits sum.splits)
  qed
  show ?thesis
  proof
    assume r: "loadAppendOnlyFile c p sv = Some (Some (Inr s))"
    from st show "\<exists>cmds1 cmds2 s1. history_commands es (-1) = cmds1 @ cmds2 \<and> p = stream cmds1 \<and>
       replay c cmds1 (loading c sv) = Some (Inr s1) \<and> \<not> c_multi (sv_client s1 c) \<and> s = loaded sv s1"
    proof (rule stream_prefix)
      fix cmds1 cmds2 assume a: "history_commands es (-1) = cmds1 @ cmds2" "p = stream cmds1"
      have "\<exists>s1. replay c cmds1 (loading c sv) = Some (Inr s1) \<and> \<not> c_multi (sv_client s1 c) \<and> s = loaded sv s1"
        using r [unfolded l] whole [OF a(1), of "loading c sv"] unfolding a(2) by (auto split: option.splits sum.splits if_splits)
      then show ?thesis using a by blast
    next
      fix cmds1 args cmds2 q z' assume a: "history_commands es (-1) = cmds1 @ args # cmds2" "p = stream cmds1 @ q"
        "request args = q @ z'" "q \<noteq> []" "z' \<noteq> []"
      have sd: "\<forall>args\<in>set cmds1. sendable args" "sendable args" using assms(2) a(1) by simp_all
      show ?thesis
        using r [unfolded l] load_stream [OF sd(1), of c q "loading c sv"] load_cut [OF sd(2) a(3-5)] unfolding a(2)
        by (auto split: option.splits sum.splits if_splits) (metis option.inject sum.distinct(1))+
    qed
  next
    assume "\<exists>cmds1 cmds2 s1. history_commands es (-1) = cmds1 @ cmds2 \<and> p = stream cmds1 \<and>
       replay c cmds1 (loading c sv) = Some (Inr s1) \<and> \<not> c_multi (sv_client s1 c) \<and> s = loaded sv s1"
    then show "loadAppendOnlyFile c p sv = Some (Some (Inr s))" unfolding l using whole by auto
  qed
qed

theorem aof_roundtrip_witness:
  "\<exists>s. loadAppendOnlyFile 9 (snd (feed_all [(''set'', 0, [''SET'', ''k'', ''v''], 0)] (-1, []))) demo1 = Some (Some (Inr s)) \<and>
     map_option objval (rd_dict (sv_db s 0) ''k'') = Some ''v''"
proof -
  let ?es = "[(''set'', 0 :: nat, [''SET'', ''k'', ''v''], 0 :: int)]"
  let ?cmds = "[[''SELECT'', ''0''], [''SET'', ''k'', ''v'']]"
  let ?l = "loading 9 demo1"
  have d0: "dec_nat 0 = ''0''" by code_simp
  have h: "history_commands ?es (-1) = ?cmds" by (simp add: aof_commands_def d0)
  let ?s1 = "with_args 9 [''SELECT'', ''0''] ?l"
  have sel: "selectCommand 9 ?s1 = Some (addReplyString 9 shared_ok (upd_client 9 (c_db_update (\<lambda>_. 0)) ?s1))"
  proof -
    have "getLongLongFromObject (Some (arg 9 ?s1 1)) = Some (Some 0)"
      using getLongLong_dec [of 0] d0 by (simp add: dec_int_def)
    then show ?thesis
      by (simp add: selectCommand_def getLongFromObjectOrReply_def getLongLongFromObjectOrReply_def selectDb_def addReply_def loading_def upd_client_def with_args_def demo1_def demo_def createClient_def
          initServer_def)
  qed
  let ?s2 = "addReplyString 9 shared_ok (upd_client 9 (c_db_update (\<lambda>_. 0)) ?s1)"
  let ?s3 = "with_args 9 [''SET'', ''k'', ''v''] ?s2"
  have k: "ks_wf ?s3" by (simp add: ks_wf_def upd_client_def demo1_def demo_def createClient_def initServer_def loading_def with_args_def addReplyString_def db_wf_def)
  have e: "evict 0 ''k'' ?s3 = ?s3"  "visible 0 ''k'' ?s3 = None"
    by (simp_all add: evict_def stale_def visible_def upd_client_def demo1_def demo_def createClient_def initServer_def loading_def with_args_def addReplyString_def)
  obtain ob where ob: "tryObjectEncoding 0 1 (createStringObject ''v'') = Some ob" "objval ob = ''v''"
    using try_arg [of "''v''" 0] by (auto simp: small_def)
  have st: "sv_maxmemory ?s3 = 0" "c_db (sv_client ?s3 9) = 0" "c_argv (sv_client ?s3 9) = [''SET'', ''k'', ''v'']"
    by (simp_all add: upd_client_def demo1_def demo_def createClient_def initServer_def loading_def with_args_def addReplyString_def)
  have set: "setCommand 9 ?s3 = Some (addReplyString 9 shared_ok (incr_dirty 1 (keyset 0 ''k'' ob ?s3)))"
    using k e st by (simp add: setCommand_def setGenericCommand_def set_aborts_eq setKey_eq ob [simplified] Let_def)
  let ?s4 = "addReplyString 9 shared_ok (incr_dirty 1 (keyset 0 ''k'' ob ?s3))"
  have s2: "replay 9 ?cmds ?l = Some (Inr ?s4)"
    using sel set lookups(4) wire_lookups(2) by (simp add: command_proc_def entry_def)
  have s4: "\<not> c_multi (sv_client ?s4 9)" "rd_dict (sv_db ?s4 0) ''k'' = Some ob"
    by (simp_all add: keyset_def addReplyString_def incr_dirty_def exprem_def dbset_def mark_all_def upd_db_def upd_client_def
        with_args_def loading_def demo1_def demo_def createClient_def initServer_def initial_client_def prepareClientToWrite_def)
  have ne: "stream ?cmds \<noteq> []" by (simp del: stream_simps)
  have f: "snd (feed_all ?es (-1, [])) = stream ?cmds @ []" using feed_all_eq [of ?es "-1" "[]"] by (simp only: h) simp
  have sd: "\<forall>args\<in>set (history_commands ?es (-1)). sendable args" unfolding h by (simp add: sendable_def small_def)
  have "loadAppendOnlyFile 9 (stream ?cmds) demo1 = Some (Some (Inr (loaded demo1 ?s4)))"
    by (rule aof_roundtrip [OF _ sd f ne, THEN iffD2])
      (simp, rule exI [of _ ?cmds], rule exI [of _ "[]"], rule exI [of _ ?s4], use h s2 s4(1) in \<open>simp only: append_Nil2 simp_thms\<close>)
  then show ?thesis unfolding f append_Nil2 using s4(2) ob(2) by (simp add: loaded_def del: stream_simps)
qed

end
