(* ===== verification/Cmdtable.thy ===== *)
theory Cmdtable
  imports Effects
begin

unbundle bit_operations_syntax

text \<open>
  The table of commands as data: \<open>populateCommandTable\<close> (\<open>src/redis.c\<close>), which parses the flags and
  fills the dictionary of commands, and the functions of \<open>src/db.c\<close> that find the keys among the
  arguments of a command.  The table is the whole table of the source.
\<close>

section \<open>The flags\<close>

definition flag_bit :: "char \<Rightarrow> nat option" where
  "flag_bit x =
     (if x = CHR ''w'' then Some 1 else if x = CHR ''r'' then Some 2 else if x = CHR ''m'' then Some 4
      else if x = CHR ''a'' then Some 16 else if x = CHR ''p'' then Some 32 else if x = CHR ''f'' then Some 8
      else if x = CHR ''s'' then Some 64 else if x = CHR ''R'' then Some 128 else if x = CHR ''S'' then Some 256
      else if x = CHR ''l'' then Some 512 else if x = CHR ''t'' then Some 1024 else if x = CHR ''M'' then Some 2048
      else None)"

text \<open>The loop over the characters; an unknown one is a panic.\<close>

fun parse_flags :: "string \<Rightarrow> nat \<Rightarrow> nat option" where
  "parse_flags [] flags = Some flags"
| "parse_flags (x # xs) flags = (case flag_bit x of None \<Rightarrow> None | Some b \<Rightarrow> parse_flags xs (flags OR b))"

text \<open>
  The loop over the table.  The dictionary is keyed by lower-case names, as its comparison is by
  \<open>strcasecmp\<close>; an entry holds the command and its flags.  The second dictionary has the same entries.
\<close>

fun populate :: "redisCommand list \<Rightarrow> (string \<Rightarrow> (redisCommand \<times> nat) option) \<Rightarrow> (string \<Rightarrow> (redisCommand \<times> nat) option) option" where
  "populate [] d = Some d"
| "populate (cmd # cmds) d =
     Option.bind (parse_flags (rc_sflags cmd) 0) (\<lambda>flags.
       let name = List.map tolower (rc_name cmd)
       in if d name \<noteq> None then None else populate cmds (d(name \<mapsto> (cmd, flags))))"

definition populateCommandTable :: "(string \<Rightarrow> (redisCommand \<times> nat) option) option" where
  "populateCommandTable = populate redisCommandTable Map.empty"

section \<open>The keys among the arguments\<close>

text \<open>
  A loop with a step that is not positive writes past its buffer; a negative size is a failed
  allocation, which aborts.
\<close>

function keys_from :: "int \<Rightarrow> int \<Rightarrow> int \<Rightarrow> int \<Rightarrow> int list option" where
  "keys_from j lastkey step argc' =
     (if lastkey < j then Some []
      else if argc' \<le> j \<or> step \<le> 0 then None
      else map_option (Cons j) (keys_from (j + step) lastkey step argc'))"
  by auto
termination
  by (relation "measure (\<lambda>(j, lastkey, step, argc'). nat (lastkey + 1 - j))") auto

declare keys_from.simps [simp del]

definition getKeysUsingCommandTable :: "redisCommand \<Rightarrow> int \<Rightarrow> int list option" where
  "getKeysUsingCommandTable cmd argc' =
     (if rc_firstkey cmd = 0 then Some []
      else let lastkey = (if rc_lastkey cmd < 0 then argc' + rc_lastkey cmd else rc_lastkey cmd)
           in if lastkey - rc_firstkey cmd + 1 < 0 then None
              else keys_from (rc_firstkey cmd) lastkey (rc_keystep cmd) argc')"

definition noPreloadGetKeys :: "redisCommand \<Rightarrow> int \<Rightarrow> bool \<Rightarrow> int list option" where
  "noPreloadGetKeys cmd argc' preload = (if preload then Some [] else getKeysUsingCommandTable cmd argc')"

definition renameGetKeys :: "redisCommand \<Rightarrow> int \<Rightarrow> bool \<Rightarrow> int list option" where
  "renameGetKeys cmd argc' preload = (if preload then Some [1] else getKeysUsingCommandTable cmd argc')"

definition zunionInterGetKeys :: "string list \<Rightarrow> int list option" where
  "zunionInterGetKeys args =
     (if length args \<le> 2 then None
      else let num = atoi (args ! 2)
           in if int (length args) - 3 < num then Some []
              else if num < 0 then None
              else Some (List.map (\<lambda>i. 3 + int i) [0..<nat num]))"

definition getKeysFromCommand :: "redisCommand \<Rightarrow> string list \<Rightarrow> bool \<Rightarrow> int list option" where
  "getKeysFromCommand cmd args preload =
     (case rc_getkeys cmd of
        Some NoPreloadGetKeys \<Rightarrow> noPreloadGetKeys cmd (int (length args)) preload
      | Some RenameGetKeys \<Rightarrow> renameGetKeys cmd (int (length args)) preload
      | Some ZunionInterGetKeys \<Rightarrow> zunionInterGetKeys args
      | None \<Rightarrow> getKeysUsingCommandTable cmd (int (length args)))"

section \<open>Loading the table\<close>

lemma flag_bit_power:
  assumes "flag_bit x = Some b"
  shows "\<exists>n. b = 2 ^ n"
proof -
  have "b \<in> (^) 2 ` {0, 1, 2, 3, 4, 5, 6, 7, 8, 9, 10, 11}"
    using assms by (auto simp: flag_bit_def split: if_splits)
  then show ?thesis by blast
qed

lemma flag_bit_inj: "flag_bit x = Some b \<Longrightarrow> flag_bit y = Some b \<Longrightarrow> x = y"
  by (auto simp: flag_bit_def split: if_splits)

lemma and_power: "(b :: nat) = 2 ^ n \<Longrightarrow> m AND b \<noteq> 0 \<longleftrightarrow> bit m n"
  by (simp add: and_exp_eq_0_iff_not_bit)

lemma parse_flags_bits:
  assumes "parse_flags s fl = Some r" "flag_bit x = Some b"
  shows "r AND b \<noteq> 0 \<longleftrightarrow> fl AND b \<noteq> 0 \<or> x \<in> set s"
  using assms(1)
proof (induction s arbitrary: fl)
  case (Cons y s)
  obtain c where c: "flag_bit y = Some c" "parse_flags s (fl OR c) = Some r"
    using Cons.prems by (auto split: option.splits)
  obtain n where n: "b = 2 ^ n" using flag_bit_power [OF assms(2)] by blast
  obtain m where m: "c = 2 ^ m" using flag_bit_power [OF c(1)] by blast
  have "c AND b \<noteq> 0 \<longleftrightarrow> y = x"
  proof -
    have "c AND b \<noteq> 0 \<longleftrightarrow> n = m" unfolding and_power [OF n] m by (auto simp: bit_exp_iff)
    also have "\<dots> \<longleftrightarrow> b = c" unfolding n m by simp
    also have "\<dots> \<longleftrightarrow> y = x"
    proof
      assume "b = c"
      then show "y = x" using flag_bit_inj [OF c(1)] assms(2) by simp
    next
      assume "y = x"
      then show "b = c" using assms(2) c(1) by simp
    qed
    finally show ?thesis .
  qed
  moreover have "(fl OR c) AND b \<noteq> 0 \<longleftrightarrow> fl AND b \<noteq> 0 \<or> c AND b \<noteq> 0"
    unfolding and_power [OF n] by (simp add: bit_or_iff)
  ultimately show ?case using Cons.IH [OF c(2)] by auto
qed simp

lemma parse_flags_bound: "parse_flags s fl = Some r \<Longrightarrow> take_bit 12 fl = fl \<Longrightarrow> take_bit 12 r = r"
proof (induction s arbitrary: fl)
  case (Cons x s)
  obtain b where b: "flag_bit x = Some b" "parse_flags s (fl OR b) = Some r"
    using Cons.prems(1) by (auto split: option.splits)
  have "b < 2 ^ 12" using b(1) by (auto simp: flag_bit_def split: if_splits)
  then have "take_bit 12 b = b" by (rule take_bit_nat_eq_self)
  then show ?case using Cons.IH [OF b(2)] Cons.prems(2) by (simp add: take_bit_or)
qed simp

lemma parse_flags_total: "\<forall>x\<in>set s. flag_bit x \<noteq> None \<Longrightarrow> parse_flags s fl \<noteq> None"
  by (induction s arbitrary: fl) (auto split: option.split)

lemma populate_all:
  assumes "distinct (List.map (\<lambda>cmd. List.map tolower (rc_name cmd)) cmds)"
    and "\<forall>cmd\<in>set cmds. d (List.map tolower (rc_name cmd)) = None \<and> parse_flags (rc_sflags cmd) 0 \<noteq> None"
  shows "\<exists>d'. populate cmds d = Some d' \<and>
    (\<forall>cmd\<in>set cmds. d' (List.map tolower (rc_name cmd)) = Some (cmd, the (parse_flags (rc_sflags cmd) 0))) \<and>
    (\<forall>name. name \<notin> (\<lambda>cmd. List.map tolower (rc_name cmd)) ` set cmds \<longrightarrow> d' name = d name)"
  using assms
proof (induction cmds arbitrary: d)
  case (Cons cmd cmds)
  let ?n = "List.map tolower (rc_name cmd)"
  obtain fl where fl: "parse_flags (rc_sflags cmd) 0 = Some fl" using Cons.prems(2) by auto
  define d1 where "d1 = d(?n \<mapsto> (cmd, fl))"
  have new: "?n \<notin> (\<lambda>cmd. List.map tolower (rc_name cmd)) ` set cmds"
    and dist: "distinct (List.map (\<lambda>cmd. List.map tolower (rc_name cmd)) cmds)" using Cons.prems(1) by simp_all
  have "\<forall>c\<in>set cmds. d1 (List.map tolower (rc_name c)) = None \<and> parse_flags (rc_sflags c) 0 \<noteq> None"
    using Cons.prems(2) new by (auto simp: d1_def image_iff)
  then obtain d' where d': "populate cmds d1 = Some d'"
    "\<forall>c\<in>set cmds. d' (List.map tolower (rc_name c)) = Some (c, the (parse_flags (rc_sflags c) 0))"
    "\<forall>name. name \<notin> (\<lambda>cmd. List.map tolower (rc_name cmd)) ` set cmds \<longrightarrow> d' name = d1 name"
    using Cons.IH [OF dist] by blast
  have run: "populate (cmd # cmds) d = Some d'" using Cons.prems(2) fl d'(1) by (simp add: d1_def)
  have "d' ?n = Some (cmd, fl)" using d'(3) new by (simp add: d1_def)
  moreover have "d' name = d name" if "name \<notin> (\<lambda>cmd. List.map tolower (rc_name cmd)) ` set (cmd # cmds)" for name
    using that d'(3) by (simp add: d1_def)
  ultimately show ?case using run d'(2) fl by auto
qed simp

text \<open>All names are in lower case already, and all flags are known.\<close>

lemma names_lower: "list_all (\<lambda>n. List.map tolower n = n) (List.map rc_name redisCommandTable)"
  unfolding redisCommandTable_def entry_def list.map redisCommand.select_convs by code_simp

lemma flags_known: "list_all (list_all (\<lambda>x. flag_bit x \<noteq> None)) (List.map rc_sflags redisCommandTable)"
  unfolding redisCommandTable_def entry_def list.map redisCommand.select_convs by code_simp

text \<open>What an entry must satisfy for its keys to be arguments whenever the arity is right.\<close>

definition spec_ok :: "redisCommand \<Rightarrow> bool" where
  "spec_ok cmd \<longleftrightarrow>
     rc_arity cmd \<noteq> 0 \<and>
     (rc_firstkey cmd = 0 \<or>
      0 < rc_firstkey cmd \<and> 0 < rc_keystep cmd \<and>
      (if rc_lastkey cmd < 0 then rc_firstkey cmd \<le> \<bar>rc_arity cmd\<bar> + rc_lastkey cmd
       else rc_firstkey cmd \<le> rc_lastkey cmd \<and> rc_lastkey cmd < \<bar>rc_arity cmd\<bar>))"

lemma keys_from_range:
  assumes "0 < step" "0 < j" "lastkey < argc'"
  shows "\<exists>ks. keys_from j lastkey step argc' = Some ks \<and> set ks = {i. j \<le> i \<and> i \<le> lastkey \<and> step dvd (i - j)} \<and>
    sorted_wrt (<) ks"
  using assms
proof (induction j lastkey step argc' rule: keys_from.induct)
  case (1 j lastkey step argc')
  show ?case
  proof (cases "lastkey < j")
    case True
    then show ?thesis by (subst keys_from.simps) auto
  next
    case False
    then obtain ks where ks: "keys_from (j + step) lastkey step argc' = Some ks"
      "set ks = {i. j + step \<le> i \<and> i \<le> lastkey \<and> step dvd (i - (j + step))}" "sorted_wrt (<) ks"
      using 1 by auto
    have r: "keys_from j lastkey step argc' = Some (j # ks)"
      using False "1.prems" ks(1) by (subst keys_from.simps) simp
    have d: "step dvd (i - (j + step)) \<longleftrightarrow> step dvd (i - j)" for i
    proof -
      have "i - (j + step) = (i - j) - step" by simp
      then show ?thesis by (simp only: dvd_diff_right_iff [of step step] dvd_refl) (simp add: dvd_diff_left_iff)
    qed
    have "i = j \<or> j + step \<le> i" if "j \<le> i" "step dvd (i - j)" for i
    proof (cases "i = j")
      case False
      then have "step \<le> i - j" using that "1.prems"(1) by (intro zdvd_imp_le) auto
      then show ?thesis by simp
    qed simp
    then have "set (j # ks) = {i. j \<le> i \<and> i \<le> lastkey \<and> step dvd (i - j)}"
      using ks(2) False "1.prems"(1) d by auto
    moreover have "sorted_wrt (<) (j # ks)" using ks(2,3) "1.prems"(1) by auto
    ultimately show ?thesis using r by blast
  qed
qed

lemma table_keys_range:
  assumes "spec_ok cmd" "\<not> wrong_arity cmd n" "rc_firstkey cmd \<noteq> 0"
  shows "\<exists>ks. getKeysUsingCommandTable cmd (int n) = Some ks \<and> sorted_wrt (<) ks \<and> (\<forall>k\<in>set ks. 0 < k \<and> k < int n) \<and>
    set ks = {i. rc_firstkey cmd \<le> i \<and> i \<le> (if rc_lastkey cmd < 0 then int n + rc_lastkey cmd else rc_lastkey cmd) \<and>
      rc_keystep cmd dvd (i - rc_firstkey cmd)}"
proof -
  define l where "l = (if rc_lastkey cmd < 0 then int n + rc_lastkey cmd else rc_lastkey cmd)"
  have n: "\<bar>rc_arity cmd\<bar> \<le> int n" using assms(2) by (auto simp: wrong_arity_def)
  have s: "0 < rc_firstkey cmd" "0 < rc_keystep cmd" "rc_firstkey cmd \<le> l" "l < int n"
    using assms(1,3) n by (auto simp: spec_ok_def l_def split: if_splits)
  obtain ks where ks: "keys_from (rc_firstkey cmd) l (rc_keystep cmd) (int n) = Some ks"
    "set ks = {i. rc_firstkey cmd \<le> i \<and> i \<le> l \<and> rc_keystep cmd dvd (i - rc_firstkey cmd)}" "sorted_wrt (<) ks"
    using keys_from_range [OF s(2,1,4)] by blast
  have "getKeysUsingCommandTable cmd (int n) = Some ks"
    using assms(3) ks(1) s by (simp add: getKeysUsingCommandTable_def l_def [symmetric])
  moreover have "\<forall>k\<in>set ks. 0 < k \<and> k < int n" using ks(2) s by auto
  ultimately show ?thesis using ks(2,3) unfolding l_def [symmetric] by blast
qed

lemma table_spec: "list_all (\<lambda>cmd. rc_name cmd = ''object'' \<or> spec_ok cmd) redisCommandTable"
  unfolding redisCommandTable_def by (simp add: spec_ok_def entry_def)

lemma table_special: "list_all (\<lambda>cmd. rc_getkeys cmd = Some RenameGetKeys \<longrightarrow> rc_firstkey cmd = 1 \<and> rc_arity cmd = 3) redisCommandTable"
  "list_all (\<lambda>cmd. rc_getkeys cmd = Some ZunionInterGetKeys \<longrightarrow> rc_arity cmd \<le> -3) redisCommandTable"
  unfolding redisCommandTable_def by (simp_all add: entry_def)

section \<open>Properties\<close>

text \<open>C25.
  The table of commands loads: every character of the flags is known and no name appears twice, so
  neither the panic nor the assertion of the loop is met; afterwards the dictionary maps every
  name to its entry and nothing else, and the flags hold exactly the bits that the constants of
  \<open>redis.h\<close> give to the characters of the entry (written out in the statement), and no other bit.
\<close>

theorem command_table_loads:
  "\<exists>d. populateCommandTable = Some d \<and>
    dom d = rc_name ` set redisCommandTable \<and>
    (\<forall>cmd\<in>set redisCommandTable. \<exists>flags. d (rc_name cmd) = Some (cmd, flags) \<and> flags < 4096 \<and>
       (\<forall>(x, b) \<in> {(CHR ''w'', 1), (CHR ''r'', 2), (CHR ''m'', 4), (CHR ''f'', 8), (CHR ''a'', 16), (CHR ''p'', 32),
           (CHR ''s'', 64), (CHR ''R'', 128), (CHR ''S'', 256), (CHR ''l'', 512), (CHR ''t'', 1024), (CHR ''M'', 2048)}.
          flags AND b \<noteq> 0 \<longleftrightarrow> x \<in> set (rc_sflags cmd)))"
proof -
  have l: "List.map tolower (rc_name cmd) = rc_name cmd" if "cmd \<in> set redisCommandTable" for cmd
    using names_lower that by (simp add: list_all_iff)
  have m: "List.map (\<lambda>cmd. List.map tolower (rc_name cmd)) redisCommandTable = List.map rc_name redisCommandTable"
    using l by (intro list.map_cong0)
  have f: "parse_flags (rc_sflags cmd) 0 \<noteq> None" if "cmd \<in> set redisCommandTable" for cmd
    using flags_known that by (intro parse_flags_total) (simp add: list_all_iff)
  obtain d where d: "populate redisCommandTable Map.empty = Some d"
    "\<forall>cmd\<in>set redisCommandTable. d (List.map tolower (rc_name cmd)) = Some (cmd, the (parse_flags (rc_sflags cmd) 0))"
    "\<forall>name. name \<notin> (\<lambda>cmd. List.map tolower (rc_name cmd)) ` set redisCommandTable \<longrightarrow> d name = None"
    using populate_all [of redisCommandTable Map.empty] full_names f unfolding m by blast
  define T where "T = {(CHR ''w'', 1::nat), (CHR ''r'', 2), (CHR ''m'', 4), (CHR ''f'', 8), (CHR ''a'', 16), (CHR ''p'', 32),
           (CHR ''s'', 64), (CHR ''R'', 128), (CHR ''S'', 256), (CHR ''l'', 512), (CHR ''t'', 1024), (CHR ''M'', 2048)}"
  have bits: "\<forall>(x, b) \<in> T. flag_bit x = Some b" by (simp add: T_def flag_bit_def)
  have e: "\<exists>flags. d (rc_name cmd) = Some (cmd, flags) \<and> flags < 4096 \<and> (\<forall>(x, b) \<in> T. flags AND b \<noteq> 0 \<longleftrightarrow> x \<in> set (rc_sflags cmd))"
    if c: "cmd \<in> set redisCommandTable" for cmd
  proof -
    obtain flags where fl: "parse_flags (rc_sflags cmd) 0 = Some flags" using f [OF c] by blast
    have "\<forall>(x, b) \<in> T. flags AND b \<noteq> 0 \<longleftrightarrow> x \<in> set (rc_sflags cmd)"
      using bits parse_flags_bits [OF fl] by fastforce
    moreover have "flags < 4096"
      using parse_flags_bound [OF fl] take_bit_nat_less_exp [of 12 flags] by simp
    ultimately show ?thesis using d(2) c l [OF c] fl by auto
  qed
  have "dom d = rc_name ` set redisCommandTable"
  proof
    show "dom d \<subseteq> rc_name ` set redisCommandTable"
    proof
      fix name assume "name \<in> dom d"
      then have "name \<in> (\<lambda>cmd. List.map tolower (rc_name cmd)) ` set redisCommandTable" using d(3) by auto
      then show "name \<in> rc_name ` set redisCommandTable" using l by auto
    qed
    show "rc_name ` set redisCommandTable \<subseteq> dom d" using e by fastforce
  qed
  then show ?thesis using d(1) e unfolding populateCommandTable_def T_def by blast
qed

theorem command_table_loads_witness:
  "\<exists>d flags. populateCommandTable = Some d \<and>
     d ''set'' = Some (entry ''set'' (Some setCommand) (-3) ''wm'' (Some NoPreloadGetKeys) 1 1 1, flags) \<and>
     flags AND 1 \<noteq> 0 \<and> flags AND 2 = 0"
proof -
  let ?set = "entry ''set'' (Some setCommand) (-3) ''wm'' (Some NoPreloadGetKeys) 1 1 1"
  have "?set \<in> set redisCommandTable" by (simp only: redisCommandTable_def list.set insert_iff simp_thms)
  then obtain d flags where f: "populateCommandTable = Some d" "d (rc_name ?set) = Some (?set, flags)"
    "\<forall>(x, b) \<in> {(CHR ''w'', 1), (CHR ''r'', 2), (CHR ''m'', 4), (CHR ''f'', 8), (CHR ''a'', 16), (CHR ''p'', 32),
           (CHR ''s'', 64), (CHR ''R'', 128), (CHR ''S'', 256), (CHR ''l'', 512), (CHR ''t'', 1024), (CHR ''M'', 2048)}.
          flags AND b \<noteq> 0 \<longleftrightarrow> x \<in> set (rc_sflags ?set)"
    using command_table_loads by blast
  have "rc_name ?set = ''set''" "rc_sflags ?set = ''wm''" by (simp_all add: entry_def)
  with f show ?thesis by auto
qed

text \<open>C28.
  For every command of the table but OBJECT, and every request with an accepted number of arguments,
  the functions that find its keys fail no assertion and return, in increasing order, positions of
  arguments after the name: those from the first key to the last key of the entry in steps of its
  key step (none for a preload that wants none, the first name for RENAME's preload).  The commands
  whose key count is an argument (ZUNIONSTORE, ZINTERSTORE, EVAL, EVALSHA) are assumed to get a
  count that is not negative; they return that many positions from the third argument on, or none if
  there are not so many arguments.
\<close>

theorem command_keys_in_range:
  assumes "cmd \<in> set redisCommandTable" and "\<not> wrong_arity cmd (length args)" and "rc_name cmd \<noteq> ''object''"
    and "rc_getkeys cmd = Some ZunionInterGetKeys \<longrightarrow> 0 \<le> atoi (args ! 2)"
    and "lastkey = (if rc_lastkey cmd < 0 then int (length args) + rc_lastkey cmd else rc_lastkey cmd)"
  shows "\<exists>ks. getKeysFromCommand cmd args preload = Some ks \<and> sorted_wrt (<) ks \<and>
    (\<forall>k\<in>set ks. 0 < k \<and> k < int (length args)) \<and>
    set ks =
      (if rc_getkeys cmd = Some ZunionInterGetKeys
       then {i. atoi (args ! 2) \<le> int (length args) - 3 \<and> 3 \<le> i \<and> i < 3 + atoi (args ! 2)}
       else if preload \<and> rc_getkeys cmd = Some NoPreloadGetKeys then {}
       else if preload \<and> rc_getkeys cmd = Some RenameGetKeys then {1}
       else if rc_firstkey cmd = 0 then {}
       else {i. rc_firstkey cmd \<le> i \<and> i \<le> lastkey \<and> rc_keystep cmd dvd (i - rc_firstkey cmd)})"
proof -
  define table where "table = (if rc_firstkey cmd = 0 then {}
       else {i. rc_firstkey cmd \<le> i \<and> i \<le> lastkey \<and> rc_keystep cmd dvd (i - rc_firstkey cmd)})"
  have s: "spec_ok cmd" using table_spec assms(1,3) by (auto simp: list_all_iff)
  have plain: "\<exists>ks. getKeysUsingCommandTable cmd (int (length args)) = Some ks \<and> sorted_wrt (<) ks \<and>
      (\<forall>k\<in>set ks. 0 < k \<and> k < int (length args)) \<and> set ks = table"
  proof (cases "rc_firstkey cmd = 0")
    case True
    then show ?thesis by (simp add: getKeysUsingCommandTable_def table_def)
  next
    case False
    then show ?thesis using table_keys_range [OF s assms(2)] unfolding table_def assms(5) by simp
  qed
  have ar: "\<bar>rc_arity cmd\<bar> \<le> int (length args)" using assms(2) by (auto simp: wrong_arity_def)
  show ?thesis
    unfolding table_def [symmetric]
  proof (cases "rc_getkeys cmd")
    case None
    then show "\<exists>ks. getKeysFromCommand cmd args preload = Some ks \<and> sorted_wrt (<) ks \<and>
      (\<forall>k\<in>set ks. 0 < k \<and> k < int (length args)) \<and>
      set ks = (if rc_getkeys cmd = Some ZunionInterGetKeys
       then {i. atoi (args ! 2) \<le> int (length args) - 3 \<and> 3 \<le> i \<and> i < 3 + atoi (args ! 2)}
       else if preload \<and> rc_getkeys cmd = Some NoPreloadGetKeys then {}
       else if preload \<and> rc_getkeys cmd = Some RenameGetKeys then {1} else table)"
      using plain by (simp add: getKeysFromCommand_def)
  next
    case (Some p)
    show "\<exists>ks. getKeysFromCommand cmd args preload = Some ks \<and> sorted_wrt (<) ks \<and>
      (\<forall>k\<in>set ks. 0 < k \<and> k < int (length args)) \<and>
      set ks = (if rc_getkeys cmd = Some ZunionInterGetKeys
       then {i. atoi (args ! 2) \<le> int (length args) - 3 \<and> 3 \<le> i \<and> i < 3 + atoi (args ! 2)}
       else if preload \<and> rc_getkeys cmd = Some NoPreloadGetKeys then {}
       else if preload \<and> rc_getkeys cmd = Some RenameGetKeys then {1} else table)"
    proof (cases p)
      case NoPreloadGetKeys
      then show ?thesis using plain Some by (auto simp: getKeysFromCommand_def noPreloadGetKeys_def)
    next
      case RenameGetKeys
      then have "rc_arity cmd = 3" using table_special(1) assms(1) Some by (auto simp: list_all_iff)
      then show ?thesis using plain Some RenameGetKeys ar by (auto simp: getKeysFromCommand_def renameGetKeys_def)
    next
      case ZunionInterGetKeys
      then have "rc_arity cmd \<le> -3" using table_special(2) assms(1) Some by (auto simp: list_all_iff)
      then have len: "3 \<le> length args" using ar by linarith
      define n where "n = atoi (args ! 2)"
      have n: "0 \<le> n" using assms(4) Some ZunionInterGetKeys by (simp add: n_def)
      have "sorted_wrt (<) (List.map (\<lambda>i. 3 + int i) [0..<m])" for m
        by (simp add: sorted_wrt_iff_nth_less)
      moreover have "set (List.map (\<lambda>i. 3 + int i) [0..<nat n]) = {i. 3 \<le> i \<and> i < 3 + n}"
      proof -
        have "i \<in> (\<lambda>i. 3 + int i) ` {0..<nat n}" if "3 \<le> i" "i < 3 + n" for i
          using that by (intro image_eqI [where x = "nat (i - 3)"]) auto
        then show ?thesis using n by auto
      qed
      moreover have "getKeysFromCommand cmd args preload = Some (if n \<le> int (length args) - 3
          then List.map (\<lambda>i. 3 + int i) [0..<nat n] else [])"
        using Some ZunionInterGetKeys len n
        by (simp add: getKeysFromCommand_def zunionInterGetKeys_def n_def [symmetric])
      ultimately show ?thesis
        unfolding n_def [symmetric] using Some ZunionInterGetKeys by (cases "n \<le> int (length args) - 3") auto
    qed
  qed
qed

theorem command_keys_in_range_witness:
  "\<exists>ks. getKeysFromCommand (entry ''mset'' (Some msetCommand) (-3) ''wm'' None 1 (-1) 2) [''MSET'', ''a'', ''1'', ''b'', ''2''] False =
     Some ks \<and> sorted_wrt (<) ks \<and> set ks = {1, 3}"
proof -
  let ?e = "entry ''mset'' (Some msetCommand) (-3) ''wm'' None 1 (-1) 2" and ?a = "[''MSET'', ''a'', ''1'', ''b'', ''2'']"
  have e: "?e \<in> set redisCommandTable"
    by (simp only: redisCommandTable_def list.set insert_iff simp_thms)
  have s: "{i. 1 \<le> i \<and> i \<le> 4 \<and> 2 dvd (i - 1)} = {1, 3 :: int}"
  proof -
    have "i = 1 \<or> i = 3" if i: "1 \<le> i" "i \<le> 4" "2 dvd (i - 1)" for i :: int
    proof -
      have "i \<noteq> 2" "i \<noteq> 4" using i(3) by auto
      then show ?thesis using i(1,2) by linarith
    qed
    then have "{i. 1 \<le> i \<and> i \<le> 4 \<and> 2 dvd (i - 1)} \<subseteq> {1, 3 :: int}" by blast
    moreover have "{1, 3 :: int} \<subseteq> {i. 1 \<le> i \<and> i \<le> 4 \<and> 2 dvd (i - 1)}" by simp
    ultimately show ?thesis by (rule subset_antisym)
  qed
  have f: "rc_getkeys ?e = None" "rc_firstkey ?e = 1" "rc_lastkey ?e = -1" "rc_keystep ?e = 2" "rc_name ?e = ''mset''"
    "rc_arity ?e = -3" by (simp_all add: entry_def)
  have h: "\<not> wrong_arity ?e (length ?a)" "rc_name ?e \<noteq> ''object''"
    "rc_getkeys ?e = Some ZunionInterGetKeys \<longrightarrow> 0 \<le> atoi (?a ! 2)"
    "4 = (if rc_lastkey ?e < 0 then int (length ?a) + rc_lastkey ?e else rc_lastkey ?e)"
    unfolding wrong_arity_def f by simp_all
  obtain ks where k: "getKeysFromCommand ?e ?a False = Some ks" "sorted_wrt (<) ks"
    "set ks = {i. rc_firstkey ?e \<le> i \<and> i \<le> 4 \<and> rc_keystep ?e dvd (i - rc_firstkey ?e)}"
    using command_keys_in_range [OF e h, of False] f(1,2) by auto
  show ?thesis using k(1,2) k(3) [unfolded f s] by blast
qed

text \<open>
  The entry of OBJECT accepts two arguments but names the third as its key, and a negative key
  count is not tested: the assertion and the allocation would fail.  (Nothing calls these
  functions in this version.)
\<close>

theorem object_keys_fail:
  "entry ''object'' None (-2) ''r'' None 2 2 2 \<in> set redisCommandTable \<and>
    \<not> wrong_arity (entry ''object'' None (-2) ''r'' None 2 2 2) 2 \<and>
    getKeysUsingCommandTable (entry ''object'' None (-2) ''r'' None 2 2 2) 2 = None"
proof -
  have "entry ''object'' None (-2) ''r'' None 2 2 2 \<in> set redisCommandTable"
    by (simp only: redisCommandTable_def list.set insert_iff simp_thms)
  then show ?thesis
    by (simp add: entry_def wrong_arity_def getKeysUsingCommandTable_def) (subst keys_from.simps, simp)
qed

end
