(* ===== verification/Lzf.thy ===== *)
theory Lzf
  imports Prelude
begin

unbundle bit_operations_syntax

text \<open>
  LZF compression (\<open>src/lzf_c.c\<close>, \<open>src/lzf_d.c\<close>), configured as in \<open>src/lzfP.h\<close> on a 64 bit machine:
  a hash table of \<open>2 ^ 16\<close> slots, \<open>VERY_FAST\<close>, no initialisation of the table, checked input.
  Pointers into the input and the output are offsets; a read or a write outside the block is \<open>None\<close>.
  The hash table holds whatever was on the stack: offsets that need not lie in the input.
\<close>

section \<open>Compression\<close>

definition HLOG :: nat where "HLOG = 16"
definition MAX_LIT :: nat where "MAX_LIT = 32"
definition MAX_OFF :: int where "MAX_OFF = 8192"
definition MAX_REF :: nat where "MAX_REF = 264"

text \<open>A write of one byte; the value is truncated to 8 bits.\<close>

definition put :: "nat \<Rightarrow> nat \<Rightarrow> string \<Rightarrow> string option" where
  "put i v out = (if i < length out then Some (out[i := char_of v]) else None)"

definition FRST :: "string \<Rightarrow> nat \<Rightarrow> 32 word option" where
  "FRST inp p =
     (case (rd inp p, rd inp (p + 1)) of
        (Some a, Some b) \<Rightarrow> Some (push_bit 8 (word_of_nat (code a)) OR word_of_nat (code b))
      | _ \<Rightarrow> None)"

definition NEXT :: "32 word \<Rightarrow> string \<Rightarrow> nat \<Rightarrow> 32 word option" where
  "NEXT v inp p = (case rd inp (p + 2) of Some a \<Rightarrow> Some (push_bit 8 v OR word_of_nat (code a)) | None \<Rightarrow> None)"

definition IDX :: "32 word \<Rightarrow> nat" where
  "IDX h = unat ((drop_bit (3 * 8 - HLOG) h - h * 5) AND word_of_nat (2 ^ HLOG - 1))"

text \<open>Whether the bytes at \<open>i\<close> and \<open>j\<close> are equal.\<close>

definition same :: "string \<Rightarrow> nat \<Rightarrow> nat \<Rightarrow> bool option" where
  "same inp i j = (case (rd inp i, rd inp j) of (Some a, Some b) \<Rightarrow> Some (a = b) | _ \<Rightarrow> None)"

text \<open>
  The length of a match: up to 16 comparisons without a test of the length when the rest of the
  input is long enough (the result says whether one failed), then the loop with the test.
\<close>

fun unrolled :: "nat \<Rightarrow> string \<Rightarrow> nat \<Rightarrow> nat \<Rightarrow> nat \<Rightarrow> (bool \<times> nat) option" where
  "unrolled 0 inp ref ip len = Some (False, len)"
| "unrolled (Suc k) inp ref ip len =
     (case same inp (ref + (len + 1)) (ip + (len + 1)) of
        None \<Rightarrow> None
      | Some eq \<Rightarrow> if eq then unrolled k inp ref ip (len + 1) else Some (True, len + 1))"

function count_rest :: "string \<Rightarrow> nat \<Rightarrow> nat \<Rightarrow> nat \<Rightarrow> nat \<Rightarrow> nat option" where
  "count_rest inp ref ip maxlen len =
     (if len + 1 < maxlen
      then case same inp (ref + (len + 1)) (ip + (len + 1)) of
             None \<Rightarrow> None
           | Some eq \<Rightarrow> if eq then count_rest inp ref ip maxlen (len + 1) else Some (len + 1)
      else Some (len + 1))"
  by pat_completeness auto
termination by (relation "measure (\<lambda>(inp, ref, ip, maxlen, len). maxlen - len)") auto

declare count_rest.simps [simp del]

definition match_len :: "string \<Rightarrow> nat \<Rightarrow> nat \<Rightarrow> nat option" where
  "match_len inp ref ip =
     (let maxlen = length inp - ip - 2;
          maxlen = (if MAX_REF < maxlen then MAX_REF else maxlen)
      in if 16 < maxlen
         then case unrolled 16 inp ref ip 2 of
                None \<Rightarrow> None
              | Some (stop, len) \<Rightarrow> if stop then Some len else count_rest inp ref ip maxlen len
         else count_rest inp ref ip maxlen 2)"

text \<open>The tests on a candidate: near enough, not at the end, inside the input, three equal bytes.\<close>

definition is_match :: "string \<Rightarrow> int \<Rightarrow> nat \<Rightarrow> bool option" where
  "is_match inp ref ip =
     (if \<not> (0 \<le> int ip - ref - 1 \<and> int ip - ref - 1 < MAX_OFF \<and> ip + 4 < length inp \<and> 0 < ref) then Some False
      else case (same inp (nat ref) ip, same inp (nat ref + 1) (ip + 1), same inp (nat ref + 2) (ip + 2)) of
        (Some a, Some b, Some c) \<Rightarrow> Some (a \<and> b \<and> c)
      | _ \<Rightarrow> None)"

text \<open>
  \<open>stop_run\<close> closes the run of \<open>lit\<close> literals before \<open>op\<close>, or takes the byte reserved for its header
  back.  The results: \<open>None\<close> is an access out of bounds, \<open>Some None\<close> a return of 0.
\<close>

definition stop_run :: "nat \<Rightarrow> nat \<Rightarrow> string \<Rightarrow> (nat \<times> string) option" where
  "stop_run op lit out =
     (case put (op - lit - 1) (lit + 255) out of
        None \<Rightarrow> None
      | Some out \<Rightarrow> Some (if lit = 0 then op - 1 else op, out))"

text \<open>A back reference of \<open>len\<close> bytes at distance \<open>off + 1\<close>; the position behind it.\<close>

definition put_ref :: "nat \<Rightarrow> nat \<Rightarrow> nat \<Rightarrow> string \<Rightarrow> (nat \<times> string) option" where
  "put_ref op off len out =
     (let l = len - 2
      in if l < 7
         then Option.bind (put op (off div 256 + l * 32) out) (\<lambda>out.
              Option.bind (put (op + 1) off out) (\<lambda>out. Some (op + 2, out)))
         else Option.bind (put op (off div 256 + 7 * 32) out) (\<lambda>out.
              Option.bind (put (op + 1) (l - 7) out) (\<lambda>out.
              Option.bind (put (op + 2) off out) (\<lambda>out. Some (op + 3, out)))))"

text \<open>Entering the last two positions of a match into the table.\<close>

definition rehash :: "string \<Rightarrow> nat \<Rightarrow> (nat \<Rightarrow> int) \<Rightarrow> (32 word \<times> (nat \<Rightarrow> int)) option" where
  "rehash inp ip htab =
     Option.bind (FRST inp (ip - 2)) (\<lambda>hval.
     Option.bind (NEXT hval inp (ip - 2)) (\<lambda>hval.
       let htab = htab(IDX hval := int (ip - 2))
       in Option.bind (NEXT hval inp (ip - 1)) (\<lambda>hval.
          Some (hval, htab(IDX hval := int (ip - 1))))))"

text \<open>One more literal; a full run is closed.\<close>

definition put_literal :: "string \<Rightarrow> nat \<Rightarrow> nat \<Rightarrow> nat \<Rightarrow> string \<Rightarrow> (nat \<times> nat \<times> string) option" where
  "put_literal inp ip op lit out =
     (case rd inp ip of
        None \<Rightarrow> None
      | Some x \<Rightarrow>
          (case put op (code x) out of
             None \<Rightarrow> None
           | Some out \<Rightarrow>
               if lit + 1 = MAX_LIT
               then map_option (\<lambda>out. (op + 2, 0, out)) (put (op + 1 - (lit + 1) - 1) lit out)
               else Some (op + 1, lit + 1, out)))"

lemma unrolled_ge: "unrolled k inp ref ip len = Some (b, n) \<Longrightarrow> len \<le> n \<and> (b \<longrightarrow> len < n)"
proof (induction k arbitrary: len)
  case (Suc k)
  then consider "n = len + 1" | "unrolled k inp ref ip (len + 1) = Some (b, n)"
    by (auto split: option.splits if_splits)
  then show ?case using Suc.IH [of "len + 1"] by cases simp_all
qed simp

lemma count_rest_ge: "count_rest inp ref ip maxlen len = Some n \<Longrightarrow> len < n"
proof (induction inp ref ip maxlen len rule: count_rest.induct)
  case (1 inp ref ip maxlen len)
  then show ?case by (subst (asm) (2) count_rest.simps) (force split: if_splits option.splits)
qed

lemma match_len_ge: "match_len inp ref ip = Some n \<Longrightarrow> 2 < n"
  by (auto simp: match_len_def Let_def split: if_splits option.splits dest!: count_rest_ge unrolled_ge)

text \<open>The main loop; it ends with the input position, the output position, the open run and the output.\<close>

function lzf_loop :: "string \<Rightarrow> nat \<Rightarrow> nat \<Rightarrow> nat \<Rightarrow> nat \<Rightarrow> 32 word \<Rightarrow> (nat \<Rightarrow> int) \<Rightarrow> string \<Rightarrow>
    (nat \<times> nat \<times> nat \<times> string) option option" where
  "lzf_loop inp out_len ip op lit hval htab out =
     (if \<not> int ip < int (length inp) - 2 then Some (Some (ip, op, lit, out))
      else case NEXT hval inp ip of
        None \<Rightarrow> None
      | Some hval \<Rightarrow>
          let ref = htab (IDX hval); htab = htab(IDX hval := int ip)
          in case is_match inp ref ip of
            None \<Rightarrow> None
          | Some True \<Rightarrow>
              (case stop_run op lit out of
                 None \<Rightarrow> None
               | Some (op, out) \<Rightarrow>
                   if out_len \<le> op + 3 + 1 then Some None
                   else case match_len inp (nat ref) ip of
                     None \<Rightarrow> None
                   | Some len \<Rightarrow>
                       (case put_ref op (nat (int ip - ref - 1)) len out of
                          None \<Rightarrow> None
                        | Some (op, out) \<Rightarrow>
                            if int (length inp) - 2 \<le> int (ip + len)
                            then Some (Some (ip + len, op + 1, 0, out))
                            else case rehash inp (ip + len) htab of
                              None \<Rightarrow> None
                            | Some (hval, htab) \<Rightarrow> lzf_loop inp out_len (ip + len) (op + 1) 0 hval htab out))
          | Some False \<Rightarrow>
              if out_len \<le> op then Some None
              else (case put_literal inp ip op lit out of
                None \<Rightarrow> None
              | Some (op, lit, out) \<Rightarrow> lzf_loop inp out_len (ip + 1) op lit hval htab out))"
  by pat_completeness auto
termination
  by (relation "measure (\<lambda>(inp, out_len, ip, op, lit, hval, htab, out). length inp - ip)")
    (auto dest!: match_len_ge)

declare lzf_loop.simps [simp del]

function lzf_flush :: "string \<Rightarrow> nat \<Rightarrow> nat \<Rightarrow> nat \<Rightarrow> string \<Rightarrow> (nat \<times> nat \<times> string) option" where
  "lzf_flush inp ip op lit out =
     (if \<not> ip < length inp then Some (op, lit, out)
      else case put_literal inp ip op lit out of
        None \<Rightarrow> None
      | Some (op, lit, out) \<Rightarrow> lzf_flush inp (ip + 1) op lit out)"
  by pat_completeness auto
termination by (relation "measure (\<lambda>(inp, ip, op, lit, out). length inp - ip)") auto

declare lzf_flush.simps [simp del]

text \<open>\<open>out\<close> is the block the result goes to; the function returns how much of it is used, 0 if it does not fit.\<close>

definition lzf_compress :: "(nat \<Rightarrow> int) \<Rightarrow> string \<Rightarrow> string \<Rightarrow> nat \<Rightarrow> (nat \<times> string) option" where
  "lzf_compress htab inp out out_len =
     (if length inp = 0 \<or> out_len = 0 then Some (0, out)
      else case FRST inp 0 of
        None \<Rightarrow> None
      | Some hval \<Rightarrow>
          (case lzf_loop inp out_len 0 1 0 hval htab out of
             None \<Rightarrow> None
           | Some None \<Rightarrow> Some (0, out)
           | Some (Some (ip, op, lit, out)) \<Rightarrow>
               if out_len < op + 3 then Some (0, out)
               else case lzf_flush inp ip op lit out of
                 None \<Rightarrow> None
               | Some (op, lit, out) \<Rightarrow> stop_run op lit out))"

section \<open>Decompression\<close>

text \<open>
  The output is what has been written so far; nothing else of the block is read.  \<open>Some None\<close> is a
  return of 0.
\<close>

fun copy_ref :: "nat \<Rightarrow> nat \<Rightarrow> string \<Rightarrow> string" where
  "copy_ref 0 ref s = s"
| "copy_ref (Suc n) ref s = copy_ref n (ref + 1) (s @ [s ! ref])"

text \<open>One instruction: the rest of the input and the output.\<close>

definition lzf_step :: "string \<Rightarrow> nat \<Rightarrow> string \<Rightarrow> (string \<times> string) option option" where
  "lzf_step inp out_len out =
     (case inp of
        [] \<Rightarrow> None
      | c # ip \<Rightarrow>
          let ctrl = code c
          in if ctrl < 32
             then (if out_len < length out + (ctrl + 1) \<or> length ip < ctrl + 1 then Some None
                   else Some (Some (drop (ctrl + 1) ip, out @ take (ctrl + 1) ip)))
             else case ip of
               [] \<Rightarrow> Some None
             | b # ip1 \<Rightarrow>
                 let len = ctrl div 32
                 in if len = 7 \<and> ip1 = [] then Some None
                    else let (len, o1, ip2) = (if len = 7 then (len + code b, hd ip1, tl ip1) else (len, b, ip1));
                             ref = int (length out) - int ((ctrl mod 32) * 256) - 1 - int (code o1)
                         in if out_len < length out + len + 2 \<or> ref < 0 then Some None
                            else Some (Some (ip2, copy_ref (len + 2) (nat ref) out)))"

lemma lzf_step_shorter: "lzf_step inp n out = Some (Some (inp', out')) \<Longrightarrow> length inp' < length inp"
  by (cases inp) (auto simp: lzf_step_def Let_def split: if_splits list.splits)

function lzf_decode :: "string \<Rightarrow> nat \<Rightarrow> string \<Rightarrow> string option option" where
  "lzf_decode inp out_len out =
     (case lzf_step inp out_len out of
        None \<Rightarrow> None
      | Some None \<Rightarrow> Some None
      | Some (Some (inp, out)) \<Rightarrow> if inp = [] then Some (Some out) else lzf_decode inp out_len out)"
  by pat_completeness auto
termination
  by (relation "measure (\<lambda>(inp, n, out). length inp)") (auto dest: lzf_step_shorter)

declare lzf_decode.simps [simp del]

definition lzf_decompress :: "string \<Rightarrow> nat \<Rightarrow> string option option" where
  "lzf_decompress inp out_len = lzf_decode inp out_len []"

section \<open>What the decoder makes of codes\<close>

definition ref_code :: "nat \<Rightarrow> nat \<Rightarrow> string" where
  "ref_code off len =
     (if len - 2 < 7 then [char_of (off div 256 + (len - 2) * 32), char_of off]
      else [char_of (off div 256 + 7 * 32), char_of (len - 2 - 7), char_of off])"

inductive codes :: "string \<Rightarrow> string \<Rightarrow> bool" where
  nil: "codes [] []"
| lit: "codes cs s \<Longrightarrow> xs \<noteq> [] \<Longrightarrow> length xs \<le> 32 \<Longrightarrow> codes (cs @ char_of (length xs - 1) # xs) (s @ xs)"
| ref: "codes cs s \<Longrightarrow> 3 \<le> len \<Longrightarrow> len \<le> 264 \<Longrightarrow> off < 8192 \<Longrightarrow> off < length s \<Longrightarrow>
    codes (cs @ ref_code off len) (copy_ref len (length s - off - 1) s)"

lemma length_copy_ref [simp]: "length (copy_ref n r s) = length s + n"
  by (induction n arbitrary: r s) simp_all

lemma step_literals:
  assumes "xs \<noteq> []" "length xs \<le> 32" "length (s @ xs) \<le> n"
  shows "lzf_step ((char_of (length xs - 1) # xs) @ rest) n s = Some (Some (rest, s @ xs))"
proof -
  have c: "code (char_of (length xs - 1)) = length xs - 1" using assms(2) by simp
  have "0 < length xs" using assms(1) by simp
  then have l: "Suc (length xs - 1) = length xs" "length xs - 1 < 32" using assms(2) by linarith+
  show ?thesis using assms(3) l unfolding lzf_step_def append_Cons list.case Let_def c by simp
qed

lemma step_ref:
  assumes "3 \<le> len" "len \<le> 264" "off < 8192" "off < length s" "length s + len \<le> n"
  shows "lzf_step (ref_code off len @ rest) n s = Some (Some (rest, copy_ref len (length s - off - 1) s))"
proof -
  have o: "off div 256 < 32" using assms(3) by (simp add: div_less_iff_less_mult)
  have off: "code (char_of off) = off mod 256" by (simp add: code_def)
  have "int (length s) - int (off div 256) * 256 - 1 - int (off mod 256) = int (length s - Suc off)"
    using assms(4) div_mult_mod_eq [of off 256] by linarith
  then have r: "nat (int (length s) - int (off div 256) * 256 - 1 - int (off mod 256)) = length s - Suc off"
    "\<not> int (length s) - int (off div 256) * 256 - 1 < int (off mod 256)" by linarith+
  show ?thesis
  proof (cases "len - 2 < 7")
    case True
    let ?c = "off div 256 + (len - 2) * 32"
    have c: "code (char_of ?c) = ?c" using True o by (intro code_char_of) linarith
    have d: "?c div 32 = len - 2" "?c mod 32 = off div 256" "\<not> ?c < 32" using o assms(1) by simp_all
    have e: "ref_code off len @ rest = char_of ?c # char_of off # rest" using True by (simp add: ref_code_def)
    have l: "len - 2 + 2 = len" "len - 2 \<noteq> 7" "\<not> n < length s + (len - 2) + 2" using assms(1,5) True by linarith+
    show ?thesis
      unfolding lzf_step_def e list.case Let_def c d using d(3) l by (simp add: off r)
  next
    case False
    let ?c = "off div 256 + 7 * 32"
    have c: "code (char_of ?c) = ?c" using o by (intro code_char_of) linarith
    have "?c mod 32 = off div 256 mod 32" by (rule mod_mult_self1)
    then have d: "?c div 32 = 7" "?c mod 32 = off div 256" "\<not> ?c < 32" using o by simp_all
    have b: "code (char_of (len - 2 - 7)) = len - 2 - 7" using assms(2) by (intro code_char_of) linarith
    have e: "ref_code off len @ rest = char_of ?c # char_of (len - 2 - 7) # char_of off # rest" using False by (simp add: ref_code_def)
    have l: "7 + (len - 2 - 7) + 2 = len" "Suc (Suc (len - 2)) = len" "\<not> n < length s + (7 + (len - 2 - 7)) + 2" using assms(1,5) False by linarith+
    show ?thesis
      unfolding lzf_step_def e list.case Let_def c d b using d(3) l by (simp add: off r b del: copy_ref.simps)
  qed
qed

lemma decode_codes:
  "codes cs s \<Longrightarrow> length s \<le> n \<Longrightarrow> rest \<noteq> [] \<or> cs \<noteq> [] \<Longrightarrow>
     lzf_decode (cs @ rest) n [] = (if rest = [] then Some (Some s) else lzf_decode rest n s)"
proof (induction arbitrary: rest rule: codes.induct)
  case nil
  then show ?case by simp
next
  case (lit cs s xs)
  let ?t = "char_of (length xs - 1) # xs"
  have "lzf_decode (cs @ ?t @ rest) n [] = lzf_decode (?t @ rest) n s"
    using lit.IH [of "?t @ rest"] lit.prems(1) by simp
  then show ?case
    using step_literals [OF lit.hyps(2,3) lit.prems(1), of rest] by (simp add: lzf_decode.simps [of _ n s])
next
  case (ref cs s len off)
  let ?t = "ref_code off len"
  have t: "?t @ rest \<noteq> []" by (simp add: ref_code_def)
  have "lzf_decode (cs @ ?t @ rest) n [] = lzf_decode (?t @ rest) n s"
    using ref.IH [of "?t @ rest"] ref.prems(1) t by (simp only: if_False append_assoc) simp
  then show ?case
    using step_ref [OF ref.hyps(2-5), of n rest] ref.prems(1) by (simp add: lzf_decode.simps [of "?t @ rest" n s])
qed

text \<open>A copy from the output itself, also one that overlaps what it writes.\<close>

lemma copy_ref_take:
  assumes "r < ip" "ip + k \<le> length inp" "\<forall>j<k. inp ! (r + j) = inp ! (ip + j)"
  shows "copy_ref k r (take ip inp) = take (ip + k) inp"
  using assms
proof (induction k arbitrary: r ip)
  case (Suc k)
  have "inp ! r = inp ! ip" using Suc.prems(3) by force
  then have s: "take ip inp @ [take ip inp ! r] = take (Suc ip) inp"
    using Suc.prems(1,2) by (simp add: take_Suc_conv_app_nth)
  have "\<forall>j<k. inp ! (Suc r + j) = inp ! (Suc ip + j)" using Suc.prems(3) by (metis add_Suc add_Suc_right Suc_less_eq)
  from Suc.IH [of "Suc r" "Suc ip", OF _ _ this] s Suc.prems(1,2) show ?case by simp
qed simp

section \<open>The matches of the compressor\<close>

lemma same_Some: "i < length inp \<Longrightarrow> j < length inp \<Longrightarrow> same inp i j = Some (inp ! i = inp ! j)"
  by (simp add: same_def rd_def)

definition matches :: "string \<Rightarrow> nat \<Rightarrow> nat \<Rightarrow> nat \<Rightarrow> bool" where
  "matches inp ref ip len \<longleftrightarrow> (\<forall>j<len. inp ! (ref + j) = inp ! (ip + j))"

lemma matches_Suc: "matches inp ref ip (Suc len) \<longleftrightarrow> matches inp ref ip len \<and> inp ! (ref + len) = inp ! (ip + len)"
  by (auto simp: matches_def less_Suc_eq)

lemma unrolled_ok:
  assumes "ref < ip" "ip + (len + k) < length inp" "matches inp ref ip (Suc len)"
  shows "\<exists>b n. unrolled k inp ref ip len = Some (b, n) \<and> len \<le> n \<and> n \<le> len + k \<and> matches inp ref ip n \<and>
    (\<not> b \<longrightarrow> n = len + k \<and> matches inp ref ip (Suc n))"
  using assms(2,3)
proof (induction k arbitrary: len)
  case (Suc k)
  have s: "same inp (ref + (len + 1)) (ip + (len + 1)) = Some (inp ! (ref + (len + 1)) = inp ! (ip + (len + 1)))"
    using Suc.prems(1) assms(1) by (intro same_Some) simp_all
  show ?case
  proof (cases "inp ! (ref + (len + 1)) = inp ! (ip + (len + 1))")
    case True
    then have "matches inp ref ip (Suc (len + 1))" using Suc.prems(2) by (simp add: matches_Suc)
    then obtain b n where "unrolled k inp ref ip (len + 1) = Some (b, n)" "len + 1 \<le> n" "n \<le> len + 1 + k"
      "matches inp ref ip n" "\<not> b \<longrightarrow> n = len + 1 + k \<and> matches inp ref ip (Suc n)"
      using Suc.IH [of "len + 1"] Suc.prems(1) by auto
    then show ?thesis using s True by auto
  next
    case False
    then show ?thesis using s Suc.prems(2) by auto
  qed
next
  case 0
  then show ?case by (intro exI [of _ False] exI [of _ len]) (simp add: matches_Suc)
qed

lemma count_rest_ok:
  assumes "ref < ip" "ip + maxlen < length inp" "ip + len < length inp" "matches inp ref ip (Suc len)"
  shows "\<exists>n. count_rest inp ref ip maxlen len = Some n \<and> len < n \<and> n \<le> max maxlen (len + 1) \<and> matches inp ref ip n"
  using assms(3,4)
proof (induction "maxlen - len" arbitrary: len)
  case 0
  then have "count_rest inp ref ip maxlen len = Some (len + 1)" by (subst count_rest.simps) simp
  then show ?case using 0 by simp
next
  case (Suc d)
  show ?case
  proof (cases "len + 1 < maxlen")
    case False
    then have "count_rest inp ref ip maxlen len = Some (len + 1)" by (subst count_rest.simps) simp
    then show ?thesis using Suc.prems by simp
  next
    case True
    have s: "same inp (ref + (len + 1)) (ip + (len + 1)) = Some (inp ! (ref + (len + 1)) = inp ! (ip + (len + 1)))"
      using True assms(1,2) by (intro same_Some) simp_all
    show ?thesis
    proof (cases "inp ! (ref + (len + 1)) = inp ! (ip + (len + 1))")
      case eq: True
      then have "matches inp ref ip (Suc (len + 1))" using Suc.prems(2) by (simp add: matches_Suc)
      moreover have "d = maxlen - (len + 1)" "ip + (len + 1) < length inp" using Suc.hyps(2) True assms(2) by simp_all
      ultimately obtain n where "count_rest inp ref ip maxlen (len + 1) = Some n" "len + 1 < n" "n \<le> max maxlen (len + 1 + 1)" "matches inp ref ip n"
        using Suc.hyps(1) [of "len + 1"] by blast
      then show ?thesis using True s eq by (subst count_rest.simps) auto
    next
      case False
      have "count_rest inp ref ip maxlen len = Some (len + 1)"
        using True s False by (subst count_rest.simps) simp
      then show ?thesis using Suc.prems by simp
    qed
  qed
qed

lemma is_match_ok:
  assumes "ip < length inp"
  obtains b where "is_match inp ref ip = Some b"
    "b \<Longrightarrow> 0 < ref \<and> nat ref < ip \<and> ip - nat ref - 1 < 8192 \<and> ip + 4 < length inp \<and> matches inp (nat ref) ip 3"
proof (cases "0 \<le> int ip - ref - 1 \<and> int ip - ref - 1 < MAX_OFF \<and> ip + 4 < length inp \<and> 0 < ref")
  case False
  then show thesis using that [of False] by (auto simp: is_match_def)
next
  case True
  then have r: "0 < ref" "nat ref < ip" "ip - nat ref - 1 < 8192" "ip + 4 < length inp" by (auto simp: MAX_OFF_def)
  have m: "matches inp (nat ref) ip 3 \<longleftrightarrow> inp ! nat ref = inp ! ip \<and> inp ! (nat ref + 1) = inp ! (ip + 1) \<and> inp ! (nat ref + 2) = inp ! (ip + 2)"
    by (simp add: numeral_3_eq_3 numeral_2_eq_2 matches_Suc) (simp add: matches_def)
  have "is_match inp ref ip = Some (matches inp (nat ref) ip 3)"
    using True r by (simp add: is_match_def same_Some m)
  then show thesis using that [of "matches inp (nat ref) ip 3"] r by blast
qed

lemma match_len_ok:
  assumes "ref < ip" "ip + 4 < length inp" "matches inp ref ip 3"
  obtains len where "match_len inp ref ip = Some len" "3 \<le> len" "len \<le> 264" "ip + len \<le> length inp" "matches inp ref ip len"
proof -
  define m where "m = (if MAX_REF < length inp - ip - 2 then MAX_REF else length inp - ip - 2)"
  have m: "3 \<le> m" "m \<le> 264" "ip + m + 2 \<le> length inp" using assms(2) by (auto simp: m_def MAX_REF_def)
  have m3: "matches inp ref ip (Suc 2)" using assms(3) by (simp add: numeral_3_eq_3 numeral_2_eq_2)
  have d: "match_len inp ref ip =
      (if 16 < m then case unrolled 16 inp ref ip 2 of None \<Rightarrow> None
         | Some (stop, len) \<Rightarrow> if stop then Some len else count_rest inp ref ip m len
       else count_rest inp ref ip m 2)"
    by (simp only: match_len_def m_def Let_def)
  show thesis
  proof (cases "16 < m")
    case False
    obtain n where "count_rest inp ref ip m 2 = Some n" "2 < n" "n \<le> max m (2 + 1)" "matches inp ref ip n"
      using count_rest_ok [OF assms(1), of m inp 2] m m3 by auto
    then show thesis using that [of n] d False m by simp
  next
    case True
    obtain b n where u: "unrolled 16 inp ref ip 2 = Some (b, n)" "2 \<le> n" "n \<le> 18" "matches inp ref ip n"
      "\<not> b \<longrightarrow> n = 18 \<and> matches inp ref ip (Suc n)"
      using unrolled_ok [OF assms(1) _ m3, of 16] True m(3) by auto
    show thesis
    proof (cases b)
      case True
      have "2 < n" using unrolled_ge [OF u(1)] True by simp
      then show thesis using that [of n] d \<open>16 < m\<close> u True m by simp
    next
      case False
      then have n: "n = 18" "matches inp ref ip (Suc 18)" using u(5) by metis+
      obtain k where "count_rest inp ref ip m 18 = Some k" "18 < k" "k \<le> max m (18 + 1)" "matches inp ref ip k"
        using count_rest_ok [OF assms(1) _ _ n(2), of m] m True by auto
      then show thesis using that [of k] d \<open>16 < m\<close> u(1) False n(1) m by simp
    qed
  qed
qed

section \<open>The compressor\<close>

text \<open>
  Between two steps: the codes before the header of the open run at \<open>op - lit - 1\<close> stand for the
  input before the run, and the bytes of the run are in place.
\<close>

definition progress :: "string \<Rightarrow> nat \<Rightarrow> nat \<Rightarrow> nat \<Rightarrow> string \<Rightarrow> bool" where
  "progress inp ip op lit out \<longleftrightarrow>
     ip \<le> length inp \<and> lit \<le> ip \<and> lit < 32 \<and> lit < op \<and> op \<le> length out \<and>
     codes (take (op - lit - 1) out) (take (ip - lit) inp) \<and>
     take lit (drop (op - lit) out) = take lit (drop (ip - lit) inp)"

lemma put_Some: "i < length out \<Longrightarrow> put i v out = Some (out[i := char_of v])"
  by (simp add: put_def)

lemma closed_run:
  assumes "codes (take h out) s" "xs \<noteq> []" "length xs \<le> 32" "take (length xs) (drop (h + 1) out) = xs"
    "h + 1 + length xs \<le> length out"
  shows "codes (take (h + 1 + length xs) (out[h := char_of (length xs - 1)])) (s @ xs)"
proof -
  have "take (h + 1 + length xs) (out[h := char_of (length xs - 1)]) = take h out @ char_of (length xs - 1) # xs"
  proof (rule nth_equalityI)
    show "length (take (h + 1 + length xs) (out[h := char_of (length xs - 1)])) = length (take h out @ char_of (length xs - 1) # xs)"
      using assms(5) by simp
    fix i assume i: "i < length (take (h + 1 + length xs) (out[h := char_of (length xs - 1)]))"
    have "i < h + 1 + length xs" using i by simp
    then consider "i < h" | "i = h" | "h < i" "i - h - 1 < length xs" by linarith
    then show "take (h + 1 + length xs) (out[h := char_of (length xs - 1)]) ! i = (take h out @ char_of (length xs - 1) # xs) ! i"
    proof cases
      case 3
      have "xs ! (i - h - 1) = take (length xs) (drop (h + 1) out) ! (i - h - 1)" using assms(4) by simp
      also have "\<dots> = out ! i" using 3 assms(5) by simp
      finally have x: "out ! i = xs ! (i - h - 1)" by simp
      have "i - h = Suc (i - h - 1)" using 3(1) by simp
      then show ?thesis using x 3 assms(5) by (simp add: nth_append)
    qed (use assms(5) in \<open>auto simp: nth_append\<close>)
  qed
  then show ?thesis using codes.lit [OF assms(1-3)] by simp
qed

lemma stop_run_ok:
  assumes "progress inp ip op lit out"
  obtains op' out' where "stop_run op lit out = Some (op', out')" "op' = (if lit = 0 then op - 1 else op)"
    "length out' = length out" "codes (take op' out') (take ip inp)"
proof -
  let ?out = "out[op - lit - 1 := char_of (lit + 255)]"
  let ?xs = "take lit (drop (ip - lit) inp)"
  have p: "ip \<le> length inp" "lit \<le> ip" "lit < 32" "lit < op" "op \<le> length out"
    "codes (take (op - lit - 1) out) (take (ip - lit) inp)" "take lit (drop (op - lit) out) = ?xs"
    using assms by (simp_all add: progress_def)
  have s: "stop_run op lit out = Some (if lit = 0 then op - 1 else op, ?out)"
    using p by (simp add: stop_run_def put_Some)
  show thesis
  proof (cases "lit = 0")
    case True
    then have "codes (take (op - 1) ?out) (take ip inp)" using p(6) by simp
    then show thesis using that s True by simp
  next
    case False
    have l: "length ?xs = lit" using p(1,2) by simp
    have e: "op - lit - 1 + 1 = op - lit" using p(4) by simp
    have c: "char_of (lit + 255) = (char_of (lit - 1) :: char)"
    proof -
      have "lit + 255 = (lit - 1) + 256" using False by simp
      then show ?thesis using char_of_mod_256 [of "lit - 1 + 256"] char_of_mod_256 [of "lit - 1"] by (metis mod_add_self2)
    qed
    have "codes (take (op - lit - 1 + 1 + length ?xs) (out[op - lit - 1 := char_of (length ?xs - 1)])) (take (ip - lit) inp @ ?xs)"
    proof (rule closed_run [OF p(6)])
      show "?xs \<noteq> []" using l False by (metis list.size(3))
      show "length ?xs \<le> 32" using l p(3) by simp
      show "take (length ?xs) (drop (op - lit - 1 + 1) out) = ?xs" using p(7) unfolding l e .
      show "op - lit - 1 + 1 + length ?xs \<le> length out" using p(4,5) l by simp
    qed
    moreover have "take (ip - lit) inp @ ?xs = take ip inp" using p(1,2) by (metis le_add_diff_inverse2 take_add)
    moreover have "op - lit - 1 + 1 + lit = op" using p(4) by simp
    ultimately have "codes (take op ?out) (take ip inp)" unfolding l c by (simp only:)
    then show thesis using that s False by simp
  qed
qed

lemma put_literal_ok:
  assumes "progress inp ip op lit out" "ip < length inp" "op + 1 < length out"
  obtains op' lit' out' where "put_literal inp ip op lit out = Some (op', lit', out')" "length out' = length out"
    "progress inp (ip + 1) op' lit' out'"
    "lit' = lit + 1 \<and> op' = op + 1 \<or> lit' = 0 \<and> op' = op + 2 \<and> lit = 31"
proof -
  let ?out = "out[op := inp ! ip]"
  let ?xs = "take (lit + 1) (drop (ip - lit) inp)"
  have p: "ip \<le> length inp" "lit \<le> ip" "lit < 32" "lit < op" "op \<le> length out"
    "codes (take (op - lit - 1) out) (take (ip - lit) inp)" "take lit (drop (op - lit) out) = take lit (drop (ip - lit) inp)"
    using assms(1) by (simp_all add: progress_def)
  have c: "codes (take (op - lit - 1) ?out) (take (ip - lit) inp)" using p(4,6) by simp
  have t: "take (lit + 1) (drop (op - lit) ?out) = ?xs"
  proof -
    have "take (lit + 1) (drop (op - lit) ?out) = take lit (drop (op - lit) ?out) @ [?out ! op]"
      using p(4) assms(3) by (simp add: take_Suc_conv_app_nth)
    moreover have "take lit (drop (op - lit) ?out) = take lit (drop (op - lit) out)"
      using p(4,5) by (simp add: drop_update_swap)
    moreover have "?xs = take lit (drop (ip - lit) inp) @ [inp ! ip]"
      using p(2) assms(2) by (simp add: take_Suc_conv_app_nth)
    ultimately show ?thesis using p(7) assms(3) by simp
  qed
  have r: "rd inp ip = Some (inp ! ip)" "put op (code (inp ! ip)) out = Some ?out"
    using assms(2,3) by (simp_all add: rd_def put_Some)
  show thesis
  proof (cases "lit + 1 = MAX_LIT")
    case False
    have "progress inp (ip + 1) (op + 1) (lit + 1) ?out"
      using p c t assms(2,3) False by (simp add: progress_def MAX_LIT_def)
    then show thesis using that [of "op + 1" "lit + 1" ?out] r False by (simp add: put_literal_def)
  next
    case True
    then have lit: "lit = 31" by (simp add: MAX_LIT_def)
    have l: "length ?xs = 32" using p(1,2) assms(2) lit by simp
    have e: "op - lit - 1 + 1 = op - lit" using p(4) by simp
    let ?out2 = "?out[op - lit - 1 := char_of lit]"
    have "codes (take (op - lit - 1 + 1 + length ?xs) (?out[op - lit - 1 := char_of (length ?xs - 1)])) (take (ip - lit) inp @ ?xs)"
    proof (rule closed_run [OF c])
      show "?xs \<noteq> []" using l by (metis list.size(3) zero_neq_numeral)
      show "length ?xs \<le> 32" using l by simp
      show "take (length ?xs) (drop (op - lit - 1 + 1) ?out) = ?xs" using t unfolding l e by (simp add: lit)
      show "op - lit - 1 + 1 + length ?xs \<le> length ?out" using p(4) l lit assms(3) by simp
    qed
    moreover have "take (ip - lit) inp @ ?xs = take (ip + 1) inp" using p(2) by (metis Nat.add_diff_assoc2 le_add_diff_inverse2 take_add add.assoc)
    moreover have "op - lit - 1 + 1 + 32 = op + 1" using p(4) lit by simp
    ultimately have "codes (take (op + 1) ?out2) (take (ip + 1) inp)" using l lit by simp
    then have "progress inp (ip + 1) (op + 2) 0 ?out2" using assms(2,3) by (simp add: progress_def)
    moreover have "put (op + 1 - (lit + 1) - 1) lit ?out = Some ?out2" using p(4,5) by (simp add: put_Some)
    ultimately show thesis using that [of "op + 2" 0 ?out2] r True lit by (simp add: put_literal_def)
  qed
qed

lemma put_ref_ok:
  assumes "3 \<le> len" "op + 3 < length out"
  obtains out' k where "put_ref op off len out = Some (op + k, out')" "length out' = length out" "k \<le> 3"
    "take (op + k) out' = take op out @ ref_code off len"
proof (cases "len - 2 < 7")
  case True
  let ?out = "out[op := char_of (off div 256 + (len - 2) * 32), op + 1 := char_of off]"
  have "take (op + 2) ?out = take op out @ ref_code off len"
    using assms(2) True by (intro nth_equalityI) (auto simp: ref_code_def nth_append nth_list_update nth_Cons' less_Suc_eq numeral_2_eq_2)
  then show thesis using that [of 2 ?out] True assms(2) by (simp add: put_ref_def put_Some)
next
  case False
  let ?out = "out[op := char_of (off div 256 + 7 * 32), op + 1 := char_of (len - 2 - 7), op + 2 := char_of off]"
  have "take (op + 3) ?out = take op out @ ref_code off len"
    using assms(2) False by (intro nth_equalityI) (auto simp: ref_code_def nth_append nth_list_update nth_Cons' less_Suc_eq numeral_3_eq_3)
  then show thesis using that [of 3 ?out] False assms(2) by (simp add: put_ref_def put_Some)
qed

lemma FRST_Some: "p + 1 < length inp \<Longrightarrow> \<exists>v. FRST inp p = Some v"
  by (simp add: FRST_def rd_def)

lemma NEXT_Some: "p + 2 < length inp \<Longrightarrow> \<exists>v'. NEXT v inp p = Some v'"
  by (simp add: NEXT_def rd_def)

lemma rehash_ok:
  assumes "2 \<le> ip" "ip + 2 < length inp"
  obtains hval htab' where "rehash inp ip htab = Some (hval, htab')"
proof -
  have "ip - 2 + 1 < length inp" using assms by linarith
  then obtain v where "FRST inp (ip - 2) = Some v" using FRST_Some by blast
  moreover have "ip - 2 + 2 < length inp" "ip - 1 + 2 < length inp" using assms by linarith+
  then obtain v' v'' where "NEXT v inp (ip - 2) = Some v'" "NEXT v' inp (ip - 1) = Some v''" using NEXT_Some by meson
  ultimately show thesis using that by (simp add: rehash_def Let_def)
qed

text \<open>A match closes the run and appends one back reference.\<close>

lemma reference_ok:
  assumes "progress inp ip op lit out" "ref < ip" "ip - ref - 1 < 8192" "ip + len \<le> length inp"
    "3 \<le> len" "len \<le> 264" "matches inp ref ip len"
    "stop_run op lit out = Some (op1, out1)" "op1 + 3 < length out"
  obtains op2 out2 where "put_ref op1 (ip - ref - 1) len out1 = Some (op2, out2)" "length out2 = length out"
    "op2 \<le> op1 + 3" "progress inp (ip + len) (op2 + 1) 0 out2"
proof -
  have s: "length out1 = length out" "codes (take op1 out1) (take ip inp)"
  proof -
    obtain op' out' where r: "stop_run op lit out = Some (op', out')" "length out' = length out" "codes (take op' out') (take ip inp)"
      by (rule stop_run_ok [OF assms(1)])
    then have "op1 = op'" "out1 = out'" using assms(8) by simp_all
    then show "length out1 = length out" "codes (take op1 out1) (take ip inp)" using r by simp_all
  qed
  obtain out2 k where r: "put_ref op1 (ip - ref - 1) len out1 = Some (op1 + k, out2)" "length out2 = length out1" "k \<le> 3"
    "take (op1 + k) out2 = take op1 out1 @ ref_code (ip - ref - 1) len"
    by (rule put_ref_ok [of len op1 out1 "ip - ref - 1"]) (use assms(5,9) s(1) in simp_all)
  have ip: "ip \<le> length inp" using assms(4) by simp
  have "codes (take op1 out1 @ ref_code (ip - ref - 1) len)
      (copy_ref len (length (take ip inp) - (ip - ref - 1) - 1) (take ip inp))"
    by (rule codes.ref [OF s(2)]) (use assms(2,3,5,6) ip in simp_all)
  moreover have "length (take ip inp) - (ip - ref - 1) - 1 = ref" using assms(2) ip by simp
  moreover have "copy_ref len ref (take ip inp) = take (ip + len) inp"
    using assms(2,4,7) by (intro copy_ref_take) (simp_all add: matches_def)
  ultimately have c: "codes (take (op1 + k) out2) (take (ip + len) inp)" using r(4) by simp
  have "progress inp (ip + len) (op1 + k + 1) 0 out2"
    using c assms(4,9) r(2,3) s(1) by (simp add: progress_def)
  then show thesis using that r s(1) by simp
qed

text \<open>The main loop stays inside the block of \<open>out_len + 1\<close> bytes and leaves room for the rest.\<close>

lemma lzf_loop_ok:
  assumes "progress inp ip op lit out" "length out = out_len + 1"
  shows "\<exists>r. lzf_loop inp out_len ip op lit hval htab out = Some r \<and>
    (\<forall>ip' op' lit' out'. r = Some (ip', op', lit', out') \<longrightarrow>
       progress inp ip' op' lit' out' \<and> length out' = length out \<and> length inp \<le> ip' + 2)"
  using assms
proof (induction inp out_len ip op lit hval htab out rule: lzf_loop.induct)
  case (1 inp out_len ip op lit hval htab out)
  note IH = 1(1,2) and p = 1(3) and len_out = 1(4)
  show ?case
  proof (cases "int ip < int (length inp) - 2")
    case False
    then have "lzf_loop inp out_len ip op lit hval htab out = Some (Some (ip, op, lit, out))"
      by (subst lzf_loop.simps) simp
    then show ?thesis using p False by (intro exI [of _ "Some (ip, op, lit, out)"]) simp
  next
    case True
    obtain hv where hv: "NEXT hval inp ip = Some hv" using NEXT_Some [of ip inp hval] True by auto
    let ?ref = "htab (IDX hv)" and ?htab = "htab(IDX hv := int ip)"
    obtain b where b: "is_match inp ?ref ip = Some b"
      "b \<Longrightarrow> 0 < ?ref \<and> nat ?ref < ip \<and> ip - nat ?ref - 1 < 8192 \<and> ip + 4 < length inp \<and> matches inp (nat ?ref) ip 3"
      by (rule is_match_ok [of ip inp ?ref]) (use True in linarith, rule that)
    show ?thesis
    proof (cases b)
      case False
      show ?thesis
      proof (cases "out_len \<le> op")
        case full: True
        then have "lzf_loop inp out_len ip op lit hval htab out = Some None"
          using True hv b(1) False by (subst lzf_loop.simps) (simp add: Let_def)
        then show ?thesis by simp
      next
        case room: False
        obtain op' lit' out' where l: "put_literal inp ip op lit out = Some (op', lit', out')" "length out' = length out"
          "progress inp (ip + 1) op' lit' out'"
          by (rule put_literal_ok [OF p]) (use True room len_out in simp_all)
        have e: "lzf_loop inp out_len ip op lit hval htab out = lzf_loop inp out_len (ip + 1) op' lit' hv ?htab out'"
          using True hv b(1) False room l(1) by (subst lzf_loop.simps) (simp add: Let_def)
        show ?thesis
          using IH(2) [OF _ hv refl refl b(1) _ room l(1) refl refl l(3)] True False l(2) len_out unfolding e by (simp add: fun_upd_def)
      qed
    next
      case m: True
      obtain op1 out1 where s: "stop_run op lit out = Some (op1, out1)" "op1 = (if lit = 0 then op - 1 else op)" "length out1 = length out"
        by (rule stop_run_ok [OF p])
      show ?thesis
      proof (cases "out_len \<le> op1 + 3 + 1")
        case full: True
        then have "lzf_loop inp out_len ip op lit hval htab out = Some None"
          using True hv b(1) m s(1) by (subst lzf_loop.simps) (simp add: Let_def)
        then show ?thesis by simp
      next
        case room: False
        note f = b(2) [OF m]
        obtain len where len: "match_len inp (nat ?ref) ip = Some len" "3 \<le> len" "len \<le> 264" "ip + len \<le> length inp"
          "matches inp (nat ?ref) ip len"
          by (rule match_len_ok [of "nat ?ref" ip inp]) (use f in simp_all)
        obtain op2 out2 where r: "put_ref op1 (ip - nat ?ref - 1) len out1 = Some (op2, out2)" "length out2 = length out"
          "progress inp (ip + len) (op2 + 1) 0 out2"
          by (rule reference_ok [OF p _ _ len(4,2,3,5) s(1)]) (use f room len_out in simp_all)
        have off: "nat (int ip - ?ref - 1) = ip - nat ?ref - 1" using f by linarith
        show ?thesis
        proof (cases "int (length inp) - 2 \<le> int (ip + len)")
          case at_end: True
          then have "lzf_loop inp out_len ip op lit hval htab out = Some (Some (ip + len, op2 + 1, 0, out2))"
            using True hv b(1) m s(1) room len(1) r(1) off by (subst lzf_loop.simps) (simp add: Let_def)
          then show ?thesis using r at_end by (intro exI [of _ "Some (ip + len, op2 + 1, 0, out2)"]) simp
        next
          case more: False
          obtain hv' htab' where h: "rehash inp (ip + len) ?htab = Some (hv', htab')"
            using rehash_ok [of "ip + len" inp ?htab] len(2) more by auto
          have e: "lzf_loop inp out_len ip op lit hval htab out = lzf_loop inp out_len (ip + len) (op2 + 1) 0 hv' htab' out2"
            using True hv b(1) m s(1) room len(1) r(1) off more h by (subst lzf_loop.simps) (simp add: Let_def)
          show ?thesis
            using IH(1) [OF _ hv refl refl b(1) _ s(1) refl room len(1) _ refl more h refl r(3)] True m r(1,2) off len_out
            unfolding e by (simp add: fun_upd_def)
        qed
      qed
    qed
  qed
qed


text \<open>The last bytes are literals.  The byte behind \<open>out_len\<close> is needed only for the header of a run that stays empty.\<close>

lemma lzf_flush_ok:
  assumes "progress inp ip op lit out" "length out = out_len + 1"
    "op + 2 * (length inp - ip) \<le> out_len + 1" "length inp = ip \<and> lit \<noteq> 0 \<longrightarrow> op \<le> out_len"
  shows "\<exists>op' lit' out'. lzf_flush inp ip op lit out = Some (op', lit', out') \<and> length out' = length out \<and>
    progress inp (length inp) op' lit' out' \<and> (lit' \<noteq> 0 \<longrightarrow> op' \<le> out_len)"
  using assms
proof (induction inp ip op lit out rule: lzf_flush.induct)
  case (1 inp ip op lit out)
  note IH = 1(1) and p = 1(2) and a = 1(3-5)
  show ?case
  proof (cases "ip < length inp")
    case False
    then have "ip = length inp" using p by (simp add: progress_def)
    moreover have "lzf_flush inp ip op lit out = Some (op, lit, out)" using False by (subst lzf_flush.simps) simp
    ultimately show ?thesis using p a by simp
  next
    case True
    obtain op' lit' out' where l: "put_literal inp ip op lit out = Some (op', lit', out')" "length out' = length out"
      "progress inp (ip + 1) op' lit' out'" "lit' = lit + 1 \<and> op' = op + 1 \<or> lit' = 0 \<and> op' = op + 2 \<and> lit = 31"
      by (rule put_literal_ok [OF p True]) (use True a in linarith, rule that)
    have e: "lzf_flush inp ip op lit out = lzf_flush inp (ip + 1) op' lit' out'"
      using True l(1) by (subst lzf_flush.simps) simp
    have "op' + 2 * (length inp - (ip + 1)) \<le> out_len + 1" "length inp = ip + 1 \<and> lit' \<noteq> 0 \<longrightarrow> op' \<le> out_len"
      using l(4) True a by linarith+
    then show ?thesis using IH [OF _ l(1) refl refl l(3)] True l(2) a(1) unfolding e by simp
  qed
qed

text \<open>
  With one byte of room beyond \<open>out_len\<close> no access is out of bounds, whatever the hash table holds at
  the start; a result that is not 0 is at most \<open>out_len\<close> long and stands for the input.
\<close>

lemma lzf_compress_codes:
  assumes "length out = out_len + 1" "2 \<le> length inp"
  shows "\<exists>k out'. lzf_compress htab inp out out_len = Some (k, out') \<and> k \<le> out_len \<and> length out' = length out \<and>
    (k \<noteq> 0 \<longrightarrow> codes (take k out') inp)"
proof (cases "out_len = 0")
  case True
  then show ?thesis by (simp add: lzf_compress_def)
next
  case False
  obtain hval where h: "FRST inp 0 = Some hval" using FRST_Some [of 0 inp] assms(2) by auto
  have p: "progress inp 0 1 0 out" using assms(1) codes.nil by (simp add: progress_def)
  obtain r where r: "lzf_loop inp out_len 0 1 0 hval htab out = Some r"
    "\<forall>ip' op' lit' out'. r = Some (ip', op', lit', out') \<longrightarrow>
       progress inp ip' op' lit' out' \<and> length out' = length out \<and> length inp \<le> ip' + 2"
    using lzf_loop_ok [OF p assms(1)] by blast
  have e: "lzf_compress htab inp out out_len = (case lzf_loop inp out_len 0 1 0 hval htab out of
      None \<Rightarrow> None
    | Some None \<Rightarrow> Some (0, out)
    | Some (Some (ip, op, lit, out)) \<Rightarrow>
        if out_len < op + 3 then Some (0, out)
        else case lzf_flush inp ip op lit out of None \<Rightarrow> None | Some (op, lit, out) \<Rightarrow> stop_run op lit out)"
  proof -
    have "length inp \<noteq> 0" using assms(2) by linarith
    then show ?thesis unfolding lzf_compress_def h using False by simp
  qed
  show ?thesis
  proof (cases r)
    case None
    then show ?thesis using e r(1) by simp
  next
    case (Some x)
    obtain ip op lit out1 where x: "x = (ip, op, lit, out1)" by (cases x)
    have q: "progress inp ip op lit out1" "length out1 = length out" "length inp \<le> ip + 2" using r(2) Some x by simp_all
    show ?thesis
    proof (cases "out_len < op + 3")
      case True
      then show ?thesis using e r(1) Some x q(2) by simp
    next
      case room: False
      obtain op2 lit2 out2 where f: "lzf_flush inp ip op lit out1 = Some (op2, lit2, out2)" "length out2 = length out1"
        "progress inp (length inp) op2 lit2 out2" "lit2 \<noteq> 0 \<longrightarrow> op2 \<le> out_len"
      proof -
        have "length out1 = out_len + 1" "op + 2 * (length inp - ip) \<le> out_len + 1" "length inp = ip \<and> lit \<noteq> 0 \<longrightarrow> op \<le> out_len"
          using q(2,3) room assms(1) by linarith+
        then show ?thesis using lzf_flush_ok [OF q(1), of out_len] that by blast
      qed
      obtain op3 out3 where s: "stop_run op2 lit2 out2 = Some (op3, out3)" "op3 = (if lit2 = 0 then op2 - 1 else op2)"
        "length out3 = length out2" "codes (take op3 out3) (take (length inp) inp)"
        by (rule stop_run_ok [OF f(3)])
      have "op2 \<le> out_len + 1" using f(2,3) q(2) assms(1) by (simp add: progress_def)
      then have k: "op3 \<le> out_len" using s(2) f(4) by (auto split: if_splits)
      have "lzf_compress htab inp out out_len = Some (op3, out3)" using e r(1) Some x room f(1) s(1) by simp
      then show ?thesis using k s(3,4) f(2) q(2) by simp
    qed
  qed
qed

lemma lzf_compress_ok:
  assumes "length out = out_len + 1" "2 \<le> length inp"
  obtains k out' where "lzf_compress htab inp out out_len = Some (k, out')" "k \<le> out_len" "length out' = length out"
    "\<And>room. k \<noteq> 0 \<Longrightarrow> length inp \<le> room \<Longrightarrow> lzf_decompress (take k out') room = Some (Some inp)"
proof -
  obtain k out' where c: "lzf_compress htab inp out out_len = Some (k, out')" "k \<le> out_len" "length out' = length out"
    "k \<noteq> 0 \<longrightarrow> codes (take k out') inp"
    using lzf_compress_codes [OF assms] by blast
  have "lzf_decompress (take k out') room = Some (Some inp)" if "k \<noteq> 0" "length inp \<le> room" for room
  proof -
    have d: "codes (take k out') inp" using c(4) that(1) by simp
    have "take k out' \<noteq> []"
    proof
      assume "take k out' = []"
      then have "codes [] inp" using d by (simp only:)
      then show False using assms(2) by (cases rule: codes.cases) (auto simp: ref_code_def split: if_splits)
    qed
    then show ?thesis using decode_codes [OF d that(2), of "[]"] by (simp add: lzf_decompress_def)
  qed
  then show thesis using that c(1-3) by blast
qed

text \<open>C11.  What \<open>lzf_compress\<close> produces, \<open>lzf_decompress\<close> turns back into the input, whatever the hash
  table on the stack held.  In a block with one byte of room beyond \<open>out_len\<close>, as its caller
  allocates, no access of the compressor is out of bounds, and the result is at most \<open>out_len\<close> long;
  0 is returned when it would not fit.\<close>

theorem lzf_roundtrip:
  assumes "length out = out_len + 1" "2 \<le> length inp"
  shows "\<exists>k out'. lzf_compress htab inp out out_len = Some (k, out') \<and> k \<le> out_len \<and>
    (k \<noteq> 0 \<longrightarrow> (\<forall>room\<ge>length inp. lzf_decompress (take k out') room = Some (Some inp)))"
proof -
  obtain k out' where "lzf_compress htab inp out out_len = Some (k, out')" "k \<le> out_len" "length out' = length out"
    "\<And>room. k \<noteq> 0 \<Longrightarrow> length inp \<le> room \<Longrightarrow> lzf_decompress (take k out') room = Some (Some inp)"
    by (rule lzf_compress_ok [OF assms, of htab]) (rule that)
  then show ?thesis by blast
qed

theorem lzf_roundtrip_witness:
  "\<exists>out'. lzf_compress (\<lambda>_. 7) ''abc'' (replicate 9 CHR ''.'') 8 = Some (4, out') \<and>
    lzf_decompress (take 4 out') 3 = Some (Some ''abc'')"
proof -
  have l: "length (replicate 9 CHR ''.'') = 8 + 1" "2 \<le> length ''abc''" by simp_all
  have w: "FRST ''abc'' 0 = Some 24930" "NEXT 24930 ''abc'' 0 = Some 6382179"
    by (simp_all add: FRST_def NEXT_def rd_def code_def)
  have m: "is_match ''abc'' 7 0 = Some False" by (simp add: is_match_def)
  have c: "map_option fst (lzf_compress (\<lambda>_. 7) ''abc'' (replicate 9 CHR ''.'') 8) = Some 4"
    by (simp add: lzf_compress_def w m lzf_loop.simps [of _ _ 0] lzf_loop.simps [of _ _ 1] lzf_loop.simps [of _ _ "Suc 0"] Let_def put_literal_def
      lzf_flush.simps rd_def put_def MAX_LIT_def stop_run_def)
  obtain k out' where r: "lzf_compress (\<lambda>_. 7) ''abc'' (replicate 9 CHR ''.'') 8 = Some (k, out')"
    "k \<noteq> 0 \<longrightarrow> (\<forall>room\<ge>length ''abc''. lzf_decompress (take k out') room = Some (Some ''abc''))"
    using lzf_roundtrip [OF l, of "\<lambda>_. 7"] by blast
  have "k = 4" using c unfolding r(1) by simp
  then show ?thesis using r by simp
qed

end
