(* ===== verification/Crc64.thy ===== *)
theory Crc64
  imports Prelude
begin

unbundle bit_operations_syntax

text \<open>
  The checksum of dump files and dump payloads (\<open>src/crc64.c\<close>): the table, the loop over the bytes, the
  proof that they compute the bit by bit division by the polynomial the comment of the file
  names, and that a single wrong byte always changes the checksum.
\<close>

section \<open>The code\<close>

definition crc64_tab :: "64 word list" where
  "crc64_tab = [
    0x0, 0x7ad870c830358979, 0xf5b0e190606b12f2,
    0x8f689158505e9b8b, 0xc038e5739841b68f, 0xbae095bba8743ff6,
    0x358804e3f82aa47d, 0x4f50742bc81f2d04, 0xab28ecb46814fe75,
    0xd1f09c7c5821770c, 0x5e980d24087fec87, 0x24407dec384a65fe,
    0x6b1009c7f05548fa, 0x11c8790fc060c183, 0x9ea0e857903e5a08,
    0xe478989fa00bd371, 0x7d08ff3b88be6f81, 0x7d08ff3b88be6f8,
    0x88b81eabe8d57d73, 0xf2606e63d8e0f40a, 0xbd301a4810ffd90e,
    0xc7e86a8020ca5077, 0x4880fbd87094cbfc, 0x32588b1040a14285,
    0xd620138fe0aa91f4, 0xacf86347d09f188d, 0x2390f21f80c18306,
    0x594882d7b0f40a7f, 0x1618f6fc78eb277b, 0x6cc0863448deae02,
    0xe3a8176c18803589, 0x997067a428b5bcf0, 0xfa11fe77117cdf02,
    0x80c98ebf2149567b, 0xfa11fe77117cdf0, 0x75796f2f41224489,
    0x3a291b04893d698d, 0x40f16bccb908e0f4, 0xcf99fa94e9567b7f,
    0xb5418a5cd963f206, 0x513912c379682177, 0x2be1620b495da80e,
    0xa489f35319033385, 0xde51839b2936bafc, 0x9101f7b0e12997f8,
    0xebd98778d11c1e81, 0x64b116208142850a, 0x1e6966e8b1770c73,
    0x8719014c99c2b083, 0xfdc17184a9f739fa, 0x72a9e0dcf9a9a271,
    0x8719014c99c2b08, 0x4721e43f0183060c, 0x3df994f731b68f75,
    0xb29105af61e814fe, 0xc849756751dd9d87, 0x2c31edf8f1d64ef6,
    0x56e99d30c1e3c78f, 0xd9810c6891bd5c04, 0xa3597ca0a188d57d,
    0xec09088b6997f879, 0x96d1784359a27100, 0x19b9e91b09fcea8b,
    0x636199d339c963f2, 0xdf7adabd7a6e2d6f, 0xa5a2aa754a5ba416,
    0x2aca3b2d1a053f9d, 0x50124be52a30b6e4, 0x1f423fcee22f9be0,
    0x659a4f06d21a1299, 0xeaf2de5e82448912, 0x902aae96b271006b,
    0x74523609127ad31a, 0xe8a46c1224f5a63, 0x81e2d7997211c1e8,
    0xfb3aa75142244891, 0xb46ad37a8a3b6595, 0xceb2a3b2ba0eecec,
    0x41da32eaea507767, 0x3b024222da65fe1e, 0xa2722586f2d042ee,
    0xd8aa554ec2e5cb97, 0x57c2c41692bb501c, 0x2d1ab4dea28ed965,
    0x624ac0f56a91f461, 0x1892b03d5aa47d18, 0x97fa21650afae693,
    0xed2251ad3acf6fea, 0x95ac9329ac4bc9b, 0x7382b9faaaf135e2,
    0xfcea28a2faafae69, 0x8632586aca9a2710, 0xc9622c4102850a14,
    0xb3ba5c8932b0836d, 0x3cd2cdd162ee18e6, 0x460abd1952db919f,
    0x256b24ca6b12f26d, 0x5fb354025b277b14, 0xd0dbc55a0b79e09f,
    0xaa03b5923b4c69e6, 0xe553c1b9f35344e2, 0x9f8bb171c366cd9b,
    0x10e3202993385610, 0x6a3b50e1a30ddf69, 0x8e43c87e03060c18,
    0xf49bb8b633338561, 0x7bf329ee636d1eea, 0x12b592653589793,
    0x4e7b2d0d9b47ba97, 0x34a35dc5ab7233ee, 0xbbcbcc9dfb2ca865,
    0xc113bc55cb19211c, 0x5863dbf1e3ac9dec, 0x22bbab39d3991495,
    0xadd33a6183c78f1e, 0xd70b4aa9b3f20667, 0x985b3e827bed2b63,
    0xe2834e4a4bd8a21a, 0x6debdf121b863991, 0x1733afda2bb3b0e8,
    0xf34b37458bb86399, 0x8993478dbb8deae0, 0x6fbd6d5ebd3716b,
    0x7c23a61ddbe6f812, 0x3373d23613f9d516, 0x49aba2fe23cc5c6f,
    0xc6c333a67392c7e4, 0xbc1b436e43a74e9d, 0x95ac9329ac4bc9b5,
    0xef74e3e19c7e40cc, 0x601c72b9cc20db47, 0x1ac40271fc15523e,
    0x5594765a340a7f3a, 0x2f4c0692043ff643, 0xa02497ca54616dc8,
    0xdafce7026454e4b1, 0x3e847f9dc45f37c0, 0x445c0f55f46abeb9,
    0xcb349e0da4342532, 0xb1eceec59401ac4b, 0xfebc9aee5c1e814f,
    0x8464ea266c2b0836, 0xb0c7b7e3c7593bd, 0x71d40bb60c401ac4,
    0xe8a46c1224f5a634, 0x927c1cda14c02f4d, 0x1d148d82449eb4c6,
    0x67ccfd4a74ab3dbf, 0x289c8961bcb410bb, 0x5244f9a98c8199c2,
    0xdd2c68f1dcdf0249, 0xa7f41839ecea8b30, 0x438c80a64ce15841,
    0x3954f06e7cd4d138, 0xb63c61362c8a4ab3, 0xcce411fe1cbfc3ca,
    0x83b465d5d4a0eece, 0xf96c151de49567b7, 0x76048445b4cbfc3c,
    0xcdcf48d84fe7545, 0x6fbd6d5ebd3716b7, 0x15651d968d029fce,
    0x9a0d8ccedd5c0445, 0xe0d5fc06ed698d3c, 0xaf85882d2576a038,
    0xd55df8e515432941, 0x5a3569bd451db2ca, 0x20ed197575283bb3,
    0xc49581ead523e8c2, 0xbe4df122e51661bb, 0x3125607ab548fa30,
    0x4bfd10b2857d7349, 0x4ad64994d625e4d, 0x7e7514517d57d734,
    0xf11d85092d094cbf, 0x8bc5f5c11d3cc5c6, 0x12b5926535897936,
    0x686de2ad05bcf04f, 0xe70573f555e26bc4, 0x9ddd033d65d7e2bd,
    0xd28d7716adc8cfb9, 0xa85507de9dfd46c0, 0x273d9686cda3dd4b,
    0x5de5e64efd965432, 0xb99d7ed15d9d8743, 0xc3450e196da80e3a,
    0x4c2d9f413df695b1, 0x36f5ef890dc31cc8, 0x79a59ba2c5dc31cc,
    0x37deb6af5e9b8b5, 0x8c157a32a5b7233e, 0xf6cd0afa9582aa47,
    0x4ad64994d625e4da, 0x300e395ce6106da3, 0xbf66a804b64ef628,
    0xc5bed8cc867b7f51, 0x8aeeace74e645255, 0xf036dc2f7e51db2c,
    0x7f5e4d772e0f40a7, 0x5863dbf1e3ac9de, 0xe1fea520be311aaf,
    0x9b26d5e88e0493d6, 0x144e44b0de5a085d, 0x6e963478ee6f8124,
    0x21c640532670ac20, 0x5b1e309b16452559, 0xd476a1c3461bbed2,
    0xaeaed10b762e37ab, 0x37deb6af5e9b8b5b, 0x4d06c6676eae0222,
    0xc26e573f3ef099a9, 0xb8b627f70ec510d0, 0xf7e653dcc6da3dd4,
    0x8d3e2314f6efb4ad, 0x256b24ca6b12f26, 0x788ec2849684a65f,
    0x9cf65a1b368f752e, 0xe62e2ad306bafc57, 0x6946bb8b56e467dc,
    0x139ecb4366d1eea5, 0x5ccebf68aecec3a1, 0x2616cfa09efb4ad8,
    0xa97e5ef8cea5d153, 0xd3a62e30fe90582a, 0xb0c7b7e3c7593bd8,
    0xca1fc72bf76cb2a1, 0x45775673a732292a, 0x3faf26bb9707a053,
    0x70ff52905f188d57, 0xa2722586f2d042e, 0x854fb3003f739fa5,
    0xff97c3c80f4616dc, 0x1bef5b57af4dc5ad, 0x61372b9f9f784cd4,
    0xee5fbac7cf26d75f, 0x9487ca0fff135e26, 0xdbd7be24370c7322,
    0xa10fceec0739fa5b, 0x2e675fb4576761d0, 0x54bf2f7c6752e8a9,
    0xcdcf48d84fe75459, 0xb71738107fd2dd20, 0x387fa9482f8c46ab,
    0x42a7d9801fb9cfd2, 0xdf7adabd7a6e2d6, 0x772fdd63e7936baf,
    0xf8474c3bb7cdf024, 0x829f3cf387f8795d, 0x66e7a46c27f3aa2c,
    0x1c3fd4a417c62355, 0x935745fc4798b8de, 0xe98f353477ad31a7,
    0xa6df411fbfb21ca3, 0xdc0731d78f8795da, 0x536fa08fdfd90e51,
    0x29b7d047efec8728]"

definition crc64_byte :: "64 word \<Rightarrow> char \<Rightarrow> 64 word" where
  "crc64_byte crc byte =
     crc64_tab ! unat (take_bit 8 crc XOR word_of_nat (code byte)) XOR drop_bit 8 crc"

definition crc64 :: "64 word \<Rightarrow> string \<Rightarrow> 64 word" where
  "crc64 crc s = fold (\<lambda>byte crc. crc64_byte crc byte) s crc"

section \<open>The specification\<close>

text \<open>The polynomial of the header comment, with its bits reflected, as input and output are.\<close>

definition crc64_poly :: "64 word" where "crc64_poly = 0xad93d23594c935a9"

definition reflected_poly :: "64 word" where "reflected_poly = 0x95ac9329ac4bc9b5"

definition crc_bit :: "64 word \<Rightarrow> 64 word" where
  "crc_bit c = (if bit c 0 then drop_bit 1 c XOR reflected_poly else drop_bit 1 c)"

definition crc_byte :: "64 word \<Rightarrow> char \<Rightarrow> 64 word" where
  "crc_byte c byte = (crc_bit ^^ 8) (c XOR word_of_nat (code byte))"

definition crc_spec :: "64 word \<Rightarrow> string \<Rightarrow> 64 word" where
  "crc_spec c s = fold (\<lambda>byte c. crc_byte c byte) s c"

lemma reflected:
  assumes "n < 64"
  shows "bit reflected_poly n = bit crc64_poly (63 - n)"
proof -
  have "\<forall>n\<in>set [0..<64]. bit reflected_poly n = bit crc64_poly (63 - n)"
    by (simp add: reflected_poly_def crc64_poly_def upt_rec bit_simps)
  then show ?thesis using assms by simp
qed

lemma crc_bit_xor: "crc_bit (a XOR b) = crc_bit a XOR crc_bit b"
  by (auto simp: crc_bit_def bit_xor_iff intro!: bit_word_eqI simp: bit_simps)

lemma crc_bits_xor: "(crc_bit ^^ n) (a XOR b) = (crc_bit ^^ n) a XOR (crc_bit ^^ n) b"
  by (induction n) (simp_all add: crc_bit_xor)

lemma length_crc64_tab [simp]: "length crc64_tab = 256" by (simp add: crc64_tab_def)

text \<open>Eight steps from each power of two: the entries of the table at the powers of two.\<close>

lemma crc_bit_odd: "crc_bit c = (if odd c then drop_bit 1 c XOR reflected_poly else drop_bit 1 c)"
  by (simp add: crc_bit_def bit_0)

lemma crc_steps1: "crc_bit 1 = 0x95ac9329ac4bc9b5"
  by (simp add: crc_bit_odd reflected_poly_def)

lemma crc_steps2: "crc_bit 0x95ac9329ac4bc9b5 = 0xdf7adabd7a6e2d6f"
  by (simp add: crc_bit_odd reflected_poly_def)

lemma crc_steps3: "crc_bit 0xdf7adabd7a6e2d6f = 0xfa11fe77117cdf02"
  by (simp add: crc_bit_odd reflected_poly_def)

lemma crc_steps4: "crc_bit 0xfa11fe77117cdf02 = 0x7d08ff3b88be6f81"
  by (simp add: crc_bit_odd reflected_poly_def)

lemma crc_steps5: "crc_bit 0x7d08ff3b88be6f81 = 0xab28ecb46814fe75"
  by (simp add: crc_bit_odd reflected_poly_def)

lemma crc_steps6: "crc_bit 0xab28ecb46814fe75 = 0xc038e5739841b68f"
  by (simp add: crc_bit_odd reflected_poly_def)

lemma crc_steps7: "crc_bit 0xc038e5739841b68f = 0xf5b0e190606b12f2"
  by (simp add: crc_bit_odd reflected_poly_def)

lemma crc_steps8: "crc_bit 0xf5b0e190606b12f2 = 0x7ad870c830358979"
  by (simp add: crc_bit_odd reflected_poly_def)


definition spread :: "64 word \<Rightarrow> 64 word list \<Rightarrow> 64 word list" where
  "spread b ws = ws @ map (\<lambda>w. b XOR w) ws"

lemma tab_spread: "crc64_tab = spread 0x95ac9329ac4bc9b5 (spread 0xdf7adabd7a6e2d6f (spread 0xfa11fe77117cdf02 (spread 0x7d08ff3b88be6f81 (spread 0xab28ecb46814fe75 (spread 0xc038e5739841b68f (spread 0xf5b0e190606b12f2 (spread 0x7ad870c830358979 [0])))))))"
  by (simp add: crc64_tab_def spread_def)

lemma word_of_nat_bit: "bit (word_of_nat n :: 64 word) i \<longleftrightarrow> i < 64 \<and> bit n i"
  by transfer (simp add: bit_take_bit_iff bit_of_nat_iff_bit)

lemma no_bit: "n < 2 ^ k \<Longrightarrow> \<not> bit n (k::nat)" for n :: nat
  by (simp add: bit_iff_odd)

lemma word_of_nat_power_add:
  assumes "n < 2 ^ k"
  shows "(word_of_nat (2 ^ k + n) :: 64 word) = 2 ^ k XOR word_of_nat n"
proof (rule bit_word_eqI)
  fix i :: nat
  have "2 ^ k + n = (2 ^ k XOR n :: nat)"
  proof (rule disjunctive_add_eq_xor)
    show "2 ^ k AND n = 0" using no_bit [OF assms] by (intro bit_eqI) (auto simp: bit_and_iff bit_exp_iff)
  qed
  then show "bit (word_of_nat (2 ^ k + n) :: 64 word) i = bit (2 ^ k XOR word_of_nat n :: 64 word) i" if "i < LENGTH(64)"
    using that by (auto simp: word_of_nat_bit bit_xor_iff bit_exp_iff)
qed

text \<open>The first \<open>2 ^ k\<close> remainders.\<close>

definition remainders :: "nat \<Rightarrow> 64 word list" where
  "remainders k = map (\<lambda>n. (crc_bit ^^ 8) (word_of_nat n)) [0..<2 ^ k]"

lemma remainders_Suc: "remainders (Suc k) = spread ((crc_bit ^^ 8) (2 ^ k)) (remainders k)"
proof -
  have "[0..<2 ^ Suc k] = [0..<2 ^ k] @ map (\<lambda>n. 2 ^ k + n) [0..<2 ^ k]"
    by (intro nth_equalityI) (auto simp: nth_append)
  then show ?thesis
    using word_of_nat_power_add [of _ k]
    by (simp add: remainders_def spread_def crc_bits_xor del: upt_Suc funpow.simps of_nat_add)
qed

lemma eight: "(f ^^ 8) x = f (f (f (f (f (f (f (f x)))))))"
  by (simp add: numeral_eq_Suc)

lemma crc_bit_even: "crc_bit (numeral (Num.Bit0 n)) = drop_bit 1 (numeral (Num.Bit0 n))"
  by (simp add: crc_bit_odd)

lemma crc_bits_powers:
  "(crc_bit ^^ 8) 128 = 0x95ac9329ac4bc9b5" "(crc_bit ^^ 8) 64 = 0xdf7adabd7a6e2d6f" "(crc_bit ^^ 8) 32 = 0xfa11fe77117cdf02" "(crc_bit ^^ 8) 16 = 0x7d08ff3b88be6f81"
  "(crc_bit ^^ 8) 8 = 0xab28ecb46814fe75" "(crc_bit ^^ 8) 4 = 0xc038e5739841b68f" "(crc_bit ^^ 8) 2 = 0xf5b0e190606b12f2" "(crc_bit ^^ 8) 1 = 0x7ad870c830358979"
  by (simp_all add: eight crc_bit_even crc_steps1 crc_steps2 crc_steps3 crc_steps4 crc_steps5 crc_steps6 crc_steps7 crc_steps8)

lemma crc64_tab_remainders: "crc64_tab = remainders 8"
proof -
  have z: "crc_bit 0 = 0" by (simp add: crc_bit_def)
  have "remainders 0 = [0]" by (simp add: remainders_def eight z)
  moreover have "remainders 1 = spread ((crc_bit ^^ 8) 1) (remainders 0)" using remainders_Suc [of 0] by simp
  moreover have "remainders 2 = spread ((crc_bit ^^ 8) 2) (remainders 1)" using remainders_Suc [of 1] by (simp add: numeral_2_eq_2 del: funpow.simps)
  moreover have "remainders 3 = spread ((crc_bit ^^ 8) 4) (remainders 2)" using remainders_Suc [of 2] by simp
  moreover have "remainders 4 = spread ((crc_bit ^^ 8) 8) (remainders 3)" using remainders_Suc [of 3] by simp
  moreover have "remainders 5 = spread ((crc_bit ^^ 8) 16) (remainders 4)" using remainders_Suc [of 4] by simp
  moreover have "remainders 6 = spread ((crc_bit ^^ 8) 32) (remainders 5)" using remainders_Suc [of 5] by simp
  moreover have "remainders 7 = spread ((crc_bit ^^ 8) 64) (remainders 6)" using remainders_Suc [of 6] by simp
  moreover have "remainders 8 = spread ((crc_bit ^^ 8) 128) (remainders 7)" using remainders_Suc [of 7] by simp
  ultimately show ?thesis by (simp only: tab_spread crc_bits_powers)
qed

lemma crc64_tab_nth: "n < 256 \<Longrightarrow> crc64_tab ! n = (crc_bit ^^ 8) (word_of_nat n)"
  unfolding crc64_tab_remainders remainders_def by (simp del: funpow.simps)

lemma crc_bits_shift:
  assumes "\<And>i. bit y i \<Longrightarrow> i + k < 64"
  shows "(crc_bit ^^ k) (push_bit k y) = y"
  using assms
proof (induction k)
  case (Suc k)
  have "crc_bit (push_bit (Suc k) y) = push_bit k y"
  proof -
    have "drop_bit 1 (push_bit (Suc k) y) = push_bit k y"
    proof (rule bit_word_eqI)
      fix n assume "n < LENGTH(64)"
      then show "bit (drop_bit 1 (push_bit (Suc k) y)) n = bit (push_bit k y) n"
        using Suc.prems [of "n - k"] by (auto simp: bit_simps simp del: push_bit_Suc)
    qed
    moreover have "\<not> bit (push_bit (Suc k) y) 0" by (simp add: bit_push_bit_iff del: push_bit_Suc)
    ultimately show ?thesis by (simp add: crc_bit_def del: push_bit_Suc)
  qed
  then have "(crc_bit ^^ Suc k) (push_bit (Suc k) y) = (crc_bit ^^ k) (push_bit k y)"
    by (simp only: funpow_Suc_right o_apply)
  also have "\<dots> = y" using Suc.prems by (intro Suc.IH) fastforce
  finally show ?case .
qed simp

lemma crc64_byte_spec: "crc64_byte c b = crc_byte c b"
proof -
  let ?b = "word_of_nat (code b) :: 64 word"
  have hi: "drop_bit 8 (c XOR ?b) = drop_bit 8 c" and lo: "take_bit 8 (c XOR ?b) = take_bit 8 c XOR ?b"
  proof -
    have "\<not> bit ?b i" if "8 \<le> i" for i
    proof -
      have "code b < 2 ^ i" using code_bound [of b] power_increasing [OF that, of "2 :: nat"] by simp
      then show ?thesis by (simp add: word_of_nat_bit no_bit)
    qed
    then show "drop_bit 8 (c XOR ?b) = drop_bit 8 c" "take_bit 8 (c XOR ?b) = take_bit 8 c XOR ?b"
      by (auto simp: bit_simps intro!: bit_word_eqI)
  qed
  let ?x = "c XOR ?b"
  have "?x = take_bit 8 ?x XOR push_bit 8 (drop_bit 8 ?x)"
  proof (rule bit_word_eqI)
    fix n
    show "bit ?x n = bit (take_bit 8 ?x XOR push_bit 8 (drop_bit 8 ?x)) n" if "n < LENGTH(64)"
      using that by (cases "n < 8") (auto simp: bit_simps)
  qed
  then have "crc_byte c b = (crc_bit ^^ 8) (take_bit 8 ?x) XOR (crc_bit ^^ 8) (push_bit 8 (drop_bit 8 ?x))"
    unfolding crc_byte_def by (metis crc_bits_xor)
  moreover have "(crc_bit ^^ 8) (push_bit 8 (drop_bit 8 ?x)) = drop_bit 8 ?x"
    by (rule crc_bits_shift) (auto simp: bit_simps dest: bit_imp_le_length)
  moreover have "crc64_tab ! unat (take_bit 8 ?x) = (crc_bit ^^ 8) (take_bit 8 ?x)"
  proof -
    have "unat (take_bit 8 ?x) < 2 ^ 8" unfolding unsigned_take_bit_eq by (rule take_bit_nat_less_exp)
    then show ?thesis by (simp add: crc64_tab_nth del: funpow.simps)
  qed
  ultimately show ?thesis unfolding crc64_byte_def hi [symmetric] lo [symmetric] by (simp only:)
qed

lemma crc64_spec: "crc64 c s = crc_spec c s"
  by (simp add: crc64_def crc_spec_def crc64_byte_spec)

section \<open>A wrong byte is noticed\<close>

lemma xor_cancel: "a XOR r = b XOR r \<longleftrightarrow> a = b" for a b r :: "64 word"
proof
  assume "a XOR r = b XOR r"
  then have "(a XOR r) XOR r = (b XOR r) XOR r" by (simp only:)
  then show "a = b" by (simp add: xor.assoc)
qed simp

lemma crc_bit_inj: "inj crc_bit"
proof (rule injI)
  fix c d assume e: "crc_bit c = crc_bit d"
  have top: "bit (crc_bit c) 63 = bit c 0" for c
    by (auto simp: crc_bit_def reflected_poly_def bit_simps dest: bit_imp_le_length)
  have b: "bit c 0 = bit d 0" using top [of c] top [of d] e by simp
  have "drop_bit 1 c = drop_bit 1 d"
    using e b by (simp add: crc_bit_def xor_cancel split: if_splits)
  then have "bit c (Suc i) = bit d (Suc i)" for i
    using bit_drop_bit_eq [of 1 c] bit_drop_bit_eq [of 1 d] by (metis o_apply plus_1_eq_Suc)
  then have "bit c i = bit d i" for i using b by (cases i) simp_all
  then show "c = d" by (intro bit_word_eqI) simp
qed

lemma crc_byte_inj: "crc_byte c a = crc_byte d b \<longleftrightarrow> c XOR word_of_nat (code a) = d XOR word_of_nat (code b)"
  unfolding crc_byte_def using inj_fn [OF crc_bit_inj, of 8] by (simp add: inj_eq del: funpow.simps)

lemma crc_byte_state [simp]: "crc_byte c b = crc_byte d b \<longleftrightarrow> c = d"
  by (simp add: crc_byte_inj xor_cancel)

lemma crc_byte_char [simp]: "crc_byte c a = crc_byte c b \<longleftrightarrow> a = b"
proof -
  have "(word_of_nat (code a) :: 64 word) = word_of_nat (code b) \<longleftrightarrow> code a = code b"
    using code_bound [of a] code_bound [of b] by (simp add: word_of_nat_eq_iff take_bit_eq_mod)
  moreover have "c XOR word_of_nat (code a) = c XOR word_of_nat (code b) \<longleftrightarrow>
      (word_of_nat (code a) :: 64 word) = word_of_nat (code b)"
    by (simp add: xor.commute [of c] xor_cancel)
  ultimately show ?thesis by (simp add: crc_byte_inj)
qed

lemma crc_spec_append: "crc_spec c (s @ t) = crc_spec (crc_spec c s) t"
  by (simp add: crc_spec_def)

lemma crc_spec_state [simp]: "crc_spec c s = crc_spec d s \<longleftrightarrow> c = d"
  by (induction s arbitrary: c d) (simp_all add: crc_spec_def)

lemma crc64_append: "crc64 c (s @ t) = crc64 (crc64 c s) t"
  by (simp add: crc64_def)

lemma crc64_wrong_byte:
  assumes "i < length s" "s ! i \<noteq> b"
  shows "crc64 c (s[i := b]) \<noteq> crc64 c s"
proof -
  have s: "s = take i s @ s ! i # drop (Suc i) s" using assms(1) by (rule id_take_nth_drop)
  have t: "s[i := b] = take i s @ b # drop (Suc i) s" using assms(1) by (rule upd_conv_take_nth_drop)
  have "crc_spec c (take i s @ b # drop (Suc i) s) \<noteq> crc_spec c (take i s @ s ! i # drop (Suc i) s)"
    using assms(2) crc_spec_append [of _ "[_]"] by (simp add: crc_spec_append [of c] crc_spec_def [of _ "_ # _"] flip: crc_spec_def)
  then show ?thesis using s t by (simp add: crc64_spec)
qed

lemma crc64_check_value: "crc64 0 ''123456789'' = 0xe9c6d914c4b8d9ca"
  by (simp add: crc64_def crc64_byte_def crc64_tab_def code_def)

text \<open>C26.  The table driven loop computes the remainder of the bit by bit division by the polynomial
  of the header comment; and a single wrong byte anywhere in a string always changes it.\<close>

theorem crc64_reference:
  "crc64 c s = crc_spec c s \<and> (i < length s \<and> s ! i \<noteq> b \<longrightarrow> crc64 c (s[i := b]) \<noteq> crc64 c s)"
  using crc64_spec crc64_wrong_byte by blast

theorem crc64_reference_witness: "crc64 0 ''abd'' \<noteq> crc64 0 ''abc'' \<and> crc64 0 ''abc'' = crc_spec 0 ''abc''"
proof -
  have "2 < length ''abc''" "''abc'' ! 2 \<noteq> CHR ''d''" "''abc''[2 := CHR ''d''] = ''abd''" by (simp_all add: numeral_2_eq_2)
  then show ?thesis using crc64_reference [of 0 "''abc''" 2 "CHR ''d''"] by metis
qed

end
