(* ===== verification/Rdb.thy ===== *)
theory Rdb
  imports Guarantees Lzf Crc64
begin

unbundle bit_operations_syntax

text \<open>
  Dump files (\<open>src/rdb.c\<close>) over streams (\<open>src/rio.c\<close>): what \<open>SAVE\<close> writes for the keyspace and what
  the loader makes of it at the next start, byte by byte, with every error exit.  The values saved and
  loaded are strings; the other types are recognised, but their contents are outside the model.
\<close>

section \<open>Streams\<close>

text \<open>
  A stream is a file or a buffer in memory.  \<open>r_data\<close> is what has been written, or what is left to
  be read.  A file is written through the buffer of the C library: \<open>r_room\<close> is the number of bytes
  \<open>fwrite\<close> still takes before it reports an error, which is the space of the device or more; what gets to
  the device is known when the file is closed (\<open>rdbSaveFile\<close>).  An \<open>fwrite\<close> that reports an error may have
  taken a part of its block.  \<open>fread\<close> and \<open>fwrite\<close> of a block of length 0 report 0 blocks, which the
  callers take for an error.  Writing returns the stream in any case, and whether there was no error.
\<close>

record rio =
  r_file :: bool
  r_update_cksum :: bool
  r_cksum :: "64 word"
  r_data :: string
  r_room :: nat

definition rioGenericUpdateChecksum :: "string \<Rightarrow> rio \<Rightarrow> rio" where
  "rioGenericUpdateChecksum buf r = r\<lparr>r_cksum := crc64 (r_cksum r) buf\<rparr>"

definition rioBufferWrite :: "string \<Rightarrow> rio \<Rightarrow> bool \<times> rio" where
  "rioBufferWrite buf r = (True, r\<lparr>r_data := r_data r @ buf\<rparr>)"

definition rioBufferRead :: "nat \<Rightarrow> rio \<Rightarrow> (string \<times> rio) option" where
  "rioBufferRead len r =
     (if length (r_data r) < len then None
      else Some (take len (r_data r), r\<lparr>r_data := drop len (r_data r)\<rparr>))"

definition rioFileWrite :: "string \<Rightarrow> rio \<Rightarrow> bool \<times> rio" where
  "rioFileWrite buf r =
     (buf \<noteq> [] \<and> length buf \<le> r_room r,
      r\<lparr>r_data := r_data r @ take (r_room r) buf, r_room := r_room r - length buf\<rparr>)"

definition rioFileRead :: "nat \<Rightarrow> rio \<Rightarrow> (string \<times> rio) option" where
  "rioFileRead len r =
     (if len = 0 \<or> length (r_data r) < len then None
      else Some (take len (r_data r), r\<lparr>r_data := drop len (r_data r)\<rparr>))"

definition rioWrite :: "string \<Rightarrow> rio \<Rightarrow> bool \<times> rio" where
  "rioWrite buf r =
     (let r = (if r_update_cksum r then rioGenericUpdateChecksum buf r else r)
      in if r_file r then rioFileWrite buf r else rioBufferWrite buf r)"

definition rioRead :: "nat \<Rightarrow> rio \<Rightarrow> (string \<times> rio) option" where
  "rioRead len r =
     (case if r_file r then rioFileRead len r else rioBufferRead len r of
        None \<Rightarrow> None
      | Some (buf, r) \<Rightarrow> Some (buf, if r_update_cksum r then rioGenericUpdateChecksum buf r else r))"

definition rioInitWithFile :: "string \<Rightarrow> nat \<Rightarrow> rio" where
  "rioInitWithFile data room = \<lparr>r_file = True, r_update_cksum = False, r_cksum = 0, r_data = data, r_room = room\<rparr>"

definition rioInitWithBuffer :: "string \<Rightarrow> rio" where
  "rioInitWithBuffer s = \<lparr>r_file = False, r_update_cksum = False, r_cksum = 0, r_data = s, r_room = 0\<rparr>"

section \<open>Results\<close>

text \<open>
  \<open>Failed\<close> is a return of -1 or NULL, \<open>Panic\<close> a failed assertion, a \<open>redisPanic\<close> or an access out of
  bounds, \<open>Exit\<close> a call of \<open>exit\<close> and \<open>Foreign\<close> a value the model does not represent.  Saving takes a
  stream or, to measure a value, none; it returns the number of bytes.
\<close>

datatype rdb_error = Failed | Panic | Exit | Foreign

type_synonym saver = "rio option \<Rightarrow> rdb_error + nat \<times> rio option"
type_synonym 'a loader = "rio \<Rightarrow> rdb_error + 'a \<times> rio"

definition andthen :: "'e + 'a \<times> 's \<Rightarrow> ('a \<Rightarrow> 's \<Rightarrow> 'e + 'b) \<Rightarrow> 'e + 'b" where
  "andthen m f = (case m of Inl e \<Rightarrow> Inl e | Inr (x, s) \<Rightarrow> f x s)"

lemma andthen_simps [simp]: "andthen (Inl e) f = Inl e" "andthen (Inr (x, s)) f = f x s"
  by (simp_all add: andthen_def)

text \<open>One saver after the other; the lengths add up.\<close>

definition seq_save :: "saver \<Rightarrow> saver \<Rightarrow> saver" where
  "seq_save m1 m2 rdb = andthen (m1 rdb) (\<lambda>n1 rdb. andthen (m2 rdb) (\<lambda>n2 rdb. Inr (n1 + n2, rdb)))"

text \<open>
  The settings of the dump and what is not initialised: the hash table on the stack of the
  compressor and the block allocated for its output, for every string that is compressed.
\<close>

record rdb_config =
  cf_compression :: bool
  cf_checksum :: bool
  cf_htab :: "string \<Rightarrow> nat \<Rightarrow> int"
  cf_block :: "string \<Rightarrow> nat \<Rightarrow> char"

section \<open>Bytes, times and lengths\<close>

definition REDIS_RDB_VERSION :: nat where "REDIS_RDB_VERSION = 6"
definition REDIS_RDB_LENERR :: nat where "REDIS_RDB_LENERR = 4294967295"
definition REDIS_RDB_ENC_INT8 :: nat where "REDIS_RDB_ENC_INT8 = 0"
definition REDIS_RDB_ENC_INT16 :: nat where "REDIS_RDB_ENC_INT16 = 1"
definition REDIS_RDB_ENC_INT32 :: nat where "REDIS_RDB_ENC_INT32 = 2"
definition REDIS_RDB_ENC_LZF :: nat where "REDIS_RDB_ENC_LZF = 3"

definition rdbWriteRaw :: "string \<Rightarrow> saver" where
  "rdbWriteRaw p rdb =
     (case rdb of
        None \<Rightarrow> Inr (length p, None)
      | Some r \<Rightarrow> (let (ok, r) = rioWrite p r in if ok then Inr (length p, Some r) else Inl Failed))"

definition rdbSaveType :: "nat \<Rightarrow> saver" where
  "rdbSaveType type = rdbWriteRaw [char_of type]"

definition rdbLoadType :: "nat loader" where
  "rdbLoadType rdb =
     (case rioRead 1 rdb of None \<Rightarrow> Inl Failed | Some (buf, rdb) \<Rightarrow> Inr (code (hd buf), rdb))"

text \<open>The value of bytes with the least significant one first, and back; \<open>w\<close> is the number of bytes.\<close>

fun lsb_value :: "string \<Rightarrow> nat" where
  "lsb_value [] = 0"
| "lsb_value (c # cs) = code c + 256 * lsb_value cs"

fun lsb_bytes :: "nat \<Rightarrow> nat \<Rightarrow> string" where
  "lsb_bytes 0 v = []"
| "lsb_bytes (Suc w) v = char_of (v mod 256) # lsb_bytes w (v div 256)"

definition signed :: "nat \<Rightarrow> nat \<Rightarrow> int" where
  "signed bits v = (if v < 2 ^ (bits - 1) then int v else int v - 2 ^ bits)"

text \<open>-1 stands for a failed read, as in the code, also when -1 is what was read.\<close>

definition rdbLoadTime :: "rio \<Rightarrow> int \<times> rio" where
  "rdbLoadTime rdb =
     (case rioRead 4 rdb of None \<Rightarrow> (-1, rdb) | Some (buf, rdb) \<Rightarrow> (signed 32 (lsb_value buf), rdb))"

definition rdbSaveMillisecondTime :: "int \<Rightarrow> saver" where
  "rdbSaveMillisecondTime t = rdbWriteRaw (lsb_bytes 8 (nat (t mod 2 ^ 64)))"

definition rdbLoadMillisecondTime :: "rio \<Rightarrow> int \<times> rio" where
  "rdbLoadMillisecondTime rdb =
     (case rioRead 8 rdb of None \<Rightarrow> (-1, rdb) | Some (buf, rdb) \<Rightarrow> (signed 64 (lsb_value buf), rdb))"

definition rdbSaveLen :: "nat \<Rightarrow> saver" where
  "rdbSaveLen len =
     (let len = len mod 2 ^ 32
      in if len < 2 ^ 6 then rdbWriteRaw [char_of len]
         else if len < 2 ^ 14 then rdbWriteRaw [char_of (len div 256 + 1 * 64), char_of len]
         else seq_save (rdbWriteRaw [char_of (2 * 64 :: nat)]) (rdbWriteRaw (rev (lsb_bytes 4 len))))"

text \<open>The length, or \<open>REDIS_RDB_LENERR\<close>, and whether it is the number of an encoding.\<close>

definition rdbLoadLen :: "rio \<Rightarrow> (nat \<times> bool) \<times> rio" where
  "rdbLoadLen rdb =
     (case rioRead 1 rdb of
        None \<Rightarrow> ((REDIS_RDB_LENERR, False), rdb)
      | Some (buf0, rdb) \<Rightarrow>
          let b = code (hd buf0); type = b div 64
          in if type = 3 then ((b mod 64, True), rdb)
             else if type = 0 then ((b mod 64, False), rdb)
             else if type = 1
             then (case rioRead 1 rdb of
                     None \<Rightarrow> ((REDIS_RDB_LENERR, False), rdb)
                   | Some (buf1, rdb) \<Rightarrow> ((b mod 64 * 256 + code (hd buf1), False), rdb))
             else (case rioRead 4 rdb of
                     None \<Rightarrow> ((REDIS_RDB_LENERR, False), rdb)
                   | Some (buf, rdb) \<Rightarrow> ((lsb_value (rev buf), False), rdb)))"

section \<open>Integers\<close>

text \<open>The empty string is the result 0: no encoding.\<close>

definition rdbEncodeInteger :: "int \<Rightarrow> string" where
  "rdbEncodeInteger value =
     (if - (2 ^ 7) \<le> value \<and> value \<le> 2 ^ 7 - 1
      then char_of (3 * 64 + REDIS_RDB_ENC_INT8) # lsb_bytes 1 (nat (value mod 2 ^ 8))
      else if - (2 ^ 15) \<le> value \<and> value \<le> 2 ^ 15 - 1
      then char_of (3 * 64 + REDIS_RDB_ENC_INT16) # lsb_bytes 2 (nat (value mod 2 ^ 16))
      else if - (2 ^ 31) \<le> value \<and> value \<le> 2 ^ 31 - 1
      then char_of (3 * 64 + REDIS_RDB_ENC_INT32) # lsb_bytes 4 (nat (value mod 2 ^ 32))
      else [])"

definition rdbLoadIntegerObject :: "nat \<Rightarrow> bool \<Rightarrow> robj loader" where
  "rdbLoadIntegerObject enctype encode rdb =
     (if enctype \<notin> {REDIS_RDB_ENC_INT8, REDIS_RDB_ENC_INT16, REDIS_RDB_ENC_INT32} then Inl Panic
      else let w = (if enctype = REDIS_RDB_ENC_INT8 then 1 else if enctype = REDIS_RDB_ENC_INT16 then 2 else 4)
           in case rioRead w rdb of
                None \<Rightarrow> Inl Failed
              | Some (enc, rdb) \<Rightarrow>
                  let val = signed (8 * w) (lsb_value enc)
                  in Inr (if encode then createStringObjectFromLongLong val
                          else createObject REDIS_STRING (Sds (sdsval (sdsfromlonglong val))), rdb))"

definition rdbTryIntegerEncoding :: "string \<Rightarrow> string" where
  "rdbTryIntegerEncoding s =
     (let (value, endptr, erange) = strtoll s
      in if endptr \<noteq> [] then []
         else if snd (ll2string 32 value) \<noteq> s then []
         else rdbEncodeInteger value)"

section \<open>Strings\<close>

text \<open>The result 0 is a string that was not compressed.  Lengths are below \<open>2 ^ 32\<close>.\<close>

definition rdbSaveLzfStringObject :: "rdb_config \<Rightarrow> string \<Rightarrow> saver" where
  "rdbSaveLzfStringObject cf s rdb =
     (if length s \<le> 4 then Inr (0, rdb)
      else let outlen = length s - 4; out = map (cf_block cf s) [0..<outlen + 1]
           in case lzf_compress (cf_htab cf s) s out outlen of
                None \<Rightarrow> Inl Panic
              | Some (comprlen, out) \<Rightarrow>
                  if comprlen = 0 then Inr (0, rdb)
                  else seq_save (rdbWriteRaw [char_of (3 * 64 + REDIS_RDB_ENC_LZF)])
                         (seq_save (rdbSaveLen comprlen)
                            (seq_save (rdbSaveLen (length s)) (rdbWriteRaw (take comprlen out)))) rdb)"

text \<open>The block for the result is filled with zeros first.\<close>

definition rdbLoadLzfStringObject :: "robj loader" where
  "rdbLoadLzfStringObject rdb =
     (let ((clen, _), rdb) = rdbLoadLen rdb
      in if clen = REDIS_RDB_LENERR then Inl Failed
         else let ((len, _), rdb) = rdbLoadLen rdb
              in if len = REDIS_RDB_LENERR then Inl Failed
                 else case rioRead clen rdb of
                        None \<Rightarrow> Inl Failed
                      | Some (c, rdb) \<Rightarrow>
                          (case lzf_decompress c len of
                             None \<Rightarrow> Inl Panic
                           | Some None \<Rightarrow> Inl Failed
                           | Some (Some out) \<Rightarrow>
                               if out = [] then Inl Failed
                               else Inr (createObject REDIS_STRING (Sds (out @ replicate (len - length out) NUL)), rdb)))"

definition rdbSaveRawString :: "rdb_config \<Rightarrow> string \<Rightarrow> saver" where
  "rdbSaveRawString cf s =
     (let verbatim = (if s = [] then rdbSaveLen (length s) else seq_save (rdbSaveLen (length s)) (rdbWriteRaw s));
          compressed = (\<lambda>rdb. if cf_compression cf \<and> 20 < length s
                          then andthen (rdbSaveLzfStringObject cf s rdb) (\<lambda>n rdb.
                                 if 0 < n then Inr (n, rdb) else verbatim rdb)
                          else verbatim rdb);
          buf = rdbTryIntegerEncoding s
      in if length s \<le> 11 \<and> buf \<noteq> [] then rdbWriteRaw buf else compressed)"

definition rdbSaveLongLongAsStringObject :: "int \<Rightarrow> saver" where
  "rdbSaveLongLongAsStringObject value =
     (let enc = rdbEncodeInteger value
      in if enc \<noteq> [] then rdbWriteRaw enc
         else let (enclen, buf) = ll2string 32 value
              in if \<not> enclen < 32 then (\<lambda>_. Inl Panic)
                 else seq_save (rdbSaveLen enclen) (rdbWriteRaw buf))"

definition rdbSaveStringObject :: "rdb_config \<Rightarrow> robj \<Rightarrow> saver" where
  "rdbSaveStringObject cf ob rdb =
     (case (o_encoding ob, o_ptr ob) of
        (ENC_INT, Long n) \<Rightarrow> rdbSaveLongLongAsStringObject n rdb
      | (ENC_RAW, Sds s) \<Rightarrow> rdbSaveRawString cf s rdb
      | _ \<Rightarrow> Inl Panic)"

definition rdbGenericLoadStringObject :: "bool \<Rightarrow> robj loader" where
  "rdbGenericLoadStringObject encode rdb =
     (let ((len, isencoded), rdb) = rdbLoadLen rdb
      in if isencoded
         then (if len \<in> {REDIS_RDB_ENC_INT8, REDIS_RDB_ENC_INT16, REDIS_RDB_ENC_INT32}
               then rdbLoadIntegerObject len encode rdb
               else if len = REDIS_RDB_ENC_LZF then rdbLoadLzfStringObject rdb
               else Inl Panic)
         else if len = REDIS_RDB_LENERR then Inl Failed
         else if len = 0 then Inr (createObject REDIS_STRING (Sds []), rdb)
         else case rioRead len rdb of
                None \<Rightarrow> Inl Failed
              | Some (val, rdb) \<Rightarrow> Inr (createObject REDIS_STRING (Sds val), rdb))"

definition rdbLoadStringObject :: "robj loader" where
  "rdbLoadStringObject = rdbGenericLoadStringObject False"

definition rdbLoadEncodedStringObject :: "robj loader" where
  "rdbLoadEncodedStringObject = rdbGenericLoadStringObject True"

section \<open>Objects\<close>

text \<open>The types of the file; a combination of type and encoding that does not exist is a panic.\<close>

definition rdb_type :: "robj \<Rightarrow> nat option" where
  "rdb_type ob =
     (case (o_type ob, o_encoding ob) of
        (REDIS_STRING, _) \<Rightarrow> Some 0
      | (REDIS_LIST, ENC_ZIPLIST) \<Rightarrow> Some 10
      | (REDIS_LIST, ENC_LINKEDLIST) \<Rightarrow> Some 1
      | (REDIS_SET, ENC_INTSET) \<Rightarrow> Some 11
      | (REDIS_SET, ENC_HT) \<Rightarrow> Some 2
      | (REDIS_ZSET, ENC_ZIPLIST) \<Rightarrow> Some 12
      | (REDIS_ZSET, ENC_SKIPLIST) \<Rightarrow> Some 3
      | (REDIS_HASH, ENC_ZIPLIST) \<Rightarrow> Some 13
      | (REDIS_HASH, ENC_HT) \<Rightarrow> Some 4
      | _ \<Rightarrow> None)"

definition rdbSaveObjectType :: "robj \<Rightarrow> saver" where
  "rdbSaveObjectType ob = (case rdb_type ob of None \<Rightarrow> (\<lambda>_. Inl Panic) | Some t \<Rightarrow> rdbSaveType t)"

definition rdbIsObjectType :: "nat \<Rightarrow> bool" where
  "rdbIsObjectType t \<longleftrightarrow> t \<le> 4 \<or> 9 \<le> t \<and> t \<le> 13"

definition rdbLoadObjectType :: "nat loader" where
  "rdbLoadObjectType rdb =
     andthen (rdbLoadType rdb) (\<lambda>type rdb. if rdbIsObjectType type then Inr (type, rdb) else Inl Failed)"

definition rdbSaveObject :: "rdb_config \<Rightarrow> robj \<Rightarrow> saver" where
  "rdbSaveObject cf ob = (if o_type ob = REDIS_STRING then rdbSaveStringObject cf ob else (\<lambda>_. Inl Foreign))"

definition rdbSavedObjectLen :: "rdb_config \<Rightarrow> robj \<Rightarrow> rdb_error + nat" where
  "rdbSavedObjectLen cf ob = andthen (rdbSaveObject cf ob None) (\<lambda>n _. Inr n)"

definition rdbLoadObject :: "nat \<Rightarrow> nat \<Rightarrow> robj loader" where
  "rdbLoadObject maxmemory rdbtype rdb =
     (if rdbtype = 0
      then andthen (rdbLoadEncodedStringObject rdb) (\<lambda>ob rdb.
             case tryObjectEncoding maxmemory 1 ob of None \<Rightarrow> Inl Panic | Some ob \<Rightarrow> Inr (ob, rdb))
      else if rdbIsObjectType rdbtype then Inl Foreign else Inl Panic)"

text \<open>The result 0 is a key that has expired and is not saved.\<close>

definition rdbSaveKeyValuePair :: "rdb_config \<Rightarrow> string \<Rightarrow> robj \<Rightarrow> int \<Rightarrow> int \<Rightarrow> saver" where
  "rdbSaveKeyValuePair cf key val expiretime now rdb =
     (if expiretime \<noteq> -1 \<and> expiretime < now then Inr (0, rdb)
      else let expire = (if expiretime \<noteq> -1
                         then seq_save (rdbSaveType 252) (rdbSaveMillisecondTime expiretime)
                         else (\<lambda>rdb. Inr (0, rdb)))
           in andthen (seq_save expire (seq_save (rdbSaveObjectType val)
                 (seq_save (rdbSaveStringObject cf (createStringObject key)) (rdbSaveObject cf val))) rdb)
                (\<lambda>_ rdb. Inr (1, rdb)))"

section \<open>The file\<close>

text \<open>The entries of a database, in the order of the iterator.\<close>

fun save_entries :: "rdb_config \<Rightarrow> server \<Rightarrow> nat \<Rightarrow> key list \<Rightarrow> rio option \<Rightarrow> rdb_error + unit \<times> rio option" where
  "save_entries cf sv i [] rdb = Inr ((), rdb)"
| "save_entries cf sv i (k # ks) rdb =
     (case (getExpire i k sv, rd_dict (sv_db sv i) k) of
        (Some expire, Some val) \<Rightarrow>
          andthen (rdbSaveKeyValuePair cf k val expire (sv_now sv) rdb) (\<lambda>_ rdb. save_entries cf sv i ks rdb)
      | _ \<Rightarrow> Inl Panic)"

fun save_dbs :: "rdb_config \<Rightarrow> server \<Rightarrow> nat list \<Rightarrow> rio option \<Rightarrow> rdb_error + unit \<times> rio option" where
  "save_dbs cf sv [] rdb = Inr ((), rdb)"
| "save_dbs cf sv (j # js) rdb =
     (let ks = sv_iter sv (rd_dict (sv_db sv j))
      in if ks = [] then save_dbs cf sv js rdb
         else andthen (seq_save (rdbSaveType 254) (rdbSaveLen j) rdb) (\<lambda>_ rdb.
              andthen (save_entries cf sv j ks rdb) (\<lambda>_ rdb.
              save_dbs cf sv js rdb)))"

definition magic :: string where "magic = ''REDIS0006''"

text \<open>What is written before the checksum, and the checksum.\<close>

definition save_body :: "rdb_config \<Rightarrow> server \<Rightarrow> rio option \<Rightarrow> rdb_error + unit \<times> rio option" where
  "save_body cf sv rdb =
     andthen (rdbWriteRaw magic rdb) (\<lambda>_ rdb.
     andthen (save_dbs cf sv [0..<sv_dbnum sv] rdb) (\<lambda>_ rdb.
     andthen (rdbSaveType 255 rdb) (\<lambda>_ rdb. Inr ((), rdb))))"

text \<open>
  \<open>rdbSave\<close>: the result, the content of the file and the server.  \<open>limit\<close> is the number of bytes that
  \<open>fwrite\<close> takes before it reports an error and \<open>room\<close> the number of bytes that get to the device when the
  buffer is flushed and the file is closed; \<open>sv_disk_ok\<close> says whether the file can be created and renamed.
  The results of writing the checksum, of \<open>fflush\<close>, \<open>fsync\<close> and \<open>fclose\<close> are not looked at.
\<close>

definition rdbSaveFile :: "rdb_config \<Rightarrow> nat \<Rightarrow> nat \<Rightarrow> server \<Rightarrow> (rdb_error + string) \<times> server" where
  "rdbSaveFile cf room limit sv =
     (if \<not> sv_disk_ok sv then (Inl Failed, sv)
      else case save_body cf sv (Some ((rioInitWithFile [] limit)\<lparr>r_update_cksum := cf_checksum cf\<rparr>)) of
        Inl e \<Rightarrow> (Inl e, sv)
      | Inr (_, None) \<Rightarrow> (Inl Panic, sv)
      | Inr (_, Some r) \<Rightarrow>
          (let (_, r) = rioWrite (lsb_bytes 8 (unat (r_cksum r))) r
           in (Inr (take room (r_data r)),
               sv\<lparr>sv_dirty := 0, sv_lastsave := sv_now sv div 1000, sv_bgsave_err := False\<rparr>)))"

text \<open>
  One round of the loop of \<open>rdbLoad\<close>: \<open>None\<close> at the end of the entries.  \<open>db\<close> is the database the
  entries go to.  An unexpected end of the file is a fatal exit.
\<close>

definition load_type :: "rio \<Rightarrow> rdb_error + (nat \<times> int) \<times> rio" where
  "load_type rdb =
     andthen (rdbLoadType rdb) (\<lambda>type rdb.
       if type = 253
       then let (t, rdb) = rdbLoadTime rdb
            in if t = -1 then Inl Failed
               else andthen (rdbLoadType rdb) (\<lambda>type rdb. Inr ((type, t * 1000), rdb))
       else if type = 252
       then let (t, rdb) = rdbLoadMillisecondTime rdb
            in if t = -1 then Inl Failed
               else andthen (rdbLoadType rdb) (\<lambda>type rdb. Inr ((type, t), rdb))
       else Inr ((type, -1), rdb))"

definition load_key_value :: "nat \<Rightarrow> nat \<Rightarrow> rio \<Rightarrow> rdb_error + (robj \<times> robj) \<times> rio" where
  "load_key_value maxmemory type rdb =
     andthen (rdbLoadStringObject rdb) (\<lambda>key rdb.
     andthen (rdbLoadObject maxmemory type rdb) (\<lambda>val rdb. Inr ((key, val), rdb)))"

definition add_loaded :: "int \<Rightarrow> nat \<Rightarrow> key \<Rightarrow> robj \<Rightarrow> int \<Rightarrow> server \<Rightarrow> server option" where
  "add_loaded now db key val expiretime sv =
     (if \<not> sv_masterhost sv \<and> expiretime \<noteq> -1 \<and> expiretime < now then Some sv
      else Option.bind (dbAdd db key val sv) (\<lambda>sv.
             if expiretime \<noteq> -1 then setExpire db key expiretime sv else Some sv))"

definition eoferr :: "rdb_error \<Rightarrow> rdb_error" where
  "eoferr e = (if e = Failed then Exit else e)"

definition load_entry :: "int \<Rightarrow> nat \<Rightarrow> server \<Rightarrow> rio \<Rightarrow> rdb_error + ((nat \<times> server) option) \<times> rio" where
  "load_entry now db sv rdb =
     (case load_type rdb of
        Inl e \<Rightarrow> Inl (eoferr e)
      | Inr ((type, expiretime), rdb) \<Rightarrow>
          if type = 255 then Inr (None, rdb)
          else if type = 254
          then let ((dbid, _), rdb) = rdbLoadLen rdb
               in if dbid = REDIS_RDB_LENERR \<or> sv_dbnum sv \<le> dbid then Inl Exit
                  else Inr (Some (dbid, sv), rdb)
          else case load_key_value (sv_maxmemory sv) type rdb of
                 Inl e \<Rightarrow> Inl (eoferr e)
               | Inr ((key, val), rdb) \<Rightarrow>
                   (case add_loaded now db (objval key) val expiretime sv of
                      None \<Rightarrow> Inl Panic
                    | Some sv \<Rightarrow> Inr (Some (db, sv), rdb)))"

text \<open>Every loader takes bytes off the stream, never adds any.\<close>

lemma rioRead_data: "rioRead n r = Some (buf, r') \<Longrightarrow> r_data r = buf @ r_data r' \<and> length buf = n"
  by (auto simp: rioRead_def rioFileRead_def rioBufferRead_def rioGenericUpdateChecksum_def split: if_splits option.splits)

lemma rioRead_length: "rioRead n r = Some (buf, r') \<Longrightarrow> length (r_data r) = n + length (r_data r')"
  using rioRead_data by fastforce

named_theorems shorter

lemma rdbLoadType_shorter [shorter]: "rdbLoadType r = Inr (t, r') \<Longrightarrow> length (r_data r') < length (r_data r)"
  by (auto simp: rdbLoadType_def split: option.splits dest: rioRead_length)

lemma rdbLoadTime_shorter [shorter]: "rdbLoadTime r = (t, r') \<Longrightarrow> length (r_data r') \<le> length (r_data r)"
  by (auto simp: rdbLoadTime_def split: option.splits dest: rioRead_length)

lemma rdbLoadMillisecondTime_shorter [shorter]: "rdbLoadMillisecondTime r = (t, r') \<Longrightarrow> length (r_data r') \<le> length (r_data r)"
  by (auto simp: rdbLoadMillisecondTime_def split: option.splits dest: rioRead_length)

lemma rdbLoadLen_shorter [shorter]: "rdbLoadLen r = (x, r') \<Longrightarrow> length (r_data r') \<le> length (r_data r)"
  by (auto simp: rdbLoadLen_def Let_def split: option.splits if_splits dest!: rioRead_length)

lemma rdbLoadIntegerObject_shorter [shorter]:
  "rdbLoadIntegerObject e b r = Inr (x, r') \<Longrightarrow> length (r_data r') \<le> length (r_data r)"
  by (auto simp: rdbLoadIntegerObject_def Let_def split: option.splits if_splits dest!: rioRead_length)

lemma rdbLoadLzfStringObject_shorter [shorter]:
  "rdbLoadLzfStringObject r = Inr (x, r') \<Longrightarrow> length (r_data r') \<le> length (r_data r)"
  by (auto simp: rdbLoadLzfStringObject_def Let_def split: option.splits if_splits prod.splits dest!: rioRead_length rdbLoadLen_shorter)

lemma rdbGenericLoadStringObject_shorter [shorter]:
  "rdbGenericLoadStringObject e r = Inr (x, r') \<Longrightarrow> length (r_data r') \<le> length (r_data r)"
  by (auto simp: rdbGenericLoadStringObject_def Let_def split: option.splits if_splits prod.splits
      dest!: rioRead_length rdbLoadLen_shorter rdbLoadIntegerObject_shorter rdbLoadLzfStringObject_shorter)

lemma load_key_value_shorter:
  "load_key_value m t r = Inr (x, r') \<Longrightarrow> length (r_data r') \<le> length (r_data r)"
  by (auto simp: load_key_value_def rdbLoadObject_def rdbLoadStringObject_def rdbLoadEncodedStringObject_def andthen_def
      split: sum.splits option.splits if_splits dest!: rdbGenericLoadStringObject_shorter)

lemma load_type_shorter: "load_type r = Inr (x, r') \<Longrightarrow> length (r_data r') < length (r_data r)"
  by (auto simp: load_type_def andthen_def Let_def split: sum.splits if_splits prod.splits dest!: shorter)

lemma load_entry_shorter: "load_entry now db sv r = Inr (x, r') \<Longrightarrow> length (r_data r') < length (r_data r)"
  by (auto simp: load_entry_def Let_def split: sum.splits if_splits prod.splits option.splits
      dest!: load_type_shorter rdbLoadLen_shorter load_key_value_shorter)

function load_entries :: "int \<Rightarrow> nat \<Rightarrow> server \<Rightarrow> rio \<Rightarrow> rdb_error + server \<times> rio" where
  "load_entries now db sv rdb =
     (case load_entry now db sv rdb of
        Inl e \<Rightarrow> Inl e
      | Inr (None, rdb) \<Rightarrow> Inr (sv, rdb)
      | Inr (Some (db, sv), rdb) \<Rightarrow> load_entries now db sv rdb)"
  by pat_completeness auto
termination
  by (relation "measure (\<lambda>(now, db, sv, rdb). length (r_data rdb))") (auto dest: load_entry_shorter)

declare load_entries.simps [simp del]

text \<open>
  \<open>rdbLoad\<close> on the content of a file.  The clients that are served from time to time while the data
  set is loaded get an error for every command that touches it.
\<close>

definition rdbLoad :: "rdb_config \<Rightarrow> string \<Rightarrow> server \<Rightarrow> rdb_error + server" where
  "rdbLoad cf file sv =
     (case rioRead 9 ((rioInitWithFile file 0)\<lparr>r_update_cksum := cf_checksum cf\<rparr>) of
        None \<Rightarrow> Inl Exit
      | Some (buf, rdb) \<Rightarrow>
          if take 5 buf \<noteq> ''REDIS'' then Inl Failed
          else let rdbver = atoi (drop 5 buf)
               in if rdbver < 1 \<or> int REDIS_RDB_VERSION < rdbver then Inl Failed
                  else andthen (load_entries (sv_now sv) 0 (sv\<lparr>sv_loading := True\<rparr>) rdb) (\<lambda>sv rdb.
                    let loaded = Inr (sv\<lparr>sv_loading := False\<rparr>)
                    in if 5 \<le> rdbver \<and> cf_checksum cf
                       then (case rioRead 8 rdb of
                               None \<Rightarrow> Inl Exit
                             | Some (cksum, _) \<Rightarrow>
                                 if lsb_value cksum \<noteq> 0 \<and> lsb_value cksum \<noteq> unat (r_cksum rdb) then Inl Exit
                                 else loaded)
                       else loaded))"

section \<open>What is written and what is read\<close>

text \<open>\<open>writes m bs\<close>: \<open>m\<close> appends \<open>bs\<close>, or fails when the stream is full, and reports the length of \<open>bs\<close>.\<close>

definition room_for :: "string \<Rightarrow> rio \<Rightarrow> bool" where
  "room_for bs r \<longleftrightarrow> (r_file r \<longrightarrow> length bs \<le> r_room r)"

definition written :: "string \<Rightarrow> rio \<Rightarrow> rio" where
  "written bs r = r\<lparr>r_cksum := (if r_update_cksum r then crc64 (r_cksum r) bs else r_cksum r),
     r_data := r_data r @ bs, r_room := (if r_file r then r_room r - length bs else r_room r)\<rparr>"

definition writes :: "saver \<Rightarrow> string \<Rightarrow> bool" where
  "writes m bs \<longleftrightarrow> m None = Inr (length bs, None) \<and>
     (\<forall>r. m (Some r) = (if room_for bs r then Inr (length bs, Some (written bs r)) else Inl Failed))"

text \<open>\<open>reads m bs x\<close>: in front of \<open>bs\<close>, \<open>m\<close> returns \<open>x\<close> and goes behind \<open>bs\<close>.\<close>

definition consumed :: "string \<Rightarrow> rio \<Rightarrow> rio" where
  "consumed bs r = r\<lparr>r_cksum := (if r_update_cksum r then crc64 (r_cksum r) bs else r_cksum r),
     r_data := drop (length bs) (r_data r)\<rparr>"

definition reads :: "'a loader \<Rightarrow> string \<Rightarrow> 'a \<Rightarrow> bool" where
  "reads m bs x \<longleftrightarrow> (\<forall>r rest. r_data r = bs @ rest \<longrightarrow> m r = Inr (x, consumed bs r))"

lemma written_append [simp]: "written cs (written bs r) = written (bs @ cs) r"
  by (simp add: written_def crc64_append)

lemma consumed_append [simp]: "consumed cs (consumed bs r) = consumed (bs @ cs) r"
  by (simp add: consumed_def crc64_append add.commute)

lemma consumed_simps [simp]:
  "r_data r = bs @ rest \<Longrightarrow> r_data (consumed bs r) = rest"
  "r_file (consumed bs r) = r_file r" "r_update_cksum (consumed bs r) = r_update_cksum r"
  by (simp_all add: consumed_def)

lemma room_for_append: "room_for (bs @ cs) r \<longleftrightarrow> room_for bs r \<and> room_for cs (written bs r)"
  by (auto simp: room_for_def written_def)

lemma writes_raw [intro]: "bs \<noteq> [] \<Longrightarrow> writes (rdbWriteRaw bs) bs"
  by (auto simp: writes_def rdbWriteRaw_def rioWrite_def rioFileWrite_def rioBufferWrite_def
      rioGenericUpdateChecksum_def room_for_def written_def Let_def split: option.splits)

lemma writes_nothing: "writes (\<lambda>rdb. Inr (0, rdb)) []"
  by (simp add: writes_def room_for_def written_def crc64_def)

lemma writes_seq [intro]:
  assumes "writes m1 bs" "writes m2 cs"
  shows "writes (seq_save m1 m2) (bs @ cs)"
  using assms by (auto simp: writes_def seq_save_def room_for_append)

lemma writes_Some:
  "writes m bs \<Longrightarrow> m (Some r) = (if room_for bs r then Inr (length bs, Some (written bs r)) else Inl Failed)"
  by (simp add: writes_def)

lemma readsD: "reads m bs x \<Longrightarrow> r_data r = bs @ rest \<Longrightarrow> m r = Inr (x, consumed bs r)"
  by (simp add: reads_def)

lemma rioRead_front:
  assumes "r_data r = bs @ rest" "bs \<noteq> []"
  shows "rioRead (length bs) r = Some (bs, consumed bs r)"
  using assms
  by (auto simp: rioRead_def rioFileRead_def rioBufferRead_def rioGenericUpdateChecksum_def consumed_def)

lemma rioRead_front_n: "r_data r = bs @ rest \<Longrightarrow> length bs = n \<Longrightarrow> 0 < n \<Longrightarrow> rioRead n r = Some (bs, consumed bs r)"
  using rioRead_front by fastforce

lemma rioRead_byte: "r_data r = b # rest \<Longrightarrow> rioRead 1 r = Some ([b], consumed [b] r)"
  using rioRead_front [of r "[b]"] by simp

section \<open>Numbers\<close>

lemma lsb_value_bytes: "lsb_value (lsb_bytes w v) = v mod 256 ^ w"
proof (induction w arbitrary: v)
  case (Suc w)
  have "v mod 256 + 256 * (v div 256 mod 256 ^ w) = v mod (256 * 256 ^ w)"
    by (simp add: mod_mult2_eq)
  then show ?case using Suc by (simp add: code_def)
qed simp

lemma length_lsb_bytes [simp]: "length (lsb_bytes w v) = w"
  by (induction w arbitrary: v) simp_all

lemma lsb_bytes_Nil [simp]: "lsb_bytes w v = [] \<longleftrightarrow> w = 0"
  by (cases w) simp_all

lemma signed_id:
  assumes "- (2 ^ (b - 1)) \<le> v" "v < 2 ^ (b - 1)" "0 < b"
  shows "signed b (nat (v mod 2 ^ b)) = v"
proof -
  have b: "(2 :: int) ^ b = 2 * 2 ^ (b - 1)" using assms(3) by (cases b) simp_all
  have n: "nat (v mod 2 ^ b) < 2 ^ (b - 1) \<longleftrightarrow> v mod 2 ^ b < 2 ^ (b - 1)"
    by (simp add: nat_less_iff)
  show ?thesis
  proof (cases "0 \<le> v")
    case True
    then have "v mod 2 ^ b = v" using assms(2) b by (intro mod_pos_pos_trivial) simp_all
    then show ?thesis using True assms(2) n by (simp add: signed_def)
  next
    case False
    have "(v + 2 ^ b) mod 2 ^ b = v + 2 ^ b" using assms(1) False b by (intro mod_pos_pos_trivial) simp_all
    then have "v mod 2 ^ b = v + 2 ^ b" by simp
    then show ?thesis using False assms(1) b n by (simp add: signed_def)
  qed
qed

lemma signed_bytes:
  assumes "- (2 ^ (8 * w - 1)) \<le> v" "v \<le> 2 ^ (8 * w - 1) - 1" "0 < w"
  shows "signed (8 * w) (lsb_value (lsb_bytes w (nat (v mod 2 ^ (8 * w))))) = v"
proof -
  have "(256 :: nat) ^ w = 2 ^ (8 * w)" by (simp add: power_mult)
  moreover have "nat (v mod 2 ^ (8 * w)) < 2 ^ (8 * w)" by (simp add: nat_less_iff)
  ultimately have "lsb_value (lsb_bytes w (nat (v mod 2 ^ (8 * w)))) = nat (v mod 2 ^ (8 * w))"
    by (simp add: lsb_value_bytes)
  then show ?thesis using signed_id [of "8 * w" v] assms by simp
qed

section \<open>Lengths\<close>

definition len_bytes :: "nat \<Rightarrow> string" where
  "len_bytes n =
     (if n < 64 then [char_of n]
      else if n < 16384 then [char_of (n div 256 + 64), char_of n]
      else char_of (128 :: nat) # rev (lsb_bytes 4 n))"

lemma len_bytes_Nil [simp]: "len_bytes n \<noteq> []"
  by (simp add: len_bytes_def)

lemma writes_len [intro]:
  assumes "n < 2 ^ 32"
  shows "writes (rdbSaveLen n) (len_bytes n)"
proof -
  have m: "n mod 2 ^ 32 = n" using assms by simp
  have "writes (seq_save (rdbWriteRaw [char_of (2 * 64 :: nat)]) (rdbWriteRaw (rev (lsb_bytes 4 n))))
      ([char_of (2 * 64 :: nat)] @ rev (lsb_bytes 4 n))"
    by (intro writes_seq writes_raw) simp_all
  then show ?thesis unfolding rdbSaveLen_def len_bytes_def m Let_def by auto
qed

lemma loads_len:
  assumes "r_data r = len_bytes n @ rest" "n < 2 ^ 32"
  shows "rdbLoadLen r = ((n, False), consumed (len_bytes n) r)"
proof -
  consider "n < 64" | "64 \<le> n" "n < 16384" | "16384 \<le> n" by linarith
  then show ?thesis
  proof cases
    case 1
    then have d: "r_data r = char_of n # rest" using assms(1) by (simp add: len_bytes_def)
    have c: "code (char_of n) = n" using 1 by simp
    show ?thesis using 1 by (simp add: rdbLoadLen_def rioRead_byte [OF d, simplified] c len_bytes_def Let_def)
  next
    case 2
    let ?a = "char_of (n div 256 + 64)" and ?b = "char_of n :: char"
    have d: "r_data r = ?a # ?b # rest" using 2 assms(1) by (simp add: len_bytes_def)
    then have d2: "r_data (consumed [?a] r) = ?b # rest" by (simp add: consumed_def)
    have h: "n div 256 < 64" using 2 by simp
    then have c: "code ?a = n div 256 + 64" "code ?b = n mod 256" by (simp_all add: code_def)
    have e: "(n div 256 + 64) div 64 = 1" "(n div 256 + 64) mod 64 = n div 256" using h by simp_all
    show ?thesis using 2 e
      by (simp add: rdbLoadLen_def rioRead_byte [OF d, simplified] rioRead_byte [OF d2, simplified] c len_bytes_def Let_def)
  next
    case 3
    let ?a = "char_of (128 :: nat)" and ?b = "rev (lsb_bytes 4 n)"
    have d: "r_data r = ?a # ?b @ rest" using 3 assms(1) by (simp add: len_bytes_def)
    then have d2: "r_data (consumed [?a] r) = ?b @ rest" by (simp add: consumed_def)
    have r4: "rioRead 4 (consumed [?a] r) = Some (?b, consumed ?b (consumed [?a] r))"
      by (rule rioRead_front_n [OF d2]) simp_all
    have c: "code ?a = 128" by simp
    have v: "lsb_value (lsb_bytes 4 n) = n" using assms(2) by (simp add: lsb_value_bytes)
    show ?thesis using 3
      by (simp add: rdbLoadLen_def rioRead_byte [OF d, simplified] r4 c v len_bytes_def Let_def del: consumed_append)
        (simp add: len_bytes_def)
  qed
qed

lemma loads_encoding:
  assumes "r_data r = char_of (192 + e) # rest" "e < 64"
  shows "rdbLoadLen r = ((e, True), consumed [char_of (192 + e)] r)"
proof -
  have c: "code (char_of (192 + e)) = 192 + e" using assms(2) by simp
  have "(e + 3 * 64) div 64 = 3" "(e + 3 * 64) mod 64 = e" using assms(2) by (simp_all only: div_mult_self1 mod_mult_self1) simp_all
  then have "(192 + e) div 64 = 3" "(192 + e) mod 64 = e" by (simp_all add: add.commute)
  then show ?thesis by (simp add: rdbLoadLen_def rioRead_byte [OF assms(1), simplified] c Let_def)
qed

section \<open>Strings are loaded as they were saved\<close>

definition int_object :: "bool \<Rightarrow> int \<Rightarrow> robj" where
  "int_object encode v =
     (if encode then createStringObjectFromLongLong v
      else createObject REDIS_STRING (Sds (sdsval (sdsfromlonglong v))))"

definition is_string :: "robj \<Rightarrow> string \<Rightarrow> bool" where
  "is_string ob s \<longleftrightarrow> robj_wf ob \<and> o_type ob = REDIS_STRING \<and> objval ob = s"

lemma sdsval_fromlonglong:
  assumes "LLONG_MIN \<le> v" "v \<le> LLONG_MAX"
  shows "sdsval (sdsfromlonglong v) = dec_int v"
  using sdsfromlonglong_roundtrip [OF assms] by (simp add: string2ll_iff_dec)

lemma int_object_string:
  assumes "LLONG_MIN \<le> v" "v \<le> LLONG_MAX"
  shows "is_string (int_object encode v) (dec_int v)"
proof -
  have "is_string (createStringObject (dec_int v)) (dec_int v)" by (simp add: is_string_def)
  then show ?thesis
    using createStringObjectFromLongLong_simps [OF assms] sdsval_fromlonglong [OF assms]
    by (auto simp: is_string_def int_object_def createStringObject_def)
qed

lemma loads_integer_bytes:
  assumes "(t, w) \<in> {(REDIS_RDB_ENC_INT8, 1), (REDIS_RDB_ENC_INT16, 2), (REDIS_RDB_ENC_INT32, 4)}"
    and "- (2 ^ (8 * w - 1)) \<le> v" "v \<le> 2 ^ (8 * w - 1) - 1"
  shows "reads (rdbGenericLoadStringObject encode) (char_of (192 + t) # lsb_bytes w (nat (v mod 2 ^ (8 * w)))) (int_object encode v)"
  unfolding reads_def
proof (intro allI impI)
  fix r :: rio and rest
  let ?h = "char_of (192 + t)" and ?b = "lsb_bytes w (nat (v mod 2 ^ (8 * w)))"
  assume d: "r_data r = (?h # ?b) @ rest"
  have t: "t < 64" "0 < w" "t \<in> {REDIS_RDB_ENC_INT8, REDIS_RDB_ENC_INT16, REDIS_RDB_ENC_INT32}"
    using assms(1) by (auto simp: REDIS_RDB_ENC_INT8_def REDIS_RDB_ENC_INT16_def REDIS_RDB_ENC_INT32_def)
  have l: "rdbLoadLen r = ((t, True), consumed [?h] r)" by (rule loads_encoding) (use d t in simp_all)
  have d2: "r_data (consumed [?h] r) = ?b @ rest" using d by (simp add: consumed_def)
  have b: "rioRead w (consumed [?h] r) = Some (?b, consumed ?b (consumed [?h] r))"
    by (rule rioRead_front_n [OF d2]) (use t in simp_all)
  have w: "(if t = REDIS_RDB_ENC_INT8 then 1 else if t = REDIS_RDB_ENC_INT16 then 2 else 4) = w"
    using assms(1) by (auto simp: REDIS_RDB_ENC_INT8_def REDIS_RDB_ENC_INT16_def REDIS_RDB_ENC_INT32_def)
  have "rdbLoadIntegerObject t encode (consumed [?h] r) = Inr (int_object encode v, consumed (?h # ?b) r)"
    unfolding rdbLoadIntegerObject_def w Let_def b
    using t(3) signed_bytes [OF assms(2,3) t(2)] by (simp add: int_object_def)
  then show "rdbGenericLoadStringObject encode r = Inr (int_object encode v, consumed (?h # ?b) r)"
    using t(3) by (simp add: rdbGenericLoadStringObject_def l)
qed

lemma rdbEncodeInteger_range: "rdbEncodeInteger v \<noteq> [] \<longleftrightarrow> - (2 ^ 31) \<le> v \<and> v \<le> 2 ^ 31 - 1"
  by (auto simp: rdbEncodeInteger_def)

lemma loads_integer:
  assumes "rdbEncodeInteger v \<noteq> []"
  shows "reads (rdbGenericLoadStringObject encode) (rdbEncodeInteger v) (int_object encode v)"
proof -
  consider "- (2 ^ 7) \<le> v" "v \<le> 2 ^ 7 - 1"
    | "\<not> (- (2 ^ 7) \<le> v \<and> v \<le> 2 ^ 7 - 1)" "- (2 ^ 15) \<le> v" "v \<le> 2 ^ 15 - 1"
    | "\<not> (- (2 ^ 7) \<le> v \<and> v \<le> 2 ^ 7 - 1)" "\<not> (- (2 ^ 15) \<le> v \<and> v \<le> 2 ^ 15 - 1)" "- (2 ^ 31) \<le> v" "v \<le> 2 ^ 31 - 1"
    using assms unfolding rdbEncodeInteger_range by blast
  then show ?thesis
  proof cases
    case 1
    then show ?thesis using loads_integer_bytes [of REDIS_RDB_ENC_INT8 1 v encode] by (simp add: rdbEncodeInteger_def)
  next
    case 2
    then have "rdbEncodeInteger v = char_of (192 + REDIS_RDB_ENC_INT16) # lsb_bytes 2 (nat (v mod 2 ^ (8 * 2)))"
      by (auto simp: rdbEncodeInteger_def)
    then show ?thesis using loads_integer_bytes [of REDIS_RDB_ENC_INT16 2 v encode] 2(2,3) by simp
  next
    case 3
    then have "rdbEncodeInteger v = char_of (192 + REDIS_RDB_ENC_INT32) # lsb_bytes 4 (nat (v mod 2 ^ (8 * 4)))"
      by (auto simp: rdbEncodeInteger_def)
    then show ?thesis using loads_integer_bytes [of REDIS_RDB_ENC_INT32 4 v encode] 3(3,4) by simp
  qed
qed

lemma rdbTryIntegerEncoding_dec:
  assumes "rdbTryIntegerEncoding s \<noteq> []"
  obtains v where "s = dec_int v" "rdbTryIntegerEncoding s = rdbEncodeInteger v" "LLONG_MIN \<le> v" "v \<le> LLONG_MAX"
proof -
  obtain v p e where s: "strtoll s = (v, p, e)" by (cases "strtoll s")
  have r: "LLONG_MIN \<le> v" "v \<le> LLONG_MAX"
    using s strtoll10_range [of "cstr s"] by (auto simp: strtoll_def Let_def split: if_splits)
  have "snd (ll2string 32 v) = dec_int v" using ll2string_buf [OF r, of 32] by simp
  then have "s = dec_int v" "rdbTryIntegerEncoding s = rdbEncodeInteger v"
    using assms s by (auto simp: rdbTryIntegerEncoding_def split: if_splits)
  then show thesis using that r by blast
qed

lemma loads_raw_bytes:
  assumes "length s < REDIS_RDB_LENERR"
  shows "reads (rdbGenericLoadStringObject encode) (len_bytes (length s) @ s) (createStringObject s)"
  unfolding reads_def
proof (intro allI impI)
  fix r :: rio and rest
  assume d: "r_data r = (len_bytes (length s) @ s) @ rest"
  have n: "length s < 2 ^ 32" using assms by (simp add: REDIS_RDB_LENERR_def)
  have l: "rdbLoadLen r = ((length s, False), consumed (len_bytes (length s)) r)"
    by (rule loads_len [OF _ n]) (use d in simp)
  show "rdbGenericLoadStringObject encode r = Inr (createStringObject s, consumed (len_bytes (length s) @ s) r)"
  proof (cases "s = []")
    case True
    then show ?thesis using assms l by (simp add: rdbGenericLoadStringObject_def createStringObject_def)
  next
    case False
    have d2: "r_data (consumed (len_bytes (length s)) r) = s @ rest" using d by (simp add: consumed_def)
    show ?thesis using assms False rioRead_front [OF d2 False]
      by (simp add: rdbGenericLoadStringObject_def l createStringObject_def)
  qed
qed

lemma loads_lzf_bytes:
  assumes "length s < REDIS_RDB_LENERR" "length z < REDIS_RDB_LENERR" "z \<noteq> []" "s \<noteq> []"
    and "lzf_decompress z (length s) = Some (Some s)"
  shows "reads (rdbGenericLoadStringObject encode)
    (char_of (192 + REDIS_RDB_ENC_LZF) # len_bytes (length z) @ len_bytes (length s) @ z) (createStringObject s)"
  unfolding reads_def
proof (intro allI impI)
  fix r :: rio and rest
  let ?h = "char_of (192 + REDIS_RDB_ENC_LZF)"
  assume d: "r_data r = (?h # len_bytes (length z) @ len_bytes (length s) @ z) @ rest"
  have n: "length s < 2 ^ 32" "length z < 2 ^ 32" using assms(1,2) by (simp_all add: REDIS_RDB_LENERR_def)
  have l: "rdbLoadLen r = ((REDIS_RDB_ENC_LZF, True), consumed [?h] r)"
    by (rule loads_encoding) (use d in \<open>simp_all add: REDIS_RDB_ENC_LZF_def\<close>)
  have d1: "r_data (consumed [?h] r) = len_bytes (length z) @ len_bytes (length s) @ z @ rest"
    using d by (simp add: consumed_def)
  note l1 = loads_len [OF d1 n(2)]
  have d2: "r_data (consumed (len_bytes (length z)) (consumed [?h] r)) = len_bytes (length s) @ z @ rest"
    by (rule consumed_simps(1) [OF d1])
  note l2 = loads_len [OF d2 n(1)]
  have d3: "r_data (consumed (len_bytes (length s)) (consumed (len_bytes (length z)) (consumed [?h] r))) = z @ rest"
    by (rule consumed_simps(1) [OF d2])
  note l3 = rioRead_front [OF d3 assms(3)]
  have "rdbLoadLzfStringObject (consumed [?h] r) =
      Inr (createStringObject s, consumed (?h # len_bytes (length z) @ len_bytes (length s) @ z) r)"
    using assms(1,2,4,5)
    by (simp add: rdbLoadLzfStringObject_def l1 l2 l3 createStringObject_def Let_def del: consumed_append) simp
  then show "rdbGenericLoadStringObject encode r =
      Inr (createStringObject s, consumed (?h # len_bytes (length z) @ len_bytes (length s) @ z) r)"
    by (simp add: rdbGenericLoadStringObject_def l REDIS_RDB_ENC_INT8_def REDIS_RDB_ENC_INT16_def
        REDIS_RDB_ENC_INT32_def REDIS_RDB_ENC_LZF_def)
qed


section \<open>String objects\<close>

text \<open>\<open>saves m s\<close>: what \<open>m\<close> writes, the loader reads as the string \<open>s\<close>.\<close>

definition saves :: "saver \<Rightarrow> string \<Rightarrow> bool" where
  "saves m s \<longleftrightarrow> (\<exists>bs. bs \<noteq> [] \<and> writes m bs \<and>
     (\<forall>encode. \<exists>ob. reads (rdbGenericLoadStringObject encode) bs ob \<and> is_string ob s))"

lemma savesI:
  assumes "writes m bs" "bs \<noteq> []" "\<And>encode. reads (rdbGenericLoadStringObject encode) bs (ob encode)"
    "\<And>encode. is_string (ob encode) s"
  shows "saves m s"
  using assms unfolding saves_def by blast

lemma createStringObject_is_string [simp]: "is_string (createStringObject s) s"
  by (simp add: is_string_def)

lemma saves_integer:
  assumes "rdbEncodeInteger v \<noteq> []"
  shows "saves (rdbWriteRaw (rdbEncodeInteger v)) (dec_int v)"
proof (rule savesI [OF writes_raw [OF assms] assms loads_integer [OF assms]])
  have "LLONG_MIN \<le> v" "v \<le> LLONG_MAX" using assms unfolding rdbEncodeInteger_range by simp_all
  then show "is_string (int_object encode v) (dec_int v)" for encode by (rule int_object_string)
qed

lemma saves_verbatim:
  assumes "length s < REDIS_RDB_LENERR"
  shows "saves (if s = [] then rdbSaveLen (length s) else seq_save (rdbSaveLen (length s)) (rdbWriteRaw s)) s"
proof (rule savesI [OF _ _ loads_raw_bytes [OF assms]])
  have n: "length s < 2 ^ 32" using assms by (simp add: REDIS_RDB_LENERR_def)
  show "writes (if s = [] then rdbSaveLen (length s) else seq_save (rdbSaveLen (length s)) (rdbWriteRaw s)) (len_bytes (length s) @ s)"
    using writes_len [OF n] writes_seq [OF writes_len [OF n] writes_raw [of s]] by (cases "s = []") simp_all
qed simp_all

text \<open>The compressed form, or the result 0 without a byte written.\<close>

lemma lzf_string:
  assumes "length s < REDIS_RDB_LENERR"
  shows "saves (rdbSaveLzfStringObject cf s) s \<and> (\<forall>n rdb rdb'. rdbSaveLzfStringObject cf s rdb = Inr (n, rdb') \<longrightarrow> 0 < n) \<or>
    rdbSaveLzfStringObject cf s = (\<lambda>rdb. Inr (0, rdb))"
proof (cases "length s \<le> 4")
  case True
  then show ?thesis by (auto simp: rdbSaveLzfStringObject_def)
next
  case False
  define out where "out = map (cf_block cf s) [0..<length s - 4 + 1]"
  have l: "length out = length s - 4 + 1" "2 \<le> length s" using False by (simp_all add: out_def)
  obtain k out' where c: "lzf_compress (cf_htab cf s) s out (length s - 4) = Some (k, out')" "k \<le> length s - 4"
    "length out' = length out" "\<And>room. k \<noteq> 0 \<Longrightarrow> length s \<le> room \<Longrightarrow> lzf_decompress (take k out') room = Some (Some s)"
    by (rule lzf_compress_ok [OF l, of "cf_htab cf s"]) (rule that)
  show ?thesis
  proof (cases "k = 0")
    case True
    have "rdbSaveLzfStringObject cf s rdb = Inr (0, rdb)" for rdb
      using c(1) False True unfolding rdbSaveLzfStringObject_def Let_def out_def [symmetric] by simp
    then show ?thesis by blast
  next
    case k: False
    have s: "s \<noteq> []" using l(2) by auto
    let ?z = "take k out'" and ?h = "char_of (192 + REDIS_RDB_ENC_LZF)"
    have z: "length ?z = k" "?z \<noteq> []" using c(2,3) l(1) k by auto
    have n: "length s < 2 ^ 32" "k < 2 ^ 32" "k < REDIS_RDB_LENERR"
      using assms c(2) by (simp_all add: REDIS_RDB_LENERR_def)
    have e: "rdbSaveLzfStringObject cf s = seq_save (rdbWriteRaw [?h])
        (seq_save (rdbSaveLen k) (seq_save (rdbSaveLen (length s)) (rdbWriteRaw ?z)))"
      using c(1) False k unfolding rdbSaveLzfStringObject_def Let_def out_def [symmetric] by (simp add: fun_eq_iff)
    have w: "writes (rdbSaveLzfStringObject cf s) ([?h] @ len_bytes k @ len_bytes (length s) @ ?z)"
      unfolding e by (intro writes_seq writes_raw writes_len n) (use z in simp_all)
    have "saves (rdbSaveLzfStringObject cf s) s"
    proof (rule savesI [OF w])
      show "reads (rdbGenericLoadStringObject encode) ([?h] @ len_bytes k @ len_bytes (length s) @ ?z) (createStringObject s)" for encode
        using loads_lzf_bytes [of s ?z encode] assms n(3) z s c(4) [OF k] by simp
    qed simp_all
    moreover have "0 < n'" if "rdbSaveLzfStringObject cf s rdb = Inr (n', rdb')" for n' rdb rdb'
      using w that by (cases rdb) (auto simp: writes_def split: if_splits)
    ultimately show ?thesis by blast
  qed
qed


lemma saves_raw_string:
  assumes "length s < REDIS_RDB_LENERR"
  shows "saves (rdbSaveRawString cf s) s"
proof (cases "length s \<le> 11 \<and> rdbTryIntegerEncoding s \<noteq> []")
  case True
  then obtain v where v: "s = dec_int v" "rdbTryIntegerEncoding s = rdbEncodeInteger v"
    using rdbTryIntegerEncoding_dec by metis
  then have "rdbSaveRawString cf s = rdbWriteRaw (rdbEncodeInteger v)" using True by (simp add: rdbSaveRawString_def Let_def)
  then show ?thesis using saves_integer [of v] True v by simp
next
  case False
  let ?v = "if s = [] then rdbSaveLen (length s) else seq_save (rdbSaveLen (length s)) (rdbWriteRaw s)"
  have "rdbSaveRawString cf s = (if cf_compression cf \<and> 20 < length s
      then (\<lambda>rdb. andthen (rdbSaveLzfStringObject cf s rdb) (\<lambda>n rdb. if 0 < n then Inr (n, rdb) else ?v rdb)) else ?v)"
    using False by (auto simp: rdbSaveRawString_def Let_def fun_eq_iff)
  moreover have "(\<lambda>rdb. andthen (rdbSaveLzfStringObject cf s rdb) (\<lambda>n rdb. if 0 < n then Inr (n, rdb) else ?v rdb)) =
      rdbSaveLzfStringObject cf s"
    if "\<forall>n rdb rdb'. rdbSaveLzfStringObject cf s rdb = Inr (n, rdb') \<longrightarrow> 0 < n"
    using that by (fastforce simp: fun_eq_iff andthen_def split: sum.splits)
  ultimately show ?thesis
    using lzf_string [OF assms, of cf] saves_verbatim [OF assms] by (auto split: if_splits)
qed

text \<open>Whether a number is held as such or as a string makes no difference to the file.\<close>

lemma rdbEncodeInteger_string:
  assumes "LLONG_MIN \<le> v" "v \<le> LLONG_MAX"
  shows "rdbTryIntegerEncoding (dec_int v) = rdbEncodeInteger v"
proof -
  obtain n p e where s: "strtoll (dec_int v) = (n, p, e)" by (cases "strtoll (dec_int v)")
  have "n = v" "p = []" using getLongLong_dec [OF assms] s by (auto simp: getLongLongFromObject_def split: if_splits)
  then show ?thesis using s ll2string_buf [OF assms, of 32] by (simp add: rdbTryIntegerEncoding_def)
qed

lemma length_dec_int32:
  assumes "- (2 ^ 31) \<le> v" "v \<le> 2 ^ 31 - 1"
  shows "length (dec_int v) \<le> 11"
proof -
  have "nat v < 10 ^ 10" "nat (- v) < 10 ^ 10" using assms by (simp_all add: nat_less_iff)
  from this [THEN length_dec_nat] show ?thesis by (simp add: dec_int_def)
qed

lemma number_as_string:
  assumes "LLONG_MIN \<le> v" "v \<le> LLONG_MAX"
  shows "rdbSaveLongLongAsStringObject v = rdbSaveRawString cf (dec_int v)"
proof (cases "rdbEncodeInteger v = []")
  case True
  have l: "ll2string 32 v = (length (dec_int v), dec_int v)" "length (dec_int v) \<le> 20" "dec_int v \<noteq> []"
    using ll2string_buf [OF assms, of 32] length_dec_int [OF assms] by (simp_all add: dec_int_def)
  then show ?thesis using True
    by (simp add: rdbSaveLongLongAsStringObject_def rdbSaveRawString_def rdbEncodeInteger_string [OF assms] Let_def)
next
  case False
  then have "length (dec_int v) \<le> 11" unfolding rdbEncodeInteger_range by (intro length_dec_int32) simp_all
  then show ?thesis using False
    by (simp add: rdbSaveLongLongAsStringObject_def rdbSaveRawString_def rdbEncodeInteger_string [OF assms])
qed

lemma saves_string_object:
  assumes "is_string ob s" "length s < REDIS_RDB_LENERR"
  shows "saves (rdbSaveStringObject cf ob) s"
proof -
  have ob: "robj_wf ob" "o_type ob = REDIS_STRING" "objval ob = s" using assms(1) by (simp_all add: is_string_def)
  from ob(1,2) show ?thesis
  proof (cases rule: robj_wf_string)
    case (raw x)
    then have "rdbSaveStringObject cf ob = rdbSaveRawString cf s" using ob(3) by (simp add: rdbSaveStringObject_def fun_eq_iff objval_def)
    then show ?thesis using saves_raw_string [OF assms(2)] by simp
  next
    case (num n)
    then have "rdbSaveStringObject cf ob = rdbSaveRawString cf s"
      using ob(3) number_as_string [of n cf] by (simp add: rdbSaveStringObject_def fun_eq_iff objval_def)
    then show ?thesis using saves_raw_string [OF assms(2)] by simp
  qed
qed

section \<open>Values\<close>

text \<open>The object the loader makes of a string: the number, if it is the notation of one.\<close>

definition canonical :: "string \<Rightarrow> robj" where
  "canonical s = (case string2ll s of Some v \<Rightarrow> createStringObjectFromLongLong v | None \<Rightarrow> createStringObject s)"

lemma canonical_is_string [simp]: "is_string (canonical s) s"
  by (auto simp: canonical_def string2ll_iff_dec is_string_def createStringObjectFromLongLong_simps split: option.split)

lemma tryObjectEncoding_canonical:
  assumes "is_string ob s"
  shows "tryObjectEncoding maxmemory 1 ob = Some (canonical s)"
proof -
  have ob: "robj_wf ob" "o_type ob = REDIS_STRING" "objval ob = s" using assms by (simp_all add: is_string_def)
  from ob(1,2) show ?thesis
  proof (cases rule: robj_wf_string)
    case (raw x)
    have s: "x = s" using raw ob(3) by (simp add: objval_def)
    show ?thesis
    proof (cases "string2ll s")
      case None
      then show ?thesis using raw s by (simp add: tryObjectEncoding_def canonical_def string2l_eq)
    next
      case (Some v)
      then have "LLONG_MIN \<le> v" "v \<le> LLONG_MAX" "s = dec_int v" by (simp_all add: string2ll_iff_dec)
      moreover from this have "\<not> 21 < length s" using length_dec_int [of v] by simp
      ultimately show ?thesis using Some raw s
        by (auto simp: tryObjectEncoding_def canonical_def string2l_eq createStringObjectFromLongLong_def shared_integers_def
            createStringObject_def createObject_def)
    qed
  next
    case (num n)
    then have "string2ll s = Some n" using ob(3) by (simp add: objval_def string2ll_iff_dec)
    moreover have "ob = createStringObjectFromLongLong n"
      using num ob(2) createStringObjectFromLongLong_simps [OF num(3,4)] by (intro robj.equality) simp_all
    ultimately show ?thesis using num by (simp add: tryObjectEncoding_def canonical_def)
  qed
qed

lemma reads_andthen:
  assumes "reads m bs x" "reads (f x) cs y"
  shows "reads (\<lambda>r. andthen (m r) f) (bs @ cs) y"
  using assms by (auto simp: reads_def)

lemma reads_return: "reads (\<lambda>r. Inr (x, r)) [] x"
  by (simp add: reads_def consumed_def crc64_def)

lemma reads_map: "reads m bs x \<Longrightarrow> (\<And>r. f x r = Inr (y, r)) \<Longrightarrow> reads (\<lambda>r. andthen (m r) f) bs y"
  by (simp add: reads_def)

lemma saves_value:
  assumes "is_string ob s" "length s < REDIS_RDB_LENERR"
  obtains bs where "bs \<noteq> []" "writes (rdbSaveObject cf ob) bs" "\<And>maxmemory. reads (rdbLoadObject maxmemory 0) bs (canonical s)"
proof -
  obtain bs where bs: "bs \<noteq> []" "writes (rdbSaveStringObject cf ob) bs"
    "\<forall>encode. \<exists>ob. reads (rdbGenericLoadStringObject encode) bs ob \<and> is_string ob s"
    using saves_string_object [OF assms, of cf] by (auto simp: saves_def)
  obtain ob' where ob': "reads rdbLoadEncodedStringObject bs ob'" "is_string ob' s"
    using bs(3) by (auto simp: rdbLoadEncodedStringObject_def)
  have "reads (rdbLoadObject maxmemory 0) bs (canonical s)" for maxmemory
    using ob'(1) tryObjectEncoding_canonical [OF ob'(2), of maxmemory] by (simp add: reads_def rdbLoadObject_def)
  moreover have "rdbSaveObject cf ob = rdbSaveStringObject cf ob" using assms(1) by (simp add: is_string_def rdbSaveObject_def)
  ultimately show thesis using that bs by simp
qed

lemma saves_key:
  assumes "length s < REDIS_RDB_LENERR"
  obtains bs ob where "bs \<noteq> []" "writes (rdbSaveStringObject cf (createStringObject s)) bs" "reads rdbLoadStringObject bs ob" "objval ob = s"
proof -
  obtain bs where bs: "bs \<noteq> []" "writes (rdbSaveStringObject cf (createStringObject s)) bs"
    "\<forall>encode. \<exists>ob. reads (rdbGenericLoadStringObject encode) bs ob \<and> is_string ob s"
    using saves_string_object [OF createStringObject_is_string assms, of cf] by (auto simp: saves_def)
  obtain ob where "reads rdbLoadStringObject bs ob" "objval ob = s"
    using bs(3) by (auto simp: rdbLoadStringObject_def is_string_def)
  then show thesis using that bs by blast
qed

lemma reads_type:
  assumes "t < 256"
  shows "reads rdbLoadType [char_of t] t"
  unfolding reads_def
proof (intro allI impI)
  fix r :: rio and rest
  assume "r_data r = [char_of t] @ rest"
  then show "rdbLoadType r = Inr (t, consumed [char_of t] r)" using assms rioRead_byte [of r "char_of t" rest] by (simp add: rdbLoadType_def)
qed

lemma writes_type: "writes (rdbSaveType t) [char_of t]"
  unfolding rdbSaveType_def by (rule writes_raw) simp

section \<open>Payloads of DUMP\<close>

lemma crc_bytes_inject: "lsb_bytes 8 (unat a) = lsb_bytes 8 (unat b) \<longleftrightarrow> a = b" for a b :: "64 word"
proof
  have u: "lsb_value (lsb_bytes 8 (unat w)) = unat w" for w :: "64 word"
  proof -
    have "unat w < 2 ^ LENGTH(64)" by (rule unsigned_less)
    then show ?thesis by (simp add: lsb_value_bytes)
  qed
  assume "lsb_bytes 8 (unat a) = lsb_bytes 8 (unat b)"
  then have "lsb_value (lsb_bytes 8 (unat a)) = lsb_value (lsb_bytes 8 (unat b))" by (rule arg_cong)
  then show "a = b" unfolding u by (rule unsigned_word_eqI)
qed simp

section \<open>Files\<close>

text \<open>\<open>emits m bs x\<close>: \<open>m\<close> writes \<open>bs\<close> to a stream and returns \<open>x\<close>, or fails when the stream is full.\<close>

definition emits :: "(rio option \<Rightarrow> rdb_error + 'a \<times> rio option) \<Rightarrow> string \<Rightarrow> 'a \<Rightarrow> bool" where
  "emits m bs x \<longleftrightarrow>
     (\<forall>r. m (Some r) = (if room_for bs r then Inr (x, Some (written bs r)) else Inl Failed))"

lemma writes_emits: "writes m bs \<Longrightarrow> emits m bs (length bs)"
  by (simp add: writes_def emits_def)

lemma emits_return: "emits (\<lambda>rdb. Inr (x, rdb)) [] x"
  by (simp add: emits_def room_for_def written_def crc64_def)

lemma emits_andthen:
  assumes "emits m bs x" "emits (f x) cs y"
  shows "emits (\<lambda>rdb. andthen (m rdb) f) (bs @ cs) y"
  using assms by (auto simp: emits_def room_for_append)

lemma emits_then_return: "emits m bs x \<Longrightarrow> emits (\<lambda>rdb. andthen (m rdb) (\<lambda>_ rdb. Inr (y, rdb))) bs y"
  using emits_andthen [OF _ emits_return, of m bs x] by simp

text \<open>The deadline of a key, -1 without one, and whether the key is saved and kept when it is loaded.\<close>

definition deadline :: "server \<Rightarrow> nat \<Rightarrow> key \<Rightarrow> int" where
  "deadline sv i k = (case rd_expires (sv_db sv i) k of None \<Rightarrow> -1 | Some t \<Rightarrow> t)"

definition saved :: "server \<Rightarrow> nat \<Rightarrow> key \<Rightarrow> bool" where
  "saved sv i k \<longleftrightarrow> deadline sv i k = -1 \<or> sv_now sv \<le> deadline sv i k"

definition kept :: "int \<Rightarrow> bool \<Rightarrow> int \<Rightarrow> bool" where
  "kept now slave t \<longleftrightarrow> t = -1 \<or> now \<le> t \<or> slave"

text \<open>Entering one saved key into a database that is loaded.\<close>

definition restore_key :: "server \<Rightarrow> nat \<Rightarrow> int \<Rightarrow> bool \<Rightarrow> key \<Rightarrow> redisDb \<Rightarrow> redisDb" where
  "restore_key sv i now slave k db =
     (if kept now slave (deadline sv i k)
      then db\<lparr>rd_dict := (rd_dict db)(k \<mapsto> canonical (objval (the (rd_dict (sv_db sv i) k)))),
             rd_expires := (if deadline sv i k = -1 then rd_expires db else (rd_expires db)(k \<mapsto> deadline sv i k))\<rparr>
      else db)"

definition restore :: "server \<Rightarrow> nat \<Rightarrow> int \<Rightarrow> bool \<Rightarrow> key \<Rightarrow> server \<Rightarrow> server" where
  "restore sv i now slave k = upd_db i (restore_key sv i now slave k)"

lemma add_loaded_restore:
  assumes "rd_dict (sv_db t i) k = None" "val = canonical (objval (the (rd_dict (sv_db sv i) k)))"
    "now = sv_now t" "slave = sv_masterhost t"
  shows "add_loaded now i k val (deadline sv i k) t = Some (restore sv i now slave k t)"
  using assms
  by (auto simp: add_loaded_def restore_def restore_key_def kept_def dbAdd_def setExpire_def upd_db_def fun_eq_iff)

text \<open>A string value and times that fit in a \<open>long long\<close>: what a key needs to be saved and found again.\<close>

definition savable :: "server \<Rightarrow> nat \<Rightarrow> key \<Rightarrow> bool" where
  "savable sv i k \<longleftrightarrow>
     (\<exists>ob. rd_dict (sv_db sv i) k = Some ob \<and> robj_wf ob \<and> o_type ob = REDIS_STRING \<and> small (objval ob)) \<and> small k \<and>
     LLONG_MIN \<le> deadline sv i k \<and> deadline sv i k \<le> LLONG_MAX"

lemma small_len: "small s \<Longrightarrow> length s < REDIS_RDB_LENERR"
  by (simp add: small_def REDIS_RDB_LENERR_def)

lemma loads_time:
  assumes "LLONG_MIN \<le> t" "t \<le> LLONG_MAX" "r_data r = lsb_bytes 8 (nat (t mod 2 ^ 64)) @ rest"
  shows "rdbLoadMillisecondTime r = (t, consumed (lsb_bytes 8 (nat (t mod 2 ^ 64))) r)"
proof -
  have "rioRead 8 r = Some (lsb_bytes 8 (nat (t mod 2 ^ 64)), consumed (lsb_bytes 8 (nat (t mod 2 ^ 64))) r)"
    by (rule rioRead_front_n [OF assms(3)]) simp_all
  moreover have "signed (8 * 8) (lsb_value (lsb_bytes 8 (nat (t mod 2 ^ (8 * 8))))) = t"
    by (rule signed_bytes) (use assms in simp_all)
  ultimately show ?thesis by (simp add: rdbLoadMillisecondTime_def)
qed

text \<open>The bytes in front of the key: the deadline, if there is one, and the type.\<close>

lemma saves_head:
  assumes "LLONG_MIN \<le> t" "t \<le> LLONG_MAX"
  obtains bs where "bs \<noteq> []"
    "writes (seq_save (if t \<noteq> -1 then seq_save (rdbSaveType 252) (rdbSaveMillisecondTime t) else (\<lambda>rdb. Inr (0, rdb))) (rdbSaveType 0)) bs"
    "reads load_type bs (0, t)"
proof (cases "t = -1")
  case True
  have "reads load_type [char_of (0 :: nat)] (0, t)"
    unfolding reads_def
  proof (intro allI impI)
    fix r :: rio and rest
    assume "r_data r = [char_of (0 :: nat)] @ rest"
    from readsD [OF reads_type [of 0] this] True
    show "load_type r = Inr ((0, t), consumed [char_of (0 :: nat)] r)" by (simp add: load_type_def)
  qed
  moreover have "writes (seq_save (\<lambda>rdb. Inr (0, rdb)) (rdbSaveType 0)) ([] @ [char_of (0 :: nat)])"
    by (intro writes_seq writes_nothing writes_type)
  ultimately show thesis using that [of "[char_of (0 :: nat)]"] True by simp
next
  case False
  let ?t = "lsb_bytes 8 (nat (t mod 2 ^ 64))"
  let ?bs = "([char_of (252 :: nat)] @ ?t) @ [char_of (0 :: nat)]"
  have "writes (seq_save (seq_save (rdbSaveType 252) (rdbSaveMillisecondTime t)) (rdbSaveType 0)) ?bs"
    unfolding rdbSaveMillisecondTime_def by (intro writes_seq writes_type writes_raw) simp
  moreover have "reads load_type ?bs (0, t)"
    unfolding reads_def
  proof (intro allI impI)
    fix r :: rio and rest
    assume "r_data r = ?bs @ rest"
    then have d: "r_data r = [char_of (252 :: nat)] @ ?t @ [char_of (0 :: nat)] @ rest" by simp
    have d2: "r_data (consumed [char_of (252 :: nat)] r) = ?t @ [char_of (0 :: nat)] @ rest"
      by (rule consumed_simps(1) [OF d])
    have d3: "r_data (consumed ?t (consumed [char_of (252 :: nat)] r)) = [char_of (0 :: nat)] @ rest"
      by (rule consumed_simps(1) [OF d2])
    have 1: "rdbLoadType r = Inr (252, consumed [char_of (252 :: nat)] r)" by (rule readsD [OF reads_type d]) simp
    note 2 = loads_time [OF assms d2]
    have 3: "rdbLoadType (consumed ?t (consumed [char_of (252 :: nat)] r)) =
        Inr (0, consumed [char_of (0 :: nat)] (consumed ?t (consumed [char_of (252 :: nat)] r)))"
      by (rule readsD [OF reads_type d3]) simp
    have "load_type r = Inr ((0, t), consumed [char_of (0 :: nat)] (consumed ?t (consumed [char_of (252 :: nat)] r)))"
      unfolding load_type_def 1 andthen_simps 2 Let_def prod.case 3 using False by simp
    then show "load_type r = Inr ((0, t), consumed ?bs r)" by simp
  qed
  ultimately show thesis using that [of ?bs] False by simp
qed

lemma seq_save_assoc: "seq_save (seq_save a b) c = seq_save a (seq_save b c)"
  by (auto simp: seq_save_def fun_eq_iff andthen_def add.assoc split: sum.splits)

lemma save_pair:
  assumes "savable sv i k" "saved sv i k"
  obtains bs where "bs \<noteq> []"
    "emits (rdbSaveKeyValuePair cf k (the (rd_dict (sv_db sv i) k)) (deadline sv i k) (sv_now sv)) bs 1"
    "\<And>t r rest. r_data r = bs @ rest \<Longrightarrow> rd_dict (sv_db t i) k = None \<Longrightarrow>
       load_entry (sv_now t) i t r = Inr (Some (i, restore sv i (sv_now t) (sv_masterhost t) k t), consumed bs r)"
proof -
  let ?t = "deadline sv i k"
  obtain ob where ob: "rd_dict (sv_db sv i) k = Some ob" "is_string ob (objval ob)" "small (objval ob)" "small k"
    "LLONG_MIN \<le> ?t" "?t \<le> LLONG_MAX"
    using assms(1) by (auto simp: savable_def is_string_def)
  let ?head = "if ?t \<noteq> -1 then seq_save (rdbSaveType 252) (rdbSaveMillisecondTime ?t) else (\<lambda>rdb. Inr (0, rdb))"
  obtain h where h: "h \<noteq> []" "writes (seq_save ?head (rdbSaveType 0)) h" "reads load_type h (0, ?t)"
    by (rule saves_head [OF ob(5,6)])
  obtain kb kob where kb: "kb \<noteq> []" "writes (rdbSaveStringObject cf (createStringObject k)) kb" "reads rdbLoadStringObject kb kob" "objval kob = k"
    by (rule saves_key [OF small_len [OF ob(4)]])
  obtain vb where vb: "vb \<noteq> []" "writes (rdbSaveObject cf ob) vb" "\<And>m. reads (rdbLoadObject m 0) vb (canonical (objval ob))"
    using saves_value [OF ob(2) small_len [OF ob(3)], of cf] by blast
  have "writes (seq_save (seq_save ?head (rdbSaveType 0)) (seq_save (rdbSaveStringObject cf (createStringObject k)) (rdbSaveObject cf ob))) (h @ kb @ vb)"
    by (intro writes_seq h(2) kb(2) vb(2))
  moreover have ty: "rdbSaveObjectType ob = rdbSaveType 0" using ob(2) by (simp add: rdbSaveObjectType_def rdb_type_def is_string_def)
  let ?m = "seq_save ?head (seq_save (rdbSaveObjectType ob) (seq_save (rdbSaveStringObject cf (createStringObject k)) (rdbSaveObject cf ob)))"
  have "writes ?m (h @ kb @ vb)" using calculation ty by (simp only: seq_save_assoc)
  then have "emits (\<lambda>rdb. andthen (?m rdb) (\<lambda>_ rdb. Inr (1 :: nat, rdb))) (h @ kb @ vb) 1"
    by (rule emits_then_return [OF writes_emits])
  moreover have "rdbSaveKeyValuePair cf k ob ?t (sv_now sv) = (\<lambda>rdb. andthen (?m rdb) (\<lambda>_ rdb. Inr (1 :: nat, rdb)))"
    using assms(2) unfolding rdbSaveKeyValuePair_def saved_def Let_def by (intro ext if_not_P) auto
  ultimately have e: "emits (rdbSaveKeyValuePair cf k (the (rd_dict (sv_db sv i) k)) ?t (sv_now sv)) (h @ kb @ vb) 1"
    unfolding ob(1) by simp
  have "load_entry (sv_now t) i t r = Inr (Some (i, restore sv i (sv_now t) (sv_masterhost t) k t), consumed (h @ kb @ vb) r)"
    if d: "r_data r = (h @ kb @ vb) @ rest" and n: "rd_dict (sv_db t i) k = None" for t r rest
  proof -
    have d: "r_data r = h @ kb @ vb @ rest" using d by simp
    have d2: "r_data (consumed h r) = kb @ vb @ rest" by (rule consumed_simps(1) [OF d])
    note 1 = readsD [OF h(3) d]
    have "reads (load_key_value (sv_maxmemory t) 0) (kb @ vb) (kob, canonical (objval ob))"
      unfolding load_key_value_def
      by (rule reads_andthen [OF kb(3) reads_map [OF vb(3)]]) simp
    then have 2: "load_key_value (sv_maxmemory t) 0 (consumed h r) = Inr ((kob, canonical (objval ob)), consumed (kb @ vb) (consumed h r))"
      using d2 by (intro readsD) simp_all
    have 3: "add_loaded (sv_now t) i k (canonical (objval ob)) ?t t = Some (restore sv i (sv_now t) (sv_masterhost t) k t)"
      by (rule add_loaded_restore [OF n]) (simp_all add: ob(1))
    show ?thesis by (simp add: load_entry_def 1 2 kb(4) 3)
  qed
  then show thesis using that [OF _ e] h(1) by simp
qed

text \<open>The entries of a database.\<close>

lemma restore_simps [simp]:
  "sv_now (restore sv i now slave k t) = sv_now t" "sv_masterhost (restore sv i now slave k t) = sv_masterhost t"
  "sv_dbnum (restore sv i now slave k t) = sv_dbnum t"
  "j \<noteq> i \<Longrightarrow> sv_db (restore sv i now slave k t) j = sv_db t j"
  "k' \<noteq> k \<Longrightarrow> rd_dict (sv_db (restore sv i now slave k t) i) k' = rd_dict (sv_db t i) k'"
  by (simp_all add: restore_def restore_key_def upd_db_def)

lemma save_entries_file:
  assumes "\<forall>k\<in>set ks. savable sv i k" "distinct ks"
  shows "\<exists>bs. emits (save_entries cf sv i ks) bs () \<and>
    (\<forall>t r rest. r_data r = bs @ rest \<longrightarrow> (\<forall>k\<in>set ks. rd_dict (sv_db t i) k = None) \<longrightarrow>
      load_entries (sv_now t) i t r =
        load_entries (sv_now t) i (fold (restore sv i (sv_now t) (sv_masterhost t)) (filter (saved sv i) ks) t) (consumed bs r))"
  using assms
proof (induction ks)
  case Nil
  have "consumed [] r = r" for r by (simp add: consumed_def crc64_def)
  then show ?case by (intro exI [of _ "[]"]) (simp add: emits_return save_entries.simps [abs_def])
next
  case (Cons k ks)
  obtain cs where cs: "emits (save_entries cf sv i ks) cs ()"
    "\<And>t r rest. r_data r = cs @ rest \<Longrightarrow> \<forall>k\<in>set ks. rd_dict (sv_db t i) k = None \<Longrightarrow>
      load_entries (sv_now t) i t r =
        load_entries (sv_now t) i (fold (restore sv i (sv_now t) (sv_masterhost t)) (filter (saved sv i) ks) t) (consumed cs r)"
    using Cons.IH Cons.prems by auto
  have k: "savable sv i k" using Cons.prems by simp
  then obtain ob where ob: "rd_dict (sv_db sv i) k = Some ob" by (auto simp: savable_def)
  have g: "getExpire i k sv = Some (deadline sv i k)" by (simp add: getExpire_def deadline_def ob split: option.split)
  let ?m = "rdbSaveKeyValuePair cf k ob (deadline sv i k) (sv_now sv)"
  have s: "save_entries cf sv i (k # ks) = (\<lambda>rdb. andthen (?m rdb) (\<lambda>_ rdb. save_entries cf sv i ks rdb))"
    by (rule ext) (simp add: g ob)
  show ?case
  proof (cases "saved sv i k")
    case False
    have "emits ?m [] 0" using False by (auto simp: emits_def rdbSaveKeyValuePair_def saved_def room_for_def written_def crc64_def)
    from emits_andthen [OF this cs(1)] have "emits (save_entries cf sv i (k # ks)) cs ()" unfolding s by simp
    moreover have "filter (saved sv i) (k # ks) = filter (saved sv i) ks" using False by simp
    ultimately show ?thesis using cs(2) by (metis list.set_intros(2))
  next
    case True
    obtain bs where bs: "emits ?m bs 1"
      "\<And>t r rest. r_data r = bs @ rest \<Longrightarrow> rd_dict (sv_db t i) k = None \<Longrightarrow>
       load_entry (sv_now t) i t r = Inr (Some (i, restore sv i (sv_now t) (sv_masterhost t) k t), consumed bs r)"
      using save_pair [OF k True, of cf] unfolding ob option.sel by metis
    have e: "emits (save_entries cf sv i (k # ks)) (bs @ cs) ()" unfolding s by (rule emits_andthen [OF bs(1) cs(1)])
    have "load_entries (sv_now t) i t r =
        load_entries (sv_now t) i (fold (restore sv i (sv_now t) (sv_masterhost t)) (filter (saved sv i) (k # ks)) t) (consumed (bs @ cs) r)"
      if d: "r_data r = (bs @ cs) @ rest" and n: "\<forall>k\<in>set (k # ks). rd_dict (sv_db t i) k = None" for t r rest
    proof -
      let ?t = "restore sv i (sv_now t) (sv_masterhost t) k t"
      have d1: "r_data r = bs @ cs @ rest" using d by simp
      have n': "\<forall>k'\<in>set ks. rd_dict (sv_db ?t i) k' = None"
      proof
        fix k' assume "k' \<in> set ks"
        moreover from this have "k' \<noteq> k" using Cons.prems(2) by auto
        ultimately show "rd_dict (sv_db ?t i) k' = None" using n by simp
      qed
      have "load_entry (sv_now t) i t r = Inr (Some (i, ?t), consumed bs r)" by (rule bs(2) [OF d1]) (use n in simp)
      then have "load_entries (sv_now t) i t r = load_entries (sv_now t) i ?t (consumed bs r)"
        by (subst load_entries.simps) simp
      also have "\<dots> = load_entries (sv_now ?t) i (fold (restore sv i (sv_now ?t) (sv_masterhost ?t)) (filter (saved sv i) ks) ?t)
          (consumed cs (consumed bs r))"
        unfolding restore_simps(1)
        by (rule cs(2) [OF consumed_simps(1) [OF d1], of ?t, unfolded restore_simps(1)]) (rule n')
      finally show ?thesis using True by simp
    qed
    then show ?thesis using e by blast
  qed
qed

definition restore_db :: "server \<Rightarrow> int \<Rightarrow> bool \<Rightarrow> nat \<Rightarrow> server \<Rightarrow> server" where
  "restore_db sv now slave j =
     fold (restore sv j now slave) (filter (saved sv j) (sv_iter sv (rd_dict (sv_db sv j))))"

lemma fold_restore_simps [simp]:
  "sv_now (fold (restore sv i now slave) ks t) = sv_now t" "sv_masterhost (fold (restore sv i now slave) ks t) = sv_masterhost t"
  "sv_dbnum (fold (restore sv i now slave) ks t) = sv_dbnum t"
  "j \<noteq> i \<Longrightarrow> sv_db (fold (restore sv i now slave) ks t) j = sv_db t j"
  by (induction ks arbitrary: t) simp_all

lemma restore_db_simps [simp]:
  "sv_now (restore_db sv now slave i t) = sv_now t" "sv_masterhost (restore_db sv now slave i t) = sv_masterhost t"
  "sv_dbnum (restore_db sv now slave i t) = sv_dbnum t"
  "j \<noteq> i \<Longrightarrow> sv_db (restore_db sv now slave i t) j = sv_db t j"
  by (simp_all add: restore_db_def)

lemma select_entry:
  assumes "r_data r = ([char_of (254 :: nat)] @ len_bytes j) @ rest" "j < sv_dbnum t" "j < REDIS_RDB_LENERR"
  shows "load_entry now db t r = Inr (Some (j, t), consumed ([char_of (254 :: nat)] @ len_bytes j) r)"
proof -
  have d: "r_data r = [char_of (254 :: nat)] @ len_bytes j @ rest" using assms(1) by simp
  have d2: "r_data (consumed [char_of (254 :: nat)] r) = len_bytes j @ rest" by (rule consumed_simps(1) [OF d])
  have 1: "rdbLoadType r = Inr (254, consumed [char_of (254 :: nat)] r)" by (rule readsD [OF reads_type d]) simp
  have 2: "load_type r = Inr ((254, -1), consumed [char_of (254 :: nat)] r)" by (simp add: load_type_def 1)
  have 3: "rdbLoadLen (consumed [char_of (254 :: nat)] r) = ((j, False), consumed (len_bytes j) (consumed [char_of (254 :: nat)] r))"
    by (rule loads_len [OF d2]) (use assms(3) in \<open>simp add: REDIS_RDB_LENERR_def\<close>)
  show ?thesis unfolding load_entry_def 2 using assms(2,3) by (simp add: 3 Let_def del: consumed_append) simp
qed

text \<open>The databases.\<close>

lemma save_dbs_file:
  assumes "\<forall>j\<in>set js. distinct (sv_iter sv (rd_dict (sv_db sv j))) \<and> (\<forall>k\<in>set (sv_iter sv (rd_dict (sv_db sv j))). savable sv j k)"
    and "distinct js" "\<forall>j\<in>set js. j < REDIS_RDB_LENERR"
  shows "\<exists>bs. emits (save_dbs cf sv js) bs () \<and>
    (\<forall>t r rest db. r_data r = bs @ rest \<longrightarrow> (\<forall>j\<in>set js. j < sv_dbnum t \<and> rd_dict (sv_db t j) = Map.empty) \<longrightarrow>
      (\<exists>db'. load_entries (sv_now t) db t r =
        load_entries (sv_now t) db' (fold (restore_db sv (sv_now t) (sv_masterhost t)) js t) (consumed bs r)))"
  using assms
proof (induction js)
  case Nil
  have "consumed [] r = r" for r by (simp add: consumed_def crc64_def)
  then show ?case by (intro exI [of _ "[]"]) (auto simp: emits_return save_dbs.simps [abs_def])
next
  case (Cons j js)
  obtain cs where cs: "emits (save_dbs cf sv js) cs ()"
    "\<And>t r rest db. r_data r = cs @ rest \<Longrightarrow> \<forall>j\<in>set js. j < sv_dbnum t \<and> rd_dict (sv_db t j) = Map.empty \<Longrightarrow>
      \<exists>db'. load_entries (sv_now t) db t r =
        load_entries (sv_now t) db' (fold (restore_db sv (sv_now t) (sv_masterhost t)) js t) (consumed cs r)"
    using Cons.IH Cons.prems by auto
  let ?ks = "sv_iter sv (rd_dict (sv_db sv j))"
  show ?case
  proof (cases "?ks = []")
    case True
    then have "save_dbs cf sv (j # js) = save_dbs cf sv js" "restore_db sv now slave j t = t" for now slave t
      by (auto simp: restore_db_def)
    then show ?thesis using cs by (intro exI [of _ cs]) auto
  next
    case False
    have j: "\<forall>k\<in>set ?ks. savable sv j k" "distinct ?ks" "j < REDIS_RDB_LENERR" using Cons.prems by simp_all
    obtain es where es: "emits (save_entries cf sv j ?ks) es ()"
      "\<And>t r rest. r_data r = es @ rest \<Longrightarrow> \<forall>k\<in>set ?ks. rd_dict (sv_db t j) k = None \<Longrightarrow>
        load_entries (sv_now t) j t r = load_entries (sv_now t) j (restore_db sv (sv_now t) (sv_masterhost t) j t) (consumed es r)"
      using save_entries_file [OF j(1,2), of cf] unfolding restore_db_def by auto
    let ?h = "[char_of (254 :: nat)] @ len_bytes j"
    have h: "emits (seq_save (rdbSaveType 254) (rdbSaveLen j)) ?h (length ?h)"
      by (intro writes_emits writes_seq writes_type writes_len) (use j(3) in \<open>simp add: REDIS_RDB_LENERR_def\<close>)
    have s: "save_dbs cf sv (j # js) = (\<lambda>rdb. andthen (seq_save (rdbSaveType 254) (rdbSaveLen j) rdb) (\<lambda>_ rdb.
        andthen (save_entries cf sv j ?ks rdb) (\<lambda>_ rdb. save_dbs cf sv js rdb)))"
      using False by (intro ext) (simp add: Let_def)
    have e: "emits (save_dbs cf sv (j # js)) (?h @ es @ cs) ()"
      unfolding s by (rule emits_andthen [OF h emits_andthen [OF es(1) cs(1)]])
    have "\<exists>db'. load_entries (sv_now t) db t r =
        load_entries (sv_now t) db' (fold (restore_db sv (sv_now t) (sv_masterhost t)) (j # js) t) (consumed (?h @ es @ cs) r)"
      if d: "r_data r = (?h @ es @ cs) @ rest" and n: "\<forall>j\<in>set (j # js). j < sv_dbnum t \<and> rd_dict (sv_db t j) = Map.empty" for t r rest db
    proof -
      let ?t = "restore_db sv (sv_now t) (sv_masterhost t) j t"
      have d1: "r_data r = ?h @ es @ cs @ rest" using d by simp
      have d2: "r_data (consumed ?h r) = es @ cs @ rest" by (rule consumed_simps(1) [OF d1])
      have d3: "r_data (consumed es (consumed ?h r)) = cs @ rest" by (rule consumed_simps(1) [OF d2])
      have "load_entry (sv_now t) db t r = Inr (Some (j, t), consumed ?h r)"
        by (rule select_entry [OF d1]) (use n j(3) in simp_all)
      then have "load_entries (sv_now t) db t r = load_entries (sv_now t) j t (consumed ?h r)"
        by (subst load_entries.simps) simp
      also have "\<dots> = load_entries (sv_now t) j ?t (consumed es (consumed ?h r))"
        by (rule es(2) [OF d2]) (use n in simp)
      finally have 1: "load_entries (sv_now t) db t r = load_entries (sv_now ?t) j ?t (consumed es (consumed ?h r))" by simp
      have "\<forall>j'\<in>set js. j' < sv_dbnum ?t \<and> rd_dict (sv_db ?t j') = Map.empty"
      proof
        fix j' assume "j' \<in> set js"
        moreover from this have "j' \<noteq> j" using Cons.prems(2) by auto
        ultimately show "j' < sv_dbnum ?t \<and> rd_dict (sv_db ?t j') = Map.empty" using n by simp
      qed
      then obtain db' where 2: "load_entries (sv_now ?t) j ?t (consumed es (consumed ?h r)) =
          load_entries (sv_now ?t) db' (fold (restore_db sv (sv_now ?t) (sv_masterhost ?t)) js ?t) (consumed cs (consumed es (consumed ?h r)))"
        using cs(2) [OF d3, of ?t j] by blast
      show ?thesis unfolding 1 2 by (intro exI [of _ db']) simp
    qed
    then show ?thesis using e by blast
  qed
qed

section \<open>The data set after a restart\<close>

lemma restore_key_fold:
  "rd_dict (fold (restore_key sv i now slave) ks db) k =
     (if k \<in> set ks \<and> kept now slave (deadline sv i k)
      then Some (canonical (objval (the (rd_dict (sv_db sv i) k)))) else rd_dict db k)"
  "rd_expires (fold (restore_key sv i now slave) ks db) k =
     (if k \<in> set ks \<and> kept now slave (deadline sv i k) \<and> deadline sv i k \<noteq> -1
      then Some (deadline sv i k) else rd_expires db k)"
  by (induction ks arbitrary: db) (auto simp: restore_key_def)

lemma fold_upd_db: "fold (\<lambda>k. upd_db i (f k)) ks t = upd_db i (fold f ks) t"
  by (induction ks arbitrary: t) (simp_all add: upd_db_def)

lemma restore_db_eq:
  "restore_db sv now slave j t =
     upd_db j (fold (restore_key sv j now slave) (filter (saved sv j) (sv_iter sv (rd_dict (sv_db sv j))))) t"
  by (simp add: restore_db_def restore_def [abs_def] fold_upd_db)

lemma fold_restore_db:
  "distinct js \<Longrightarrow> fold (restore_db sv now slave) js t =
     t\<lparr>sv_db := \<lambda>j. if j \<in> set js
        then fold (restore_key sv j now slave) (filter (saved sv j) (sv_iter sv (rd_dict (sv_db sv j)))) (sv_db t j)
        else sv_db t j\<rparr>"
proof (induction js arbitrary: t)
  case (Cons j js)
  then show ?case by (auto simp: restore_db_eq upd_db_def fun_eq_iff)
qed simp

text \<open>The state after a successful save.\<close>

definition after_save :: "server \<Rightarrow> server" where
  "after_save sv = sv\<lparr>sv_dirty := 0, sv_lastsave := sv_now sv div 1000, sv_bgsave_err := False\<rparr>"

text \<open>Every string value of the data set, its keys and times can be saved.\<close>

definition dumpable :: "server \<Rightarrow> bool" where
  "dumpable sv \<longleftrightarrow> sv_dbnum sv \<le> 2147483647 \<and>
     (\<forall>i k ob. rd_dict (sv_db sv i) k = Some ob \<longrightarrow> o_type ob = REDIS_STRING) \<and>
     (\<forall>i k t. rd_expires (sv_db sv i) k = Some t \<longrightarrow> LLONG_MIN \<le> t \<and> t \<le> LLONG_MAX)"

lemma small_objval:
  assumes "robj_wf ob" "o_type ob = REDIS_STRING" "robj_small ob"
  shows "small (objval ob)"
  using assms(1,2)
proof (cases rule: robj_wf_string)
  case (raw s)
  then show ?thesis using assms(3) by (simp add: robj_small_def objval_def)
next
  case (num n)
  then show ?thesis using length_dec_int [of n] by (simp add: objval_def small_def)
qed

lemma dumpable_savable:
  assumes "ks_wf sv" "dumpable sv" "rd_dict (sv_db sv i) k \<noteq> None"
  shows "savable sv i k"
proof -
  obtain ob where ob: "rd_dict (sv_db sv i) k = Some ob" using assms(3) by blast
  then have "entry_ok k ob" by (rule ks_wfD(1) [OF assms(1)])
  then have "robj_wf ob" "robj_small ob" "small k" by (simp_all add: entry_ok_def)
  moreover have "o_type ob = REDIS_STRING" using assms(2) ob by (auto simp: dumpable_def)
  moreover have "LLONG_MIN \<le> deadline sv i k \<and> deadline sv i k \<le> LLONG_MAX"
    using assms(2) by (auto simp: deadline_def dumpable_def split: option.split)
  ultimately show ?thesis using ob small_objval by (auto simp: savable_def)
qed

lemma file_checksum: "r_cksum (written bs r) = (if r_update_cksum r then crc64 (r_cksum r) bs else r_cksum r)"
  by (simp add: written_def)

lemma body_file:
  assumes "sane sv" "dumpable sv"
  shows "\<exists>bs. emits (save_body cf sv) (magic @ bs) () \<and>
    (\<forall>t r rest. r_data r = bs @ rest \<longrightarrow> sv_dbnum sv \<le> sv_dbnum t \<longrightarrow> (\<forall>i. rd_dict (sv_db t i) = Map.empty) \<longrightarrow>
      load_entries (sv_now t) 0 t r =
        Inr (fold (restore_db sv (sv_now t) (sv_masterhost t)) [0..<sv_dbnum sv] t, consumed bs r))"
proof -
  let ?js = "[0..<sv_dbnum sv]"
  have it: "distinct (sv_iter sv (rd_dict (sv_db sv j)))" "set (sv_iter sv (rd_dict (sv_db sv j))) = dom (rd_dict (sv_db sv j))" for j
    using saneD(5) [OF assms(1)] ks_wfD(4) [OF saneD(1) [OF assms(1)], of j] by (simp_all add: sources_ok_def)
  have "\<forall>j\<in>set ?js. distinct (sv_iter sv (rd_dict (sv_db sv j))) \<and> (\<forall>k\<in>set (sv_iter sv (rd_dict (sv_db sv j))). savable sv j k)"
    using it dumpable_savable [OF saneD(1) [OF assms(1)] assms(2)] by auto
  moreover have "\<forall>j\<in>set ?js. j < REDIS_RDB_LENERR" using assms(2) by (simp add: dumpable_def REDIS_RDB_LENERR_def)
  ultimately obtain ds where ds: "emits (save_dbs cf sv ?js) ds ()"
    "\<And>t r rest db. r_data r = ds @ rest \<Longrightarrow> \<forall>j\<in>set ?js. j < sv_dbnum t \<and> rd_dict (sv_db t j) = Map.empty \<Longrightarrow>
      \<exists>db'. load_entries (sv_now t) db t r =
        load_entries (sv_now t) db' (fold (restore_db sv (sv_now t) (sv_masterhost t)) ?js t) (consumed ds r)"
    using save_dbs_file [of ?js sv cf] by auto
  let ?e = "[char_of (255 :: nat)]"
  have "emits (save_body cf sv) (magic @ ds @ ?e) ()"
    unfolding save_body_def
    by (intro emits_andthen [OF writes_emits [OF writes_raw]] emits_andthen [OF ds(1)] emits_then_return [OF writes_emits [OF writes_type]])
      (simp add: magic_def)
  moreover have "load_entries (sv_now t) 0 t r =
        Inr (fold (restore_db sv (sv_now t) (sv_masterhost t)) ?js t, consumed (ds @ ?e) r)"
    if d: "r_data r = (ds @ ?e) @ rest" and n: "sv_dbnum sv \<le> sv_dbnum t" "\<forall>i. rd_dict (sv_db t i) = Map.empty" for t r rest
  proof -
    let ?t = "fold (restore_db sv (sv_now t) (sv_masterhost t)) ?js t"
    have d1: "r_data r = ds @ ?e @ rest" using d by simp
    have d2: "r_data (consumed ds r) = ?e @ rest" by (rule consumed_simps(1) [OF d1])
    have 1: "rdbLoadType (consumed ds r) = Inr (255, consumed ?e (consumed ds r))" by (rule readsD [OF reads_type d2]) simp
    have 2: "load_entry now db s (consumed ds r) = Inr (None, consumed ?e (consumed ds r))" for now db s
      by (simp add: load_entry_def load_type_def 1 del: consumed_append)
    obtain db' where "load_entries (sv_now t) 0 t r = load_entries (sv_now t) db' ?t (consumed ds r)"
      using ds(2) [OF d1, of t 0] n by auto
    also have "\<dots> = Inr (?t, consumed ?e (consumed ds r))" by (subst load_entries.simps) (simp add: 2 del: consumed_append)
    finally show ?thesis by simp
  qed
  ultimately show ?thesis by blast
qed

lemma magic_version: "take 5 magic = ''REDIS''" "atoi (drop 5 magic) = 6" "length magic = 9"
  by code_simp+

lemma save_file:
  assumes "sane sv" "dumpable sv" "sv_disk_ok sv"
  shows "\<exists>bs ck. length ck = 8 \<and> (cf_checksum cf \<longrightarrow> ck = lsb_bytes 8 (unat (crc64 0 (magic @ bs)))) \<and>
    (\<not> cf_checksum cf \<longrightarrow> lsb_value ck = 0) \<and>
    (\<forall>room limit. room \<le> limit \<longrightarrow> rdbSaveFile cf room limit sv =
       (if length (magic @ bs) \<le> limit then (Inr (take room (magic @ bs @ ck)), after_save sv) else (Inl Failed, sv))) \<and>
    (\<forall>t r rest. r_data r = bs @ rest \<longrightarrow> sv_dbnum sv \<le> sv_dbnum t \<longrightarrow> (\<forall>i. rd_dict (sv_db t i) = Map.empty) \<longrightarrow>
      load_entries (sv_now t) 0 t r =
        Inr (fold (restore_db sv (sv_now t) (sv_masterhost t)) [0..<sv_dbnum sv] t, consumed bs r))"
proof -
  obtain bs where bs: "emits (save_body cf sv) (magic @ bs) ()"
    "\<forall>t r rest. r_data r = bs @ rest \<longrightarrow> sv_dbnum sv \<le> sv_dbnum t \<longrightarrow> (\<forall>i. rd_dict (sv_db t i) = Map.empty) \<longrightarrow>
      load_entries (sv_now t) 0 t r =
        Inr (fold (restore_db sv (sv_now t) (sv_masterhost t)) [0..<sv_dbnum sv] t, consumed bs r)"
    using body_file [OF assms(1,2), of cf] by blast
  define ck where "ck = lsb_bytes 8 (unat (if cf_checksum cf then crc64 0 (magic @ bs) else 0))"
  have "rdbSaveFile cf room limit sv =
       (if length (magic @ bs) \<le> limit then (Inr (take room (magic @ bs @ ck)), after_save sv) else (Inl Failed, sv))"
    if le: "room \<le> limit" for room limit
  proof -
    let ?r = "(rioInitWithFile [] limit)\<lparr>r_update_cksum := cf_checksum cf\<rparr>"
    have r: "room_for (magic @ bs) ?r \<longleftrightarrow> length (magic @ bs) \<le> limit"
      by (simp add: room_for_def rioInitWithFile_def)
    have b: "save_body cf sv (Some ?r) = (if length (magic @ bs) \<le> limit then Inr ((), Some (written (magic @ bs) ?r)) else Inl Failed)"
      using bs(1) r by (simp add: emits_def)
    have c: "lsb_bytes 8 (unat (r_cksum (written (magic @ bs) ?r))) = ck"
      by (simp add: written_def rioInitWithFile_def ck_def)
    have w: "r_data (snd (rioWrite ck (written (magic @ bs) ?r))) = magic @ bs @ take (limit - length (magic @ bs)) ck"
      by (simp add: rioWrite_def rioFileWrite_def rioGenericUpdateChecksum_def written_def rioInitWithFile_def Let_def)
    have t: "take room (magic @ bs @ take (limit - length (magic @ bs)) ck) = take room (magic @ bs @ ck)"
      using le by (simp add: min_def)
    show ?thesis
      using assms(3) unfolding rdbSaveFile_def b after_save_def
      by (simp add: c w [simplified] t [simplified] split_beta Let_def)
  qed
  moreover have "length ck = 8 \<and> (cf_checksum cf \<longrightarrow> ck = lsb_bytes 8 (unat (crc64 0 (magic @ bs)))) \<and>
      (\<not> cf_checksum cf \<longrightarrow> lsb_value ck = 0)"
    by (simp add: ck_def lsb_value_bytes)
  ultimately show ?thesis using bs(2) by blast
qed

lemma load_short: "length file < 9 \<Longrightarrow> rdbLoad cf file t = Inl Exit"
  by (simp add: rdbLoad_def rioRead_def rioFileRead_def rioInitWithFile_def eoferr_def)

text \<open>The server after loading what \<open>sv\<close> saved: its databases, and nothing else, are replaced.\<close>

definition reloaded :: "server \<Rightarrow> server \<Rightarrow> server" where
  "reloaded sv t = (fold (restore_db sv (sv_now t) (sv_masterhost t)) [0..<sv_dbnum sv] (t\<lparr>sv_loading := True\<rparr>))\<lparr>sv_loading := False\<rparr>"

lemma load_file:
  assumes "sane sv" "dumpable sv" "sv_disk_ok sv" "sv_dbnum sv \<le> sv_dbnum t" "\<forall>i. rd_dict (sv_db t i) = Map.empty"
  shows "\<exists>file. (\<forall>room limit. room \<le> limit \<longrightarrow> rdbSaveFile cf room limit sv =
       (if length file - 8 \<le> limit then (Inr (take room file), after_save sv) else (Inl Failed, sv))) \<and>
    rdbLoad cf' file t = Inr (reloaded sv t) \<and>
    rdbLoad cf' (take (length file - 8) file) t = (if cf_checksum cf' then Inl Exit else Inr (reloaded sv t))"
proof -
  obtain bs ck where b: "length ck = 8" "cf_checksum cf \<longrightarrow> ck = lsb_bytes 8 (unat (crc64 0 (magic @ bs)))"
    "\<not> cf_checksum cf \<longrightarrow> lsb_value ck = 0"
    "\<forall>room limit. room \<le> limit \<longrightarrow> rdbSaveFile cf room limit sv =
       (if length (magic @ bs) \<le> limit then (Inr (take room (magic @ bs @ ck)), after_save sv) else (Inl Failed, sv))"
    "\<forall>t r rest. r_data r = bs @ rest \<longrightarrow> sv_dbnum sv \<le> sv_dbnum t \<longrightarrow> (\<forall>i. rd_dict (sv_db t i) = Map.empty) \<longrightarrow>
      load_entries (sv_now t) 0 t r =
        Inr (fold (restore_db sv (sv_now t) (sv_masterhost t)) [0..<sv_dbnum sv] t, consumed bs r)"
    using save_file [OF assms(1-3), of cf] by blast
  let ?file = "magic @ bs @ ck"
  have t8: "take (length (magic @ bs)) ?file = magic @ bs" "length ?file - 8 = length (magic @ bs)" using b(1) by simp_all
  let ?t = "t\<lparr>sv_loading := True\<rparr>"
  have load: "rdbLoad cf' (magic @ bs @ rest) t =
      (if cf_checksum cf'
       then (case rioRead 8 (consumed (magic @ bs) ((rioInitWithFile (magic @ bs @ rest) 0)\<lparr>r_update_cksum := True\<rparr>)) of
               None \<Rightarrow> Inl Exit
             | Some (cksum, _) \<Rightarrow>
                 if lsb_value cksum \<noteq> 0 \<and> lsb_value cksum \<noteq> unat (crc64 0 (magic @ bs)) then Inl Exit else Inr (reloaded sv t))
       else Inr (reloaded sv t))" for rest
  proof -
    let ?r = "(rioInitWithFile (magic @ bs @ rest) 0)\<lparr>r_update_cksum := cf_checksum cf'\<rparr>"
    have d: "r_data ?r = magic @ bs @ rest" by (simp add: rioInitWithFile_def)
    have 1: "rioRead 9 ?r = Some (magic, consumed magic ?r)"
      by (rule rioRead_front_n [OF d]) (simp_all add: magic_version)
    have d2: "r_data (consumed magic ?r) = bs @ rest" by (rule consumed_simps(1) [OF d])
    have "load_entries (sv_now ?t) 0 ?t (consumed magic ?r) =
        Inr (fold (restore_db sv (sv_now ?t) (sv_masterhost ?t)) [0..<sv_dbnum sv] ?t, consumed bs (consumed magic ?r))"
      by (rule b(5) [rule_format, OF d2]) (use assms(4,5) in simp_all)
    then have 2: "load_entries (sv_now t) 0 ?t (consumed magic ?r) =
        Inr (fold (restore_db sv (sv_now t) (sv_masterhost t)) [0..<sv_dbnum sv] ?t, consumed (magic @ bs) ?r)" by simp
    have 3: "r_cksum (consumed (magic @ bs) ((rioInitWithFile (magic @ bs @ rest) 0)\<lparr>r_update_cksum := True\<rparr>)) = crc64 0 (magic @ bs)"
      by (simp add: consumed_def rioInitWithFile_def)
    show ?thesis
      unfolding rdbLoad_def 1 option.case prod.case magic_version(1,2) Let_def reloaded_def 2 andthen_simps
      using 3 by (cases "cf_checksum cf'") (simp_all add: REDIS_RDB_VERSION_def split: option.split)
  qed
  let ?c = "consumed (magic @ bs) ((rioInitWithFile (magic @ bs @ rest) 0)\<lparr>r_update_cksum := True\<rparr>)"
  have "r_data (consumed (magic @ bs) ((rioInitWithFile (magic @ bs @ ck) 0)\<lparr>r_update_cksum := True\<rparr>)) = ck @ []"
    by (simp add: consumed_def rioInitWithFile_def)
  from rioRead_front_n [OF this b(1)]
  have ck: "\<exists>r'. rioRead 8 (consumed (magic @ bs) ((rioInitWithFile (magic @ bs @ ck) 0)\<lparr>r_update_cksum := True\<rparr>)) = Some (ck, r')"
    by simp
  have none: "rioRead 8 (consumed (magic @ bs) ((rioInitWithFile (magic @ bs @ []) 0)\<lparr>r_update_cksum := True\<rparr>)) = None"
    by (simp add: consumed_def rioInitWithFile_def rioRead_def rioFileRead_def)
  have v: "lsb_value ck = 0 \<or> lsb_value ck = unat (crc64 0 (magic @ bs))"
  proof (cases "cf_checksum cf")
    case True
    have "unat (crc64 0 (magic @ bs)) < 2 ^ LENGTH(64)" by (rule unsigned_less)
    then show ?thesis using b(2) True by (simp add: lsb_value_bytes)
  qed (use b(3) in simp)
  have "rdbLoad cf' ?file t = Inr (reloaded sv t)" unfolding load using ck v by auto
  moreover have "rdbLoad cf' (magic @ bs) t = (if cf_checksum cf' then Inl Exit else Inr (reloaded sv t))"
    using load [of "[]"] unfolding none by simp
  ultimately show ?thesis using b(4) by (intro exI [of _ ?file]) (simp only: t8 simp_thms)
qed


text \<open>What the databases hold after the restart, key by key.\<close>

definition survives :: "server \<Rightarrow> server \<Rightarrow> nat \<Rightarrow> key \<Rightarrow> bool" where
  "survives sv t i k \<longleftrightarrow>
     i < sv_dbnum sv \<and> saved sv i k \<and> kept (sv_now t) (sv_masterhost t) (deadline sv i k)"

lemma reloaded_state:
  assumes "sane sv" "\<forall>i. rd_dict (sv_db t i) = Map.empty \<and> rd_expires (sv_db t i) = Map.empty"
  shows "rd_dict (sv_db (reloaded sv t) i) k =
      (if survives sv t i k then map_option (\<lambda>ob. canonical (objval ob)) (rd_dict (sv_db sv i) k) else None)"
    "rd_expires (sv_db (reloaded sv t) i) k =
      (if survives sv t i k \<and> rd_dict (sv_db sv i) k \<noteq> None \<and> deadline sv i k \<noteq> -1 then Some (deadline sv i k) else None)"
proof -
  have it: "set (sv_iter sv (rd_dict (sv_db sv i))) = dom (rd_dict (sv_db sv i))"
    using saneD(5) [OF assms(1)] ks_wfD(4) [OF saneD(1) [OF assms(1)], of i] by (simp add: sources_ok_def)
  have db: "sv_db (reloaded sv t) i = (if i < sv_dbnum sv
      then fold (restore_key sv i (sv_now t) (sv_masterhost t)) (filter (saved sv i) (sv_iter sv (rd_dict (sv_db sv i)))) (sv_db t i)
      else sv_db t i)"
    by (simp add: reloaded_def fold_restore_db)
  show "rd_dict (sv_db (reloaded sv t) i) k =
      (if survives sv t i k then map_option (\<lambda>ob. canonical (objval ob)) (rd_dict (sv_db sv i) k) else None)"
    using it assms(2) by (auto simp: db restore_key_fold survives_def)
  show "rd_expires (sv_db (reloaded sv t) i) k =
      (if survives sv t i k \<and> rd_dict (sv_db sv i) k \<noteq> None \<and> deadline sv i k \<noteq> -1 then Some (deadline sv i k) else None)"
    using it assms(2) by (auto simp: db restore_key_fold survives_def)
qed

lemma reloaded_frame:
  "\<exists>dbs. reloaded sv t = t\<lparr>sv_db := dbs, sv_loading := False\<rparr> \<and> (\<forall>i. rd_watched (dbs i) = rd_watched (sv_db t i))"
proof -
  have w: "rd_watched (fold (restore_key sv i now slave) ks db) = rd_watched db" for i now slave ks db
    by (induction ks arbitrary: db) (simp_all add: restore_key_def)
  show ?thesis
    by (rule exI [of _ "sv_db (reloaded sv t)"]) (simp add: reloaded_def fold_restore_db w)
qed

lemma canonical_small: "small s \<Longrightarrow> robj_small (canonical s)"
  by (simp add: canonical_def robj_small_def createStringObjectFromLongLong_def shared_integers_def createObject_def
      string2ll_iff_dec split: option.split)

lemma reloaded_sane:
  assumes "sane sv" "sane t" "dumpable sv" "\<forall>i. rd_dict (sv_db t i) = Map.empty \<and> rd_expires (sv_db t i) = Map.empty"
  shows "sane (reloaded sv t)"
proof -
  let ?u = "reloaded sv t"
  note s = saneD [OF assms(2)] and r = reloaded_state [OF assms(1,4)]
  obtain dbs where u: "?u = t\<lparr>sv_db := dbs, sv_loading := False\<rparr>" "\<And>i. rd_watched (dbs i) = rd_watched (sv_db t i)"
    using reloaded_frame by blast
  have q: "sv_client ?u = sv_client t" "sv_clients ?u = sv_clients t" "sv_channels ?u = sv_channels t"
    "sv_patterns ?u = sv_patterns t" "sv_iter ?u = sv_iter t" "sv_rnd ?u = sv_rnd t" "sv_dbnum ?u = sv_dbnum t"
    "\<And>i. rd_watched (sv_db ?u i) = rd_watched (sv_db t i)"
    using u by simp_all
  show ?thesis
    unfolding sane_def
  proof (intro conjI allI)
    show "ks_wf ?u"
      unfolding ks_wf_def db_wf_def
    proof (intro conjI allI impI)
      fix i
      have "dom (rd_dict (sv_db ?u i)) \<subseteq> dom (rd_dict (sv_db sv i))" by (auto simp: r split: if_splits)
      then show "finite (dom (rd_dict (sv_db ?u i)))"
        using ks_wfD(4) [OF saneD(1) [OF assms(1)], of i] by (rule finite_subset)
      show "dom (rd_expires (sv_db ?u i)) \<subseteq> dom (rd_dict (sv_db ?u i))" by (auto simp: r split: if_splits)
      fix k ob assume "rd_dict (sv_db ?u i) k = Some ob"
      then obtain ob' where o: "rd_dict (sv_db sv i) k = Some ob'" "ob = canonical (objval ob')"
        by (auto simp: r split: if_splits)
      have "savable sv i k" by (rule dumpable_savable [OF saneD(1) [OF assms(1)] assms(3)]) (simp add: o(1))
      then have "small (objval ob')" "small k" using o(1) by (auto simp: savable_def)
      moreover have "robj_wf ob" using canonical_is_string o(2) by (simp add: is_string_def)
      moreover have "robj_small ob" using canonical_small \<open>small (objval ob')\<close> o(2) by simp
      ultimately show "entry_ok k ob" by (simp add: entry_ok_def)
    qed
    show "watch_wf ?u" using s(2) unfolding watch_wf_def watchers_def q .
    show "pubsub_wf ?u" using s(3) unfolding pubsub_wf_def subscribers_def q .
    show "registered ?u" using s(4) unfolding registered_def detached_def q .
    show "sources_ok ?u" using s(5) unfolding sources_ok_def q .
    fix c
    show "multi_ok (sv_client ?u c)" using s(6) by (simp add: q)
    show "cdb c ?u < sv_dbnum ?u" using s(7) by (simp add: q)
  qed
qed

section \<open>Properties\<close>

text \<open>C6.
  The snapshot of a data set of strings, loaded into an empty server.  Every key comes back in
  its database, with the same string and the same deadline, except those whose deadline had passed
  when the snapshot was written or has passed when it is loaded (a slave keeps these); a deadline
  of -1 is lost.  This holds for every setting of compression and checksum on either side and for
  whatever the stack of the compressor contains, and the invariant of the server holds again.
  When \<open>fwrite\<close> reports an error before the checksum, the save fails and leaves the server as it was.
  Otherwise success is reported, whatever part of the file gets to the device (\<open>room\<close> bytes of it: the
  results of the last write, of \<open>fflush\<close> and of \<open>fclose\<close> are not looked at).  A file without its last 8
  bytes ends the process that loads it with the checksum enabled, and one shorter than the header
  any process that loads it.
\<close>

theorem rdb_roundtrip:
  assumes "sane sv" and "dumpable sv" and "sv_disk_ok sv" and "sane t" and "sv_dbnum sv \<le> sv_dbnum t"
    and "\<forall>i. rd_dict (sv_db t i) = Map.empty \<and> rd_expires (sv_db t i) = Map.empty"
  shows "\<exists>bytes u. (\<forall>room limit. room \<le> limit \<longrightarrow> rdbSaveFile cf room limit sv =
       (if length bytes - 8 \<le> limit then (Inr (take room bytes), after_save sv) else (Inl Failed, sv))) \<and>
    rdbLoad cf' bytes t = Inr u \<and> sane u \<and>
    rdbLoad cf' (take (length bytes - 8) bytes) t = (if cf_checksum cf' then Inl Exit else Inr u) \<and>
    (\<forall>room < 9. rdbLoad cf' (take room bytes) t = Inl Exit) \<and>
    (\<forall>i k. map_option objval (rd_dict (sv_db u i) k) =
       (if survives sv t i k then map_option objval (rd_dict (sv_db sv i) k) else None)) \<and>
    (\<forall>i k. rd_expires (sv_db u i) k =
       (if survives sv t i k \<and> rd_expires (sv_db sv i) k \<noteq> Some (-1) then rd_expires (sv_db sv i) k else None))"
proof -
  obtain bytes where f: "\<forall>room limit. room \<le> limit \<longrightarrow> rdbSaveFile cf room limit sv =
       (if length bytes - 8 \<le> limit then (Inr (take room bytes), after_save sv) else (Inl Failed, sv))"
    "rdbLoad cf' bytes t = Inr (reloaded sv t)"
    "rdbLoad cf' (take (length bytes - 8) bytes) t = (if cf_checksum cf' then Inl Exit else Inr (reloaded sv t))"
    using load_file [OF assms(1-3,5), of cf cf'] assms(6) by blast
  have "objval (canonical s) = s" for s using canonical_is_string [of s] by (simp add: is_string_def)
  then have "map_option objval (rd_dict (sv_db (reloaded sv t) i) k) =
       (if survives sv t i k then map_option objval (rd_dict (sv_db sv i) k) else None)" for i k
    by (simp add: reloaded_state [OF assms(1,6)] option.map_comp comp_def)
  moreover have "rd_expires (sv_db (reloaded sv t) i) k =
       (if survives sv t i k \<and> rd_expires (sv_db sv i) k \<noteq> Some (-1) then rd_expires (sv_db sv i) k else None)" for i k
    using ks_wfD(2) [OF saneD(1) [OF assms(1)], of i k]
    by (auto simp: reloaded_state [OF assms(1,6)] deadline_def split: option.splits)
  moreover have "\<forall>room < 9. rdbLoad cf' (take room bytes) t = Inl Exit" by (simp add: load_short)
  ultimately show ?thesis using f reloaded_sane [OF assms(1,4,2,6)] by blast
qed

definition demo3 :: server where
  "demo3 = upd_db 0 (\<lambda>db. db\<lparr>rd_dict := [''k'' \<mapsto> createStringObject ''12'']\<rparr>) (demo\<lparr>sv_disk_ok := True\<rparr>)"

definition demo_config :: rdb_config where
  "demo_config = \<lparr>cf_compression = True, cf_checksum = True, cf_htab = (\<lambda>_ _. 0), cf_block = (\<lambda>_ _. NUL)\<rparr>"

theorem rdb_roundtrip_witness:
  "\<exists>bytes u. fst (rdbSaveFile demo_config (length bytes) (length bytes) demo3) = Inr bytes \<and> rdbLoad demo_config bytes demo = Inr u \<and>
    map_option objval (rd_dict (sv_db u 0) ''k'') = Some ''12''"
proof -
  have s: "sane demo" by (rule reachable_sane [OF demo_reachable])
  have e: "rd_dict (sv_db demo i) = Map.empty" "rd_expires (sv_db demo i) = Map.empty" "sv_dbnum demo = 16" for i
    by (simp_all add: demo_def initServer_def)
  have d: "rd_dict (sv_db demo3 i) = (if i = 0 then [''k'' \<mapsto> createStringObject ''12''] else Map.empty)"
    "rd_expires (sv_db demo3 i) = Map.empty" "rd_watched (sv_db demo3 i) = rd_watched (sv_db demo i)" for i
    by (simp_all add: demo3_def upd_db_def e)
  have q: "sv_client demo3 = sv_client demo" "sv_clients demo3 = sv_clients demo" "sv_channels demo3 = sv_channels demo"
    "sv_patterns demo3 = sv_patterns demo" "sv_iter demo3 = sv_iter demo" "sv_rnd demo3 = sv_rnd demo" "sv_dbnum demo3 = sv_dbnum demo"
    by (simp_all add: demo3_def upd_db_def)
  note t = saneD [OF s]
  have "sane demo3"
    unfolding sane_def
  proof (intro conjI allI)
    show "ks_wf demo3" by (auto simp: ks_wf_def db_wf_def d entry_ok_def robj_small_def small_def split: if_splits)
    show "watch_wf demo3" using t(2) unfolding watch_wf_def watchers_def q d(3) .
    show "pubsub_wf demo3" using t(3) unfolding pubsub_wf_def subscribers_def q .
    show "registered demo3" using t(4) unfolding registered_def detached_def q .
    show "sources_ok demo3" using t(5) unfolding sources_ok_def q .
    fix c
    show "multi_ok (sv_client demo3 c)" using t(6) by (simp add: q)
    show "cdb c demo3 < sv_dbnum demo3" using t(7) by (simp add: q)
  qed
  moreover have "dumpable demo3" by (auto simp: dumpable_def d q e split: if_splits)
  moreover have "sv_disk_ok demo3" by (simp add: demo3_def upd_db_def)
  ultimately obtain bytes u where r: "\<forall>room limit. room \<le> limit \<longrightarrow> rdbSaveFile demo_config room limit demo3 =
       (if length bytes - 8 \<le> limit then (Inr (take room bytes), after_save demo3) else (Inl Failed, demo3))"
    "rdbLoad demo_config bytes demo = Inr u"
    "map_option objval (rd_dict (sv_db u 0) ''k'') =
       (if survives demo3 demo 0 ''k'' then map_option objval (rd_dict (sv_db demo3 0) ''k'') else None)"
    using rdb_roundtrip [of demo3 demo demo_config demo_config] s e q by (simp only: simp_thms order_refl) blast
  have "survives demo3 demo 0 ''k''" by (simp add: survives_def saved_def kept_def deadline_def d q e)
  then show ?thesis using r by (intro exI [of _ bytes] exI [of _ u]) (simp add: d)
qed

end
