(* ===== verification/Migrate.thy ===== *)
theory Migrate
  imports Rdb
begin

unbundle bit_operations_syntax

text \<open>
  \<open>DUMP\<close> and \<open>RESTORE\<close> (\<open>src/migrate.c\<close>): the payload of a value, its verification, and the two
  commands.  \<open>MIGRATE\<close>, which sends a payload to another server, is not modelled.
\<close>

section \<open>Payloads\<close>

definition rdb_version_bytes :: string where
  "rdb_version_bytes = [char_of (REDIS_RDB_VERSION mod 256), char_of (REDIS_RDB_VERSION div 256 mod 256)]"

definition createDumpPayload :: "rdb_config \<Rightarrow> robj \<Rightarrow> rdb_error + string" where
  "createDumpPayload cf ob =
     (case seq_save (rdbSaveObjectType ob) (rdbSaveObject cf ob) (Some (rioInitWithBuffer [])) of
        Inr (_, Some r) \<Rightarrow>
          let payload = r_data r @ rdb_version_bytes
          in Inr (payload @ lsb_bytes 8 (unat (crc64 0 payload)))
      | Inr (_, None) \<Rightarrow> Inl Panic
      | Inl e \<Rightarrow> Inl e)"

definition verifyDumpPayload :: "string \<Rightarrow> bool" where
  "verifyDumpPayload p \<longleftrightarrow>
     (if length p < 10 then False
      else let footer = drop (length p - 10) p;
               rdbver = code (footer ! 1) * 256 + code (footer ! 0)
           in if rdbver \<noteq> REDIS_RDB_VERSION then False
              else lsb_bytes 8 (unat (crc64 0 (take (length p - 8) p))) = drop 2 footer)"

text \<open>What \<open>RESTORE\<close> reads from a payload it has verified; \<open>Failed\<close> is its reply of a bad format.\<close>

definition restore_payload :: "nat \<Rightarrow> string \<Rightarrow> rdb_error + robj" where
  "restore_payload maxmemory p =
     andthen (rdbLoadObjectType (rioInitWithBuffer p)) (\<lambda>type payload.
     andthen (rdbLoadObject maxmemory type payload) (\<lambda>ob _. Inr ob))"

section \<open>Commands\<close>

text \<open>An assertion that fails is \<open>Panic\<close>.\<close>

definition asserted :: "'a option \<Rightarrow> rdb_error + 'a" where
  "asserted x = (case x of None \<Rightarrow> Inl Panic | Some y \<Rightarrow> Inr y)"

definition dumpCommand :: "rdb_config \<Rightarrow> cid \<Rightarrow> server \<Rightarrow> rdb_error + server" where
  "dumpCommand cf c sv =
     (case lookupKeyRead (cdb c sv) (argv c sv 1) sv of
        None \<Rightarrow> Inl Panic
      | Some (None, sv) \<Rightarrow> Inr (addReply c shared_nullbulk sv)
      | Some (Some ob, sv) \<Rightarrow>
          (case createDumpPayload cf ob of
             Inl e \<Rightarrow> Inl e
           | Inr p \<Rightarrow> asserted (addReplyBulk c (createObject REDIS_STRING (Sds p)) sv)))"

definition restore_key_ttl :: "nat \<Rightarrow> key \<Rightarrow> robj \<Rightarrow> int \<Rightarrow> server \<Rightarrow> server option" where
  "restore_key_ttl i key ob ttl sv =
     Option.bind (dbAdd i key ob sv) (\<lambda>sv.
       if ttl \<noteq> 0 then setExpire i key (to_int64 (sv_now sv + ttl)) sv else Some sv)"

definition restoreCommand :: "cid \<Rightarrow> server \<Rightarrow> rdb_error + server" where
  "restoreCommand c sv =
     (let i = cdb c sv; key = argv c sv 1; p = argv c sv 3
      in case lookupKeyWrite i key sv of
        None \<Rightarrow> Inl Panic
      | Some (Some _, sv) \<Rightarrow> Inr (addReplyError c ''Target key name is busy.'' sv)
      | Some (None, sv) \<Rightarrow>
          (case getLongFromObjectOrReply c (Some (arg c sv 2)) None sv of
             None \<Rightarrow> Inl Panic
           | Some (None, sv) \<Rightarrow> Inr sv
           | Some (Some ttl, sv) \<Rightarrow>
               if ttl < 0 then Inr (addReplyError c ''Invalid TTL value, must be >= 0'' sv)
               else if \<not> verifyDumpPayload p then Inr (addReplyError c ''DUMP payload version or checksum are wrong'' sv)
               else case restore_payload (sv_maxmemory sv) p of
                      Inl Failed \<Rightarrow> Inr (addReplyError c ''Bad data format'' sv)
                    | Inl e \<Rightarrow> Inl e
                    | Inr ob \<Rightarrow>
                        (case restore_key_ttl i key ob ttl sv of
                           None \<Rightarrow> Inl Panic
                         | Some sv \<Rightarrow> Inr (incr_dirty 1 (addReply c shared_ok (signalModifiedKey i key sv))))))"

section \<open>The payload and back\<close>

lemma verify_iff:
  "verifyDumpPayload p \<longleftrightarrow> 10 \<le> length p \<and> take 2 (drop (length p - 10) p) = rdb_version_bytes \<and>
     lsb_bytes 8 (unat (crc64 0 (take (length p - 8) p))) = drop (length p - 8) p"
proof (cases "10 \<le> length p")
  case True
  let ?f = "drop (length p - 10) p"
  have "length ?f = 10" using True by simp
  then obtain a b c where f: "?f = a # b # c"
    by (cases ?f; cases "tl ?f") auto
  have "length p - 8 = 2 + (length p - 10)" using True by simp
  then have d: "drop (length p - 8) p = drop 2 ?f" by (simp only: drop_drop)
  have v: "code b * 256 + code a = REDIS_RDB_VERSION \<longleftrightarrow> [a, b] = rdb_version_bytes"
  proof -
    have c: "code (CHR 0x06) = 6" by (simp add: code_def)
    have "code b * 256 + code a = 6 \<longleftrightarrow> code a = code (CHR 0x06) \<and> code b = 0" unfolding c by (cases "code b") (auto simp del: code_eq_0)
    then have "code b * 256 + code a = 6 \<longleftrightarrow> a = CHR 0x06 \<and> b = NUL" unfolding code_inject code_eq_0 .
    moreover have v: "rdb_version_bytes = [CHR 0x06, NUL]" by code_simp
    ultimately show ?thesis unfolding v REDIS_RDB_VERSION_def list.inject by simp
  qed
  have t: "take 2 ?f = [a, b]" "?f ! 1 = b" "?f ! 0 = a" "\<not> length p < 10" using f True by simp_all
  show ?thesis unfolding verifyDumpPayload_def d Let_def t(1-3) using v True t(4) by (simp only: if_False simp_thms if_bool_eq_conj) blast
qed (simp add: verifyDumpPayload_def)

lemma dump_payload:
  assumes "is_string ob s" "length s < REDIS_RDB_LENERR"
  obtains p where "createDumpPayload cf ob = Inr p" "verifyDumpPayload p" "\<And>maxmemory. restore_payload maxmemory p = Inr (canonical s)"
    "rdbSavedObjectLen cf ob = Inr (length p - 11)"
proof -
  obtain bs where bs: "bs \<noteq> []" "writes (rdbSaveObject cf ob) bs" "\<And>maxmemory. reads (rdbLoadObject maxmemory 0) bs (canonical s)"
    using saves_value [OF assms, of cf] by blast
  have t: "rdbSaveObjectType ob = rdbSaveType 0" using assms(1) by (simp add: rdbSaveObjectType_def rdb_type_def is_string_def)
  let ?b = "[char_of (0 :: nat)] @ bs"
  define q where "q = ?b @ rdb_version_bytes"
  let ?p = "q @ lsb_bytes 8 (unat (crc64 0 q))"
  have w: "writes (seq_save (rdbSaveObjectType ob) (rdbSaveObject cf ob)) ?b"
    unfolding t by (rule writes_seq [OF writes_type bs(2)])
  have p: "createDumpPayload cf ob = Inr ?p"
    unfolding createDumpPayload_def writes_Some [OF w] by (simp add: room_for_def rioInitWithBuffer_def written_def Let_def q_def)
  have v: "length q = length ?b + 2" "drop (length ?b) q = rdb_version_bytes" "length rdb_version_bytes = 2"
    by (simp_all add: rdb_version_bytes_def q_def)
  have "length ?p - 8 = length q" "length ?p - 10 = length ?b" using v(1) by simp_all
  then have "verifyDumpPayload ?p" unfolding verify_iff using v by simp
  moreover have "restore_payload maxmemory ?p = Inr (canonical s)" for maxmemory
  proof -
    have d: "r_data (rioInitWithBuffer ?p) = [char_of (0 :: nat)] @ (bs @ rdb_version_bytes @ lsb_bytes 8 (unat (crc64 0 q)))"
      by (simp add: rioInitWithBuffer_def q_def)
    note 1 = readsD [OF reads_type [of 0] d]
    note 2 = readsD [OF bs(3) consumed_simps(1) [OF d], of maxmemory]
    show ?thesis using 1 2 by (simp add: restore_payload_def rdbLoadObjectType_def rdbIsObjectType_def del: consumed_append)
  qed
  moreover have "rdbSavedObjectLen cf ob = Inr (length ?p - 11)"
    using bs(2) v(1) by (simp add: rdbSavedObjectLen_def writes_def)
  ultimately show thesis using that p by blast
qed

lemma verify_wrong_byte:
  assumes "verifyDumpPayload p" "i < length p" "p ! i \<noteq> b"
  shows "\<not> verifyDumpPayload (p[i := b])"
proof
  assume v: "verifyDumpPayload (p[i := b])"
  let ?n = "length p - 8"
  have a: "lsb_bytes 8 (unat (crc64 0 (take ?n p))) = drop ?n p" using assms(1) by (simp add: verify_iff)
  have c: "lsb_bytes 8 (unat (crc64 0 (take ?n (p[i := b])))) = drop ?n (p[i := b])" using v by (simp add: verify_iff)
  show False
  proof (cases "i < ?n")
    case True
    then have "crc64 0 ((take ?n p)[i := b]) \<noteq> crc64 0 (take ?n p)"
      using assms(2,3) by (intro crc64_wrong_byte) simp_all
    moreover have d: "drop ?n (p[i := b]) = drop ?n p" using True by simp
    have "crc64 0 (take ?n (p[i := b])) = crc64 0 (take ?n p)"
      using c unfolding d a [symmetric] crc_bytes_inject .
    ultimately show False by (simp only: take_update_swap)
  next
    case False
    then have "take ?n (p[i := b]) = take ?n p" by simp
    then have "drop ?n (p[i := b]) = drop ?n p" using a c by simp
    moreover have "drop ?n (p[i := b]) ! (i - ?n) = b" "drop ?n p ! (i - ?n) = p ! i" using False assms(2) by simp_all
    ultimately show False using assms(3) by simp
  qed
qed

section \<open>The commands\<close>

text \<open>A payload with the right footer, whatever it holds.\<close>

lemma verify_footer: "verifyDumpPayload (q @ rdb_version_bytes @ lsb_bytes 8 (unat (crc64 0 (q @ rdb_version_bytes))))"
proof -
  have "length rdb_version_bytes = 2" by (simp add: rdb_version_bytes_def)
  then show ?thesis by (simp add: verify_iff)
qed

lemma dumpCommand_eq:
  assumes "ks_wf sv" "visible (cdb c sv) (argv c sv 1) sv = Some ob" "createDumpPayload cf ob = Inr p" "small p"
  shows "dumpCommand cf c sv = Inr (addReplyString c (bulk p) (count_lookup True (evict (cdb c sv) (argv c sv 1) sv)))"
proof -
  have "addReplyBulk c (createStringObject p) s = Some (addReplyString c (bulk p) s)" for s
    using addReplyBulk_props [of "createStringObject p" c s] assms(4) by (simp add: robj_small_def)
  then show ?thesis using assms(1-3)
    by (simp add: dumpCommand_def lookupKeyRead_eq asserted_def flip: createStringObject_def)
qed

lemma incr_dirty_reply: "incr_dirty n (addReplyString c s sv) = addReplyString c s (incr_dirty n sv)"
  by (simp add: incr_dirty_def addReplyString_def upd_client_def prepareClientToWrite_def)

definition restored :: "nat \<Rightarrow> key \<Rightarrow> robj \<Rightarrow> int \<Rightarrow> server \<Rightarrow> server" where
  "restored i key ob ttl sv =
     (let s1 = dbset i key ob (evict i key sv);
          s2 = (if ttl \<noteq> 0 then expset i key (to_int64 (sv_now sv + ttl)) s1 else s1)
      in incr_dirty 1 (mark_all (watchers sv i key) s2))"

lemma restoreCommand_eq:
  assumes "ks_wf sv" "visible (cdb c sv) (argv c sv 1) sv = None" "argv c sv 2 = dec_int ttl" "0 \<le> ttl" "ttl \<le> LLONG_MAX"
    and "verifyDumpPayload (argv c sv 3)" "\<And>m. restore_payload m (argv c sv 3) = Inr ob"
  shows "restoreCommand c sv = Inr (addReplyString c shared_ok (restored (cdb c sv) (argv c sv 1) ob ttl sv))"
proof -
  let ?i = "cdb c sv" and ?k = "argv c sv 1"
  have n: "getLongFromObjectOrReply c (Some (createStringObject (dec_int ttl))) None s = Some (Some ttl, s)" for s
    using getLongLong_dec [of ttl] assms(4,5) by (simp add: getLongFromObjectOrReply_def getLongLongFromObjectOrReply_def)
  have d: "rd_dict (sv_db (evict ?i ?k sv) ?i) ?k = None" using assms(2) by simp
  show ?thesis
    using assms d
    by (simp add: restoreCommand_def Let_def lookupKeyWrite_eq n restore_key_ttl_def dbAdd_eq setExpire_eq
        signalModifiedKey_eq restored_def incr_dirty_reply)
qed

lemma restored_state:
  assumes "ks_wf sv" "entry_ok key ob" "visible i key sv = None"
  shows "ks_wf (restored i key ob ttl sv)" "frame sv (restored i key ob ttl sv)"
    "rd_dict (sv_db (restored i key ob ttl sv) i) = (rd_dict (sv_db sv i))(key \<mapsto> ob)"
    "rd_expires (sv_db (restored i key ob ttl sv) i) =
       (rd_expires (sv_db sv i))(key := if ttl = 0 then None else Some (to_int64 (sv_now sv + ttl)))"
    "j \<noteq> i \<Longrightarrow> rd_dict (sv_db (restored i key ob ttl sv) j) = rd_dict (sv_db sv j)"
    "j \<noteq> i \<Longrightarrow> rd_expires (sv_db (restored i key ob ttl sv) j) = rd_expires (sv_db sv j)"
    "\<forall>d\<in>watchers sv i key. c_dirty_cas (sv_client (restored i key ob ttl sv) d)"
    "sv_dirty (restored i key ob ttl sv) = sv_dirty sv + 1"
proof -
  have e: "rd_expires (sv_db (evict i key sv) i) key = None"
  proof (cases "rd_expires (sv_db (evict i key sv) i) key")
    case (Some w)
    then obtain ob' where "rd_dict (sv_db (evict i key sv) i) key = Some ob'"
      using ks_wfD(3) [OF ks_wf_evict [OF assms(1)]] by blast
    then show ?thesis using assms(3) by simp
  qed
  have k: "rd_dict (sv_db (evict i key sv) i) k = rd_dict (sv_db sv i) k"
    "rd_expires (sv_db (evict i key sv) i) k = rd_expires (sv_db sv i) k" if "k \<noteq> key" for k
    using that by (simp_all add: evict_other)
  show "ks_wf (restored i key ob ttl sv)" using assms by (simp add: restored_def Let_def)
  show "frame sv (restored i key ob ttl sv)" by (simp add: restored_def Let_def)
  show "rd_dict (sv_db (restored i key ob ttl sv) i) = (rd_dict (sv_db sv i))(key \<mapsto> ob)"
    by (rule ext) (simp add: restored_def Let_def k)
  show "rd_expires (sv_db (restored i key ob ttl sv) i) =
       (rd_expires (sv_db sv i))(key := if ttl = 0 then None else Some (to_int64 (sv_now sv + ttl)))"
    by (rule ext) (simp add: restored_def Let_def k e)
  show "j \<noteq> i \<Longrightarrow> rd_dict (sv_db (restored i key ob ttl sv) j) = rd_dict (sv_db sv j)"
    "j \<noteq> i \<Longrightarrow> rd_expires (sv_db (restored i key ob ttl sv) j) = rd_expires (sv_db sv j)"
    by (rule ext, simp add: restored_def Let_def evict_other)+
  show "\<forall>d\<in>watchers sv i key. c_dirty_cas (sv_client (restored i key ob ttl sv) d)"
    by (simp add: restored_def Let_def)
  show "sv_dirty (restored i key ob ttl sv) = sv_dirty sv + 1"
    by (simp add: restored_def Let_def)
qed

lemma visible_after_evict: "visible j k' (evict i k sv) = visible j k' sv"
  using evict_other [of j i k' k sv] visible_evict [of i k' k sv] by (cases "j = i") (auto simp: visible_def stale_def)

section \<open>Properties\<close>

text \<open>C12.
  \<open>DUMP\<close> of a string and \<open>RESTORE\<close> of its reply, under any free name of any server of this version.
  \<open>DUMP\<close> replies the payload and changes no value.  \<open>RESTORE\<close> creates the key with the same
  string, and with the deadline asked for; every other key of every database is as it was, the
  clients that watch the name are marked and the change is counted.
\<close>

theorem dump_then_restore:
  assumes "ks_wf sv" and "visible (cdb c sv) (argv c sv 1) sv = Some ob" and "o_type ob = REDIS_STRING" and "receptive (sv_client sv c)"
    and "createDumpPayload cf ob = Inr p"
    and "ks_wf t" and "args_ok 4 d t" and "argv d t 1 = key" and "argv d t 2 = dec_int ttl" and "0 \<le> ttl" and "ttl \<le> LLONG_MAX"
    and "argv d t 3 = p" and "visible (cdb d t) key t = None"
  shows "\<exists>sv' t' ob'. dumpCommand cf c sv = Inr sv' \<and> ks_wf sv' \<and> frame sv sv' \<and>
    c_out (sv_client sv' c) = c_out (sv_client sv c) @ bulk p \<and>
    (\<forall>i k. visible i k sv' = visible i k sv) \<and>
    restoreCommand d t = Inr t' \<and> ks_wf t' \<and> frame t t' \<and> o_type ob' = REDIS_STRING \<and> objval ob' = objval ob \<and>
    rd_dict (sv_db t' (cdb d t)) = (rd_dict (sv_db t (cdb d t)))(key \<mapsto> ob') \<and>
    rd_expires (sv_db t' (cdb d t)) =
      (rd_expires (sv_db t (cdb d t)))(key := if ttl = 0 then None else Some (to_int64 (sv_now t + ttl))) \<and>
    (\<forall>j. j \<noteq> cdb d t \<longrightarrow> rd_dict (sv_db t' j) = rd_dict (sv_db t j) \<and> rd_expires (sv_db t' j) = rd_expires (sv_db t j)) \<and>
    (\<forall>e\<in>watchers t (cdb d t) key. c_dirty_cas (sv_client t' e)) \<and> sv_dirty t' = sv_dirty t + 1"
proof -
  have e: "entry_ok (argv c sv 1) ob" by (rule visible_wf [OF assms(1,2)])
  have s: "is_string ob (objval ob)" "small (objval ob)"
    using entry_okD(1,2) [OF e] assms(3) by (simp_all add: is_string_def objval_small)
  have q: "verifyDumpPayload p" "\<And>m. restore_payload m p = Inr (canonical (objval ob))"
    using dump_payload [OF s(1) small_len [OF s(2)], where cf = cf] assms(5) by auto
  have p: "small p" "small key" using args_okD [OF assms(7), of 3] args_okD [OF assms(7), of 1] assms(8,12) by simp_all
  have k: "entry_ok key (canonical (objval ob))" "is_string (canonical (objval ob)) (objval ob)"
    using p(2) canonical_small [OF s(2)] canonical_is_string [of "objval ob"] by (simp_all add: entry_ok_def is_string_def)
  define v where "v = restored (cdb d t) key (canonical (objval ob)) ttl t"
  define u where "u = count_lookup True (evict (cdb c sv) (argv c sv 1) sv)"
  note r = restored_state [OF assms(6) k(1) assms(13), where ttl = ttl, folded v_def]
  have 1: "restoreCommand d t = Inr (addReplyString d shared_ok v)"
    unfolding v_def using restoreCommand_eq [of t d] assms(6,8-13) q by simp
  have 2: "dumpCommand cf c sv = Inr (addReplyString c (bulk p) u)"
    unfolding u_def by (rule dumpCommand_eq [OF assms(1,2,5) p(1)])
  have u: "ks_wf u" "frame sv u" "\<And>i k. visible i k u = visible i k sv" "c_out (sv_client u c) = c_out (sv_client sv c)"
    "c_out (sv_client (addReplyString c s u) c) = (if receptive (sv_client sv c) then c_out (sv_client sv c) @ s else c_out (sv_client sv c))" for s
    using assms(1) by (simp_all add: u_def visible_after_evict) (simp_all add: addReplyString_def upd_client_def prepareClientToWrite_def)
  have x: "sv_dirty (addReplyString d s v) = sv_dirty v" "c_dirty_cas (sv_client (addReplyString d s v) e) = c_dirty_cas (sv_client v e)" for s e
    by (simp_all add: addReplyString_def upd_client_def)
  show ?thesis
    unfolding 1 2
    by (rule exI [of _ "addReplyString c (bulk p) u"], rule exI [of _ "addReplyString d shared_ok v"],
        rule exI [of _ "canonical (objval ob)"], intro conjI refl)
      (use r u k(2) assms(4) in \<open>simp_all add: is_string_def x\<close>)
qed

text \<open>C13.
  \<open>RESTORE\<close> refuses, with an error and without touching a value, a name that is taken, a time to live
  that is no number or negative, every payload whose version or checksum is wrong, and every payload
  that differs from a valid one in a single byte.
\<close>

theorem restore_refuses:
  assumes "ks_wf sv"
    and "visible (cdb c sv) (argv c sv 1) sv \<noteq> None \<or>
      (\<forall>ttl. getLongLongFromObject (Some (arg c sv 2)) = Some (Some ttl) \<longrightarrow> ttl < 0) \<or>
      \<not> verifyDumpPayload (argv c sv 3) \<or>
      (\<exists>p i b. verifyDumpPayload p \<and> i < length p \<and> b \<noteq> p ! i \<and> argv c sv 3 = p[i := b])"
  shows "\<exists>e. restoreCommand c sv = Inr (addReplyError c e (evict (cdb c sv) (argv c sv 1) sv))"
proof (cases "visible (cdb c sv) (argv c sv 1) sv")
  case (Some ob)
  then show ?thesis using assms(1) by (auto simp: restoreCommand_def Let_def lookupKeyWrite_eq)
next
  case None
  let ?u = "evict (cdb c sv) (argv c sv 1) sv"
  have u: "argv c ?u i = argv c sv i" for i by simp
  have v: "verifyDumpPayload (argv c sv 3) \<Longrightarrow> \<forall>ttl. getLongLongFromObject (Some (arg c sv 2)) = Some (Some ttl) \<longrightarrow> ttl < 0"
    using assms(2) None verify_wrong_byte by auto
  show ?thesis
  proof (rule getLongLong_arg [of c "argv c sv 2" None ?u])
    assume "getLongFromObjectOrReply c (Some (arg c sv 2)) None ?u =
      Some (None, addReplyString c (''-ERR '' @ cstr (case None of Some m \<Rightarrow> m | None \<Rightarrow> ''value is not an integer or out of range'') @ CRLF) ?u)"
    then show ?thesis using assms(1) None
      by (auto simp: restoreCommand_def Let_def lookupKeyWrite_eq addReplyError_eq)
  next
    fix n
    assume n: "getLongFromObjectOrReply c (Some (arg c sv 2)) None ?u = Some (Some n, ?u)"
      "getLongLongFromObject (Some (arg c sv 2)) = Some (Some n)"
    then show ?thesis using assms(1) None v
      by (auto simp: restoreCommand_def Let_def lookupKeyWrite_eq)
  qed
qed

theorem restore_refuses_witness:
  "\<exists>e. restoreCommand 0 (example_server [''RESTORE'', ''b'', ''0'', ''short'']) =
     Inr (addReplyError 0 e (evict 0 ''b'' (example_server [''RESTORE'', ''b'', ''0'', ''short''])))"
  using restore_refuses [of "example_server [''RESTORE'', ''b'', ''0'', ''short'']" 0] by (simp add: verifyDumpPayload_def)

lemma dump_length: "rdbSavedObjectLen demo_config (createStringObject ''x'') = Inr 2"
proof -
  have "\<not> isspace CHR ''x''" "\<not> isdigit CHR ''x''" "cstr ''x'' = ''x''" by code_simp+
  then have "rdbTryIntegerEncoding ''x'' = []" by (simp add: rdbTryIntegerEncoding_def strtoll_def Let_def)
  then show ?thesis
    by (simp add: rdbSavedObjectLen_def rdbSaveObject_def rdbSaveStringObject_def rdbSaveRawString_def demo_config_def Let_def
        createStringObject_def createObject_def rdbSaveLen_def rdbWriteRaw_def seq_save_def)
qed

theorem dump_then_restore_witness:
  "\<exists>p sv' t'. dumpCommand demo_config 0 (example_server [''DUMP'', ''a'']) = Inr sv' \<and>
     restoreCommand 0 (example_server [''RESTORE'', ''b'', ''5'', p]) = Inr t' \<and>
     map_option objval (rd_dict (sv_db t' 0) ''b'') = Some ''x'' \<and> rd_expires (sv_db t' 0) ''b'' = Some 1005"
proof -
  have x: "is_string (createStringObject ''x'') ''x''" by (simp add: is_string_def)
  obtain p where p: "createDumpPayload demo_config (createStringObject ''x'') = Inr p"
    "rdbSavedObjectLen demo_config (createStringObject ''x'') = Inr (length p - 11)"
    by (rule dump_payload [OF x, where cf = demo_config]) (auto simp: REDIS_RDB_LENERR_def)
  have "small p" using p(2) unfolding dump_length by (simp add: small_def)
  then have a: "args_ok 4 0 (example_server [''RESTORE'', ''b'', ''5'', p])" by (simp add: args_ok_def small_def)
  have d: "dec_int 5 = ''5''" by code_simp
  have v: "visible 0 ''b'' (example_server args) = None" for args by (simp add: visible_def)
  obtain sv' t' ob' where "dumpCommand demo_config 0 (example_server [''DUMP'', ''a'']) = Inr sv'"
    "restoreCommand 0 (example_server [''RESTORE'', ''b'', ''5'', p]) = Inr t'" "objval ob' = ''x''"
    "rd_dict (sv_db t' 0) = [''a'' \<mapsto> createStringObject ''x'', ''b'' \<mapsto> ob']" "rd_expires (sv_db t' 0) = [''b'' \<mapsto> 1005]"
    using dump_then_restore [where sv = "example_server [''DUMP'', ''a'']" and c = 0, OF _ _ _ _ p(1) _ a, of "''b''" 5] d v
    by (auto simp: example_visible to_int64_def)
  then show ?thesis by (intro exI [of _ p] exI [of _ sv'] exI [of _ t']) simp
qed

text \<open>A payload with a valid footer can still stop the server: a string of unknown encoding.\<close>

theorem restore_panics:
  "\<exists>p. verifyDumpPayload p \<and> restore_payload m p = Inl Panic"
proof -
  let ?q = "[CHR 0x00, CHR 0xC4]"
  show ?thesis
    by (rule exI, rule conjI, rule verify_footer [of ?q])
      (simp add: restore_payload_def rdbLoadObjectType_def rdbLoadType_def rioRead_def rioBufferRead_def rioInitWithBuffer_def
        rdbIsObjectType_def rdbLoadObject_def rdbLoadEncodedStringObject_def rdbGenericLoadStringObject_def rdbLoadLen_def
        code_def REDIS_RDB_ENC_INT8_def REDIS_RDB_ENC_INT16_def REDIS_RDB_ENC_INT32_def REDIS_RDB_ENC_LZF_def)
qed

text \<open>So can a compressed string whose compressed length is 0.\<close>

theorem restore_reads_outside:
  "\<exists>p. verifyDumpPayload p \<and> restore_payload m p = Inl Panic \<and> lzf_decompress [] 1 = None \<and> take 4 p = [CHR 0x00, CHR 0xC3, CHR 0x00, CHR 0x01]"
proof -
  let ?q = "[CHR 0x00, CHR 0xC3, CHR 0x00, CHR 0x01]"
  have z: "lzf_decompress [] (Suc 0) = None" by code_simp
  show ?thesis
    by (rule exI, rule conjI, rule verify_footer [of ?q])
      (simp add: restore_payload_def rdbLoadObjectType_def rdbLoadType_def rioRead_def rioBufferRead_def rioInitWithBuffer_def
        rdbIsObjectType_def rdbLoadObject_def rdbLoadEncodedStringObject_def rdbGenericLoadStringObject_def rdbLoadLen_def
        rdbLoadLzfStringObject_def z REDIS_RDB_LENERR_def
        code_def REDIS_RDB_ENC_INT8_def REDIS_RDB_ENC_INT16_def REDIS_RDB_ENC_INT32_def REDIS_RDB_ENC_LZF_def)
qed

end
