(* ===== verification/Spec2Isabelle.thy ===== *)
theory Spec2Isabelle
  imports Util Sds Adlist Dict Intset Aof Cmdtable Migrate
begin

text \<open>
  A verification library for the Redis 2.6.17 server, whose sources are under
  \<open>src/redis-2.6.17/src\<close> (file names below are relative to it).

  \<^bold>\<open>The program.\<close>  Redis is a single threaded server.  The event loop hands the bytes a client sends to
  \<open>networking.c\<close>, which cuts them into requests; \<open>processCommand\<close> (\<open>redis.c\<close>) looks the command up in a
  table, tests arity, password, memory, disk and replication state, and either queues it (inside
  \<open>MULTI\<close>) or runs it through \<open>call\<close>, which feeds what changed the data set to the append only file
  (\<open>aof.c\<close>) and to the slaves.  Commands work on the keyspace (\<open>db.c\<close>): databases of keys with
  values (\<open>object.c\<close>) and expire times, held in hash tables (\<open>dict.c\<close>).  Changed keys are reported to
  the clients that watch them (\<open>multi.c\<close>); published messages go to subscribers (\<open>pubsub.c\<close>).
  Underneath are dynamic strings (\<open>sds.c\<close>), linked lists (\<open>adlist.c\<close>), integer sets (\<open>intset.c\<close>), number
  conversion and glob patterns (\<open>util.c\<close>).  The data set is saved to and loaded from dump files (\<open>rdb.c\<close>)
  over streams (\<open>rio.c\<close>), and single values travel in the same format (\<open>migrate.c\<close>), with the LZF compressor
  (\<open>lzf_c.c\<close>, \<open>lzf_d.c\<close>) and a checksum (\<open>crc64.c\<close>).

  \<^bold>\<open>The theories\<close>, from the bottom up.

  \<^item> \<open>Prelude\<close>: widths and limits of C integers, bytes, characters, bounds-checked reads and the lemmas
    the components share.
  \<^item> \<open>Util\<close> (\<open>util.c\<close>): \<open>stringmatchlen\<close> byte by byte, with the reads it makes outside its arguments,
    \<open>memtoll\<close>, \<open>ll2string\<close>, \<open>string2ll\<close>.  The matcher is compared with a specification of glob patterns,
    the conversions with the decimal notation.
  \<^item> \<open>Sds\<close> (\<open>sds.c\<close>): header, spare room and buffer of a string; every operation keeps the invariant
    \<open>sds_wf\<close> and acts on the content as a list function; the parser of quoted lines and its inverse.
  \<^item> \<open>Adlist\<close> (\<open>adlist.c\<close>): nodes in an explicit heap; a refinement of HOL lists.
  \<^item> \<open>Store\<close>: the contracts of a map and of a set under sequences of operations, as locales
    (\<open>map_store\<close>, \<open>set_store\<close>).
  \<^item> \<open>Dict\<close> (\<open>dict.c\<close>): two tables of chains and incremental rehashing; interprets \<open>map_store\<close>.
    \<open>Intset\<close> (\<open>intset.c\<close>): a block of little-endian elements of 2, 4 or 8 bytes; interprets \<open>set_store\<close>.
  \<^item> \<open>Lzf\<close> (\<open>lzf_c.c\<close>, \<open>lzf_d.c\<close>) and \<open>Crc64\<close> (\<open>crc64.c\<close>): compressor and checksum, used by \<open>Rdb\<close>.
  \<^item> \<open>Object\<close> (\<open>object.c\<close>): values with type and encoding; encoding changes are invisible.
  \<^item> \<open>Server\<close> (\<open>redis.h\<close>, \<open>networking.c\<close>): the records \<open>redisDb\<close>, \<open>client\<close> and \<open>server\<close>, and the
    functions that write replies and read arguments.
  \<^item> \<open>Watch\<close> (\<open>multi.c\<close>), \<open>Db\<close> (\<open>db.c\<close>), \<open>Tstring\<close> (\<open>t_string.c\<close>), \<open>Pubsub\<close> (\<open>pubsub.c\<close>) and \<open>Evict\<close> (the
    eviction and expire cycle of \<open>redis.c\<close>): one function per operation or command handler, its
    whole effect on the server included.
  \<^item> \<open>Command\<close> (\<open>redis.c\<close>, \<open>multi.c\<close>): the command table, \<open>call\<close>, \<open>processCommand\<close>, \<open>MULTI\<close>, \<open>EXEC\<close>, \<open>DISCARD\<close>,
    \<open>AUTH\<close>, \<open>freeClient\<close>.  \<open>Cmdtable\<close>: the table as data, its flags as \<open>populateCommandTable\<close> parses
    them, and the positions of the keys of a command.
  \<^item> \<open>Signal\<close> and \<open>Effects\<close>: what every command does to watchers and to the invariant \<open>sane\<close>, by
    groups of commands, so that statements about all commands are a case analysis of the table.
  \<^item> \<open>Machine\<close>: the server as a state machine: connections, requests, the clock, the expire cycle and
    disconnections; \<open>reachable\<close> states.  \<open>Guarantees\<close>: what holds in all of them.
  \<^item> \<open>Wire\<close> (\<open>networking.c\<close>): the query buffer and its parsers.  \<open>Aof\<close> (\<open>aof.c\<close>): the text appended for a
    command, and the loader.
  \<^item> \<open>Rdb\<close> (\<open>rdb.c\<close>, \<open>rio.c\<close>): saving and loading a data set of strings, byte by byte, with every error
    exit.  \<open>Migrate\<close> (\<open>migrate.c\<close>): \<open>DUMP\<close> and \<open>RESTORE\<close>.

  \<^bold>\<open>How the model represents the program.\<close>  State is passed explicitly.  A failed assertion, a panic, a
  dereference of a bad pointer and a store outside a block are \<open>None\<close> (and so is a read outside a
  block, in the routines that take bytes from a client or a file: \<open>Util\<close>, \<open>Lzf\<close>, \<open>Wire\<close>); error returns
  are values of an option or a sum, so every exit of the source is a branch.  Machine integers are words, or
  integers with the wrap-around written out (\<open>to_int32\<close>, \<open>to_int64\<close>), wherever the code can overflow.
  Two levels of detail are used and connected: below \<open>Server\<close>, strings, lists, tables and sets have
  their memory layout and are shown to refine the mathematical value; from \<open>Server\<close> on, dictionaries
  are finite maps and strings are lists of characters.  Loops that may not end are
  \<open>partial_function\<close>s, and their return is a theorem: \<open>evict_loop\<close>, \<open>dbRandomKey\<close>, and the loops over
  a list with arbitrary links.  The other loops terminate by a measure; fuel occurs only in \<open>iterate\<close>,
  the caller's loop over an iterator, and more than the number of entries is enough.

  What the code leaves open is a parameter of the state or an argument: the iteration order of a
  dictionary (\<open>sv_iter\<close>) and its random keys (\<open>sv_rnd\<close>), which depend on the hash seed and are assumed
  only to return keys of the dictionary (\<open>sources_ok\<close>); the memory in use (\<open>sv_mem\<close>) and the idle times
  (\<open>sv_idle\<close>); the sizes of network reads; how many bytes of a dump \<open>fwrite\<close> takes and the device
  keeps; the content of the stack where the compressor keeps its uninitialised hash table and of
  the block it compresses to (\<open>cf_htab\<close>, \<open>cf_block\<close>).  A client that is being closed after its last reply
  takes no further replies (\<open>receptive\<close>); the limits on the output of a client are not modelled.

  \<^bold>\<open>What is shown.\<close>

  \<^item> Of the running server: every reachable state is well typed and without dangling clients; every
    request of the commands named there returns without a failed assertion; \<open>WATCH\<close> with \<open>EXEC\<close> is
    optimistic locking, as long as nothing is evicted or moved; a rejected command aborts its
    transaction.
  \<^item> Of the wire: requests are served in order however the network cuts them, and no input makes the
    parser fail at any turn of its loop.  Of the append only file: loading it runs the commands that were fed to it.
  \<^item> Of the commands: \<open>SET\<close>/\<open>GET\<close>, \<open>INCR\<close>, \<open>MSETNX\<close>, \<open>GETRANGE\<close>, \<open>EXPIRE\<close>, \<open>RENAME\<close>, \<open>KEYS\<close>, \<open>RANDOMKEY\<close>, \<open>PUBLISH\<close>,
    \<open>SUBSCRIBE\<close>, lazy expiry and eviction, on the branches the text of each theorem names.
  \<^item> Of the data structures: refinement of maps, sets and lists under any sequence of operations,
    rehashing, iteration, binary search, exact encodings, round trips of number and line formats.
  \<^item> Of the dumps: a data set of strings comes back from its dump file, whatever the settings of
    compression and checksum, and a value from \<open>DUMP\<close> through \<open>RESTORE\<close>; \<open>RESTORE\<close> refuses what is damaged;
    the compressor stays inside the block its caller allocates and the
    decompressor inverts it for every content of the hash table; the checksum is the polynomial
    division its header names, and it notices every single wrong byte.

  \<^bold>\<open>Not modelled.\<close>  Process start-up, configuration, the event loop, sockets, signals, logging, statistics and
  \<open>INFO\<close> (input and output around the state); replication hand-shakes, \<open>sentinel.c\<close>, Lua scripting and
  background children (other processes); \<open>MONITOR\<close>, the slow log and blocking commands; \<open>INCRBYFLOAT\<close>
  and the other conversions of floating point numbers, which rest on \<open>printf\<close> and \<open>strtod\<close>; the commands
  of lists, sets, sorted sets and hashes with their ziplist and zipmap blocks, whose values appear in
  the keyspace only as abstract contents; the bit operations of \<open>bitops.c\<close>; \<open>MIGRATE\<close>, background
  saving, and the dumps of values that are not strings.  Allocation is taken to succeed (the program aborts when it does not), and reference
  counts, which only manage memory, are left out.  Third-party code (\<open>deps\<close>) and the Java programs
  of the repository are not part of the model.
\<close>

end
